(* ===== verification/Kernel_Prelude.thy ===== *)
theory Kernel_Prelude
  imports Main "HOL-Library.Word"
begin

unbundle bit_operations_syntax

text \<open>
  Shared vocabulary of the development: the machine words of the kernel, the
  outcome type of a kernel routine (return, panic, spin, fault, block), byte
  memory with little-endian accesses, and the generic word lemmas the component
  theories use through the collections \<open>kmonad\<close> (running routines) and
  \<open>regions\<close> (who owns which address).
\<close>

type_synonym u8 = "8 word"
type_synonym u16 = "16 word"
type_synonym u32 = "32 word"
type_synonym u64 = "64 word"

text \<open>Physical memory, addressed by byte.\<close>

type_synonym bytes = "u64 \<Rightarrow> u8"

named_theorems kmonad
named_theorems regions

subsection \<open>Locks, sleep channels and outcomes\<close>

text \<open>
  The kernel's spinlocks: the static ones by name, the lock of a process, pipe,
  buffer or inode by the object that contains it.
\<close>

datatype lock_id =
    KmemLock | PidLock | WaitLock | ProcTableLock | ProcLock nat
  | BcacheLock | LogLock | ItableLock | FtableLock | TicksLock | ConsLock
  | UartLock | PrLock | VdiskLock | PipeLock u64
  | BufSleepLk nat | InodeSleepLk nat

text \<open>What a process can sleep on (the address passed to \<open>sleep\<close> and \<open>wakeup\<close>).\<close>

datatype chan =
    ProcChan nat | PipeReadChan u64 | PipeWriteChan u64 | LogChan | TicksChan
  | BufChan nat | InodeChan nat | DiskChan | DiskBufChan nat | ConsChan | UartChan

text \<open>
  What running a kernel routine leads to. \<open>Spin l\<close>: the routine spins on a lock that
  another hart holds. \<open>Fault\<close>: it follows a null pointer (page zero is in no kernel
  mapping). \<open>Hang\<close>: it loops for ever over a corrupt list. \<open>Block c s\<close>: it gave up the
  CPU in \<open>sched\<close> with the kernel in state \<open>s\<close>; every routine that sleeps re-tests its
  condition when it runs again, so what it does then is its loop again, from the state of
  that time.
\<close>

datatype ('s, 'a) outcome =
    Done 'a 's
  | Panic string
  | Spin lock_id
  | Fault
  | Hang
  | Block "chan option" 's

type_synonym ('s, 'a) kop = "'s \<Rightarrow> ('s, 'a) outcome"

definition kret :: "'a \<Rightarrow> ('s, 'a) kop" where
  "kret a = (\<lambda>s. Done a s)"

definition kbind :: "('s, 'a) kop \<Rightarrow> ('a \<Rightarrow> ('s, 'b) kop) \<Rightarrow> ('s, 'b) kop" where
  "kbind m f = (\<lambda>s. case m s of
       Done a s' \<Rightarrow> f a s'
     | Panic e \<Rightarrow> Panic e
     | Spin l \<Rightarrow> Spin l
     | Fault \<Rightarrow> Fault
     | Hang \<Rightarrow> Hang
     | Block c s' \<Rightarrow> Block c s')"

definition kseq :: "('s, unit) kop \<Rightarrow> ('s, 'b) kop \<Rightarrow> ('s, 'b) kop" where
  "kseq m n = kbind m (\<lambda>_. n)"

definition kpanic :: "string \<Rightarrow> ('s, 'a) kop" where
  "kpanic e = (\<lambda>_. Panic e)"

definition kfault :: "('s, 'a) kop" where
  "kfault = (\<lambda>_. Fault)"

definition khang :: "('s, 'a) kop" where
  "khang = (\<lambda>_. Hang)"

definition kget :: "('s \<Rightarrow> 'a) \<Rightarrow> ('s, 'a) kop" where
  "kget f = (\<lambda>s. Done (f s) s)"

definition kmod :: "('s \<Rightarrow> 's) \<Rightarrow> ('s, unit) kop" where
  "kmod f = (\<lambda>s. Done () (f s))"

definition kwhen :: "bool \<Rightarrow> ('s, unit) kop \<Rightarrow> ('s, unit) kop" where
  "kwhen b m = (if b then m else kret ())"

fun kfor :: "'i list \<Rightarrow> ('i \<Rightarrow> ('s, unit) kop) \<Rightarrow> ('s, unit) kop" where
  "kfor [] f = kret ()"
| "kfor (i # is) f = kseq (f i) (kfor is f)"

text \<open>
  A loop that may be left early: \<open>f i\<close> returns the value to leave with, or nothing to go on.
\<close>

fun kfind :: "'i list \<Rightarrow> ('i \<Rightarrow> ('s, 'r option) kop) \<Rightarrow> ('s, 'r option) kop" where
  "kfind [] f = kret None"
| "kfind (i # is) f = kbind (f i) (\<lambda>r. case r of None \<Rightarrow> kfind is f | Some v \<Rightarrow> kret (Some v))"

lemma kret_run [simp, kmonad]: "kret a s = Done a s"
  by (simp add: kret_def)

lemma kpanic_run [simp, kmonad]: "kpanic e s = Panic e"
  by (simp add: kpanic_def)

lemma kfault_run [simp, kmonad]: "kfault s = Fault"
  by (simp add: kfault_def)

lemma khang_run [simp, kmonad]: "khang s = Hang"
  by (simp add: khang_def)

lemma kget_run [simp, kmonad]: "kget f s = Done (f s) s"
  by (simp add: kget_def)

lemma kmod_run [simp, kmonad]: "kmod f s = Done () (f s)"
  by (simp add: kmod_def)

lemma kwhen_run [simp, kmonad]: "kwhen b m s = (if b then m s else Done () s)"
  by (simp add: kwhen_def)

lemma kbind_run [kmonad]:
  "kbind m f s = (case m s of Done a s' \<Rightarrow> f a s' | Panic e \<Rightarrow> Panic e | Spin l \<Rightarrow> Spin l
     | Fault \<Rightarrow> Fault | Hang \<Rightarrow> Hang | Block c s' \<Rightarrow> Block c s')"
  by (simp add: kbind_def)

lemma kseq_run [kmonad]:
  "kseq m n s = (case m s of Done _ s' \<Rightarrow> n s' | Panic e \<Rightarrow> Panic e | Spin l \<Rightarrow> Spin l
     | Fault \<Rightarrow> Fault | Hang \<Rightarrow> Hang | Block c s' \<Rightarrow> Block c s')"
  by (simp add: kseq_def kbind_def)

lemma kbind_DoneE:
  assumes "kbind m f s = Done b t"
  obtains a s' where "m s = Done a s'" and "f a s' = Done b t"
  using assms by (auto simp: kbind_def split: outcome.splits)

lemma kseq_DoneE:
  assumes "kseq m n s = Done b t"
  obtains s' where "m s = Done () s'" and "n s' = Done b t"
  using assms by (auto simp: kseq_def kbind_def split: outcome.splits)

text \<open>An invariant of every iteration is an invariant of the loop.\<close>

lemma kfor_invariant:
  assumes "kfor is f s = Done () t" and "P s"
    and "\<And>i u v. i \<in> set is \<Longrightarrow> P u \<Longrightarrow> f i u = Done () v \<Longrightarrow> P v"
  shows "P t"
  using assms
proof (induction "is" arbitrary: s)
  case Nil
  then show ?case by simp
next
  case (Cons i "is")
  from Cons.prems(1) obtain u where u: "f i s = Done () u" "kfor is f u = Done () t"
    by (auto elim: kseq_DoneE)
  have "P u" using Cons.prems(3) [of i s u] Cons.prems(2) u(1) by simp
  then show ?case by (rule Cons.IH [OF u(2)]) (rule Cons.prems(3), simp_all)
qed

lemma kfind_invariant:
  assumes "kfind is f s = Done r t" and "P s"
    and "\<And>i u r v. i \<in> set is \<Longrightarrow> P u \<Longrightarrow> f i u = Done r v \<Longrightarrow> P v"
  shows "P t"
  using assms
proof (induction "is" arbitrary: s)
  case Nil
  then show ?case by simp
next
  case (Cons i "is")
  from Cons.prems(1) obtain a u where u: "f i s = Done a u"
    "(case a of None \<Rightarrow> kfind is f | Some v \<Rightarrow> kret (Some v)) u = Done r t"
    by (auto elim: kbind_DoneE)
  have "P u" using Cons.prems(3) [of i s a u] Cons.prems(2) u(1) by simp
  with u(2) show ?case
    using Cons.IH [of u] Cons.prems(3) by (cases a) (simp_all, metis)
qed

text \<open>Skipping the iterations that leave the state alone and do not return.\<close>

lemma kfind_skip:
  assumes "\<And>i. i \<in> set is \<Longrightarrow> f i s = Done None s"
  shows "kfind (is @ js) f s = kfind js f s" and "kfind is f s = Done None s"
  using assms by (induction "is") (simp_all add: kbind_run)

lemma kfor_append: "kfor (is @ js) f s = kseq (kfor is f) (kfor js f) s"
  by (induction "is" arbitrary: s) (auto simp: kseq_run split: outcome.splits)

subsection \<open>Little-endian accesses\<close>

fun read_le :: "nat \<Rightarrow> bytes \<Rightarrow> u64 \<Rightarrow> 'a::len word" where
  "read_le 0 m a = 0"
| "read_le (Suc n) m a = ucast (m a) OR push_bit 8 (read_le n m (a + 1))"

fun write_le :: "nat \<Rightarrow> bytes \<Rightarrow> u64 \<Rightarrow> 'a::len word \<Rightarrow> bytes" where
  "write_le 0 m a v = m"
| "write_le (Suc n) m a v = write_le n (m(a := ucast v)) (a + 1) (drop_bit 8 v)"

abbreviation read64 :: "bytes \<Rightarrow> u64 \<Rightarrow> u64" where "read64 \<equiv> read_le 8"
abbreviation write64 :: "bytes \<Rightarrow> u64 \<Rightarrow> u64 \<Rightarrow> bytes" where "write64 \<equiv> write_le 8"
abbreviation read32 :: "bytes \<Rightarrow> u64 \<Rightarrow> u32" where "read32 \<equiv> read_le 4"
abbreviation write32 :: "bytes \<Rightarrow> u64 \<Rightarrow> u32 \<Rightarrow> bytes" where "write32 \<equiv> write_le 4"

text \<open>\<open>in_region a n x\<close>: address \<open>x\<close> is one of the \<open>n\<close> bytes from \<open>a\<close> on.\<close>

definition in_region :: "u64 \<Rightarrow> nat \<Rightarrow> u64 \<Rightarrow> bool" where
  "in_region a n x \<longleftrightarrow> unat (x - a) < n"

lemma unat_u64_less: "unat (x :: u64) < 2 ^ 64"
  by (rule order_less_le_trans [OF unsigned_less]) simp

lemma unat_of_nat64: "n < 2 ^ 64 \<Longrightarrow> unat (of_nat n :: u64) = n"
  by (simp add: unat_of_nat take_bit_nat_eq_self)

lemma of_nat_eq64: "i < 2 ^ 64 \<Longrightarrow> j < 2 ^ 64 \<Longrightarrow> (of_nat i :: u64) = of_nat j \<longleftrightarrow> i = j"
  by (metis unat_of_nat64)

lemma unat_diff_Suc:
  fixes x a :: u64
  assumes "x \<noteq> a"
  shows "unat (x - a) = Suc (unat (x - (a + 1)))"
proof -
  have nz: "x - a \<noteq> 0" using assms by simp
  have "unat ((x - a) - 1) = unat (x - a) - 1"
    by (rule unat_minus_one [OF nz])
  moreover have "0 < unat (x - a)" using nz unat_gt_0 by blast
  ultimately show ?thesis by (simp add: diff_diff_eq)
qed

lemma in_region_0 [simp, regions]: "\<not> in_region a 0 x"
  by (simp add: in_region_def)

lemma in_region_Suc [regions]: "in_region a (Suc n) x \<longleftrightarrow> x = a \<or> in_region (a + 1) n x"
proof (cases "x = a")
  case True
  then show ?thesis by (simp add: in_region_def)
next
  case False
  then show ?thesis using unat_diff_Suc [of x a] by (simp add: in_region_def)
qed

lemma in_region_numeral:
  "in_region a (numeral k) x \<longleftrightarrow> x = a \<or> in_region (a + 1) (pred_numeral k) x"
  by (simp only: numeral_eq_Suc in_region_Suc)

lemma in_region_1: "in_region a (Suc 0) x \<longleftrightarrow> x = a" "in_region a 1 x \<longleftrightarrow> x = a"
  by (simp_all add: in_region_Suc)

lemma in_region_mono [regions]: "in_region a n x \<Longrightarrow> n \<le> k \<Longrightarrow> in_region a k x"
  by (simp add: in_region_def)

lemma in_region_last [regions]:
  assumes "n < 2 ^ 64"
  shows "in_region a (Suc n) x \<longleftrightarrow> x = a + of_nat n \<or> in_region a n x"
proof -
  have "unat (x - a) = n \<longleftrightarrow> x - a = of_nat n"
    using assms by (auto simp: word_unat_eq_iff unat_of_nat take_bit_nat_eq_self)
  also have "\<dots> \<longleftrightarrow> x = a + of_nat n" by (auto simp: algebra_simps)
  finally show ?thesis by (auto simp: in_region_def less_Suc_eq)
qed

lemma in_region_offset_iff:
  assumes "i < 2 ^ 64"
  shows "in_region a n (a + of_nat i) \<longleftrightarrow> i < n"
  using assms by (simp add: in_region_def unat_of_nat64)

lemma not_in_region_next:
  assumes "Suc n < 2 ^ 64"
  shows "\<not> in_region (a + 1) n a"
proof -
  have "unat (a - (a + 1)) = 2 ^ 64 - 1"
    by (simp add: unsigned_minus_1_eq_mask mask_eq_exp_minus_1)
  with assms show ?thesis by (simp add: in_region_def)
qed

lemma write_le_outside:
  assumes "\<not> in_region a n x"
  shows "write_le n m a v x = m x"
  using assms
proof (induction n arbitrary: m a v)
  case 0
  then show ?case by simp
next
  case (Suc n)
  then have "x \<noteq> a" and "\<not> in_region (a + 1) n x" by (simp_all add: in_region_Suc)
  with Suc.IH show ?case by simp
qed

lemma read_le_cong:
  assumes "\<And>x. in_region a n x \<Longrightarrow> m x = m' x"
  shows "read_le n m a = read_le n m' a"
  using assms
proof (induction n arbitrary: a)
  case 0
  then show ?case by simp
next
  case (Suc n)
  then have "m x = m' x" if "x = a \<or> in_region (a + 1) n x" for x
    using that by (simp add: in_region_Suc)
  then show ?case using Suc.IH [of "a + 1"] by simp
qed

lemma drop_bit_byte_split:
  "ucast (ucast v :: u8) OR push_bit 8 (take_bit n (drop_bit 8 v)) = take_bit (n + 8) v"
  for v :: "'a::len word"
  by (rule bit_word_eqI) (auto simp: bit_simps not_le dest: bit_imp_le_length)

text \<open>Round trip: what \<open>write_le\<close> stores is what \<open>read_le\<close> returns.\<close>

lemma read_write_le_take:
  assumes "n < 2 ^ 64"
  shows "read_le n (write_le n m a v) a = take_bit (8 * n) v"
  using assms
proof (induction n arbitrary: m a v)
  case 0
  then show ?case by simp
next
  case (Suc n)
  have "write_le n (m(a := ucast v)) (a + 1) (drop_bit 8 v) a = ucast v"
    using not_in_region_next [OF Suc.prems] by (simp add: write_le_outside)
  moreover have "read_le n (write_le n (m(a := ucast v)) (a + 1) (drop_bit 8 v)) (a + 1)
      = take_bit (8 * n) (drop_bit 8 v)"
    using Suc.IH Suc.prems by simp
  ultimately show ?case using drop_bit_byte_split [of v "8 * n"] by (simp add: algebra_simps)
qed

lemma read_write64 [simp]: "read64 (write64 m a v) a = v"
  by (simp add: read_write_le_take take_bit_word_eq_self)

lemma read_write32 [simp]: "read32 (write32 m a v) a = v"
  by (simp add: read_write_le_take take_bit_word_eq_self)

lemma read_le_zero:
  assumes "\<And>x. in_region a n x \<Longrightarrow> m x = 0"
  shows "read_le n m a = 0"
proof -
  have "read_le n m a = read_le n (\<lambda>_. 0) a"
    using assms by (intro read_le_cong) auto
  also have "read_le n (\<lambda>_. 0) a = (0 :: 'a::len word)" for a
    by (induction n arbitrary: a) auto
  finally show ?thesis .
qed

end
