(* ===== verification/Kstring.thy ===== *)
theory Kstring
  imports Kernel_Prelude
begin

text \<open>
  \<^verbatim>\<open>kernel/string.c\<close> over byte memory: \<open>memset\<close>, \<open>memcmp\<close>, \<open>memmove\<close>, \<open>strncmp\<close>,
  \<open>strncpy\<close>, \<open>safestrcpy\<close> and \<open>strlen\<close>. A routine takes the memory and returns the
  memory it leaves (the pointer it returns is its first argument, unchanged). Each loop
  is a recursion that performs the loop's reads and writes one byte at a time and in
  the loop's order; the lemmas give the closed forms the rest of the kernel is
  verified with.
\<close>

subsection \<open>The routines\<close>

fun memset :: "bytes \<Rightarrow> u64 \<Rightarrow> u8 \<Rightarrow> nat \<Rightarrow> bytes" where
  "memset m dst c 0 = m"
| "memset m dst c (Suc n) = memset (m(dst := c)) (dst + 1) c n"

fun memcmp :: "bytes \<Rightarrow> u64 \<Rightarrow> u64 \<Rightarrow> nat \<Rightarrow> int" where
  "memcmp m s1 s2 0 = 0"
| "memcmp m s1 s2 (Suc n) =
     (if m s1 \<noteq> m s2 then uint (m s1) - uint (m s2) else memcmp m (s1 + 1) (s2 + 1) n)"

fun copy_down :: "bytes \<Rightarrow> u64 \<Rightarrow> u64 \<Rightarrow> nat \<Rightarrow> bytes" where
  "copy_down m d s 0 = m"
| "copy_down m d s (Suc n) = copy_down (m(d - 1 := m (s - 1))) (d - 1) (s - 1) n"

fun copy_up :: "bytes \<Rightarrow> u64 \<Rightarrow> u64 \<Rightarrow> nat \<Rightarrow> bytes" where
  "copy_up m d s 0 = m"
| "copy_up m d s (Suc n) = copy_up (m(d := m s)) (d + 1) (s + 1) n"

definition memmove :: "bytes \<Rightarrow> u64 \<Rightarrow> u64 \<Rightarrow> nat \<Rightarrow> bytes" where
  "memmove m dst src n =
     (if n = 0 then m
      else if src < dst \<and> src + of_nat n > dst
           then copy_down m (dst + of_nat n) (src + of_nat n) n
           else copy_up m dst src n)"

fun strncmp :: "bytes \<Rightarrow> u64 \<Rightarrow> u64 \<Rightarrow> nat \<Rightarrow> int" where
  "strncmp m p q 0 = 0"
| "strncmp m p q (Suc n) =
     (if m p \<noteq> 0 \<and> m p = m q then strncmp m (p + 1) (q + 1) n
      else uint (m p) - uint (m q))"

fun strncpy_copy :: "bytes \<Rightarrow> u64 \<Rightarrow> u64 \<Rightarrow> nat \<Rightarrow> bytes \<times> u64 \<times> nat" where
  "strncpy_copy m s t 0 = (m, s, 0)"
| "strncpy_copy m s t (Suc n) =
     (let m' = m(s := m t)
      in if m t \<noteq> 0 then strncpy_copy m' (s + 1) (t + 1) n else (m', s + 1, n))"

definition strncpy :: "bytes \<Rightarrow> u64 \<Rightarrow> u64 \<Rightarrow> int \<Rightarrow> bytes" where
  "strncpy m s t n = (case strncpy_copy m s t (nat n) of (m', s', k) \<Rightarrow> memset m' s' 0 k)"

fun safestrcpy_copy :: "bytes \<Rightarrow> u64 \<Rightarrow> u64 \<Rightarrow> nat \<Rightarrow> bytes \<times> u64" where
  "safestrcpy_copy m s t 0 = (m, s)"
| "safestrcpy_copy m s t (Suc n) =
     (let m' = m(s := m t)
      in if m t \<noteq> 0 then safestrcpy_copy m' (s + 1) (t + 1) n else (m', s + 1))"

definition safestrcpy :: "bytes \<Rightarrow> u64 \<Rightarrow> u64 \<Rightarrow> int \<Rightarrow> bytes" where
  "safestrcpy m s t n =
     (if n \<le> 0 then m
      else case safestrcpy_copy m s t (nat n - 1) of (m', s') \<Rightarrow> m'(s' := 0))"

partial_function (option) strlen_from :: "bytes \<Rightarrow> u64 \<Rightarrow> nat \<Rightarrow> nat option" where
  "strlen_from m s n = (if m (s + of_nat n) = 0 then Some n else strlen_from m s (Suc n))"

definition strlen :: "bytes \<Rightarrow> u64 \<Rightarrow> nat option" where
  "strlen m s = strlen_from m s 0"

text \<open>\<open>cstr m a xs\<close>: the bytes \<open>xs\<close>, none of them null, and a null byte lie at \<open>a\<close>.\<close>

primrec cstr :: "bytes \<Rightarrow> u64 \<Rightarrow> u8 list \<Rightarrow> bool" where
  "cstr m a [] \<longleftrightarrow> m a = 0"
| "cstr m a (x # xs) \<longleftrightarrow> m a = x \<and> x \<noteq> 0 \<and> cstr m (a + 1) xs"

subsection \<open>Closed forms\<close>

lemma memset_eq: "n < 2 ^ 64 \<Longrightarrow> memset m dst c n = (\<lambda>x. if in_region dst n x then c else m x)"
proof (induction n arbitrary: m dst)
  case 0
  then show ?case by simp
next
  case (Suc n)
  then show ?case by (auto simp: fun_eq_iff in_region_Suc)
qed

lemma copy_up_eq:
  assumes "n < 2 ^ 64" and "dst = src \<or> \<not> in_region src n dst"
  shows "copy_up m dst src n = (\<lambda>x. if in_region dst n x then m (src + (x - dst)) else m x)"
  using assms
proof (induction n arbitrary: m dst src)
  case 0
  then show ?case by simp
next
  case (Suc n)
  have IH: "copy_up (m(dst := m src)) (dst + 1) (src + 1) n =
      (\<lambda>x. if in_region (dst + 1) n x then (m(dst := m src)) (src + 1 + (x - (dst + 1)))
           else (m(dst := m src)) x)"
    using Suc.prems by (intro Suc.IH) (auto simp: in_region_def)
  have read: "src + (x - dst) \<noteq> dst \<or> dst = src" if "in_region (dst + 1) n x" for x
  proof (rule ccontr)
    assume "\<not> ?thesis"
    then have "x - dst = dst - src" and "dst \<noteq> src" by (auto simp: algebra_simps)
    moreover have "in_region dst (Suc n) x" using that by (simp add: in_region_Suc)
    ultimately show False using Suc.prems(2) by (simp add: in_region_def)
  qed
  have "(m(dst := m src)) (src + (x - dst)) = m (src + (x - dst))" if "in_region (dst + 1) n x" for x
    using read [OF that] by (cases "dst = src") auto
  then show ?case
    unfolding copy_up.simps IH by (auto simp: fun_eq_iff in_region_Suc simp del: fun_upd_apply)
      (simp_all add: fun_upd_def)
qed

lemma copy_down_eq:
  assumes "n < 2 ^ 64" and "src = dst \<or> \<not> in_region dst n src"
  shows "copy_down m (dst + of_nat n) (src + of_nat n) n =
     (\<lambda>x. if in_region dst n x then m (src + (x - dst)) else m x)"
  using assms
proof (induction n arbitrary: m)
  case 0
  then show ?case by simp
next
  case (Suc n)
  let ?m = "m(dst + of_nat n := m (src + of_nat n))"
  have "copy_down m (dst + of_nat (Suc n)) (src + of_nat (Suc n)) (Suc n) =
      copy_down ?m (dst + of_nat n) (src + of_nat n) n"
    by (simp add: algebra_simps)
  also have "\<dots> = (\<lambda>x. if in_region dst n x then ?m (src + (x - dst)) else ?m x)"
    using Suc.prems by (intro Suc.IH) (auto simp: in_region_def)
  also have "\<dots> = (\<lambda>x. if in_region dst (Suc n) x then m (src + (x - dst)) else m x)"
  proof -
    have "src + (x - dst) \<noteq> dst + of_nat n \<or> src = dst" if "in_region dst n x" for x
    proof (rule ccontr)
      assume "\<not> ?thesis"
      then have "src - dst = of_nat n - (x - dst)" and "src \<noteq> dst" by (auto simp: algebra_simps)
      moreover have "unat (of_nat n :: u64) = n"
        using Suc.prems(1) by (simp add: unat_of_nat take_bit_nat_eq_self)
      moreover have "x - dst \<le> of_nat n"
        using that calculation(3) by (simp add: in_region_def word_le_nat_alt)
      ultimately have "unat (src - dst) \<le> n" by (simp only: unat_sub)
      with \<open>src \<noteq> dst\<close> show False using Suc.prems(2) by (simp add: in_region_def)
    qed
    then have "?m (src + (x - dst)) = m (src + (x - dst))" if "in_region dst n x" for x
      using that by (cases "src = dst") fastforce+
    then show ?thesis
      using Suc.prems(1) by (auto simp: fun_eq_iff in_region_last simp del: fun_upd_apply)
        (simp_all add: fun_upd_def in_region_def unat_of_nat take_bit_nat_eq_self)
  qed
  finally show ?case .
qed

lemma unat_wrap_diff:
  fixes a b :: u64
  assumes "a < b"
  shows "unat (a - b) = 2 ^ 64 + unat a - unat b"
  using assms unat_u64_less [of b] by (simp add: unat_sub_if' word_less_nat_alt)

text \<open>Overlap is harmless: every byte of the destination is the byte the source had.\<close>

lemma memmove_eq:
  assumes "unat src + n < 2 ^ 64" and "unat dst + n \<le> 2 ^ 64"
  shows "memmove m dst src n = (\<lambda>x. if in_region dst n x then m (src + (x - dst)) else m x)"
proof -
  have n: "n < 2 ^ 64" using assms(1) by simp
  have end_src: "unat (src + of_nat n) = unat src + n"
    using assms(1) n by (simp add: unat_word_ariths unat_of_nat take_bit_nat_eq_self)
  show ?thesis
  proof (cases "src < dst \<and> src + of_nat n > dst")
    case True
    then have "\<not> in_region dst n src"
      using assms(2) by (simp add: in_region_def unat_wrap_diff)
    with True n show ?thesis by (auto simp: memmove_def copy_down_eq)
  next
    case False
    have "dst = src \<or> \<not> in_region src n dst"
    proof (cases "src < dst")
      case True
      with False have "unat src + n \<le> unat dst"
        using end_src by (simp add: word_less_nat_alt)
      with True show ?thesis by (auto simp: in_region_def unat_sub_if' word_less_nat_alt)
    next
      case False
      then show ?thesis
        using assms(1) by (cases "dst = src") (auto simp: in_region_def unat_wrap_diff)
    qed
    with False n show ?thesis by (auto simp: memmove_def copy_up_eq)
  qed
qed

subsection \<open>Comparisons and strings\<close>

lemma all_less_Suc_shift:
  "(\<forall>i < Suc n. P (a + of_nat i) (b + of_nat i)) \<longleftrightarrow>
     P a b \<and> (\<forall>i < n. P (a + 1 + of_nat i) (b + 1 + of_nat i))" for a b :: u64
  by (simp add: All_less_Suc2 add.assoc)

lemma uint_eq [simp]: "uint a = uint b \<longleftrightarrow> a = b" for a b :: "'a::len word"
  by (simp add: word_uint_eq_iff)

lemma uint_eq_0 [simp]: "uint a = 0 \<longleftrightarrow> a = 0" for a :: "'a::len word"
  by (simp add: uint_0_iff)

lemma memcmp_eq_0: "memcmp m s1 s2 n = 0 \<longleftrightarrow> (\<forall>i < n. m (s1 + of_nat i) = m (s2 + of_nat i))"
proof (induction n arbitrary: s1 s2)
  case 0
  then show ?case by simp
next
  case (Suc n)
  then show ?case
    using all_less_Suc_shift [of n "\<lambda>a b. m a = m b" s1 s2] by (simp del: of_nat_Suc)
qed

lemma strncmp_cstr:
  "cstr m p xs \<Longrightarrow> cstr m q ys \<Longrightarrow> strncmp m p q n = 0 \<longleftrightarrow> take n xs = take n ys"
proof (induction n arbitrary: p q xs ys)
  case 0
  then show ?case by simp
next
  case (Suc n)
  then show ?case by (cases xs; cases ys) auto
qed

lemma cstr_nth:
  "cstr m a xs \<longleftrightarrow> (\<forall>i < length xs. m (a + of_nat i) = xs ! i \<and> xs ! i \<noteq> 0)
     \<and> m (a + of_nat (length xs)) = 0"
proof (induction xs arbitrary: a)
  case Nil
  then show ?case by simp
next
  case (Cons x xs)
  have "(\<forall>i < Suc (length xs). m (a + of_nat i) = (x # xs) ! i \<and> (x # xs) ! i \<noteq> 0) \<longleftrightarrow>
      m a = x \<and> x \<noteq> 0 \<and> (\<forall>i < length xs. m (a + 1 + of_nat i) = xs ! i \<and> xs ! i \<noteq> 0)"
    by (simp add: All_less_Suc2 add.assoc)
  with Cons show ?case by (simp add: add.assoc)
qed

lemma cstr_cong:
  assumes "\<And>x. in_region a (Suc (length xs)) x \<Longrightarrow> m x = m' x"
  shows "cstr m a xs \<longleftrightarrow> cstr m' a xs"
  using assms
proof (induction xs arbitrary: a)
  case Nil
  then show ?case by (simp add: in_region_Suc)
next
  case (Cons x xs)
  have "cstr m (a + 1) xs \<longleftrightarrow> cstr m' (a + 1) xs"
    by (rule Cons.IH) (use Cons.prems in_region_Suc [of a "Suc (length xs)"] in auto)
  moreover have "m a = m' a" using Cons.prems [of a] by (simp add: in_region_Suc)
  ultimately show ?case by simp
qed

lemma strlen_from_cstr: "cstr m (s + of_nat n) xs \<Longrightarrow> strlen_from m s n = Some (n + length xs)"
proof (induction xs arbitrary: n)
  case Nil
  then show ?case by (simp add: strlen_from.simps)
next
  case (Cons x xs)
  then have "strlen_from m s (Suc n) = Some (Suc n + length xs)"
    by (intro Cons.IH) (simp add: algebra_simps)
  with Cons.prems show ?case by (subst strlen_from.simps) simp
qed

text \<open>The copying loop shared by \<open>strncpy\<close> and \<open>safestrcpy\<close>.\<close>

lemma safestrcpy_copy_strncpy:
  "safestrcpy_copy m s t n = (case strncpy_copy m s t n of (m', s', _) \<Rightarrow> (m', s'))"
  by (induction n arbitrary: m s t) (auto simp: Let_def)

lemma strncpy_copy_eq:
  assumes "cstr m t xs" and "n < 2 ^ 64" and "length xs < 2 ^ 63"
    and "\<And>x. in_region s n x \<Longrightarrow> \<not> in_region t (Suc (length xs)) x"
  shows "strncpy_copy m s t n =
    (let k = min n (Suc (length xs))
     in (\<lambda>x. if in_region s k x then m (t + (x - s)) else m x, s + of_nat k, n - k))"
  using assms
proof (induction n arbitrary: m s t xs)
  case 0
  then show ?case by simp
next
  case (Suc n)
  show ?case
  proof (cases xs)
    case Nil
    with Suc.prems(1) show ?thesis by (auto simp: fun_eq_iff in_region_Suc)
  next
    case (Cons c ys)
    let ?m = "m(s := c)"
    have c: "m t = c" "c \<noteq> 0" and tl: "cstr m (t + 1) ys" using Suc.prems(1) Cons by simp_all
    have far: "\<not> in_region t (Suc (length xs)) s"
      using Suc.prems(4) [of s] by (simp add: in_region_Suc)
    then have far': "\<not> in_region (t + 1) (Suc (length ys)) s"
      using Cons by (simp add: in_region_Suc)
    have tl': "cstr ?m (t + 1) ys"
      by (rule iffD1 [OF cstr_cong tl]) (use far' in auto)
    have IH: "strncpy_copy ?m (s + 1) (t + 1) n =
      (let k = min n (Suc (length ys))
       in (\<lambda>x. if in_region (s + 1) k x then ?m (t + 1 + (x - (s + 1))) else ?m x,
           s + 1 + of_nat k, n - k))"
      using Suc.prems Cons by (intro Suc.IH tl') (auto simp: in_region_Suc)
    have "t + (x - s) \<noteq> s" if "in_region (s + 1) (min n (Suc (length ys))) x" for x
    proof -
      have "in_region s (Suc (min n (Suc (length ys)))) x" using that by (simp add: in_region_Suc)
      then have "in_region t (Suc (length xs)) (t + (x - s))" using Cons by (simp add: in_region_def)
      with far show ?thesis by metis
    qed
    then show ?thesis using c Cons IH by (auto simp: fun_eq_iff in_region_Suc Let_def)
  qed
qed

lemma safestrcpy_eq:
  assumes "cstr m t xs" and "0 < n" and "n < 2 ^ 31" and "length xs < 2 ^ 63"
    and "\<And>x. in_region s (nat n) x \<Longrightarrow> \<not> in_region t (Suc (length xs)) x"
  shows "safestrcpy m s t n =
    (let k = min (nat n - 1) (Suc (length xs))
     in (\<lambda>x. if in_region s k x then m (t + (x - s)) else m x)(s + of_nat k := 0))"
proof -
  have "strncpy_copy m s t (nat n - 1) =
    (let k = min (nat n - 1) (Suc (length xs))
     in (\<lambda>x. if in_region s k x then m (t + (x - s)) else m x, s + of_nat k, nat n - 1 - k))"
    using assms(2-5) in_region_mono [of s "nat n - 1" _ "nat n"]
    by (intro strncpy_copy_eq [OF assms(1)]) auto
  with assms(2) show ?thesis by (simp add: safestrcpy_def safestrcpy_copy_strncpy Let_def)
qed

subsection \<open>Properties\<close>

text \<open>
  C32 (functional). \<open>memmove\<close> copies correctly even when the two buffers overlap: each of
  the \<open>n\<close> destination bytes holds the byte the source held before the call, and no
  byte outside the destination changes.
\<close>

theorem memmove_correct:
  assumes "unat src + n < 2 ^ 64" and "unat dst + n < 2 ^ 64"
  shows "(\<forall>i < n. memmove m dst src n (dst + of_nat i) = m (src + of_nat i))
       \<and> (\<forall>x. \<not> in_region dst n x \<longrightarrow> memmove m dst src n x = m x)"
proof -
  have "memmove m dst src n (dst + of_nat i) = m (src + of_nat i)" if "i < n" for i
    using assms that by (simp add: memmove_eq in_region_offset_iff)
  with assms show ?thesis by (simp add: memmove_eq)
qed

theorem memmove_correct_witness:
  "memmove ucast 101 100 3 101 = (100 :: u8) \<and> memmove ucast 101 100 3 102 = (101 :: u8)
   \<and> memmove ucast 101 100 3 103 = (102 :: u8) \<and> memmove ucast 101 100 3 100 = (100 :: u8)"
proof -
  have "memmove ucast 101 100 3 (101 + of_nat i) = (ucast (100 + of_nat i :: u64) :: u8)"
    if "i < 3" for i
    using that memmove_correct [of 100 3 101 ucast] by simp
  from this [of 0] this [of 1] this [of 2] show ?thesis
    using memmove_correct [of 100 3 101 ucast] by (simp add: in_region_numeral in_region_1)
qed

text \<open>
  \<open>safestrcpy\<close> always leaves a null-terminated string in its \<open>n\<close>-byte buffer,
  namely the first \<open>n - 1\<close> bytes of the source string, and writes nothing outside
  the buffer.
\<close>

theorem safestrcpy_terminated:
  assumes "cstr m t xs" and "0 < n" and "n < 2 ^ 31" and "length xs < 2 ^ 63"
    and "\<And>x. in_region s (nat n) x \<Longrightarrow> \<not> in_region t (Suc (length xs)) x"
  shows "cstr (safestrcpy m s t n) s (take (nat n - 1) xs)
       \<and> (\<forall>x. \<not> in_region s (nat n) x \<longrightarrow> safestrcpy m s t n x = m x)"
proof -
  define k where "k = min (nat n - 1) (Suc (length xs))"
  have k: "k < nat n" "k < 2 ^ 64" using assms(2,3) by (auto simp: k_def)
  have eq: "safestrcpy m s t n = (\<lambda>x. if in_region s k x then m (t + (x - s)) else m x)(s + of_nat k := 0)"
    using safestrcpy_eq [OF assms] by (simp add: k_def Let_def)
  have src: "m (t + of_nat i) = xs ! i" "xs ! i \<noteq> 0" if "i < length xs" for i
    using assms(1) that by (simp_all add: cstr_nth)
  have at: "safestrcpy m s t n (s + of_nat i) = (if i = k then 0 else m (t + of_nat i))" if "i \<le> k" for i
    using that k(2) by (auto simp: eq in_region_offset_iff of_nat_eq64)
  have "m (t + of_nat (length xs)) = 0" using assms(1) by (simp add: cstr_nth)
  then have "cstr (safestrcpy m s t n) s (take (nat n - 1) xs)"
    by (auto simp: cstr_nth at src k_def min_def)
  moreover have "safestrcpy m s t n x = m x" if "\<not> in_region s (nat n) x" for x
    using that k in_region_offset_iff [of k s "nat n"] by (auto simp: eq dest: in_region_mono [of s k _ "nat n"])
  ultimately show ?thesis by blast
qed

definition hello_mem :: bytes where
  "hello_mem = (\<lambda>_. 7)(200 := 104, 201 := 105, 202 := 0)"

theorem safestrcpy_terminated_witness:
  "cstr (safestrcpy hello_mem 100 200 2) 100 [104]"
proof -
  have "\<not> in_region 200 (Suc (length [104 :: u8, 105])) x" if "in_region 100 (nat 2) x" for x
    using that by (auto simp: in_region_numeral in_region_Suc)
  then show ?thesis
    using safestrcpy_terminated [of hello_mem 200 "[104, 105]" 2 100] by (simp add: hello_mem_def)
qed

end
