(* ===== verification/Spinlock.thy ===== *)
theory Spinlock
  imports Kernel_Prelude
begin

text \<open>
  The machine the kernel runs on, as far as every component sees it (physical
  memory, per-CPU state, the spinlocks, the linker's symbols), and
  \<^verbatim>\<open>kernel/spinlock.c\<close> with the CPU accessors of \<^verbatim>\<open>kernel/proc.c\<close>. The state records of
  the later components extend \<open>machine\<close>.

  The first part models each routine as one hart runs it: \<open>acquire\<close> on a lock
  that is held elsewhere is the outcome \<open>Spin\<close>. The lemmas show that acquire and
  release undo each other under \<open>machine_ok\<close>, so a critical section is
  transparent for the rest of the kernel. The second part lets any number of
  harts interleave the individual memory accesses of acquire and release on one lock
  and proves mutual exclusion. C's signed \<open>int\<close> counters are \<open>int\<close>.
\<close>

subsection \<open>State\<close>

record spinlock =
  lk_locked :: u32
  lk_name :: string
  lk_cpu :: "nat option"

record cpu =
  cpu_proc :: "nat option"
  noff :: int
  intena :: bool
  sie :: bool \<comment> \<open>the SIE bit of the hart's \<open>sstatus\<close>\<close>

record machine =
  mem :: bytes
  cpus :: "nat \<Rightarrow> cpu"
  hart :: nat \<comment> \<open>register \<open>tp\<close> of the running hart\<close>
  locks :: "lock_id \<Rightarrow> spinlock"
  sym_end :: u64
  sym_etext :: u64
  sym_trampoline :: u64

subsection \<open>CPU accessors and interrupt nesting\<close>

definition cpuid :: "'z machine_scheme \<Rightarrow> nat" where
  "cpuid s = hart s"

definition mycpu :: "'z machine_scheme \<Rightarrow> cpu" where
  "mycpu s = cpus s (cpuid s)"

definition set_mycpu :: "cpu \<Rightarrow> 'z machine_scheme \<Rightarrow> 'z machine_scheme" where
  "set_mycpu c s = s\<lparr>cpus := (cpus s)(cpuid s := c)\<rparr>"

definition myproc :: "'z machine_scheme \<Rightarrow> nat option" where
  "myproc s = cpu_proc (mycpu s)"

definition intr_get :: "'z machine_scheme \<Rightarrow> bool" where
  "intr_get s = sie (mycpu s)"

definition intr_on :: "('z machine_scheme, unit) kop" where
  "intr_on = kmod (\<lambda>s. set_mycpu ((mycpu s)\<lparr>sie := True\<rparr>) s)"

definition intr_off :: "('z machine_scheme, unit) kop" where
  "intr_off = kmod (\<lambda>s. set_mycpu ((mycpu s)\<lparr>sie := False\<rparr>) s)"

definition push_off :: "('z machine_scheme, unit) kop" where
  "push_off =
     kbind (kget intr_get) (\<lambda>old.
     kseq intr_off
     (kmod (\<lambda>s. let c = mycpu s;
                     c1 = (if noff c = 0 then c\<lparr>intena := old\<rparr> else c)
                 in set_mycpu (c1\<lparr>noff := noff c1 + 1\<rparr>) s)))"

definition pop_off :: "('z machine_scheme, unit) kop" where
  "pop_off = (\<lambda>s.
     if intr_get s then Panic ''pop_off - interruptible''
     else if noff (mycpu s) < 1 then Panic ''pop_off''
     else let c = (mycpu s)\<lparr>noff := noff (mycpu s) - 1\<rparr>
          in (kseq (kmod (set_mycpu c)) (kwhen (noff c = 0 \<and> intena c) intr_on)) s)"

definition myproc_safe :: "('z machine_scheme, nat option) kop" where
  "myproc_safe = kseq push_off (kbind (kget myproc) (\<lambda>p. kseq pop_off (kret p)))"

subsection \<open>Locks\<close>

definition set_lock :: "lock_id \<Rightarrow> spinlock \<Rightarrow> 'z machine_scheme \<Rightarrow> 'z machine_scheme" where
  "set_lock l k s = s\<lparr>locks := (locks s)(l := k)\<rparr>"

definition initlock :: "lock_id \<Rightarrow> string \<Rightarrow> ('z machine_scheme, unit) kop" where
  "initlock l name = kmod (set_lock l \<lparr>lk_locked = 0, lk_name = name, lk_cpu = None\<rparr>)"

definition holding :: "lock_id \<Rightarrow> 'z machine_scheme \<Rightarrow> bool" where
  "holding l s \<longleftrightarrow> lk_locked (locks s l) \<noteq> 0 \<and> lk_cpu (locks s l) = Some (cpuid s)"

definition acquire :: "lock_id \<Rightarrow> ('z machine_scheme, unit) kop" where
  "acquire l =
     kseq push_off (\<lambda>s.
       if holding l s then Panic ''acquire''
       else if lk_locked (locks s l) \<noteq> 0 then Spin l
       else Done () (set_lock l ((locks s l)\<lparr>lk_locked := 1, lk_cpu := Some (cpuid s)\<rparr>) s))"

definition release :: "lock_id \<Rightarrow> ('z machine_scheme, unit) kop" where
  "release l = (\<lambda>s.
     if \<not> holding l s then Panic ''release''
     else kseq (kmod (set_lock l ((locks s l)\<lparr>lk_cpu := None, lk_locked := 0\<rparr>))) pop_off s)"

subsection \<open>Critical sections are transparent\<close>

text \<open>
  The interrupt bookkeeping is consistent: interrupts are off while nested, the saved
  enable bit is current outside any nesting, and a free lock names no holder.
\<close>

definition machine_ok :: "'z machine_scheme \<Rightarrow> bool" where
  "machine_ok s \<longleftrightarrow> 0 \<le> noff (mycpu s)
     \<and> (0 < noff (mycpu s) \<longrightarrow> \<not> sie (mycpu s))
     \<and> (noff (mycpu s) = 0 \<longrightarrow> intena (mycpu s) = sie (mycpu s))
     \<and> (\<forall>l. lk_locked (locks s l) = 0 \<longrightarrow> lk_cpu (locks s l) = None)"

abbreviation lock_free :: "lock_id \<Rightarrow> 'z machine_scheme \<Rightarrow> bool" where
  "lock_free l s \<equiv> lk_locked (locks s l) = 0"

definition hold :: "lock_id \<Rightarrow> 'z machine_scheme \<Rightarrow> 'z machine_scheme" where
  "hold l s = s\<lparr>
     cpus := (cpus s)(hart s := (mycpu s)\<lparr>noff := noff (mycpu s) + 1,
       intena := (if noff (mycpu s) = 0 then sie (mycpu s) else intena (mycpu s)), sie := False\<rparr>),
     locks := (locks s)(l := (locks s l)\<lparr>lk_locked := 1, lk_cpu := Some (hart s)\<rparr>)\<rparr>"

definition unhold :: "lock_id \<Rightarrow> 'z machine_scheme \<Rightarrow> 'z machine_scheme" where
  "unhold l s = s\<lparr>
     cpus := (cpus s)(hart s := (mycpu s)\<lparr>noff := noff (mycpu s) - 1,
       sie := (noff (mycpu s) = 1 \<and> intena (mycpu s))\<rparr>),
     locks := (locks s)(l := (locks s l)\<lparr>lk_cpu := None, lk_locked := 0\<rparr>)\<rparr>"

lemmas cpu_defs = mycpu_def cpuid_def set_mycpu_def set_lock_def

lemma push_off_run: "push_off s = Done () (set_mycpu ((mycpu s)\<lparr>noff := noff (mycpu s) + 1,
    intena := (if noff (mycpu s) = 0 then sie (mycpu s) else intena (mycpu s)), sie := False\<rparr>) s)"
  by (cases "cpus s (hart s)")
    (simp add: push_off_def intr_off_def intr_get_def kbind_run kseq_run cpu_defs Let_def)

lemma acquire_ok:
  assumes "lock_free l s"
  shows "acquire l s = Done () (hold l s)"
  using assms
  by (simp add: acquire_def push_off_run kseq_run holding_def hold_def cpu_defs)

lemma acquire_again:
  assumes "holding l s"
  shows "acquire l s = Panic ''acquire''"
  using assms
  by (simp add: acquire_def push_off_run kseq_run holding_def cpu_defs)

lemma acquire_other:
  assumes "\<not> lock_free l s" and "lk_cpu (locks s l) \<noteq> Some (hart s)"
  shows "acquire l s = Spin l"
  using assms
  by (simp add: acquire_def push_off_run kseq_run holding_def cpu_defs)

lemma release_ok:
  assumes "holding l s" and "0 < noff (mycpu s)" and "\<not> sie (mycpu s)"
  shows "release l s = Done () (unhold l s)"
  using assms
  by (cases s, cases "cpus s (hart s)")
    (auto simp: release_def holding_def pop_off_def kseq_run intr_get_def intr_on_def unhold_def
      cpu_defs Let_def)

lemma unhold_hold:
  assumes "machine_ok s" and "lock_free l s"
  shows "unhold l (hold l s) = s"
proof -
  have "lk_cpu (locks s l) = None" using assms by (simp add: machine_ok_def)
  then show ?thesis
    using assms
    by (cases s, cases "cpus s (hart s)", cases "locks s l")
      (auto simp: machine_ok_def hold_def unhold_def cpu_defs fun_upd_idem_iff)
qed

lemma machine_ok_hold: "machine_ok s \<Longrightarrow> machine_ok (hold l s)"
  by (auto simp: machine_ok_def hold_def cpu_defs)

lemma hold_simps [simp]:
  "mem (hold l s) = mem s" "hart (hold l s) = hart s" "sym_end (hold l s) = sym_end s"
  "sym_etext (hold l s) = sym_etext s" "sym_trampoline (hold l s) = sym_trampoline s"
  "myproc (hold l s) = myproc s" "noff (mycpu (hold l s)) = noff (mycpu s) + 1"
  "\<not> sie (mycpu (hold l s))" "holding l' (hold l s) \<longleftrightarrow> l' = l \<or> holding l' s"
  "lk_locked (locks (hold l s) l') = (if l' = l then 1 else lk_locked (locks s l'))"
  by (auto simp: hold_def holding_def myproc_def cpu_defs)

lemma mem_update_simps [simp]:
  "hold l (mem_update f s) = mem_update f (hold l s)"
  "unhold l (mem_update f s) = mem_update f (unhold l s)"
  "machine_ok (mem_update f s) = machine_ok s"
  "holding l (mem_update f s) = holding l s"
  "mycpu (mem_update f s) = mycpu s" "myproc (mem_update f s) = myproc s"
  by (simp_all add: hold_def unhold_def machine_ok_def holding_def myproc_def cpu_defs)

lemma machine_ok_noff: "machine_ok s \<Longrightarrow> 0 < noff (mycpu s) + 1"
  by (simp add: machine_ok_def)

lemma hold_commute: "l \<noteq> l' \<Longrightarrow> hold l (hold l' s) = hold l' (hold l s)"
  by (cases s, cases "cpus s (hart s)") (auto simp: hold_def cpu_defs fun_upd_twist)

subsection \<open>The contract of a lock\<close>

text \<open>
  What the rest of the kernel relies on: taking a free lock succeeds, giving it back
  restores the state exactly, and holding one lock leaves the others as they are.
\<close>

locale mutex =
  fixes acq :: "'l \<Rightarrow> ('s, unit) kop"
    and rel :: "'l \<Rightarrow> ('s, unit) kop"
    and free :: "'l \<Rightarrow> 's \<Rightarrow> bool"
    and held :: "'l \<Rightarrow> 's \<Rightarrow> 's"
    and ok :: "'s \<Rightarrow> bool"
  assumes acq_free: "ok s \<Longrightarrow> free l s \<Longrightarrow> acq l s = Done () (held l s)"
    and rel_held: "ok s \<Longrightarrow> free l s \<Longrightarrow> rel l (held l s) = Done () s"
    and ok_held: "ok s \<Longrightarrow> free l s \<Longrightarrow> ok (held l s)"
    and free_held: "l' \<noteq> l \<Longrightarrow> free l' (held l s) = free l' s"
    and acq_held: "ok s \<Longrightarrow> free l s \<Longrightarrow> acq l (held l s) = Panic ''acquire''"
begin

lemma bracket: "ok s \<Longrightarrow> free l s \<Longrightarrow> kseq (acq l) (rel l) s = Done () s"
  by (simp add: kseq_run acq_free rel_held)

lemma bracket_each:
  assumes "ok s" and "\<forall>l \<in> set ls. free l s"
  shows "kfor ls (\<lambda>l. kseq (acq l) (rel l)) s = Done () s"
  using assms(2) by (induction ls) (auto simp: kseq_run acq_free rel_held assms(1))

lemma bracket_nested:
  assumes "ok s" and "distinct ls" and "\<forall>l \<in> set ls. free l s"
  shows "kseq (kfor ls acq) (kfor (rev ls) rel) s = Done () s"
  using assms
proof (induction ls arbitrary: s)
  case Nil
  then show ?case by (simp add: kseq_run)
next
  case (Cons l ls)
  then have "acq l s = Done () (held l s)" by (simp add: acq_free)
  moreover have "free k (held l s)" if "k \<in> set ls" for k
    using that Cons.prems free_held [of k l s] by auto
  then have "kseq (kfor ls acq) (kfor (rev ls) rel) (held l s) = Done () (held l s)"
    using Cons.prems by (intro Cons.IH) (auto simp: ok_held)
  ultimately show ?case
    using Cons.prems by (auto simp: kseq_run kfor_append rel_held split: outcome.splits)
qed

end

interpretation spin: mutex acquire release lock_free hold machine_ok
proof unfold_locales
  fix s :: "'a machine_scheme" and l
  assume s: "machine_ok s" "lock_free l s"
  show "acquire l s = Done () (hold l s)" using s(2) by (rule acquire_ok)
  show "release l (hold l s) = Done () s"
    using s machine_ok_noff [OF s(1)] by (simp add: release_ok unhold_hold)
  show "machine_ok (hold l s)" using s(1) by (rule machine_ok_hold)
  show "acquire l (hold l s) = Panic ''acquire''" by (rule acquire_again) simp
qed simp

subsection \<open>All harts together\<close>

text \<open>
  One lock and any number of harts. A hart is outside, spinning, past the successful
  swap, inside with the holder recorded, or inside \<open>release\<close> after it cleared the holder;
  each rule is one memory access of \<open>acquire\<close> or \<open>release\<close> (the two loads of \<open>holding\<close> are one), or one of their panics.
\<close>

datatype lock_pc = Outside | Spinning | Swapped | Inside | Cleared | Panicked

record lock_sys =
  sl_locked :: u32
  sl_cpu :: "nat option"
  sl_pc :: "nat \<Rightarrow> lock_pc"

definition lock_sys_init :: lock_sys where
  "lock_sys_init = \<lparr>sl_locked = 0, sl_cpu = None, sl_pc = (\<lambda>_. Outside)\<rparr>"

inductive lock_step :: "lock_sys \<Rightarrow> lock_sys \<Rightarrow> bool" where
  acquire_check: "sl_pc s i = Outside \<Longrightarrow> \<not> (sl_locked s \<noteq> 0 \<and> sl_cpu s = Some i) \<Longrightarrow>
    lock_step s (s\<lparr>sl_pc := (sl_pc s)(i := Spinning)\<rparr>)"
| acquire_panic: "sl_pc s i = Outside \<Longrightarrow> sl_locked s \<noteq> 0 \<Longrightarrow> sl_cpu s = Some i \<Longrightarrow>
    lock_step s (s\<lparr>sl_pc := (sl_pc s)(i := Panicked)\<rparr>)"
| swap_fail: "sl_pc s i = Spinning \<Longrightarrow> sl_locked s \<noteq> 0 \<Longrightarrow> lock_step s (s\<lparr>sl_locked := 1\<rparr>)"
| swap_ok: "sl_pc s i = Spinning \<Longrightarrow> sl_locked s = 0 \<Longrightarrow>
    lock_step s (s\<lparr>sl_locked := 1, sl_pc := (sl_pc s)(i := Swapped)\<rparr>)"
| record_cpu: "sl_pc s i = Swapped \<Longrightarrow>
    lock_step s (s\<lparr>sl_cpu := Some i, sl_pc := (sl_pc s)(i := Inside)\<rparr>)"
| release_panic: "sl_pc s i = Inside \<Longrightarrow> \<not> (sl_locked s \<noteq> 0 \<and> sl_cpu s = Some i) \<Longrightarrow>
    lock_step s (s\<lparr>sl_pc := (sl_pc s)(i := Panicked)\<rparr>)"
| clear_cpu: "sl_pc s i = Inside \<Longrightarrow> sl_locked s \<noteq> 0 \<Longrightarrow> sl_cpu s = Some i \<Longrightarrow>
    lock_step s (s\<lparr>sl_cpu := None, sl_pc := (sl_pc s)(i := Cleared)\<rparr>)"
| unlock: "sl_pc s i = Cleared \<Longrightarrow>
    lock_step s (s\<lparr>sl_locked := 0, sl_pc := (sl_pc s)(i := Outside)\<rparr>)"

inductive lock_reach :: "lock_sys \<Rightarrow> bool" where
  lock_start: "lock_reach lock_sys_init"
| lock_next: "lock_reach s \<Longrightarrow> lock_step s t \<Longrightarrow> lock_reach t"

abbreviation owns :: "lock_sys \<Rightarrow> nat \<Rightarrow> bool" where
  "owns s i \<equiv> sl_pc s i \<in> {Swapped, Inside, Cleared}"

definition lock_owner_inv :: "nat option \<Rightarrow> lock_sys \<Rightarrow> bool" where
  "lock_owner_inv w s \<longleftrightarrow> (sl_locked s \<noteq> 0 \<longleftrightarrow> w \<noteq> None)
     \<and> (\<forall>i. owns s i \<longleftrightarrow> w = Some i)
     \<and> (\<forall>i. sl_cpu s = Some i \<longleftrightarrow> sl_pc s i = Inside)
     \<and> (\<forall>i. sl_pc s i \<noteq> Panicked)"

definition lock_sys_inv :: "lock_sys \<Rightarrow> bool" where
  "lock_sys_inv s \<longleftrightarrow> (\<exists>w. lock_owner_inv w s)"

lemma lock_owner_invD:
  assumes "lock_owner_inv w s"
  shows "(owns s i \<longleftrightarrow> w = Some i) \<and> (sl_cpu s = Some i \<longleftrightarrow> sl_pc s i = Inside)
    \<and> (sl_locked s = 0 \<longleftrightarrow> w = None) \<and> sl_pc s i \<noteq> Panicked"
  using assms unfolding lock_owner_inv_def by blast

lemma lock_step_inv: "lock_step s t \<Longrightarrow> lock_sys_inv s \<Longrightarrow> lock_sys_inv t"
proof (induction rule: lock_step.induct)
  case (acquire_check s i)
  then obtain w where inv: "lock_owner_inv w s" by (auto simp: lock_sys_inv_def)
  then have "w \<noteq> Some i" "sl_cpu s \<noteq> Some i"
    using acquire_check lock_owner_invD [OF inv, of i] by auto
  with inv have "lock_owner_inv w (s\<lparr>sl_pc := (sl_pc s)(i := Spinning)\<rparr>)"
    by (auto simp: lock_owner_inv_def split: if_splits)
  then show ?case by (auto simp: lock_sys_inv_def)
next
  case (acquire_panic s i)
  then obtain w where inv: "lock_owner_inv w s" by (auto simp: lock_sys_inv_def)
  with acquire_panic show ?case using lock_owner_invD [OF inv, of i] by auto
next
  case (swap_fail s i)
  then show ?case by (auto simp: lock_sys_inv_def lock_owner_inv_def)
next
  case (swap_ok s i)
  then obtain w where inv: "lock_owner_inv w s" by (auto simp: lock_sys_inv_def)
  then have "w = None" "sl_cpu s \<noteq> Some i"
    using swap_ok lock_owner_invD [OF inv, of i] by auto
  with inv have "lock_owner_inv (Some i) (s\<lparr>sl_locked := 1, sl_pc := (sl_pc s)(i := Swapped)\<rparr>)"
    by (auto simp: lock_owner_inv_def split: if_splits)
  then show ?case by (auto simp: lock_sys_inv_def)
next
  case (record_cpu s i)
  then obtain w where inv: "lock_owner_inv w s" by (auto simp: lock_sys_inv_def)
  then have "w = Some i" using record_cpu lock_owner_invD [OF inv, of i] by auto
  with inv record_cpu have "lock_owner_inv w (s\<lparr>sl_cpu := Some i, sl_pc := (sl_pc s)(i := Inside)\<rparr>)"
    by (auto simp: lock_owner_inv_def split: if_splits)
  then show ?case by (auto simp: lock_sys_inv_def)
next
  case (release_panic s i)
  then obtain w where inv: "lock_owner_inv w s" by (auto simp: lock_sys_inv_def)
  with release_panic show ?case using lock_owner_invD [OF inv, of i] by auto
next
  case (clear_cpu s i)
  then obtain w where inv: "lock_owner_inv w s" by (auto simp: lock_sys_inv_def)
  then have "w = Some i" using clear_cpu lock_owner_invD [OF inv, of i] by auto
  with inv clear_cpu have "lock_owner_inv w (s\<lparr>sl_cpu := None, sl_pc := (sl_pc s)(i := Cleared)\<rparr>)"
    by (auto simp: lock_owner_inv_def split: if_splits)
  then show ?case by (auto simp: lock_sys_inv_def)
next
  case (unlock s i)
  then obtain w where inv: "lock_owner_inv w s" by (auto simp: lock_sys_inv_def)
  then have "w = Some i" using unlock lock_owner_invD [OF inv, of i] by auto
  with inv unlock have "lock_owner_inv None (s\<lparr>sl_locked := 0, sl_pc := (sl_pc s)(i := Outside)\<rparr>)"
    by (auto simp: lock_owner_inv_def split: if_splits)
  then show ?case by (auto simp: lock_sys_inv_def)
qed

lemma lock_reach_inv: "lock_reach s \<Longrightarrow> lock_sys_inv s"
proof (induction rule: lock_reach.induct)
  case lock_start
  show ?case by (simp add: lock_sys_inv_def lock_owner_inv_def lock_sys_init_def)
next
  case (lock_next s t)
  then show ?case by (blast intro: lock_step_inv)
qed

subsection \<open>Properties\<close>

text \<open>
  C2 (safety). In every interleaving of any number of harts, two harts are never between a
  successful \<open>acquire\<close> and the end of \<open>release\<close> at the same time, and neither of the two
  panics of \<^verbatim>\<open>spinlock.c\<close> is ever reached by harts that acquire and release in turn.
\<close>

theorem spinlock_mutual_exclusion:
  assumes "lock_reach s"
  shows "(owns s i \<longrightarrow> owns s j \<longrightarrow> i = j) \<and> sl_pc s i \<noteq> Panicked"
proof -
  from lock_reach_inv [OF assms] obtain w where "lock_owner_inv w s"
    by (auto simp: lock_sys_inv_def)
  then show ?thesis using lock_owner_invD [of w s i] lock_owner_invD [of w s j] by auto
qed

lemma lock_reach_example:
  "lock_reach \<lparr>sl_locked = 1, sl_cpu = None, sl_pc = (\<lambda>_. Outside)(0 := Swapped)\<rparr>"
proof -
  have "lock_reach (lock_sys_init\<lparr>sl_pc := (sl_pc lock_sys_init)(0 := Spinning)\<rparr>)"
    by (rule lock_next [OF lock_start], rule acquire_check) (simp_all add: lock_sys_init_def)
  from lock_next [OF this swap_ok [of _ 0]] show ?thesis
    by (simp add: lock_sys_init_def)
qed

theorem spinlock_mutual_exclusion_witness:
  "let s = \<lparr>sl_locked = 1, sl_cpu = None, sl_pc = (\<lambda>_. Outside)(0 := Swapped)\<rparr>
   in owns s 0 \<and> \<not> owns s 1 \<and> sl_pc s 0 \<noteq> Panicked"
  using spinlock_mutual_exclusion [OF lock_reach_example, of 0 1] by simp


definition boot_machine :: machine where
  "boot_machine = \<lparr>mem = (\<lambda>_. 0),
     cpus = (\<lambda>_. \<lparr>cpu_proc = None, noff = 0, intena = True, sie = True\<rparr>), hart = 0,
     locks = (\<lambda>_. \<lparr>lk_locked = 0, lk_name = [], lk_cpu = None\<rparr>),
     sym_end = 0x80022000, sym_etext = 0x80008000, sym_trampoline = 0x80007000\<rparr>"

lemma boot_machine_ok: "machine_ok boot_machine" and boot_machine_free: "lock_free l boot_machine"
  by (simp_all add: boot_machine_def machine_ok_def cpu_defs)


end
