(* ===== verification/Kalloc.thy ===== *)
theory Kalloc
  imports Riscv Kstring Spinlock
begin

text \<open>
  \<^verbatim>\<open>kernel/kalloc.c\<close>: the physical page allocator and the per-page reference counts
  that the threads' shared address spaces use. The free list is threaded through
  the free pages themselves, so its links live in \<open>mem\<close>; \<open>freelist_at\<close> relates
  them to a list of pages. The lemmas show that \<open>kalloc\<close> and \<open>kfree\<close> implement a
  stack of distinct, aligned, in-range pages and touch no memory but the page they hand
  over; the contract is the locale \<open>page_allocator\<close>.
\<close>

record kmem = machine +
  freelist :: u64
  refcount :: "nat \<Rightarrow> int"

definition kfree :: "u64 \<Rightarrow> ('z kmem_scheme, unit) kop" where
  "kfree pa = (\<lambda>s.
     if pa mod PGSIZE \<noteq> 0 \<or> pa < sym_end s \<or> pa \<ge> PHYSTOP then Panic ''kfree''
     else
       (kseq (kmod (\<lambda>s. s\<lparr>mem := memset (mem s) pa 1 4096\<rparr>))
       (kseq (acquire KmemLock)
       (kseq (kmod (\<lambda>s. s\<lparr>mem := write64 (mem s) pa (freelist s)\<rparr>))
       (kseq (kmod (\<lambda>s. s\<lparr>freelist := pa\<rparr>))
       (release KmemLock))))) s)"

definition kalloc :: "('z kmem_scheme, u64) kop" where
  "kalloc =
     kseq (acquire KmemLock)
     (kbind (kget freelist) (\<lambda>r.
      kseq (kwhen (r \<noteq> 0) (kmod (\<lambda>s. s\<lparr>freelist := read64 (mem s) r\<rparr>)))
     (kseq (release KmemLock)
     (kseq (kwhen (r \<noteq> 0) (kmod (\<lambda>s. s\<lparr>mem := memset (mem s) r 5 4096\<rparr>)))
     (kret r)))))"

function freerange_loop :: "u64 \<Rightarrow> u64 \<Rightarrow> ('z kmem_scheme, unit) kop" where
  "freerange_loop p pa_end =
     (if p \<le> p + PGSIZE \<and> p + PGSIZE \<le> pa_end
      then kseq (kfree p) (freerange_loop (p + PGSIZE) pa_end)
      else kret ())"
  by pat_completeness auto
termination
proof (relation "measure (\<lambda>(p, e). unat e - unat p)")
  fix p e :: u64
  assume "p \<le> p + PGSIZE \<and> p + PGSIZE \<le> e"
  then have "unat (p + PGSIZE) = unat p + unat PGSIZE" and "unat (p + PGSIZE) \<le> unat e"
    by (simp_all only: unat_plus_simple [symmetric] word_le_nat_alt [symmetric])
  then show "((p + PGSIZE, e), p, e) \<in> measure (\<lambda>(p, e). unat e - unat p)" by simp
qed simp

declare freerange_loop.simps [simp del]

definition freerange :: "u64 \<Rightarrow> u64 \<Rightarrow> ('z kmem_scheme, unit) kop" where
  "freerange pa_start pa_end = freerange_loop (PGROUNDUP pa_start) pa_end"

definition kinit :: "('z kmem_scheme, unit) kop" where
  "kinit = kseq (initlock KmemLock ''kmem'') (\<lambda>s. freerange (sym_end s) PHYSTOP s)"

text \<open>
  The index is the C \<open>int\<close> of \<open>pa >> PGSHIFT\<close>; outside the array the access is a fault.
\<close>

definition ref_index :: "u64 \<Rightarrow> int" where
  "ref_index pa = sint (ucast (drop_bit PGSHIFT pa) :: 32 word)"

definition kref_add :: "int \<Rightarrow> u64 \<Rightarrow> ('z kmem_scheme, int) kop" where
  "kref_add d pa =
     (let idx = ref_index pa
      in kseq (acquire KmemLock)
        (if idx < 0 \<or> idx \<ge> 0x88000 then kfault
         else kseq (kmod (\<lambda>s. s\<lparr>refcount := (refcount s)(nat idx := refcount s (nat idx) + d)\<rparr>))
             (kbind (kget (\<lambda>s. refcount s (nat idx))) (\<lambda>numrefs.
              kseq (release KmemLock) (kret numrefs)))))"

definition kref_inc :: "u64 \<Rightarrow> ('z kmem_scheme, int) kop" where
  "kref_inc pa = kref_add 1 pa"

definition kref_dec :: "u64 \<Rightarrow> ('z kmem_scheme, int) kop" where
  "kref_dec pa = kref_add (- 1) pa"

subsection \<open>Running the routines\<close>

lemma kmem_hold [simp]:
  "freelist (hold l s) = freelist s" "refcount (hold l s) = refcount s"
  "hold l (freelist_update f s) = freelist_update f (hold l s)"
  "unhold l (freelist_update f s) = freelist_update f (unhold l s)"
  "machine_ok (freelist_update f s) = machine_ok s"
  "holding l (freelist_update f s) = holding l s"
  "mycpu (freelist_update f s) = mycpu s" "myproc (freelist_update f s) = myproc s"
  "hold l (refcount_update g s) = refcount_update g (hold l s)"
  "unhold l (refcount_update g s) = refcount_update g (unhold l s)"
  "machine_ok (refcount_update g s) = machine_ok s"
  "holding l (refcount_update g s) = holding l s"
  "mycpu (refcount_update g s) = mycpu s" "myproc (refcount_update g s) = myproc s"
  by (simp_all add: hold_def unhold_def machine_ok_def holding_def myproc_def cpu_defs)

lemma unhold_hold_simp [simp]:
  "machine_ok s \<Longrightarrow> lock_free l s \<Longrightarrow> unhold l (hold l s) = s"
  by (rule unhold_hold)

lemma kalloc_run:
  assumes "machine_ok s" and "lock_free KmemLock s"
  shows "kalloc s =
    (if freelist s = 0 then Done 0 s
     else Done (freelist s)
       (s\<lparr>freelist := read64 (mem s) (freelist s), mem := memset (mem s) (freelist s) 5 4096\<rparr>))"
  using assms machine_ok_noff [OF assms(1)]
  by (simp add: kalloc_def kseq_run kbind_run spin.acq_free release_ok)

lemma kfree_run:
  assumes "machine_ok s" and "lock_free KmemLock s"
    and "page_aligned pa" and "sym_end s \<le> pa" and "pa < PHYSTOP"
  shows "kfree pa s =
    Done () (s\<lparr>mem := write64 (memset (mem s) pa 1 4096) pa (freelist s), freelist := pa\<rparr>)"
  using assms machine_ok_noff [OF assms(1)]
  by (simp add: kfree_def kseq_run acquire_ok release_ok page_aligned_def not_le)

lemma ref_index_small:
  assumes "pa < PHYSTOP"
  shows "ref_index pa = uint (drop_bit 12 pa)" and "uint (drop_bit 12 pa) < 0x88000"
proof -
  have "uint pa < 0x88000000" using assms by (simp add: word_less_def)
  then show lim: "uint (drop_bit 12 pa) < 0x88000"
    by (simp add: drop_bit_eq_div uint_div)
  then have "take_bit 32 (uint (drop_bit 12 pa)) = uint (drop_bit 12 pa)"
    by (intro take_bit_int_eq_self) auto
  with lim show "ref_index pa = uint (drop_bit 12 pa)"
    by (simp add: ref_index_def sint_uint unsigned_ucast_eq)
      (rule signed_take_bit_int_eq_self, rule order_trans [of _ 0], simp_all)
qed

lemma kref_add_run:
  assumes "machine_ok s" and "lock_free KmemLock s" and "pa < PHYSTOP"
  shows "kref_add d pa s = (let i = unat (drop_bit 12 pa)
     in Done (refcount s i + d) (s\<lparr>refcount := (refcount s)(i := refcount s i + d)\<rparr>))"
  using assms machine_ok_noff [OF assms(1)] ref_index_small [OF assms(3)]
  by (simp add: kref_add_def kseq_run kbind_run acquire_ok release_ok Let_def)

subsection \<open>The free list as a list of pages\<close>

primrec freelist_at :: "bytes \<Rightarrow> u64 \<Rightarrow> u64 list \<Rightarrow> bool" where
  "freelist_at m p [] \<longleftrightarrow> p = 0"
| "freelist_at m p (x # xs) \<longleftrightarrow> p = x \<and> x \<noteq> 0 \<and> freelist_at m (read64 m x) xs"

definition page_ok :: "'z kmem_scheme \<Rightarrow> u64 \<Rightarrow> bool" where
  "page_ok s p \<longleftrightarrow> page_aligned p \<and> 0 < sym_end s \<and> sym_end s \<le> p \<and> p < PHYSTOP"

definition kmem_inv :: "'z kmem_scheme \<Rightarrow> u64 list \<Rightarrow> bool" where
  "kmem_inv s xs \<longleftrightarrow> machine_ok s \<and> lock_free KmemLock s \<and> freelist_at (mem s) (freelist s) xs
     \<and> distinct xs \<and> (\<forall>p \<in> set xs. page_ok s p)"

lemma freelist_at_cong:
  assumes "\<And>x a. x \<in> set xs \<Longrightarrow> in_region x 8 a \<Longrightarrow> m a = m' a"
  shows "freelist_at m p xs \<longleftrightarrow> freelist_at m' p xs"
  using assms
proof (induction xs arbitrary: p)
  case Nil
  then show ?case by simp
next
  case (Cons x xs)
  have "read64 m x = read64 m' x"
    using Cons.prems [of x] by (intro read_le_cong) simp
  moreover have "freelist_at m (read64 m' x) xs \<longleftrightarrow> freelist_at m' (read64 m' x) xs"
    by (rule Cons.IH) (rule Cons.prems, simp_all)
  ultimately show ?case by simp
qed

lemma freelist_at_other_pages:
  assumes "\<forall>p \<in> P. page_aligned p \<and> p \<notin> set xs" and "\<forall>x \<in> set xs. page_aligned x"
    and "\<And>a. \<forall>p \<in> P. \<not> in_region p 4096 a \<Longrightarrow> m' a = m a"
  shows "freelist_at m' q xs \<longleftrightarrow> freelist_at m q xs"
proof (rule freelist_at_cong)
  fix x a assume x: "x \<in> set xs" and "in_region x 8 a"
  then have "in_region x 4096 a" by (auto intro: in_region_mono)
  then have "\<forall>p \<in> P. \<not> in_region p 4096 a"
    using pages_disjoint [of _ x a] assms(1,2) x by blast
  then show "m' a = m a" by (rule assms(3))
qed

lemma freelist_at_other_page:
  assumes "page_aligned p" and "p \<notin> set xs" and "\<forall>x \<in> set xs. page_aligned x"
    and "\<And>a. \<not> in_region p 4096 a \<Longrightarrow> m' a = m a"
  shows "freelist_at m' q xs \<longleftrightarrow> freelist_at m q xs"
  using assms by (intro freelist_at_other_pages [of "{p}"]) auto

lemma kalloc_empty: "kmem_inv s [] \<Longrightarrow> kalloc s = Done 0 s"
  by (simp add: kmem_inv_def kalloc_run)

text \<open>Allocation pops the first free page and fills it with 5s.\<close>

lemma kalloc_pop:
  assumes "kmem_inv s (p # ps)"
  obtains t where "kalloc s = Done p t" and "kmem_inv t ps"
    and "t = s\<lparr>freelist := freelist t, mem := memset (mem s) p 5 4096\<rparr>"
proof
  let ?t = "s\<lparr>freelist := read64 (mem s) p, mem := memset (mem s) p 5 4096\<rparr>"
  from assms have s: "machine_ok s" "lock_free KmemLock s" "freelist s = p" "p \<noteq> 0"
    and ok: "page_ok s p" "p \<notin> set ps" "distinct ps" "\<forall>q \<in> set ps. page_ok s q"
    and tl: "freelist_at (mem s) (read64 (mem s) p) ps"
    by (auto simp: kmem_inv_def)
  show "kalloc s = Done p ?t" using s by (simp add: kalloc_run)
  have "freelist_at (memset (mem s) p 5 4096) (read64 (mem s) p) ps"
    using ok by (intro iffD2 [OF freelist_at_other_page tl]) (auto simp: page_ok_def memset_eq)
  then show "kmem_inv ?t ps" using s ok by (simp add: kmem_inv_def page_ok_def)
qed simp

text \<open>Freeing a page that is not free pushes it.\<close>

lemma kfree_push:
  assumes "kmem_inv s ps" and "page_ok s p" and "p \<notin> set ps"
  obtains t where "kfree p s = Done () t" and "kmem_inv t (p # ps)"
    and "t = s\<lparr>mem := mem t, freelist := p\<rparr>"
    and "\<And>a. \<not> in_region p 4096 a \<Longrightarrow> mem t a = mem s a"
proof
  let ?m = "write64 (memset (mem s) p 1 4096) p (freelist s)"
  let ?t = "s\<lparr>mem := ?m, freelist := p\<rparr>"
  from assms have s: "machine_ok s" "lock_free KmemLock s" "freelist_at (mem s) (freelist s) ps"
    and p: "page_aligned p" "sym_end s \<le> p" "p < PHYSTOP" "p \<noteq> 0"
    by (auto simp: kmem_inv_def page_ok_def)
  show "kfree p s = Done () ?t" using s p by (simp add: kfree_run)
  show frame: "mem ?t a = mem s a" if "\<not> in_region p 4096 a" for a
  proof -
    have "\<not> in_region p 8 a" using that in_region_mono [of p 8 a 4096] by auto
    then show ?thesis using that by (simp add: write_le_outside memset_eq)
  qed
  have "freelist_at ?m (freelist s) ps"
    using assms(1,3) p(1) frame
    by (intro iffD2 [OF freelist_at_other_page s(3)]) (auto simp: kmem_inv_def page_ok_def)
  then show "kmem_inv ?t (p # ps)"
    using assms p by (auto simp: kmem_inv_def page_ok_def)
qed simp

lemma kfree_bad: "\<not> page_aligned pa \<or> pa < sym_end s \<or> PHYSTOP \<le> pa \<Longrightarrow> kfree pa s = Panic ''kfree''"
  by (auto simp: kfree_def page_aligned_def)

subsection \<open>The contract of the page allocator\<close>

locale page_allocator =
  fixes alloc :: "('s, u64) kop"
    and dealloc :: "u64 \<Rightarrow> ('s, unit) kop"
    and free_pages :: "'s \<Rightarrow> u64 list \<Rightarrow> bool"
    and valid_page :: "'s \<Rightarrow> u64 \<Rightarrow> bool"
  assumes alloc_nil: "free_pages s [] \<Longrightarrow> alloc s = Done 0 s"
    and alloc_cons: "free_pages s (p # ps) \<Longrightarrow> \<exists>t. alloc s = Done p t \<and> free_pages t ps"
    and dealloc_push: "free_pages s ps \<Longrightarrow> valid_page s p \<Longrightarrow> p \<notin> set ps \<Longrightarrow>
      \<exists>t. dealloc p s = Done () t \<and> free_pages t (p # ps)"
    and free_valid: "free_pages s ps \<Longrightarrow> distinct ps \<and> (\<forall>p \<in> set ps. valid_page s p \<and> p \<noteq> 0)"
begin

text \<open>A page that is given back is the next page handed out.\<close>

lemma dealloc_alloc:
  assumes "free_pages s ps" and "valid_page s p" and "p \<notin> set ps"
  shows "\<exists>t. kseq (dealloc p) alloc s = Done p t \<and> free_pages t ps"
proof -
  from dealloc_push [OF assms] obtain u where "dealloc p s = Done () u" "free_pages u (p # ps)"
    by blast
  then show ?thesis using alloc_cons [of u p ps] by (simp add: kseq_run)
qed

fun alloc_n :: "nat \<Rightarrow> ('s, u64 list) kop" where
  "alloc_n 0 = kret []"
| "alloc_n (Suc n) = kbind alloc (\<lambda>p. kbind (alloc_n n) (\<lambda>ps. kret (p # ps)))"

text \<open>As many allocations as there are free pages succeed, with pairwise distinct pages.\<close>

lemma alloc_n_take:
  assumes "free_pages s ps" and "n \<le> length ps"
  shows "\<exists>t. alloc_n n s = Done (take n ps) t \<and> free_pages t (drop n ps)"
  using assms
proof (induction n arbitrary: s ps)
  case 0
  then show ?case by simp
next
  case (Suc n)
  then obtain p qs where ps: "ps = p # qs" by (cases ps) auto
  with alloc_cons Suc.prems obtain u where "alloc s = Done p u" "free_pages u qs" by blast
  with Suc.IH [of u qs] Suc.prems ps show ?case by (auto simp: kbind_run)
qed

end

interpretation kmem: page_allocator kalloc kfree kmem_inv page_ok
proof unfold_locales
  fix s :: "'a kmem_scheme" and p ps
  show "kmem_inv s [] \<Longrightarrow> kalloc s = Done 0 s" by (rule kalloc_empty)
  show "kmem_inv s (p # ps) \<Longrightarrow> \<exists>t. kalloc s = Done p t \<and> kmem_inv t ps"
    by (auto elim: kalloc_pop)
  show "kmem_inv s ps \<Longrightarrow> page_ok s p \<Longrightarrow> p \<notin> set ps \<Longrightarrow>
      \<exists>t. kfree p s = Done () t \<and> kmem_inv t (p # ps)"
    by (auto elim: kfree_push)
  show "kmem_inv s ps \<Longrightarrow> distinct ps \<and> (\<forall>p \<in> set ps. page_ok s p \<and> p \<noteq> 0)"
    by (auto simp: kmem_inv_def page_ok_def)
qed

subsection \<open>Initialisation\<close>

definition pages_from :: "u64 \<Rightarrow> nat \<Rightarrow> u64 list" where
  "pages_from p n = map (\<lambda>i. p + of_nat i * PGSIZE) [0..<n]"

lemma pages_from_Suc: "pages_from p (Suc n) = p # pages_from (p + PGSIZE) n"
  by (simp add: pages_from_def upt_conv_Cons map_Suc_upt [symmetric] del: upt_Suc)

lemma freerange_loop_pages:
  assumes "kmem_inv s xs" and "page_aligned p" and "0 < sym_end s" and "sym_end s \<le> p"
    and "unat e = unat p + 4096 * n + r" and "r < 4096" and "e \<le> PHYSTOP" and "\<forall>q \<in> set xs. q < p"
  shows "\<exists>t. freerange_loop p e s = Done () t \<and> kmem_inv t (rev (pages_from p n) @ xs)"
  using assms
proof (induction n arbitrary: s p xs)
  case 0
  have "\<not> (p \<le> p + PGSIZE \<and> p + PGSIZE \<le> e)"
  proof
    assume "p \<le> p + PGSIZE \<and> p + PGSIZE \<le> e"
    then have "unat (p + PGSIZE) = unat p + unat PGSIZE" and "unat (p + PGSIZE) \<le> unat e"
      by (simp_all only: unat_plus_simple [symmetric] word_le_nat_alt [symmetric])
    with 0 show False by simp
  qed
  with 0 show ?case by (subst freerange_loop.simps) (auto simp: pages_from_def)
next
  case (Suc n)
  have e: "unat e \<le> 0x88000000" using Suc.prems(7) by (simp add: word_le_nat_alt)
  then have step: "unat (p + PGSIZE) = unat p + 4096"
    using Suc.prems(5) unat_add_lem [of p PGSIZE] by simp
  have go: "p \<le> p + PGSIZE \<and> p + PGSIZE \<le> e"
    using Suc.prems(5) step by (simp add: word_le_nat_alt)
  have ok: "page_ok s p" "p \<notin> set xs"
    using Suc.prems e by (auto simp: page_ok_def word_less_nat_alt)
  obtain u where u: "kfree p s = Done () u" "kmem_inv u (p # xs)" "u = s\<lparr>mem := mem u, freelist := p\<rparr>"
    using kfree_push [OF Suc.prems(1) ok] by blast
  have sym: "sym_end u = sym_end s" by (subst u(3)) simp
  have "\<exists>t. freerange_loop (p + PGSIZE) e u = Done () t \<and>
      kmem_inv t (rev (pages_from (p + PGSIZE) n) @ p # xs)"
  proof (rule Suc.IH [OF u(2)])
    show "page_aligned (p + PGSIZE)" using Suc.prems(2) by (simp add: page_aligned_unat step)
    show "sym_end u \<le> p + PGSIZE" using Suc.prems(4) go sym by auto
    show "\<forall>q \<in> set (p # xs). q < p + PGSIZE"
      using Suc.prems(8) step by (auto simp: word_less_nat_alt)
  qed (use Suc.prems sym step in simp_all)
  with u(1) go show ?case
    by (subst freerange_loop.simps) (simp add: kseq_run pages_from_Suc)
qed

subsection \<open>Properties\<close>

text \<open>
  C7 (refinement). On a well-formed free list, \<open>kalloc\<close> and \<open>kfree\<close> are the pop and push of
  a stack of distinct pages: \<open>kalloc\<close> returns 0 exactly when the list is empty and
  otherwise its first page, changing no byte outside that page; a page that is freed
  is the next one allocated, with the rest of the list intact. \<open>kfree\<close> of a page changes no byte outside it, and \<open>kfree\<close> of an address that is not
  aligned, lies below the end of the kernel image or not below \<open>PHYSTOP\<close> panics.
\<close>

theorem kalloc_kfree_stack:
  assumes "kmem_inv s ps"
  shows "(\<exists>t. kalloc s = Done (if ps = [] then 0 else hd ps) t \<and> kmem_inv t (tl ps)
            \<and> (\<forall>a. \<not> (ps \<noteq> [] \<and> in_region (hd ps) 4096 a) \<longrightarrow> mem t a = mem s a))
       \<and> (page_ok s q \<and> q \<notin> set ps \<longrightarrow> (\<exists>t. kseq (kfree q) kalloc s = Done q t \<and> kmem_inv t ps))
       \<and> (page_ok s q \<and> q \<notin> set ps \<longrightarrow> (\<exists>t. kfree q s = Done () t \<and> kmem_inv t (q # ps)
            \<and> (\<forall>a. \<not> in_region q 4096 a \<longrightarrow> mem t a = mem s a)))
       \<and> (\<not> page_aligned q \<or> q < sym_end s \<or> PHYSTOP \<le> q \<longrightarrow> kfree q s = Panic ''kfree'')"
proof -
  have pop: "\<exists>t. kalloc s = Done (if ps = [] then 0 else hd ps) t \<and> kmem_inv t (tl ps)
      \<and> (\<forall>a. \<not> (ps \<noteq> [] \<and> in_region (hd ps) 4096 a) \<longrightarrow> mem t a = mem s a)"
  proof (cases ps)
    case Nil
    with assms show ?thesis by (auto simp: kalloc_empty)
  next
    case (Cons p qs)
    with assms obtain t where t: "kalloc s = Done p t" "kmem_inv t qs"
      "t = s\<lparr>freelist := freelist t, mem := memset (mem s) p 5 4096\<rparr>" by (auto elim: kalloc_pop)
    have "mem t = memset (mem s) p 5 4096" by (subst t(3)) simp
    with t Cons show ?thesis by (auto simp: memset_eq)
  qed
  have push: "\<exists>t. kfree q s = Done () t \<and> kmem_inv t (q # ps) \<and> (\<forall>a. \<not> in_region q 4096 a \<longrightarrow> mem t a = mem s a)"
    if "page_ok s q" "q \<notin> set ps"
    using kfree_push [OF assms that] by metis
  show ?thesis using pop push kmem.dealloc_alloc [OF assms] kfree_bad [of q s] by blast
qed

definition one_page :: kmem where
  "one_page = machine.extend boot_machine \<lparr>freelist = 0x87FFF000, refcount = (\<lambda>_. 0)\<rparr>"

lemma one_page_inv: "kmem_inv one_page [0x87FFF000]"
  by (simp add: one_page_def boot_machine_def machine.defs kmem_inv_def machine_ok_def cpu_defs
      page_ok_def page_aligned_def read_le_zero)

theorem kalloc_kfree_stack_witness:
  "(\<exists>t. kalloc one_page = Done 0x87FFF000 t \<and> kmem_inv t [])
   \<and> (\<exists>t. kseq (kfree 0x87FFE000) kalloc one_page = Done 0x87FFE000 t \<and> kmem_inv t [0x87FFF000])
   \<and> kfree 0x87FFE008 one_page = Panic ''kfree''"
  using kalloc_kfree_stack [OF one_page_inv, of "0x87FFE000"] kalloc_kfree_stack [OF one_page_inv, of "0x87FFE008"]
  by (auto simp: one_page_def boot_machine_def machine.defs page_ok_def page_aligned_def)

text \<open>
  C31 (functional). \<open>kinit\<close> builds the free list out of every whole page between the end of the
  kernel image and \<open>PHYSTOP\<close>, each exactly once, for any image that ends below \<open>PHYSTOP\<close>.
\<close>

theorem kinit_frees_all_memory:
  assumes "machine_ok s" and "freelist s = 0" and "0 < sym_end s" and "sym_end s \<le> PHYSTOP"
  shows "\<exists>t. kinit s = Done () t \<and>
    kmem_inv t (rev (pages_from (PGROUNDUP (sym_end s)) ((unat PHYSTOP - unat (PGROUNDUP (sym_end s))) div 4096)))"
proof -
  let ?u = "set_lock KmemLock \<lparr>lk_locked = 0, lk_name = ''kmem'', lk_cpu = None\<rparr> s"
  have u: "kmem_inv ?u []"
    using assms(1,2) by (auto simp: kmem_inv_def machine_ok_def cpu_defs)
  have small: "unat (sym_end s) \<le> 0x88000000" using assms(4) by (simp add: word_le_nat_alt)
  then have up: "unat (PGROUNDUP (sym_end s)) = (unat (sym_end s) + 4095) div 4096 * 4096"
    by (intro unat_PGROUNDUP) simp
  have ge: "unat (sym_end s) \<le> unat (PGROUNDUP (sym_end s))" using up by simp
  have le: "unat (PGROUNDUP (sym_end s)) \<le> 0x88000000" using up small by simp
  have "\<exists>t. freerange_loop (PGROUNDUP (sym_end s)) PHYSTOP ?u = Done () t \<and> kmem_inv t (rev (pages_from
      (PGROUNDUP (sym_end s)) ((unat PHYSTOP - unat (PGROUNDUP (sym_end s))) div 4096)) @ [])"
  proof (rule freerange_loop_pages [OF u])
    show "unat PHYSTOP = unat (PGROUNDUP (sym_end s)) +
        4096 * ((unat PHYSTOP - unat (PGROUNDUP (sym_end s))) div 4096) +
        (unat PHYSTOP - unat (PGROUNDUP (sym_end s))) mod 4096" using le by simp
    show "sym_end ?u \<le> PGROUNDUP (sym_end s)"
      using ge by (simp add: set_lock_def word_le_nat_alt)
  qed (use assms(3) in \<open>simp_all add: set_lock_def\<close>)
  then show ?thesis by (simp add: kinit_def initlock_def freerange_def kseq_run set_lock_def)
qed

theorem kinit_frees_all_memory_witness:
  "\<exists>t. kinit (one_page\<lparr>freelist := 0, sym_end := 0x87FFD800\<rparr>) = Done () t
       \<and> kmem_inv t [0x87FFF000, 0x87FFE000]"
  using kinit_frees_all_memory [of "one_page\<lparr>freelist := 0, sym_end := 0x87FFD800\<rparr>"]
  by (simp add: one_page_def boot_machine_def machine.defs machine_ok_def cpu_defs PGROUNDUP_def
      pages_from_def upt_conv_Cons)

end
