(* ===== verification/Vm.thy ===== *)
theory Vm
  imports Kalloc
begin

text \<open>
  \<^verbatim>\<open>kernel/vm.c\<close> (and \<open>proc_mapstacks\<close>, which it calls): Sv39 page tables kept in
  physical memory, user address spaces, and copying between kernel and user. Page
  tables are bytes of \<open>mem\<close>, read and written entry by entry with \<open>read64\<close> and
  \<open>write64\<close>, so aliasing between tables and pages is what the hardware would see.
  A routine that returns an address returns 0 for a null pointer; page zero is in no
  kernel mapping, so following a null page table is \<open>Fault\<close>. Kernel-side buffers of the
  copy routines are byte lists. The loops that step an address by \<open>PGSIZE\<close> stop at
  \<open>MAXVA\<close> with the panic of the \<open>walk\<close> that the next iteration would make, which is
  also what makes them terminate.
\<close>

record vm = kmem +
  kernel_pagetable :: u64
  satp :: "nat \<Rightarrow> u64"

subsection \<open>Walking a page table\<close>

fun walk_level :: "nat \<Rightarrow> u64 \<Rightarrow> u64 \<Rightarrow> bool \<Rightarrow> ('z kmem_scheme, u64) kop" where
  "walk_level 0 pagetable va alloc = kret (pagetable + PX 0 va * 8)"
| "walk_level (Suc level) pagetable va alloc = (\<lambda>s.
     let pte = pagetable + PX (Suc level) va * 8
     in if read64 (mem s) pte AND PTE_V \<noteq> 0
        then walk_level level (PTE2PA (read64 (mem s) pte)) va alloc s
        else if \<not> alloc then Done 0 s
        else kbind kalloc (\<lambda>new.
          if new = 0 then kret 0
          else kseq (kmod (\<lambda>s. s\<lparr>mem := memset (mem s) new 0 4096\<rparr>))
              (kseq (kmod (\<lambda>s. s\<lparr>mem := write64 (mem s) pte (PA2PTE new OR PTE_V)\<rparr>))
              (walk_level level new va alloc))) s)"

definition walk :: "u64 \<Rightarrow> u64 \<Rightarrow> bool \<Rightarrow> ('z kmem_scheme, u64) kop" where
  "walk pagetable va alloc =
     (if va \<ge> MAXVA then kpanic ''walk''
      else if pagetable = 0 then kfault
      else walk_level 2 pagetable va alloc)"

definition walkaddr :: "u64 \<Rightarrow> u64 \<Rightarrow> ('z kmem_scheme, u64) kop" where
  "walkaddr pagetable va =
     (if va \<ge> MAXVA then kret 0
      else kbind (walk pagetable va False) (\<lambda>pte s.
        let e = read64 (mem s) pte
        in if pte = 0 then Done 0 s
           else if e AND PTE_V = 0 then Done 0 s
           else if e AND PTE_U = 0 then Done 0 s
           else Done (PTE2PA e) s))"

subsection \<open>Adding and removing mappings\<close>

lemma below_MAXVA_step: "\<not> MAXVA \<le> a \<Longrightarrow> unat (a + PGSIZE) = unat a + 4096"
proof -
  assume "\<not> MAXVA \<le> a"
  then have "unat a < 0x4000000000" by (simp add: word_le_nat_alt)
  then show ?thesis using unat_add_lem [of a PGSIZE] by simp
qed

lemma below_MAXVA_less: "\<not> MAXVA \<le> a \<Longrightarrow> unat a < 0x4000000000"
  by (simp add: word_le_nat_alt)

function mappages_loop :: "u64 \<Rightarrow> u64 \<Rightarrow> u64 \<Rightarrow> u64 \<Rightarrow> u64 \<Rightarrow> ('z kmem_scheme, int) kop" where
  "mappages_loop pagetable a last_a pa perm =
     (if a \<ge> MAXVA then kpanic ''walk''
      else kbind (walk pagetable a True) (\<lambda>pte.
        if pte = 0 then kret (- 1)
        else kbind (kget (\<lambda>s. read64 (mem s) pte)) (\<lambda>e.
          if e AND PTE_V \<noteq> 0 then kpanic ''mappages: remap''
          else kseq (kmod (\<lambda>s. s\<lparr>mem := write64 (mem s) pte (PA2PTE pa OR perm OR PTE_V)\<rparr>))
            (if a = last_a then kret 0
             else mappages_loop pagetable (a + PGSIZE) last_a (pa + PGSIZE) perm))))"
  by pat_completeness auto
termination
  by (relation "measure (\<lambda>(_, a, _). 0x4000001000 - unat a)")
    (auto dest: below_MAXVA_less simp: below_MAXVA_step)

declare mappages_loop.simps [simp del]

definition mappages :: "u64 \<Rightarrow> u64 \<Rightarrow> u64 \<Rightarrow> u64 \<Rightarrow> u64 \<Rightarrow> ('z kmem_scheme, int) kop" where
  "mappages pagetable va sz pa perm =
     (if sz = 0 then kpanic ''mappages: size''
      else mappages_loop pagetable (PGROUNDDOWN va) (PGROUNDDOWN (va + sz - 1)) pa perm)"

definition kvmmap :: "u64 \<Rightarrow> u64 \<Rightarrow> u64 \<Rightarrow> u64 \<Rightarrow> u64 \<Rightarrow> ('z kmem_scheme, unit) kop" where
  "kvmmap kpgtbl va pa sz perm =
     kbind (mappages kpgtbl va sz pa perm) (\<lambda>r. if r \<noteq> 0 then kpanic ''kvmmap'' else kret ())"

definition unmap_page :: "u64 \<Rightarrow> u64 \<Rightarrow> bool \<Rightarrow> ('z kmem_scheme, unit) kop" where
  "unmap_page pagetable a do_free =
     kbind (walk pagetable a False) (\<lambda>pte.
       if pte = 0 then kpanic ''uvmunmap: walk''
       else kbind (kget (\<lambda>s. read64 (mem s) pte)) (\<lambda>e.
         if e AND PTE_V = 0 then kpanic ''uvmunmap: not mapped''
         else if PTE_FLAGS e = PTE_V then kpanic ''uvmunmap: not a leaf''
         else kseq (kwhen do_free (kfree (PTE2PA e)))
             (kmod (\<lambda>s. s\<lparr>mem := write64 (mem s) pte 0\<rparr>))))"

function uvmunmap_loop :: "u64 \<Rightarrow> u64 \<Rightarrow> u64 \<Rightarrow> bool \<Rightarrow> ('z kmem_scheme, unit) kop" where
  "uvmunmap_loop pagetable a e do_free =
     (if a < e then
        if a \<ge> MAXVA then kpanic ''walk''
        else kseq (unmap_page pagetable a do_free) (uvmunmap_loop pagetable (a + PGSIZE) e do_free)
      else kret ())"
  by pat_completeness auto
termination
  by (relation "measure (\<lambda>(_, a, _). 0x4000001000 - unat a)")
    (auto dest: below_MAXVA_less simp: below_MAXVA_step)

declare uvmunmap_loop.simps [simp del]

definition uvmunmap :: "u64 \<Rightarrow> u64 \<Rightarrow> u64 \<Rightarrow> bool \<Rightarrow> ('z kmem_scheme, unit) kop" where
  "uvmunmap pagetable va npages do_free =
     (if va mod PGSIZE \<noteq> 0 then kpanic ''uvmunmap: not aligned''
      else uvmunmap_loop pagetable va (va + npages * PGSIZE) do_free)"

subsection \<open>Kernel address space\<close>

definition proc_mapstacks :: "u64 \<Rightarrow> ('z kmem_scheme, unit) kop" where
  "proc_mapstacks kpgtbl =
     kfor [0..<NPROC] (\<lambda>p.
       kbind kalloc (\<lambda>pa.
         if pa = 0 then kpanic ''kalloc''
         else kvmmap kpgtbl (KSTACK p) pa PGSIZE (PTE_R OR PTE_W)))"

definition kvmmake :: "('z kmem_scheme, u64) kop" where
  "kvmmake =
     kbind kalloc (\<lambda>kpgtbl.
       if kpgtbl = 0 then kfault
       else
         kseq (kmod (\<lambda>s. s\<lparr>mem := memset (mem s) kpgtbl 0 4096\<rparr>))
        (kseq (kvmmap kpgtbl 0x10000000 0x10000000 PGSIZE (PTE_R OR PTE_W))
        (kseq (kvmmap kpgtbl 0x10001000 0x10001000 PGSIZE (PTE_R OR PTE_W))
        (kseq (kvmmap kpgtbl 0x0c000000 0x0c000000 0x400000 (PTE_R OR PTE_W))
        (kseq (\<lambda>s. kvmmap kpgtbl KERNBASE KERNBASE (sym_etext s - KERNBASE) (PTE_R OR PTE_X) s)
        (kseq (\<lambda>s. kvmmap kpgtbl (sym_etext s) (sym_etext s) (PHYSTOP - sym_etext s) (PTE_R OR PTE_W) s)
        (kseq (\<lambda>s. kvmmap kpgtbl TRAMPOLINE (sym_trampoline s) PGSIZE (PTE_R OR PTE_X) s)
        (kseq (proc_mapstacks kpgtbl)
        (kret kpgtbl)))))))))"

definition kvminit :: "('z vm_scheme, unit) kop" where
  "kvminit = kbind kvmmake (\<lambda>pt. kmod (\<lambda>s. s\<lparr>kernel_pagetable := pt\<rparr>))"

definition MAKE_SATP :: "u64 \<Rightarrow> u64" where
  "MAKE_SATP pagetable = push_bit 60 8 OR drop_bit 12 pagetable"

definition kvminithart :: "('z vm_scheme, unit) kop" where
  "kvminithart = kmod (\<lambda>s. s\<lparr>satp := (satp s)(hart s := MAKE_SATP (kernel_pagetable s))\<rparr>)"

subsection \<open>User address spaces\<close>

definition uvmcreate :: "('z kmem_scheme, u64) kop" where
  "uvmcreate =
     kbind kalloc (\<lambda>pagetable.
       if pagetable = 0 then kret 0
       else kseq (kmod (\<lambda>s. s\<lparr>mem := memset (mem s) pagetable 0 4096\<rparr>)) (kret pagetable))"

primrec store_bytes :: "bytes \<Rightarrow> u64 \<Rightarrow> u8 list \<Rightarrow> bytes" where
  "store_bytes m a [] = m"
| "store_bytes m a (b # bs) = store_bytes (m(a := b)) (a + 1) bs"

definition uvmfirst :: "u64 \<Rightarrow> u8 list \<Rightarrow> ('z kmem_scheme, unit) kop" where
  "uvmfirst pagetable src =
     (if length src \<ge> 4096 then kpanic ''uvmfirst: more than a page''
      else kbind kalloc (\<lambda>pa.
        if pa = 0 then kfault
        else kseq (kmod (\<lambda>s. s\<lparr>mem := memset (mem s) pa 0 4096\<rparr>))
            (kbind (mappages pagetable 0 PGSIZE pa (PTE_W OR PTE_R OR PTE_X OR PTE_U)) (\<lambda>_.
             kmod (\<lambda>s. s\<lparr>mem := store_bytes (mem s) pa src\<rparr>)))))"

text \<open>The page count passes through a C \<open>int\<close>.\<close>

definition uvmdealloc :: "u64 \<Rightarrow> u64 \<Rightarrow> u64 \<Rightarrow> ('z kmem_scheme, u64) kop" where
  "uvmdealloc pagetable oldsz newsz =
     (if newsz \<ge> oldsz then kret oldsz
      else kseq
        (kwhen (PGROUNDUP newsz < PGROUNDUP oldsz)
          (let npages = (ucast ((PGROUNDUP oldsz - PGROUNDUP newsz) div PGSIZE) :: 32 word)
           in uvmunmap pagetable (PGROUNDUP newsz) (scast npages) True))
        (kret newsz))"

function uvmalloc_loop :: "u64 \<Rightarrow> u64 \<Rightarrow> u64 \<Rightarrow> u64 \<Rightarrow> u64 \<Rightarrow> ('z kmem_scheme, u64) kop" where
  "uvmalloc_loop pagetable a oldsz newsz xperm =
     (if a < newsz then
        kbind kalloc (\<lambda>pa.
          if pa = 0 then kbind (uvmdealloc pagetable a oldsz) (\<lambda>_. kret 0)
          else if a \<ge> MAXVA then kpanic ''walk''
          else kseq (kmod (\<lambda>s. s\<lparr>mem := memset (mem s) pa 0 4096\<rparr>))
              (kbind (mappages pagetable a PGSIZE pa (PTE_R OR PTE_U OR xperm)) (\<lambda>r.
                if r \<noteq> 0 then kseq (kfree pa) (kbind (uvmdealloc pagetable a oldsz) (\<lambda>_. kret 0))
                else uvmalloc_loop pagetable (a + PGSIZE) oldsz newsz xperm)))
      else kret newsz)"
  by pat_completeness auto
termination
  by (relation "measure (\<lambda>(_, a, _). 0x4000001000 - unat a)")
    (auto dest: below_MAXVA_less simp: below_MAXVA_step)

declare uvmalloc_loop.simps [simp del]

definition uvmalloc :: "u64 \<Rightarrow> u64 \<Rightarrow> u64 \<Rightarrow> u64 \<Rightarrow> ('z kmem_scheme, u64) kop" where
  "uvmalloc pagetable oldsz newsz xperm =
     (if newsz < oldsz then kret oldsz
      else uvmalloc_loop pagetable (PGROUNDUP oldsz) (PGROUNDUP oldsz) newsz xperm)"

text \<open>
  \<open>freewalk\<close> recurses once per level; an Sv39 tree has three, and a chain of
  non-leaf entries that goes deeper overruns the kernel stack.
\<close>

fun freewalk_level :: "nat \<Rightarrow> u64 \<Rightarrow> ('z kmem_scheme, unit) kop" where
  "freewalk_level 0 pagetable = kfault"
| "freewalk_level (Suc n) pagetable =
     kseq (kfor [0..<512] (\<lambda>i s.
       let pa = pagetable + of_nat i * 8; pte = read64 (mem s) pa
       in if pte AND PTE_V \<noteq> 0 \<and> pte AND (PTE_R OR PTE_W OR PTE_X) = 0
          then kseq (freewalk_level n (PTE2PA pte)) (kmod (\<lambda>s. s\<lparr>mem := write64 (mem s) pa 0\<rparr>)) s
          else if pte AND PTE_V \<noteq> 0 then Panic ''freewalk: leaf''
          else Done () s))
     (kfree pagetable)"

definition freewalk :: "u64 \<Rightarrow> ('z kmem_scheme, unit) kop" where
  "freewalk pagetable = (if pagetable = 0 then kfault else freewalk_level 3 pagetable)"

definition uvmfree :: "u64 \<Rightarrow> u64 \<Rightarrow> ('z kmem_scheme, unit) kop" where
  "uvmfree pagetable sz =
     kseq (kwhen (sz > 0) (uvmunmap pagetable 0 (PGROUNDUP sz div PGSIZE) True)) (freewalk pagetable)"

subsection \<open>Shared pages\<close>

definition free_user_page :: "u64 \<Rightarrow> u64 \<Rightarrow> ('z kmem_scheme, unit) kop" where
  "free_user_page pagetable va =
     kbind (walk pagetable va False) (\<lambda>pte.
     kbind (kget (\<lambda>s. read64 (mem s) pte)) (\<lambda>e.
       if pte = 0 \<or> e AND PTE_V = 0 then kret ()
       else kbind (kref_dec (PTE2PA e)) (\<lambda>n.
            kseq (kwhen (n = 0) (kfree (PTE2PA e)))
            (kmod (\<lambda>s. s\<lparr>mem := write64 (mem s) pte 0\<rparr>)))))"

definition free_user_page_thread :: "u64 \<Rightarrow> u64 \<Rightarrow> ('z kmem_scheme, unit) kop" where
  "free_user_page_thread pagetable va =
     kbind (walk pagetable va False) (\<lambda>pte.
     kbind (kget (\<lambda>s. read64 (mem s) pte)) (\<lambda>e.
       if pte = 0 \<or> e AND PTE_V = 0 then kret ()
       else kbind (kref_dec (PTE2PA e)) (\<lambda>n.
            kmod (\<lambda>s. s\<lparr>mem := write64 (mem s) pte 0\<rparr>))))"

function for_pages :: "u64 \<Rightarrow> u64 \<Rightarrow> (u64 \<Rightarrow> ('z kmem_scheme, unit) kop) \<Rightarrow> ('z kmem_scheme, unit) kop" where
  "for_pages a sz body =
     (if a < sz then
        if a \<ge> MAXVA then kpanic ''walk''
        else kseq (body a) (for_pages (a + PGSIZE) sz body)
      else kret ())"
  by pat_completeness auto
termination
  by (relation "measure (\<lambda>(a, _). 0x4000001000 - unat a)")
    (auto dest: below_MAXVA_less simp: below_MAXVA_step)

declare for_pages.simps [simp del]

definition uvmfree_shared :: "u64 \<Rightarrow> u64 \<Rightarrow> ('z kmem_scheme, unit) kop" where
  "uvmfree_shared pagetable sz =
     (if sz = 0 then kpanic ''uvmfree_shared: sz is 0''
      else kseq (for_pages 0 sz (free_user_page pagetable)) (freewalk pagetable))"

definition uvmfree_shared_thread :: "u64 \<Rightarrow> u64 \<Rightarrow> ('z kmem_scheme, unit) kop" where
  "uvmfree_shared_thread pagetable sz =
     (if sz = 0 then kpanic ''uvmfree_shared: sz is 0''
      else kseq (for_pages 0 sz (free_user_page_thread pagetable)) (freewalk pagetable))"

function uvmcopy_loop :: "u64 \<Rightarrow> u64 \<Rightarrow> u64 \<Rightarrow> u64 \<Rightarrow> ('z kmem_scheme, int) kop" where
  "uvmcopy_loop old new i sz =
     (if i < sz then
        if i \<ge> MAXVA then kpanic ''walk''
        else kbind (walk old i False) (\<lambda>pte.
          if pte = 0 then kpanic ''uvmcopy: pte should exist''
          else kbind (kget (\<lambda>s. read64 (mem s) pte)) (\<lambda>e.
            if e AND PTE_V = 0 then kpanic ''uvmcopy: page not present''
            else kbind kalloc (\<lambda>pa.
              if pa = 0 then kseq (uvmunmap new 0 (i div PGSIZE) True) (kret (- 1))
              else kseq (kmod (\<lambda>s. s\<lparr>mem := memmove (mem s) pa (PTE2PA e) 4096\<rparr>))
                  (kbind (mappages new i PGSIZE pa (PTE_FLAGS e)) (\<lambda>r.
                    if r \<noteq> 0
                    then kseq (kfree pa) (kseq (uvmunmap new 0 (i div PGSIZE) True) (kret (- 1)))
                    else uvmcopy_loop old new (i + PGSIZE) sz)))))
      else kret 0)"
  by pat_completeness auto
termination
  by (relation "measure (\<lambda>(_, _, a, _). 0x4000001000 - unat a)")
    (auto dest: below_MAXVA_less simp: below_MAXVA_step)

declare uvmcopy_loop.simps [simp del]

definition uvmcopy :: "u64 \<Rightarrow> u64 \<Rightarrow> u64 \<Rightarrow> ('z kmem_scheme, int) kop" where
  "uvmcopy old new sz = uvmcopy_loop old new 0 sz"

function uvmshare_loop :: "u64 \<Rightarrow> u64 \<Rightarrow> u64 \<Rightarrow> u64 \<Rightarrow> ('z kmem_scheme, int) kop" where
  "uvmshare_loop src dest i sz =
     (if i < sz then
        if i \<ge> MAXVA then kpanic ''walk''
        else kbind (walk src i False) (\<lambda>pte.
             kbind (kget (\<lambda>s. read64 (mem s) pte)) (\<lambda>e.
               if pte = 0 \<or> e AND PTE_V = 0 then uvmshare_loop src dest (i + PGSIZE) sz
               else kbind (mappages dest i PGSIZE (PTE2PA e) (PTE_FLAGS e)) (\<lambda>r.
                 if r \<noteq> 0 then kret (- 1)
                 else kbind (kref_inc (PTE2PA e)) (\<lambda>_. uvmshare_loop src dest (i + PGSIZE) sz))))
      else kret 0)"
  by pat_completeness auto
termination
  by (relation "measure (\<lambda>(_, _, a, _). 0x4000001000 - unat a)")
    (auto dest: below_MAXVA_less simp: below_MAXVA_step)

declare uvmshare_loop.simps [simp del]

definition uvmshare :: "u64 \<Rightarrow> u64 \<Rightarrow> u64 \<Rightarrow> ('z kmem_scheme, int) kop" where
  "uvmshare src dest sz = uvmshare_loop src dest 0 sz"

definition uvmclear :: "u64 \<Rightarrow> u64 \<Rightarrow> ('z kmem_scheme, unit) kop" where
  "uvmclear pagetable va =
     kbind (walk pagetable va False) (\<lambda>pte.
       if pte = 0 then kpanic ''uvmclear''
       else kmod (\<lambda>s. s\<lparr>mem := write64 (mem s) pte (read64 (mem s) pte AND NOT PTE_U)\<rparr>))"

subsection \<open>Copying between kernel and user\<close>

text \<open>The number of bytes to copy from or to the page of \<open>va\<close>, of \<open>len\<close> bytes left.\<close>

definition page_chunk :: "u64 \<Rightarrow> nat \<Rightarrow> nat" where
  "page_chunk va len = min (unat (PGSIZE - (va - PGROUNDDOWN va))) len"

lemma page_chunk_eq: "page_chunk va len = min (4096 - unat va mod 4096) len"
proof -
  have "unat va mod 4096 < 4096" by simp
  then have "va - PGROUNDDOWN va \<le> PGSIZE"
    by (simp add: word_le_nat_alt unat_page_offset less_imp_le)
  then show ?thesis by (simp add: page_chunk_def unat_sub unat_page_offset)
qed

lemma page_chunk_pos: "0 < len \<Longrightarrow> 0 < page_chunk va len"
  by (simp add: page_chunk_eq)

function copyout :: "u64 \<Rightarrow> u64 \<Rightarrow> u8 list \<Rightarrow> ('z kmem_scheme, int) kop" where
  "copyout pagetable dstva src =
     (if src = [] then kret 0
      else let va0 = PGROUNDDOWN dstva; n = page_chunk dstva (length src)
        in kbind (walkaddr pagetable va0) (\<lambda>pa0.
          if pa0 = 0 then kret (- 1)
          else kseq (kmod (\<lambda>s. s\<lparr>mem := store_bytes (mem s) (pa0 + (dstva - va0)) (take n src)\<rparr>))
              (copyout pagetable (va0 + PGSIZE) (drop n src))))"
  by pat_completeness auto
termination
  by (relation "measure (\<lambda>(_, _, src). length src)") (auto simp: page_chunk_pos)

declare copyout.simps [simp del]

primrec load_bytes :: "bytes \<Rightarrow> u64 \<Rightarrow> nat \<Rightarrow> u8 list" where
  "load_bytes m a 0 = []"
| "load_bytes m a (Suc n) = m a # load_bytes m (a + 1) n"

text \<open>The second component is what has been written to the kernel buffer.\<close>

function copyin :: "u64 \<Rightarrow> u64 \<Rightarrow> nat \<Rightarrow> ('z kmem_scheme, int \<times> u8 list) kop" where
  "copyin pagetable srcva len =
     (if len = 0 then kret (0, [])
      else let va0 = PGROUNDDOWN srcva; n = page_chunk srcva len
        in kbind (walkaddr pagetable va0) (\<lambda>pa0.
          if pa0 = 0 then kret (- 1, [])
          else kbind (kget (\<lambda>s. load_bytes (mem s) (pa0 + (srcva - va0)) n)) (\<lambda>bs.
               kbind (copyin pagetable (va0 + PGSIZE) (len - n)) (\<lambda>(r, rest).
               kret (r, bs @ rest)))))"
  by pat_completeness auto
termination
  by (relation "measure (\<lambda>(_, _, len). len)") (auto simp: page_chunk_pos)

declare copyin.simps [simp del]

fun scan_str :: "bytes \<Rightarrow> u64 \<Rightarrow> nat \<Rightarrow> bool \<times> u8 list" where
  "scan_str m p 0 = (False, [])"
| "scan_str m p (Suc n) =
     (if m p = 0 then (True, [0])
      else case scan_str m (p + 1) n of (got_null, bs) \<Rightarrow> (got_null, m p # bs))"

function copyinstr :: "u64 \<Rightarrow> u64 \<Rightarrow> nat \<Rightarrow> ('z kmem_scheme, int \<times> u8 list) kop" where
  "copyinstr pagetable srcva mx =
     (if mx = 0 then kret (- 1, [])
      else let va0 = PGROUNDDOWN srcva; n = page_chunk srcva mx
        in kbind (walkaddr pagetable va0) (\<lambda>pa0.
          if pa0 = 0 then kret (- 1, [])
          else kbind (kget (\<lambda>s. scan_str (mem s) (pa0 + (srcva - va0)) n)) (\<lambda>(got_null, bs).
            if got_null then kret (0, bs)
            else kbind (copyinstr pagetable (va0 + PGSIZE) (mx - n)) (\<lambda>(r, rest).
                 kret (r, bs @ rest)))))"
  by pat_completeness auto
termination
  by (relation "measure (\<lambda>(_, _, mx). mx)") (auto simp: page_chunk_pos)

declare copyinstr.simps [simp del]

end
