(* ===== verification/Vm_Inv.thy ===== *)
theory Vm_Inv
  imports Vm
begin

text \<open>
  What page tables in memory mean. \<open>pt_node m r d va\<close> is the table page that the
  walk for \<open>va\<close> from root \<open>r\<close> reaches after \<open>d\<close> steps and \<open>pte_of m r va\<close> the leaf entry
  (0 when there is none). \<open>vm_inv\<close> says that a page table is a tree whose pages are
  disjoint from each other and from the free list; the lemmas show that \<open>walk\<close>
  keeps it, allocates without changing the meaning of any address, and that
  writing a leaf entry changes exactly one page's meaning.
\<close>

primrec pt_node :: "bytes \<Rightarrow> u64 \<Rightarrow> nat \<Rightarrow> u64 \<Rightarrow> u64 option" where
  "pt_node m r 0 va = Some r"
| "pt_node m r (Suc d) va = (case pt_node m r d va of None \<Rightarrow> None
     | Some q \<Rightarrow> let e = read64 m (q + PX (2 - d) va * 8)
                in if e AND PTE_V \<noteq> 0 then Some (PTE2PA e) else None)"

definition pte_of :: "bytes \<Rightarrow> u64 \<Rightarrow> u64 \<Rightarrow> u64" where
  "pte_of m r va = (case pt_node m r 2 va of None \<Rightarrow> 0 | Some q \<Rightarrow> read64 m (q + PX 0 va * 8))"

definition same_path :: "nat \<Rightarrow> u64 \<Rightarrow> u64 \<Rightarrow> bool" where
  "same_path d va va' \<longleftrightarrow> (\<forall>j < d. PX (2 - j) va = PX (2 - j) va')"

definition pt_wf :: "bytes \<Rightarrow> u64 \<Rightarrow> bool" where
  "pt_wf m r \<longleftrightarrow> page_aligned r \<and> (\<forall>d \<le> 2. \<forall>d' \<le> 2. \<forall>va va' q.
     pt_node m r d va = Some q \<longrightarrow> pt_node m r d' va' = Some q \<longrightarrow> d = d' \<and> same_path d va va')"

definition vm_inv :: "'z kmem_scheme \<Rightarrow> u64 \<Rightarrow> u64 list \<Rightarrow> bool" where
  "vm_inv s r xs \<longleftrightarrow> kmem_inv s xs \<and> pt_wf (mem s) r
     \<and> (\<forall>d \<le> 2. \<forall>va q. pt_node (mem s) r d va = Some q \<longrightarrow> q \<notin> set xs \<and> page_ok s q)"

subsection \<open>Entries of a table page\<close>

lemma slot_offset:
  assumes "i < 512" and "in_region (q + i * 8) 8 x"
  shows "in_region q 4096 x \<and> unat (x - q) div 8 = unat i"
proof -
  have i: "unat i < 512" using assms(1) by (simp add: word_less_nat_alt)
  have i8: "unat (i * 8) = unat i * 8"
    using i unat_mult_lem [of i 8] by simp
  have k: "unat (x - (q + i * 8)) < 8" using assms(2) by (simp add: in_region_def)
  have "x - q = (x - (q + i * 8)) + i * 8" by simp
  then have "unat (x - q) = unat (x - (q + i * 8)) + unat i * 8"
    using i k i8 unat_add_lem [of "x - (q + i * 8)" "i * 8"] by simp
  with i k show ?thesis by (simp add: in_region_def)
qed

lemma slots_disjoint:
  assumes "i < 512" and "j < 512" and "i \<noteq> j" and "in_region (q + i * 8) 8 x"
  shows "\<not> in_region (q + j * 8) 8 x"
  using slot_offset [OF assms(1,4)] slot_offset [OF assms(2), of q x] assms(3)
  by (auto simp: word_unat_eq_iff)

lemma read_slot_cong:
  assumes "i < 512" and "\<And>x. in_region q 4096 x \<Longrightarrow> m' x = m x"
  shows "read64 m' (q + i * 8) = read64 m (q + i * 8)"
  using assms slot_offset by (intro read_le_cong) blast

lemma read_slot_write_slot:
  assumes "i < 512" and "j < 512" and "page_aligned q" and "page_aligned p" and "p \<noteq> q \<or> i \<noteq> j"
  shows "read64 (write64 m (p + j * 8) v) (q + i * 8) = read64 m (q + i * 8)"
proof (rule read_le_cong)
  fix x assume x: "in_region (q + i * 8) 8 x"
  then have "in_region q 4096 x" using slot_offset assms(1) by blast
  then have "\<not> in_region (p + j * 8) 8 x"
    using slot_offset [OF assms(2), of p x] slots_disjoint [OF assms(1,2) _ x] pages_disjoint
      assms(3-5) by blast
  then show "write64 m (p + j * 8) v x = m x" by (rule write_le_outside)
qed

lemma same_path_Suc: "same_path (Suc d) va va' \<longleftrightarrow> same_path d va va' \<and> PX (2 - d) va = PX (2 - d) va'"
  by (auto simp: same_path_def less_Suc_eq)

lemma same_path_sym: "same_path d va va' \<longleftrightarrow> same_path d va' va"
  by (auto simp: same_path_def)

lemma pt_node_path: "same_path d va va' \<Longrightarrow> pt_node m r d va = pt_node m r d va'"
  by (induction d) (auto simp: same_path_Suc split: option.splits)

lemma pt_node_aligned: "page_aligned r \<Longrightarrow> pt_node m r d va = Some q \<Longrightarrow> page_aligned q"
  by (cases d) (auto simp: Let_def split: option.splits if_splits)

lemma pt_wfD:
  assumes "pt_wf m r" and "d \<le> 2" and "d' \<le> 2" and "pt_node m r d va = Some q"
    and "pt_node m r d' va' = Some q"
  shows "d = d' \<and> same_path d va va'"
  using assms unfolding pt_wf_def by blast

lemma pt_wf_root: "pt_wf m r \<Longrightarrow> page_aligned r"
  by (simp add: pt_wf_def)

lemma pt_node_cong:
  assumes "\<And>d' va' q x. d' < d \<Longrightarrow> pt_node m r d' va' = Some q \<Longrightarrow> in_region q 4096 x \<Longrightarrow> m' x = m x"
  shows "pt_node m' r d va = pt_node m r d va"
  using assms
proof (induction d arbitrary: va)
  case 0
  then show ?case by simp
next
  case (Suc d)
  have IH: "pt_node m' r d va = pt_node m r d va"
    using Suc.prems by (intro Suc.IH) (meson less_SucI)
  show ?case
  proof (cases "pt_node m r d va")
    case None
    with IH show ?thesis by simp
  next
    case (Some q)
    have "read64 m' (q + PX (2 - d) va * 8) = read64 m (q + PX (2 - d) va * 8)"
      using Suc.prems [OF lessI Some] by (intro read_slot_cong PX_less)
    with IH Some show ?thesis by simp
  qed
qed

subsection \<open>Linking a fresh, zeroed table page\<close>

definition fresh_page :: "bytes \<Rightarrow> u64 \<Rightarrow> u64 \<Rightarrow> bool" where
  "fresh_page m r new \<longleftrightarrow> page_aligned new \<and> (\<forall>d \<le> 2. \<forall>va. pt_node m r d va \<noteq> Some new)"

lemma fresh_page_aligned: "fresh_page m r new \<Longrightarrow> page_aligned new"
  by (simp add: fresh_page_def)

lemma fresh_pageD: "fresh_page m r new \<Longrightarrow> pt_node m r d va = Some p \<Longrightarrow> d \<le> 2 \<Longrightarrow> p \<noteq> new"
  by (auto simp: fresh_page_def)

definition link_page :: "bytes \<Rightarrow> u64 \<Rightarrow> u64 \<Rightarrow> bytes" where
  "link_page m slot new = write64 (memset m new 0 4096) slot (PA2PTE new OR PTE_V)"

lemma link_read_new:
  assumes "page_aligned new" and "page_aligned q" and "q \<noteq> new" and "i < 512" and "j < 512"
  shows "read64 (link_page m (q + j * 8) new) (new + i * 8) = 0"
proof -
  have "read64 (link_page m (q + j * 8) new) (new + i * 8) = read64 (memset m new 0 4096) (new + i * 8)"
    using assms by (simp add: link_page_def read_slot_write_slot)
  also have "\<dots> = 0"
    using slot_offset [OF assms(4)] by (intro read_le_zero) (auto simp: memset_eq)
  finally show ?thesis .
qed

lemma link_read_old:
  assumes "page_aligned new" and "page_aligned q" and "page_aligned p" and "q \<noteq> new" and "p \<noteq> new"
    and "i < 512" and "j < 512" and "p \<noteq> q \<or> i \<noteq> j"
  shows "read64 (link_page m (q + j * 8) new) (p + i * 8) = read64 m (p + i * 8)"
proof -
  have "read64 (link_page m (q + j * 8) new) (p + i * 8) = read64 (memset m new 0 4096) (p + i * 8)"
    using assms by (auto simp: link_page_def read_slot_write_slot)
  also have "\<dots> = read64 m (p + i * 8)"
  proof (rule read_slot_cong [OF assms(6)])
    fix x assume "in_region p 4096 x"
    then have "\<not> in_region new 4096 x" using pages_disjoint assms(1,3,5) by blast
    then show "memset m new 0 4096 x = m x" by (simp add: memset_eq)
  qed
  finally show ?thesis .
qed

lemma valid_set: "(x OR PTE_V) AND PTE_V \<noteq> 0"
  by (simp add: and_one_eq mod_2_eq_odd even_or_iff)

lemma link_read_slot:
  assumes "page_aligned new"
  shows "PTE2PA (read64 (link_page m slot new) slot) = new"
    and "read64 (link_page m slot new) slot AND PTE_V \<noteq> 0"
proof -
  show "PTE2PA (read64 (link_page m slot new) slot) = new"
    using assms by (simp add: link_page_def PTE2PA_PA2PTE)
  show "read64 (link_page m slot new) slot AND PTE_V \<noteq> 0"
    by (simp add: link_page_def valid_set)
qed

lemma pt_node_link:
  assumes wf: "pt_wf m r" and d: "d < 2" and q: "pt_node m r d va = Some q"
    and invalid: "read64 m (q + PX (2 - d) va * 8) AND PTE_V = 0"
    and new: "fresh_page m r new" and k: "k \<le> 2"
  shows "pt_node (link_page m (q + PX (2 - d) va * 8) new) r k va' =
    (case pt_node m r k va' of Some p \<Rightarrow> Some p
     | None \<Rightarrow> if k = Suc d \<and> same_path (Suc d) va' va then Some new else None)"
  using k
proof (induction k)
  case 0
  then show ?case by simp
next
  case (Suc k)
  let ?m = "link_page m (q + PX (2 - d) va * 8) new"
  have al: "page_aligned q" and qn: "q \<noteq> new"
    using pt_node_aligned [OF pt_wf_root [OF wf] q] fresh_pageD [OF new q] d by auto
  have IH: "pt_node ?m r k va' = (case pt_node m r k va' of Some p \<Rightarrow> Some p
     | None \<Rightarrow> if k = Suc d \<and> same_path (Suc d) va' va then Some new else None)"
    using Suc by simp
  show ?case
  proof (cases "pt_node m r k va'")
    case None
    have "k \<noteq> d \<or> \<not> same_path d va' va" using None q pt_node_path [of d va' va m r] by auto
    then have no: "\<not> (Suc k = Suc d \<and> same_path (Suc d) va' va)" by (auto simp: same_path_Suc)
    show ?thesis
    proof (cases "k = Suc d \<and> same_path (Suc d) va' va")
      case True
      then show ?thesis
        using IH None no link_read_new [OF fresh_page_aligned [OF new] al qn PX_less PX_less] by simp
    next
      case False
      then show ?thesis using IH None no by auto
    qed
  next
    case (Some p)
    have pal: "page_aligned p" and pn: "p \<noteq> new"
      using pt_node_aligned [OF pt_wf_root [OF wf] Some] fresh_pageD [OF new Some] Suc.prems by auto
    show ?thesis
    proof (cases "p = q \<and> PX (2 - k) va' = PX (2 - d) va")
      case True
      then have "k = d \<and> same_path d va' va"
        using pt_wfD [OF wf _ _ Some, of d va] q d Suc.prems by auto
      with True show ?thesis
        using IH Some invalid link_read_slot [OF fresh_page_aligned [OF new], of m "q + PX (2 - d) va * 8"]
        by (simp add: same_path_Suc)
    next
      case False
      then have "read64 ?m (p + PX (2 - k) va' * 8) = read64 m (p + PX (2 - k) va' * 8)"
        using link_read_old [OF fresh_page_aligned [OF new] al pal qn pn PX_less PX_less] by auto
      moreover have "\<not> (Suc k = Suc d \<and> same_path (Suc d) va' va)"
        using False Some q pt_node_path [of d va' va m r] by (auto simp: same_path_Suc)
      ultimately show ?thesis using IH Some by (auto simp: Let_def)
    qed
  qed
qed

lemma pt_wf_link:
  assumes "pt_wf m r" and "d < 2" and "pt_node m r d va = Some q"
    and "read64 m (q + PX (2 - d) va * 8) AND PTE_V = 0"
    and "fresh_page m r new"
  shows "pt_wf (link_page m (q + PX (2 - d) va * 8) new) r"
proof -
  note node = pt_node_link [OF assms]
  show ?thesis
    unfolding pt_wf_def
  proof (intro conjI allI impI)
    fix k k' va1 va2 p
    assume k: "k \<le> 2" "k' \<le> 2"
      and p: "pt_node (link_page m (q + PX (2 - d) va * 8) new) r k va1 = Some p"
        "pt_node (link_page m (q + PX (2 - d) va * 8) new) r k' va2 = Some p"
    have "k = k' \<and> same_path k va1 va2"
      using p [unfolded node [OF k(1)] node [OF k(2)]] fresh_pageD [OF assms(5)] k
        pt_wfD [OF assms(1) k, of va1 p va2]
      by (auto simp: same_path_def split: option.splits if_splits)
    then show "k = k'" and "same_path k va1 va2" by blast+
  qed (rule pt_wf_root [OF assms(1)])
qed

lemma pte_of_link:
  assumes "pt_wf m r" and "d < 2" and "pt_node m r d va = Some q"
    and "read64 m (q + PX (2 - d) va * 8) AND PTE_V = 0"
    and "fresh_page m r new"
  shows "pte_of (link_page m (q + PX (2 - d) va * 8) new) r va' = pte_of m r va'"
proof -
  let ?m = "link_page m (q + PX (2 - d) va * 8) new"
  have al: "page_aligned q" and qn: "q \<noteq> new"
    using pt_node_aligned [OF pt_wf_root [OF assms(1)] assms(3)] fresh_pageD [OF assms(5,3)] assms(2) by auto
  have node: "pt_node ?m r 2 va' = (case pt_node m r 2 va' of Some p \<Rightarrow> Some p
     | None \<Rightarrow> if 2 = Suc d \<and> same_path (Suc d) va' va then Some new else None)"
    using pt_node_link [OF assms order_refl] by simp
  show ?thesis
  proof (cases "pt_node m r 2 va'")
    case None
    then show ?thesis
      using node link_read_new [OF fresh_page_aligned [OF assms(5)] al qn PX_less PX_less] by (auto simp: pte_of_def)
  next
    case (Some p)
    have "p \<noteq> q" using pt_wfD [OF assms(1) _ _ Some, of d va] assms(2,3) by auto
    moreover have "page_aligned p" using pt_node_aligned [OF pt_wf_root [OF assms(1)] Some] .
    ultimately have "read64 ?m (p + PX 0 va' * 8) = read64 m (p + PX 0 va' * 8)"
      using fresh_pageD [OF assms(5) Some] link_read_old [OF fresh_page_aligned [OF assms(5)] al _ qn _ PX_less PX_less] by auto
    then show ?thesis using node Some by (simp add: pte_of_def)
  qed
qed

subsection \<open>Writing a leaf entry\<close>

lemma pt_node_outside:
  assumes "pt_wf m r" and "d \<le> 2"
    and "\<And>d' va' q x. d' < 2 \<Longrightarrow> pt_node m r d' va' = Some q \<Longrightarrow> in_region q 4096 x \<Longrightarrow> m' x = m x"
  shows "pt_node m' r d va = pt_node m r d va"
  using assms(2,3) by (intro pt_node_cong) (meson order_less_le_trans)

lemma pt_node_leaf_write:
  assumes "pt_wf m r" and "pt_node m r 2 va = Some q" and "d \<le> 2"
  shows "pt_node (write64 m (q + PX 0 va * 8) v) r d va' = pt_node m r d va'"
proof (rule pt_node_outside [OF assms(1,3)])
  fix d' va1 p x
  assume d': "d' < 2" and p: "pt_node m r d' va1 = Some p" and x: "in_region p 4096 x"
  have "p \<noteq> q" using pt_wfD [OF assms(1) _ _ p, of 2 va] assms(2) d' by auto
  then have "\<not> in_region q 4096 x"
    using pages_disjoint [OF _ _ x, of q] pt_node_aligned pt_wf_root assms(1,2) p by blast
  then have "\<not> in_region (q + PX 0 va * 8) 8 x" using slot_offset [OF PX_less] by blast
  then show "write64 m (q + PX 0 va * 8) v x = m x" by (rule write_le_outside)
qed

lemma pt_wf_same_nodes:
  assumes "pt_wf m r" and "\<And>d va. d \<le> 2 \<Longrightarrow> pt_node m' r d va = pt_node m r d va"
  shows "pt_wf m' r"
  using assms(1) unfolding pt_wf_def by (simp add: assms(2))

lemma pte_of_leaf_write:
  assumes "pt_wf m r" and "pt_node m r 2 va = Some q"
  shows "pte_of (write64 m (q + PX 0 va * 8) v) r va' = (if same_path 3 va va' then v else pte_of m r va')"
proof -
  have node: "pt_node (write64 m (q + PX 0 va * 8) v) r 2 va' = pt_node m r 2 va'"
    by (rule pt_node_leaf_write [OF assms order_refl])
  have p3: "same_path 3 va va' \<longleftrightarrow> same_path 2 va va' \<and> PX 0 va = PX 0 va'"
    using same_path_Suc [of 2 va va'] by (simp add: numeral_3_eq_3 numeral_2_eq_2)
  show ?thesis
  proof (cases "pt_node m r 2 va'")
    case None
    then have "\<not> same_path 2 va va'" using assms(2) pt_node_path [of 2 va va' m r] by auto
    with None node p3 show ?thesis by (simp add: pte_of_def)
  next
    case (Some p)
    have iff: "p = q \<longleftrightarrow> same_path 2 va va'"
      using pt_wfD [OF assms(1) order_refl order_refl assms(2), of va'] Some assms(2)
        pt_node_path [of 2 va va' m r] by auto
    have al: "page_aligned p" "page_aligned q"
      using pt_node_aligned pt_wf_root [OF assms(1)] Some assms(2) by blast+
    show ?thesis
    proof (cases "same_path 3 va va'")
      case True
      then show ?thesis using node Some iff p3 by (simp add: pte_of_def)
    next
      case False
      then have "p \<noteq> q \<or> PX 0 va' \<noteq> PX 0 va" using iff p3 by auto
      then have "read64 (write64 m (q + PX 0 va * 8) v) (p + PX 0 va' * 8) = read64 m (p + PX 0 va' * 8)"
        using read_slot_write_slot [OF PX_less PX_less al] by auto
      then show ?thesis using node Some False by (simp add: pte_of_def)
    qed
  qed
qed

subsection \<open>Allocating walks\<close>

text \<open>The pages a page table and the free list own, and what may change them.\<close>

definition owned :: "bytes \<Rightarrow> u64 \<Rightarrow> u64 list \<Rightarrow> u64 set" where
  "owned m r xs = set xs \<union> {q. \<exists>d \<le> 2. \<exists>va. pt_node m r d va = Some q}"

text \<open>Everything of the state but the free list and memory.\<close>

definition vm_rest :: "'z kmem_scheme \<Rightarrow> 'z kmem_scheme" where
  "vm_rest s = s\<lparr>freelist := 0, mem := (\<lambda>_. 0)\<rparr>"

lemma vm_rest_update [simp]:
  "vm_rest (mem_update f s) = vm_rest s" "vm_rest (freelist_update g s) = vm_rest s"
  by (simp_all add: vm_rest_def)

lemma vm_rest_fields:
  assumes "vm_rest t = vm_rest s"
  shows "sym_end t = sym_end s" and "refcount t = refcount s" and "page_ok t = page_ok s"
    and "machine_ok t = machine_ok s" and "locks t = locks s"
proof -
  have f: "f (vm_rest t) = f (vm_rest s)" for f :: "'a kmem_scheme \<Rightarrow> 'b" using assms by simp
  show e: "sym_end t = sym_end s" using arg_cong [OF assms, of sym_end] by (simp add: vm_rest_def)
  show "refcount t = refcount s" using arg_cong [OF assms, of refcount] by (simp add: vm_rest_def)
  show "page_ok t = page_ok s" using e by (simp add: page_ok_def fun_eq_iff)
  show "machine_ok t = machine_ok s" using arg_cong [OF assms, of machine_ok] by (simp add: vm_rest_def)
  show "locks t = locks s" using arg_cong [OF assms, of locks] by (simp add: vm_rest_def)
qed

lemma vm_rest_eq: "vm_rest t = vm_rest s \<Longrightarrow> t = s\<lparr>freelist := freelist t, mem := mem t\<rparr>"
  by (cases s, cases t) (simp add: vm_rest_def)

definition vm_ext :: "u64 \<Rightarrow> 'z kmem_scheme \<Rightarrow> u64 list \<Rightarrow> 'z kmem_scheme \<Rightarrow> u64 list \<Rightarrow> bool" where
  "vm_ext r s xs t xs' \<longleftrightarrow> vm_inv t r xs' \<and> owned (mem t) r xs' \<subseteq> owned (mem s) r xs
     \<and> vm_rest t = vm_rest s
     \<and> (\<forall>x. (\<forall>p \<in> owned (mem s) r xs. \<not> in_region p 4096 x) \<longrightarrow> mem t x = mem s x)"

lemma vm_ext_refl: "vm_inv s r xs \<Longrightarrow> vm_ext r s xs s xs"
  by (simp add: vm_ext_def)

lemma vm_ext_trans:
  assumes "vm_ext r s xs t ys" and "vm_ext r t ys u zs"
  shows "vm_ext r s xs u zs"
proof -
  have "mem u x = mem s x" if "\<forall>p \<in> owned (mem s) r xs. \<not> in_region p 4096 x" for x
    using that assms unfolding vm_ext_def by (metis subsetD)
  then show ?thesis using assms by (auto simp: vm_ext_def)
qed

lemma vm_ext_inv: "vm_ext r s xs t ys \<Longrightarrow> vm_inv t r ys"
  by (simp add: vm_ext_def)

text \<open>One table page allocated and linked below \<open>q\<close>.\<close>

lemma walk_link_step:
  assumes inv: "vm_inv s r (new # xs)" and d: "d < 2" and q: "pt_node (mem s) r d va = Some q"
    and invalid: "read64 (mem s) (q + PX (2 - d) va * 8) AND PTE_V = 0"
    and t: "kalloc s = Done new t"
    and u: "u = t\<lparr>mem := write64 (memset (mem t) new 0 4096) (q + PX (2 - d) va * 8) (PA2PTE new OR PTE_V)\<rparr>"
  shows "vm_ext r s (new # xs) u xs" and "pt_node (mem u) r (Suc d) va = Some new"
    and "pte_of (mem u) r va' = pte_of (mem s) r va'" and "new \<noteq> 0"
proof -
  have k: "kmem_inv s (new # xs)" and wf: "pt_wf (mem s) r" using inv by (simp_all add: vm_inv_def)
  obtain t' where t': "kalloc s = Done new t'" "kmem_inv t' xs"
    "t' = s\<lparr>freelist := freelist t', mem := memset (mem s) new 5 4096\<rparr>"
    using kalloc_pop [OF k] by metis
  have tt: "t' = t" using t t'(1) by simp
  have memt: "mem t = memset (mem s) new 5 4096" by (subst t'(3) [unfolded tt]) simp
  have "memset (mem t) new 0 4096 = memset (mem s) new 0 4096"
    by (simp add: memt memset_eq fun_eq_iff)
  then have mu: "mem u = link_page (mem s) (q + PX (2 - d) va * 8) new"
    by (simp add: u link_page_def)
  have new: "page_ok s new" "new \<notin> set xs" using k by (auto simp: kmem_inv_def)
  show "new \<noteq> 0" using new(1) by (auto simp: page_ok_def)
  have fresh: "fresh_page (mem s) r new"
    using inv new(1) by (auto simp: fresh_page_def vm_inv_def page_ok_def)
  note link = wf d q invalid fresh
  show "pte_of (mem u) r va' = pte_of (mem s) r va'"
    unfolding mu by (rule pte_of_link [OF link])
  have node: "pt_node (mem u) r k va' = (case pt_node (mem s) r k va' of Some p \<Rightarrow> Some p
     | None \<Rightarrow> if k = Suc d \<and> same_path (Suc d) va' va then Some new else None)" if "k \<le> 2" for k va'
    unfolding mu by (rule pt_node_link [OF link that])
  show "pt_node (mem u) r (Suc d) va = Some new"
    using node [of "Suc d" va] d q invalid by (simp add: same_path_def)
  have q_old: "q \<notin> set (new # xs)" and q_ok: "page_ok s q"
    using inv q d unfolding vm_inv_def by (meson less_imp_le)+
  have "vm_rest t = vm_rest s" by (subst t'(3) [unfolded tt]) simp
  then have rest: "vm_rest u = vm_rest s" by (simp add: u)
  have frame: "mem u x = mem s x"
    if "\<not> in_region new 4096 x" and "\<not> in_region q 4096 x" for x
  proof -
    have "\<not> in_region (q + PX (2 - d) va * 8) 8 x" using that slot_offset [OF PX_less] by blast
    then show ?thesis using that by (simp add: mu link_page_def write_le_outside memset_eq)
  qed
  have "kmem_inv u xs"
  proof -
    have "freelist_at (mem u) (freelist t) xs"
    proof (rule iffD2 [OF freelist_at_other_pages [of "{new, q}"]])
      show "freelist_at (mem t) (freelist t) xs" using t'(2) tt by (simp add: kmem_inv_def)
    qed (use q_old q_ok frame memt k in \<open>auto simp: kmem_inv_def page_ok_def memset_eq\<close>)
    then show ?thesis
      using t'(2) tt by (simp add: u kmem_inv_def page_ok_def)
  qed
  moreover have "pt_wf (mem u) r" unfolding mu by (rule pt_wf_link [OF link])
  moreover have "p \<notin> set xs \<and> page_ok u p" if "k \<le> 2" "pt_node (mem u) r k va' = Some p" for k va' p
    using that node [OF that(1), of va'] inv new vm_rest_fields(3) [OF rest]
    by (auto simp: vm_inv_def split: option.splits if_splits)
  moreover have "owned (mem u) r xs \<subseteq> owned (mem s) r (new # xs)"
    using node by (auto simp: owned_def split: option.splits if_splits) blast
  moreover have "mem u x = mem s x" if "\<forall>p \<in> owned (mem s) r (new # xs). \<not> in_region p 4096 x" for x
  proof (rule frame)
    show "\<not> in_region new 4096 x" using that by (simp add: owned_def)
    show "\<not> in_region q 4096 x" using that q d by (auto simp: owned_def intro!: less_imp_le)
  qed
  ultimately show "vm_ext r s (new # xs) u xs" using rest by (auto simp: vm_ext_def vm_inv_def)
qed

lemma vm_inv_node:
  "vm_inv s r xs \<Longrightarrow> pt_node (mem s) r d va = Some q \<Longrightarrow> d \<le> 2 \<Longrightarrow> q \<notin> set xs \<and> page_ok s q"
  unfolding vm_inv_def by blast

lemma slot_nonzero:
  assumes "page_ok s q" and "i < 512"
  shows "q + i * 8 \<noteq> 0"
proof -
  have "unat i < 512" and "0 < unat q" and "unat q < 0x88000000"
    using assms by (auto simp: page_ok_def word_less_nat_alt word_le_nat_alt)
  then have "unat (q + i * 8) = unat q + unat i * 8"
    using unat_mult_lem [of i 8] unat_add_lem [of q "i * 8"] by simp
  with \<open>0 < unat q\<close> show ?thesis by (metis add_is_0 less_irrefl unat_0)
qed

text \<open>
  A walk that may allocate: it never panics, keeps every entry's meaning, and fails only
  when memory runs out.
\<close>

lemma walk_level_alloc:
  assumes "vm_inv s r xs" and "l \<le> 2" and "pt_node (mem s) r (2 - l) va = Some q"
  shows "\<exists>a t ys. walk_level l q va True s = Done a t \<and> vm_ext r s xs t ys
    \<and> (\<forall>va'. pte_of (mem t) r va' = pte_of (mem s) r va')
    \<and> (if a = 0 then ys = [] \<and> length xs < l else \<exists>p. pt_node (mem t) r 2 va = Some p \<and> a = p + PX 0 va * 8)"
  using assms
proof (induction l arbitrary: s xs q)
  case 0
  have "vm_ext r s xs s xs" using 0 by (simp add: vm_ext_refl)
  moreover have "q + PX 0 va * 8 \<noteq> 0"
    using 0 vm_inv_node [OF 0(1), of 2 va q] by (intro slot_nonzero [OF _ PX_less, of s]) simp
  ultimately show ?case using 0 by auto
next
  case (Suc l)
  let ?e = "read64 (mem s) (q + PX (Suc l) va * 8)"
  have lev: "2 - (2 - Suc l) = Suc l" "Suc (2 - Suc l) = 2 - l" using Suc.prems(2) by auto
  show ?case
  proof (cases "?e AND PTE_V \<noteq> 0")
    case True
    then have "pt_node (mem s) r (2 - l) va = Some (PTE2PA ?e)"
      using Suc.prems(3) lev pt_node.simps(2) [of "mem s" r "2 - Suc l" va] by simp
    from Suc.IH [OF Suc.prems(1) _ this] Suc.prems(2) obtain a t ys where
      w: "walk_level l (PTE2PA ?e) va True s = Done a t" "vm_ext r s xs t ys"
        "\<forall>va'. pte_of (mem t) r va' = pte_of (mem s) r va'"
        "if a = 0 then ys = [] \<and> length xs < l
         else \<exists>p. pt_node (mem t) r 2 va = Some p \<and> a = p + PX 0 va * 8"
      by auto
    then have "walk_level (Suc l) q va True s = Done a t" using True by (simp add: Let_def)
    with w show ?thesis by (auto split: if_splits)
  next
    case False
    show ?thesis
    proof (cases xs)
      case Nil
      then have "kalloc s = Done 0 s" using Suc.prems(1) by (simp add: vm_inv_def kalloc_empty)
      with False Nil Suc.prems(1) show ?thesis
        by (simp add: Let_def kbind_run vm_ext_refl)
    next
      case (Cons new zs)
      with Suc.prems(1) have k: "kmem_inv s (new # zs)" by (simp add: vm_inv_def)
      obtain t where t: "kalloc s = Done new t" using kalloc_pop [OF k] by metis
      define u where "u = t\<lparr>mem := write64 (memset (mem t) new 0 4096) (q + PX (2 - (2 - Suc l)) va * 8)
        (PA2PTE new OR PTE_V)\<rparr>"
      have inv: "vm_inv s r (new # zs)" and d: "2 - Suc l < 2" using Suc.prems(1) Cons by auto
      have "read64 (mem s) (q + PX (2 - (2 - Suc l)) va * 8) AND PTE_V = 0"
        using False lev by simp
      note link = walk_link_step [OF inv d Suc.prems(3) this t u_def]
      have step: "vm_ext r s (new # zs) u zs" "pt_node (mem u) r (2 - l) va = Some new" "new \<noteq> 0"
        "pte_of (mem u) r va' = pte_of (mem s) r va'" for va'
        using link(1,3,4) link(2) [unfolded lev(2)] by blast+
      obtain a w ys where w: "walk_level l new va True u = Done a w" "vm_ext r u zs w ys"
        "\<forall>va'. pte_of (mem w) r va' = pte_of (mem u) r va'"
        "if a = 0 then ys = [] \<and> length zs < l else \<exists>p. pt_node (mem w) r 2 va = Some p \<and> a = p + PX 0 va * 8"
        using Suc.IH [OF vm_ext_inv [OF step(1)] _ step(2)] Suc.prems(2) by auto
      have "walk_level (Suc l) q va True s = Done a w"
        using False t step(3) w(1) lev by (simp add: Let_def kbind_run kseq_run u_def)
      with w step vm_ext_trans [OF step(1) w(2)] Cons show ?thesis by auto
    qed
  qed
qed

lemma vm_inv_root: "vm_inv s r xs \<Longrightarrow> page_ok s r \<and> r \<noteq> 0"
proof -
  assume "vm_inv s r xs"
  then have "page_ok s r" unfolding vm_inv_def by (metis le0 pt_node.simps(1))
  then show ?thesis by (auto simp: page_ok_def)
qed

lemma walk_alloc:
  assumes "vm_inv s r xs" and "va < MAXVA"
  obtains a t ys where "walk r va True s = Done a t" and "vm_ext r s xs t ys"
    and "\<And>va'. pte_of (mem t) r va' = pte_of (mem s) r va'"
    and "a = 0 \<Longrightarrow> ys = [] \<and> length xs < 2"
    and "a \<noteq> 0 \<Longrightarrow> \<exists>p. pt_node (mem t) r 2 va = Some p \<and> a = p + PX 0 va * 8"
proof -
  have "r \<noteq> 0" using vm_inv_root [OF assms(1)] by simp
  moreover obtain a t ys where "walk_level 2 r va True s = Done a t" "vm_ext r s xs t ys"
    "\<forall>va'. pte_of (mem t) r va' = pte_of (mem s) r va'"
    "if a = 0 then ys = [] \<and> length xs < 2 else \<exists>p. pt_node (mem t) r 2 va = Some p \<and> a = p + PX 0 va * 8"
    using walk_level_alloc [OF assms(1) order_refl, of va r] by auto
  ultimately show thesis using assms(2) by (intro that [of a t ys]) (auto simp: walk_def split: if_splits)
qed

text \<open>A walk that may not allocate leaves the state alone and finds the slot if there is one.\<close>

lemma walk_level_lookup:
  assumes "l \<le> 2" and "pt_node (mem s) r (2 - l) va = Some q"
  shows "walk_level l q va False s =
    Done (case pt_node (mem s) r 2 va of None \<Rightarrow> 0 | Some p \<Rightarrow> p + PX 0 va * 8) s"
  using assms
proof (induction l arbitrary: q)
  case 0
  then show ?case by simp
next
  case (Suc l)
  let ?e = "read64 (mem s) (q + PX (Suc l) va * 8)"
  have lev: "2 - (2 - Suc l) = Suc l" "Suc (2 - Suc l) = 2 - l" using Suc.prems(1) by auto
  have node: "pt_node (mem s) r (2 - l) va = (if ?e AND PTE_V \<noteq> 0 then Some (PTE2PA ?e) else None)"
    using Suc.prems lev pt_node.simps(2) [of "mem s" r "2 - Suc l" va] by simp
  show ?case
  proof (cases "?e AND PTE_V \<noteq> 0")
    case True
    with node Suc.IH [of "PTE2PA ?e"] Suc.prems(1) show ?thesis by (simp add: Let_def)
  next
    case False
    have "pt_node (mem s) r d va = None" if "2 - l \<le> d" for d
      using that by (induction d rule: dec_induct) (use node False in auto)
    with False show ?thesis by (simp add: Let_def)
  qed
qed

lemma walk_lookup:
  assumes "va < MAXVA" and "r \<noteq> 0"
  shows "walk r va False s =
    Done (case pt_node (mem s) r 2 va of None \<Rightarrow> 0 | Some p \<Rightarrow> p + PX 0 va * 8) s"
  using assms walk_level_lookup [OF order_refl, of s r va r] by (auto simp: walk_def)

definition translate :: "bytes \<Rightarrow> u64 \<Rightarrow> u64 \<Rightarrow> u64" where
  "translate m r va =
     (let e = pte_of m r va
      in if va \<ge> MAXVA \<or> e AND PTE_V = 0 \<or> e AND PTE_U = 0 then 0 else PTE2PA e)"

lemma walkaddr_run:
  assumes "r \<noteq> 0" and "\<And>p. pt_node (mem s) r 2 va = Some p \<Longrightarrow> p + PX 0 va * 8 \<noteq> 0"
  shows "walkaddr r va s = Done (translate (mem s) r va) s"
  using assms
  by (auto simp: walkaddr_def translate_def kbind_run walk_lookup pte_of_def Let_def split: option.splits)

lemma walkaddr_inv:
  assumes "vm_inv s r xs"
  shows "walkaddr r va s = Done (translate (mem s) r va) s"
proof (rule walkaddr_run)
  show "r \<noteq> 0" using vm_inv_root [OF assms] by simp
  fix p assume "pt_node (mem s) r 2 va = Some p"
  then have "page_ok s p" using vm_inv_node [OF assms] by blast
  then show "p + PX 0 va * 8 \<noteq> 0" by (rule slot_nonzero [OF _ PX_less])
qed

subsection \<open>Mapping and unmapping one page\<close>

lemma va_high_bits: "va < MAXVA \<Longrightarrow> 38 \<le> n \<Longrightarrow> \<not> bit va n"
proof -
  assume "va < MAXVA" and n: "38 \<le> n"
  then have "va = take_bit 38 va"
    using less_mask_eq [of va 38] by (simp add: take_bit_eq_mask)
  then have "bit va n = bit (take_bit 38 va) n" by simp
  with n show ?thesis by (simp add: bit_simps)
qed

lemma bit_PX: "bit (PX l va) n \<longleftrightarrow> n < 9 \<and> bit va (12 + 9 * l + n)"
  by (auto simp: PX_def mask9 bit_simps)

text \<open>Below \<open>MAXVA\<close>, two addresses have the same three indices exactly when they share a page.\<close>

lemma same_page_iff:
  assumes "va < MAXVA" and "va' < MAXVA"
  shows "same_path 3 va va' \<longleftrightarrow> PGROUNDDOWN va = PGROUNDDOWN va'"
proof
  assume p: "same_path 3 va va'"
  have px: "PX l va = PX l va'" if "l \<le> 2" for l
    using p that by (auto simp: same_path_def dest!: spec [of _ "2 - l"])
  show "PGROUNDDOWN va = PGROUNDDOWN va'"
  proof (rule bit_word_eqI)
    fix n assume "n < LENGTH(64)"
    have "bit va n = bit va' n" if n: "12 \<le> n"
    proof (cases "n < 39")
      case True
      then have l: "(n - 12) div 9 \<le> 2" using n by simp
      have "12 + 9 * ((n - 12) div 9) + (n - 12) mod 9 = n" using n by simp
      then show ?thesis
        using bit_PX [of "(n - 12) div 9" va "(n - 12) mod 9"]
          bit_PX [of "(n - 12) div 9" va' "(n - 12) mod 9"] px [OF l] by simp
    next
      case False
      then show ?thesis using va_high_bits [OF assms(1), of n] va_high_bits [OF assms(2), of n] by simp
    qed
    then show "bit (PGROUNDDOWN va) n = bit (PGROUNDDOWN va') n"
      by (auto simp: PGROUNDDOWN_shift bit_simps)
  qed
next
  assume eq: "PGROUNDDOWN va = PGROUNDDOWN va'"
  have b: "bit va n = bit va' n" if "12 \<le> n" for n
    using that arg_cong [OF eq, of "\<lambda>w. bit w n"]
    by (auto simp: PGROUNDDOWN_shift bit_simps dest: bit_imp_le_length)
  have "PX l va = PX l va'" for l
    by (rule bit_word_eqI) (use b in \<open>simp add: bit_PX\<close>)
  then show "same_path 3 va va'" by (simp add: same_path_def)
qed

lemma leaf_write_inv:
  assumes "vm_inv s r xs" and "pt_node (mem s) r 2 va = Some q"
  shows "vm_ext r s xs (s\<lparr>mem := write64 (mem s) (q + PX 0 va * 8) v\<rparr>) xs"
proof -
  let ?m = "write64 (mem s) (q + PX 0 va * 8) v"
  have wf: "pt_wf (mem s) r" and k: "kmem_inv s xs" using assms(1) by (simp_all add: vm_inv_def)
  note node = pt_node_leaf_write [OF wf assms(2)]
  have q: "q \<notin> set xs" "page_ok s q" using vm_inv_node [OF assms(1,2)] by simp_all
  have frame: "?m x = mem s x" if "\<not> in_region q 4096 x" for x
    using that slot_offset [OF PX_less] by (intro write_le_outside) blast
  have "freelist_at ?m (freelist s) xs"
    by (rule iffD2 [OF freelist_at_other_page [of q]])
      (use q k frame in \<open>auto simp: page_ok_def kmem_inv_def\<close>)
  then have "kmem_inv (s\<lparr>mem := ?m\<rparr>) xs" using k by (simp add: kmem_inv_def page_ok_def)
  moreover have "pt_wf ?m r" by (rule pt_wf_same_nodes [OF wf node])
  moreover have "p \<notin> set xs \<and> page_ok (s\<lparr>mem := ?m\<rparr>) p"
    if "d \<le> 2" "pt_node ?m r d va' = Some p" for d va' p
    using vm_inv_node [OF assms(1)] that node by (simp add: page_ok_def)
  moreover have "owned ?m r xs \<subseteq> owned (mem s) r xs" using node by (auto simp: owned_def) blast
  moreover have "?m x = mem s x" if "\<forall>p \<in> owned (mem s) r xs. \<not> in_region p 4096 x" for x
    using that assms(2) by (intro frame) (auto simp: owned_def)
  ultimately show ?thesis by (auto simp: vm_ext_def vm_inv_def)
qed

lemma last_of_page: "page_aligned a \<Longrightarrow> a < MAXVA \<Longrightarrow> PGROUNDDOWN (a + PGSIZE - 1) = a"
proof -
  assume a: "page_aligned a" "a < MAXVA"
  have "unat (a + 4095) = unat a + 4095"
    using a(2) unat_add_lem [of a 4095] by (simp add: word_less_nat_alt)
  moreover obtain k where "unat a = 4096 * k" using a(1) by (auto simp: page_aligned_unat elim: dvdE)
  ultimately have "unat (PGROUNDDOWN (a + 4095)) = unat a" by (simp add: unat_PGROUNDDOWN)
  then show ?thesis by (simp add: word_unat_eq_iff add.commute [of 4095 a])
qed

lemma mappages_page:
  assumes "vm_inv s r xs" and "page_aligned a" and "a < MAXVA" and "pte_of (mem s) r a AND PTE_V = 0"
  obtains rc t ys where "mappages r a PGSIZE pa perm s = Done rc t" and "vm_ext r s xs t ys"
    and "rc = 0 \<or> rc = - 1 \<and> ys = [] \<and> length xs < 2"
    and "\<And>va. pte_of (mem t) r va =
      (if rc = 0 \<and> same_path 3 a va then PA2PTE pa OR perm OR PTE_V else pte_of (mem s) r va)"
proof -
  obtain p t ys where w: "walk r a True s = Done p t" "vm_ext r s xs t ys"
    "\<And>va. pte_of (mem t) r va = pte_of (mem s) r va" "p = 0 \<Longrightarrow> ys = [] \<and> length xs < 2"
    "p \<noteq> 0 \<Longrightarrow> \<exists>q. pt_node (mem t) r 2 a = Some q \<and> p = q + PX 0 a * 8"
    using walk_alloc [OF assms(1,3)] by metis
  have run: "mappages r a PGSIZE pa perm s = mappages_loop r a a pa perm s"
    using assms(2,3) last_of_page by (simp add: mappages_def)
  show thesis
  proof (cases "p = 0")
    case True
    then have "mappages r a PGSIZE pa perm s = Done (- 1) t"
      using w(1) assms(3) by (subst run, subst mappages_loop.simps) (simp add: kbind_run)
    then show thesis using that [of "- 1" t ys] w True by simp
  next
    case False
    then obtain q where q: "pt_node (mem t) r 2 a = Some q" "p = q + PX 0 a * 8" using w(5) by auto
    have "read64 (mem t) p AND PTE_V = 0"
      using w(3) [of a] assms(4) q by (simp add: pte_of_def)
    let ?u = "t\<lparr>mem := write64 (mem t) p (PA2PTE pa OR perm OR PTE_V)\<rparr>"
    have "mappages r a PGSIZE pa perm s = Done 0 ?u"
      using w(1) assms(3) False \<open>read64 (mem t) p AND PTE_V = 0\<close>
      by (subst run, subst mappages_loop.simps) (simp add: kbind_run kseq_run)
    moreover have "vm_ext r s xs ?u ys"
      using vm_ext_trans [OF w(2) leaf_write_inv [OF vm_ext_inv [OF w(2)] q(1)]] q(2) by simp
    moreover have "pte_of (mem ?u) r va =
        (if same_path 3 a va then PA2PTE pa OR perm OR PTE_V else pte_of (mem s) r va)" for va
      using pte_of_leaf_write [OF _ q(1)] vm_ext_inv [OF w(2)] q(2) w(3) by (simp add: vm_inv_def)
    ultimately show thesis using that [of 0 ?u ys] by simp
  qed
qed

end
