(* ===== verification/Vm_Copy.thy ===== *)
theory Vm_Copy
  imports Vm_Inv
begin

text \<open>
  What \<^verbatim>\<open>vm.c\<close> promises its callers, stated on the user's view of memory:
  \<open>user_byte m r va\<close> is the byte a user program sees at \<open>va\<close>, if it may touch it.
  \<open>copyin\<close> and \<open>copyinstr\<close> return exactly those bytes and fail exactly when one of
  them is inaccessible; \<open>copyout\<close> changes exactly the addressed bytes; \<open>mappages\<close>
  changes the meaning of exactly one page. The last part is about the reference
  counts of shared pages.
\<close>

definition user_byte :: "bytes \<Rightarrow> u64 \<Rightarrow> u64 \<Rightarrow> u8 option" where
  "user_byte m r va =
     (let pa = translate m r (PGROUNDDOWN va)
      in if pa = 0 then None else Some (m (pa + (va - PGROUNDDOWN va))))"

subsection \<open>Chunks of a page\<close>

lemma chunk_same_page:
  assumes "i < 4096 - unat va mod 4096"
  shows "PGROUNDDOWN (va + of_nat i) = PGROUNDDOWN va" and "unat (va + of_nat i) = unat va + i"
proof -
  have le: "unat va div 4096 * 4096 + 4096 \<le> 2 ^ 64"
    using unat_u64_less [of va] by simp
  have "unat va = unat va div 4096 * 4096 + unat va mod 4096" by simp
  then have lim: "unat va + i < unat va div 4096 * 4096 + 4096" using assms by linarith
  then have "unat va + i < 2 ^ 64" using le by linarith
  then show i: "unat (va + of_nat i) = unat va + i"
    by (simp add: unat_word_ariths unat_of_nat take_bit_nat_eq_self)
  have "(unat va + i) div 4096 = unat va div 4096"
    using lim by (simp add: div_nat_eqI)
  then show "PGROUNDDOWN (va + of_nat i) = PGROUNDDOWN va"
    by (simp add: word_unat_eq_iff unat_PGROUNDDOWN i)
qed

lemma next_page:
  assumes "n = 4096 - unat va mod 4096"
  shows "PGROUNDDOWN va + PGSIZE = va + of_nat n"
proof -
  have "n \<le> 4096" using assms by simp
  then have n: "unat (of_nat n :: u64) = n" by (simp add: unat_of_nat64)
  have "of_nat n + (va - PGROUNDDOWN va) = PGSIZE"
  proof -
    have "unat (of_nat n :: u64) + unat (va - PGROUNDDOWN va) = 4096"
      using assms n by (simp add: unat_page_offset)
    then have "unat (of_nat n + (va - PGROUNDDOWN va)) = unat PGSIZE"
      using unat_add_lem [of "of_nat n" "va - PGROUNDDOWN va"] by simp
    then show ?thesis by (simp only: word_unat_eq_iff)
  qed
  then show ?thesis by (simp add: algebra_simps)
qed

lemma load_bytes_map: "load_bytes m a n = map (\<lambda>i. m (a + of_nat i)) [0..<n]"
proof (induction n arbitrary: a)
  case 0
  then show ?case by simp
next
  case (Suc n)
  have "map (\<lambda>i. m (a + of_nat i)) [0..<Suc n] = m a # map (\<lambda>i. m (a + 1 + of_nat i)) [0..<n]"
    by (simp add: upt_conv_Cons map_Suc_upt [symmetric] add.assoc del: upt_Suc)
  with Suc show ?case by simp
qed

lemma user_byte_chunk:
  assumes "i < 4096 - unat va mod 4096" and "translate m r (PGROUNDDOWN va) = pa"
  shows "user_byte m r (va + of_nat i) =
    (if pa = 0 then None else Some (m (pa + (va - PGROUNDDOWN va) + of_nat i)))"
  using chunk_same_page (1) [OF assms(1)] assms(2)
  by (simp add: user_byte_def Let_def algebra_simps)

text \<open>
  The walk through the pages of a buffer, shared by the three copy routines: either the
  first page is inaccessible, or the rest of the buffer starts at the next page (or
  is empty).
\<close>

lemma chunk_next:
  assumes "n = page_chunk va len" and "0 < len"
  shows "n \<le> len" and "0 < n" and "n \<le> 4096 - unat va mod 4096"
    and "len - n = 0 \<or> PGROUNDDOWN va + PGSIZE = va + of_nat n"
proof -
  show "n \<le> len" "0 < n" "n \<le> 4096 - unat va mod 4096"
    using assms page_chunk_pos [OF assms(2)] by (simp_all add: page_chunk_eq)
  show "len - n = 0 \<or> PGROUNDDOWN va + PGSIZE = va + of_nat n"
    using assms(1) next_page [of n va] by (auto simp: page_chunk_eq min_def)
qed

lemma map_upt_append:
  "n \<le> len \<Longrightarrow> map f [0..<len] = map f [0..<n] @ map (\<lambda>i. f (n + i)) [0..<len - n]"
proof -
  assume "n \<le> len"
  then have "[0..<len] = [0..<n] @ map (\<lambda>i. i + n) [0..<len - n]"
    using upt_add_eq_append [of 0 n "len - n"] by (simp add: map_add_upt)
  then have "map f [0..<len] = map f [0..<n] @ map f (map (\<lambda>i. i + n) [0..<len - n])"
    by (metis map_append)
  then show ?thesis by (simp add: comp_def add.commute)
qed

lemma ex_shift:
  fixes n len :: nat
  assumes "\<And>i. i < n \<Longrightarrow> \<not> P i" and "n \<le> len"
  shows "(\<exists>i < len - n. P (n + i)) \<longleftrightarrow> (\<exists>i < len. P i)"
proof
  assume "\<exists>i < len - n. P (n + i)"
  then obtain i where "i < len - n" "P (n + i)" by blast
  then show "\<exists>i < len. P i" by (intro exI [of _ "n + i"]) auto
next
  assume "\<exists>i < len. P i"
  then obtain i where i: "i < len" "P i" by blast
  then have "n \<le> i" using assms(1) [of i] by (cases "i < n") simp_all
  then show "\<exists>i < len - n. P (n + i)" using i by (intro exI [of _ "i - n"]) auto
qed

subsection \<open>copyin\<close>

lemma copyin_0 [simp]: "copyin r va 0 s = Done (0, []) s"
  by (simp add: copyin.simps)

lemma copyin_spec:
  assumes "vm_inv s r xs"
  shows "(\<forall>i < len. user_byte (mem s) r (va + of_nat i) \<noteq> None) \<and>
      copyin r va len s = Done (0, map (\<lambda>i. the (user_byte (mem s) r (va + of_nat i))) [0..<len]) s
    \<or> (\<exists>i < len. user_byte (mem s) r (va + of_nat i) = None) \<and>
      (\<exists>bs. copyin r va len s = Done (- 1, bs) s)"
proof (induction len arbitrary: va rule: less_induct)
  case (less len)
  show ?case
  proof (cases "len = 0")
    case True
    then show ?thesis by (simp add: copyin.simps)
  next
    case False
    define n where "n = page_chunk va len"
    define pa where "pa = translate (mem s) r (PGROUNDDOWN va)"
    note n = chunk_next [OF n_def] and ub = user_byte_chunk [OF _ pa_def [symmetric]]
    have run: "copyin r va len s = (if pa = 0 then Done (- 1, []) s
        else case copyin r (PGROUNDDOWN va + PGSIZE) (len - n) s of
          Done (rc, rest) s' \<Rightarrow> Done (rc, load_bytes (mem s) (pa + (va - PGROUNDDOWN va)) n @ rest) s'
        | Panic e \<Rightarrow> Panic e | Spin l \<Rightarrow> Spin l | Fault \<Rightarrow> Fault | Hang \<Rightarrow> Hang | Block c s' \<Rightarrow> Block c s')"
      using False walkaddr_inv [OF assms]
      by (subst copyin.simps)
        (auto simp: kbind_run pa_def n_def Let_def split: outcome.splits)
    show ?thesis
    proof (cases "pa = 0")
      case True
      then have "user_byte (mem s) r (va + of_nat 0) = None" using ub [of 0] by simp
      with True run False show ?thesis by fastforce
    next
      case pa: False
      have ubn: "user_byte (mem s) r (va + of_nat i) = Some (mem s (pa + (va - PGROUNDDOWN va) + of_nat i))"
        if "i < n" for i
        using that n(3) False ub [of i] pa by simp
      have first: "load_bytes (mem s) (pa + (va - PGROUNDDOWN va)) n =
          map (\<lambda>i. the (user_byte (mem s) r (va + of_nat i))) [0..<n]"
        using ubn by (simp add: load_bytes_map)
      have rest: "copyin r (PGROUNDDOWN va + PGSIZE) (len - n) s = copyin r (va + of_nat n) (len - n) s"
        using n(4) False by (metis copyin_0 gr0I)
      have split: "map f [0..<len] = map f [0..<n] @ map (\<lambda>i. f (n + i)) [0..<len - n]"
        for f :: "nat \<Rightarrow> u8"
        using n(1) False by (intro map_upt_append) simp
      have idx: "va + of_nat n + of_nat i = va + of_nat (n + i)" for i by (simp add: algebra_simps)
      have shift: "(\<exists>i < len - n. user_byte (mem s) r (va + of_nat (n + i)) = None)
          \<longleftrightarrow> (\<exists>i < len. user_byte (mem s) r (va + of_nat i) = None)"
        using n(1) False ubn by (intro ex_shift) auto
      have "len - n < len" using n(2) False by simp
      from less.IH [OF this, of "va + of_nat n"] shift show ?thesis
        by (auto simp: run pa rest first split idx)
    qed
  qed
qed

subsection \<open>copyout\<close>

lemma copyout_Nil [simp]: "copyout r va [] s = Done 0 s"
  by (simp add: copyout.simps)

lemma store_bytes_eq:
  assumes "length bs < 2 ^ 64"
  shows "store_bytes m a bs x = (if in_region a (length bs) x then bs ! unat (x - a) else m x)"
  using assms
proof (induction bs arbitrary: m a)
  case Nil
  then show ?case by simp
next
  case (Cons b bs)
  have IH: "store_bytes (m(a := b)) (a + 1) bs x =
      (if in_region (a + 1) (length bs) x then bs ! unat (x - (a + 1)) else (m(a := b)) x)"
    using Cons.prems by (intro Cons.IH) simp
  show ?case
  proof (cases "x = a")
    case True
    have "\<not> in_region (a + 1) (length bs) a" using Cons.prems by (intro not_in_region_next) simp
    with True IH show ?thesis by (simp add: in_region_Suc)
  next
    case False
    with IH show ?thesis by (simp add: in_region_Suc unat_diff_Suc)
  qed
qed

text \<open>
  User pages are neither page-table pages nor free, and no page is mapped twice (the
  address space of one process without shared mappings inside it).
\<close>

definition user_sep :: "bytes \<Rightarrow> u64 \<Rightarrow> u64 list \<Rightarrow> bool" where
  "user_sep m r xs \<longleftrightarrow>
     (\<forall>va. translate m r (PGROUNDDOWN va) \<noteq> 0 \<longrightarrow> translate m r (PGROUNDDOWN va) \<notin> owned m r xs) \<and>
     (\<forall>va va'. translate m r (PGROUNDDOWN va) \<noteq> 0 \<longrightarrow>
        translate m r (PGROUNDDOWN va) = translate m r (PGROUNDDOWN va') \<longrightarrow>
        PGROUNDDOWN va = PGROUNDDOWN va')"

lemma translate_aligned: "page_aligned (translate m r va)"
  by (simp add: translate_def Let_def page_aligned_PTE2PA) (simp add: page_aligned_def)

lemma user_page_write_nodes:
  assumes "vm_inv s r xs" and "page_aligned pa" and "pa \<notin> owned (mem s) r xs"
    and "\<And>x. \<not> in_region pa 4096 x \<Longrightarrow> m' x = mem s x"
  shows "d \<le> 2 \<Longrightarrow> pt_node m' r d va = pt_node (mem s) r d va"
    and "pte_of m' r va = pte_of (mem s) r va"
    and "vm_inv (s\<lparr>mem := m'\<rparr>) r xs"
proof -
  have wf: "pt_wf (mem s) r" and k: "kmem_inv s xs" using assms(1) by (simp_all add: vm_inv_def)
  have same: "m' x = mem s x" if "d \<le> 2" "pt_node (mem s) r d va = Some q" "in_region q 4096 x" for d va q x
  proof -
    have "q \<noteq> pa" using that assms(3) by (auto simp: owned_def)
    then show ?thesis
      using that assms(2,4) pages_disjoint [of pa q x] pt_node_aligned pt_wf_root [OF wf] by blast
  qed
  show node: "pt_node m' r d va = pt_node (mem s) r d va" if "d \<le> 2" for d va
    by (rule pt_node_outside [OF wf that]) (meson same less_imp_le)
  show pte: "pte_of m' r va = pte_of (mem s) r va" for va
    using read_slot_cong [OF PX_less, of _ m' "mem s"] same [OF order_refl]
    by (auto simp: pte_of_def node split: option.splits)
  have "freelist_at m' (freelist s) xs"
    by (rule iffD2 [OF freelist_at_other_page [of pa]])
      (use assms k in \<open>auto simp: kmem_inv_def page_ok_def owned_def\<close>)
  then have "kmem_inv (s\<lparr>mem := m'\<rparr>) xs" using k by (simp add: kmem_inv_def page_ok_def)
  moreover have "pt_wf m' r" by (rule pt_wf_same_nodes [OF wf node])
  ultimately show "vm_inv (s\<lparr>mem := m'\<rparr>) r xs"
    using assms(1) node by (auto simp: vm_inv_def page_ok_def)
qed

lemma user_page_write_map:
  assumes "vm_inv s r xs" and "page_aligned pa" and "pa \<notin> owned (mem s) r xs"
    and "\<And>x. \<not> in_region pa 4096 x \<Longrightarrow> m' x = mem s x"
  shows "translate m' r va = translate (mem s) r va" and "owned m' r xs = owned (mem s) r xs"
    and "user_sep m' r xs \<longleftrightarrow> user_sep (mem s) r xs"
proof -
  note nodes = user_page_write_nodes [OF assms]
  show tr: "translate m' r v = translate (mem s) r v" for v by (simp add: translate_def nodes(2))
  have "(\<exists>d \<le> 2. \<exists>va. pt_node m' r d va = Some q) \<longleftrightarrow> (\<exists>d \<le> 2. \<exists>va. pt_node (mem s) r d va = Some q)" for q
    using nodes(1) by auto metis+
  then show own: "owned m' r xs = owned (mem s) r xs" by (simp add: owned_def)
  show "user_sep m' r xs \<longleftrightarrow> user_sep (mem s) r xs" by (simp add: user_sep_def tr own)
qed

lemma chunk_region:
  assumes "n \<le> 4096 - unat va mod 4096" and "in_region va n x"
  shows "PGROUNDDOWN x = PGROUNDDOWN va"
proof -
  have "x = va + of_nat (unat (x - va))" by simp
  moreover have "unat (x - va) < 4096 - unat va mod 4096" using assms by (simp add: in_region_def)
  ultimately show ?thesis using chunk_same_page(1) by metis
qed

lemma page_offset_region: "in_region pa 4096 (pa + (x - PGROUNDDOWN x))"
  using unat_page_offset [of x] by (simp add: in_region_def)

lemma chunk_in_page:
  assumes "n \<le> 4096 - unat va mod 4096" and "in_region (pa + (va - PGROUNDDOWN va)) n x"
  shows "in_region pa 4096 x"
proof -
  have "x - pa = (x - (pa + (va - PGROUNDDOWN va))) + (va - PGROUNDDOWN va)" by simp
  moreover have "unat (x - (pa + (va - PGROUNDDOWN va))) + unat (va - PGROUNDDOWN va) < 4096"
    using assms by (simp add: in_region_def unat_page_offset)
  ultimately show ?thesis
    using unat_add_lem [of "x - (pa + (va - PGROUNDDOWN va))" "va - PGROUNDDOWN va"]
    by (simp add: in_region_def)
qed

lemma user_chunk_write:
  assumes inv: "vm_inv s r xs" and sep: "user_sep (mem s) r xs"
    and pa: "pa = translate (mem s) r (PGROUNDDOWN va)" "pa \<noteq> 0"
    and n: "length bs \<le> 4096 - unat va mod 4096"
    and m': "m' = store_bytes (mem s) (pa + (va - PGROUNDDOWN va)) bs"
  shows "vm_inv (s\<lparr>mem := m'\<rparr>) r xs" and "user_sep m' r xs"
    and "user_byte m' r x =
      (if in_region va (length bs) x then Some (bs ! unat (x - va)) else user_byte (mem s) r x)"
proof -
  have len: "length bs < 2 ^ 64" using n by simp
  note st = store_bytes_eq [OF len, of "mem s" "pa + (va - PGROUNDDOWN va)"]
  have frame: "m' y = mem s y" if "\<not> in_region pa 4096 y" for y
    using that chunk_in_page [OF n] by (auto simp: m' st)
  have own: "pa \<notin> owned (mem s) r xs" using sep pa by (auto simp: user_sep_def)
  have al: "page_aligned pa" using translate_aligned pa(1) by simp
  show "vm_inv (s\<lparr>mem := m'\<rparr>) r xs" by (rule user_page_write_nodes(3) [OF inv al own frame])
  note maps = user_page_write_map [OF inv al own frame]
  note tr = maps(1)
  show "user_sep m' r xs" using sep maps(3) by blast
  show "user_byte m' r x =
      (if in_region va (length bs) x then Some (bs ! unat (x - va)) else user_byte (mem s) r x)"
  proof (cases "PGROUNDDOWN x = PGROUNDDOWN va")
    case True
    have off: "pa + (x - PGROUNDDOWN va) - (pa + (va - PGROUNDDOWN va)) = x - va" by simp
    then have "in_region (pa + (va - PGROUNDDOWN va)) (length bs) (pa + (x - PGROUNDDOWN va))
        \<longleftrightarrow> in_region va (length bs) x" by (simp only: in_region_def)
    then have "m' (pa + (x - PGROUNDDOWN va)) =
        (if in_region va (length bs) x then bs ! unat (x - va) else mem s (pa + (x - PGROUNDDOWN va)))"
      unfolding m' st off by simp
    moreover have "translate m' r (PGROUNDDOWN x) = pa" "translate (mem s) r (PGROUNDDOWN x) = pa"
      using tr pa(1) True by simp_all
    ultimately show ?thesis using pa(2) True by (simp add: user_byte_def Let_def)
  next
    case False
    let ?q = "translate (mem s) r (PGROUNDDOWN x)"
    have "m' (?q + (x - PGROUNDDOWN x)) = mem s (?q + (x - PGROUNDDOWN x))" if "?q \<noteq> 0"
    proof (rule frame)
      have "?q \<noteq> pa" using sep that False pa(1) by (auto simp: user_sep_def)
      then show "\<not> in_region pa 4096 (?q + (x - PGROUNDDOWN x))"
        using pages_disjoint [OF _ _ page_offset_region, of ?q pa x] al translate_aligned by blast
    qed
    moreover have "\<not> in_region va (length bs) x" using chunk_region [OF n] False by blast
    ultimately show ?thesis by (simp add: user_byte_def tr Let_def)
  qed
qed

lemma in_region_append:
  assumes "n \<le> len" and "len < 2 ^ 64"
  shows "in_region a len x \<longleftrightarrow> in_region a n x \<or> in_region (a + of_nat n) (len - n) x"
    and "\<not> in_region a n x \<Longrightarrow> in_region (a + of_nat n) (len - n) x \<Longrightarrow>
      unat (x - a) = n + unat (x - (a + of_nat n))"
    and "in_region a n x \<Longrightarrow> \<not> in_region (a + of_nat n) (len - n) x"
proof -
  have n: "unat (of_nat n :: u64) = n" using assms by (intro unat_of_nat64) simp
  have split: "x - (a + of_nat n) = x - a - of_nat n" by (simp add: algebra_simps)
  have ge: "unat (x - (a + of_nat n)) = unat (x - a) - n" if "n \<le> unat (x - a)"
    using that n unat_sub [of "of_nat n" "x - a"] by (simp add: split word_le_nat_alt)
  have lt: "len - n \<le> unat (x - (a + of_nat n))" if "unat (x - a) < n"
  proof -
    have "unat (x - (a + of_nat n)) = 2 ^ 64 + unat (x - a) - n"
      using that n unat_sub_if_size [of "x - a" "of_nat n"] by (simp add: split word_size not_le)
    then show ?thesis using assms by linarith
  qed
  show "in_region a len x \<longleftrightarrow> in_region a n x \<or> in_region (a + of_nat n) (len - n) x"
    using ge lt assms(1) by (cases "unat (x - a) < n") (auto simp: in_region_def)
  show "unat (x - a) = n + unat (x - (a + of_nat n))"
    if "\<not> in_region a n x" "in_region (a + of_nat n) (len - n) x"
    using that ge by (simp add: in_region_def)
  show "\<not> in_region (a + of_nat n) (len - n) x" if "in_region a n x"
    using that lt by (auto simp: in_region_def not_less)
qed

text \<open>The user memory after \<open>bs\<close> has been stored at \<open>va\<close>.\<close>

definition user_store :: "(u64 \<Rightarrow> u8 option) \<Rightarrow> u64 \<Rightarrow> u8 list \<Rightarrow> u64 \<Rightarrow> u8 option" where
  "user_store u va bs x = (if in_region va (length bs) x then Some (bs ! unat (x - va)) else u x)"

lemma user_store_append:
  assumes "length (bs @ cs) < 2 ^ 64"
  shows "user_store (user_store u va bs) (va + of_nat (length bs)) cs = user_store u va (bs @ cs)"
proof
  fix x
  note ap = in_region_append [OF _ assms, of "length bs" va x, simplified]
  show "user_store (user_store u va bs) (va + of_nat (length bs)) cs x = user_store u va (bs @ cs) x"
    using ap by (auto simp: user_store_def nth_append in_region_def)
qed

lemma copyout_spec:
  assumes "vm_inv s r xs" and "user_sep (mem s) r xs" and "length src < 2 ^ 64"
  shows "\<exists>rc t. copyout r va src s = Done rc t \<and> vm_inv t r xs \<and> user_sep (mem t) r xs \<and>
    (if \<forall>i < length src. user_byte (mem s) r (va + of_nat i) \<noteq> None
     then rc = 0 \<and> user_byte (mem t) r = user_store (user_byte (mem s) r) va src
     else rc = - 1 \<and> (\<exists>n < length src. user_byte (mem t) r = user_store (user_byte (mem s) r) va (take n src)))"
  using assms
proof (induction "length src" arbitrary: s va src rule: less_induct)
  case less
  show ?case
  proof (cases "src = []")
    case True
    then show ?thesis using less.prems by (simp add: user_store_def fun_eq_iff)
  next
    case False
    define n where "n = page_chunk va (length src)"
    define pa where "pa = translate (mem s) r (PGROUNDDOWN va)"
    have pos: "0 < length src" using False by simp
    note n = chunk_next [OF n_def pos] and ub = user_byte_chunk [OF _ pa_def [symmetric]]
    show ?thesis
    proof (cases "pa = 0")
      case True
      have "copyout r va src s = Done (- 1) s"
        using False True walkaddr_inv [OF less.prems(1)]
        by (subst copyout.simps) (simp add: kbind_run pa_def Let_def)
      moreover have "user_byte (mem s) r (va + of_nat 0) = None" using ub [of 0] True by simp
      moreover have "user_byte (mem s) r = user_store (user_byte (mem s) r) va (take 0 src)"
        by (simp add: user_store_def fun_eq_iff)
      ultimately show ?thesis using less.prems pos by fastforce
    next
      case pa: False
      define t where "t = s\<lparr>mem := store_bytes (mem s) (pa + (va - PGROUNDDOWN va)) (take n src)\<rparr>"
      have len: "length (take n src) = n" using n(1) by simp
      have run: "copyout r va src s = copyout r (PGROUNDDOWN va + PGSIZE) (drop n src) t"
        using False pa walkaddr_inv [OF less.prems(1)]
        by (subst copyout.simps) (simp add: kbind_run kseq_run pa_def n_def t_def Let_def)
      also have "\<dots> = copyout r (va + of_nat n) (drop n src) t"
        using n(4) by (metis copyout_Nil length_0_conv length_drop)
      finally have run: "copyout r va src s = copyout r (va + of_nat n) (drop n src) t" .
      note w = user_chunk_write [OF less.prems(1,2) pa_def pa, of "take n src"]
      have t: "vm_inv t r xs" "user_sep (mem t) r xs"
        "user_byte (mem t) r = user_store (user_byte (mem s) r) va (take n src)"
        using w(1,2) n(3) len by (simp_all add: t_def user_store_def fun_eq_iff w(3))
      let ?u = "user_byte (mem s) r" and ?d = "drop n src" and ?v = "va + of_nat n"
      have ubn: "?u (va + of_nat i) \<noteq> None" if "i < n" for i using that n(3) ub [of i] pa by simp
      have idx: "?v + of_nat i = va + of_nat (n + i)" for i by (simp add: algebra_simps)
      have "user_byte (mem t) r x = None \<longleftrightarrow> ?u x = None" for x
        using ubn [of "unat (x - va)"] len by (auto simp: t(3) user_store_def in_region_def)
      moreover have "(\<exists>i < length src - n. ?u (va + of_nat (n + i)) = None) \<longleftrightarrow>
          (\<exists>i < length src. ?u (va + of_nat i) = None)"
        using n(1) ubn by (intro ex_shift) auto
      ultimately have cond: "(\<forall>i < length ?d. user_byte (mem t) r (?v + of_nat i) \<noteq> None) \<longleftrightarrow>
          (\<forall>i < length src. ?u (va + of_nat i) \<noteq> None)" by (auto simp: idx)
      have store: "user_store (user_byte (mem t) r) ?v (take k ?d) = user_store ?u va (take (n + k) src)" for k
        using user_store_append [of "take n src" "take k ?d" ?u va] less.prems(3) len
        by (simp add: t(3) take_add)
      have "length ?d < length src" "length ?d < 2 ^ 64" using n(1,2) less.prems(3) by auto
      from less.hyps [OF this(1) t(1,2) this(2), of ?v, unfolded cond]
      obtain rc w where w: "copyout r ?v ?d t = Done rc w" "vm_inv w r xs" "user_sep (mem w) r xs"
        "if \<forall>i < length src. ?u (va + of_nat i) \<noteq> None
         then rc = 0 \<and> user_byte (mem w) r = user_store (user_byte (mem t) r) ?v ?d
         else rc = - 1 \<and> (\<exists>k < length ?d. user_byte (mem w) r = user_store (user_byte (mem t) r) ?v (take k ?d))"
        by blast
      have full: "user_store (user_byte (mem t) r) ?v ?d = user_store ?u va src"
        using store [of "length ?d"] n(1) by simp
      have "n + k < length src" if "k < length ?d" for k using that by simp
      then show ?thesis using w(1-3) w(4) [unfolded store full] run by (metis (no_types, lifting))
    qed
  qed
qed

subsection \<open>Giving up a shared page\<close>

lemma kfree_user_page:
  assumes "vm_inv s r xs" and "page_ok s pa" and "pa \<notin> owned (mem s) r xs"
  obtains t where "kfree pa s = Done () t" and "vm_inv t r (pa # xs)"
    and "\<And>va. pte_of (mem t) r va = pte_of (mem s) r va"
    and "\<And>d va. d \<le> 2 \<Longrightarrow> pt_node (mem t) r d va = pt_node (mem s) r d va"
    and "refcount t = refcount s"
proof -
  have k: "kmem_inv s xs" and al: "page_aligned pa" using assms by (auto simp: vm_inv_def page_ok_def)
  have "pa \<notin> set xs" using assms(3) by (simp add: owned_def)
  then obtain t where t: "kfree pa s = Done () t" "kmem_inv t (pa # xs)"
    "t = s\<lparr>mem := mem t, freelist := pa\<rparr>" "\<And>a. \<not> in_region pa 4096 a \<Longrightarrow> mem t a = mem s a"
    using kfree_push [OF k assms(2)] by metis
  note nodes = user_page_write_nodes [OF assms(1) al assms(3) t(4)]
  have same: "sym_end t = sym_end s" "refcount t = refcount s" by (subst t(3), simp)+
  have "q \<notin> set (pa # xs) \<and> page_ok t q" if "d \<le> 2" "pt_node (mem t) r d va = Some q" for d va q
    using vm_inv_node [OF assms(1)] that nodes(1) assms(3) same(1) by (auto simp: owned_def page_ok_def)
  moreover have "pt_wf (mem t) r"
    using pt_wf_same_nodes [OF _ nodes(1)] assms(1) by (simp add: vm_inv_def)
  ultimately have "vm_inv t r (pa # xs)" using t(2) by (auto simp: vm_inv_def)
  then show thesis using t(1) nodes(1,2) same(2) by (intro that)
qed

lemma free_user_page_run:
  assumes "vm_inv s r xs" and "va < MAXVA" and "pt_node (mem s) r 2 va = Some q"
    and "e = read64 (mem s) (q + PX 0 va * 8)" and "e AND PTE_V \<noteq> 0" and "PTE2PA e < PHYSTOP"
    and "i = unat (drop_bit 12 (PTE2PA e))"
  shows "free_user_page r va s =
    kseq (kwhen (refcount s i = 1) (kfree (PTE2PA e)))
      (kmod (\<lambda>s. s\<lparr>mem := write64 (mem s) (q + PX 0 va * 8) 0\<rparr>))
      (s\<lparr>refcount := (refcount s)(i := refcount s i - 1)\<rparr>)"
proof -
  have "page_ok s q" and r: "r \<noteq> 0" using vm_inv_node [OF assms(1,3)] vm_inv_root [OF assms(1)] by auto
  then have "q + PX 0 va * 8 \<noteq> 0" by (intro slot_nonzero [OF _ PX_less])
  moreover have "machine_ok s" "lock_free KmemLock s" using assms(1) by (auto simp: vm_inv_def kmem_inv_def)
  ultimately show ?thesis
    using walk_lookup [of va r s] assms(2-7) r kref_add_run [of s "PTE2PA e" "- 1"]
    by (simp add: free_user_page_def kbind_run kref_dec_def Let_def)
qed

lemma pte_of_valid_node:
  "pte_of m r va AND PTE_V \<noteq> 0 \<Longrightarrow>
   \<exists>q. pt_node m r 2 va = Some q \<and> pte_of m r va = read64 m (q + PX 0 va * 8)"
  by (auto simp: pte_of_def split: option.splits)

text \<open>The page a process gives up: what \<open>free_user_page\<close> does with it.\<close>

lemma free_user_page_spec:
  assumes inv: "vm_inv s r xs" and va: "va < MAXVA" and v: "pte_of (mem s) r va AND PTE_V \<noteq> 0"
    and pa: "pa = PTE2PA (pte_of (mem s) r va)" "page_ok s pa" "pa \<notin> owned (mem s) r xs"
    and i: "i = unat (drop_bit 12 pa)"
  obtains t where "free_user_page r va s = Done () t"
    and "vm_inv t r (if refcount s i = 1 then pa # xs else xs)"
    and "refcount t = (refcount s)(i := refcount s i - 1)"
    and "\<And>va'. pte_of (mem t) r va' = (if same_path 3 va va' then 0 else pte_of (mem s) r va')"
proof -
  obtain q where q: "pt_node (mem s) r 2 va = Some q" "pte_of (mem s) r va = read64 (mem s) (q + PX 0 va * 8)"
    using pte_of_valid_node [OF v] by blast
  let ?s = "s\<lparr>refcount := (refcount s)(i := refcount s i - 1)\<rparr>"
  let ?xs = "if refcount s i = 1 then pa # xs else xs"
  have s: "vm_inv ?s r xs" "page_ok ?s pa"
    using inv pa(2) by (simp_all add: vm_inv_def kmem_inv_def page_ok_def)
  obtain u where u: "kwhen (refcount s i = 1) (kfree pa) ?s = Done () u" "vm_inv u r ?xs"
    "\<And>va. pte_of (mem u) r va = pte_of (mem s) r va" "pt_node (mem u) r 2 va = Some q"
    "refcount u = refcount ?s"
  proof (cases "refcount s i = 1")
    case True
    obtain u where "kfree pa ?s = Done () u" "vm_inv u r (pa # xs)"
      "\<And>va. pte_of (mem u) r va = pte_of (mem s) r va"
      "\<And>d va. d \<le> 2 \<Longrightarrow> pt_node (mem u) r d va = pt_node (mem s) r d va" "refcount u = refcount ?s"
      using kfree_user_page [OF s] pa(3) by auto
    with True q(1) show ?thesis by (intro that [of u]) simp_all
  next
    case False
    with q(1) s(1) show ?thesis by (intro that [of ?s]) simp_all
  qed
  let ?t = "u\<lparr>mem := write64 (mem u) (q + PX 0 va * 8) 0\<rparr>"
  have "free_user_page r va s = Done () ?t"
    using free_user_page_run [OF inv va q(1) q(2) v _ i [unfolded pa(1)]] pa u(1)
    by (simp add: kseq_run page_ok_def)
  moreover have "vm_inv ?t r ?xs" using leaf_write_inv [OF u(2,4)] by (rule vm_ext_inv)
  moreover have "pte_of (mem ?t) r va' = (if same_path 3 va va' then 0 else pte_of (mem s) r va')" for va'
    using pte_of_leaf_write [OF _ u(4)] u(2,3) by (simp add: vm_inv_def)
  ultimately show thesis using u(5) by (intro that [of ?t]) simp_all
qed

subsection \<open>A small address space\<close>

text \<open>
  Two free pages and an empty root table at \<open>0x87FFD000\<close>; then the same with the user page
  \<open>0x87FFC000\<close> mapped at address 0.
\<close>

definition empty_vm :: kmem where
  "empty_vm = one_page\<lparr>mem := write64 (\<lambda>_. 0) 0x87FFF000 0x87FFE000\<rparr>"

definition user_vm :: kmem where
  "user_vm = (case mappages 0x87FFD000 0 PGSIZE 0x87FFC000 (PTE_R OR PTE_W OR PTE_U) empty_vm of
     Done _ t \<Rightarrow> t | _ \<Rightarrow> empty_vm)"

lemma empty_vm_read:
  assumes "in_region 0x87FFD000 4096 x \<or> in_region 0x87FFE000 4096 x"
  shows "mem empty_vm x = 0"
proof -
  have "\<not> in_region 0x87FFF000 4096 x"
    using assms pages_disjoint [of "0x87FFF000" "0x87FFD000" x] pages_disjoint [of "0x87FFF000" "0x87FFE000" x]
    by (auto simp: page_aligned_def)
  then have "\<not> in_region 0x87FFF000 8 x" using in_region_mono [of _ 8 x 4096] by auto
  then show ?thesis by (simp add: empty_vm_def write_le_outside)
qed

lemma empty_vm_node: "pt_node (mem empty_vm) 0x87FFD000 d va = (if d = 0 then Some 0x87FFD000 else None)"
proof (induction d)
  case 0
  then show ?case by simp
next
  case (Suc d)
  have "read64 (mem empty_vm) (0x87FFD000 + PX (2 - d) va * 8) = 0"
    using slot_offset [OF PX_less] empty_vm_read by (intro read_le_zero) blast
  with Suc show ?case by (cases "d = 0") (simp_all add: Let_def)
qed

lemma empty_vm_fields: "freelist empty_vm = 0x87FFF000" "machine_ok empty_vm" "lock_free KmemLock empty_vm"
  "sym_end empty_vm = sym_end boot_machine" "refcount empty_vm i = 0"
  by (simp_all add: empty_vm_def one_page_def boot_machine_def machine.defs machine_ok_def cpu_defs)

lemma empty_vm_inv: "vm_inv empty_vm 0x87FFD000 [0x87FFF000, 0x87FFE000]"
proof -
  have ok: "page_ok empty_vm 0x87FFF000" "page_ok empty_vm 0x87FFE000" "page_ok empty_vm 0x87FFD000"
    by (simp_all add: page_ok_def empty_vm_fields boot_machine_def page_aligned_def)
  have "read64 (mem empty_vm) 0x87FFF000 = 0x87FFE000" by (simp add: empty_vm_def)
  moreover have "read64 (mem empty_vm) 0x87FFE000 = 0"
    using in_region_mono [of _ 8 _ 4096] by (intro read_le_zero empty_vm_read) auto
  ultimately have "kmem_inv empty_vm [0x87FFF000, 0x87FFE000]"
    using ok by (simp add: kmem_inv_def empty_vm_fields)
  moreover have "pt_wf (mem empty_vm) 0x87FFD000"
    by (simp add: pt_wf_def empty_vm_node same_path_def page_aligned_def)
  ultimately show ?thesis using ok by (simp add: vm_inv_def empty_vm_node)
qed

lemma empty_vm_pte: "pte_of (mem empty_vm) 0x87FFD000 va = 0"
  by (simp add: pte_of_def empty_vm_node)

lemma user_vm_spec:
  obtains ys where "mappages 0x87FFD000 0 PGSIZE 0x87FFC000 (PTE_R OR PTE_W OR PTE_U) empty_vm = Done 0 user_vm"
    and "vm_inv user_vm 0x87FFD000 ys"
    and "\<And>va. pte_of (mem user_vm) 0x87FFD000 va = (if same_path 3 0 va then 0x21FFF017 else 0)"
    and "owned (mem user_vm) 0x87FFD000 ys \<subseteq> {0x87FFF000, 0x87FFE000, 0x87FFD000}"
    and "vm_rest user_vm = vm_rest empty_vm"
proof -
  let ?r = "0x87FFD000" and ?p = "PTE_R OR PTE_W OR PTE_U"
  obtain rc t ys where m: "mappages ?r 0 PGSIZE 0x87FFC000 ?p empty_vm = Done rc t"
    "vm_ext ?r empty_vm [0x87FFF000, 0x87FFE000] t ys" "rc = 0"
    "\<And>va. pte_of (mem t) ?r va =
      (if rc = 0 \<and> same_path 3 0 va then PA2PTE 0x87FFC000 OR ?p OR PTE_V else pte_of (mem empty_vm) ?r va)"
    using mappages_page [OF empty_vm_inv, of 0 "0x87FFC000" ?p]
    by (auto simp: page_aligned_def empty_vm_pte)
  have t: "t = user_vm" using m(1) by (simp add: user_vm_def)
  have "PA2PTE 0x87FFC000 OR ?p OR PTE_V = 0x21FFF017" by (simp add: PA2PTE_def)
  moreover have "owned (mem empty_vm) ?r [0x87FFF000, 0x87FFE000] \<subseteq> {0x87FFF000, 0x87FFE000, 0x87FFD000}"
    by (auto simp: owned_def empty_vm_node split: if_splits)
  ultimately show thesis
    using m t by (intro that [of ys]) (auto simp: vm_ext_def empty_vm_pte)
qed

lemma user_vm_translate:
  "translate (mem user_vm) 0x87FFD000 va = (if va < MAXVA \<and> PGROUNDDOWN va = 0 then 0x87FFC000 else 0)"
proof -
  obtain ys where pte: "\<And>va. pte_of (mem user_vm) 0x87FFD000 va = (if same_path 3 0 va then 0x21FFF017 else 0)"
    using user_vm_spec by metis
  have "same_path 3 0 va \<longleftrightarrow> PGROUNDDOWN va = 0" if "va < MAXVA"
    using same_page_iff [of 0 va] that by (auto simp: PGROUNDDOWN_def)
  then show ?thesis by (auto simp: translate_def pte PTE2PA_def not_le)
qed

lemma user_vm_owned:
  obtains ys where "vm_inv user_vm 0x87FFD000 ys" and "user_sep (mem user_vm) 0x87FFD000 ys"
    and "0x87FFB000 \<notin> owned (mem user_vm) 0x87FFD000 ys"
proof -
  obtain ys where ys: "vm_inv user_vm 0x87FFD000 ys"
    "owned (mem user_vm) 0x87FFD000 ys \<subseteq> {0x87FFF000, 0x87FFE000, 0x87FFD000}"
    using user_vm_spec by metis
  have "user_sep (mem user_vm) 0x87FFD000 ys"
    using ys(2) by (auto simp: user_sep_def user_vm_translate split: if_splits)
  moreover have "0x87FFB000 \<notin> owned (mem user_vm) 0x87FFD000 ys" using ys(2) by auto
  ultimately show thesis using that ys(1) by blast
qed

lemma user_vm_sep:
  obtains ys where "vm_inv user_vm 0x87FFD000 ys" and "user_sep (mem user_vm) 0x87FFD000 ys"
  using user_vm_owned by metis

lemma user_vm_byte:
  "user_byte (mem user_vm) 0x87FFD000 va = (if unat va < 4096 then Some (mem user_vm (0x87FFC000 + va)) else None)"
proof -
  have "PGROUNDDOWN va = 0 \<longleftrightarrow> unat va < 4096"
    by (auto simp: word_unat_eq_iff unat_PGROUNDDOWN div_eq_0_iff)
  then show ?thesis by (auto simp: user_byte_def user_vm_translate Let_def)
qed

subsection \<open>Properties\<close>

text \<open>
  C8 (functional). \<open>mappages\<close> on one page of a well-formed page table: it returns 0 and then
  exactly the addresses of that page get the new entry, every other address below
  \<open>MAXVA\<close> keeps its own; or it returns -1, which happens only when fewer than two free
  pages were left, and no address changes its meaning. The table stays well formed, and
  only table pages and formerly free pages are written.
\<close>

theorem mappages_maps_one_page:
  assumes "vm_inv s r xs" and "page_aligned a" and "a < MAXVA" and "pte_of (mem s) r a AND PTE_V = 0"
  shows "\<exists>rc t ys. mappages r a PGSIZE pa perm s = Done rc t \<and> vm_ext r s xs t ys
    \<and> (rc = 0 \<or> rc = - 1 \<and> length xs < 2)
    \<and> (\<forall>va. va < MAXVA \<longrightarrow> pte_of (mem t) r va =
         (if rc = 0 \<and> PGROUNDDOWN va = a then PA2PTE pa OR perm OR PTE_V else pte_of (mem s) r va))"
proof -
  obtain rc t ys where m: "mappages r a PGSIZE pa perm s = Done rc t" "vm_ext r s xs t ys"
    "rc = 0 \<or> rc = - 1 \<and> ys = [] \<and> length xs < 2"
    "\<And>va. pte_of (mem t) r va =
      (if rc = 0 \<and> same_path 3 a va then PA2PTE pa OR perm OR PTE_V else pte_of (mem s) r va)"
    using mappages_page [OF assms] by metis
  have "same_path 3 a va \<longleftrightarrow> PGROUNDDOWN va = a" if "va < MAXVA" for va
    using same_page_iff [OF assms(3) that] PGROUNDDOWN_aligned [OF assms(2)] by auto
  with m show ?thesis by (intro exI [of _ rc] exI [of _ t] exI [of _ ys]) auto
qed

theorem mappages_maps_one_page_witness:
  "\<exists>rc t ys. mappages 0x87FFD000 0x1000 PGSIZE 0x87FFC000 PTE_R empty_vm = Done rc t
    \<and> vm_ext 0x87FFD000 empty_vm [0x87FFF000, 0x87FFE000] t ys \<and> rc = 0
    \<and> pte_of (mem t) 0x87FFD000 0x1ABC = 0x21FFF003 \<and> pte_of (mem t) 0x87FFD000 0x2000 = 0"
proof -
  obtain rc t ys where "mappages 0x87FFD000 0x1000 PGSIZE 0x87FFC000 PTE_R empty_vm = Done rc t"
    "vm_ext 0x87FFD000 empty_vm [0x87FFF000, 0x87FFE000] t ys" "rc = 0"
    "\<And>va. va < MAXVA \<Longrightarrow> pte_of (mem t) 0x87FFD000 va =
       (if PGROUNDDOWN va = 0x1000 then PA2PTE 0x87FFC000 OR PTE_R OR PTE_V else 0)"
    using mappages_maps_one_page [OF empty_vm_inv, of "0x1000" "0x87FFC000" PTE_R]
    by (auto simp: page_aligned_def empty_vm_pte)
  then show ?thesis by (auto simp: PGROUNDDOWN_def PA2PTE_def)
qed

text \<open>
  C10 (functional). \<open>copyin\<close> reads exactly the bytes the user sees at \<open>va .. va+len-1\<close>: it
  returns 0 and those bytes if the user may access every one of them, and -1 as soon as one
  is inaccessible, without changing anything in either case.
\<close>

theorem copyin_reads_user_bytes:
  assumes "vm_inv s r xs"
  shows "if \<exists>i < len. user_byte (mem s) r (va + of_nat i) = None
    then \<exists>bs. copyin r va len s = Done (- 1, bs) s
    else copyin r va len s = Done (0, map (\<lambda>i. the (user_byte (mem s) r (va + of_nat i))) [0..<len]) s"
  using copyin_spec [OF assms, of len va] by (auto split: if_splits)

theorem copyin_reads_user_bytes_witness:
  "(\<exists>bs. copyin 0x87FFD000 4095 2 user_vm = Done (- 1, bs) user_vm) \<and>
   copyin 0x87FFD000 4094 2 user_vm
     = Done (0, [mem user_vm 0x87FFCFFE, mem user_vm 0x87FFCFFF]) user_vm"
proof -
  obtain ys where inv: "vm_inv user_vm 0x87FFD000 ys" using user_vm_sep by metis
  have "\<exists>i < 2. user_byte (mem user_vm) 0x87FFD000 (4095 + of_nat i) = None"
    by (rule exI [of _ "1"]) (simp add: user_vm_byte)
  moreover have "\<not> (\<exists>i < 2. user_byte (mem user_vm) 0x87FFD000 (4094 + of_nat i) = None)"
    by (auto simp: user_vm_byte dest!: less_2_cases)
  ultimately show ?thesis
    using copyin_reads_user_bytes [OF inv, of 2 4095] copyin_reads_user_bytes [OF inv, of 2 4094]
    by (simp add: user_vm_byte upt_conv_Cons)
qed

text \<open>
  C9 (functional). \<open>copyout\<close> into an address space whose user pages are mapped once and are
  neither table nor free pages: when every destination byte is accessible it returns 0 and the
  user then sees exactly the source bytes there and the old bytes elsewhere; otherwise it
  returns -1 having stored only a proper prefix. The page table stays well formed, with the same free list.
\<close>

theorem copyout_stores_user_bytes:
  assumes "vm_inv s r xs" and "user_sep (mem s) r xs" and "length src < 2 ^ 64"
  shows "\<exists>rc t. copyout r va src s = Done rc t \<and> vm_inv t r xs \<and> user_sep (mem t) r xs \<and>
    (if \<forall>i < length src. user_byte (mem s) r (va + of_nat i) \<noteq> None
     then rc = 0 \<and> user_byte (mem t) r = user_store (user_byte (mem s) r) va src
     else rc = - 1 \<and> (\<exists>n < length src. user_byte (mem t) r = user_store (user_byte (mem s) r) va (take n src)))"
  by (rule copyout_spec [OF assms])

theorem copyout_stores_user_bytes_witness:
  "(\<exists>t. copyout 0x87FFD000 4094 [7, 9] user_vm = Done 0 t \<and>
      user_byte (mem t) 0x87FFD000 4095 = Some 9 \<and> user_byte (mem t) 0x87FFD000 4096 = None) \<and>
   (\<exists>t. copyout 0x87FFD000 4095 [7, 9] user_vm = Done (- 1) t)"
proof -
  obtain ys where ys: "vm_inv user_vm 0x87FFD000 ys" "user_sep (mem user_vm) 0x87FFD000 ys"
    using user_vm_sep by metis
  have len: "length [7, 9 :: u8] < 2 ^ 64" by simp
  have no: "\<not> (\<forall>i < length [7, 9 :: u8]. user_byte (mem user_vm) 0x87FFD000 (4095 + of_nat i) \<noteq> None)"
    by (rule notI, drule spec [of _ 1]) (simp add: user_vm_byte)
  have yes: "\<forall>i < length [7, 9 :: u8]. user_byte (mem user_vm) 0x87FFD000 (4094 + of_nat i) \<noteq> None"
    by (auto simp: user_vm_byte less_Suc_eq)
  obtain t where "copyout 0x87FFD000 4094 [7, 9] user_vm = Done 0 t"
    "user_byte (mem t) 0x87FFD000 = user_store (user_byte (mem user_vm) 0x87FFD000) 4094 [7, 9]"
    using copyout_stores_user_bytes [OF ys len, of 4094] yes by metis
  moreover have "\<exists>t. copyout 0x87FFD000 4095 [7, 9] user_vm = Done (- 1) t"
    using copyout_stores_user_bytes [OF ys len, of 4095] no by metis
  ultimately show ?thesis
    by (auto simp: user_store_def in_region_def user_vm_byte)
qed

text \<open>
  C28 (functional). What \<open>free_user_page\<close> does with a mapped page: it unmaps exactly that page
  and takes one from its reference count, and puts the page on the free list if and only if
  the count was 1. \<open>kalloc\<close> leaves the count at 0, so the count of a page that was never
  shared goes to -1 and the page is not freed; a page shared with one thread has count 1
  and is freed although the other table still maps it.
\<close>

theorem free_user_page_frees_at_one:
  assumes "vm_inv s r xs" and "va < MAXVA" and "pte_of (mem s) r va AND PTE_V \<noteq> 0"
    and "pa = PTE2PA (pte_of (mem s) r va)" and "page_ok s pa" and "pa \<notin> owned (mem s) r xs"
    and "i = unat (drop_bit 12 pa)"
  shows "\<exists>t. free_user_page r va s = Done () t
    \<and> vm_inv t r (if refcount s i = 1 then pa # xs else xs)
    \<and> refcount t = (refcount s)(i := refcount s i - 1)
    \<and> (\<forall>va'. va' < MAXVA \<longrightarrow>
         pte_of (mem t) r va' = (if PGROUNDDOWN va' = PGROUNDDOWN va then 0 else pte_of (mem s) r va'))"
proof -
  obtain t where t: "free_user_page r va s = Done () t"
    "vm_inv t r (if refcount s i = 1 then pa # xs else xs)"
    "refcount t = (refcount s)(i := refcount s i - 1)"
    "\<And>va'. pte_of (mem t) r va' = (if same_path 3 va va' then 0 else pte_of (mem s) r va')"
    using free_user_page_spec [OF assms] by metis
  have "same_path 3 va va' \<longleftrightarrow> PGROUNDDOWN va' = PGROUNDDOWN va" if "va' < MAXVA" for va'
    using same_page_iff [OF assms(2) that] by auto
  with t show ?thesis by (intro exI [of _ t]) auto
qed

theorem free_user_page_frees_at_one_witness:
  "\<exists>t ys. vm_inv user_vm 0x87FFD000 ys \<and> free_user_page 0x87FFD000 0 user_vm = Done () t
    \<and> vm_inv t 0x87FFD000 ys \<and> refcount t 0x87FFC = - 1 \<and> pte_of (mem t) 0x87FFD000 0 = 0"
proof -
  obtain ys where ys: "vm_inv user_vm 0x87FFD000 ys"
    "\<And>va. pte_of (mem user_vm) 0x87FFD000 va = (if same_path 3 0 va then 0x21FFF017 else 0)"
    "owned (mem user_vm) 0x87FFD000 ys \<subseteq> {0x87FFF000, 0x87FFE000, 0x87FFD000}"
    "vm_rest user_vm = vm_rest empty_vm"
    using user_vm_spec by metis
  have e: "pte_of (mem user_vm) 0x87FFD000 0 = 0x21FFF017" by (simp add: ys(2) same_path_def)
  have ok: "page_ok user_vm 0x87FFC000" and rc: "refcount user_vm 0x87FFC = 0"
    using vm_rest_fields [OF ys(4)]
    by (simp_all add: page_ok_def empty_vm_fields boot_machine_def page_aligned_def)
  have "0x87FFC000 \<notin> owned (mem user_vm) 0x87FFD000 ys" using ys(3) by auto
  then show ?thesis
    using free_user_page_frees_at_one [OF ys(1), of 0 "0x87FFC000" "0x87FFC"] ok rc ys(1)
    by (auto simp: e PTE2PA_def)
qed

end
