(* ===== verification/Proc.thy ===== *)
theory Proc
  imports Vm
begin

text \<open>
  \<^verbatim>\<open>kernel/proc.h\<close> and the part of \<^verbatim>\<open>kernel/proc.c\<close> that does not touch the file
  system: the process table, page tables of processes, the scheduler,
  sleep and wakeup, kill, wait, and the thread-group routines of the project
  (\<open>growproc\<close>, \<open>getfamily\<close>, \<open>getstatus\<close>, \<open>thread_join\<close>). A \<open>struct proc *\<close> is the index of
  the slot in \<open>proc[]\<close>, a null pointer \<open>None\<close>. \<open>sched\<close> ends a run with \<open>Block\<close>; the
  \<open>_resume\<close> definitions are what follows the call of \<open>sched\<close> when the process is next
  chosen. Output by \<open>printf\<close> and the register file swapped by \<open>swtch\<close> are not modelled.
\<close>

subsection \<open>The process table\<close>

datatype procstate = UNUSED | USED | SLEEPING | RUNNABLE | RUNNING | ZOMBIE | GHOST

record proc_context =
  ctx_ra :: u64
  ctx_sp :: u64
  ctx_s :: "nat \<Rightarrow> u64"

record proc =
  p_state :: procstate
  p_chan :: "chan option"
  p_killed :: int
  p_xstate :: int
  p_pid :: int
  p_parent :: "nat option"
  kstack :: u64
  sz :: u64
  pagetable :: u64
  trapframe :: u64
  p_context :: proc_context
  ofile :: "nat \<Rightarrow> nat option"
  cwd :: "nat option"
  p_name :: "u8 list"
  is_thread :: int
  tid :: int
  group_leader :: "nat option"
  group_next :: "nat option"
  group_prev :: "nat option"
  num_children :: int
  ref_count :: int

record kproc = vm +
  procs :: "nat \<Rightarrow> proc"
  initproc :: "nat option"
  nextpid :: int
  first_forkret :: bool
  sym_forkret :: u64

definition pget :: "nat \<Rightarrow> (proc \<Rightarrow> 'a) \<Rightarrow> ('z kproc_scheme, 'a) kop" where
  "pget i f = kget (\<lambda>s. f (procs s i))"

definition pset :: "nat \<Rightarrow> (proc \<Rightarrow> proc) \<Rightarrow> ('z kproc_scheme, unit) kop" where
  "pset i f = kmod (\<lambda>s. s\<lparr>procs := (procs s)(i := f (procs s i))\<rparr>)"

text \<open>\<open>struct proc *p = myproc()\<close>, followed by uses of \<open>p->...\<close>.\<close>

definition with_myproc :: "(nat \<Rightarrow> ('z machine_scheme, 'a) kop) \<Rightarrow> ('z machine_scheme, 'a) kop" where
  "with_myproc f = (\<lambda>s. case myproc s of None \<Rightarrow> Fault | Some p \<Rightarrow> f p s)"

definition procinit :: "('z kproc_scheme, unit) kop" where
  "procinit =
     kseq (initlock PidLock ''nextpid'')
     (kseq (initlock WaitLock ''wait_lock'')
     (kseq (initlock ProcTableLock ''proc_table'')
     (kfor [0..<NPROC] (\<lambda>i.
        kseq (initlock (ProcLock i) ''proc'')
        (pset i (\<lambda>p. p\<lparr>p_state := UNUSED, kstack := KSTACK i\<rparr>))))))"

definition allocpid :: "('z kproc_scheme, int) kop" where
  "allocpid =
     kseq (acquire PidLock)
     (kbind (kget nextpid) (\<lambda>pid.
      kseq (kmod (\<lambda>s. s\<lparr>nextpid := nextpid s + 1\<rparr>))
     (kseq (release PidLock)
     (kret pid))))"

subsection \<open>Page tables of processes\<close>

definition proc_pagetable :: "nat \<Rightarrow> ('z kproc_scheme, u64) kop" where
  "proc_pagetable p =
     kbind uvmcreate (\<lambda>pt.
       if pt = 0 then kret 0
       else kbind (kget sym_trampoline) (\<lambda>tramp.
         kbind (mappages pt TRAMPOLINE PGSIZE tramp (PTE_R OR PTE_X)) (\<lambda>r.
           if r < 0 then kseq (uvmfree pt 0) (kret 0)
           else kbind (pget p trapframe) (\<lambda>tf.
             kbind (mappages pt TRAPFRAME PGSIZE tf (PTE_R OR PTE_W)) (\<lambda>r.
               if r < 0
               then kseq (uvmunmap pt TRAMPOLINE 1 False) (kseq (uvmfree pt 0) (kret 0))
               else kret pt)))))"

definition proc_freepagetable :: "u64 \<Rightarrow> u64 \<Rightarrow> ('z kproc_scheme, unit) kop" where
  "proc_freepagetable pt n =
     kseq (uvmunmap pt TRAMPOLINE 1 False)
     (kseq (uvmunmap pt TRAPFRAME 1 False)
     (uvmfree_shared pt n))"

definition proc_freepagetable_thread :: "u64 \<Rightarrow> u64 \<Rightarrow> ('z kproc_scheme, unit) kop" where
  "proc_freepagetable_thread pt n =
     kseq (uvmunmap pt TRAMPOLINE 1 False)
     (kseq (uvmunmap pt TRAPFRAME 1 False)
     (uvmfree_shared_thread pt n))"

subsection \<open>Freeing and allocating a slot\<close>

definition freeproc_thread :: "nat \<Rightarrow> ('z kproc_scheme, unit) kop" where
  "freeproc_thread q =
     kseq (acquire (ProcLock q))
     (kbind (pget q trapframe) (\<lambda>tf.
      kseq (kwhen (tf \<noteq> 0) (kseq (kfree tf) (pset q (\<lambda>p. p\<lparr>trapframe := 0\<rparr>))))
     (kbind (pget q id) (\<lambda>pq.
      kseq (kwhen (pagetable pq \<noteq> 0)
        (kseq (proc_freepagetable_thread (pagetable pq) (sz pq))
              (pset q (\<lambda>p. p\<lparr>pagetable := 0, sz := 0\<rparr>))))
     (kseq (pset q (\<lambda>p. p\<lparr>group_leader := None, group_next := None, group_prev := None,
             is_thread := 0, tid := 0, cwd := None, num_children := 0, ref_count := 0,
             p_state := UNUSED\<rparr>))
     (release (ProcLock q)))))))"

text \<open>
  The loop \<open>while(q != p)\<close>. Every step clears the link it followed, so a second visit meets a
  null pointer and \<open>NPROC + 1\<close> steps are as many as there can be.
\<close>

fun freeproc_group :: "nat \<Rightarrow> nat \<Rightarrow> nat option \<Rightarrow> ('z kproc_scheme, unit) kop" where
  "freeproc_group fuel p None = kfault"
| "freeproc_group 0 p (Some q) = khang"
| "freeproc_group (Suc n) p (Some q) =
     (if q = p then kret ()
      else kbind (pget q group_next) (\<lambda>nxt.
           kseq (freeproc_thread q) (freeproc_group n p nxt)))"

definition freeproc_self :: "nat \<Rightarrow> ('z kproc_scheme, unit) kop" where
  "freeproc_self p =
     kbind (pget p trapframe) (\<lambda>tf.
     kseq (kwhen (tf \<noteq> 0) (kseq (kfree tf) (pset p (\<lambda>x. x\<lparr>trapframe := 0\<rparr>))))
     (pset p (\<lambda>x. x\<lparr>pagetable := 0, sz := 0, group_leader := None, group_next := None,
        group_prev := None, is_thread := 0, tid := 0, p_state := UNUSED, num_children := 0,
        ref_count := 0, cwd := None, p_parent := None, p_name := [], p_chan := None,
        p_killed := 0\<rparr>)))"

definition freeproc :: "nat \<Rightarrow> ('z kproc_scheme, unit) kop" where
  "freeproc p =
     kbind (pget p group_leader) (\<lambda>gl. case gl of
       None \<Rightarrow> freeproc_self p
     | Some l \<Rightarrow>
         kseq (pset l (\<lambda>x. if ref_count x > 0 then x\<lparr>ref_count := ref_count x - 1\<rparr> else x))
         (kbind (pget l ref_count) (\<lambda>rc.
            if p = l \<and> rc \<noteq> 0 then kpanic ''freeproc: leader with ref_count > 0''
            else if p \<noteq> l then pset p (\<lambda>x. x\<lparr>p_state := GHOST\<rparr>)
            else kbind (pget p group_next) (\<lambda>q.
                 kseq (freeproc_group (NPROC + 1) p q) (freeproc_self p)))))"

definition allocproc_scan :: "('z kproc_scheme, nat option) kop" where
  "allocproc_scan = kfind [0..<NPROC] (\<lambda>i.
     kseq (acquire (ProcLock i))
     (kbind (pget i p_state) (\<lambda>st.
        if st = UNUSED then kret (Some i)
        else kseq (release (ProcLock i)) (kret None))))"

definition allocproc :: "('z kproc_scheme, nat option) kop" where
  "allocproc = kbind allocproc_scan (\<lambda>found. case found of
       None \<Rightarrow> kret None
     | Some p \<Rightarrow>
         kbind allocpid (\<lambda>pid.
         kseq (pset p (\<lambda>x. x\<lparr>p_pid := pid, p_state := USED, group_leader := None,
            group_prev := None, group_next := None, num_children := 0, ref_count := 0\<rparr>))
         (kbind kalloc (\<lambda>tf.
          kseq (pset p (\<lambda>x. x\<lparr>trapframe := tf\<rparr>))
          (if tf = 0 then kseq (freeproc p) (kseq (release (ProcLock p)) (kret None))
           else kbind (proc_pagetable p) (\<lambda>pt.
            kseq (pset p (\<lambda>x. x\<lparr>pagetable := pt\<rparr>))
            (if pt = 0 then kseq (freeproc p) (kseq (release (ProcLock p)) (kret None))
             else kbind (kget sym_forkret) (\<lambda>fr.
               kseq (pset p (\<lambda>x. x\<lparr>p_context :=
                   \<lparr>ctx_ra = fr, ctx_sp = kstack x + PGSIZE, ctx_s = (\<lambda>_. 0)\<rparr>\<rparr>))
               (kret (Some p))))))))))"

subsection \<open>Walking a thread group\<close>

text \<open>
  The loops \<open>do { ... q = q->group_next; } while(q != leader)\<close>. The body gets and returns the
  loop's local variables (\<open>Inl\<close>) or leaves the routine with a value (\<open>Inr\<close>). The bodies
  do not change the links, so a walk that is not back at the leader after \<open>NPROC\<close> slots
  never gets there. \<open>nul\<close> is what the body does with a null pointer \<open>q\<close>; the step to \<open>q->group_next\<close> that would follow faults.
\<close>

fun ring_loop :: "nat \<Rightarrow> nat \<Rightarrow> ('c \<Rightarrow> ('z kproc_scheme, 'c + 'r) kop) \<Rightarrow> (nat \<Rightarrow> 'c \<Rightarrow> ('z kproc_scheme, 'c + 'r) kop) \<Rightarrow> nat option \<Rightarrow> 'c
    \<Rightarrow> ('z kproc_scheme, 'c + 'r) kop" where
  "ring_loop fuel leader nul body None c = kbind (nul c) (\<lambda>x. case x of Inr r \<Rightarrow> kret (Inr r) | Inl _ \<Rightarrow> kfault)"
| "ring_loop 0 leader nul body (Some q) c = khang"
| "ring_loop (Suc n) leader nul body (Some q) c =
     kbind (body q c) (\<lambda>x. case x of
         Inr r \<Rightarrow> kret (Inr r)
       | Inl c' \<Rightarrow> kbind (pget q group_next) (\<lambda>q'.
           if q' = Some leader then kret (Inl c') else ring_loop n leader nul body q' c'))"

text \<open>All loops but one access \<open>*q\<close> in every round.\<close>

definition ring_do :: "nat \<Rightarrow> (nat \<Rightarrow> 'c \<Rightarrow> ('z kproc_scheme, 'c + 'r) kop) \<Rightarrow> 'c
    \<Rightarrow> ('z kproc_scheme, 'c + 'r) kop" where
  "ring_do leader body c = ring_loop NPROC leader (\<lambda>_. kfault) body (Some leader) c"

text \<open>The addresses of \<open>for(va = a; va < b; va += PGSIZE)\<close>.\<close>

definition page_range :: "u64 \<Rightarrow> u64 \<Rightarrow> u64 list" where
  "page_range a b =
     (if a < b then map (\<lambda>i. a + of_nat i * PGSIZE) [0..<(unat (b - a) + 4095) div 4096] else [])"

definition growproc_share :: "nat \<Rightarrow> nat \<Rightarrow> u64 \<Rightarrow> ('z kproc_scheme, int option) kop" where
  "growproc_share p leader va =
     kbind (pget p pagetable) (\<lambda>pt.
     kbind (walk pt va False) (\<lambda>pte.
       if pte = 0 then kfault
       else kbind (kget (\<lambda>s. PTE2PA (read64 (mem s) pte))) (\<lambda>pa.
         kbind (ring_do leader (\<lambda>q _.
             if q \<noteq> p then kbind (pget q pagetable) (\<lambda>qpt.
               kbind (mappages qpt va PGSIZE pa (PTE_W OR PTE_R OR PTE_U)) (\<lambda>r.
                 kret (if r < 0 then Inr (- 1) else Inl ())))
             else kret (Inl ())) ())
           (\<lambda>x. kret (case x of Inl _ \<Rightarrow> None | Inr r \<Rightarrow> Some r)))))"

definition growproc_unshare :: "nat \<Rightarrow> nat \<Rightarrow> u64 \<Rightarrow> ('z kproc_scheme, int option) kop" where
  "growproc_unshare p leader va =
     kbind (ring_do leader (\<lambda>q _.
         if q \<noteq> p then kbind (pget q pagetable) (\<lambda>qpt.
             kseq (uvmunmap qpt va 1 True) (kret (Inl ())))
         else kret (Inl ())) ())
       (\<lambda>x. kret (case x of Inl _ \<Rightarrow> None | Inr r \<Rightarrow> Some r))"

definition growproc_setsz :: "nat \<Rightarrow> u64 \<Rightarrow> ('z kproc_scheme, int) kop" where
  "growproc_setsz p new_sz =
     kbind (pget p group_leader) (\<lambda>gl. case gl of
       None \<Rightarrow> kseq (pset p (\<lambda>x. x\<lparr>sz := new_sz\<rparr>)) (kret 0)
     | Some leader \<Rightarrow>
         kbind (ring_do leader (\<lambda>q _. kseq (pset q (\<lambda>x. x\<lparr>sz := new_sz\<rparr>)) (kret (Inl ()))) ())
           (\<lambda>x. case x of Inl _ \<Rightarrow> kret 0 | Inr r \<Rightarrow> kret r))"

definition growproc :: "int \<Rightarrow> ('z kproc_scheme, int) kop" where
  "growproc n = with_myproc (\<lambda>p.
     kbind (pget p id) (\<lambda>x.
       if n = 0 then kret 0
       else if n > 0 then
         kbind (uvmalloc (pagetable x) (sz x) (sz x + word_of_int n) PTE_W) (\<lambda>new_sz.
           if new_sz = 0 then kret (- 1)
           else kbind (case group_leader x of None \<Rightarrow> kret None
               | Some leader \<Rightarrow> kfind (page_range (sz x) new_sz) (growproc_share p leader))
             (\<lambda>r. case r of Some v \<Rightarrow> kret v | None \<Rightarrow> growproc_setsz p new_sz))
       else
         kbind (uvmdealloc (pagetable x) (sz x) (sz x + word_of_int n)) (\<lambda>new_sz.
           kbind (case group_leader x of None \<Rightarrow> kret None
               | Some leader \<Rightarrow> kfind (page_range new_sz (sz x)) (growproc_unshare p leader))
             (\<lambda>r. case r of Some v \<Rightarrow> kret v | None \<Rightarrow> growproc_setsz p new_sz))))"

subsection \<open>Scheduling\<close>

definition sched :: "('z kproc_scheme, 'a) kop" where
  "sched = with_myproc (\<lambda>p s.
     if \<not> holding (ProcLock p) s then Panic ''sched p->lock''
     else if noff (mycpu s) \<noteq> 1 then Panic ''sched locks''
     else if p_state (procs s p) = RUNNING then Panic ''sched running''
     else if intr_get s then Panic ''sched interruptible''
     else Block (p_chan (procs s p)) s)"

text \<open>The end of \<open>sched\<close>, with the \<open>intena\<close> that it saved.\<close>

definition sched_resume :: "bool \<Rightarrow> ('z kproc_scheme, unit) kop" where
  "sched_resume saved = kmod (\<lambda>s. set_mycpu ((mycpu s)\<lparr>intena := saved\<rparr>) s)"

text \<open>
  One round of \<open>scheduler\<close>: up to the switch to the process it returns, and from the
  switch back on. The rest of the round is the scan from the next slot.
\<close>

definition scheduler_scan :: "nat list \<Rightarrow> ('z kproc_scheme, nat option) kop" where
  "scheduler_scan is = kfind is (\<lambda>i.
     kseq (acquire (ProcLock i))
     (kbind (pget i p_state) (\<lambda>st.
        if st = RUNNABLE
        then kseq (pset i (\<lambda>p. p\<lparr>p_state := RUNNING\<rparr>))
            (kseq (kmod (\<lambda>s. set_mycpu ((mycpu s)\<lparr>cpu_proc := Some i\<rparr>) s))
            (kret (Some i)))
        else kseq (release (ProcLock i)) (kret None))))"

definition scheduler_round :: "('z kproc_scheme, nat option) kop" where
  "scheduler_round = kseq intr_on (scheduler_scan [0..<NPROC])"

definition scheduler_back :: "nat \<Rightarrow> ('z kproc_scheme, unit) kop" where
  "scheduler_back i =
     kseq (kmod (\<lambda>s. set_mycpu ((mycpu s)\<lparr>cpu_proc := None\<rparr>) s)) (release (ProcLock i))"

definition scheduler_init :: "('z kproc_scheme, unit) kop" where
  "scheduler_init = kmod (\<lambda>s. set_mycpu ((mycpu s)\<lparr>cpu_proc := None\<rparr>) s)"

definition yield :: "('z kproc_scheme, 'a) kop" where
  "yield = with_myproc (\<lambda>p.
     kseq (acquire (ProcLock p))
     (kseq (pset p (\<lambda>x. x\<lparr>p_state := RUNNABLE\<rparr>))
     sched))"

definition yield_resume :: "bool \<Rightarrow> ('z kproc_scheme, unit) kop" where
  "yield_resume saved = with_myproc (\<lambda>p. kseq (sched_resume saved) (release (ProcLock p)))"

subsection \<open>Sleep, wakeup and kill\<close>

definition sleep :: "chan \<Rightarrow> lock_id \<Rightarrow> ('z kproc_scheme, 'a) kop" where
  "sleep c lk = with_myproc (\<lambda>p.
     kseq (acquire (ProcLock p))
     (kseq (release lk)
     (kseq (pset p (\<lambda>x. x\<lparr>p_chan := Some c, p_state := SLEEPING\<rparr>))
     sched)))"

definition sleep_resume :: "bool \<Rightarrow> lock_id \<Rightarrow> ('z kproc_scheme, unit) kop" where
  "sleep_resume saved lk = with_myproc (\<lambda>p.
     kseq (sched_resume saved)
     (kseq (pset p (\<lambda>x. x\<lparr>p_chan := None\<rparr>))
     (kseq (release (ProcLock p))
     (acquire lk))))"

definition wakeup_one :: "chan \<Rightarrow> nat \<Rightarrow> ('z kproc_scheme, unit) kop" where
  "wakeup_one c i =
     kbind (kget myproc) (\<lambda>me.
     kwhen (Some i \<noteq> me)
       (kseq (acquire (ProcLock i))
       (kseq (pset i (\<lambda>p. if p_state p = SLEEPING \<and> p_chan p = Some c
                          then p\<lparr>p_state := RUNNABLE\<rparr> else p))
       (release (ProcLock i)))))"

definition wakeup :: "chan \<Rightarrow> ('z kproc_scheme, unit) kop" where
  "wakeup c = kfor [0..<NPROC] (wakeup_one c)"

definition kill :: "int \<Rightarrow> ('z kproc_scheme, int) kop" where
  "kill pid =
     kbind (kfind [0..<NPROC] (\<lambda>i.
        kseq (acquire (ProcLock i))
        (kbind (pget i p_pid) (\<lambda>x.
           if x = pid
           then kseq (pset i (\<lambda>p. p\<lparr>p_killed := 1,
                    p_state := (if p_state p = SLEEPING then RUNNABLE else p_state p)\<rparr>))
               (kseq (release (ProcLock i)) (kret (Some 0)))
           else kseq (release (ProcLock i)) (kret None)))))
     (\<lambda>r. kret (case r of None \<Rightarrow> - 1 | Some v \<Rightarrow> v))"

definition setkilled :: "nat \<Rightarrow> ('z kproc_scheme, unit) kop" where
  "setkilled p =
     kseq (acquire (ProcLock p))
     (kseq (pset p (\<lambda>x. x\<lparr>p_killed := 1\<rparr>))
     (release (ProcLock p)))"

definition killed :: "nat \<Rightarrow> ('z kproc_scheme, int) kop" where
  "killed p =
     kseq (acquire (ProcLock p))
     (kbind (pget p p_killed) (\<lambda>k.
      kseq (release (ProcLock p)) (kret k)))"

definition reparent :: "nat \<Rightarrow> ('z kproc_scheme, unit) kop" where
  "reparent p = kfor [0..<NPROC] (\<lambda>pp.
     kbind (pget pp p_parent) (\<lambda>par.
     kwhen (par = Some p)
       (kbind (kget initproc) (\<lambda>ip.
        kseq (pset pp (\<lambda>x. x\<lparr>p_parent := ip\<rparr>))
        (case ip of None \<Rightarrow> kret () | Some i \<Rightarrow> wakeup (ProcChan i))))))"

subsection \<open>wait and thread\_join\<close>

text \<open>The bytes of a C \<open>int\<close>.\<close>

definition int_bytes :: "int \<Rightarrow> u8 list" where
  "int_bytes v = map (\<lambda>i. ucast (drop_bit (8 * i) (word_of_int v :: u32))) [0..<4]"

text \<open>A scan of the table: the value to return, if any, and \<open>havekids\<close>.\<close>

fun wait_scan :: "nat \<Rightarrow> u64 \<Rightarrow> nat list \<Rightarrow> bool \<Rightarrow> ('z kproc_scheme, int option \<times> bool) kop" where
  "wait_scan p addr [] havekids = kret (None, havekids)"
| "wait_scan p addr (pp # pps) havekids =
     kbind (pget pp p_parent) (\<lambda>par.
       if par \<noteq> Some p then wait_scan p addr pps havekids
       else kseq (acquire (ProcLock pp))
         (kbind (pget pp id) (\<lambda>x.
            if p_state x = ZOMBIE then
              kbind (if addr = 0 then kret 0
                     else kbind (pget p pagetable) (\<lambda>pt. copyout pt addr (int_bytes (p_xstate x)))) (\<lambda>r.
                if r < 0 then kseq (release (ProcLock pp)) (kseq (release WaitLock) (kret (Some (- 1), True)))
                else kseq (freeproc pp)
                    (kseq (release (ProcLock pp))
                    (kseq (release WaitLock)
                    (kret (Some (p_pid x), True)))))
            else kseq (release (ProcLock pp)) (wait_scan p addr pps True))))"

text \<open>The body of \<open>for(;;)\<close>; when it sleeps it starts again after \<open>sleep_resume\<close>.\<close>

definition wait_loop :: "nat \<Rightarrow> u64 \<Rightarrow> ('z kproc_scheme, int) kop" where
  "wait_loop p addr =
     kbind (wait_scan p addr [0..<NPROC] False) (\<lambda>(r, havekids). case r of
       Some v \<Rightarrow> kret v
     | None \<Rightarrow> kbind (if havekids then killed p else kret 0) (\<lambda>k.
         if \<not> havekids \<or> k \<noteq> 0 then kseq (release WaitLock) (kret (- 1))
         else sleep (ProcChan p) WaitLock))"

definition wait :: "u64 \<Rightarrow> ('z kproc_scheme, int) kop" where
  "wait addr = with_myproc (\<lambda>p. kseq (acquire WaitLock) (wait_loop p addr))"

fun thread_join_scan :: "nat option \<Rightarrow> int \<Rightarrow> nat list \<Rightarrow> bool \<Rightarrow> ('z kproc_scheme, int option \<times> bool) kop" where
  "thread_join_scan p thread_id [] havekids = kret (None, havekids)"
| "thread_join_scan p thread_id (tp # tps) havekids =
     kbind (pget tp id) (\<lambda>x.
       if p_parent x = p \<and> tid x = thread_id \<and> is_thread x \<noteq> 0
       then kseq (acquire (ProcLock tp))
         (kbind (pget tp id) (\<lambda>y.
            if p_state y = ZOMBIE
            then kseq (freeproc tp)
                (kseq (release (ProcLock tp))
                (kseq (release WaitLock)
                (kret (Some (tid y), True))))
            else kseq (release (ProcLock tp)) (thread_join_scan p thread_id tps True)))
       else thread_join_scan p thread_id tps havekids)"

definition thread_join_loop :: "nat option \<Rightarrow> int \<Rightarrow> ('z kproc_scheme, int) kop" where
  "thread_join_loop me thread_id =
     kbind (thread_join_scan me thread_id [0..<NPROC] False) (\<lambda>(r, havekids). case r of
       Some v \<Rightarrow> kret v
     | None \<Rightarrow>
         if \<not> havekids then kseq (release WaitLock) (kret (- 1))
         else case me of None \<Rightarrow> kfault
         | Some p \<Rightarrow> kbind (pget p p_killed) (\<lambda>k.
             if k \<noteq> 0 then kseq (release WaitLock) (kret (- 1))
             else sleep (ProcChan p) WaitLock))"

definition thread_join :: "int \<Rightarrow> ('z kproc_scheme, int) kop" where
  "thread_join thread_id =
     kbind myproc_safe (\<lambda>me.
     kseq (acquire WaitLock) (thread_join_loop me thread_id))"

subsection \<open>Copying to user or kernel memory\<close>

definition either_copyout :: "bool \<Rightarrow> u64 \<Rightarrow> u8 list \<Rightarrow> ('z kproc_scheme, int) kop" where
  "either_copyout user_dst dst src =
     (if user_dst then with_myproc (\<lambda>p. kbind (pget p pagetable) (\<lambda>pt. copyout pt dst src))
      else kseq (kmod (\<lambda>s. s\<lparr>mem := store_bytes (mem s) dst src\<rparr>)) (kret 0))"

definition either_copyin :: "bool \<Rightarrow> u64 \<Rightarrow> nat \<Rightarrow> ('z kproc_scheme, int \<times> u8 list) kop" where
  "either_copyin user_src src len =
     (if user_src then with_myproc (\<lambda>p. kbind (pget p pagetable) (\<lambda>pt. copyin pt src len))
      else kget (\<lambda>s. (0, load_bytes (mem s) src len)))"

subsection \<open>System-call arguments\<close>

text \<open>Offsets in \<open>struct trapframe\<close>, and its size.\<close>

abbreviation (input) tf_kernel_satp :: u64 where "tf_kernel_satp \<equiv> 0"
abbreviation (input) tf_kernel_sp :: u64 where "tf_kernel_sp \<equiv> 8"
abbreviation (input) tf_kernel_trap :: u64 where "tf_kernel_trap \<equiv> 16"
abbreviation (input) tf_epc :: u64 where "tf_epc \<equiv> 24"
abbreviation (input) tf_kernel_hartid :: u64 where "tf_kernel_hartid \<equiv> 32"
abbreviation (input) tf_ra :: u64 where "tf_ra \<equiv> 40"
abbreviation (input) tf_sp :: u64 where "tf_sp \<equiv> 48"
abbreviation (input) tf_a0 :: u64 where "tf_a0 \<equiv> 112"
abbreviation (input) tf_a1 :: u64 where "tf_a1 \<equiv> 120"
abbreviation (input) tf_a7 :: u64 where "tf_a7 \<equiv> 168"
abbreviation (input) tf_size :: nat where "tf_size \<equiv> 288"

definition tf_get :: "nat \<Rightarrow> u64 \<Rightarrow> ('z kproc_scheme, u64) kop" where
  "tf_get p off = (\<lambda>s. if trapframe (procs s p) = 0 then Fault
     else Done (read64 (mem s) (trapframe (procs s p) + off)) s)"

definition tf_set :: "nat \<Rightarrow> u64 \<Rightarrow> u64 \<Rightarrow> ('z kproc_scheme, unit) kop" where
  "tf_set p off v = (\<lambda>s. if trapframe (procs s p) = 0 then Fault
     else Done () (s\<lparr>mem := write64 (mem s) (trapframe (procs s p) + off) v\<rparr>))"

text \<open>Copying a whole trapframe, \<open>*(np->trapframe) = *(p->trapframe)\<close>.\<close>

definition tf_copy :: "nat \<Rightarrow> nat \<Rightarrow> ('z kproc_scheme, unit) kop" where
  "tf_copy np p = (\<lambda>s. if trapframe (procs s p) = 0 \<or> trapframe (procs s np) = 0 then Fault
     else Done () (s\<lparr>mem := memmove (mem s) (trapframe (procs s np)) (trapframe (procs s p)) tf_size\<rparr>))"

definition argraw :: "nat \<Rightarrow> ('z kproc_scheme, u64) kop" where
  "argraw n = with_myproc (\<lambda>p. if n \<le> 5 then tf_get p (tf_a0 + 8 * of_nat n) else kpanic ''argraw'')"

definition argint :: "nat \<Rightarrow> ('z kproc_scheme, int) kop" where
  "argint n = kbind (argraw n) (\<lambda>v. kret (sint (ucast v :: u32)))"

definition argaddr :: "nat \<Rightarrow> ('z kproc_scheme, u64) kop" where
  "argaddr n = argraw n"

subsection \<open>Thread groups seen from user space\<close>

text \<open>
  \<open>getfamily\<close> looks at \<open>count\<close> before it looks at \<open>p\<close>, and \<open>copyout\<close> translates the destination before it reads the source, which
  faults when \<open>p\<close> is null.
\<close>

definition getfamily_null :: "u64 \<Rightarrow> u64 \<Rightarrow> int \<Rightarrow> int \<Rightarrow> ('z kproc_scheme, int + int) kop" where
  "getfamily_null pt buf mx count =
     (if count \<ge> mx then kret (Inr count)
      else kbind (walkaddr pt (PGROUNDDOWN (buf + word_of_int count * 4))) (\<lambda>pa0.
        if pa0 = 0 then kret (Inr (- 1)) else kfault))"

definition getfamily :: "('z kproc_scheme, int) kop" where
  "getfamily = with_myproc (\<lambda>cur.
     kbind (argaddr 0) (\<lambda>buf.
     kbind (argint 1) (\<lambda>mx.
     kbind (pget cur id) (\<lambda>x.
       let leader = (case group_leader x of Some l \<Rightarrow> l | None \<Rightarrow> cur)
       in kbind (ring_loop NPROC leader (getfamily_null (pagetable x) buf mx) (\<lambda>p count.
            if count \<ge> mx then kret (Inr count)
            else kbind (pget p tid) (\<lambda>t.
              kbind (copyout (pagetable x) (buf + word_of_int count * 4) (int_bytes t)) (\<lambda>r.
                kret (if r < 0 then Inr (- 1) else Inl (count + 1))))) (Some leader) 0)
          (\<lambda>y. kret (case y of Inl count \<Rightarrow> count | Inr r \<Rightarrow> r))))))"

fun state_num :: "procstate \<Rightarrow> int" where
  "state_num UNUSED = 0"
| "state_num USED = 1"
| "state_num SLEEPING = 2"
| "state_num RUNNABLE = 3"
| "state_num RUNNING = 4"
| "state_num ZOMBIE = 5"
| "state_num GHOST = 6"

definition getstatus :: "('z kproc_scheme, int) kop" where
  "getstatus = with_myproc (\<lambda>cur.
     kbind (argint 0) (\<lambda>t.
     kbind (pget cur id) (\<lambda>x.
       let leader = (case group_leader x of Some l \<Rightarrow> l | None \<Rightarrow> cur)
       in kbind (ring_do leader (\<lambda>p _. kbind (pget p id) (\<lambda>y.
            kret (if tid y = t then Inr (state_num (p_state y)) else Inl ()))) ())
          (\<lambda>y. kret (case y of Inl _ \<Rightarrow> - 1 | Inr r \<Rightarrow> r)))))"

subsection \<open>Debugging output\<close>

definition state_name :: "procstate \<Rightarrow> string" where
  "state_name st = (case st of UNUSED \<Rightarrow> ''unused'' | USED \<Rightarrow> ''used'' | SLEEPING \<Rightarrow> ''sleep ''
     | RUNNABLE \<Rightarrow> ''runble'' | RUNNING \<Rightarrow> ''run   '' | ZOMBIE \<Rightarrow> ''zombie'' | GHOST \<Rightarrow> ''???'')"

text \<open>The lines \<open>procdump\<close> prints: pid, state and name of the slots in use.\<close>

definition procdump :: "'z kproc_scheme \<Rightarrow> (int \<times> string \<times> u8 list) list" where
  "procdump s = [(p_pid p, state_name (p_state p), p_name p). p \<leftarrow> map (procs s) [0..<NPROC], p_state p \<noteq> UNUSED]"

definition spoon :: "u64 \<Rightarrow> ('z kproc_scheme, int) kop" where
  "spoon arg = kret 0"

end
