(* ===== verification/Vm_Frame.thy ===== *)
theory Vm_Frame
  imports Proc
begin

text \<open>
  Frame facts: the allocator and the page-table routines change nothing of the state beyond
  the fields they know, whatever the rest of the kernel keeps there. \<open>keeps f m\<close> says that a
  run of \<open>m\<close> that returns leaves \<open>f\<close> of the state unchanged; the rules of the collection
  \<open>frame\<close> compose it along the code.
\<close>

named_theorems frame

definition keeps :: "('s \<Rightarrow> 'k) \<Rightarrow> ('s, 'a) kop \<Rightarrow> bool" where
  "keeps f m \<longleftrightarrow> (\<forall>s r t. m s = Done r t \<longrightarrow> f t = f s)"

lemma keepsD: "keeps f m \<Longrightarrow> m s = Done r t \<Longrightarrow> f t = f s"
  by (simp add: keeps_def)

lemma keeps_compose: "keeps f m \<Longrightarrow> keeps (\<lambda>s. g (f s)) m"
  by (simp add: keeps_def)

lemma keeps_kbind [frame]: "keeps f m \<Longrightarrow> (\<And>a. keeps f (n a)) \<Longrightarrow> keeps f (kbind m n)"
  unfolding keeps_def by (metis kbind_DoneE)

lemma keeps_kseq [frame]: "keeps f m \<Longrightarrow> keeps f n \<Longrightarrow> keeps f (kseq m n)"
  unfolding kseq_def by (intro keeps_kbind)

lemma keeps_simple [frame]:
  "keeps f (kret a)" "keeps f (kpanic e)" "keeps f kfault" "keeps f khang" "keeps f (kget g)"
  by (simp_all add: keeps_def)

lemma keeps_kmod: "(\<And>s. f (g s) = f s) \<Longrightarrow> keeps f (kmod g)"
  by (auto simp: keeps_def)

lemma keeps_kwhen [frame]: "keeps f m \<Longrightarrow> keeps f (kwhen b m)"
  by (auto simp: keeps_def)

lemma keeps_if [frame]: "(b \<Longrightarrow> keeps f m) \<Longrightarrow> (\<not> b \<Longrightarrow> keeps f n) \<Longrightarrow> keeps f (if b then m else n)"
  by simp

lemma keeps_kfor [frame]: "(\<And>i. keeps f (g i)) \<Longrightarrow> keeps f (kfor is g)"
  by (induction "is") (auto intro: frame)

lemma keeps_kfind [frame]: "(\<And>i. keeps f (g i)) \<Longrightarrow> keeps f (kfind is g)"
  by (induction "is") (auto intro!: frame split: option.split)

lemma keeps_if_state [frame]: "keeps f m \<Longrightarrow> keeps f n \<Longrightarrow> keeps f (\<lambda>s. if P s then m s else n s)"
  by (simp add: keeps_def)

lemma keeps_outcome [frame]:
  "keeps f (\<lambda>s. Panic e)" "keeps f (\<lambda>s. Done (g s) s)" "keeps f (\<lambda>s. Fault)"
  by (simp_all add: keeps_def)

lemma keeps_option [frame]:
  "keeps f m \<Longrightarrow> (\<And>a. keeps f (n a)) \<Longrightarrow> keeps f (case x of None \<Rightarrow> m | Some a \<Rightarrow> n a)"
  by (simp split: option.split)

lemma keeps_prod [frame]: "(\<And>a b. keeps f (n a b)) \<Longrightarrow> keeps f (case x of (a, b) \<Rightarrow> n a b)"
  by (simp split: prod.split)

lemma keeps_Let [frame]: "(\<And>a. keeps f (n a)) \<Longrightarrow> keeps f (let a = v in n a)"
  by (simp add: Let_def)

subsection \<open>Locks, allocator and page tables\<close>

abbreviation rest :: "'z kmem_scheme \<Rightarrow> 'z" where "rest \<equiv> kmem.more"

lemma frame_acquire [frame]: "keeps rest (acquire l)"
  by (auto simp: keeps_def acquire_def push_off_run kseq_run cpu_defs split: if_splits)

lemma frame_release [frame]: "keeps rest (release l)"
  by (auto simp: keeps_def release_def pop_off_def intr_on_def kseq_run cpu_defs Let_def split: if_splits)

lemma frame_mem [frame]: "keeps rest (kmod (\<lambda>s. s\<lparr>mem := g s\<rparr>))"
  and frame_freelist [frame]: "keeps rest (kmod (\<lambda>s. s\<lparr>freelist := h s\<rparr>))"
  and frame_refcount [frame]: "keeps rest (kmod (\<lambda>s. s\<lparr>refcount := k s\<rparr>))"
  by (rule keeps_kmod, simp)+

lemma frame_kfree [frame]: "keeps rest (kfree pa)"
  unfolding kfree_def by (intro frame)

lemma frame_kalloc [frame]: "keeps rest kalloc"
  unfolding kalloc_def by (intro frame)

lemma frame_kref_add: "keeps rest (kref_add d pa)"
  unfolding kref_add_def Let_def by (intro frame)

lemma frame_kref [frame]: "keeps rest (kref_inc pa)" "keeps rest (kref_dec pa)"
  by (simp_all add: kref_inc_def kref_dec_def frame_kref_add)

lemma frame_walk_level: "keeps (rest :: 'z kmem_scheme \<Rightarrow> 'z) (walk_level l pt va alloc)"
proof (induction l arbitrary: pt)
  case 0
  show ?case by (simp add: frame)
next
  case (Suc l)
  have link: "keeps (rest :: 'z kmem_scheme \<Rightarrow> 'z) (kbind kalloc (\<lambda>new.
      if new = 0 then kret 0
      else kseq (kmod (\<lambda>s. s\<lparr>mem := memset (mem s) new 0 4096\<rparr>))
          (kseq (kmod (\<lambda>s. s\<lparr>mem := write64 (mem s) (pt + PX (Suc l) va * 8) (PA2PTE new OR PTE_V)\<rparr>))
          (walk_level l new va alloc))))"
    by (intro frame Suc)
  show ?case
    unfolding keeps_def walk_level.simps Let_def
    using keepsD [OF Suc] keepsD [OF link] by (auto split: if_splits)
qed

lemma frame_walk [frame]: "keeps rest (walk pt va alloc)"
  unfolding walk_def by (intro frame frame_walk_level)

lemma frame_walkaddr [frame]: "keeps rest (walkaddr pt va)"
  unfolding walkaddr_def Let_def by (intro frame)

lemma frame_mappages_loop: "keeps rest (mappages_loop pt a b pa perm)"
proof (induction pt a b pa perm rule: mappages_loop.induct)
  case (1 pt a b pa perm)
  show ?case by (subst mappages_loop.simps) (auto intro!: frame 1)
qed

lemma frame_mappages [frame]: "keeps rest (mappages pt va n pa perm)"
  unfolding mappages_def Let_def by (intro frame frame_mappages_loop)

lemma frame_uvmunmap_loop: "keeps rest (uvmunmap_loop pt a b f)"
proof (induction pt a b f rule: uvmunmap_loop.induct)
  case (1 pt a b f)
  show ?case by (subst uvmunmap_loop.simps) (auto intro!: frame 1 simp: unmap_page_def)
qed

lemma frame_uvmunmap [frame]: "keeps rest (uvmunmap pt va n f)"
  unfolding uvmunmap_def Let_def by (intro frame frame_uvmunmap_loop)

lemma frame_uvmcreate [frame]: "keeps rest uvmcreate"
  unfolding uvmcreate_def by (intro frame)

lemma frame_uvmdealloc [frame]: "keeps rest (uvmdealloc pt a b)"
  unfolding uvmdealloc_def Let_def by (intro frame)

lemma frame_uvmalloc_loop: "keeps rest (uvmalloc_loop pt c a n x)"
proof (induction pt c a n x rule: uvmalloc_loop.induct)
  case (1 pt c a n x)
  show ?case by (subst uvmalloc_loop.simps) (auto intro!: frame 1)
qed

lemma frame_uvmalloc [frame]: "keeps rest (uvmalloc pt a b x)"
  unfolding uvmalloc_def Let_def by (intro frame frame_uvmalloc_loop)

lemma frame_freewalk_level: "keeps (rest :: 'z kmem_scheme \<Rightarrow> 'z) (freewalk_level l pt)"
proof (induction l arbitrary: pt)
  case 0
  show ?case by (auto intro!: frame)
next
  case (Suc l)
  have sub: "keeps (rest :: 'z kmem_scheme \<Rightarrow> 'z)
      (kseq (freewalk_level l q) (kmod (\<lambda>s. s\<lparr>mem := write64 (mem s) a 0\<rparr>)))" for q a
    by (intro frame Suc)
  show ?case
    unfolding freewalk_level.simps
    by (intro keeps_kseq keeps_kfor frame_kfree)
      (auto simp: keeps_def Let_def dest: keepsD [OF sub] split: if_splits)
qed

lemma frame_freewalk [frame]: "keeps rest (freewalk pt)"
  unfolding freewalk_def by (intro frame frame_freewalk_level)

lemma frame_uvmfree [frame]: "keeps rest (uvmfree pt n)"
  unfolding uvmfree_def by (intro frame)

lemma frame_free_user_page [frame]:
  "keeps rest (free_user_page pt va)" "keeps rest (free_user_page_thread pt va)"
  unfolding free_user_page_def free_user_page_thread_def by (intro frame)+

lemma frame_for_pages:
  assumes "\<And>a. keeps rest (body a)"
  shows "keeps rest (for_pages a n body)"
  using assms
proof (induction a n body rule: for_pages.induct)
  case (1 a n body)
  show ?case by (subst for_pages.simps) (auto intro!: frame 1)
qed

lemma frame_uvmfree_shared [frame]:
  "keeps rest (uvmfree_shared pt n)" "keeps rest (uvmfree_shared_thread pt n)"
  unfolding uvmfree_shared_def uvmfree_shared_thread_def by (intro frame frame_for_pages)+

lemma frame_uvmcopy_loop: "keeps rest (uvmcopy_loop a b i n)"
proof (induction a b i n rule: uvmcopy_loop.induct)
  case (1 a b i n)
  show ?case by (subst uvmcopy_loop.simps) (auto intro!: frame 1)
qed

lemma frame_uvmshare_loop: "keeps rest (uvmshare_loop a b i n)"
proof (induction a b i n rule: uvmshare_loop.induct)
  case (1 a b i n)
  show ?case by (subst uvmshare_loop.simps) (auto intro!: frame 1)
qed

lemma frame_uvmcopy [frame]: "keeps rest (uvmcopy a b n)" "keeps rest (uvmshare a b n)"
  by (simp_all add: uvmcopy_def uvmshare_def frame_uvmcopy_loop frame_uvmshare_loop)

lemma frame_uvmclear [frame]: "keeps rest (uvmclear pt va)"
  unfolding uvmclear_def by (intro frame)

lemma frame_uvmfirst [frame]: "keeps rest (uvmfirst pt bs)"
  unfolding uvmfirst_def by (auto intro!: frame)

lemma frame_copyout [frame]: "keeps rest (copyout pt va src)"
proof (induction pt va src rule: copyout.induct)
  case (1 pt va src)
  show ?case by (subst copyout.simps) (auto intro!: frame 1 simp: Let_def)
qed

lemma frame_copyin [frame]: "keeps rest (copyin pt va n)"
proof (induction pt va n rule: copyin.induct)
  case (1 pt va n)
  show ?case by (subst copyin.simps) (auto intro!: frame 1 simp: Let_def)
qed

lemma frame_copyinstr [frame]: "keeps rest (copyinstr pt va n)"
proof (induction pt va n rule: copyinstr.induct)
  case (1 pt va n)
  show ?case by (subst copyinstr.simps) (auto intro!: frame 1 simp: Let_def)
qed

subsection \<open>Lookups change nothing, copyout only memory\<close>

lemma walk_level_lookup_state: "walk_level l pt va False s = Done r t \<Longrightarrow> t = s"
  by (induction l arbitrary: pt) (auto simp: Let_def split: if_splits)

lemma walkaddr_state: "walkaddr pt va s = Done r t \<Longrightarrow> t = s"
  by (auto simp: walkaddr_def walk_def kbind_run Let_def dest: walk_level_lookup_state
      split: if_splits outcome.splits)

lemma copyout_state: "copyout pt va src s = Done rc t \<Longrightarrow> t = s\<lparr>mem := mem t\<rparr>"
proof (induction pt va src arbitrary: s rule: copyout.induct)
  case (1 pt va src)
  show ?case
  proof (cases "src = []")
    case True
    then show ?thesis using 1(2) by (simp add: copyout.simps)
  next
    case False
    let ?va0 = "PGROUNDDOWN va" and ?n = "page_chunk va (length src)"
    from 1(2) False obtain pa where w: "walkaddr pt ?va0 s = Done pa s"
      by (subst (asm) copyout.simps) (auto simp: Let_def elim!: kbind_DoneE dest: walkaddr_state)
    show ?thesis
    proof (cases "pa = 0")
      case True
      then show ?thesis using 1(2) False w by (subst (asm) copyout.simps) (simp add: kbind_run Let_def)
    next
      case pa: False
      let ?u = "s\<lparr>mem := store_bytes (mem s) (pa + (va - ?va0)) (take ?n src)\<rparr>"
      have "copyout pt (?va0 + PGSIZE) (drop ?n src) ?u = Done rc t"
        using 1(2) False w pa by (subst (asm) copyout.simps) (simp add: kbind_run kseq_run Let_def)
      then have "t = ?u\<lparr>mem := mem t\<rparr>" using 1(1) [OF False refl refl pa] by blast
      then show ?thesis by simp
    qed
  qed
qed

end
