(* ===== verification/Proc_Sched.thy ===== *)
theory Proc_Sched
  imports Proc
begin

text \<open>
  Scheduling, sleeping, waking and killing: what the routines of \<^verbatim>\<open>proc.c\<close> do to the
  process table as a whole, and the protocol between \<open>sleep\<close> and \<open>wakeup\<close> when
  several harts run it step by step. Locks of the process table are free or held by the
  running process itself (\<open>ptable_free\<close>), so every scan of the table gets each lock.
\<close>

subsection \<open>Critical sections and the process table\<close>

lemma kproc_hold [simp]:
  "procs (hold l s) = procs s" "nextpid (hold l s) = nextpid s" "initproc (hold l s) = initproc s"
  "sym_forkret (hold l s) = sym_forkret s" "first_forkret (hold l s) = first_forkret s"
  "hold l (procs_update f s) = procs_update f (hold l s)"
  "unhold l (procs_update f s) = procs_update f (unhold l s)"
  "machine_ok (procs_update f s) = machine_ok s"
  "holding l (procs_update f s) = holding l s"
  "mycpu (procs_update f s) = mycpu s" "myproc (procs_update f s) = myproc s"
  "hold l (nextpid_update g s) = nextpid_update g (hold l s)"
  "unhold l (nextpid_update g s) = nextpid_update g (unhold l s)"
  "machine_ok (nextpid_update g s) = machine_ok s"
  "holding l (nextpid_update g s) = holding l s"
  "mycpu (nextpid_update g s) = mycpu s" "myproc (nextpid_update g s) = myproc s"
  by (simp_all add: hold_def unhold_def machine_ok_def holding_def myproc_def cpu_defs)

lemma pget_run [simp]: "pget i f s = Done (f (procs s i)) s"
  by (simp add: pget_def)

lemma pset_run [simp]: "pset i f s = Done () (s\<lparr>procs := (procs s)(i := f (procs s i))\<rparr>)"
  by (simp add: pset_def)

lemma with_myproc_run [simp]: "myproc s = Some p \<Longrightarrow> with_myproc f s = f p s"
  by (simp add: with_myproc_def)

lemma procs_update_id: "procs s = f (procs s) \<Longrightarrow> procs_update f s = s"
  by (cases s) simp

lemma set_mycpu_procs [simp]:
  "set_mycpu c (procs_update f s) = procs_update f (set_mycpu c s)"
  "procs (set_mycpu c s) = procs s" "locks (set_mycpu c s) = locks s" "hart (set_mycpu c s) = hart s"
  "mem (set_mycpu c s) = mem s" "mycpu (set_mycpu c s) = c"
  by (simp_all add: cpu_defs)

text \<open>Reading or updating a slot under its lock.\<close>

lemma locked_pset:
  assumes "machine_ok s" and "lock_free l s"
  shows "kseq (acquire l) (kseq (pset i f) (release l)) s = Done () (s\<lparr>procs := (procs s)(i := f (procs s i))\<rparr>)"
  using assms machine_ok_noff [OF assms(1)] by (simp add: kseq_run acquire_ok release_ok)

lemma release_hold:
  assumes "machine_ok s" and "lock_free l s"
  shows "release l (procs_update f (hold l s)) = Done () (procs_update f s)"
  using assms machine_ok_noff [OF assms(1)] by (simp add: release_ok)

lemma release_hold_same:
  assumes "machine_ok s" and "lock_free l s"
  shows "release l (hold l s) = Done () s"
  using assms by (rule spin.rel_held)

definition ptable_free :: "'z kproc_scheme \<Rightarrow> bool" where
  "ptable_free s \<longleftrightarrow> machine_ok s \<and> (\<forall>i < NPROC. Some i \<noteq> myproc s \<longrightarrow> lock_free (ProcLock i) s)"

lemma ptable_free_procs [simp]: "ptable_free (procs_update f s) = ptable_free s"
  by (simp add: ptable_free_def)

subsection \<open>wakeup\<close>

definition wake :: "chan \<Rightarrow> proc \<Rightarrow> proc" where
  "wake c p = (if p_state p = SLEEPING \<and> p_chan p = Some c then p\<lparr>p_state := RUNNABLE\<rparr> else p)"

lemma wake_wake [simp]: "wake c (wake c p) = wake c p"
  by (simp add: wake_def)

lemma wakeup_list:
  assumes "ptable_free s" and "\<forall>i \<in> set is. i < NPROC"
  shows "kfor is (wakeup_one c) s =
    Done () (s\<lparr>procs := (\<lambda>i. if i \<in> set is \<and> Some i \<noteq> myproc s then wake c (procs s i) else procs s i)\<rparr>)"
  using assms
proof (induction "is" arbitrary: s)
  case Nil
  then show ?case by (simp add: procs_update_id)
next
  case (Cons i "is")
  show ?case
  proof (cases "Some i = myproc s")
    case True
    have "wakeup_one c i s = Done () s" using True by (simp add: wakeup_one_def kbind_run)
    then show ?thesis
      using Cons True by (simp add: kseq_run) (rule arg_cong [where f = "\<lambda>f. procs_update f s"], auto simp: fun_eq_iff)
  next
    case False
    let ?t = "s\<lparr>procs := (procs s)(i := wake c (procs s i))\<rparr>"
    have "machine_ok s" "lock_free (ProcLock i) s"
      using Cons.prems False by (auto simp: ptable_free_def)
    then have "wakeup_one c i s = Done () ?t"
      using False locked_pset [of s "ProcLock i" i "wake c"]
      by (simp add: wakeup_one_def kbind_run wake_def [abs_def])
    moreover have "kfor is (wakeup_one c) ?t = Done () (?t\<lparr>procs := (\<lambda>k. if k \<in> set is \<and>
        Some k \<noteq> myproc s then wake c (procs ?t k) else procs ?t k)\<rparr>)"
      using Cons.IH [of ?t] Cons.prems by simp
    ultimately show ?thesis
      using False by (simp add: kseq_run) (rule arg_cong [where f = "\<lambda>f. procs_update f s"], auto simp: fun_eq_iff)
  qed
qed

lemma wakeup_run:
  assumes "ptable_free s"
  shows "wakeup c s =
    Done () (s\<lparr>procs := (\<lambda>i. if i < NPROC \<and> Some i \<noteq> myproc s then wake c (procs s i) else procs s i)\<rparr>)"
  using wakeup_list [OF assms, of "[0..<NPROC]" c] by (simp add: wakeup_def)

subsection \<open>sched, yield and sleep\<close>

lemma sched_run:
  assumes "myproc s = Some p" and "holding (ProcLock p) s" and "noff (mycpu s) = 1" and "\<not> sie (mycpu s)"
    and "p_state (procs s p) \<noteq> RUNNING"
  shows "sched s = Block (p_chan (procs s p)) s"
  using assms by (simp add: sched_def intr_get_def)

text \<open>What the process table and the CPU look like when a process has gone to sleep.\<close>

definition asleep :: "nat \<Rightarrow> chan \<Rightarrow> lock_id \<Rightarrow> 'z kproc_scheme \<Rightarrow> 'z kproc_scheme" where
  "asleep p c lk s = (unhold lk (hold (ProcLock p) s))
     \<lparr>procs := (procs s)(p := (procs s p)\<lparr>p_chan := Some c, p_state := SLEEPING\<rparr>)\<rparr>"

lemma unhold_simps [simp]:
  "procs (unhold l s) = procs s" "mem (unhold l s) = mem s" "hart (unhold l s) = hart s"
  "myproc (unhold l s) = myproc s" "noff (mycpu (unhold l s)) = noff (mycpu s) - 1"
  "holding l' (unhold l s) \<longleftrightarrow> l' \<noteq> l \<and> holding l' s"
  "lk_locked (locks (unhold l s) l') = (if l' = l then 0 else lk_locked (locks s l'))"
  "sie (mycpu (unhold l s)) \<longleftrightarrow> noff (mycpu s) = 1 \<and> intena (mycpu s)"
  by (auto simp: unhold_def holding_def myproc_def cpu_defs)

lemma sleep_run:
  assumes "machine_ok s" and "myproc s = Some p" and "lock_free (ProcLock p) s"
    and "holding lk s" and "lk \<noteq> ProcLock p"
  shows "sleep c lk s =
    (if noff (mycpu s) = 1 then Block (Some c) (asleep p c lk s) else Panic ''sched locks'')"
proof -
  let ?h = "hold (ProcLock p) s"
  have "0 \<le> noff (mycpu s)" using assms(1) by (simp add: machine_ok_def)
  then have rel: "release lk ?h = Done () (unhold lk ?h)"
    using assms(4,5) by (intro release_ok) simp_all
  have "holding (ProcLock p) (asleep p c lk s)" "noff (mycpu (asleep p c lk s)) = noff (mycpu s)"
    "myproc (asleep p c lk s) = Some p"
    using assms(2,5) by (simp_all add: asleep_def)
  moreover have "\<not> sie (mycpu (asleep p c lk s))" if "noff (mycpu s) = 1"
    using that by (simp add: asleep_def)
  moreover have "procs (asleep p c lk s) p = (procs s p)\<lparr>p_chan := Some c, p_state := SLEEPING\<rparr>"
    by (simp add: asleep_def)
  ultimately have "sched (asleep p c lk s) =
      (if noff (mycpu s) = 1 then Block (Some c) (asleep p c lk s) else Panic ''sched locks'')"
    using assms(2) by (auto simp: sched_def intr_get_def)
  then show ?thesis
    using assms(2,3) rel by (simp add: sleep_def kseq_run acquire_ok asleep_def)
qed

lemma yield_run:
  assumes "machine_ok s" and "myproc s = Some p" and "lock_free (ProcLock p) s" and "noff (mycpu s) = 0"
  shows "yield s = Block (p_chan (procs s p))
    ((hold (ProcLock p) s)\<lparr>procs := (procs s)(p := (procs s p)\<lparr>p_state := RUNNABLE\<rparr>)\<rparr>)"
  using assms by (simp add: yield_def kseq_run acquire_ok sched_run)

subsection \<open>kill\<close>

definition slain :: "proc \<Rightarrow> proc" where
  "slain p = p\<lparr>p_killed := 1, p_state := (if p_state p = SLEEPING then RUNNABLE else p_state p)\<rparr>"

lemma kill_list:
  assumes "machine_ok s" and "\<forall>i \<in> set is. lock_free (ProcLock i) s"
  shows "kfind is (\<lambda>i. kseq (acquire (ProcLock i))
        (kbind (pget i p_pid) (\<lambda>x.
           if x = pid
           then kseq (pset i (\<lambda>p. p\<lparr>p_killed := 1,
                    p_state := (if p_state p = SLEEPING then RUNNABLE else p_state p)\<rparr>))
               (kseq (release (ProcLock i)) (kret (Some 0)))
           else kseq (release (ProcLock i)) (kret None)))) s =
    (case find (\<lambda>i. p_pid (procs s i) = pid) is of
       None \<Rightarrow> Done None s
     | Some i \<Rightarrow> Done (Some (0 :: int)) (s\<lparr>procs := (procs s)(i := slain (procs s i))\<rparr>))"
  using assms(2)
  by (induction "is")
    (auto simp: kseq_run kbind_run acquire_ok release_hold release_hold_same assms(1) slain_def)

lemma kill_run:
  assumes "machine_ok s" and "\<forall>i < NPROC. lock_free (ProcLock i) s"
  shows "kill pid s = (case find (\<lambda>i. p_pid (procs s i) = pid) [0..<NPROC] of
       None \<Rightarrow> Done (- 1) s
     | Some i \<Rightarrow> Done 0 (s\<lparr>procs := (procs s)(i := slain (procs s i))\<rparr>))"
  using kill_list [OF assms(1), of "[0..<NPROC]" pid] assms(2)
  by (simp add: kill_def kbind_run split: option.splits)

lemma killed_run:
  assumes "machine_ok s" and "lock_free (ProcLock p) s"
  shows "killed p s = Done (p_killed (procs s p)) s"
  using assms by (simp add: killed_def kseq_run kbind_run acquire_ok release_hold_same)

subsection \<open>The scheduler's choice\<close>

definition dispatched :: "nat \<Rightarrow> 'z kproc_scheme \<Rightarrow> 'z kproc_scheme" where
  "dispatched i s = set_mycpu ((mycpu (hold (ProcLock i) s))\<lparr>cpu_proc := Some i\<rparr>)
     ((hold (ProcLock i) s)\<lparr>procs := (procs s)(i := (procs s i)\<lparr>p_state := RUNNING\<rparr>)\<rparr>)"

lemma scheduler_scan_run:
  assumes "machine_ok s" and "\<forall>i \<in> set is. lock_free (ProcLock i) s"
  shows "scheduler_scan is s = (case find (\<lambda>i. p_state (procs s i) = RUNNABLE) is of
       None \<Rightarrow> Done None s
     | Some i \<Rightarrow> Done (Some i) (dispatched i s))"
  using assms(2) unfolding scheduler_scan_def
  by (induction "is")
    (auto simp: kseq_run kbind_run acquire_ok release_hold_same assms(1) dispatched_def)

lemma intr_on_ok:
  assumes "machine_ok s" and "noff (mycpu s) = 0"
  shows "intr_on s = Done () (set_mycpu ((mycpu s)\<lparr>sie := True\<rparr>) s)"
  by (simp add: intr_on_def)

subsection \<open>Sleeping and waking, step by step\<close>

text \<open>
  A process that waits for a condition (\<open>acquire(lk); while(!cond) sleep(chan, lk); release(lk)\<close>)
  and another that makes it true (\<open>acquire(lk); cond = 1; wakeup(chan); release(lk)\<close>), on two harts.
  Every lock operation and every access to the shared state is a step of its own, and the
  scheduler's release and acquisition of \<open>p->lock\<close> around \<open>swtch\<close> are steps, too.
\<close>

datatype sleeper_pc =
    SAcquire | STest | SLockP | SReleaseLk | SSetState | SSwitch | SParked | SResume | SReacquire | SDone

datatype waker_pc = WAcquire | WSet | WLockP | WWake | WReleaseP | WReleaseLk | WDone

datatype party = Sleeper | Waker

record sw_state =
  sw_cond :: bool
  sw_lk :: "party option"
  sw_plock :: "party option"
  sw_st :: procstate
  sw_spc :: sleeper_pc
  sw_wpc :: waker_pc

definition sw_init :: sw_state where
  "sw_init = \<lparr>sw_cond = False, sw_lk = None, sw_plock = None, sw_st = RUNNING,
     sw_spc = SAcquire, sw_wpc = WAcquire\<rparr>"

inductive sw_step :: "sw_state \<Rightarrow> sw_state \<Rightarrow> bool" where
  s_acquire: "sw_spc s \<in> {SAcquire, SReacquire} \<Longrightarrow> sw_lk s = None \<Longrightarrow>
    sw_step s (s\<lparr>sw_lk := Some Sleeper, sw_spc := STest\<rparr>)"
| s_test_true: "sw_spc s = STest \<Longrightarrow> sw_cond s \<Longrightarrow> sw_step s (s\<lparr>sw_lk := None, sw_spc := SDone\<rparr>)"
| s_test_false: "sw_spc s = STest \<Longrightarrow> \<not> sw_cond s \<Longrightarrow> sw_step s (s\<lparr>sw_spc := SLockP\<rparr>)"
| s_lock_p: "sw_spc s = SLockP \<Longrightarrow> sw_plock s = None \<Longrightarrow>
    sw_step s (s\<lparr>sw_plock := Some Sleeper, sw_spc := SReleaseLk\<rparr>)"
| s_release_lk: "sw_spc s = SReleaseLk \<Longrightarrow> sw_step s (s\<lparr>sw_lk := None, sw_spc := SSetState\<rparr>)"
| s_set_state: "sw_spc s = SSetState \<Longrightarrow> sw_step s (s\<lparr>sw_st := SLEEPING, sw_spc := SSwitch\<rparr>)"
| s_switch: "sw_spc s = SSwitch \<Longrightarrow> sw_step s (s\<lparr>sw_plock := None, sw_spc := SParked\<rparr>)"
| s_dispatch: "sw_spc s = SParked \<Longrightarrow> sw_plock s = None \<Longrightarrow> sw_st s = RUNNABLE \<Longrightarrow>
    sw_step s (s\<lparr>sw_plock := Some Sleeper, sw_st := RUNNING, sw_spc := SResume\<rparr>)"
| s_resume: "sw_spc s = SResume \<Longrightarrow> sw_step s (s\<lparr>sw_plock := None, sw_spc := SReacquire\<rparr>)"
| w_acquire: "sw_wpc s = WAcquire \<Longrightarrow> sw_lk s = None \<Longrightarrow>
    sw_step s (s\<lparr>sw_lk := Some Waker, sw_wpc := WSet\<rparr>)"
| w_set: "sw_wpc s = WSet \<Longrightarrow> sw_step s (s\<lparr>sw_cond := True, sw_wpc := WLockP\<rparr>)"
| w_lock_p: "sw_wpc s = WLockP \<Longrightarrow> sw_plock s = None \<Longrightarrow>
    sw_step s (s\<lparr>sw_plock := Some Waker, sw_wpc := WWake\<rparr>)"
| w_wake: "sw_wpc s = WWake \<Longrightarrow>
    sw_step s (s\<lparr>sw_st := (if sw_st s = SLEEPING then RUNNABLE else sw_st s), sw_wpc := WReleaseP\<rparr>)"
| w_release_p: "sw_wpc s = WReleaseP \<Longrightarrow> sw_step s (s\<lparr>sw_plock := None, sw_wpc := WReleaseLk\<rparr>)"
| w_release_lk: "sw_wpc s = WReleaseLk \<Longrightarrow> sw_step s (s\<lparr>sw_lk := None, sw_wpc := WDone\<rparr>)"

inductive sw_reach :: "sw_state \<Rightarrow> bool" where
  sw_start: "sw_reach sw_init"
| sw_next: "sw_reach s \<Longrightarrow> sw_step s t \<Longrightarrow> sw_reach t"

text \<open>Which locks a party holds at each point, and how far the waker can be.\<close>

fun s_lk :: "sleeper_pc \<Rightarrow> bool" where
  "s_lk STest = True" | "s_lk SLockP = True" | "s_lk SReleaseLk = True"
| "s_lk SAcquire = False" | "s_lk SSetState = False" | "s_lk SSwitch = False" | "s_lk SParked = False"
| "s_lk SResume = False" | "s_lk SReacquire = False" | "s_lk SDone = False"

fun s_pl :: "sleeper_pc \<Rightarrow> bool" where
  "s_pl SReleaseLk = True" | "s_pl SSetState = True" | "s_pl SSwitch = True" | "s_pl SResume = True"
| "s_pl SAcquire = False" | "s_pl STest = False" | "s_pl SLockP = False" | "s_pl SParked = False"
| "s_pl SReacquire = False" | "s_pl SDone = False"

fun w_stage :: "waker_pc \<Rightarrow> nat" where
  "w_stage WAcquire = 0" | "w_stage WSet = 1" | "w_stage WLockP = 2" | "w_stage WWake = 3"
| "w_stage WReleaseP = 4" | "w_stage WReleaseLk = 5" | "w_stage WDone = 6"

abbreviation w_lk :: "sw_state \<Rightarrow> bool" where "w_lk s \<equiv> w_stage (sw_wpc s) \<in> {1..5}"
abbreviation w_pl :: "sw_state \<Rightarrow> bool" where "w_pl s \<equiv> w_stage (sw_wpc s) \<in> {3, 4}"

definition sw_locks_inv :: "sw_state \<Rightarrow> bool" where
  "sw_locks_inv s \<longleftrightarrow>
     sw_lk s = (if s_lk (sw_spc s) then Some Sleeper else if w_lk s then Some Waker else None) \<and>
     sw_plock s = (if s_pl (sw_spc s) then Some Sleeper else if w_pl s then Some Waker else None) \<and>
     \<not> (s_lk (sw_spc s) \<and> w_lk s) \<and> \<not> (s_pl (sw_spc s) \<and> w_pl s)"

definition sw_sleep_inv :: "sw_state \<Rightarrow> bool" where
  "sw_sleep_inv s \<longleftrightarrow>
     (sw_cond s \<longleftrightarrow> 1 < w_stage (sw_wpc s)) \<and>
     (case sw_spc s of
        SLockP \<Rightarrow> sw_st s = RUNNING \<and> w_stage (sw_wpc s) \<le> 1
      | SReleaseLk \<Rightarrow> sw_st s = RUNNING \<and> w_stage (sw_wpc s) \<le> 1
      | SSetState \<Rightarrow> sw_st s = RUNNING \<and> w_stage (sw_wpc s) \<le> 2
      | SSwitch \<Rightarrow> sw_st s = SLEEPING \<and> w_stage (sw_wpc s) \<le> 2
      | SParked \<Rightarrow> sw_st s = RUNNABLE \<or> sw_st s = SLEEPING \<and> w_stage (sw_wpc s) \<le> 3
      | _ \<Rightarrow> sw_st s = RUNNING)"

definition sw_inv :: "sw_state \<Rightarrow> bool" where
  "sw_inv s \<longleftrightarrow> sw_locks_inv s \<and> sw_sleep_inv s"

lemma sw_inv_init: "sw_inv sw_init"
  by (simp add: sw_inv_def sw_locks_inv_def sw_sleep_inv_def sw_init_def)

lemma sw_locks_step: "sw_step s t \<Longrightarrow> sw_locks_inv s \<Longrightarrow> sw_locks_inv t"
  by (induction rule: sw_step.induct) (auto simp: sw_locks_inv_def split: if_splits)

lemma sw_sleep_step:
  assumes "sw_step s t" and "sw_locks_inv s" and "sw_sleep_inv s"
  shows "sw_sleep_inv t"
  using assms
  by (induction rule: sw_step.induct)
    (auto simp: sw_locks_inv_def sw_sleep_inv_def split: sleeper_pc.splits if_splits)

lemma sw_inv_step: "sw_step s t \<Longrightarrow> sw_inv s \<Longrightarrow> sw_inv t"
  using sw_locks_step sw_sleep_step by (auto simp: sw_inv_def)

lemma sw_reach_inv: "sw_reach s \<Longrightarrow> sw_inv s"
  by (induction rule: sw_reach.induct) (auto intro: sw_inv_init sw_inv_step)

text \<open>A process that has not got through can always make progress once the waker is done.\<close>

lemma sw_progress:
  assumes "sw_inv s" and "sw_wpc s = WDone" and "sw_spc s \<noteq> SDone"
  shows "\<exists>t. sw_step s t"
proof -
  have l: "sw_lk s = (if s_lk (sw_spc s) then Some Sleeper else None)"
    "sw_plock s = (if s_pl (sw_spc s) then Some Sleeper else None)"
    using assms by (simp_all add: sw_inv_def sw_locks_inv_def)
  have c: "sw_cond s" "sw_spc s = SParked \<Longrightarrow> sw_st s = RUNNABLE"
    using assms(1,2) by (auto simp: sw_inv_def sw_sleep_inv_def)
  show ?thesis
    by (cases "sw_spc s") (use assms(3) l c in \<open>auto intro: sw_step.intros\<close>)
qed

subsection \<open>A small process table\<close>

definition no_proc :: proc where
  "no_proc = \<lparr>p_state = UNUSED, p_chan = None, p_killed = 0, p_xstate = 0, p_pid = 0, p_parent = None,
     kstack = 0, sz = 0, pagetable = 0, trapframe = 0,
     p_context = \<lparr>ctx_ra = 0, ctx_sp = 0, ctx_s = (\<lambda>_. 0)\<rparr>,
     ofile = (\<lambda>_. None), cwd = None, p_name = [], is_thread = 0, tid = 0,
     group_leader = None, group_next = None, group_prev = None, num_children = 0, ref_count = 0\<rparr>"

text \<open>Slot 0 runs on hart 0, slot 1 waits for it, slot 2 is runnable.\<close>

definition small_ptable :: kproc where
  "small_ptable = kmem.extend
     (one_page\<lparr>cpus := (\<lambda>_. \<lparr>cpu_proc = Some 0, noff = 0, intena = True, sie = True\<rparr>)\<rparr>)
     \<lparr>kernel_pagetable = 0, satp = (\<lambda>_. 0),
      procs = (\<lambda>_. no_proc)(0 := no_proc\<lparr>p_state := RUNNING, p_pid := 1\<rparr>,
        1 := no_proc\<lparr>p_state := SLEEPING, p_pid := 2, p_chan := Some (ProcChan 0)\<rparr>,
        2 := no_proc\<lparr>p_state := RUNNABLE, p_pid := 3\<rparr>),
      initproc = Some 0, nextpid = 4, first_forkret = False, sym_forkret = 0x80001234\<rparr>"

lemma small_ptable_fields [simp]:
  "machine_ok small_ptable" "lock_free l small_ptable" "myproc small_ptable = Some 0"
  "noff (mycpu small_ptable) = 0" "intena (mycpu small_ptable)" "sie (mycpu small_ptable)"
  "procs small_ptable 0 = no_proc\<lparr>p_state := RUNNING, p_pid := 1\<rparr>"
  "procs small_ptable (Suc 0) = no_proc\<lparr>p_state := SLEEPING, p_pid := 2, p_chan := Some (ProcChan 0)\<rparr>"
  "procs small_ptable 2 = no_proc\<lparr>p_state := RUNNABLE, p_pid := 3\<rparr>"
  "nextpid small_ptable = 4"
  by (simp_all add: small_ptable_def one_page_def boot_machine_def kmem.defs machine.defs machine_ok_def
      myproc_def cpu_defs)

lemma small_ptable_others: "2 < i \<Longrightarrow> procs small_ptable i = no_proc"
  by (simp add: small_ptable_def kmem.defs)

lemma small_ptable_free [simp]: "ptable_free small_ptable"
  by (simp add: ptable_free_def)

lemma NPROC_upt: "[0..<NPROC] = 0 # 1 # 2 # [3..<64]"
  by (simp add: NPROC_def upt_conv_Cons)

subsection \<open>Properties\<close>

text \<open>
  C24 (functional). \<open>wakeup(chan)\<close> makes exactly the other processes that sleep on \<open>chan\<close>
  runnable, and changes nothing else of the kernel's state; all locks are as before.
\<close>

theorem wakeup_wakes_exactly_the_sleepers:
  assumes "ptable_free s"
  shows "\<exists>t. wakeup c s = Done () t \<and> t = s\<lparr>procs := procs t\<rparr> \<and>
    (\<forall>i < NPROC. procs t i =
       (if Some i \<noteq> myproc s \<and> p_state (procs s i) = SLEEPING \<and> p_chan (procs s i) = Some c
        then (procs s i)\<lparr>p_state := RUNNABLE\<rparr> else procs s i))"
  using wakeup_run [OF assms, of c] by (simp add: wake_def)

theorem wakeup_wakes_exactly_the_sleepers_witness:
  "\<exists>t. wakeup (ProcChan 0) small_ptable = Done () t \<and> p_state (procs t 1) = RUNNABLE
     \<and> procs t 2 = procs small_ptable 2"
proof -
  obtain t where "wakeup (ProcChan 0) small_ptable = Done () t"
    "\<forall>i < NPROC. procs t i = (if Some i \<noteq> myproc small_ptable \<and> p_state (procs small_ptable i) = SLEEPING
        \<and> p_chan (procs small_ptable i) = Some (ProcChan 0)
        then (procs small_ptable i)\<lparr>p_state := RUNNABLE\<rparr> else procs small_ptable i)"
    using wakeup_wakes_exactly_the_sleepers [OF small_ptable_free] by blast
  then show ?thesis by (auto simp: NPROC_def no_proc_def)
qed

text \<open>
  C3 (safety). No wakeup is lost: in every interleaving of a process that sleeps until a
  condition holds with one that makes it true and calls \<open>wakeup\<close>, once the second is done
  the first is not asleep, and it can go on until it has seen the condition.
\<close>

theorem no_lost_wakeup:
  assumes "sw_reach s" and "sw_wpc s = WDone"
  shows "sw_st s \<noteq> SLEEPING \<and> (sw_spc s = SDone \<or> (\<exists>t. sw_step s t))"
proof -
  have inv: "sw_inv s" using assms(1) by (rule sw_reach_inv)
  then have "sw_st s \<noteq> SLEEPING"
    using assms(2) by (auto simp: sw_inv_def sw_sleep_inv_def split: sleeper_pc.splits)
  then show ?thesis using sw_progress [OF inv assms(2)] by blast
qed

theorem no_lost_wakeup_witness:
  "\<exists>s. sw_reach s \<and> sw_wpc s = WDone \<and> sw_spc s = SParked \<and> sw_st s \<noteq> SLEEPING \<and> (\<exists>t. sw_step s t)"
proof -
  let ?s = "\<lparr>sw_cond = True, sw_lk = None, sw_plock = None, sw_st = RUNNABLE, sw_spc = SParked, sw_wpc = WDone\<rparr>"
  have "sw_reach ?s"
    using sw_next [OF sw_next [OF sw_next [OF sw_next [OF sw_next [OF sw_next [OF sw_next [OF sw_next
      [OF sw_next [OF sw_next [OF sw_next [OF sw_next [OF sw_start
      s_acquire] s_test_false] s_lock_p] s_release_lk] w_acquire] w_set] s_set_state] s_switch]
      w_lock_p] w_wake] w_release_p] w_release_lk]
    by (simp add: sw_init_def)
  moreover have "sw_st ?s \<noteq> SLEEPING \<and> (\<exists>t. sw_step ?s t)"
    using no_lost_wakeup [OF calculation] by simp
  ultimately show ?thesis by force
qed

text \<open>
  C37 (error). A process may sleep only with exactly one lock held, the one it hands to
  \<open>sleep\<close>: then it blocks on the channel with its slot marked and that lock released,
  holding \<open>p->lock\<close> for the scheduler; with any other lock held as well, \<open>sleep\<close> panics; and
  calling it with \<open>p->lock\<close> already held panics in \<open>acquire\<close>.
\<close>

theorem sleep_needs_exactly_one_lock:
  assumes "machine_ok s" and "myproc s = Some p" and "holding lk s" and "lk \<noteq> ProcLock p"
  shows "(lock_free (ProcLock p) s \<longrightarrow> sleep c lk s =
      (if noff (mycpu s) = 1 then Block (Some c) (asleep p c lk s) else Panic ''sched locks''))
    \<and> (holding (ProcLock p) s \<longrightarrow> sleep c lk s = Panic ''acquire'')
    \<and> lock_free lk (asleep p c lk s) \<and> holding (ProcLock p) (asleep p c lk s)
    \<and> p_state (procs (asleep p c lk s) p) = SLEEPING \<and> p_chan (procs (asleep p c lk s) p) = Some c"
proof (intro conjI impI)
  show "sleep c lk s = (if noff (mycpu s) = 1 then Block (Some c) (asleep p c lk s) else Panic ''sched locks'')"
    if "lock_free (ProcLock p) s"
    by (rule sleep_run [OF assms(1,2) that assms(3,4)])
  show "sleep c lk s = Panic ''acquire''" if "holding (ProcLock p) s"
    using that assms(2) by (simp add: sleep_def kseq_run acquire_again)
qed (use assms(4) in \<open>simp_all add: asleep_def\<close>)

theorem sleep_needs_exactly_one_lock_witness:
  "sleep (ProcChan 0) WaitLock (hold WaitLock small_ptable)
     = (Block (Some (ProcChan 0)) (asleep 0 (ProcChan 0) WaitLock (hold WaitLock small_ptable)) :: (kproc, int) outcome) \<and>
   sleep (ProcChan 0) WaitLock (hold TicksLock (hold WaitLock small_ptable))
     = (Panic ''sched locks'' :: (kproc, int) outcome)"
  by (simp add: sleep_needs_exactly_one_lock [where p = 0, THEN conjunct1, rule_format] machine_ok_hold)

text \<open>
  C23 (functional). A round of the scheduler, with interrupts on, dispatches the first
  runnable process of the table: it is marked running, is the CPU's process and its lock is
  held for it; if there is none, the table and every lock are as before. When the process
  has changed its state and switched back, \<open>scheduler_back\<close> leaves the CPU idle with the lock
  free again.
\<close>

theorem scheduler_dispatches_first_runnable:
  assumes "machine_ok s" and "noff (mycpu s) = 0" and "intena (mycpu s)"
    and "\<forall>i < NPROC. lock_free (ProcLock i) s"
  shows "case find (\<lambda>i. p_state (procs s i) = RUNNABLE) [0..<NPROC] of
      None \<Rightarrow> scheduler_round s = Done None s
    | Some i \<Rightarrow> \<exists>t. scheduler_round s = Done (Some i) t \<and> myproc t = Some i \<and> holding (ProcLock i) t
        \<and> procs t = (procs s)(i := (procs s i)\<lparr>p_state := RUNNING\<rparr>) \<and> noff (mycpu t) = 1
        \<and> (\<exists>u. scheduler_back i t = Done () u \<and> myproc u = None \<and> lock_free (ProcLock i) u
             \<and> procs u = procs t \<and> noff (mycpu u) = 0 \<and> sie (mycpu u))"
proof -
  have "sie (mycpu s)" using assms by (simp add: machine_ok_def)
  then have on: "intr_on s = Done () s"
    by (cases s, cases "cpus s (hart s)") (simp add: intr_on_def cpu_defs fun_upd_idem_iff)
  have round: "scheduler_round s = (case find (\<lambda>i. p_state (procs s i) = RUNNABLE) [0..<NPROC] of
      None \<Rightarrow> Done None s | Some i \<Rightarrow> Done (Some i) (dispatched i s))"
    using on scheduler_scan_run [OF assms(1), of "[0..<NPROC]"] assms(4)
    by (simp add: scheduler_round_def kseq_run)
  show ?thesis
  proof (cases "find (\<lambda>i. p_state (procs s i) = RUNNABLE) [0..<NPROC]")
    case None
    with round show ?thesis by simp
  next
    case (Some i)
    let ?t = "dispatched i s"
    let ?v = "set_mycpu ((mycpu ?t)\<lparr>cpu_proc := None\<rparr>) ?t"
    have t: "myproc ?t = Some i" "holding (ProcLock i) ?t" "noff (mycpu ?t) = 1" "\<not> sie (mycpu ?t)"
      "intena (mycpu ?t)" "procs ?t = (procs s)(i := (procs s i)\<lparr>p_state := RUNNING\<rparr>)"
      using assms(2) \<open>sie (mycpu s)\<close>
      by (simp_all add: dispatched_def myproc_def holding_def hold_def cpu_defs)
    have "release (ProcLock i) ?v = Done () (unhold (ProcLock i) ?v)"
      using t by (intro release_ok) (simp_all add: holding_def cpu_defs)
    then have "scheduler_back i ?t = Done () (unhold (ProcLock i) ?v)"
      by (simp add: scheduler_back_def kseq_run)
    moreover have "myproc (unhold (ProcLock i) ?v) = None" "sie (mycpu (unhold (ProcLock i) ?v))"
      "noff (mycpu (unhold (ProcLock i) ?v)) = 0"
      using t by (simp_all add: myproc_def unhold_def cpu_defs)
    ultimately show ?thesis using Some round t by simp
  qed
qed

theorem scheduler_dispatches_first_runnable_witness:
  "\<exists>t. scheduler_round small_ptable = Done (Some 2) t \<and> myproc t = Some 2 \<and> p_state (procs t 2) = RUNNING"
proof -
  have "find (\<lambda>i. p_state (procs small_ptable i) = RUNNABLE) [0..<NPROC] = Some 2"
    by (simp add: NPROC_upt no_proc_def)
  then show ?thesis
    using scheduler_dispatches_first_runnable [of small_ptable] by force
qed

text \<open>
  \<open>kill(pid)\<close> finds the first slot with that pid, whatever its state, sets
  its killed flag and makes it runnable if it slept; it returns -1 and changes nothing if no
  slot has the pid. No slot's state changes otherwise.
\<close>

theorem kill_marks_first_match:
  assumes "machine_ok s" and "\<forall>i < NPROC. lock_free (ProcLock i) s"
  shows "case find (\<lambda>i. p_pid (procs s i) = pid) [0..<NPROC] of
      None \<Rightarrow> kill pid s = Done (- 1) s
    | Some i \<Rightarrow> kill pid s = Done 0 (s\<lparr>procs := (procs s)(i := (procs s i)\<lparr>p_killed := 1,
        p_state := (if p_state (procs s i) = SLEEPING then RUNNABLE else p_state (procs s i))\<rparr>)\<rparr>)"
  using kill_run [OF assms, of pid] by (simp add: slain_def split: option.split)

theorem kill_marks_first_match_witness:
  "(\<exists>t. kill 2 small_ptable = Done 0 t \<and> p_state (procs t 1) = RUNNABLE \<and> p_killed (procs t 1) = 1)
   \<and> kill 0 small_ptable = Done 0 (small_ptable\<lparr>procs := (procs small_ptable)(3 := no_proc\<lparr>p_killed := 1\<rparr>)\<rparr>)"
proof -
  have "find (\<lambda>i. p_pid (procs small_ptable i) = 2) [0..<NPROC] = Some 1"
    "find (\<lambda>i. p_pid (procs small_ptable i) = 0) [0..<NPROC] = Some 3"
    by (simp_all add: NPROC_upt no_proc_def upt_conv_Cons small_ptable_others)
  then show ?thesis
    using kill_marks_first_match [of small_ptable 2] kill_marks_first_match [of small_ptable 0]
    by (simp add: no_proc_def small_ptable_others)
qed

end
