(* ===== verification/Proc_Group.thy ===== *)
theory Proc_Group
  imports Vm_Copy Vm_Frame Proc_Sched
begin

text \<open>
  Thread groups: the circular list through \<open>group_next\<close> that \<open>thread_create\<close> builds and
  \<open>growproc\<close>, \<open>getfamily\<close>, \<open>getstatus\<close> and \<open>freeproc\<close> walk. \<open>ring P l xs\<close> says that \<open>xs\<close>, starting
  with the leader \<open>l\<close>, is that list; on a ring every walk ends and visits each member once
  (\<open>ring_do_each\<close>), and on a process that never created a thread it follows a null pointer.
\<close>

subsection \<open>Frames over the process table\<close>

lemma procs_rest: "rest t = rest s \<Longrightarrow> procs t = procs s" for s t :: "'z kproc_scheme"
  by (cases s, cases t) simp

lemma keeps_procs [frame]: "keeps rest m \<Longrightarrow> keeps procs m" for m :: "('z kproc_scheme, 'a) kop"
  unfolding keeps_def using procs_rest by blast

lemma keeps_pget [frame]: "keeps f (pget i g)"
  by (simp add: pget_def frame)

definition links :: "'z kproc_scheme \<Rightarrow> nat \<Rightarrow> nat option" where
  "links s i = group_next (procs s i)"

lemma keeps_links [frame]: "keeps rest m \<Longrightarrow> keeps links m" for m :: "('z kproc_scheme, 'a) kop"
  unfolding keeps_def links_def using procs_rest by metis

lemma keeps_links_pset: "(\<And>p. group_next (f p) = group_next p) \<Longrightarrow> keeps links (pset i f)"
  by (auto simp: keeps_def links_def fun_eq_iff)

subsection \<open>Rings\<close>

fun ring_links :: "(nat \<Rightarrow> nat option) \<Rightarrow> nat \<Rightarrow> nat list \<Rightarrow> bool" where
  "ring_links nx l [] \<longleftrightarrow> False"
| "ring_links nx l [q] \<longleftrightarrow> nx q = Some l"
| "ring_links nx l (q # r # qs) \<longleftrightarrow> nx q = Some r \<and> r \<noteq> l \<and> ring_links nx l (r # qs)"

definition ring :: "(nat \<Rightarrow> nat option) \<Rightarrow> nat \<Rightarrow> nat list \<Rightarrow> bool" where
  "ring nx l xs \<longleftrightarrow> ring_links nx l xs \<and> hd xs = l \<and> distinct xs \<and> set xs \<subseteq> {..<NPROC}"

lemma ring_length: "ring nx l xs \<Longrightarrow> length xs \<le> NPROC"
proof -
  assume "ring nx l xs"
  then have "distinct xs" "set xs \<subseteq> {..<NPROC}" by (auto simp: ring_def)
  then show ?thesis using card_mono [of "{..<NPROC}" "set xs"] by (simp add: distinct_card)
qed

fun each :: "(nat \<Rightarrow> 'c \<Rightarrow> ('s, 'c + 'r) kop) \<Rightarrow> nat list \<Rightarrow> 'c \<Rightarrow> ('s, 'c + 'r) kop" where
  "each body [] c = kret (Inl c)"
| "each body (q # qs) c =
     kbind (body q c) (\<lambda>x. case x of Inr r \<Rightarrow> kret (Inr r) | Inl c' \<Rightarrow> each body qs c')"

text \<open>On a ring, a walk whose body leaves the links alone visits each member once.\<close>

lemma ring_loop_each:
  assumes "\<And>q c. keeps links (body q c)" and "ring_links (links s) l xs" and "length xs \<le> fuel"
  shows "ring_loop fuel l nul body (Some (hd xs)) c s = each body xs c s"
  using assms(2,3)
proof (induction xs arbitrary: fuel c s)
  case Nil
  then show ?case by simp
next
  case (Cons q qs)
  then obtain n where n: "fuel = Suc n" by (cases fuel) auto
  have same: "links t = links s" if "body q c s = Done x t" for x t
    using keepsD [OF assms(1) that] .
  have nx: "group_next (procs t q) = links s q" if "links t = links s" for t
    using that by (simp add: links_def fun_eq_iff)
  show ?case
  proof (cases qs)
    case Nil
    with Cons.prems n same show ?thesis
      by (auto simp: kbind_run nx split: outcome.splits sum.splits)
  next
    case qs: (Cons r rs)
    have IH: "ring_loop n l nul body (Some r) c' t = each body qs c' t" if "links t = links s" for c' t
      using Cons.IH [of t n c'] Cons.prems n that qs by simp
    have "links s q = Some r" "r \<noteq> l" using Cons.prems qs by simp_all
    with n same IH show ?thesis
      by (auto simp: kbind_run nx split: outcome.splits sum.splits)
  qed
qed

lemma ring_do_each:
  assumes "\<And>q c. keeps links (body q c)" and "ring (links s) l xs"
  shows "ring_loop NPROC l nul body (Some l) c s = each body xs c s" and "ring_do l body c s = each body xs c s"
proof -
  show e: "ring_loop NPROC l nul body (Some l) c s = each body xs c s" for nul
    using ring_loop_each [OF assms(1), where s = s and l = l and xs = xs and fuel = NPROC and c = c] ring_length [OF assms(2)] assms(2)
    by (simp add: ring_def)
  show "ring_do l body c s = each body xs c s" by (simp add: ring_do_def e)
qed

lemma each_keeps:
  assumes "\<And>q c. keeps f (body q c)"
  shows "keeps f (each body xs c)"
proof (induction xs arbitrary: c)
  case Nil
  show ?case by (simp add: frame)
next
  case (Cons q qs)
  then show ?case
    unfolding each.simps by (intro keeps_kbind assms) (auto split: sum.split intro: frame)
qed

text \<open>Without a group there is no ring: the walk meets a null pointer after the first slot.\<close>

lemma ring_do_no_group:
  assumes "links s l = None" and "body l c s = Done (Inl c') s"
  shows "ring_do l body c s = Fault"
  using assms by (simp add: ring_do_def NPROC_def numeral_eq_Suc kbind_run links_def)

subsection \<open>getstatus\<close>

abbreviation leader_of :: "'z kproc_scheme \<Rightarrow> nat \<Rightarrow> nat" where
  "leader_of s cur \<equiv> (case group_leader (procs s cur) of Some l \<Rightarrow> l | None \<Rightarrow> cur)"

lemma argraw_run:
  assumes "myproc s = Some p" and "trapframe (procs s p) \<noteq> 0" and "n \<le> 5"
  shows "argraw n s = Done (read64 (mem s) (trapframe (procs s p) + (112 + 8 * of_nat n))) s"
  using assms by (simp add: argraw_def tf_get_def)

definition arg :: "'z kproc_scheme \<Rightarrow> nat \<Rightarrow> nat \<Rightarrow> u64" where
  "arg s p n = read64 (mem s) (trapframe (procs s p) + (112 + 8 * of_nat n))"

lemma arg_runs:
  assumes "myproc s = Some p" and "trapframe (procs s p) \<noteq> 0" and "n \<le> 5"
  shows "argint n s = Done (sint (ucast (arg s p n) :: u32)) s" and "argaddr n s = Done (arg s p n) s"
  using argraw_run [OF assms] by (simp_all add: argint_def argaddr_def kbind_run arg_def)

lemma each_find:
  "each (\<lambda>p _. kbind (pget p id) (\<lambda>y. kret (if tid y = t then Inr (g y) else Inl ()))) xs () s =
   Done (case find (\<lambda>q. tid (procs s q) = t) xs of None \<Rightarrow> Inl () | Some q \<Rightarrow> Inr (g (procs s q))) s"
  by (induction xs) (auto simp: kbind_run)

lemma getstatus_run:
  assumes "myproc s = Some cur" and "trapframe (procs s cur) \<noteq> 0" and "ring (links s) (leader_of s cur) xs"
  shows "getstatus s = Done (case find (\<lambda>q. tid (procs s q) = sint (ucast (arg s cur 0) :: u32)) xs of
      None \<Rightarrow> - 1 | Some q \<Rightarrow> state_num (p_state (procs s q))) s"
proof -
  have r: "ring_do (leader_of s cur)
      (\<lambda>p _. kbind (pget p id) (\<lambda>y. kret (if tid y = t then Inr (state_num (p_state y)) else Inl ()))) () s
    = Done (case find (\<lambda>q. tid (procs s q) = t) xs of
        None \<Rightarrow> Inl () | Some q \<Rightarrow> Inr (state_num (p_state (procs s q)))) s" for t
    by (subst ring_do_each(2) [OF _ assms(3)]) (intro frame, rule each_find)
  show ?thesis
    using assms(1,2) by (simp add: getstatus_def kbind_run arg_runs r Let_def) (simp split: option.split)
qed

subsection \<open>getfamily\<close>

lemma length_int_bytes [simp]: "length (int_bytes v) = 4"
  by (simp add: int_bytes_def)

definition family_body :: "u64 \<Rightarrow> u64 \<Rightarrow> int \<Rightarrow> nat \<Rightarrow> int \<Rightarrow> ('z kproc_scheme, int + int) kop" where
  "family_body pt buf mx p count =
     (if count \<ge> mx then kret (Inr count)
      else kbind (pget p tid) (\<lambda>t.
        kbind (copyout pt (buf + word_of_int count * 4) (int_bytes t)) (\<lambda>r.
          kret (if r < 0 then Inr (- 1) else Inl (count + 1)))))"

definition family_bytes :: "'z kproc_scheme \<Rightarrow> nat list \<Rightarrow> u8 list" where
  "family_bytes s qs = concat (map (\<lambda>q. int_bytes (tid (procs s q))) qs)"

lemma length_family_bytes [simp]: "length (family_bytes s qs) = 4 * length qs"
  by (induction qs) (simp_all add: family_bytes_def)

lemma family_each:
  assumes "vm_inv s pt fl" and "user_sep (mem s) pt fl" and "length ys \<le> NPROC" and "0 \<le> count"
    and "n = min (nat (mx - count)) (length ys)"
  shows "\<exists>r t. each (family_body pt buf mx) ys count s = Done r t \<and> procs t = procs s
    \<and> vm_inv t pt fl \<and> user_sep (mem t) pt fl
    \<and> (r = Inr (- 1) \<and> (\<exists>i < 4 * n. user_byte (mem s) pt (buf + word_of_int count * 4 + of_nat i) = None)
       \<or> (r = Inl (count + int n) \<or> r = Inr (count + int n)) \<and> (\<forall>i < 4 * n. user_byte (mem s) pt (buf + word_of_int count * 4 + of_nat i) \<noteq> None)
         \<and> user_byte (mem t) pt = user_store (user_byte (mem s) pt) (buf + word_of_int count * 4) (family_bytes s (take n ys)))"
  using assms
proof (induction ys arbitrary: s count n)
  case Nil
  then show ?case by (simp add: user_store_def fun_eq_iff family_bytes_def)
next
  case (Cons q qs)
  show ?case
  proof (cases "count \<ge> mx")
    case True
    with Cons.prems show ?thesis
      by (simp add: family_body_def user_store_def fun_eq_iff family_bytes_def kbind_run)
  next
    case False
    let ?va = "buf + word_of_int count * 4" and ?bs = "int_bytes (tid (procs s q))"
    obtain rc u where u: "copyout pt ?va ?bs s = Done rc u" "vm_inv u pt fl" "user_sep (mem u) pt fl"
      "rc = 0 \<and> user_byte (mem u) pt = user_store (user_byte (mem s) pt) ?va ?bs \<and> (\<forall>i < 4. user_byte (mem s) pt (?va + of_nat i) \<noteq> None)
       \<or> rc = - 1 \<and> (\<exists>i < 4. user_byte (mem s) pt (?va + of_nat i) = None)"
      using copyout_spec [OF Cons.prems(1,2), of ?bs ?va] by (auto split: if_splits)
    have pu: "procs u = procs s" by (rule keepsD [OF keeps_procs [OF frame_copyout] u(1)])
    define m where "m = min (nat (mx - (count + 1))) (length qs)"
    have n: "n = Suc m" using Cons.prems(5) False by (auto simp: m_def)
    from u(4) show ?thesis
    proof (rule disjE)
      assume rc: "rc = - 1 \<and> (\<exists>i < 4. user_byte (mem s) pt (?va + of_nat i) = None)"
      then have "family_body pt buf mx q count s = Done (Inr (- 1)) u"
        using False u(1) by (simp add: family_body_def kbind_run)
      moreover from rc obtain i where i: "i < 4" "user_byte (mem s) pt (?va + of_nat i) = None" by blast
      moreover have "i < 4 * n" using i(1) n by simp
      ultimately show ?thesis using u(2,3) pu by (auto simp: kbind_run)
    next
      assume rc: "rc = 0 \<and> user_byte (mem u) pt = user_store (user_byte (mem s) pt) ?va ?bs \<and> (\<forall>i < 4. user_byte (mem s) pt (?va + of_nat i) \<noteq> None)"
      obtain r t where t: "each (family_body pt buf mx) qs (count + 1) u = Done r t" "procs t = procs u"
        "vm_inv t pt fl" "user_sep (mem t) pt fl"
        "r = Inr (- 1) \<and> (\<exists>i < 4 * m. user_byte (mem u) pt (buf + word_of_int (count + 1) * 4 + of_nat i) = None)
         \<or> (r = Inl (count + 1 + int m) \<or> r = Inr (count + 1 + int m)) \<and>
          (\<forall>i < 4 * m. user_byte (mem u) pt (buf + word_of_int (count + 1) * 4 + of_nat i) \<noteq> None) \<and> user_byte (mem t) pt = user_store (user_byte (mem u) pt) (buf + word_of_int (count + 1) * 4)
            (family_bytes u (take m qs))"
        using Cons.IH [OF u(2,3) _ _ m_def] Cons.prems(3,4) by auto
      have "length (?bs @ family_bytes s (take m qs)) < 2 ^ 64"
        using Cons.prems(3) by (simp add: NPROC_def min_def)
      from user_store_append [OF this, of "user_byte (mem s) pt" ?va]
      have "user_store (user_byte (mem u) pt) (buf + word_of_int (count + 1) * 4) (family_bytes u (take m qs))
          = user_store (user_byte (mem s) pt) ?va (family_bytes s (take n (q # qs)))"
        using rc n pu by (simp add: family_bytes_def algebra_simps)
      moreover have "family_body pt buf mx q count s = Done (Inl (count + 1)) u"
        using False u(1) rc by (simp add: family_body_def kbind_run)
      moreover have "\<exists>i < 4 * n. user_byte (mem s) pt (?va + of_nat i) = None"
        if "\<exists>i < 4 * m. user_byte (mem u) pt (buf + word_of_int (count + 1) * 4 + of_nat i) = None"
      proof -
        from that obtain i where i: "i < 4 * m" "user_byte (mem u) pt (?va + of_nat (4 + i)) = None"
          by (auto simp: algebra_simps)
        then have "user_byte (mem s) pt (?va + of_nat (4 + i)) = None"
          using rc by (simp add: user_store_def split: if_splits)
        then show ?thesis using i(1) n by (intro exI [of _ "4 + i"]) simp
      qed
      moreover have "\<forall>i < 4 * n. user_byte (mem s) pt (?va + of_nat i) \<noteq> None"
        if acc: "\<forall>i < 4 * m. user_byte (mem u) pt (buf + word_of_int (count + 1) * 4 + of_nat i) \<noteq> None"
      proof (intro allI impI)
        fix i assume i: "i < 4 * n"
        show "user_byte (mem s) pt (?va + of_nat i) \<noteq> None"
        proof (cases "i < 4")
          case False
          then obtain j where j: "i = 4 + j" "j < 4 * m" using i n by (metis add_diff_inverse_nat mult_Suc_right nat_add_left_cancel_less)
          have "user_byte (mem u) pt (buf + word_of_int (count + 1) * 4 + of_nat j) \<noteq> None" using acc j(2) by blast
          then have "user_byte (mem u) pt (?va + of_nat i) \<noteq> None" by (simp add: j(1) algebra_simps)
          moreover have "n \<le> length (q # qs)" using Cons.prems(5) by simp
          then have "i < 2 ^ 64" using i Cons.prems(3) by (simp add: NPROC_def)
          then have "\<not> in_region ?va 4 (?va + of_nat i)" using False by (simp add: in_region_def unat_of_nat64)
          ultimately show ?thesis using rc by (simp add: user_store_def)
        qed (use rc in blast)
      qed
      ultimately show ?thesis using t n pu by (auto simp: kbind_run algebra_simps)
    qed
  qed
qed

subsection \<open>A parent with one child\<close>

text \<open>
  Slot 0 runs on hart 0; slot 1 is its child (pid 2) in state \<open>st\<close>, a thread of its group when
  \<open>gl\<close> says so; slot 2 is unused. \<open>rc\<close> is the leader's reference count.
\<close>

definition family :: "int \<Rightarrow> procstate \<Rightarrow> nat option \<Rightarrow> kproc" where
  "family rc st gl = small_ptable\<lparr>procs := (procs small_ptable)(
     0 := no_proc\<lparr>p_state := RUNNING, p_pid := 1, group_leader := gl, ref_count := rc,
        group_next := (if gl = None then None else Some 1), trapframe := 0x87FFD000\<rparr>,
     1 := no_proc\<lparr>p_state := st, p_pid := 2, p_parent := Some 0, group_leader := gl, tid := 1,
        group_next := (if gl = None then None else Some 0), is_thread := 1, trapframe := 0x87FFE000\<rparr>,
     2 := no_proc)\<rparr>"

lemma family_procs:
  "procs (family rc st gl) = (\<lambda>_. no_proc)(
     0 := no_proc\<lparr>p_state := RUNNING, p_pid := 1, group_leader := gl, ref_count := rc,
        group_next := (if gl = None then None else Some 1), trapframe := 0x87FFD000\<rparr>,
     1 := no_proc\<lparr>p_state := st, p_pid := 2, p_parent := Some 0, group_leader := gl, tid := 1,
        group_next := (if gl = None then None else Some 0), is_thread := 1, trapframe := 0x87FFE000\<rparr>)"
  by (auto simp: family_def small_ptable_def kmem.defs fun_eq_iff)

lemma family_fields [simp]:
  "machine_ok (family rc st gl)" "lock_free l (family rc st gl)" "myproc (family rc st gl) = Some 0"
  "noff (mycpu (family rc st gl)) = 0"
  by (simp_all add: family_def)

lemma getfamily_run:
  assumes "myproc s = Some cur" and "trapframe (procs s cur) \<noteq> 0" and "ring (links s) (leader_of s cur) xs"
  shows "getfamily s = kbind
    (each (family_body (pagetable (procs s cur)) (arg s cur 0) (sint (ucast (arg s cur 1) :: u32))) xs 0)
    (\<lambda>y. kret (case y of Inl count \<Rightarrow> count | Inr r \<Rightarrow> r)) s"
proof -
  have r: "ring_loop NPROC (leader_of s cur) nul (family_body pt buf mx) (Some (leader_of s cur)) 0 s = each (family_body pt buf mx) xs 0 s"
    for pt buf mx nul
    by (rule ring_do_each(1) [OF _ assms(3)]) (unfold family_body_def, intro frame)
  have "getfamily s = kbind (ring_loop NPROC (leader_of s cur)
      (getfamily_null (pagetable (procs s cur)) (arg s cur 0) (sint (ucast (arg s cur 1) :: u32)))
      (family_body (pagetable (procs s cur)) (arg s cur 0) (sint (ucast (arg s cur 1) :: u32))) (Some (leader_of s cur)) 0)
      (\<lambda>y. kret (case y of Inl count \<Rightarrow> count | Inr r \<Rightarrow> r)) s"
    using assms(1,2) by (simp add: getfamily_def kbind_run arg_runs Let_def family_body_def [abs_def])
  then show ?thesis by (simp add: kbind_run r)
qed

subsection \<open>Properties\<close>

text \<open>
  C27 (functional). \<open>getstatus(tid)\<close> in a process that belongs to a thread group: it ends, changes
  nothing, and returns the state of the first member of the group, from the leader on, whose
  thread id is \<open>tid\<close>, or -1 if there is none.
\<close>

theorem getstatus_finds_thread:
  assumes "myproc s = Some cur" and "trapframe (procs s cur) \<noteq> 0" and "ring (links s) (leader_of s cur) xs"
  shows "getstatus s = Done (case find (\<lambda>q. tid (procs s q) = sint (ucast (arg s cur 0) :: u32)) xs of
      None \<Rightarrow> - 1 | Some q \<Rightarrow> state_num (p_state (procs s q))) s"
  by (rule getstatus_run [OF assms])

lemma family_ring: "ring (links (family rc st (Some 0))) (leader_of (family rc st (Some 0)) 0) [0, 1]"
  by (auto simp: ring_def links_def family_procs no_proc_def NPROC_def)

theorem getstatus_finds_thread_witness:
  "getstatus (family 2 ZOMBIE (Some 0)) = Done 4 (family 2 ZOMBIE (Some 0)) \<and>
   (let s = (family 2 ZOMBIE (Some 0))\<lparr>mem := write64 (\<lambda>_. 0) 0x87FFD070 1\<rparr> in getstatus s = Done 5 s)"
proof -
  let ?s = "family 2 ZOMBIE (Some 0)"
  have "arg ?s 0 0 = 0"
    by (simp add: arg_def family_def small_ptable_def one_page_def boot_machine_def kmem.defs machine.defs
        read_le_zero)
  moreover have "trapframe (procs ?s 0) \<noteq> 0" by (simp add: family_procs)
  ultimately have "getstatus ?s = Done 4 ?s"
    using getstatus_finds_thread [OF _ _ family_ring] by (simp add: family_procs no_proc_def)
  moreover have "getstatus t = Done 5 t" if t: "t = ?s\<lparr>mem := write64 (\<lambda>_. 0) 0x87FFD070 1\<rparr>" for t
  proof -
    have "arg t 0 0 = 1" by (simp add: t arg_def family_procs)
    moreover have "ring (links t) (leader_of t 0) [0, 1]"
      using family_ring [of 2 ZOMBIE] by (simp add: t links_def [abs_def])
    ultimately show ?thesis
      using getstatus_finds_thread [of t 0 "[0, 1]"] by (simp add: t family_procs no_proc_def)
  qed
  ultimately show ?thesis by (simp add: Let_def)
qed

text \<open>
  C26 (functional). \<open>getfamily(buf, max)\<close> in a thread group: it ends, and if the user may write
  the buffer, it stores the thread ids of the first \<open>min max n\<close> of the \<open>n\<close> members, leader
  first, as consecutive ints at \<open>buf\<close>, changes no other user byte, and returns their number;
  it returns -1 exactly if part of that buffer is inaccessible.
\<close>

theorem getfamily_stores_thread_ids:
  assumes "myproc s = Some cur" and "trapframe (procs s cur) \<noteq> 0" and "ring (links s) (leader_of s cur) xs"
    and "pt = pagetable (procs s cur)" and "vm_inv s pt fl" and "user_sep (mem s) pt fl"
    and "buf = arg s cur 0" and "n = min (nat (sint (ucast (arg s cur 1) :: u32))) (length xs)"
  shows "\<exists>r t. getfamily s = Done r t \<and> procs t = procs s \<and>
    (if \<exists>i < 4 * n. user_byte (mem s) pt (buf + of_nat i) = None then r = - 1
     else r = int n \<and> user_byte (mem t) pt = user_store (user_byte (mem s) pt) buf (family_bytes s (take n xs)))"
proof -
  define mx where "mx = sint (ucast (arg s cur 1) :: u32)"
  have "n = min (nat (mx - 0)) (length xs)" using assms(8) by (simp add: mx_def)
  from family_each [OF assms(5,6) ring_length [OF assms(3)] order_refl this, of buf]
  obtain r t where "each (family_body pt buf mx) xs 0 s = Done r t"
    "procs t = procs s" "r = Inr (- 1) \<and> (\<exists>i < 4 * n. user_byte (mem s) pt (buf + of_nat i) = None)
       \<or> (r = Inl (int n) \<or> r = Inr (int n)) \<and> (\<forall>i < 4 * n. user_byte (mem s) pt (buf + of_nat i) \<noteq> None)
       \<and> user_byte (mem t) pt = user_store (user_byte (mem s) pt) buf (family_bytes s (take n xs))"
    unfolding add_0_left of_int_0 mult_zero_left add_0_right by blast
  then show ?thesis
    using getfamily_run [OF assms(1-3)] assms(4,7) by (auto simp: kbind_run mx_def)
qed

subsection \<open>An address space with a trapframe\<close>

text \<open>
  The group of \<^const>\<open>family\<close> in the address space of \<^const>\<open>user_vm\<close>; the trapframe asks for at most
  two ids, to be stored at address 0.
\<close>

definition family_vm :: kproc where
  "family_vm = kmem.extend
     (user_vm\<lparr>mem := write64 (write64 (mem user_vm) (0x87FFB000 + 14 * 8) 0) (0x87FFB000 + 15 * 8) 2,
        cpus := (\<lambda>_. \<lparr>cpu_proc = Some 0, noff = 0, intena = True, sie = True\<rparr>)\<rparr>)
     \<lparr>kernel_pagetable = 0, satp = (\<lambda>_. 0),
      procs = (\<lambda>_. no_proc)(
        0 := no_proc\<lparr>p_state := RUNNING, p_pid := 1, group_leader := Some 0, group_next := Some 1,
           trapframe := 0x87FFB000, pagetable := 0x87FFD000\<rparr>,
        1 := no_proc\<lparr>p_state := RUNNABLE, p_pid := 2, group_leader := Some 0, group_next := Some 0, tid := 7\<rparr>),
      initproc = Some 0, nextpid = 3, first_forkret = False, sym_forkret = 0\<rparr>"

lemma family_vm_space:
  obtains ys where "vm_inv family_vm 0x87FFD000 ys" and "user_sep (mem family_vm) 0x87FFD000 ys"
    and "\<And>va. user_byte (mem family_vm) 0x87FFD000 va \<noteq> None \<longleftrightarrow> unat va < 4096"
proof -
  let ?m = "mem family_vm" and ?r = "0x87FFD000"
  obtain ys where ys: "vm_inv user_vm ?r ys" "user_sep (mem user_vm) ?r ys"
    and own: "0x87FFB000 \<notin> owned (mem user_vm) ?r ys"
    using user_vm_owned by metis
  have al: "page_aligned 0x87FFB000" by (simp add: page_aligned_def)
  have "\<not> in_region 0x87FFB070 8 x \<and> \<not> in_region 0x87FFB078 8 x" if "\<not> in_region 0x87FFB000 4096 x" for x
    using that slot_offset [of 14 "0x87FFB000" x] slot_offset [of 15 "0x87FFB000" x] by auto
  then have frame: "?m x = mem user_vm x" if "\<not> in_region 0x87FFB000 4096 x" for x
    using that by (simp add: family_vm_def kmem.defs write_le_outside)
  note maps = user_page_write_map [OF ys(1) al own frame]
  have "vm_inv (user_vm\<lparr>mem := ?m\<rparr>) ?r ys" by (rule user_page_write_nodes(3) [OF ys(1) al own frame])
  then have "vm_inv family_vm ?r ys"
    by (simp add: vm_inv_def kmem_inv_def page_ok_def machine_ok_def family_vm_def kmem.defs cpu_defs)
  moreover have "user_sep ?m ?r ys" using maps(3) ys(2) by blast
  moreover have "user_byte ?m ?r va \<noteq> None \<longleftrightarrow> user_byte (mem user_vm) ?r va \<noteq> None" for va
    by (simp add: user_byte_def maps(1) Let_def)
  ultimately show thesis using that user_vm_byte by auto
qed

theorem getfamily_stores_thread_ids_witness:
  "\<exists>t. getfamily family_vm = Done 2 t \<and> user_byte (mem t) 0x87FFD000 0 = Some 0
     \<and> user_byte (mem t) 0x87FFD000 4 = Some 7"
proof -
  let ?s = family_vm
  obtain ys where ys: "vm_inv ?s 0x87FFD000 ys" "user_sep (mem ?s) 0x87FFD000 ys"
    "\<And>va. user_byte (mem ?s) 0x87FFD000 va \<noteq> None \<longleftrightarrow> unat va < 4096"
    using family_vm_space by metis
  have p: "procs ?s 0 = no_proc\<lparr>p_state := RUNNING, p_pid := 1, group_leader := Some 0, group_next := Some 1,
           trapframe := 0x87FFB000, pagetable := 0x87FFD000\<rparr>"
    "procs ?s (Suc 0) = no_proc\<lparr>p_state := RUNNABLE, p_pid := 2, group_leader := Some 0,
           group_next := Some 0, tid := 7\<rparr>" "myproc ?s = Some 0"
    by (simp_all add: family_vm_def kmem.defs myproc_def cpu_defs)
  have a: "arg ?s 0 0 = 0" "arg ?s 0 1 = 2"
    using read_slot_write_slot [of 14 15 "0x87FFB000" "0x87FFB000"]
    by (simp_all add: arg_def p) (simp_all add: family_vm_def kmem.defs page_aligned_def)
  have ring: "ring (links ?s) (leader_of ?s 0) [0, 1]"
    by (auto simp: ring_def links_def p no_proc_def NPROC_def)
  have acc: "\<not> (\<exists>i < 4 * 2. user_byte (mem ?s) 0x87FFD000 (0 + of_nat i) = None)"
    using ys(3) by (auto simp: unat_of_nat64)
  have fb: "family_bytes ?s [0, Suc 0] = [0, 0, 0, 0, 7, 0, 0, 0]"
    by (simp add: family_bytes_def p int_bytes_def no_proc_def upt_conv_Cons)
  have "(2 :: nat) = min (nat (sint (ucast (arg ?s 0 1) :: u32))) (length [0, 1 :: nat])"
    unfolding a by simp
  moreover have "trapframe (procs ?s 0) \<noteq> 0" "0x87FFD000 = pagetable (procs ?s 0)" by (simp_all add: p)
  ultimately obtain t where "getfamily ?s = Done (int 2) t"
    "user_byte (mem t) 0x87FFD000 = user_store (user_byte (mem ?s) 0x87FFD000) 0 (family_bytes ?s (take 2 [0, 1]))"
    using getfamily_stores_thread_ids [OF p(3) _ ring _ ys(1,2) a(1) [symmetric], of 2] acc by metis
  then show ?thesis by (auto simp: fb user_store_def in_region_def)
qed

text \<open>
  C40 (error). A process that never created a thread is in no ring, its \<open>group_next\<close> is null. \<open>getstatus\<close> of any id but its own follows the null pointer and
  faults in the kernel. \<open>getfamily\<close> still answers when there is room for at most one id: it returns 0 and changes nothing, or stores the id and
  returns 1, or -1 if the user may not write there. With room for more it gives -1 if the user may not write where the second id would go, and
  faults otherwise.
\<close>

theorem group_calls_fault_without_group:
  assumes "myproc s = Some cur" and "trapframe (procs s cur) \<noteq> 0"
    and "group_leader (procs s cur) = None" and "group_next (procs s cur) = None"
    and "pt = pagetable (procs s cur)" and "vm_inv s pt fl" and "user_sep (mem s) pt fl"
    and "buf = arg s cur 0" and "mx = sint (ucast (arg s cur 1) :: u32)" and "bs = int_bytes (tid (procs s cur))"
  shows "(tid (procs s cur) \<noteq> sint (ucast (arg s cur 0) :: u32) \<longrightarrow> getstatus s = Fault)
    \<and> (mx \<le> 0 \<longrightarrow> getfamily s = Done 0 s)
    \<and> (0 < mx \<and> (\<exists>i < 4. user_byte (mem s) pt (buf + of_nat i) = None) \<longrightarrow> (\<exists>t. getfamily s = Done (- 1) t))
    \<and> (0 < mx \<and> \<not> (\<exists>i < 4. user_byte (mem s) pt (buf + of_nat i) = None) \<longrightarrow>
        (\<exists>t. user_byte (mem t) pt = user_store (user_byte (mem s) pt) buf bs \<and> procs t = procs s
          \<and> getfamily s = (if mx = 1 then Done 1 t else if user_byte (mem s) pt (buf + 4) = None then Done (- 1) t else Fault)))"
proof (intro conjI impI)
  have none: "links s cur = None" and leader: "leader_of s cur = cur" using assms(3,4) by (simp_all add: links_def)
  show "getstatus s = Fault" if "tid (procs s cur) \<noteq> sint (ucast (arg s cur 0) :: u32)"
    using assms(1-3) none that
    by (simp add: getstatus_def kbind_run arg_runs Let_def ring_do_no_group)
  have run: "getfamily s = kbind (ring_loop NPROC cur (getfamily_null pt buf mx) (family_body pt buf mx) (Some cur) 0)
      (\<lambda>y. kret (case y of Inl count \<Rightarrow> count | Inr r \<Rightarrow> r)) s"
    using assms(1-3,5,8,9) by (simp add: getfamily_def kbind_run arg_runs Let_def family_body_def [abs_def])
  have suc: "ring_loop NPROC cur nul body q c = ring_loop (Suc 63) cur nul body q c" for nul body q c
    by (simp only: NPROC_def) simp
  note run = run [unfolded suc ring_loop.simps kbind_run]
  show "getfamily s = Done 0 s" if "mx \<le> 0"
    using that by (simp add: run kbind_run family_body_def)
  obtain t where t: "copyout pt buf bs s = Done (if \<exists>i < 4. user_byte (mem s) pt (buf + of_nat i) = None then - 1 else 0) t"
    "vm_inv t pt fl" "\<not> (\<exists>i < 4. user_byte (mem s) pt (buf + of_nat i) = None) \<Longrightarrow> user_byte (mem t) pt = user_store (user_byte (mem s) pt) buf bs"
    using copyout_spec [OF assms(6,7), of bs buf] assms(10) by auto
  have same: "procs t = procs s" by (rule keepsD [OF keeps_procs [OF frame_copyout] t(1)])
  show "\<exists>t. getfamily s = Done (- 1) t" if "0 < mx \<and> (\<exists>i < 4. user_byte (mem s) pt (buf + of_nat i) = None)"
    using that t(1) assms(10) by (auto simp: run kbind_run family_body_def)
  show "\<exists>t. user_byte (mem t) pt = user_store (user_byte (mem s) pt) buf bs \<and> procs t = procs s
      \<and> getfamily s = (if mx = 1 then Done 1 t else if user_byte (mem s) pt (buf + 4) = None then Done (- 1) t else Fault)"
    if w: "0 < mx \<and> \<not> (\<exists>i < 4. user_byte (mem s) pt (buf + of_nat i) = None)"
  proof (intro exI conjI)
    show u: "user_byte (mem t) pt = user_store (user_byte (mem s) pt) buf bs" "procs t = procs s" using t(3) w same by blast+
    have "(translate (mem t) pt (PGROUNDDOWN (buf + 4)) = 0) = (user_byte (mem t) pt (buf + 4) = None)"
      by (simp add: user_byte_def Let_def)
    also have "\<dots> = (user_byte (mem s) pt (buf + 4) = None)"
      by (simp add: u(1) user_store_def assms(10) in_region_def)
    finally have "getfamily_null pt buf mx 1 t = (if mx = 1 then Done (Inr 1) t
        else if user_byte (mem s) pt (buf + 4) = None then Done (Inr (- 1)) t else Fault)"
      using w walkaddr_inv [OF t(2)] by (auto simp: getfamily_null_def kbind_run)
    moreover have "family_body pt buf mx cur 0 s = Done (Inl 1) t" using w t(1) assms(10) by (simp add: family_body_def kbind_run)
    moreover have "group_next (procs t cur) = None" using assms(4) same by simp
    ultimately show "getfamily s = (if mx = 1 then Done 1 t else if user_byte (mem s) pt (buf + 4) = None then Done (- 1) t else Fault)"
      by (simp add: run kbind_run)
  qed
qed

definition alone_vm :: kproc where
  "alone_vm = family_vm\<lparr>procs := (procs family_vm)(0 := (procs family_vm 0)\<lparr>group_leader := None, group_next := None\<rparr>)\<rparr>"

theorem group_calls_fault_without_group_witness: "getfamily alone_vm = Fault"
proof -
  let ?s = alone_vm
  obtain ys where ys: "vm_inv family_vm 0x87FFD000 ys" "user_sep (mem family_vm) 0x87FFD000 ys"
    "\<And>va. user_byte (mem family_vm) 0x87FFD000 va \<noteq> None \<longleftrightarrow> unat va < 4096"
    using family_vm_space by metis
  have p: "procs ?s 0 = no_proc\<lparr>p_state := RUNNING, p_pid := 1, trapframe := 0x87FFB000, pagetable := 0x87FFD000\<rparr>" "myproc ?s = Some 0"
    "mem ?s = mem family_vm"
    by (simp_all add: alone_vm_def family_vm_def kmem.defs myproc_def cpu_defs no_proc_def)
  have inv: "vm_inv ?s 0x87FFD000 ys" using ys(1) by (simp add: alone_vm_def vm_inv_def kmem_inv_def page_ok_def machine_ok_def cpu_defs)
  have a: "arg ?s 0 0 = 0" "arg ?s 0 1 = 2"
    using read_slot_write_slot [of 14 15 "0x87FFB000" "0x87FFB000"]
    by (simp_all add: arg_def p) (simp_all add: family_vm_def kmem.defs page_aligned_def)
  have acc: "user_byte (mem ?s) 0x87FFD000 (of_nat i) \<noteq> None" if "i < 8" for i
    using ys(3) that by (simp add: p(3) unat_of_nat64)
  have mx: "2 = sint (ucast (arg ?s 0 1) :: u32)" unfolding a by simp
  have ok: "\<not> (\<exists>i < 4. user_byte (mem ?s) 0x87FFD000 (0 + of_nat i) = None)" "user_byte (mem ?s) 0x87FFD000 (0 + 4) \<noteq> None"
    using acc acc [of 4] by auto
  have q: "trapframe (procs ?s 0) \<noteq> 0" "group_leader (procs ?s 0) = None" "group_next (procs ?s 0) = None" "0x87FFD000 = pagetable (procs ?s 0)"
    "user_sep (mem ?s) 0x87FFD000 ys"
    using ys(2) by (simp_all add: p no_proc_def)
  have "\<exists>t. getfamily ?s = (if (2 :: int) = 1 then Done 1 t else if user_byte (mem ?s) 0x87FFD000 (0 + 4) = None then Done (- 1) t else Fault)"
    using group_calls_fault_without_group [OF p(2) q(1-4) inv q(5) a(1) [symmetric] mx refl] ok(1) by (elim conjE) auto
  then show ?thesis using ok(2) by auto
qed

end
