(* ===== verification/Proc_Wait.thy ===== *)
theory Proc_Wait
  imports Proc_Group
begin

text \<open>
  The end of a process: what \<open>freeproc\<close> does to a process without threads, to a thread and to a
  group leader, and what \<open>wait\<close> and \<open>thread_join\<close> therefore do with a zombie child.
\<close>

subsection \<open>freeproc\<close>

lemma freeproc_thread_run:
  assumes "group_leader (procs s p) = Some l" and "p \<noteq> l"
  shows "freeproc p s = Done () (s\<lparr>procs := (procs s)(
      l := (procs s l)\<lparr>ref_count := (if ref_count (procs s l) > 0 then ref_count (procs s l) - 1
                                      else ref_count (procs s l))\<rparr>,
      p := (procs s p)\<lparr>p_state := GHOST\<rparr>)\<rparr>)"
  using assms by (simp add: freeproc_def kbind_run kseq_run)

lemma freeproc_leader_panics:
  assumes "group_leader (procs s p) = Some p" and "ref_count (procs s p) \<noteq> 0" and "ref_count (procs s p) \<noteq> 1"
  shows "freeproc p s = Panic ''freeproc: leader with ref_count > 0''"
  using assms by (auto simp: freeproc_def kbind_run kseq_run)

definition freed :: "proc \<Rightarrow> proc" where
  "freed x = x\<lparr>trapframe := 0, pagetable := 0, sz := 0, group_leader := None, group_next := None,
     group_prev := None, is_thread := 0, tid := 0, p_state := UNUSED, num_children := 0,
     ref_count := 0, cwd := None, p_parent := None, p_name := [], p_chan := None, p_killed := 0\<rparr>"

lemma kproc_hold_kmem [simp]:
  "procs (freelist_update f s) = procs s" "procs (mem_update g s) = procs s"
  for s :: "'z kproc_scheme"
  by simp_all

lemma freeproc_self_run:
  assumes "machine_ok s" and "lock_free KmemLock s" and "page_ok s (trapframe (procs s p))"
  shows "freeproc_self p s = Done () (s\<lparr>
      mem := write64 (memset (mem s) (trapframe (procs s p)) 1 4096) (trapframe (procs s p)) (freelist s),
      freelist := trapframe (procs s p), procs := (procs s)(p := freed (procs s p))\<rparr>)"
proof -
  let ?tf = "trapframe (procs s p)"
  have "?tf \<noteq> 0" "page_aligned ?tf" "sym_end s \<le> ?tf" "?tf < PHYSTOP"
    using assms(3) by (auto simp: page_ok_def)
  then show ?thesis
    using assms by (simp add: freeproc_self_def kbind_run kseq_run kfree_run freed_def)
qed

lemma freeproc_single_run:
  assumes "group_leader (procs s p) = None"
  shows "freeproc p s = freeproc_self p s"
  using assms by (simp add: freeproc_def kbind_run)

subsection \<open>Scanning for a zombie child\<close>

definition zombie_child :: "'z kproc_scheme \<Rightarrow> nat \<Rightarrow> nat \<Rightarrow> bool" where
  "zombie_child s p i \<longleftrightarrow> p_parent (procs s i) = Some p \<and> p_state (procs s i) = ZOMBIE"

definition has_child :: "'z kproc_scheme \<Rightarrow> nat \<Rightarrow> nat list \<Rightarrow> bool" where
  "has_child s p is \<longleftrightarrow> (\<exists>i \<in> set is. p_parent (procs s i) = Some p)"

lemma wait_scan_skip:
  assumes "machine_ok s" and "\<forall>i \<in> set is. lock_free (ProcLock i) s \<and> \<not> zombie_child s p i"
  shows "wait_scan p addr (is @ js) hk s = wait_scan p addr js (hk \<or> has_child s p is) s"
  using assms(2)
proof (induction "is" arbitrary: hk)
  case Nil
  then show ?case by (simp add: has_child_def)
next
  case (Cons i "is")
  then show ?case
    by (auto simp: kbind_run kseq_run acquire_ok release_hold_same assms(1) zombie_child_def has_child_def)
qed

lemma find_split:
  assumes "find P xs = Some x"
  obtains ys zs where "xs = ys @ x # zs" and "\<forall>y \<in> set ys. \<not> P y" and "P x"
proof -
  obtain i where i: "i < length xs" "P (xs ! i)" "x = xs ! i" "\<forall>j < i. \<not> P (xs ! j)"
    using assms by (auto simp: find_Some_iff)
  have "xs = take i xs @ x # drop (Suc i) xs" using i(1,3) by (simp add: id_take_nth_drop)
  moreover have "\<forall>y \<in> set (take i xs). \<not> P y" using i(1,4) by (auto simp: in_set_conv_nth)
  ultimately show thesis using that i(2,3) by blast
qed

text \<open>What \<open>wait(0)\<close> does with the first zombie child, without looking into \<open>freeproc\<close>.\<close>

lemma wait_finds:
  assumes "machine_ok s" and "myproc s = Some p" and "lock_free WaitLock s"
    and "\<forall>i < NPROC. lock_free (ProcLock i) s"
    and "find (zombie_child s p) [0..<NPROC] = Some i"
  shows "wait 0 s = kseq (freeproc i) (kseq (release (ProcLock i)) (kseq (release WaitLock)
      (kret (p_pid (procs s i))))) (hold (ProcLock i) (hold WaitLock s))"
proof -
  let ?w = "hold WaitLock s"
  obtain ys zs where yz: "[0..<NPROC] = ys @ i # zs" "\<forall>y \<in> set ys. \<not> zombie_child s p y" "zombie_child s p i"
    using assms(5) by (rule find_split)
  have lt: "j < NPROC" if "j \<in> set (ys @ i # zs)" for j
    using that yz(1) by (metis atLeastLessThan_iff set_upt)
  have "wait_scan p 0 (ys @ i # zs) False ?w = wait_scan p 0 (i # zs) (has_child ?w p ys) ?w"
    using wait_scan_skip [of ?w ys p 0 "i # zs" False] yz(2) lt assms(1,4)
    by (simp add: machine_ok_hold zombie_child_def)
  moreover have "acquire (ProcLock i) ?w = Done () (hold (ProcLock i) ?w)"
    using assms(4) lt [of i] by (intro acquire_ok) simp
  ultimately show ?thesis
    using assms(2,3) yz(3)
    by (simp add: wait_def wait_loop_def yz(1) kbind_run kseq_run acquire_ok zombie_child_def
        split: outcome.split)
qed

lemma wait_none:
  assumes "machine_ok s" and "myproc s = Some p" and "lock_free WaitLock s"
    and "\<forall>i < NPROC. lock_free (ProcLock i) s" and "p < NPROC"
    and "find (zombie_child s p) [0..<NPROC] = None"
  shows "wait addr s =
    (if \<not> has_child s p [0..<NPROC] \<or> p_killed (procs s p) \<noteq> 0 then Done (- 1) s
     else sleep (ProcChan p) WaitLock (hold WaitLock s))"
proof -
  let ?w = "hold WaitLock s"
  have "\<not> zombie_child s p j" if "j < NPROC" for j using assms(6) that by (auto simp: find_None_iff)
  then have scan: "wait_scan p addr [0..<NPROC] False ?w = Done (None, has_child s p [0..<NPROC]) ?w"
    using wait_scan_skip [of ?w "[0..<NPROC]" p addr "[]" False] assms(1,4)
    by (simp add: machine_ok_hold zombie_child_def has_child_def)
  have "killed p ?w = Done (p_killed (procs s p)) ?w"
    using assms(1,4,5) killed_run [of ?w p] by (simp add: machine_ok_hold)
  then show ?thesis
    using assms(1-3) scan
    by (simp add: wait_def wait_loop_def kbind_run kseq_run acquire_ok release_hold_same)
qed

text \<open>Giving back the two locks that \<open>wait\<close> holds around \<open>freeproc\<close>.\<close>

lemma release_both:
  assumes "machine_ok s" and "lock_free WaitLock s" and "lock_free (ProcLock i) s"
  shows "kseq (release (ProcLock i)) (kseq (release WaitLock) (kret v))
      (hold (ProcLock i) (hold WaitLock s)) = Done v s"
  using assms machine_ok_hold [OF assms(1), of WaitLock]
  by (simp add: kseq_run release_hold_same)

subsection \<open>Properties\<close>

text \<open>
  C25 (functional). \<open>wait(0)\<close> with a zombie child that is a process without threads: it returns
  the pid of the first such child, whose slot is then unused and has no parent and whose trapframe
  page is back on the free list; no other slot changes and all locks are as before.
\<close>

theorem wait_reaps_first_zombie:
  assumes "machine_ok s" and "myproc s = Some p" and "lock_free WaitLock s" and "lock_free KmemLock s"
    and "\<forall>i < NPROC. lock_free (ProcLock i) s"
    and "find (zombie_child s p) [0..<NPROC] = Some i"
    and "group_leader (procs s i) = None" and "page_ok s (trapframe (procs s i))"
  shows "\<exists>t. wait 0 s = Done (p_pid (procs s i)) t \<and> procs t = (procs s)(i := freed (procs s i))
    \<and> p_state (procs t i) = UNUSED \<and> freelist t = trapframe (procs s i) \<and> locks t = locks s"
proof -
  let ?h = "hold (ProcLock i) (hold WaitLock s)" and ?tf = "trapframe (procs s i)"
  let ?f = "\<lambda>s. s\<lparr>mem := write64 (memset (mem s) ?tf 1 4096) ?tf (freelist s), freelist := ?tf,
      procs := (procs s)(i := freed (procs s i))\<rparr>"
  have "i < NPROC" using assms(6) by (auto simp: find_Some_iff)
  then have i: "lock_free (ProcLock i) s" using assms(5) by simp
  have "machine_ok ?h" "lock_free KmemLock ?h" "page_ok ?h (trapframe (procs ?h i))"
    using assms(1,4,8) by (simp_all add: machine_ok_hold page_ok_def)
  then have free: "freeproc i ?h = Done () (?f ?h)"
    using assms(7) freeproc_self_run [of ?h i] by (simp add: freeproc_single_run)
  have "?f ?h = hold (ProcLock i) (hold WaitLock (?f s))" by simp
  then have "kseq (release (ProcLock i)) (kseq (release WaitLock) (kret (p_pid (procs s i)))) (?f ?h)
      = Done (p_pid (procs s i)) (?f s)"
    using release_both [of "?f s" i "p_pid (procs s i)"] assms(1,3) i by simp
  then show ?thesis
    using wait_finds [OF assms(1-3,5,6)] free by (simp add: kseq_run [of "freeproc i"] freed_def)
qed

theorem wait_reaps_first_zombie_witness:
  "\<exists>t. wait 0 (family 0 ZOMBIE None) = Done 2 t \<and> p_state (procs t 1) = UNUSED \<and> freelist t = 0x87FFE000"
proof -
  have f: "find (zombie_child (family 0 ZOMBIE None) 0) [0..<NPROC] = Some 1"
    by (simp add: NPROC_upt zombie_child_def family_procs no_proc_def)
  have "group_leader (procs (family 0 ZOMBIE None) 1) = None"
    "page_ok (family 0 ZOMBIE None) (trapframe (procs (family 0 ZOMBIE None) 1))"
    by (simp_all add: family_procs no_proc_def page_ok_def family_def small_ptable_def one_page_def
        boot_machine_def kmem.defs machine.defs page_aligned_def)
  from wait_reaps_first_zombie [OF _ _ _ _ _ f this] show ?thesis
    by (auto simp: family_procs no_proc_def)
qed

text \<open>
  C29 (functional). \<open>wait\<close> treats a zombie thread like a child: it returns the thread's pid, but
  \<open>freeproc\<close> only marks the slot \<open>GHOST\<close>, which keeps its parent. A further \<open>wait\<close> of a process
  with no other child therefore sleeps instead of returning -1.
\<close>

theorem wait_on_thread_leaves_ghost_child:
  assumes "machine_ok s" and "myproc s = Some p" and "p < NPROC" and "noff (mycpu s) = 0"
    and "lock_free WaitLock s" and "\<forall>i < NPROC. lock_free (ProcLock i) s"
    and "find (zombie_child s p) [0..<NPROC] = Some i"
    and "\<forall>j < NPROC. p_parent (procs s j) = Some p \<longrightarrow> j = i"
    and "group_leader (procs s i) = Some p" and "i \<noteq> p" and "p_killed (procs s p) = 0"
  shows "\<exists>t. wait 0 s = Done (p_pid (procs s i)) t \<and> p_state (procs t i) = GHOST
    \<and> p_parent (procs t i) = Some p
    \<and> (\<exists>u. wait addr t = Block (Some (ProcChan p)) u \<and> p_state (procs u p) = SLEEPING)"
proof -
  let ?h = "hold (ProcLock i) (hold WaitLock s)"
  define P where "P = (procs s)(
      p := (procs s p)\<lparr>ref_count := (if ref_count (procs s p) > 0 then ref_count (procs s p) - 1
                                      else ref_count (procs s p))\<rparr>,
      i := (procs s i)\<lparr>p_state := GHOST\<rparr>)"
  let ?t = "s\<lparr>procs := P\<rparr>"
  have z: "zombie_child s p i" and "i < NPROC" using assms(7) by (auto simp: find_Some_iff)
  then have i: "lock_free (ProcLock i) s" using assms(6) by simp
  have free: "freeproc i ?h = Done () (?h\<lparr>procs := P\<rparr>)"
    using freeproc_thread_run [of ?h i p] assms(9,10) by (simp add: P_def)
  have "?h\<lparr>procs := P\<rparr> = hold (ProcLock i) (hold WaitLock ?t)" by simp
  moreover have "machine_ok ?t" "lock_free WaitLock ?t" "lock_free (ProcLock i) ?t"
    using assms(1,5) i by simp_all
  ultimately have "kseq (release (ProcLock i)) (kseq (release WaitLock) (kret (p_pid (procs s i))))
      (?h\<lparr>procs := P\<rparr>) = Done (p_pid (procs s i)) ?t"
    using release_both [of ?t i "p_pid (procs s i)"] by simp
  then have run: "wait 0 s = Done (p_pid (procs s i)) ?t"
    unfolding wait_finds [OF assms(1,2,5,6,7)] kseq_run [of "freeproc i"] free by simp
  have "\<not> zombie_child ?t p j" if "j < NPROC" for j
  proof (cases "j = i")
    case True
    then show ?thesis by (simp add: zombie_child_def P_def)
  next
    case False
    then have "p_parent (procs s j) \<noteq> Some p" using assms(8) that by blast
    with False show ?thesis by (auto simp: zombie_child_def P_def)
  qed
  then have nz: "find (zombie_child ?t p) [0..<NPROC] = None" by (simp add: find_None_iff)
  have kid: "has_child ?t p [0..<NPROC]"
    using z \<open>i < NPROC\<close> assms(10) by (auto simp: has_child_def zombie_child_def P_def intro!: bexI [of _ i])
  have "p_killed (P p) = 0" using assms(10,11) by (simp add: P_def)
  then have "wait addr ?t = sleep (ProcChan p) WaitLock (hold WaitLock ?t)"
    using wait_none [of ?t p addr] nz kid assms(1-6) by simp
  also have "\<dots> = Block (Some (ProcChan p)) (asleep p (ProcChan p) WaitLock (hold WaitLock ?t))"
    using sleep_run [of "hold WaitLock ?t" p WaitLock "ProcChan p"] assms(1-6)
    by (simp add: machine_ok_hold)
  finally show ?thesis
    using run z assms(10) by (auto simp: asleep_def zombie_child_def P_def)
qed

theorem wait_on_thread_leaves_ghost_child_witness:
  "\<exists>t. wait 0 (family 1 ZOMBIE (Some 0)) = Done 2 t \<and> p_state (procs t 1) = GHOST
     \<and> (\<exists>u. wait 0 t = Block (Some (ProcChan 0)) u \<and> p_state (procs u 0) = SLEEPING)"
proof -
  let ?s = "family 1 ZOMBIE (Some 0)"
  have f: "find (zombie_child ?s 0) [0..<NPROC] = Some 1"
    by (simp add: NPROC_upt zombie_child_def family_procs no_proc_def)
  have "\<forall>j < NPROC. p_parent (procs ?s j) = Some 0 \<longrightarrow> j = 1"
    "group_leader (procs ?s 1) = Some 0" "p_killed (procs ?s 0) = 0" "p_pid (procs ?s 1) = 2"
    by (simp_all add: family_procs no_proc_def)
  then show ?thesis
    using wait_on_thread_leaves_ghost_child [OF _ _ _ _ _ _ f, of 0] by (auto simp: NPROC_def)
qed

end
