(* ===== verification/Sleeplock.thy ===== *)
theory Sleeplock
  imports Proc_Sched
begin

text \<open>
  \<^verbatim>\<open>kernel/sleeplock.c\<close>: locks that put a waiting process to sleep. The locks of buffers and
  inodes live in one map, indexed by the object that contains them; the spinlock inside a
  sleep lock and the channel its waiters sleep on have the same index. When \<open>acquiresleep\<close> blocks, it
  goes on, once woken, with \<open>acquiresleep_loop\<close>.
\<close>

record sleeplock =
  sl_locked :: bool
  sl_name :: string
  sl_pid :: int

datatype sleep_id = BufSleep nat | InodeSleep nat

fun sl_lk :: "sleep_id \<Rightarrow> lock_id" where
  "sl_lk (BufSleep i) = BufSleepLk i"
| "sl_lk (InodeSleep i) = InodeSleepLk i"

fun sl_chan :: "sleep_id \<Rightarrow> chan" where
  "sl_chan (BufSleep i) = BufChan i"
| "sl_chan (InodeSleep i) = InodeChan i"

record ksleep = kproc +
  sleeplocks :: "sleep_id \<Rightarrow> sleeplock"

definition slset :: "sleep_id \<Rightarrow> (sleeplock \<Rightarrow> sleeplock) \<Rightarrow> ('z ksleep_scheme, unit) kop" where
  "slset l f = kmod (\<lambda>s. s\<lparr>sleeplocks := (sleeplocks s)(l := f (sleeplocks s l))\<rparr>)"

definition initsleeplock :: "sleep_id \<Rightarrow> string \<Rightarrow> ('z ksleep_scheme, unit) kop" where
  "initsleeplock l name =
     kseq (initlock (sl_lk l) ''sleep lock'')
     (slset l (\<lambda>k. k\<lparr>sl_name := name, sl_locked := False, sl_pid := 0\<rparr>))"

definition acquiresleep_loop :: "sleep_id \<Rightarrow> ('z ksleep_scheme, unit) kop" where
  "acquiresleep_loop l = (\<lambda>s.
     if sl_locked (sleeplocks s l) then sleep (sl_chan l) (sl_lk l) s
     else with_myproc (\<lambda>p.
       kbind (pget p p_pid) (\<lambda>pid.
       kseq (slset l (\<lambda>k. k\<lparr>sl_locked := True, sl_pid := pid\<rparr>))
       (release (sl_lk l)))) s)"

definition acquiresleep :: "sleep_id \<Rightarrow> ('z ksleep_scheme, unit) kop" where
  "acquiresleep l = kseq (acquire (sl_lk l)) (acquiresleep_loop l)"

definition releasesleep :: "sleep_id \<Rightarrow> ('z ksleep_scheme, unit) kop" where
  "releasesleep l =
     kseq (acquire (sl_lk l))
     (kseq (slset l (\<lambda>k. k\<lparr>sl_locked := False, sl_pid := 0\<rparr>))
     (kseq (wakeup (sl_chan l))
     (release (sl_lk l))))"

definition holdingsleep :: "sleep_id \<Rightarrow> ('z ksleep_scheme, bool) kop" where
  "holdingsleep l =
     kseq (acquire (sl_lk l)) (\<lambda>s.
       (if sl_locked (sleeplocks s l)
        then with_myproc (\<lambda>p.
          kbind (pget p p_pid) (\<lambda>pid.
          kseq (release (sl_lk l)) (kret (sl_pid (sleeplocks s l) = pid)))) s
        else kseq (release (sl_lk l)) (kret False) s))"

end
