(* ===== verification/Virtio.thy ===== *)
theory Virtio
  imports Sleeplock
begin

text \<open>
  \<^verbatim>\<open>kernel/virtio_disk.c\<close>: the driver of the disk, with the descriptor table, the ring of
  requests and the ring of completions it shares with the device. An address the driver puts into
  a descriptor is one of the objects it can point to (\<open>desc_addr\<close>). The device follows the virtio
  specification (\<open>device_request\<close>): it carries out the requests of the ring in order, each as a whole, and heeds the lengths and flags of the descriptors. The disk
  is kept in units of \<open>BSIZE\<close> bytes, \<open>disk_writes\<close> records the writes in order. \<open>mmio\<close> is the sequence of
  values written to the device's registers.
\<close>

abbreviation BSIZE :: nat where "BSIZE \<equiv> 1024"
abbreviation NUM :: nat where "NUM \<equiv> 8"
abbreviation (input) VRING_DESC_F_NEXT :: u16 where "VRING_DESC_F_NEXT \<equiv> 1"
abbreviation (input) VRING_DESC_F_WRITE :: u16 where "VRING_DESC_F_WRITE \<equiv> 2"
abbreviation (input) VIRTIO_BLK_T_IN :: u32 where "VIRTIO_BLK_T_IN \<equiv> 0"
abbreviation (input) VIRTIO_BLK_T_OUT :: u32 where "VIRTIO_BLK_T_OUT \<equiv> 1"

text \<open>\<open>struct buf\<close> of \<^verbatim>\<open>kernel/buf.h\<close>; its sleep lock is in \<open>sleeplocks\<close>.\<close>

record buf =
  b_valid :: bool
  b_disk :: bool
  b_dev :: u32
  b_blockno :: u32
  b_refcnt :: u32
  b_prev :: nat
  b_next :: nat
  b_data :: bytes

datatype desc_addr = NoAddr | OpAddr nat | DataAddr nat | StatusAddr nat

record virtq_desc =
  d_addr :: desc_addr
  d_len :: u32
  d_flags :: u16
  d_next :: u16

record virtio_blk_req =
  req_type :: u32
  req_reserved :: u32
  req_sector :: u64

record kvirtio = ksleep +
  bufs :: "nat \<Rightarrow> buf"
  vd_desc :: "nat \<Rightarrow> virtq_desc"
  vd_avail_idx :: u16
  vd_avail_ring :: "nat \<Rightarrow> u16"
  vd_used_idx :: u16
  vd_used_ring :: "nat \<Rightarrow> u32"
  vd_free :: "nat \<Rightarrow> bool"
  vd_seen :: u16
  vd_info_b :: "nat \<Rightarrow> nat option"
  vd_info_status :: "nat \<Rightarrow> u8"
  vd_ops :: "nat \<Rightarrow> virtio_blk_req"
  dev_seen :: u16
  mmio :: "(u64 \<times> u32) list"
  disk :: "u32 \<Rightarrow> bytes"
  disk_writes :: "(u32 \<times> bytes) list"

definition bget_field :: "nat \<Rightarrow> (buf \<Rightarrow> 'a) \<Rightarrow> ('z kvirtio_scheme, 'a) kop" where
  "bget_field b f = kget (\<lambda>s. f (bufs s b))"

definition bset :: "nat \<Rightarrow> (buf \<Rightarrow> buf) \<Rightarrow> ('z kvirtio_scheme, unit) kop" where
  "bset b f = kmod (\<lambda>s. s\<lparr>bufs := (bufs s)(b := f (bufs s b))\<rparr>)"

definition reg_write :: "u64 \<Rightarrow> u32 \<Rightarrow> ('z kvirtio_scheme, unit) kop" where
  "reg_write r v = kmod (\<lambda>s. s\<lparr>mmio := mmio s @ [(r, v)]\<rparr>)"

subsection \<open>Initialisation\<close>

text \<open>The features the driver takes: all the device offers but seven.\<close>

definition virtio_features :: "u32 \<Rightarrow> u32" where
  "virtio_features f = fold unset_bit [5, 7, 11, 12, 29, 28, 27] f"

text \<open>\<open>R\<close> is what the device answers when a register is read; the driver reads each one once.\<close>

definition virtio_disk_init :: "(u64 \<Rightarrow> u32) \<Rightarrow> ('z kvirtio_scheme, unit) kop" where
  "virtio_disk_init R =
     kseq (initlock VdiskLock ''virtio_disk'')
     (if R 0 \<noteq> 0x74726976 \<or> R 4 \<noteq> 2 \<or> R 8 \<noteq> 2 \<or> R 0xc \<noteq> 0x554d4551
      then kpanic ''could not find virtio disk''
      else kseq (reg_write 0x70 0)
       (kseq (reg_write 0x70 1)
       (kseq (reg_write 0x70 3)
       (kseq (reg_write 0x20 (virtio_features (R 0x10)))
       (kseq (reg_write 0x70 11)
       (if R 0x70 AND 8 = 0 then kpanic ''virtio disk FEATURES_OK unset''
        else kseq (reg_write 0x30 0)
         (if R 0x44 \<noteq> 0 then kpanic ''virtio disk should not be ready''
          else if R 0x34 = 0 then kpanic ''virtio disk has no queue 0''
          else if R 0x34 < of_nat NUM then kpanic ''virtio disk max queue too short''
          else kbind kalloc (\<lambda>desc. kbind kalloc (\<lambda>avail. kbind kalloc (\<lambda>used.
            if desc = 0 \<or> avail = 0 \<or> used = 0 then kpanic ''virtio disk kalloc''
            else kseq (kfor [desc, avail, used] (\<lambda>pa. kmod (\<lambda>s. s\<lparr>mem := memset (mem s) pa 0 4096\<rparr>)))
              (kseq (kmod (\<lambda>s. s\<lparr>vd_desc := (\<lambda>_. \<lparr>d_addr = NoAddr, d_len = 0, d_flags = 0, d_next = 0\<rparr>),
                  vd_avail_idx := 0, vd_avail_ring := (\<lambda>_. 0), vd_used_idx := 0, vd_used_ring := (\<lambda>_. 0)\<rparr>))
              (kseq (kfor [(0x38, of_nat NUM), (0x80, ucast desc), (0x84, ucast (drop_bit 32 desc)),
                  (0x90, ucast avail), (0x94, ucast (drop_bit 32 avail)),
                  (0xa0, ucast used), (0xa4, ucast (drop_bit 32 used)), (0x44, 1)] (\<lambda>(r, v). reg_write r v))
              (kseq (kmod (\<lambda>s. s\<lparr>vd_free := (\<lambda>i. i < NUM \<or> vd_free s i)\<rparr>))
              (reg_write 0x70 (R 0x70 OR 4)))))))))))))))"

subsection \<open>Descriptors\<close>

definition alloc_desc :: "('z kvirtio_scheme, nat option) kop" where
  "alloc_desc = (\<lambda>s. case find (vd_free s) [0..<NUM] of
       Some i \<Rightarrow> Done (Some i) (s\<lparr>vd_free := (vd_free s)(i := False)\<rparr>)
     | None \<Rightarrow> Done None s)"

definition free_desc :: "nat \<Rightarrow> ('z kvirtio_scheme, unit) kop" where
  "free_desc i = (\<lambda>s.
     if i \<ge> NUM then Panic ''free_desc 1''
     else if vd_free s i then Panic ''free_desc 2''
     else kseq (kmod (\<lambda>s. s\<lparr>vd_desc := (vd_desc s)(i := \<lparr>d_addr = NoAddr, d_len = 0, d_flags = 0, d_next = 0\<rparr>),
                             vd_free := (vd_free s)(i := True)\<rparr>))
       (wakeup DiskChan) s)"

text \<open>
  Every descriptor of a chain is freed, and freeing one twice panics: the loop ends after at
  most \<open>NUM + 1\<close> rounds.
\<close>

fun free_chain_loop :: "nat \<Rightarrow> nat \<Rightarrow> ('z kvirtio_scheme, unit) kop" where
  "free_chain_loop 0 i = khang"
| "free_chain_loop (Suc n) i =
     kbind (kget (\<lambda>s. vd_desc s i)) (\<lambda>d.
     kseq (free_desc i)
     (if d_flags d AND VRING_DESC_F_NEXT \<noteq> 0 then free_chain_loop n (unat (d_next d)) else kret ()))"

definition free_chain :: "nat \<Rightarrow> ('z kvirtio_scheme, unit) kop" where
  "free_chain i = free_chain_loop (NUM + 1) i"

definition alloc3_desc :: "('z kvirtio_scheme, (nat \<times> nat \<times> nat) option) kop" where
  "alloc3_desc =
     kbind alloc_desc (\<lambda>a. case a of None \<Rightarrow> kret None
     | Some i0 \<Rightarrow> kbind alloc_desc (\<lambda>b. case b of None \<Rightarrow> kseq (free_desc i0) (kret None)
     | Some i1 \<Rightarrow> kbind alloc_desc (\<lambda>c. case c of
           None \<Rightarrow> kseq (free_desc i0) (kseq (free_desc i1) (kret None))
         | Some i2 \<Rightarrow> kret (Some (i0, i1, i2)))))"

subsection \<open>The device\<close>

text \<open>
  A request is a chain of three descriptors: the header, which the device may only read; the data, which it writes for \<open>IN\<close> and
  reads for \<open>OUT\<close>, as the flag of the descriptor says; and the status byte, which it writes. A chain that is not like that is no
  request: the device leaves the ring alone from there on.
\<close>

definition desc_flag :: "virtq_desc \<Rightarrow> u16 \<Rightarrow> bool" where
  "desc_flag d f \<longleftrightarrow> d_flags d AND f \<noteq> 0"

definition request_ok :: "virtio_blk_req \<Rightarrow> virtq_desc \<Rightarrow> virtq_desc \<Rightarrow> virtq_desc \<Rightarrow> bool" where
  "request_ok r d0 d1 d2 \<longleftrightarrow> (req_type r = VIRTIO_BLK_T_IN \<or> req_type r = VIRTIO_BLK_T_OUT)
     \<and> d_len d0 = 16 \<and> desc_flag d0 VRING_DESC_F_NEXT \<and> \<not> desc_flag d0 VRING_DESC_F_WRITE
     \<and> 512 dvd unat (d_len d1) \<and> desc_flag d1 VRING_DESC_F_NEXT \<and> (desc_flag d1 VRING_DESC_F_WRITE \<longleftrightarrow> req_type r = VIRTIO_BLK_T_IN)
     \<and> d_len d2 = 1 \<and> \<not> desc_flag d2 VRING_DESC_F_NEXT \<and> desc_flag d2 VRING_DESC_F_WRITE"

text \<open>
  The transfer of \<open>len\<close> bytes from byte \<open>pos\<close> of the disk on. The disk and the buffers are made of blocks, of which only the first \<open>BSIZE\<close> bytes
  have a meaning; a transfer of exactly one block is that of the block.
\<close>

definition disk_get :: "nat \<Rightarrow> nat \<Rightarrow> (u32 \<Rightarrow> bytes) \<Rightarrow> bytes \<Rightarrow> bytes" where
  "disk_get pos len D old =
     (if pos mod BSIZE = 0 \<and> len = BSIZE then D (of_nat (pos div BSIZE))
      else (\<lambda>a. if unat a < len then D (of_nat ((pos + unat a) div BSIZE)) (of_nat ((pos + unat a) mod BSIZE)) else old a))"

definition disk_put :: "nat \<Rightarrow> nat \<Rightarrow> bytes \<Rightarrow> (u32 \<Rightarrow> bytes) \<Rightarrow> u32 \<Rightarrow> bytes" where
  "disk_put pos len data D =
     (if pos mod BSIZE = 0 \<and> len = BSIZE then D(of_nat (pos div BSIZE) := data)
      else (\<lambda>k a. let i = BSIZE * unat k + unat a
             in if unat a < BSIZE \<and> pos \<le> i \<and> i < pos + len then data (of_nat (i - pos)) else D k a))"

text \<open>The blocks that a write touches, with their new contents.\<close>

definition disk_log :: "nat \<Rightarrow> nat \<Rightarrow> (u32 \<Rightarrow> bytes) \<Rightarrow> (u32 \<times> bytes) list" where
  "disk_log pos len D = map (\<lambda>k. (of_nat k, D (of_nat k))) [pos div BSIZE..<(pos + len + BSIZE - 1) div BSIZE]"

text \<open>The request at the next entry of the ring.\<close>

definition device_request :: "'z kvirtio_scheme \<Rightarrow> 'z kvirtio_scheme" where
  "device_request s =
     (let h = unat (vd_avail_ring s (unat (dev_seen s) mod NUM));
          d0 = vd_desc s h; d1 = vd_desc s (unat (d_next d0)); d2 = vd_desc s (unat (d_next d1))
      in case (d_addr d0, d_addr d1, d_addr d2) of
          (OpAddr o', DataAddr b, StatusAddr st) \<Rightarrow>
            let r = vd_ops s o'; pos = 512 * unat (req_sector r); len = unat (d_len d1)
            in if \<not> request_ok r d0 d1 d2 then s
               else let s' = (if req_type r = VIRTIO_BLK_T_OUT
                     then let D = disk_put pos len (b_data (bufs s b)) (disk s)
                       in s\<lparr>disk := D, disk_writes := disk_writes s @ disk_log pos len D\<rparr>
                     else s\<lparr>bufs := (bufs s)(b := (bufs s b)\<lparr>b_data := disk_get pos len (disk s) (b_data (bufs s b))\<rparr>)\<rparr>)
                 in s'\<lparr>vd_info_status := (vd_info_status s')(st := 0),
                      vd_used_ring := (vd_used_ring s')(unat (vd_used_idx s') mod NUM := of_nat h),
                      vd_used_idx := vd_used_idx s' + 1, dev_seen := dev_seen s' + 1\<rparr>
        | _ \<Rightarrow> s)"

definition device_run :: "'z kvirtio_scheme \<Rightarrow> 'z kvirtio_scheme" where
  "device_run s = (device_request ^^ unat (vd_avail_idx s - dev_seen s)) s"

subsection \<open>Interrupt handler\<close>

text \<open>\<open>n\<close> completions are to be handled: \<open>used->idx\<close> minus \<open>used_idx\<close>.\<close>

primrec virtio_intr_loop :: "nat \<Rightarrow> ('z kvirtio_scheme, unit) kop" where
  "virtio_intr_loop 0 = kret ()"
| "virtio_intr_loop (Suc n) = (\<lambda>s.
     let id = unat (vd_used_ring s (unat (vd_seen s) mod NUM))
     in if vd_info_status s id \<noteq> 0 then Panic ''virtio_disk_intr status''
        else case vd_info_b s id of
            None \<Rightarrow> Fault
          | Some b \<Rightarrow>
              kseq (bset b (\<lambda>x. x\<lparr>b_disk := False\<rparr>))
              (kseq (wakeup (DiskBufChan b))
              (kseq (kmod (\<lambda>s. s\<lparr>vd_seen := vd_seen s + 1\<rparr>))
              (virtio_intr_loop n))) s)"

definition virtio_intr_work :: "('z kvirtio_scheme, unit) kop" where
  "virtio_intr_work = (\<lambda>s. virtio_intr_loop (unat (vd_used_idx s - vd_seen s)) s)"

text \<open>\<open>pending\<close> is the value of the interrupt status register.\<close>

definition virtio_disk_intr :: "u32 \<Rightarrow> ('z kvirtio_scheme, unit) kop" where
  "virtio_disk_intr pending =
     kseq (acquire VdiskLock)
     (kseq (reg_write 0x64 (pending AND 3))
     (kseq virtio_intr_work
     (release VdiskLock)))"

subsection \<open>Reading and writing a block\<close>

text \<open>The three descriptors of a request and its place in the ring.\<close>

definition virtio_submit :: "nat \<Rightarrow> bool \<Rightarrow> nat \<Rightarrow> nat \<Rightarrow> nat \<Rightarrow> ('z kvirtio_scheme, unit) kop" where
  "virtio_submit b write i0 i1 i2 =
     kbind (bget_field b (\<lambda>x. ucast (b_blockno x * 2))) (\<lambda>sector.
     kseq (kmod (\<lambda>s. s\<lparr>vd_ops := (vd_ops s)(i0 :=
         \<lparr>req_type = (if write then VIRTIO_BLK_T_OUT else VIRTIO_BLK_T_IN), req_reserved = 0, req_sector = sector\<rparr>)\<rparr>))
     (kseq (kmod (\<lambda>s. s\<lparr>vd_desc := (vd_desc s)(i0 :=
         \<lparr>d_addr = OpAddr i0, d_len = 16, d_flags = VRING_DESC_F_NEXT, d_next = of_nat i1\<rparr>)\<rparr>))
     (kseq (kmod (\<lambda>s. s\<lparr>vd_desc := (vd_desc s)(i1 :=
         \<lparr>d_addr = DataAddr b, d_len = of_nat BSIZE,
          d_flags = (if write then 0 else VRING_DESC_F_WRITE) OR VRING_DESC_F_NEXT, d_next = of_nat i2\<rparr>)\<rparr>))
     (kseq (kmod (\<lambda>s. s\<lparr>vd_info_status := (vd_info_status s)(i0 := 0xff),
         vd_desc := (vd_desc s)(i2 :=
           \<lparr>d_addr = StatusAddr i0, d_len = 1, d_flags = VRING_DESC_F_WRITE, d_next = 0\<rparr>)\<rparr>))
     (kseq (bset b (\<lambda>x. x\<lparr>b_disk := True\<rparr>))
     (kseq (kmod (\<lambda>s. s\<lparr>vd_info_b := (vd_info_b s)(i0 := Some b),
         vd_avail_ring := (vd_avail_ring s)(unat (vd_avail_idx s) mod NUM := of_nat i0)\<rparr>))
     (kseq (kmod (\<lambda>s. s\<lparr>vd_avail_idx := vd_avail_idx s + 1\<rparr>))
     (reg_write 0x50 0))))))))"

text \<open>
  Waiting for the disk: the process must be able to sleep here. While it sleeps the device carries
  out the requests and the interrupt handler runs, on this hart or on another; the process goes on
  in the state they leave, or sleeps again.
\<close>

definition sleep_and_return :: "chan \<Rightarrow> lock_id \<Rightarrow> ('z kproc_scheme, unit) kop" where
  "sleep_and_return c lk = (\<lambda>s. case (sleep c lk s :: ('z kproc_scheme, unit) outcome) of
       Block _ _ \<Rightarrow> Done () s
     | Done _ _ \<Rightarrow> Done () s
     | Panic e \<Rightarrow> Panic e
     | Spin l \<Rightarrow> Spin l
     | Fault \<Rightarrow> Fault
     | Hang \<Rightarrow> Hang)"

definition virtio_wait :: "nat \<Rightarrow> ('z kvirtio_scheme, unit) kop" where
  "virtio_wait b =
     kseq (sleep_and_return (DiskBufChan b) VdiskLock)
     (kseq (kmod device_run)
     (kseq virtio_intr_work
     (kbind (bget_field b b_disk) (\<lambda>d.
        if d then sleep (DiskBufChan b) VdiskLock else kret ()))))"

definition virtio_disk_rw :: "nat \<Rightarrow> bool \<Rightarrow> ('z kvirtio_scheme, unit) kop" where
  "virtio_disk_rw b write =
     kseq (acquire VdiskLock)
     (kbind alloc3_desc (\<lambda>r. case r of
        None \<Rightarrow> sleep DiskChan VdiskLock
      | Some (i0, i1, i2) \<Rightarrow>
          kseq (virtio_submit b write i0 i1 i2)
          (kseq (virtio_wait b)
          (kseq (kmod (\<lambda>s. s\<lparr>vd_info_b := (vd_info_b s)(i0 := None)\<rparr>))
          (kseq (free_chain i0)
          (release VdiskLock))))))"

end
