(* ===== verification/Bio.thy ===== *)
theory Bio
  imports Virtio
begin

text \<open>
  \<^verbatim>\<open>kernel/bio.c\<close>: the buffer cache, a doubly linked list of buffers in the order of last
  use. The list's links are kept as the code has them, with the index \<open>NBUF\<close> for
  \<open>bcache.head\<close>.
\<close>

abbreviation bhead :: nat where "bhead \<equiv> NBUF"

text \<open>The four assignments that put \<open>b\<close> behind the list head.\<close>

definition link_first :: "nat \<Rightarrow> ('z kvirtio_scheme, unit) kop" where
  "link_first b =
     kbind (bget_field bhead b_next) (\<lambda>first.
     kseq (bset b (\<lambda>x. x\<lparr>b_next := first, b_prev := bhead\<rparr>))
     (kseq (bset first (\<lambda>x. x\<lparr>b_prev := b\<rparr>))
     (bset bhead (\<lambda>x. x\<lparr>b_next := b\<rparr>))))"

definition binit :: "('z kvirtio_scheme, unit) kop" where
  "binit =
     kseq (initlock BcacheLock ''bcache'')
     (kseq (bset bhead (\<lambda>x. x\<lparr>b_prev := bhead, b_next := bhead\<rparr>))
     (kfor [0..<NBUF] (\<lambda>b.
        kseq (initsleeplock (BufSleep b) ''buffer'') (link_first b))))"

subsection \<open>Buffers\<close>

text \<open>
  The two scans of the list, forward for the block and backward for a free buffer. A scan that
  has not met the head after all \<open>NBUF\<close> buffers never will.
\<close>

fun scan_next :: "nat \<Rightarrow> (buf \<Rightarrow> bool) \<Rightarrow> nat \<Rightarrow> ('z kvirtio_scheme, nat option) kop" where
  "scan_next fuel P b = (\<lambda>s.
     if b = bhead then Done None s
     else case fuel of 0 \<Rightarrow> Hang
       | Suc n \<Rightarrow> if P (bufs s b) then Done (Some b) s else scan_next n P (b_next (bufs s b)) s)"

fun scan_prev :: "nat \<Rightarrow> (buf \<Rightarrow> bool) \<Rightarrow> nat \<Rightarrow> ('z kvirtio_scheme, nat option) kop" where
  "scan_prev fuel P b = (\<lambda>s.
     if b = bhead then Done None s
     else case fuel of 0 \<Rightarrow> Hang
       | Suc n \<Rightarrow> if P (bufs s b) then Done (Some b) s else scan_prev n P (b_prev (bufs s b)) s)"

declare scan_next.simps [simp del] scan_prev.simps [simp del]

definition bget ::  "u32 \<Rightarrow> u32 \<Rightarrow> ('z kvirtio_scheme, nat) kop" where
  "bget dev blockno =
     kseq (acquire BcacheLock)
     (kbind (bget_field bhead b_next) (\<lambda>first.
      kbind (scan_next NBUF (\<lambda>x. b_dev x = dev \<and> b_blockno x = blockno) first) (\<lambda>found.
        case found of
          Some b \<Rightarrow>
            kseq (bset b (\<lambda>x. x\<lparr>b_refcnt := b_refcnt x + 1\<rparr>))
            (kseq (release BcacheLock)
            (kseq (acquiresleep (BufSleep b))
            (kret b)))
        | None \<Rightarrow>
            kbind (bget_field bhead b_prev) (\<lambda>last_b.
            kbind (scan_prev NBUF (\<lambda>x. b_refcnt x = 0) last_b) (\<lambda>free. case free of
                Some b \<Rightarrow>
                  kseq (bset b (\<lambda>x. x\<lparr>b_dev := dev, b_blockno := blockno, b_valid := False, b_refcnt := 1\<rparr>))
                  (kseq (release BcacheLock)
                  (kseq (acquiresleep (BufSleep b))
                  (kret b)))
              | None \<Rightarrow> kpanic ''bget: no buffers'')))))"

definition bread :: "u32 \<Rightarrow> u32 \<Rightarrow> ('z kvirtio_scheme, nat) kop" where
  "bread dev blockno =
     kbind (bget dev blockno) (\<lambda>b.
     kbind (bget_field b b_valid) (\<lambda>v.
     kseq (kwhen (\<not> v)
       (kseq (virtio_disk_rw b False) (bset b (\<lambda>x. x\<lparr>b_valid := True\<rparr>))))
     (kret b)))"

definition bwrite :: "nat \<Rightarrow> ('z kvirtio_scheme, unit) kop" where
  "bwrite b =
     kbind (holdingsleep (BufSleep b)) (\<lambda>h.
       if \<not> h then kpanic ''bwrite'' else virtio_disk_rw b True)"

definition brelse :: "nat \<Rightarrow> ('z kvirtio_scheme, unit) kop" where
  "brelse b =
     kbind (holdingsleep (BufSleep b)) (\<lambda>h.
       if \<not> h then kpanic ''brelse''
       else kseq (releasesleep (BufSleep b))
         (kseq (acquire BcacheLock)
         (kseq (bset b (\<lambda>x. x\<lparr>b_refcnt := b_refcnt x - 1\<rparr>))
         (kbind (bget_field b id) (\<lambda>x.
          kseq (kwhen (b_refcnt x = 0)
            (kseq (bset (b_next x) (\<lambda>y. y\<lparr>b_prev := b_prev x\<rparr>))
            (kseq (bset (b_prev x) (\<lambda>y. y\<lparr>b_next := b_next x\<rparr>))
            (link_first b))))
         (release BcacheLock))))))"

definition bpin :: "nat \<Rightarrow> ('z kvirtio_scheme, unit) kop" where
  "bpin b =
     kseq (acquire BcacheLock)
     (kseq (bset b (\<lambda>x. x\<lparr>b_refcnt := b_refcnt x + 1\<rparr>))
     (release BcacheLock))"

definition bunpin :: "nat \<Rightarrow> ('z kvirtio_scheme, unit) kop" where
  "bunpin b =
     kseq (acquire BcacheLock)
     (kseq (bset b (\<lambda>x. x\<lparr>b_refcnt := b_refcnt x - 1\<rparr>))
     (release BcacheLock))"

end
