(* ===== verification/Log.thy ===== *)
theory Log
  imports Bio
begin

text \<open>
  \<^verbatim>\<open>kernel/log.c\<close>: the redo log that makes a file-system operation atomic on disk. The
  in-memory header \<open>log.lh\<close> is kept in the state, the on-disk header and the log blocks are
  blocks of the disk. \<open>begin_op\<close> that blocks goes on with \<open>begin_op_loop\<close> once woken.
\<close>

record klog = kvirtio +
  log_start :: u32
  log_size :: int
  log_outstanding :: int
  log_committing :: bool
  log_dev :: u32
  lh_n :: int
  lh_block :: "nat \<Rightarrow> u32"

text \<open>Offsets in \<open>struct logheader\<close>.\<close>

definition lh_off :: "nat \<Rightarrow> u64" where
  "lh_off i = 4 + 4 * of_nat i"

definition read_head :: "('z klog_scheme, unit) kop" where
  "read_head =
     kbind (kget (\<lambda>s. (log_dev s, log_start s))) (\<lambda>(dev, start).
     kbind (bread dev start) (\<lambda>b.
     kbind (bget_field b b_data) (\<lambda>d.
       let n = sint (read32 d 0)
       in kseq (kmod (\<lambda>s. s\<lparr>lh_n := n\<rparr>))
         (kseq (if n > int LOGSIZE then kfault
                else kfor [0..<nat n] (\<lambda>i. kmod (\<lambda>s. s\<lparr>lh_block := (lh_block s)(i := read32 d (lh_off i))\<rparr>)))
         (brelse b)))))"

definition write_head :: "('z klog_scheme, unit) kop" where
  "write_head =
     kbind (kget (\<lambda>s. (log_dev s, log_start s))) (\<lambda>(dev, start).
     kbind (bread dev start) (\<lambda>b.
     kbind (kget lh_n) (\<lambda>n.
     kseq (bset b (\<lambda>x. x\<lparr>b_data := write32 (b_data x) 0 (word_of_int n)\<rparr>))
     (kseq (kfor [0..<nat n] (\<lambda>i.
        kbind (kget (\<lambda>s. lh_block s i)) (\<lambda>bn.
        bset b (\<lambda>x. x\<lparr>b_data := write32 (b_data x) (lh_off i) bn\<rparr>))))
     (kseq (bwrite b) (brelse b))))))"

text \<open>One round of the loop of \<open>install_trans\<close>.\<close>

definition install_block :: "bool \<Rightarrow> nat \<Rightarrow> ('z klog_scheme, unit) kop" where
  "install_block recovering tail =
     kbind (kget (\<lambda>s. (log_dev s, log_start s, lh_block s tail))) (\<lambda>(dev, start, dst).
     kbind (bread dev (start + of_nat tail + 1)) (\<lambda>lbuf.
     kbind (bread dev dst) (\<lambda>dbuf.
     kbind (bget_field lbuf b_data) (\<lambda>d.
     kseq (bset dbuf (\<lambda>x. x\<lparr>b_data := d\<rparr>))
     (kseq (bwrite dbuf)
     (kseq (kwhen (\<not> recovering) (bunpin dbuf))
     (kseq (brelse lbuf)
     (brelse dbuf))))))))"

definition install_trans :: "bool \<Rightarrow> ('z klog_scheme, unit) kop" where
  "install_trans recovering = kbind (kget lh_n) (\<lambda>n. kfor [0..<nat n] (install_block recovering))"

definition recover_from_log :: "('z klog_scheme, unit) kop" where
  "recover_from_log =
     kseq read_head
     (kseq (install_trans True)
     (kseq (kmod (\<lambda>s. s\<lparr>lh_n := 0\<rparr>))
     write_head))"

text \<open>\<open>sizeof(struct logheader)\<close> is \<open>4 + 4 * LOGSIZE\<close>.\<close>

definition initlog :: "u32 \<Rightarrow> u32 \<Rightarrow> u32 \<Rightarrow> ('z klog_scheme, unit) kop" where
  "initlog dev logstart nlog =
     (if 4 + 4 * LOGSIZE \<ge> BSIZE then kpanic ''initlog: too big logheader''
      else kseq (initlock LogLock ''log'')
        (kseq (kmod (\<lambda>s. s\<lparr>log_start := logstart, log_size := sint nlog, log_dev := dev\<rparr>))
        recover_from_log))"

definition begin_op_loop :: "('z klog_scheme, unit) kop" where
  "begin_op_loop = (\<lambda>s.
     if log_committing s then sleep LogChan LogLock s
     else if lh_n s + (log_outstanding s + 1) * int MAXOPBLOCKS > int LOGSIZE then sleep LogChan LogLock s
     else (kseq (kmod (\<lambda>s. s\<lparr>log_outstanding := log_outstanding s + 1\<rparr>)) (release LogLock)) s)"

definition begin_op :: "('z klog_scheme, unit) kop" where
  "begin_op = kseq (acquire LogLock) begin_op_loop"

text \<open>One round of the loop of \<open>write_log\<close>.\<close>

definition write_log_block :: "nat \<Rightarrow> ('z klog_scheme, unit) kop" where
  "write_log_block tail =
     kbind (kget (\<lambda>s. (log_dev s, log_start s, lh_block s tail))) (\<lambda>(dev, start, src).
     kbind (bread dev (start + of_nat tail + 1)) (\<lambda>to_b.
     kbind (bread dev src) (\<lambda>from_b.
     kbind (bget_field from_b b_data) (\<lambda>d.
     kseq (bset to_b (\<lambda>x. x\<lparr>b_data := d\<rparr>))
     (kseq (bwrite to_b)
     (kseq (brelse from_b)
     (brelse to_b)))))))"

definition write_log :: "('z klog_scheme, unit) kop" where
  "write_log = kbind (kget lh_n) (\<lambda>n. kfor [0..<nat n] write_log_block)"

definition commit :: "('z klog_scheme, unit) kop" where
  "commit =
     kbind (kget lh_n) (\<lambda>n.
     kwhen (n > 0)
       (kseq write_log
       (kseq write_head
       (kseq (install_trans False)
       (kseq (kmod (\<lambda>s. s\<lparr>lh_n := 0\<rparr>))
       write_head)))))"

definition end_op :: "('z klog_scheme, unit) kop" where
  "end_op =
     kseq (acquire LogLock)
     (kseq (kmod (\<lambda>s. s\<lparr>log_outstanding := log_outstanding s - 1\<rparr>))
     (kbind (kget log_committing) (\<lambda>c.
       if c then kpanic ''log.committing''
       else kbind (kget (\<lambda>s. log_outstanding s = 0)) (\<lambda>do_commit.
         kseq (if do_commit then kmod (\<lambda>s. s\<lparr>log_committing := True\<rparr>) else wakeup LogChan)
         (kseq (release LogLock)
         (kwhen do_commit
           (kseq commit
           (kseq (acquire LogLock)
           (kseq (kmod (\<lambda>s. s\<lparr>log_committing := False\<rparr>))
           (kseq (wakeup LogChan)
           (release LogLock)))))))))))"

text \<open>The slot the block goes to: its old one (absorption) or the next free one.\<close>

definition log_slot :: "(nat \<Rightarrow> u32) \<Rightarrow> nat \<Rightarrow> u32 \<Rightarrow> nat" where
  "log_slot blocks n bn = (case find (\<lambda>i. blocks i = bn) [0..<n] of Some i \<Rightarrow> i | None \<Rightarrow> n)"

definition log_write :: "nat \<Rightarrow> ('z klog_scheme, unit) kop" where
  "log_write b =
     kseq (acquire LogLock) (\<lambda>s.
       if lh_n s \<ge> int LOGSIZE \<or> lh_n s \<ge> log_size s - 1 then Panic ''too big a transaction''
       else if log_outstanding s < 1 then Panic ''log_write outside of trans''
       else let bn = b_blockno (bufs s b); i = log_slot (lh_block s) (nat (lh_n s)) bn
         in (kseq (kmod (\<lambda>s. s\<lparr>lh_block := (lh_block s)(i := bn)\<rparr>))
            (kseq (kwhen (int i = lh_n s)
               (kseq (bpin b) (kmod (\<lambda>s. s\<lparr>lh_n := lh_n s + 1\<rparr>))))
            (release LogLock))) s)"

end
