(* ===== verification/Fs.thy ===== *)
theory Fs
  imports Log
begin

text \<open>
  \<^verbatim>\<open>kernel/fs.c\<close>: block allocation, inodes, file contents, directories and path names, over the
  log. An inode pointer is its index in \<open>itable.inode\<close>. A kernel buffer that \<open>readi\<close> fills or
  \<open>writei\<close> reads (\<open>user_dst\<close>, \<open>user_src\<close> 0) is a list of bytes: \<open>readi\<close> returns it, \<open>writei\<close> is given
  it. Strings are lists of bytes without the terminating zero.
\<close>

subsection \<open>Data structures\<close>

record superblock =
  sb_magic :: u32
  sb_size :: u32
  sb_nblocks :: u32
  sb_ninodes :: u32
  sb_nlog :: u32
  sb_logstart :: u32
  sb_inodestart :: u32
  sb_bmapstart :: u32

record inode =
  i_dev :: u32
  i_inum :: u32
  i_ref :: int
  i_valid :: bool
  i_type :: u16
  i_major :: u16
  i_minor :: u16
  i_nlink :: u16
  i_size :: u32
  i_addrs :: "nat \<Rightarrow> u32"

record kfs = klog +
  sb :: superblock
  inodes :: "nat \<Rightarrow> inode"

abbreviation (input) ROOTINO :: u32 where "ROOTINO \<equiv> 1"
abbreviation (input) ROOTDEV :: u32 where "ROOTDEV \<equiv> 1"
abbreviation (input) FSMAGIC :: u32 where "FSMAGIC \<equiv> 0x10203040"
abbreviation (input) NDIRECT :: nat where "NDIRECT \<equiv> 12"
abbreviation (input) NINDIRECT :: nat where "NINDIRECT \<equiv> 256"
abbreviation MAXFILE :: nat where "MAXFILE \<equiv> NDIRECT + NINDIRECT"
abbreviation (input) IPB :: nat where "IPB \<equiv> 16"
abbreviation BPB :: nat where "BPB \<equiv> 8192"
abbreviation (input) DIRSIZ :: nat where "DIRSIZ \<equiv> 14"
abbreviation (input) T_DIR :: u16 where "T_DIR \<equiv> 1"
abbreviation (input) T_FILE :: u16 where "T_FILE \<equiv> 2"
abbreviation (input) T_DEVICE :: u16 where "T_DEVICE \<equiv> 3"

definition IBLOCK :: "u32 \<Rightarrow> superblock \<Rightarrow> u32" where
  "IBLOCK i b = i div 16 + sb_inodestart b"

definition BBLOCK :: "nat \<Rightarrow> superblock \<Rightarrow> u32" where
  "BBLOCK b x = of_nat (b div BPB) + sb_bmapstart x"

definition iget_field :: "nat \<Rightarrow> (inode \<Rightarrow> 'a) \<Rightarrow> ('z kfs_scheme, 'a) kop" where
  "iget_field ip f = kget (\<lambda>s. f (inodes s ip))"

definition iset :: "nat \<Rightarrow> (inode \<Rightarrow> inode) \<Rightarrow> ('z kfs_scheme, unit) kop" where
  "iset ip f = kmod (\<lambda>s. s\<lparr>inodes := (inodes s)(ip := f (inodes s ip))\<rparr>)"

subsection \<open>Super block\<close>

definition readsb :: "u32 \<Rightarrow> ('z kfs_scheme, unit) kop" where
  "readsb dev =
     kbind (bread dev 1) (\<lambda>bp.
     kbind (bget_field bp b_data) (\<lambda>d.
     kseq (kmod (\<lambda>s. s\<lparr>sb := \<lparr>sb_magic = read32 d 0, sb_size = read32 d 4, sb_nblocks = read32 d 8,
         sb_ninodes = read32 d 12, sb_nlog = read32 d 16, sb_logstart = read32 d 20,
         sb_inodestart = read32 d 24, sb_bmapstart = read32 d 28\<rparr>\<rparr>))
     (brelse bp)))"

definition fsinit :: "u32 \<Rightarrow> ('z kfs_scheme, unit) kop" where
  "fsinit dev =
     kseq (readsb dev)
     (kbind (kget sb) (\<lambda>x.
        if sb_magic x \<noteq> FSMAGIC then kpanic ''invalid file system''
        else initlog dev (sb_logstart x) (sb_nlog x)))"

subsection \<open>Blocks\<close>

definition bzero :: "u32 \<Rightarrow> u32 \<Rightarrow> ('z kfs_scheme, unit) kop" where
  "bzero dev bno =
     kbind (bread dev bno) (\<lambda>bp.
     kseq (bset bp (\<lambda>x. x\<lparr>b_data := memset (b_data x) 0 0 BSIZE\<rparr>))
     (kseq (log_write bp)
     (brelse bp)))"

text \<open>The bit of block \<open>bi\<close> in a bitmap block, through the mask \<open>m = 1 << (bi % 8)\<close>.\<close>

definition bitmap_free :: "bytes \<Rightarrow> nat \<Rightarrow> bool" where
  "bitmap_free d bi \<longleftrightarrow> d (of_nat (bi div 8)) AND push_bit (bi mod 8) 1 = 0"

definition bitmap_mark :: "bytes \<Rightarrow> nat \<Rightarrow> bytes" where
  "bitmap_mark d bi = d(of_nat (bi div 8) := d (of_nat (bi div 8)) OR push_bit (bi mod 8) 1)"

definition bitmap_clear :: "bytes \<Rightarrow> nat \<Rightarrow> bytes" where
  "bitmap_clear d bi = d(of_nat (bi div 8) := d (of_nat (bi div 8)) AND NOT (push_bit (bi mod 8) 1))"

text \<open>The inner loop of \<open>balloc\<close>, from \<open>bi\<close> on: \<open>for(bi = 0; bi < BPB && b + bi < sb.size; bi++)\<close>.\<close>

function bitmap_scan :: "bytes \<Rightarrow> nat \<Rightarrow> nat \<Rightarrow> nat \<Rightarrow> nat option" where
  "bitmap_scan d b n bi =
     (if bi < BPB \<and> b + bi < n then if bitmap_free d bi then Some bi else bitmap_scan d b n (bi + 1) else None)"
  by pat_completeness auto
termination
  by (relation "measure (\<lambda>(d, b, n, bi). BPB - bi)") auto

declare bitmap_scan.simps [simp del]

definition bitmap_find :: "bytes \<Rightarrow> nat \<Rightarrow> nat \<Rightarrow> nat option" where
  "bitmap_find d b n = bitmap_scan d b n 0"

text \<open>The message of \<open>balloc\<close> on a full disk is left out: the console belongs to a later record.\<close>

definition balloc :: "u32 \<Rightarrow> ('z kfs_scheme, u32) kop" where
  "balloc dev =
     kbind (kget sb) (\<lambda>x.
     kbind (kfind (map (\<lambda>k. k * BPB) [0..<(unat (sb_size x) + BPB - 1) div BPB]) (\<lambda>b.
        kbind (bread dev (BBLOCK b x)) (\<lambda>bp.
        kbind (bget_field bp b_data) (\<lambda>d.
          case bitmap_find d b (unat (sb_size x)) of
            Some bi \<Rightarrow>
              kseq (bset bp (\<lambda>y. y\<lparr>b_data := bitmap_mark (b_data y) bi\<rparr>))
              (kseq (log_write bp)
              (kseq (brelse bp)
              (kseq (bzero dev (of_nat (b + bi)))
              (kret (Some (of_nat (b + bi)))))))
          | None \<Rightarrow> kseq (brelse bp) (kret None)))))
     (\<lambda>r. kret (case r of Some v \<Rightarrow> v | None \<Rightarrow> 0)))"

definition bfree :: "u32 \<Rightarrow> u32 \<Rightarrow> ('z kfs_scheme, unit) kop" where
  "bfree dev b =
     kbind (kget sb) (\<lambda>x.
     kbind (bread dev (BBLOCK (unat b) x)) (\<lambda>bp.
     kbind (bget_field bp b_data) (\<lambda>d.
       let bi = unat b mod BPB
       in if bitmap_free d bi then kpanic ''freeing free block''
          else kseq (bset bp (\<lambda>y. y\<lparr>b_data := bitmap_clear (b_data y) bi\<rparr>))
            (kseq (log_write bp)
            (brelse bp)))))"

subsection \<open>Inodes\<close>

definition iinit :: "('z kfs_scheme, unit) kop" where
  "iinit = kseq (initlock ItableLock ''itable'')
     (kfor [0..<NINODE] (\<lambda>i. initsleeplock (InodeSleep i) ''inode''))"

definition iget :: "u32 \<Rightarrow> u32 \<Rightarrow> ('z kfs_scheme, nat) kop" where
  "iget dev inum =
     kseq (acquire ItableLock)
     (kbind (kget (\<lambda>s. find (\<lambda>i. i_ref (inodes s i) > 0 \<and> i_dev (inodes s i) = dev
            \<and> i_inum (inodes s i) = inum) [0..<NINODE])) (\<lambda>found. case found of
        Some ip \<Rightarrow>
          kseq (iset ip (\<lambda>x. x\<lparr>i_ref := i_ref x + 1\<rparr>))
          (kseq (release ItableLock) (kret ip))
      | None \<Rightarrow>
          kbind (kget (\<lambda>s. find (\<lambda>i. i_ref (inodes s i) = 0) [0..<NINODE])) (\<lambda>empty. case empty of
              None \<Rightarrow> kpanic ''iget: no inodes''
            | Some ip \<Rightarrow>
                kseq (iset ip (\<lambda>x. x\<lparr>i_dev := dev, i_inum := inum, i_ref := 1, i_valid := False\<rparr>))
                (kseq (release ItableLock) (kret ip)))))"

text \<open>The offset of an inode in its block, and of the fields of \<open>struct dinode\<close>.\<close>

definition dinode_off :: "u32 \<Rightarrow> u64" where
  "dinode_off inum = ucast (inum mod 16) * 64"

definition ialloc :: "u32 \<Rightarrow> u16 \<Rightarrow> ('z kfs_scheme, nat option) kop" where
  "ialloc dev type =
     kbind (kget sb) (\<lambda>x.
     kfind [1..<unat (sb_ninodes x)] (\<lambda>k.
       let inum = of_nat k; off = dinode_off inum
       in kbind (bread dev (IBLOCK inum x)) (\<lambda>bp.
          kbind (bget_field bp b_data) (\<lambda>d.
            if (read_le 2 d off :: u16) = 0
            then kseq (bset bp (\<lambda>y. y\<lparr>b_data := write_le 2 (memset (b_data y) off 0 64) off type\<rparr>))
                (kseq (log_write bp)
                (kseq (brelse bp)
                (kbind (iget dev inum) (\<lambda>ip. kret (Some ip)))))
            else kseq (brelse bp) (kret None)))))"

text \<open>\<open>struct dinode\<close> at offset \<open>off\<close> of a block, from and to an in-memory inode.\<close>

primrec write_addrs :: "bytes \<Rightarrow> u64 \<Rightarrow> (nat \<Rightarrow> u32) \<Rightarrow> nat \<Rightarrow> bytes" where
  "write_addrs d off a 0 = d"
| "write_addrs d off a (Suc n) = write32 (write_addrs d off a n) (off + 4 * of_nat n) (a n)"

definition dinode_store :: "bytes \<Rightarrow> u64 \<Rightarrow> inode \<Rightarrow> bytes" where
  "dinode_store d off x =
     (let d = write_le 2 d off (i_type x);
          d = write_le 2 d (off + 2) (i_major x);
          d = write_le 2 d (off + 4) (i_minor x);
          d = write_le 2 d (off + 6) (i_nlink x);
          d = write32 d (off + 8) (i_size x)
      in write_addrs d (off + 12) (i_addrs x) (NDIRECT + 1))"

definition dinode_load :: "bytes \<Rightarrow> u64 \<Rightarrow> inode \<Rightarrow> inode" where
  "dinode_load d off x = x\<lparr>i_type := read_le 2 d off, i_major := read_le 2 d (off + 2),
     i_minor := read_le 2 d (off + 4), i_nlink := read_le 2 d (off + 6), i_size := read32 d (off + 8),
     i_addrs := (\<lambda>i. if i \<le> NDIRECT then read32 d (off + 12 + 4 * of_nat i) else i_addrs x i)\<rparr>"

definition iupdate :: "nat \<Rightarrow> ('z kfs_scheme, unit) kop" where
  "iupdate ip =
     kbind (kget sb) (\<lambda>b.
     kbind (iget_field ip id) (\<lambda>x.
     kbind (bread (i_dev x) (IBLOCK (i_inum x) b)) (\<lambda>bp.
     kseq (bset bp (\<lambda>y. y\<lparr>b_data := dinode_store (b_data y) (dinode_off (i_inum x)) x\<rparr>))
     (kseq (log_write bp)
     (brelse bp)))))"

definition idup :: "nat \<Rightarrow> ('z kfs_scheme, nat) kop" where
  "idup ip =
     kseq (acquire ItableLock)
     (kseq (iset ip (\<lambda>x. x\<lparr>i_ref := i_ref x + 1\<rparr>))
     (kseq (release ItableLock)
     (kret ip)))"

definition ilock :: "nat \<Rightarrow> ('z kfs_scheme, unit) kop" where
  "ilock ip =
     kbind (iget_field ip i_ref) (\<lambda>r.
       if r < 1 then kpanic ''ilock''
       else kseq (acquiresleep (InodeSleep ip))
         (kbind (iget_field ip id) (\<lambda>x.
          kwhen (\<not> i_valid x)
            (kbind (kget sb) (\<lambda>b.
             kbind (bread (i_dev x) (IBLOCK (i_inum x) b)) (\<lambda>bp.
             kbind (bget_field bp b_data) (\<lambda>d.
             kseq (iset ip (dinode_load d (dinode_off (i_inum x))))
             (kseq (brelse bp)
             (kseq (iset ip (\<lambda>y. y\<lparr>i_valid := True\<rparr>))
             (kbind (iget_field ip i_type) (\<lambda>t.
              kwhen (t = 0) (kpanic ''ilock: no type''))))))))))))"

definition iunlock :: "nat \<Rightarrow> ('z kfs_scheme, unit) kop" where
  "iunlock ip =
     kbind (holdingsleep (InodeSleep ip)) (\<lambda>h.
     kbind (iget_field ip i_ref) (\<lambda>r.
       if \<not> h \<or> r < 1 then kpanic ''iunlock'' else releasesleep (InodeSleep ip)))"

subsection \<open>Contents of inodes\<close>

definition itrunc :: "nat \<Rightarrow> ('z kfs_scheme, unit) kop" where
  "itrunc ip =
     kseq (kfor [0..<NDIRECT] (\<lambda>i.
       kbind (iget_field ip id) (\<lambda>x.
       kwhen (i_addrs x i \<noteq> 0)
         (kseq (bfree (i_dev x) (i_addrs x i))
         (iset ip (\<lambda>y. y\<lparr>i_addrs := (i_addrs y)(i := 0)\<rparr>))))))
     (kseq (kbind (iget_field ip id) (\<lambda>x.
       kwhen (i_addrs x NDIRECT \<noteq> 0)
         (kbind (bread (i_dev x) (i_addrs x NDIRECT)) (\<lambda>bp.
          kseq (kfor [0..<NINDIRECT] (\<lambda>j.
            kbind (bget_field bp (\<lambda>b. read32 (b_data b) (4 * of_nat j))) (\<lambda>a.
            kwhen (a \<noteq> 0) (bfree (i_dev x) a))))
          (kseq (brelse bp)
          (kseq (bfree (i_dev x) (i_addrs x NDIRECT))
          (iset ip (\<lambda>y. y\<lparr>i_addrs := (i_addrs y)(NDIRECT := 0)\<rparr>))))))))
     (kseq (iset ip (\<lambda>y. y\<lparr>i_size := 0\<rparr>))
     (iupdate ip)))"

definition iput :: "nat \<Rightarrow> ('z kfs_scheme, unit) kop" where
  "iput ip =
     kseq (acquire ItableLock)
     (kbind (iget_field ip id) (\<lambda>x.
      kseq (kwhen (i_ref x = 1 \<and> i_valid x \<and> i_nlink x = 0)
        (kseq (acquiresleep (InodeSleep ip))
        (kseq (release ItableLock)
        (kseq (itrunc ip)
        (kseq (iset ip (\<lambda>y. y\<lparr>i_type := 0\<rparr>))
        (kseq (iupdate ip)
        (kseq (iset ip (\<lambda>y. y\<lparr>i_valid := False\<rparr>))
        (kseq (releasesleep (InodeSleep ip))
        (acquire ItableLock)))))))))
     (kseq (iset ip (\<lambda>y. y\<lparr>i_ref := i_ref y - 1\<rparr>))
     (release ItableLock))))"

definition iunlockput :: "nat \<Rightarrow> ('z kfs_scheme, unit) kop" where
  "iunlockput ip = kseq (iunlock ip) (iput ip)"

definition bmap :: "nat \<Rightarrow> nat \<Rightarrow> ('z kfs_scheme, u32) kop" where
  "bmap ip bn =
     kbind (iget_field ip id) (\<lambda>x.
       if bn < NDIRECT then
         if i_addrs x bn \<noteq> 0 then kret (i_addrs x bn)
         else kbind (balloc (i_dev x)) (\<lambda>addr.
           if addr = 0 then kret 0
           else kseq (iset ip (\<lambda>y. y\<lparr>i_addrs := (i_addrs y)(bn := addr)\<rparr>)) (kret addr))
       else if bn - NDIRECT < NINDIRECT then
         kbind (if i_addrs x NDIRECT \<noteq> 0 then kret (i_addrs x NDIRECT)
                else kbind (balloc (i_dev x)) (\<lambda>addr.
                  kseq (kwhen (addr \<noteq> 0) (iset ip (\<lambda>y. y\<lparr>i_addrs := (i_addrs y)(NDIRECT := addr)\<rparr>)))
                  (kret addr))) (\<lambda>ind.
           if ind = 0 then kret 0
           else kbind (bread (i_dev x) ind) (\<lambda>bp.
             kbind (bget_field bp (\<lambda>b. read32 (b_data b) (4 * of_nat (bn - NDIRECT)))) (\<lambda>a.
             kbind (if a \<noteq> 0 then kret a
                    else kbind (balloc (i_dev x)) (\<lambda>addr.
                      kseq (kwhen (addr \<noteq> 0)
                        (kseq (bset bp (\<lambda>b. b\<lparr>b_data := write32 (b_data b) (4 * of_nat (bn - NDIRECT)) addr\<rparr>))
                        (log_write bp)))
                      (kret addr))) (\<lambda>addr.
             kseq (brelse bp) (kret addr)))))
       else kpanic ''bmap: out of range'')"

record stat =
  st_dev :: u32
  st_ino :: u32
  st_type :: u16
  st_nlink :: u16
  st_size :: u64

definition stati :: "nat \<Rightarrow> ('z kfs_scheme, stat) kop" where
  "stati ip = iget_field ip (\<lambda>x. \<lparr>st_dev = i_dev x, st_ino = i_inum x, st_type = i_type x,
     st_nlink = i_nlink x, st_size = ucast (i_size x)\<rparr>)"

text \<open>The \<open>m\<close> of one iteration: what is left of the request and of the block.\<close>

definition block_chunk :: "nat \<Rightarrow> nat \<Rightarrow> nat" where
  "block_chunk left off = min left (BSIZE - off mod BSIZE)"

lemma block_chunk_pos: "0 < left \<Longrightarrow> 0 < block_chunk left off"
  by (simp add: block_chunk_def)

text \<open>
  \<open>left\<close> is \<open>n - tot\<close>; the result is \<open>tot\<close> (or -1) and the bytes that went to a kernel buffer.
\<close>

function readi_loop :: "nat \<Rightarrow> u64 option \<Rightarrow> nat \<Rightarrow> nat \<Rightarrow> int \<Rightarrow> u8 list
    \<Rightarrow> ('z kfs_scheme, int \<times> u8 list) kop" where
  "readi_loop ip dst off left tot acc =
     (if left = 0 then kret (tot, acc)
      else kbind (bmap ip (off div BSIZE)) (\<lambda>addr.
        if addr = 0 then kret (tot, acc)
        else kbind (iget_field ip i_dev) (\<lambda>dev.
          kbind (bread dev addr) (\<lambda>bp.
          kbind (bget_field bp (\<lambda>b. load_bytes (b_data b) (of_nat (off mod BSIZE)) (block_chunk left off))) (\<lambda>bs.
          kbind (case dst of None \<Rightarrow> kret 0 | Some a \<Rightarrow> either_copyout True a bs) (\<lambda>r.
            if r = - 1 then kseq (brelse bp) (kret (- 1, acc))
            else kseq (brelse bp)
              (readi_loop ip (case dst of None \<Rightarrow> None | Some a \<Rightarrow> Some (a + of_nat (block_chunk left off)))
                 (off + block_chunk left off) (left - block_chunk left off)
                 (tot + int (block_chunk left off)) (if dst = None then acc @ bs else acc))))))))"
  by pat_completeness auto
termination
  by (relation "measure (\<lambda>(_, _, _, left, _). left)") (auto simp: block_chunk_pos)

declare readi_loop.simps [simp del]

definition readi :: "nat \<Rightarrow> u64 option \<Rightarrow> u32 \<Rightarrow> u32 \<Rightarrow> ('z kfs_scheme, int \<times> u8 list) kop" where
  "readi ip dst off n =
     kbind (iget_field ip i_size) (\<lambda>sz.
       if off > sz \<or> off + n < off then kret (0, [])
       else let n' = (if off + n > sz then sz - off else n)
         in readi_loop ip dst (unat off) (unat n') 0 [])"

text \<open>The source of \<open>writei\<close>: a user address or the bytes of a kernel buffer.\<close>

datatype wsrc = USrc u64 | KSrc "u8 list"

fun wsrc_take :: "wsrc \<Rightarrow> nat \<Rightarrow> ('z kproc_scheme, int \<times> u8 list) kop" where
  "wsrc_take (USrc a) m = either_copyin True a m"
| "wsrc_take (KSrc bs) m = kret (0, take m bs)"

fun wsrc_advance :: "wsrc \<Rightarrow> nat \<Rightarrow> wsrc" where
  "wsrc_advance (USrc a) m = USrc (a + of_nat m)"
| "wsrc_advance (KSrc bs) m = KSrc (drop m bs)"

text \<open>
  The bytes that \<open>either_copyin\<close> got before it failed are in the buffer, too, but the buffer is
  not logged. The result is \<open>tot\<close> and the offset after the last block.
\<close>

function writei_loop :: "nat \<Rightarrow> wsrc \<Rightarrow> nat \<Rightarrow> nat \<Rightarrow> int \<Rightarrow> ('z kfs_scheme, int \<times> nat) kop" where
  "writei_loop ip src off left tot =
     (if left = 0 then kret (tot, off)
      else kbind (bmap ip (off div BSIZE)) (\<lambda>addr.
        if addr = 0 then kret (tot, off)
        else kbind (iget_field ip i_dev) (\<lambda>dev.
          kbind (bread dev addr) (\<lambda>bp.
          kbind (wsrc_take src (block_chunk left off)) (\<lambda>(r, bs).
          kseq (bset bp (\<lambda>b. b\<lparr>b_data := store_bytes (b_data b) (of_nat (off mod BSIZE)) bs\<rparr>))
          (if r = - 1 then kseq (brelse bp) (kret (tot, off))
           else kseq (log_write bp)
             (kseq (brelse bp)
             (writei_loop ip (wsrc_advance src (block_chunk left off)) (off + block_chunk left off)
                (left - block_chunk left off) (tot + int (block_chunk left off))))))))))"
  by pat_completeness auto
termination
  by (relation "measure (\<lambda>(_, _, _, left, _). left)") (auto simp: block_chunk_pos)

declare writei_loop.simps [simp del]

definition writei :: "nat \<Rightarrow> wsrc \<Rightarrow> u32 \<Rightarrow> u32 \<Rightarrow> ('z kfs_scheme, int) kop" where
  "writei ip src off n =
     kbind (iget_field ip i_size) (\<lambda>sz.
       if off > sz \<or> off + n < off then kret (- 1)
       else if unat (off + n) > MAXFILE * BSIZE then kret (- 1)
       else kbind (writei_loop ip src (unat off) (unat n) 0) (\<lambda>(tot, off').
         kseq (iset ip (\<lambda>x. if off' > unat (i_size x) then x\<lparr>i_size := of_nat off'\<rparr> else x))
         (kseq (iupdate ip) (kret tot))))"

subsection \<open>Directories\<close>

text \<open>The byte of a string at a position, zero from its end on.\<close>

abbreviation str_hd :: "u8 list \<Rightarrow> u8" where
  "str_hd s \<equiv> (case s of [] \<Rightarrow> 0 | c # _ \<Rightarrow> c)"

primrec strncmp_str :: "nat \<Rightarrow> u8 list \<Rightarrow> u8 list \<Rightarrow> int" where
  "strncmp_str 0 p q = 0"
| "strncmp_str (Suc n) p q =
     (if str_hd p \<noteq> 0 \<and> str_hd p = str_hd q then strncmp_str n (tl p) (tl q)
      else uint (str_hd p) - uint (str_hd q))"

definition namecmp :: "u8 list \<Rightarrow> u8 list \<Rightarrow> int" where
  "namecmp s t = strncmp_str DIRSIZ s t"

text \<open>\<open>strncpy\<close> into a field of \<open>n\<close> bytes.\<close>

definition strncpy_str :: "u8 list \<Rightarrow> nat \<Rightarrow> u8 list" where
  "strncpy_str t n = (let c = take n (takeWhile (\<lambda>b. b \<noteq> 0) t) in c @ replicate (n - length c) 0)"

text \<open>\<open>struct dirent\<close>: two bytes of i-number and the name.\<close>

definition de_inum :: "u8 list \<Rightarrow> u16" where
  "de_inum de = ucast (de ! 0) OR push_bit 8 (ucast (de ! 1))"

definition de_name :: "u8 list \<Rightarrow> u8 list" where
  "de_name de = drop 2 de"

definition de_make :: "u16 \<Rightarrow> u8 list \<Rightarrow> u8 list" where
  "de_make inum name = [ucast inum, ucast (drop_bit 8 inum)] @ strncpy_str name DIRSIZ"

abbreviation (input) de_size :: nat where "de_size \<equiv> 16"

text \<open>The offsets \<open>off = 0; off < dp->size; off += sizeof(de)\<close>.\<close>

definition de_offsets :: "u32 \<Rightarrow> nat list" where
  "de_offsets n = map (\<lambda>i. i * de_size) [0..<(unat n + de_size - 1) div de_size]"

definition dirlookup :: "nat \<Rightarrow> u8 list \<Rightarrow> ('z kfs_scheme, (nat \<times> nat) option) kop" where
  "dirlookup dp name =
     kbind (iget_field dp id) (\<lambda>x.
       if i_type x \<noteq> T_DIR then kpanic ''dirlookup not DIR''
       else kfind (de_offsets (i_size x)) (\<lambda>off.
         kbind (readi dp None (of_nat off) (of_nat de_size)) (\<lambda>(r, de).
           if r \<noteq> int de_size then kpanic ''dirlookup read''
           else if de_inum de \<noteq> 0 \<and> namecmp name (de_name de) = 0
           then kbind (iget (i_dev x) (ucast (de_inum de))) (\<lambda>ip. kret (Some (ip, off)))
           else kret None)))"

definition dirlink :: "nat \<Rightarrow> u8 list \<Rightarrow> u32 \<Rightarrow> ('z kfs_scheme, int) kop" where
  "dirlink dp name inum =
     kbind (dirlookup dp name) (\<lambda>found. case found of
       Some (ip, _) \<Rightarrow> kseq (iput ip) (kret (- 1))
     | None \<Rightarrow>
         kbind (iget_field dp i_size) (\<lambda>sz.
         kbind (kfind (de_offsets sz) (\<lambda>off.
           kbind (readi dp None (of_nat off) (of_nat de_size)) (\<lambda>(r, de).
             if r \<noteq> int de_size then kpanic ''dirlink read''
             else kret (if de_inum de = 0 then Some off else None)))) (\<lambda>slot.
         let off = (case slot of Some o' \<Rightarrow> o' | None \<Rightarrow> length (de_offsets sz) * de_size)
         in kbind (writei dp (KSrc (de_make (ucast inum) name)) (of_nat off) (of_nat de_size)) (\<lambda>r.
            kret (if r \<noteq> int de_size then - 1 else 0)))))"

subsection \<open>Paths\<close>

abbreviation slash :: u8 where "slash \<equiv> 47"

definition skipelem :: "u8 list \<Rightarrow> (u8 list \<times> u8 list) option" where
  "skipelem path =
     (let s = dropWhile (\<lambda>c. c = slash) path
      in if s = [] then None
         else let name = takeWhile (\<lambda>c. c \<noteq> slash) s
           in Some (dropWhile (\<lambda>c. c = slash) (dropWhile (\<lambda>c. c \<noteq> slash) s), take DIRSIZ name))"

lemma skipelem_shorter:
  assumes "skipelem path = Some (rest_path, name)"
  shows "length rest_path < length path"
proof -
  let ?s = "dropWhile (\<lambda>c. c = slash) path"
  have s: "?s \<noteq> []" and r: "rest_path = dropWhile (\<lambda>c. c = slash) (dropWhile (\<lambda>c. c \<noteq> slash) ?s)"
    using assms by (auto simp: skipelem_def Let_def split: if_splits)
  have "hd ?s \<noteq> slash" using s hd_dropWhile by blast
  then have "length (dropWhile (\<lambda>c. c \<noteq> slash) ?s) < length ?s"
    using s by (cases ?s) (auto intro: le_imp_less_Suc length_dropWhile_le)
  also have "\<dots> \<le> length path" by (rule length_dropWhile_le)
  finally show ?thesis using r length_dropWhile_le [of "\<lambda>c. c = slash" "dropWhile (\<lambda>c. c \<noteq> slash) ?s"] by simp
qed

text \<open>The result is the inode and, for \<open>nameiparent\<close>, the last path element.\<close>

function namex_loop :: "u8 list \<Rightarrow> bool \<Rightarrow> u8 list \<Rightarrow> nat \<Rightarrow> ('z kfs_scheme, (nat \<times> u8 list) option) kop" where
  "namex_loop path parent last_name ip =
     (case skipelem path of
        None \<Rightarrow> if parent then kseq (iput ip) (kret None) else kret (Some (ip, last_name))
      | Some (rest_path, name) \<Rightarrow>
          kseq (ilock ip)
          (kbind (iget_field ip i_type) (\<lambda>t.
             if t \<noteq> T_DIR then kseq (iunlockput ip) (kret None)
             else if parent \<and> rest_path = [] then kseq (iunlock ip) (kret (Some (ip, name)))
             else kbind (dirlookup ip name) (\<lambda>found. case found of
                 None \<Rightarrow> kseq (iunlockput ip) (kret None)
               | Some (nxt, _) \<Rightarrow> kseq (iunlockput ip) (namex_loop rest_path parent name nxt)))))"
  by pat_completeness auto
termination
  by (relation "measure (\<lambda>(path, _). length path)") (auto simp: skipelem_shorter)

declare namex_loop.simps [simp del]

definition namex :: "u8 list \<Rightarrow> bool \<Rightarrow> ('z kfs_scheme, (nat \<times> u8 list) option) kop" where
  "namex path parent =
     kbind (if str_hd path = slash then iget ROOTDEV ROOTINO
            else with_myproc (\<lambda>p. kbind (pget p cwd) (\<lambda>c. case c of None \<Rightarrow> kfault | Some ip \<Rightarrow> idup ip)))
     (namex_loop path parent [])"

definition namei :: "u8 list \<Rightarrow> ('z kfs_scheme, nat option) kop" where
  "namei path = kbind (namex path False) (\<lambda>r. kret (map_option fst r))"

definition nameiparent :: "u8 list \<Rightarrow> ('z kfs_scheme, (nat \<times> u8 list) option) kop" where
  "nameiparent path = namex path True"

end
