(* ===== verification/Fs_Data.thy ===== *)
theory Fs_Data
  imports Fs
begin

text \<open>
  The file system's data on disk, apart from how it gets there: inodes and directory entries are read
  back as they were written, the block bitmap, and path names compared with a reference definition that
  splits the whole path at once.
\<close>

subsection \<open>Fields of a block\<close>

lemma read_le_write_outside:
  assumes "\<And>x. in_region a n x \<Longrightarrow> \<not> in_region b k x"
  shows "read_le n (write_le k m b v) a = read_le n m a"
  using assms by (intro read_le_cong write_le_outside) blast

lemma read_write16 [simp]: "read_le 2 (write_le 2 m a v) a = (v :: u16)"
  by (simp add: read_write_le_take take_bit_word_eq_self)

lemma region_index:
  "in_region (off + of_nat k) n x \<longleftrightarrow> (\<exists>u < n. u < 2 ^ 64 \<and> x = off + of_nat (k + u))"
proof
  assume "in_region (off + of_nat k) n x"
  then have "unat (x - (off + of_nat k)) < n" by (simp add: in_region_def)
  moreover have "x = off + of_nat (k + unat (x - (off + of_nat k)))" by (simp add: algebra_simps)
  ultimately show "\<exists>u < n. u < 2 ^ 64 \<and> x = off + of_nat (k + u)"
    using unat_u64_less by blast
next
  assume "\<exists>u < n. u < 2 ^ 64 \<and> x = off + of_nat (k + u)"
  then obtain u where "u < n" "u < 2 ^ 64" "x = off + of_nat (k + u)" by blast
  then show "in_region (off + of_nat k) n x" by (simp add: in_region_def unat_of_nat64 algebra_simps)
qed

lemma region_sub:
  assumes "in_region (off + of_nat k) n x" and "k + n \<le> N" and "N < 2 ^ 64"
  shows "in_region off N x"
proof -
  from assms(1) obtain u where u: "u < n" "x = off + of_nat (k + u)" by (auto simp: region_index)
  then show ?thesis using in_region_offset_iff [of "k + u" off N] assms(2,3) by simp
qed

lemma region_apart:
  assumes "in_region (off + of_nat i) n x" and "i + n \<le> j" and "j + k < 2 ^ 64"
  shows "\<not> in_region (off + of_nat j) k x"
proof
  from assms(1) obtain u where u: "u < n" "x = off + of_nat (i + u)" by (auto simp: region_index)
  assume "in_region (off + of_nat j) k x"
  then obtain v where v: "v < k" "x = off + of_nat (j + v)" by (auto simp: region_index)
  have "(of_nat (i + u) :: u64) = of_nat (j + v)" using u(2) v(2) by simp
  then have "i + u = j + v" using u(1) v(1) assms(2,3) by (subst (asm) of_nat_eq64) simp_all
  with u(1) assms(2) show False by simp
qed

lemma read_write_apart:
  assumes "i + n \<le> j \<or> j + k \<le> i" and "i + n < 2 ^ 64" and "j + k < 2 ^ 64"
  shows "read_le n (write_le k m (off + of_nat j) v) (off + of_nat i) = read_le n m (off + of_nat i)"
  using assms by (intro read_le_write_outside) (metis region_apart)

lemma addr_slot: "off + 4 * of_nat n = (off + of_nat (4 * n) :: u64)"
  by simp

lemma write_addrs_outside:
  assumes "\<not> in_region off (4 * n) x" and "n < 2 ^ 60"
  shows "write_addrs d off a n x = d x"
  using assms
proof (induction n)
  case 0
  then show ?case by simp
next
  case (Suc n)
  have "\<not> in_region (off + of_nat (4 * n)) 4 x"
    using region_sub [of off "4 * n" 4 x "4 * Suc n"] Suc.prems by auto
  moreover have "\<not> in_region off (4 * n) x" using Suc.prems(1) by (auto simp: in_region_def)
  ultimately show ?case using Suc.IH Suc.prems(2) by (simp add: write_le_outside)
qed

lemma write_addrs_read:
  assumes "i < n" and "n < 2 ^ 60"
  shows "read32 (write_addrs d off a n) (off + 4 * of_nat i) = a i"
  using assms
proof (induction n)
  case 0
  then show ?case by simp
next
  case (Suc n)
  show ?case
  proof (cases "i = n")
    case True
    then show ?thesis by simp
  next
    case False
    then have "read32 (write32 (write_addrs d off a n) (off + of_nat (4 * n)) (a n)) (off + of_nat (4 * i))
        = read32 (write_addrs d off a n) (off + of_nat (4 * i))"
      using Suc.prems by (intro read_write_apart) auto
    then show ?thesis using Suc.IH False Suc.prems by simp
  qed
qed

subsection \<open>Inodes\<close>

lemma dinode_store_outside:
  assumes "\<not> in_region off 64 x"
  shows "dinode_store d off i x = d x"
proof -
  have "\<not> in_region (off + of_nat k) n x" if "k + n \<le> 64" for k n
    using assms region_sub [of off k n x 64] that by auto
  from this [of 0 2] this [of 2 2] this [of 4 2] this [of 6 2] this [of 8 4] this [of 12 52] show ?thesis
    by (simp add: dinode_store_def Let_def write_addrs_outside write_le_outside del: write_addrs.simps)
qed

lemma dinode_store_addr:
  "k \<le> NDIRECT \<Longrightarrow> read32 (dinode_store d off x) (off + 12 + 4 * of_nat k) = i_addrs x k"
  by (simp add: dinode_store_def Let_def write_addrs_read del: write_addrs.simps)

lemma dinode_store_header:
  assumes "k + n \<le> 12"
  shows "read_le n (dinode_store d off x) (off + of_nat k)
    = read_le n (write32 (write_le 2 (write_le 2 (write_le 2 (write_le 2 d off (i_type x)) (off + 2) (i_major x))
        (off + 4) (i_minor x)) (off + 6) (i_nlink x)) (off + 8) (i_size x)) (off + of_nat k)"
proof -
  have "\<not> in_region (off + 12) 52 y" if "in_region (off + of_nat k) n y" for y
    using region_apart [OF that, of 12 52] assms by simp
  then show ?thesis unfolding dinode_store_def Let_def
    by (intro read_le_cong) (simp add: write_addrs_outside del: write_addrs.simps)
qed

lemmas field_apart = read_write_apart [of 0 2 2 2, simplified] read_write_apart [of 0 2 4 2, simplified]
  read_write_apart [of 0 2 6 2, simplified] read_write_apart [of 0 2 8 4, simplified]
  read_write_apart [of 2 2 4 2, simplified] read_write_apart [of 2 2 6 2, simplified]
  read_write_apart [of 2 2 8 4, simplified] read_write_apart [of 4 2 6 2, simplified]
  read_write_apart [of 4 2 8 4, simplified] read_write_apart [of 6 2 8 4, simplified]

lemmas header_at = dinode_store_header [of 0 2, simplified] dinode_store_header [of 2 2, simplified]
  dinode_store_header [of 4 2, simplified] dinode_store_header [of 6 2, simplified]
  dinode_store_header [of 8 4, simplified]

lemma dinode_store_fields:
  "read_le 2 (dinode_store d off x) off = i_type x"
  "read_le 2 (dinode_store d off x) (off + 2) = i_major x"
  "read_le 2 (dinode_store d off x) (off + 4) = i_minor x"
  "read_le 2 (dinode_store d off x) (off + 6) = i_nlink x"
  "read32 (dinode_store d off x) (off + 8) = i_size x"
  by (simp_all only: header_at field_apart read_write16 read_write32)

lemma dinode_read_cong:
  assumes "\<And>x. in_region off 64 x \<Longrightarrow> d x = d' x" and "k + n \<le> 64"
  shows "read_le n d (off + of_nat k) = read_le n d' (off + of_nat k)"
  using assms region_sub [of off k n _ 64] by (intro read_le_cong) auto

lemma dinode_load_cong:
  assumes "\<And>x. in_region off 64 x \<Longrightarrow> d x = d' x"
  shows "dinode_load d off y = dinode_load d' off y"
proof -
  note r = dinode_read_cong [of off d d', OF assms]
  have "read32 d (off + 12 + 4 * of_nat k) = read32 d' (off + 12 + 4 * of_nat k)" if "k \<le> NDIRECT" for k
    using dinode_read_cong [of off d d' "12 + 4 * k" 4, where ?'a = 32] assms that by (simp add: algebra_simps)
  then show ?thesis
    using r [of 0 2, where ?'a = 16] r [of 2 2, where ?'a = 16] r [of 4 2, where ?'a = 16]
      r [of 6 2, where ?'a = 16] r [of 8 4, where ?'a = 32]
    by (simp add: dinode_load_def fun_eq_iff)
qed

lemma dinode_off_apart:
  assumes "i mod 16 \<noteq> j mod 16" and "in_region (dinode_off j) 64 x"
  shows "\<not> in_region (dinode_off i) 64 x"
proof -
  have off: "dinode_off k = 0 + of_nat (64 * (unat k mod 16))" for k
  proof -
    have "unat (k mod 16) = unat k mod 16" by (simp add: unat_mod)
    moreover have "ucast (k mod 16) = (of_nat (unat (k mod 16)) :: u64)" by transfer simp
    ultimately have "ucast (k mod 16) = (of_nat (unat k mod 16) :: u64)" by (simp only:)
    then show ?thesis by (simp add: dinode_off_def)
  qed
  have ne: "unat i mod 16 \<noteq> unat j mod 16" using assms(1) by (simp add: word_unat_eq_iff unat_mod)
  have lt: "unat i mod 16 < 16" "unat j mod 16 < 16" by simp_all
  have reg: "in_region (0 + of_nat (64 * (unat j mod 16))) 64 x" using assms(2) by (simp only: off)
  consider "unat i mod 16 < unat j mod 16" | "unat j mod 16 < unat i mod 16" using ne by linarith
  then show ?thesis
  proof cases
    case 1
    show ?thesis
    proof
      assume "in_region (dinode_off i) 64 x"
      then have "in_region (0 + of_nat (64 * (unat i mod 16))) 64 x" by (simp only: off)
      moreover have "64 * (unat i mod 16) + 64 \<le> 64 * (unat j mod 16)" "64 * (unat j mod 16) + 64 < 2 ^ 64"
        using 1 lt by simp_all
      ultimately show False using region_apart reg by blast
    qed
  next
    case 2
    then have "64 * (unat j mod 16) + 64 \<le> 64 * (unat i mod 16)" "64 * (unat i mod 16) + 64 < 2 ^ 64"
      using lt by simp_all
    then show ?thesis using region_apart [OF reg] unfolding off by blast
  qed
qed

text \<open>
  An inode that \<open>iupdate\<close> stores in its block is loaded by \<open>ilock\<close> with the same type, device numbers, link
  count, size and block addresses; the other fifteen inodes of the block are loaded as before.
\<close>

lemma dinode_roundtrip:
  "dinode_load (dinode_store d (dinode_off i) x) (dinode_off j) y =
    (if i mod 16 = j mod 16
     then y\<lparr>i_type := i_type x, i_major := i_major x, i_minor := i_minor x, i_nlink := i_nlink x,
            i_size := i_size x, i_addrs := (\<lambda>k. if k \<le> NDIRECT then i_addrs x k else i_addrs y k)\<rparr>
     else dinode_load d (dinode_off j) y)"
proof (cases "i mod 16 = j mod 16")
  case True
  then have "dinode_off i = dinode_off j" by (simp add: dinode_off_def)
  then show ?thesis using True
    by (simp add: dinode_load_def dinode_store_fields dinode_store_addr cong: if_cong)
next
  case False
  then show ?thesis
    using dinode_load_cong [of "dinode_off j" "dinode_store d (dinode_off i) x" d y] dinode_off_apart [OF False]
    by (simp add: dinode_store_outside)
qed

subsection \<open>The block bitmap\<close>

lemma bitmap_same_byte:
  assumes "i < BPB" and "j < BPB"
  shows "(of_nat (i div 8) :: u64) = of_nat (j div 8) \<longleftrightarrow> i div 8 = j div 8"
  using assms by (intro of_nat_eq64) simp_all

lemma bitmap_free_bit: "bitmap_free d bi \<longleftrightarrow> \<not> bit (d (of_nat (bi div 8))) (bi mod 8)"
proof -
  have "bit (w AND push_bit k 1) j \<longleftrightarrow> bit w k \<and> j = k" if "k < 8" for w :: u8 and j k
    using that by (auto simp: bit_simps)
  then have "w AND push_bit k 1 = 0 \<longleftrightarrow> \<not> bit w k" if "k < 8" for w :: u8 and k
    using that by (metis bit_0_eq bit_eq_iff bot_apply bot_bool_def)
  then show ?thesis by (simp add: bitmap_free_def)
qed

lemma bitmap_scan_first:
  "case bitmap_scan d b n bi of
     Some i \<Rightarrow> bi \<le> i \<and> i < BPB \<and> b + i < n \<and> bitmap_free d i \<and> (\<forall>j. bi \<le> j \<and> j < i \<longrightarrow> \<not> bitmap_free d j)
   | None \<Rightarrow> (\<forall>j. bi \<le> j \<and> j < BPB \<and> b + j < n \<longrightarrow> \<not> bitmap_free d j)"
proof (induction d b n bi rule: bitmap_scan.induct)
  case (1 d b n bi)
  have split: "bi \<le> j \<longleftrightarrow> j = bi \<or> bi + 1 \<le> j" for j by auto
  show ?case
  proof (cases "bi < BPB \<and> b + bi < n \<and> \<not> bitmap_free d bi")
    case True
    then have "bitmap_scan d b n bi = bitmap_scan d b n (bi + 1)" by (simp add: bitmap_scan.simps [of d b n bi])
    then show ?thesis using 1 True split by (auto split: option.splits)
  next
    case False
    then show ?thesis by (subst bitmap_scan.simps) auto
  qed
qed

lemma bitmap_free_mark:
  assumes "i < BPB" and "j < BPB"
  shows "bitmap_free (bitmap_mark d i) j \<longleftrightarrow> j \<noteq> i \<and> bitmap_free d j"
proof -
  have "i = j \<longleftrightarrow> i div 8 = j div 8 \<and> i mod 8 = j mod 8" by (metis mod_mult_div_eq)
  then show ?thesis using bitmap_same_byte [OF assms]
    by (auto simp: bitmap_free_bit bitmap_mark_def bit_simps)
qed

lemma bitmap_free_clear:
  assumes "i < BPB" and "j < BPB"
  shows "bitmap_free (bitmap_clear d i) j \<longleftrightarrow> j = i \<or> bitmap_free d j"
proof -
  have "i = j \<longleftrightarrow> i div 8 = j div 8 \<and> i mod 8 = j mod 8" by (metis mod_mult_div_eq)
  then show ?thesis using bitmap_same_byte [OF assms]
    by (auto simp: bitmap_free_bit bitmap_clear_def bit_simps)
qed

lemma bitmap_clear_mark:
  assumes "bitmap_free d i"
  shows "bitmap_clear (bitmap_mark d i) i = d"
proof -
  have "\<not> bit (d (of_nat (i div 8))) (i mod 8)" using assms by (simp add: bitmap_free_bit)
  then have "(d (of_nat (i div 8)) OR push_bit (i mod 8) 1) AND NOT (push_bit (i mod 8) 1) = d (of_nat (i div 8))"
    by (intro bit_word_eqI) (auto simp: bit_simps)
  then show ?thesis by (simp add: bitmap_clear_def bitmap_mark_def)
qed

text \<open>
  C33 (bounds). The block \<open>balloc\<close> picks in a bitmap block is inside the bitmap block and inside the file
  system, was free, and is the first such; marking it takes exactly that block out of the free ones, and
  \<open>bfree\<close>'s clearing of its bit restores the bitmap. When no block is picked every block the
  bitmap block covers is in use.
\<close>

theorem bitmap_find_first_free:
  "case bitmap_find d b n of
     Some bi \<Rightarrow> bi < BPB \<and> b + bi < n \<and> bitmap_free d bi \<and> (\<forall>j. j < bi \<longrightarrow> \<not> bitmap_free d j)
       \<and> (\<forall>j < BPB. bitmap_free (bitmap_mark d bi) j \<longleftrightarrow> j \<noteq> bi \<and> bitmap_free d j)
       \<and> bitmap_clear (bitmap_mark d bi) bi = d
   | None \<Rightarrow> (\<forall>j. j < BPB \<and> b + j < n \<longrightarrow> \<not> bitmap_free d j)"
  using bitmap_scan_first [where d = d and b = b and n = n and bi = 0] bitmap_clear_mark
  by (auto simp: bitmap_find_def bitmap_free_mark split: option.splits)

theorem bitmap_find_first_free_witness:
  "bitmap_find (\<lambda>a. if a = 0 then 0xFF else 0x03) 0 12 = Some 10
   \<and> bitmap_clear (bitmap_mark (\<lambda>a. if a = 0 then 0xFF else 0x03) 10) 10 = (\<lambda>a. if a = 0 then 0xFF else 0x03)"
proof -
  let ?d = "\<lambda>a :: u64. if a = 0 then 0xFF else 0x03 :: u8"
  have "bitmap_find ?d 0 12 = Some 10" by (simp add: bitmap_find_def bitmap_scan.simps bitmap_free_def)
  then show ?thesis using bitmap_find_first_free [where d = ?d and b = 0 and n = 12] by simp
qed

subsection \<open>Directory entries\<close>

text \<open>What a directory keeps of a name: its bytes before the terminating zero, at most \<open>DIRSIZ\<close>.\<close>

definition dirname :: "u8 list \<Rightarrow> u8 list" where
  "dirname s = take DIRSIZ (takeWhile (\<lambda>c. c \<noteq> 0) s)"

lemma strncmp_str_eq:
  "strncmp_str n p q = 0 \<longleftrightarrow> take n (takeWhile (\<lambda>c. c \<noteq> 0) p) = take n (takeWhile (\<lambda>c. c \<noteq> 0) q)"
proof (induction n arbitrary: p q)
  case 0
  then show ?case by simp
next
  case (Suc n)
  show ?case
    by (cases p; cases q) (auto simp: Suc word_uint_eq_iff [symmetric] simp flip: unsigned_eq_0_iff)
qed

lemma takeWhile_pad:
  "\<forall>c \<in> set s. c \<noteq> (0 :: u8) \<Longrightarrow> takeWhile (\<lambda>c. c \<noteq> 0) (s @ replicate k 0) = s"
  by (cases k) (simp_all add: takeWhile_append2)

lemma de_name_make: "dirname (de_name (de_make inum name)) = dirname name"
proof -
  let ?c = "take DIRSIZ (takeWhile (\<lambda>c. c \<noteq> 0) name)"
  have "\<forall>c \<in> set ?c. c \<noteq> 0" by (auto dest: in_set_takeD set_takeWhileD)
  then have "takeWhile (\<lambda>c. c \<noteq> 0) (?c @ replicate k 0) = ?c" for k by (rule takeWhile_pad)
  moreover have "de_name (de_make inum name) = ?c @ replicate (14 - length ?c) 0"
    by (simp add: de_name_def de_make_def strncpy_str_def Let_def)
  ultimately show ?thesis by (simp only: dirname_def) simp
qed

lemma de_inum_make: "de_inum (de_make inum name) = inum"
proof -
  have "ucast (ucast inum :: u8) OR push_bit 8 (ucast (ucast (drop_bit 8 inum) :: u8)) = inum"
    by (rule bit_word_eqI) (auto simp: bit_simps not_le dest: bit_imp_le_length)
  then show ?thesis by (simp add: de_inum_def de_make_def)
qed

lemma length_de_make: "length (de_make inum name) = 16"
  by (simp add: de_make_def strncpy_str_def Let_def)

text \<open>
  A directory entry made by \<open>dirlink\<close> has sixteen bytes and is found by \<open>dirlookup\<close>'s comparison
  under exactly the names that agree with the linked one up to \<open>DIRSIZ\<close> bytes, and it
  carries the i-number that was linked; \<open>namecmp\<close> is equality of names as the directory keeps them.
\<close>

theorem dirent_lookup:
  "length (de_make inum name) = 16 \<and> de_inum (de_make inum name) = inum
   \<and> (namecmp q (de_name (de_make inum name)) = 0 \<longleftrightarrow> dirname q = dirname name)
   \<and> (namecmp q name = 0 \<longleftrightarrow> dirname q = dirname name)"
  using de_name_make [of inum name]
  by (simp add: length_de_make de_inum_make namecmp_def strncmp_str_eq dirname_def)

subsection \<open>Paths\<close>

text \<open>A path split at every slash.\<close>

fun split_slash :: "u8 list \<Rightarrow> u8 list list" where
  "split_slash [] = [[]]"
| "split_slash (c # cs) =
     (if c = slash then [] # split_slash cs
      else (case split_slash cs of [] \<Rightarrow> [[c]] | e # es \<Rightarrow> (c # e) # es))"

lemma split_slash_ne [simp]: "split_slash p \<noteq> []"
  by (induction p) (auto split: list.splits)

definition path_names :: "u8 list \<Rightarrow> u8 list list" where
  "path_names path = map (take DIRSIZ) (filter (\<lambda>e. e \<noteq> []) (split_slash path))"

text \<open>The elements \<open>skipelem\<close> gives one after the other, as \<open>namex\<close> asks for them.\<close>

function skip_all :: "u8 list \<Rightarrow> u8 list list" where
  "skip_all path = (case skipelem path of None \<Rightarrow> [] | Some (rest_path, name) \<Rightarrow> name # skip_all rest_path)"
  by pat_completeness auto
termination
  by (relation "measure length") (auto simp: skipelem_shorter)

declare skip_all.simps [simp del]

lemma path_names_slashes: "path_names (dropWhile (\<lambda>c. c = slash) p) = path_names p"
  by (induction p) (auto simp: path_names_def)

lemma split_slash_elem:
  "split_slash p = takeWhile (\<lambda>c. c \<noteq> slash) p #
     (case dropWhile (\<lambda>c. c \<noteq> slash) p of [] \<Rightarrow> [] | _ # cs \<Rightarrow> split_slash cs)"
  by (induction p) auto

lemma path_names_elem:
  assumes "p \<noteq> []" and "hd p \<noteq> slash"
  shows "path_names p = take DIRSIZ (takeWhile (\<lambda>c. c \<noteq> slash) p) # path_names (dropWhile (\<lambda>c. c \<noteq> slash) p)"
proof -
  let ?r = "dropWhile (\<lambda>c. c \<noteq> slash) p"
  have ne: "takeWhile (\<lambda>c. c \<noteq> slash) p \<noteq> []" using assms by (cases p) auto
  have "filter (\<lambda>e. e \<noteq> []) (split_slash ?r)
      = filter (\<lambda>e. e \<noteq> []) (case ?r of [] \<Rightarrow> [] | _ # cs \<Rightarrow> split_slash cs)"
  proof (cases ?r)
    case (Cons c cs)
    then have "c = slash" using hd_dropWhile [of "\<lambda>c. c \<noteq> slash" p] by auto
    then show ?thesis by (simp add: Cons)
  next
    case Nil
    show ?thesis unfolding Nil by simp
  qed
  then show ?thesis unfolding path_names_def by (subst split_slash_elem) (use ne in simp)
qed

text \<open>
  Asking \<open>skipelem\<close> for one element after the other, as \<open>namex\<close> does, ends and gives
  exactly the non-empty pieces between slashes, in order, each cut to \<open>DIRSIZ\<close> bytes.
\<close>

theorem skipelem_splits_path: "skip_all path = path_names path"
proof (induction path rule: skip_all.induct)
  case (1 path)
  let ?s = "dropWhile (\<lambda>c. c = slash) path"
  show ?case
  proof (cases "?s = []")
    case True
    have "path_names [] = []" by (simp add: path_names_def)
    then have "path_names path = []" using path_names_slashes [of path] unfolding True by simp
    then show ?thesis using True by (subst skip_all.simps) (simp add: skipelem_def)
  next
    case False
    let ?r = "dropWhile (\<lambda>c. c \<noteq> slash) ?s"
    have sk: "skipelem path = Some (dropWhile (\<lambda>c. c = slash) ?r, take DIRSIZ (takeWhile (\<lambda>c. c \<noteq> slash) ?s))"
      using False by (simp add: skipelem_def Let_def)
    have "hd ?s \<noteq> slash" using False hd_dropWhile by blast
    then have "path_names path = take DIRSIZ (takeWhile (\<lambda>c. c \<noteq> slash) ?s) # path_names ?r"
      using path_names_elem [OF False] path_names_slashes [of path] by simp
    then show ?thesis using 1 [OF sk refl] sk path_names_slashes [of ?r] by (subst skip_all.simps) simp
  qed
qed

end
