(* ===== verification/Disk_Run.thy ===== *)
theory Disk_Run
  imports Virtio
begin

text \<open>
  Running the sleep locks and the disk driver for a process that has the file system to itself
  (\<open>quiet\<close>): every spinlock is free and no process sleeps in the file system. Under these conditions the
  routines run to their end, and what they do is an equation between states. \<open>vd_set\<close> collects the
  fields of the driver that a transfer changes and that nothing else looks at.
\<close>

named_theorems quiet_run

fun fs_chan :: "chan \<Rightarrow> bool" where
  "fs_chan (BufChan _) = True"
| "fs_chan (InodeChan _) = True"
| "fs_chan DiskChan = True"
| "fs_chan (DiskBufChan _) = True"
| "fs_chan LogChan = True"
| "fs_chan _ = False"

definition quiet :: "nat \<Rightarrow> 'z kproc_scheme \<Rightarrow> bool" where
  "quiet p s \<longleftrightarrow> machine_ok s \<and> myproc s = Some p \<and> noff (mycpu s) = 0 \<and> (\<forall>l. lock_free l s)
     \<and> (\<forall>i < NPROC. p_state (procs s i) = SLEEPING \<longrightarrow> (\<forall>c. p_chan (procs s i) = Some c \<longrightarrow> \<not> fs_chan c))"

lemma quietD:
  assumes "quiet p s"
  shows "machine_ok s" and "myproc s = Some p" and "noff (mycpu s) = 0" and "lock_free l s"
  using assms by (simp_all add: quiet_def)

fun proc_lock :: "lock_id \<Rightarrow> bool" where
  "proc_lock (ProcLock _) = True"
| "proc_lock _ = False"

lemma wakeup_quiet [quiet_run]:
  assumes "quiet p s" and "fs_chan c" and "\<not> proc_lock l"
  shows "wakeup c (hold l s) = Done () (hold l s)" and "wakeup c s = Done () s"
proof -
  have same: "(\<lambda>i. if i < NPROC \<and> Some i \<noteq> myproc s then wake c (procs s i) else procs s i) = procs s"
    using assms(1,2) by (auto simp: quiet_def wake_def fun_eq_iff)
  have "ptable_free s" using assms(1) by (simp add: quiet_def ptable_free_def)
  from wakeup_run [OF this, of c] show "wakeup c s = Done () s" by (simp add: same)
  have ph: "procs (hold l s) = procs s" by (simp add: hold_def)
  have pl: "l \<noteq> ProcLock i" for i using assms(3) by auto
  have "ptable_free (hold l s)" using assms(1) pl [symmetric]
    by (simp add: quiet_def ptable_free_def machine_ok_hold)
  note w = wakeup_run [OF this, of c, unfolded ph hold_simps(6) same]
  have "(hold l s)\<lparr>procs := procs s\<rparr> = hold l s" by (simp add: hold_def)
  with w show "wakeup c (hold l s) = Done () (hold l s)" by simp
qed

lemma acquire_quiet [quiet_run]: "quiet p s \<Longrightarrow> acquire l s = Done () (hold l s)"
  by (rule acquire_ok) (simp add: quietD)

lemma release_quiet [quiet_run]: "quiet p s \<Longrightarrow> release l (hold l s) = Done () s"
  by (rule release_hold_same) (simp_all add: quietD)

subsection \<open>Sleep locks\<close>

lemma sleeplocks_hold [simp]:
  "sleeplocks (hold l s) = sleeplocks s"
  "sleeplocks_update f (hold l s) = hold l (sleeplocks_update f s)"
  "quiet p (sleeplocks_update f s) = quiet p s"
  by (simp_all add: hold_def quiet_def machine_ok_def myproc_def cpu_defs)

definition sl_take :: "sleep_id \<Rightarrow> int \<Rightarrow> 'z ksleep_scheme \<Rightarrow> 'z ksleep_scheme" where
  "sl_take l pid s = s\<lparr>sleeplocks := (sleeplocks s)(l := (sleeplocks s l)\<lparr>sl_locked := True, sl_pid := pid\<rparr>)\<rparr>"

definition sl_drop :: "sleep_id \<Rightarrow> 'z ksleep_scheme \<Rightarrow> 'z ksleep_scheme" where
  "sl_drop l s = s\<lparr>sleeplocks := (sleeplocks s)(l := (sleeplocks s l)\<lparr>sl_locked := False, sl_pid := 0\<rparr>)\<rparr>"

lemma sl_lk_not_proc [simp]: "\<not> proc_lock (sl_lk l)" "fs_chan (sl_chan l)"
  by (cases l; simp)+

lemma slset_run [simp]: "slset l f s = Done () (s\<lparr>sleeplocks := (sleeplocks s)(l := f (sleeplocks s l))\<rparr>)"
  by (simp add: slset_def)

lemma acquiresleep_run [quiet_run]:
  assumes "quiet p s" and "\<not> sl_locked (sleeplocks s l)"
  shows "acquiresleep l s = Done () (sl_take l (p_pid (procs s p)) s)"
  using assms quietD(2) [OF assms(1)]
  by (simp add: acquiresleep_def acquiresleep_loop_def kseq_run kbind_run with_myproc_def
      acquire_quiet release_quiet sl_take_def pget_def)

lemma releasesleep_run [quiet_run]:
  assumes "quiet p s"
  shows "releasesleep l s = Done () (sl_drop l s)"
  using assms
  by (simp add: releasesleep_def kseq_run acquire_quiet release_quiet sl_drop_def wakeup_quiet(1) [where p = p])

lemma holdingsleep_run [quiet_run]:
  assumes "quiet p s"
  shows "holdingsleep l s =
    Done (sl_locked (sleeplocks s l) \<and> sl_pid (sleeplocks s l) = p_pid (procs s p)) s"
  using assms quietD(2) [OF assms]
  by (simp add: holdingsleep_def kseq_run kbind_run with_myproc_def acquire_quiet release_quiet pget_def)

subsection \<open>The driver\<close>

lemma kvirtio_hold [simp]:
  "bufs (hold l s) = bufs s" "vd_desc (hold l s) = vd_desc s" "vd_avail_idx (hold l s) = vd_avail_idx s"
  "vd_avail_ring (hold l s) = vd_avail_ring s" "vd_used_idx (hold l s) = vd_used_idx s" "vd_used_ring (hold l s) = vd_used_ring s"
  "vd_free (hold l s) = vd_free s" "vd_seen (hold l s) = vd_seen s" "vd_info_b (hold l s) = vd_info_b s"
  "vd_info_status (hold l s) = vd_info_status s" "vd_ops (hold l s) = vd_ops s" "dev_seen (hold l s) = dev_seen s"
  "mmio (hold l s) = mmio s" "disk (hold l s) = disk s" "disk_writes (hold l s) = disk_writes s"
  by (simp_all add: hold_def)

lemma kvirtio_update_hold [simp]:
  "bufs_update f1 (hold l s) = hold l (bufs_update f1 s)" "vd_desc_update f2 (hold l s) = hold l (vd_desc_update f2 s)" "vd_avail_idx_update f3 (hold l s) = hold l (vd_avail_idx_update f3 s)"
  "vd_avail_ring_update f4 (hold l s) = hold l (vd_avail_ring_update f4 s)" "vd_used_idx_update f5 (hold l s) = hold l (vd_used_idx_update f5 s)" "vd_used_ring_update f6 (hold l s) = hold l (vd_used_ring_update f6 s)"
  "vd_free_update f7 (hold l s) = hold l (vd_free_update f7 s)" "vd_seen_update f8 (hold l s) = hold l (vd_seen_update f8 s)" "vd_info_b_update f9 (hold l s) = hold l (vd_info_b_update f9 s)"
  "vd_info_status_update f10 (hold l s) = hold l (vd_info_status_update f10 s)" "vd_ops_update f11 (hold l s) = hold l (vd_ops_update f11 s)" "dev_seen_update f12 (hold l s) = hold l (dev_seen_update f12 s)"
  "mmio_update f13 (hold l s) = hold l (mmio_update f13 s)" "disk_update f14 (hold l s) = hold l (disk_update f14 s)" "disk_writes_update f15 (hold l s) = hold l (disk_writes_update f15 s)"
  by (simp_all add: hold_def cpu_defs)

lemma kvirtio_update_quiet [simp]:
  "quiet p (bufs_update f16 s) = quiet p s" "quiet p (vd_desc_update f17 s) = quiet p s" "quiet p (vd_avail_idx_update f18 s) = quiet p s"
  "quiet p (vd_avail_ring_update f19 s) = quiet p s" "quiet p (vd_used_idx_update f20 s) = quiet p s" "quiet p (vd_used_ring_update f21 s) = quiet p s"
  "quiet p (vd_free_update f22 s) = quiet p s" "quiet p (vd_seen_update f23 s) = quiet p s" "quiet p (vd_info_b_update f24 s) = quiet p s"
  "quiet p (vd_info_status_update f25 s) = quiet p s" "quiet p (vd_ops_update f26 s) = quiet p s" "quiet p (dev_seen_update f27 s) = quiet p s"
  "quiet p (mmio_update f28 s) = quiet p s" "quiet p (disk_update f29 s) = quiet p s" "quiet p (disk_writes_update f30 s) = quiet p s"
  by (simp_all add: quiet_def machine_ok_def myproc_def cpu_defs)

lemma bset_run [simp]: "bset b f s = Done () (s\<lparr>bufs := (bufs s)(b := f (bufs s b))\<rparr>)"
  and bget_field_run [simp]: "bget_field b g s = Done (g (bufs s b)) s"
  by (simp_all add: bset_def bget_field_def)

text \<open>No request is under way and every descriptor is free and clear.\<close>

abbreviation clear_desc :: virtq_desc where
  "clear_desc \<equiv> \<lparr>d_addr = NoAddr, d_len = 0, d_flags = 0, d_next = 0\<rparr>"

definition vq_idle :: "'z kvirtio_scheme \<Rightarrow> bool" where
  "vq_idle s \<longleftrightarrow> (\<forall>i < NUM. vd_free s i \<and> vd_desc s i = clear_desc \<and> vd_info_b s i = None)
     \<and> vd_avail_idx s = dev_seen s \<and> vd_used_idx s = vd_seen s"

record vdrv =
  r_ops :: "nat \<Rightarrow> virtio_blk_req"
  r_avail_idx :: u16
  r_avail_ring :: "nat \<Rightarrow> u16"
  r_used_idx :: u16
  r_used_ring :: "nat \<Rightarrow> u32"
  r_seen :: u16
  r_info_status :: "nat \<Rightarrow> u8"
  r_dev_seen :: u16
  r_mmio :: "(u64 \<times> u32) list"

definition vd_set :: "vdrv \<Rightarrow> 'z kvirtio_scheme \<Rightarrow> 'z kvirtio_scheme" where
  "vd_set v s = s\<lparr>vd_ops := r_ops v, vd_avail_idx := r_avail_idx v, vd_avail_ring := r_avail_ring v,
     vd_used_idx := r_used_idx v, vd_used_ring := r_used_ring v, vd_seen := r_seen v,
     vd_info_status := r_info_status v, dev_seen := r_dev_seen v, mmio := r_mmio v\<rparr>"

text \<open>The disk block a request for block \<open>bn\<close> reaches: the sector number is computed in 32 bits.\<close>

definition disk_block :: "u32 \<Rightarrow> u32" where
  "disk_block bn = ucast (ucast (bn * 2) div 2 :: u64)"

lemma disk_block_small:
  assumes "bn < 2 ^ 31"
  shows "disk_block bn = bn"
proof -
  have "unat bn < 2 ^ 31" using assms by (simp add: word_less_nat_alt)
  then have "unat (bn * 2) = unat bn * 2" by (simp add: unat_mult_lem [THEN iffD1] unat_word_ariths)
  moreover have "unat (ucast w :: u64) = unat w" for w :: u32
    using unsigned_less [where 'a = nat and w = w] by (simp add: unsigned_ucast_eq take_bit_nat_eq_self)
  ultimately have half: "unat (ucast (bn * 2) div 2 :: u64) = unat bn" by (simp add: unat_div)
  have "unat (ucast (ucast (bn * 2) div 2 :: u64) :: u32) = take_bit 32 (unat (ucast (bn * 2) div 2 :: u64))"
    by (simp add: unsigned_ucast_eq unsigned_take_bit_eq)
  then show ?thesis unfolding disk_block_def half
    using \<open>unat bn < 2 ^ 31\<close> by (simp add: word_unat_eq_iff take_bit_nat_eq_self)
qed

lemma sector_pos:
  shows "of_nat (512 * unat (ucast (bn * 2) :: u64) div BSIZE) = disk_block bn"
    and "512 * unat (ucast (bn * 2) :: u64) mod BSIZE = 0"
proof -
  have u: "unat (ucast w :: u64) = unat w" for w :: u32
    using unsigned_less [where 'a = nat and w = w] by (simp add: unsigned_ucast_eq take_bit_nat_eq_self)
  have "even (unat (bn * 2))" by (simp add: unat_word_ariths dvd_mod)
  then obtain k where k: "unat (bn * 2) = 2 * k" by (elim evenE)
  have half: "unat (ucast (bn * 2) div 2 :: u64) = k" using k u [of "bn * 2"] by (simp add: unat_div)
  have "disk_block bn = of_nat (unat (ucast (bn * 2) div 2 :: u64))"
    by (simp add: disk_block_def unsigned_ucast_eq)
  then show "of_nat (512 * unat (ucast (bn * 2) :: u64) div BSIZE) = disk_block bn"
    "512 * unat (ucast (bn * 2) :: u64) mod BSIZE = 0"
    using half k u [of "bn * 2"] by simp_all
qed

lemma disk_log_block: "pos mod BSIZE = 0 \<Longrightarrow> disk_log pos BSIZE D = [(of_nat (pos div BSIZE), D (of_nat (pos div BSIZE)))]"
proof -
  assume "pos mod BSIZE = 0"
  then obtain k where "pos = BSIZE * k" by auto
  then show ?thesis by (simp add: disk_log_def div_add1_eq)
qed

definition rw_effect :: "nat \<Rightarrow> bool \<Rightarrow> 'z kvirtio_scheme \<Rightarrow> 'z kvirtio_scheme" where
  "rw_effect b w s = (let x = bufs s b; bn = disk_block (b_blockno x) in
     if w
     then s\<lparr>bufs := (bufs s)(b := x\<lparr>b_disk := False\<rparr>), disk := (disk s)(bn := b_data x),
            disk_writes := disk_writes s @ [(bn, b_data x)]\<rparr>
     else s\<lparr>bufs := (bufs s)(b := x\<lparr>b_data := disk s bn, b_disk := False\<rparr>)\<rparr>)"

lemma find_free:
  assumes "\<forall>i < NUM. vd_free s i"
  shows "alloc3_desc s = Done (Some (0, 1, 2)) (s\<lparr>vd_free := (vd_free s)(0 := False, 1 := False, 2 := False)\<rparr>)"
  using assms
  by (simp add: alloc3_desc_def alloc_desc_def kbind_run upt_conv_Cons) (simp add: numeral_2_eq_2)

definition submitted :: "nat \<Rightarrow> bool \<Rightarrow> 'z kvirtio_scheme \<Rightarrow> 'z kvirtio_scheme" where
  "submitted b w s = s\<lparr>
     bufs := (bufs s)(b := (bufs s b)\<lparr>b_disk := True\<rparr>),
     vd_desc := (vd_desc s)(
       0 := \<lparr>d_addr = OpAddr 0, d_len = 16, d_flags = 1, d_next = 1\<rparr>,
       1 := \<lparr>d_addr = DataAddr b, d_len = 1024, d_flags = (if w then 0 else 2) OR 1, d_next = 2\<rparr>,
       2 := \<lparr>d_addr = StatusAddr 0, d_len = 1, d_flags = 2, d_next = 0\<rparr>),
     vd_avail_idx := vd_avail_idx s + 1,
     vd_avail_ring := (vd_avail_ring s)(unat (vd_avail_idx s) mod NUM := 0),
     vd_info_b := (vd_info_b s)(0 := Some b),
     vd_info_status := (vd_info_status s)(0 := 0xff),
     vd_ops := (vd_ops s)(0 := \<lparr>req_type = (if w then 1 else 0), req_reserved = 0,
       req_sector = ucast (b_blockno (bufs s b) * 2)\<rparr>),
     mmio := mmio s @ [(0x50, 0)]\<rparr>"

lemma virtio_submit_run: "virtio_submit b w 0 1 2 s = Done () (submitted b w s)"
  by (simp add: virtio_submit_def submitted_def kbind_run kseq_run reg_write_def fun_upd_twist)

lemma device_run_submitted:
  assumes "vd_avail_idx s = dev_seen s"
  shows "device_run (submitted b w s) = device_request (submitted b w s)"
  using assms by (simp add: device_run_def submitted_def)

lemma device_request_submitted:
  assumes "vd_avail_idx s = dev_seen s"
  shows "device_request (submitted b w s) = (let u = submitted b w s; bn = disk_block (b_blockno (bufs s b)) in
    (if w then u\<lparr>disk := (disk s)(bn := b_data (bufs s b)), disk_writes := disk_writes s @ [(bn, b_data (bufs s b))]\<rparr>
     else u\<lparr>bufs := (bufs s)(b := (bufs s b)\<lparr>b_disk := True, b_data := disk s bn\<rparr>)\<rparr>)
    \<lparr>vd_info_status := (vd_info_status s)(0 := 0), vd_used_ring := (vd_used_ring s)(unat (vd_used_idx s) mod NUM := 0),
     vd_used_idx := vd_used_idx s + 1, dev_seen := dev_seen s + 1\<rparr>)"
proof -
  have ok: "request_ok \<lparr>req_type = if w then 1 else 0, req_reserved = 0, req_sector = x\<rparr>
      \<lparr>d_addr = OpAddr 0, d_len = 16, d_flags = 1, d_next = 1\<rparr>
      \<lparr>d_addr = DataAddr b, d_len = 1024, d_flags = (if w then 0 else 2) OR 1, d_next = 2\<rparr>
      \<lparr>d_addr = StatusAddr 0, d_len = 1, d_flags = 2, d_next = 0\<rparr>" for x
    by (simp add: request_ok_def desc_flag_def)
  note p = sector_pos [of "b_blockno (bufs s b)"]
  have get: "disk_get (512 * unat (ucast (b_blockno (bufs s b) * 2) :: u64)) BSIZE (disk s) y = disk s (disk_block (b_blockno (bufs s b)))" for y
    using p by (simp only: disk_get_def) simp
  have put: "disk_put (512 * unat (ucast (b_blockno (bufs s b) * 2) :: u64)) BSIZE y (disk s)
      = (disk s)(disk_block (b_blockno (bufs s b)) := y)" for y
    using p by (simp only: disk_put_def) simp
  show ?thesis
    using assms disk_log_block [OF p(2)] p(1) ok
    by (simp add: device_request_def submitted_def Let_def get put)
qed

lemma submitted_simps [simp]:
  "submitted b w (hold l s) = hold l (submitted b w s)"
  "quiet p (submitted b w s) = quiet p s"
  by (simp_all add: submitted_def)

definition served :: "nat \<Rightarrow> bool \<Rightarrow> 'z kvirtio_scheme \<Rightarrow> 'z kvirtio_scheme" where
  "served b w s = (let u = device_request (submitted b w s)
     in u\<lparr>bufs := (bufs u)(b := (bufs u b)\<lparr>b_disk := False\<rparr>), vd_seen := vd_seen s + 1\<rparr>)"

lemma device_run_hold:
  assumes "vd_avail_idx s = dev_seen s"
  shows "device_run (hold l (submitted b w s)) = hold l (device_request (submitted b w s))"
  using device_run_submitted [of "hold l s" b w] device_request_submitted [of "hold l s" b w]
    device_request_submitted [of s b w] assms
  by (simp add: Let_def)

lemma virtio_intr_served:
  assumes "quiet p s" and "vd_avail_idx s = dev_seen s" and "vd_used_idx s = vd_seen s"
  shows "virtio_intr_work (hold VdiskLock (device_request (submitted b w s)))
    = Done () (hold VdiskLock (served b w s))"
  using assms
  by (simp add: virtio_intr_work_def served_def device_request_submitted Let_def)
    (simp add: submitted_def kseq_run wakeup_quiet(1) [where p = p])

lemma sleep_and_return_quiet:
  assumes "quiet p s" and "\<not> proc_lock l"
  shows "sleep_and_return c l (hold l s) = Done () (hold l s)"
proof -
  have ok: "machine_ok (hold l s)" "myproc (hold l s) = Some p" "lock_free (ProcLock p) (hold l s)"
    "holding l (hold l s)" "l \<noteq> ProcLock p" "noff (mycpu (hold l s)) = 1"
    using assms quietD [OF assms(1)] by (auto simp: machine_ok_hold)
  have "(sleep c l (hold l s) :: (_, unit) outcome) = Block (Some c) (asleep p c l (hold l s))"
    using sleep_run [OF ok(1-5)] ok(6) by simp
  then show ?thesis by (simp add: sleep_and_return_def)
qed

lemma served_simps [simp]:
  "b_disk (bufs (served b w s) b) = False"
  by (simp add: served_def Let_def)

lemma virtio_wait_run:
  assumes "quiet p s" and "vd_avail_idx s = dev_seen s" and "vd_used_idx s = vd_seen s"
  shows "virtio_wait b (hold VdiskLock (submitted b w s)) = Done () (hold VdiskLock (served b w s))"
  using assms
  by (simp add: virtio_wait_def kseq_run kbind_run sleep_and_return_quiet [where p = p] device_run_hold
      virtio_intr_served [where p = p])

lemma free_desc_quiet:
  assumes "quiet p s" and "i < NUM" and "\<not> vd_free s i"
  shows "free_desc i (hold VdiskLock s) = Done () (hold VdiskLock
    (s\<lparr>vd_desc := (vd_desc s)(i := clear_desc), vd_free := (vd_free s)(i := True)\<rparr>))"
  using assms by (simp add: free_desc_def kseq_run wakeup_quiet(1) [where p = p])

lemma free_chain_run:
  assumes "quiet p s" and "\<not> vd_free s 0" and "\<not> vd_free s 1" and "\<not> vd_free s 2"
    and "vd_desc s 0 = \<lparr>d_addr = a0, d_len = l0, d_flags = 1, d_next = 1\<rparr>"
    and "vd_desc s 1 = \<lparr>d_addr = a1, d_len = l1, d_flags = f1, d_next = 2\<rparr>" and "f1 AND 1 \<noteq> 0"
    and "vd_desc s 2 = \<lparr>d_addr = a2, d_len = l2, d_flags = 2, d_next = 0\<rparr>"
  shows "free_chain 0 (hold VdiskLock s) = Done () (hold VdiskLock
    (s\<lparr>vd_desc := (vd_desc s)(0 := clear_desc, 1 := clear_desc, 2 := clear_desc),
       vd_free := (vd_free s)(0 := True, 1 := True, 2 := True)\<rparr>))"
proof -
  have "free_chain_loop (Suc (Suc (Suc n))) 0 (hold VdiskLock s) = Done () (hold VdiskLock
    (s\<lparr>vd_desc := (vd_desc s)(0 := clear_desc, 1 := clear_desc, 2 := clear_desc),
       vd_free := (vd_free s)(0 := True, 1 := True, 2 := True)\<rparr>))" for n
    using assms by (simp add: kbind_run kseq_run free_desc_quiet [where p = p])
  from this [of 6] show ?thesis by (simp add: free_chain_def)
qed

lemma virtio_disk_rw_run [quiet_run]:
  assumes "quiet p s" and "vq_idle s"
  obtains v where "virtio_disk_rw b w s = Done () (vd_set v (rw_effect b w s))"
    and "vq_idle (vd_set v (rw_effect b w s))"
proof -
  let ?f = "(vd_free s)(0 := False, 1 := False, 2 := False)"
  define s' where "s' = s\<lparr>vd_free := ?f\<rparr>"
  define u where "u = served b w s'"
  let ?v = "\<lparr>r_ops = vd_ops u, r_avail_idx = vd_avail_idx u, r_avail_ring = vd_avail_ring u,
    r_used_idx = vd_used_idx u, r_used_ring = vd_used_ring u, r_seen = vd_seen u,
    r_info_status = vd_info_status u, r_dev_seen = dev_seen u, r_mmio = mmio u\<rparr>"
  have idle: "\<forall>i < NUM. vd_free s i" "vd_avail_idx s = dev_seen s" "vd_used_idx s = vd_seen s"
    "vd_desc s 0 = clear_desc" "vd_desc s 1 = clear_desc" "vd_desc s 2 = clear_desc" "vd_info_b s 0 = None"
    using assms(2) by (simp_all add: vq_idle_def)
  have q: "quiet p s'" using assms(1) by (simp add: s'_def)
  have uf: "vd_free u = ?f" "vd_info_b u = (vd_info_b s)(0 := Some b)"
    "vd_desc u = vd_desc (submitted b w s')" "quiet p u"
    using q idle(2) by (simp_all add: u_def served_def device_request_submitted Let_def s'_def) (simp_all add: submitted_def)
  have desc: "vd_desc u = (vd_desc s)(0 := \<lparr>d_addr = OpAddr 0, d_len = 16, d_flags = 1, d_next = 1\<rparr>,
       1 := \<lparr>d_addr = DataAddr b, d_len = 1024, d_flags = (if w then 0 else 2) OR 1, d_next = 2\<rparr>,
       2 := \<lparr>d_addr = StatusAddr 0, d_len = 1, d_flags = 2, d_next = 0\<rparr>)"
    unfolding uf(3) by (simp add: submitted_def s'_def)
  let ?x = "u\<lparr>vd_info_b := (vd_info_b u)(0 := None)\<rparr>"
  let ?t = "?x\<lparr>vd_desc := (vd_desc ?x)(0 := clear_desc, 1 := clear_desc, 2 := clear_desc),
      vd_free := (vd_free ?x)(0 := True, 1 := True, 2 := True)\<rparr>"
  have "free_chain 0 (hold VdiskLock ?x) = Done () (hold VdiskLock ?t)"
    using uf(1,4) desc by (intro free_chain_run [where p = p]) (auto split: if_splits)
  moreover have "virtio_wait b (hold VdiskLock (submitted b w s')) = Done () (hold VdiskLock u)"
    using q idle(2,3) unfolding u_def by (intro virtio_wait_run) (simp_all add: s'_def)
  ultimately have run: "virtio_disk_rw b w s = Done () ?t"
    using assms(1) idle(1) uf(4) find_free [of "hold VdiskLock s"] virtio_submit_run [of b w "hold VdiskLock s'"]
    by (simp add: virtio_disk_rw_def s'_def kseq_run kbind_run acquire_quiet release_quiet)
  have "(vd_desc ?x)(0 := clear_desc, 1 := clear_desc, 2 := clear_desc) = vd_desc s"
    "(vd_free ?x)(0 := True, 1 := True, 2 := True) = vd_free s" "(vd_info_b u)(0 := None) = vd_info_b s"
    using idle by (auto simp: desc uf(1,2) fun_eq_iff)
  then have "?t = u\<lparr>vd_info_b := vd_info_b s, vd_desc := vd_desc s, vd_free := vd_free s\<rparr>" by simp
  also have "\<dots> = vd_set ?v (rw_effect b w s)"
    using idle(2)
    by (simp add: vd_set_def rw_effect_def u_def s'_def served_def device_request_submitted Let_def)
      (cases s, simp add: submitted_def)
  finally have t: "?t = vd_set ?v (rw_effect b w s)" .
  moreover have "vq_idle (vd_set ?v (rw_effect b w s))"
    using assms(2) by (simp add: vq_idle_def vd_set_def rw_effect_def u_def s'_def served_def device_request_submitted Let_def)
      (simp add: submitted_def)
  ultimately show thesis using run that by metis
qed

end
