(* ===== verification/Bcache.thy ===== *)
theory Bcache
  imports Bio Disk_Run
begin

text \<open>
  The buffer cache is transparent: the list of buffers stays a circular doubly linked list in the order
  of last use, a block has at most one buffer, and what \<open>bread\<close> returns for a block is its
  current contents (\<open>view\<close>): those of the buffer that caches it, or those of the disk.
\<close>

subsection \<open>The doubly linked list\<close>

text \<open>\<open>linked B a xs z\<close>: following \<open>next\<close> from \<open>a\<close> visits \<open>xs\<close> and then \<open>z\<close>, and \<open>prev\<close> leads back.\<close>

fun linked :: "(nat \<Rightarrow> buf) \<Rightarrow> nat \<Rightarrow> nat list \<Rightarrow> nat \<Rightarrow> bool" where
  "linked B a [] z \<longleftrightarrow> b_next (B a) = z \<and> b_prev (B z) = a"
| "linked B a (x # xs) z \<longleftrightarrow> b_next (B a) = x \<and> b_prev (B x) = a \<and> linked B x xs z"

lemma linked_append:
  "linked B a (xs @ y # ys) z \<longleftrightarrow> linked B a xs y \<and> linked B y ys z"
  by (induction xs arbitrary: a) auto

lemma linked_cong:
  assumes "\<And>x. x = a \<or> x \<in> set xs \<Longrightarrow> b_next (B x) = b_next (C x)"
    and "\<And>x. x = z \<or> x \<in> set xs \<Longrightarrow> b_prev (B x) = b_prev (C x)"
  shows "linked B a xs z = linked C a xs z"
  using assms by (induction xs arbitrary: a) auto

lemma linked_ends:
  assumes "linked B a xs z"
  shows "b_next (B a) = hd (xs @ [z])" and "b_prev (B z) = last (a # xs)"
  using assms by (induction xs arbitrary: a) auto

lemma scan_next_run:
  assumes "linked (bufs s) a xs bhead" and "bhead \<notin> set xs" and "length xs \<le> n"
  shows "scan_next n P (b_next (bufs s a)) s = Done (find (\<lambda>b. P (bufs s b)) xs) s"
  using assms
proof (induction xs arbitrary: a n)
  case Nil
  then show ?case by (simp add: scan_next.simps)
next
  case (Cons x xs)
  then obtain m where n: "n = Suc m" by (cases n) auto
  show ?case using Cons.IH [of x m] Cons.prems by (subst scan_next.simps) (auto simp: n)
qed

lemma scan_prev_run:
  assumes "linked (bufs s) bhead xs z" and "bhead \<notin> set xs" and "length xs \<le> n"
  shows "scan_prev n P (b_prev (bufs s z)) s = Done (find (\<lambda>b. P (bufs s b)) (rev xs)) s"
  using assms
proof (induction xs arbitrary: z n rule: rev_induct)
  case Nil
  then show ?case by (simp add: scan_prev.simps)
next
  case (snoc x xs)
  then obtain m where n: "n = Suc m" by (cases n) auto
  have l: "linked (bufs s) bhead xs x" "b_prev (bufs s z) = x"
    using snoc.prems(1) by (auto simp: linked_append)
  show ?case using snoc.IH [OF l(1), of m] l(2) snoc.prems by (subst scan_prev.simps) (auto simp: n)
qed

text \<open>Taking \<open>b\<close> out of the list and putting it first, as \<open>brelse\<close> does.\<close>

definition unlinked :: "nat \<Rightarrow> (nat \<Rightarrow> buf) \<Rightarrow> (nat \<Rightarrow> buf)" where
  "unlinked b B =
     (let n = b_next (B b); p = b_prev (B b); B1 = B(n := (B n)\<lparr>b_prev := p\<rparr>) in B1(p := (B1 p)\<lparr>b_next := n\<rparr>))"

definition linked_first :: "nat \<Rightarrow> (nat \<Rightarrow> buf) \<Rightarrow> (nat \<Rightarrow> buf)" where
  "linked_first b B =
     (let f = b_next (B bhead); B1 = B(b := (B b)\<lparr>b_next := f, b_prev := bhead\<rparr>); B2 = B1(f := (B1 f)\<lparr>b_prev := b\<rparr>)
      in B2(bhead := (B2 bhead)\<lparr>b_next := b\<rparr>))"

lemma link_first_run: "link_first b s = Done () (s\<lparr>bufs := linked_first b (bufs s)\<rparr>)"
  by (simp add: link_first_def linked_first_def kbind_run kseq_run Let_def)

abbreviation adjacent :: "(nat \<Rightarrow> buf) \<Rightarrow> nat \<Rightarrow> nat \<Rightarrow> bool" where
  "adjacent B x y \<equiv> b_next (B x) = y \<and> b_prev (B y) = x"

lemma linked_successively: "linked B a xs z \<longleftrightarrow> successively (adjacent B) (a # xs @ [z])"
  by (induction xs arbitrary: a) (auto simp: successively_Cons)

lemma successively_upd:
  assumes "successively (adjacent B) zs" and "distinct zs"
    and "\<And>x. x \<in> set (butlast zs) \<Longrightarrow> b_next (C x) = b_next (B x)"
    and "\<And>y. y \<in> set (tl zs) \<Longrightarrow> b_prev (C y) = b_prev (B y)"
  shows "successively (adjacent C) zs"
proof (unfold successively_conv_nth, intro allI impI)
  fix i assume i: "Suc i < length zs"
  then have "zs ! i \<in> set (butlast zs)" by (metis Suc_lessD length_butlast less_diff_conv nth_butlast nth_mem Suc_eq_plus1)
  moreover have "zs ! Suc i \<in> set (tl zs)" using i by (metis Suc_lessE length_tl nth_mem nth_tl diff_Suc_1 less_diff_conv Suc_eq_plus1)
  moreover have "adjacent B (zs ! i) (zs ! Suc i)" using assms(1) i by (simp add: successively_conv_nth)
  ultimately show "adjacent C (zs ! i) (zs ! Suc i)" using assms(3,4) by simp
qed

lemma butlast_last_notin: "distinct zs \<Longrightarrow> zs \<noteq> [] \<Longrightarrow> last zs \<notin> set (butlast zs)"
  by (metis append_butlast_last_id distinct_butlast not_distinct_conv_prefix distinct_append
      disjoint_iff list.set_intros(1))

lemma hd_tl_notin: "distinct zs \<Longrightarrow> zs \<noteq> [] \<Longrightarrow> hd zs \<notin> set (tl zs)"
  by (cases zs) auto

lemma unlinked_links:
  assumes "linked B h (xs @ b # ys) h" and "distinct (h # xs @ b # ys)"
  shows "linked (unlinked b B) h (xs @ ys) h"
proof -
  define n p where "n = hd (ys @ [h])" and "p = last (h # xs)"
  have l: "linked B h xs b" "linked B b ys h" using assms(1) by (simp_all add: linked_append)
  note e = linked_ends(1) [OF l(2)] linked_ends(2) [OF l(1)]
  let ?C = "unlinked b B"
  have C: "?C = (B(n := (B n)\<lparr>b_prev := p\<rparr>))(p := ((B(n := (B n)\<lparr>b_prev := p\<rparr>)) p)\<lparr>b_next := n\<rparr>)"
    using e by (simp add: unlinked_def Let_def n_def p_def)
  have nx: "b_next (?C x) = (if x = p then n else b_next (B x))"
    and pv: "b_prev (?C x) = (if x = n then p else b_prev (B x))" for x by (simp_all add: C)
  have p: "p \<in> set (h # xs)" "p \<notin> set (butlast (h # xs))" and n: "n \<in> set (ys @ [h])" "n \<notin> set (tl (ys @ [h]))"
    using butlast_last_notin [of "h # xs"] hd_tl_notin [of "ys @ [h]"] assms(2) last_in_set [of "h # xs"]
    by (auto simp: p_def n_def hd_append split: list.splits)
  have "successively (adjacent B) (h # xs)" "successively (adjacent B) (ys @ [h])"
    using l by (auto simp: linked_successively successively_append_iff successively_Cons)
  note sub = this
  have dist: "distinct (h # xs)" "distinct (ys @ [h])" using assms(2) by auto
  have "successively (adjacent ?C) (h # xs)"
  proof (rule successively_upd [OF sub(1) dist(1)])
    show "b_next (?C x) = b_next (B x)" if "x \<in> set (butlast (h # xs))" for x using that p(2) by (auto simp: nx)
    show "b_prev (?C y) = b_prev (B y)" if "y \<in> set (tl (h # xs))" for y
      using that n(1) assms(2) by (auto simp: pv)
  qed
  moreover have "successively (adjacent ?C) (ys @ [h])"
  proof (rule successively_upd [OF sub(2) dist(2)])
    show "b_next (?C x) = b_next (B x)" if "x \<in> set (butlast (ys @ [h]))" for x
      using that p(1) assms(2) by (auto simp: nx)
    show "b_prev (?C y) = b_prev (B y)" if "y \<in> set (tl (ys @ [h]))" for y using that n(2) by (auto simp: pv)
  qed
  moreover have "adjacent ?C (last (h # xs)) (hd (ys @ [h]))" using nx pv by (simp add: n_def p_def)
  ultimately have "successively (adjacent ?C) ((h # xs) @ (ys @ [h]))" by (subst successively_append_iff) simp
  then show ?thesis by (simp add: linked_successively)
qed

lemma linked_first_links:
  assumes "linked B bhead xs bhead" and "distinct (bhead # b # xs)"
  shows "linked (linked_first b B) bhead (b # xs) bhead"
proof -
  define f where "f = hd (xs @ [bhead])"
  let ?C = "linked_first b B"
  have f: "b_next (B bhead) = f" using linked_ends(1) [OF assms(1)] by (simp add: f_def)
  have fb: "f \<noteq> b" "f \<notin> set (tl (xs @ [bhead]))"
    using assms(2) hd_tl_notin [of "xs @ [bhead]"] by (auto simp: f_def hd_append split: list.splits)
  have nx: "b_next (?C x) = (if x = bhead then b else if x = b then f else b_next (B x))"
    and pv: "b_prev (?C x) = (if x = f then b else if x = b then bhead else b_prev (B x))" for x
    using fb assms(2) by (auto simp: linked_first_def f Let_def)
  have "successively (adjacent B) (xs @ [bhead])" using assms(1) by (simp add: linked_successively successively_Cons)
  then have "successively (adjacent ?C) (xs @ [bhead])"
  proof (rule successively_upd)
    show "distinct (xs @ [bhead])" using assms(2) by auto
    show "b_next (?C x) = b_next (B x)" if "x \<in> set (butlast (xs @ [bhead]))" for x
      using that assms(2) by (auto simp: nx)
    show "b_prev (?C y) = b_prev (B y)" if "y \<in> set (tl (xs @ [bhead]))" for y
    proof -
      have "y \<in> set (xs @ [bhead])" using that by (rule list.set_sel(2) [rotated]) simp
      then show ?thesis using that fb assms(2) by (auto simp: pv)
    qed
  qed
  moreover have "adjacent ?C b (hd (xs @ [bhead]))" "adjacent ?C bhead b"
    using assms(2) fb by (auto simp: nx pv f_def)
  ultimately show ?thesis unfolding linked_successively by (simp add: successively_Cons)
qed

subsection \<open>What the buffers hold\<close>

text \<open>
  \<open>contents_ok d B D\<close>: every buffer in use is for a block of device \<open>d\<close>, a block has at most one buffer,
  and a valid buffer that nobody uses has the contents of the disk, so that it can be recycled.
\<close>

definition contents_ok :: "u32 \<Rightarrow> (nat \<Rightarrow> buf) \<Rightarrow> (u32 \<Rightarrow> bytes) \<Rightarrow> bool" where
  "contents_ok d B D \<longleftrightarrow>
     (\<forall>i < NBUF. if b_dev (B i) = 0 then \<not> b_valid (B i) \<and> b_refcnt (B i) = 0
        else b_dev (B i) = d \<and> b_blockno (B i) < 2 ^ 31) \<and>
     (\<forall>i < NBUF. \<forall>j < NBUF. b_dev (B i) \<noteq> 0 \<and> b_dev (B j) \<noteq> 0 \<and> b_blockno (B i) = b_blockno (B j) \<longrightarrow> i = j) \<and>
     (\<forall>i < NBUF. b_refcnt (B i) = 0 \<and> b_valid (B i) \<longrightarrow> b_data (B i) = D (b_blockno (B i)))"

lemma contents_okD:
  assumes "contents_ok d B D" and "i < NBUF"
  shows "b_dev (B i) = 0 \<Longrightarrow> \<not> b_valid (B i) \<and> b_refcnt (B i) = 0"
    and "b_dev (B i) \<noteq> 0 \<Longrightarrow> b_dev (B i) = d \<and> b_blockno (B i) < 2 ^ 31"
    and "j < NBUF \<Longrightarrow> b_dev (B i) \<noteq> 0 \<Longrightarrow> b_dev (B j) \<noteq> 0 \<Longrightarrow> b_blockno (B i) = b_blockno (B j) \<Longrightarrow> i = j"
    and "b_refcnt (B i) = 0 \<Longrightarrow> b_valid (B i) \<Longrightarrow> b_data (B i) = D (b_blockno (B i))"
  using assms unfolding contents_ok_def by (metis, metis, metis, metis)

definition lookup :: "(nat \<Rightarrow> buf) \<Rightarrow> u32 \<Rightarrow> nat option" where
  "lookup B bn = find (\<lambda>b. b_dev (B b) \<noteq> 0 \<and> b_blockno (B b) = bn) [0..<NBUF]"

text \<open>The current contents of a block, and the number of references to its buffer.\<close>

definition block_view :: "(nat \<Rightarrow> buf) \<Rightarrow> (u32 \<Rightarrow> bytes) \<Rightarrow> u32 \<Rightarrow> bytes" where
  "block_view B D bn = (case lookup B bn of Some b \<Rightarrow> if b_valid (B b) then b_data (B b) else D bn | None \<Rightarrow> D bn)"

definition pins :: "(nat \<Rightarrow> buf) \<Rightarrow> u32 \<Rightarrow> u32" where
  "pins B bn = (case lookup B bn of Some b \<Rightarrow> b_refcnt (B b) | None \<Rightarrow> 0)"

lemma lookup_None: "lookup B bn = None \<longleftrightarrow> (\<forall>b < NBUF. b_dev (B b) \<noteq> 0 \<longrightarrow> b_blockno (B b) \<noteq> bn)"
  by (auto simp: lookup_def find_None_iff)

lemma lookup_Some:
  assumes "contents_ok d B D"
  shows "lookup B bn = Some b \<longleftrightarrow> b < NBUF \<and> b_dev (B b) \<noteq> 0 \<and> b_blockno (B b) = bn"
proof
  assume "lookup B bn = Some b"
  then show "b < NBUF \<and> b_dev (B b) \<noteq> 0 \<and> b_blockno (B b) = bn"
    by (auto simp: lookup_def find_Some_iff)
next
  assume b: "b < NBUF \<and> b_dev (B b) \<noteq> 0 \<and> b_blockno (B b) = bn"
  then have "lookup B bn \<noteq> None" by (auto simp: lookup_None)
  then obtain c where c: "lookup B bn = Some c" by auto
  then have "c < NBUF \<and> b_dev (B c) \<noteq> 0 \<and> b_blockno (B c) = bn" by (auto simp: lookup_def find_Some_iff)
  with b have "c = b" using contents_okD(3) [OF assms] by metis
  with c show "lookup B bn = Some b" by simp
qed

lemma view_lookup:
  assumes "contents_ok d B D" and "b < NBUF" and "b_dev (B b) \<noteq> 0" and "b_blockno (B b) = bn"
  shows "lookup B bn = Some b" and "block_view B D bn = (if b_valid (B b) then b_data (B b) else D bn)"
    and "pins B bn = b_refcnt (B b)"
proof -
  show l: "lookup B bn = Some b" using lookup_Some [OF assms(1), of bn b] assms(2-4) by simp
  show "block_view B D bn = (if b_valid (B b) then b_data (B b) else D bn)" "pins B bn = b_refcnt (B b)"
    using l by (simp_all add: block_view_def pins_def)
qed

text \<open>
  Replacing what buffer \<open>b\<close> holds by block \<open>bn\<close>, which it held before or which has no buffer while \<open>b\<close> is
  unused; the new buffer is referenced.
\<close>

lemma replace_buffer:
  assumes ok: "contents_ok d B D" and b: "b < NBUF" and d: "d \<noteq> 0"
    and x: "b_dev x = d" "b_blockno x = bn" "bn < 2 ^ 31" "b_refcnt x \<noteq> 0"
    and slot: "lookup B bn = Some b \<or> lookup B bn = None \<and> b_refcnt (B b) = 0"
  shows "contents_ok d (B(b := x)) D" and "lookup (B(b := x)) bn = Some b"
    and "bn' \<noteq> bn \<Longrightarrow> block_view (B(b := x)) D bn' = block_view B D bn'"
    and "bn' \<noteq> bn \<Longrightarrow> pins (B(b := x)) bn' = pins B bn'"
proof -
  let ?C = "B(b := x)"
  have only: "i = b" if "i < NBUF" "b_dev (B i) \<noteq> 0" "b_blockno (B i) = bn" for i
    using slot that lookup_Some [OF ok, of bn i] by (auto simp: lookup_None)
  show ok': "contents_ok d ?C D"
    unfolding contents_ok_def
  proof (intro conjI allI impI)
    fix i assume "i < NBUF"
    then show "if b_dev (?C i) = 0 then \<not> b_valid (?C i) \<and> b_refcnt (?C i) = 0
        else b_dev (?C i) = d \<and> b_blockno (?C i) < 2 ^ 31"
      using contents_okD(1,2) [OF ok, of i] x d by auto
  next
    fix i j assume h: "i < NBUF" "j < NBUF"
      "b_dev (?C i) \<noteq> 0 \<and> b_dev (?C j) \<noteq> 0 \<and> b_blockno (?C i) = b_blockno (?C j)"
    show "i = j"
    proof (rule ccontr)
      assume "i \<noteq> j"
      then consider "i = b" "j \<noteq> b" | "j = b" "i \<noteq> b" | "i \<noteq> b" "j \<noteq> b" "i \<noteq> j" by blast
      then show False
      proof cases
        case 1
        then show ?thesis using h only [of j] x(2) by simp
      next
        case 2
        then show ?thesis using h only [of i] x(2) by simp
      next
        case 3
        then show ?thesis using h contents_okD(3) [OF ok h(1,2)] by simp
      qed
    qed
  next
    fix i assume "i < NBUF" "b_refcnt (?C i) = 0 \<and> b_valid (?C i)"
    then show "b_data (?C i) = D (b_blockno (?C i))"
      using contents_okD(4) [OF ok, of i] x(4) by (auto split: if_splits)
  qed
  show "lookup ?C bn = Some b" using lookup_Some [OF ok', of bn b] x d b by simp
  assume ne: "bn' \<noteq> bn"
  have "block_view ?C D bn' = block_view B D bn' \<and> pins ?C bn' = pins B bn'"
  proof (cases "b_dev (B b) \<noteq> 0 \<and> b_blockno (B b) = bn'")
    case True
    then have l: "lookup B bn' = Some b" using lookup_Some [OF ok, of bn' b] b by simp
    have rc: "b_refcnt (B b) = 0" using slot True ne lookup_Some [OF ok, of bn b] by auto
    have "lookup ?C bn' = None" using True contents_okD(3) [OF ok _ b] ne x(2) by (auto simp: lookup_None)
    moreover have "b_valid (B b) \<longrightarrow> b_data (B b) = D bn'" using contents_okD(4) [OF ok b rc] True by auto
    ultimately show ?thesis using l rc by (auto simp: block_view_def pins_def)
  next
    case False
    have "lookup ?C bn' = lookup B bn'" unfolding lookup_def
      using False ne x(2) by (intro find_cong) auto
    moreover have "lookup B bn' \<noteq> Some b" using False lookup_Some [OF ok, of bn' b] by auto
    ultimately show ?thesis by (auto simp: block_view_def pins_def split: option.splits)
  qed
  then show "block_view ?C D bn' = block_view B D bn'" "pins ?C bn' = pins B bn'" by simp_all
qed

subsection \<open>Getting and releasing buffers\<close>

definition lru :: "(nat \<Rightarrow> buf) \<Rightarrow> nat list \<Rightarrow> bool" where
  "lru B xs \<longleftrightarrow> distinct xs \<and> set xs = {..<NBUF} \<and> linked B bhead xs bhead"

text \<open>
  Process \<open>p\<close> has the cache to itself and holds exactly the buffers \<open>H\<close>.
\<close>

definition held :: "nat \<Rightarrow> u32 \<Rightarrow> nat set \<Rightarrow> 'z kvirtio_scheme \<Rightarrow> bool" where
  "held p d H s \<longleftrightarrow> quiet p s \<and> vq_idle s \<and> d \<noteq> 0 \<and> (\<exists>xs. lru (bufs s) xs) \<and> contents_ok d (bufs s) (disk s)
     \<and> (\<forall>b \<in> H. b < NBUF \<and> b_dev (bufs s b) \<noteq> 0 \<and> b_valid (bufs s b) \<and> b_refcnt (bufs s b) \<noteq> 0
          \<and> sl_locked (sleeplocks s (BufSleep b)) \<and> sl_pid (sleeplocks s (BufSleep b)) = p_pid (procs s p))
     \<and> (\<forall>b < NBUF. b \<notin> H \<longrightarrow> \<not> sl_locked (sleeplocks s (BufSleep b)))"

lemma heldD:
  assumes "held p d H s"
  shows "quiet p s" and "vq_idle s" and "d \<noteq> 0" and "contents_ok d (bufs s) (disk s)"
    and "b \<in> H \<Longrightarrow> b < NBUF" and "b \<in> H \<Longrightarrow> b_dev (bufs s b) \<noteq> 0" and "b \<in> H \<Longrightarrow> b_valid (bufs s b)"
    and "b \<in> H \<Longrightarrow> b_refcnt (bufs s b) \<noteq> 0" and "b \<in> H \<Longrightarrow> sl_locked (sleeplocks s (BufSleep b))"
    and "b \<in> H \<Longrightarrow> sl_pid (sleeplocks s (BufSleep b)) = p_pid (procs s p)"
    and "b < NBUF \<Longrightarrow> b \<notin> H \<Longrightarrow> \<not> sl_locked (sleeplocks s (BufSleep b))"
  using assms unfolding held_def by blast+

lemma find_SomeD: "find P xs = Some x \<Longrightarrow> x \<in> set xs \<and> P x"
  by (induction xs) (auto split: if_splits)

lemma lru_bhead: "lru B xs \<Longrightarrow> bhead \<notin> set xs" "lru B xs \<Longrightarrow> length xs = NBUF"
  using distinct_card [of xs] by (simp_all add: lru_def)

lemma lru_links:
  assumes "lru B xs" and "\<And>i. b_next (C i) = b_next (B i)" and "\<And>i. b_prev (C i) = b_prev (B i)"
  shows "lru C xs"
  using assms linked_cong [of bhead xs B C bhead] by (simp add: lru_def)

lemma lru_upd:
  assumes "lru B xs" and "b_next y = b_next (B b)" and "b_prev y = b_prev (B b)"
  shows "lru (B(b := y)) xs"
  using assms by (intro lru_links [OF assms(1)]) simp_all

lemma find_lru:
  assumes "contents_ok d B D" and "d \<noteq> 0" and "set xs = {..<NBUF}"
  shows "find (\<lambda>b. b_dev (B b) = d \<and> b_blockno (B b) = bn) xs = lookup B bn"
proof (cases "find (\<lambda>b. b_dev (B b) = d \<and> b_blockno (B b) = bn) xs")
  case None
  then have no: "\<forall>b \<in> set xs. \<not> (b_dev (B b) = d \<and> b_blockno (B b) = bn)" by (simp add: find_None_iff)
  have "b_blockno (B b) \<noteq> bn" if "b < NBUF" "b_dev (B b) \<noteq> 0" for b
    using no contents_okD(2) [OF assms(1) that] that(1) assms(3) by blast
  then have "lookup B bn = None" unfolding lookup_None by blast
  with None show ?thesis by simp
next
  case (Some b)
  then have "b \<in> set xs" "b_dev (B b) = d" "b_blockno (B b) = bn" by (auto dest: find_SomeD)
  then show ?thesis using Some lookup_Some [OF assms(1), of bn b] assms(2,3) by simp
qed

lemma bget_run:
  assumes "held p d H s" and "\<forall>b \<in> H. b_blockno (bufs s b) \<noteq> bn"
    and "lookup (bufs s) bn = None \<Longrightarrow> \<exists>b < NBUF. b_refcnt (bufs s b) = 0"
  obtains b x where "bget d bn s = Done b (sl_take (BufSleep b) (p_pid (procs s p)) (s\<lparr>bufs := (bufs s)(b := x)\<rparr>))"
    and "b < NBUF" and "b \<notin> H" and "b_dev x = d" and "b_blockno x = bn" and "b_refcnt x = pins (bufs s) bn + 1"
    and "b_next x = b_next (bufs s b)" and "b_prev x = b_prev (bufs s b)"
    and "lookup (bufs s) bn = Some b \<or> lookup (bufs s) bn = None \<and> b_refcnt (bufs s b) = 0"
    and "(if b_valid x then b_data x else disk s bn) = block_view (bufs s) (disk s) bn"
proof -
  let ?B = "bufs s"
  note q = heldD(1) [OF assms(1)] and ok = heldD(4) [OF assms(1)] and d = heldD(3) [OF assms(1)]
  obtain xs where xs: "lru ?B xs" using assms(1) by (auto simp: held_def)
  have len: "length xs \<le> NBUF" and link: "linked ?B bhead xs bhead" and bh: "bhead \<notin> set xs"
    and set: "set xs = {..<NBUF}" using xs lru_bhead [OF xs] by (auto simp: lru_def)
  have scan: "scan_next NBUF (\<lambda>x. b_dev x = d \<and> b_blockno x = bn) (b_next (?B bhead)) (hold BcacheLock s)
      = Done (lookup ?B bn) (hold BcacheLock s)"
    using scan_next_run [of "hold BcacheLock s" bhead xs NBUF "\<lambda>x. b_dev x = d \<and> b_blockno x = bn"] link bh len
      find_lru [OF ok d set] by simp
  have sl: "acquiresleep (BufSleep b) (s\<lparr>bufs := (bufs s)(b := x)\<rparr>)
      = Done () (sl_take (BufSleep b) (p_pid (procs s p)) (s\<lparr>bufs := (bufs s)(b := x)\<rparr>))"
    if "b < NBUF" "b \<notin> H" for b x
    using acquiresleep_run [of p "s\<lparr>bufs := (bufs s)(b := x)\<rparr>" "BufSleep b"] q heldD(11) [OF assms(1) that] by simp
  show thesis
  proof (cases "lookup ?B bn")
    case (Some b)
    then have b: "b < NBUF" "b_dev (?B b) \<noteq> 0" "b_blockno (?B b) = bn" using lookup_Some [OF ok, of bn b] by auto
    then have nH: "b \<notin> H" using assms(2) by auto
    let ?x = "(?B b)\<lparr>b_refcnt := b_refcnt (?B b) + 1\<rparr>"
    have "bget d bn s = Done b (sl_take (BufSleep b) (p_pid (procs s p)) (s\<lparr>bufs := (bufs s)(b := ?x)\<rparr>))"
      using scan Some q sl [OF b(1) nH] by (simp add: bget_def kseq_run kbind_run acquire_quiet release_quiet)
    then show thesis
      using that [of b ?x] b nH Some view_lookup [OF ok b] contents_okD(2) [OF ok b(1,2)] by simp
  next
    case None
    then have ex: "\<exists>b \<in> set (rev xs). b_refcnt (?B b) = 0" using assms(3) set by auto
    have pscan: "scan_prev NBUF (\<lambda>x. b_refcnt x = 0) (b_prev (?B bhead)) (hold BcacheLock s)
        = Done (find (\<lambda>b. b_refcnt (?B b) = 0) (rev xs)) (hold BcacheLock s)"
      using scan_prev_run [of "hold BcacheLock s" xs bhead NBUF "\<lambda>x. b_refcnt x = 0"] link bh len by simp
    from ex have "find (\<lambda>b. b_refcnt (?B b) = 0) (rev xs) \<noteq> None" unfolding find_None_iff by blast
    then obtain b where f: "find (\<lambda>b. b_refcnt (?B b) = 0) (rev xs) = Some b" by blast
    then have b: "b < NBUF" "b_refcnt (?B b) = 0" using set find_SomeD [OF f] by simp_all
    then have nH: "b \<notin> H" using heldD(8) [OF assms(1)] by auto
    let ?x = "(?B b)\<lparr>b_dev := d, b_blockno := bn, b_valid := False, b_refcnt := 1\<rparr>"
    have "bget d bn s = Done b (sl_take (BufSleep b) (p_pid (procs s p)) (s\<lparr>bufs := (bufs s)(b := ?x)\<rparr>))"
      using scan None pscan f q sl [OF b(1) nH]
      by (simp add: bget_def kseq_run kbind_run acquire_quiet release_quiet)
    then show thesis using that [of b ?x] b nH None by (simp add: pins_def block_view_def)
  qed
qed

abbreviation view :: "'z kvirtio_scheme \<Rightarrow> u32 \<Rightarrow> bytes" where
  "view s \<equiv> block_view (bufs s) (disk s)"

abbreviation pin :: "'z kvirtio_scheme \<Rightarrow> u32 \<Rightarrow> u32" where
  "pin s \<equiv> pins (bufs s)"

lemma vd_set_simps [simp]:
  "bufs (vd_set v s) = bufs s" "disk (vd_set v s) = disk s" "disk_writes (vd_set v s) = disk_writes s"
  "sleeplocks (vd_set v s) = sleeplocks s" "procs (vd_set v s) = procs s" "quiet p (vd_set v s) = quiet p s"
  "bufs_update f1 (vd_set v s) = vd_set v (bufs_update f1 s)"
  "sleeplocks_update f2 (vd_set v s) = vd_set v (sleeplocks_update f2 s)"
  "disk_update f3 (vd_set v s) = vd_set v (disk_update f3 s)"
  "disk_writes_update f4 (vd_set v s) = vd_set v (disk_writes_update f4 s)"
  "vd_set v (vd_set v' s) = vd_set v s"
  by (simp_all add: vd_set_def)

lemma vq_idle_simps [simp]:
  "vq_idle (bufs_update f1 s) = vq_idle s" "vq_idle (sleeplocks_update f2 s) = vq_idle s"
  "vq_idle (disk_update f3 s) = vq_idle s" "vq_idle (disk_writes_update f4 s) = vq_idle s"
  by (simp_all add: vq_idle_def)

text \<open>\<open>t\<close> differs from \<open>s\<close> in the cache and the disk only.\<close>

definition fsmod :: "'z kvirtio_scheme \<Rightarrow> 'z kvirtio_scheme \<Rightarrow> bool" where
  "fsmod s t \<longleftrightarrow> (\<exists>v. t = vd_set v (s\<lparr>bufs := bufs t, sleeplocks := sleeplocks t, disk := disk t, disk_writes := disk_writes t\<rparr>))"

lemma vd_set_same: "\<exists>v. s = vd_set v s"
proof
  show "s = vd_set \<lparr>r_ops = vd_ops s, r_avail_idx = vd_avail_idx s, r_avail_ring = vd_avail_ring s,
    r_used_idx = vd_used_idx s, r_used_ring = vd_used_ring s, r_seen = vd_seen s,
    r_info_status = vd_info_status s, r_dev_seen = dev_seen s, r_mmio = mmio s\<rparr> s"
    by (simp add: vd_set_def)
qed

lemma fsmod_upd:
  "fsmod s (vd_set v (s\<lparr>bufs := B, sleeplocks := L, disk := D, disk_writes := W\<rparr>))"
  by (auto simp: fsmod_def)

lemma fsmod_bufs: "fsmod s (s\<lparr>bufs := B\<rparr>)" and fsmod_bl: "fsmod s (s\<lparr>bufs := B, sleeplocks := L\<rparr>)"
proof -
  obtain v where v: "s = vd_set v s" using vd_set_same by blast
  have e: "s\<lparr>bufs := B, sleeplocks := L, disk := disk s, disk_writes := disk_writes s\<rparr> = s\<lparr>bufs := B, sleeplocks := L\<rparr>" for L
    by simp
  have "s\<lparr>bufs := B, sleeplocks := L\<rparr> = vd_set v (s\<lparr>bufs := B, sleeplocks := L\<rparr>)" for L by (subst v) simp
  then show bl: "fsmod s (s\<lparr>bufs := B, sleeplocks := L\<rparr>)" for L unfolding fsmod_def by auto
  from bl [of "sleeplocks s"] show "fsmod s (s\<lparr>bufs := B\<rparr>)" by simp
qed

lemma fsmod_trans:
  assumes "fsmod s t" and "fsmod t u"
  shows "fsmod s u"
proof -
  obtain v w where v: "t = vd_set v (s\<lparr>bufs := bufs t, sleeplocks := sleeplocks t, disk := disk t, disk_writes := disk_writes t\<rparr>)"
    and w: "u = vd_set w (t\<lparr>bufs := bufs u, sleeplocks := sleeplocks u, disk := disk u, disk_writes := disk_writes u\<rparr>)"
    using assms unfolding fsmod_def by blast
  have "u = vd_set w (s\<lparr>bufs := bufs u, sleeplocks := sleeplocks u, disk := disk u, disk_writes := disk_writes u\<rparr>)"
    by (subst w, subst v) simp
  then show ?thesis unfolding fsmod_def by blast
qed

lemma fsmod_procs: "fsmod s t \<Longrightarrow> procs t = procs s"
  unfolding fsmod_def by (elim exE, erule ssubst) simp

lemma bread_run:
  assumes h: "held p d H s" and "bn < 2 ^ 31" and "\<forall>b \<in> H. b_blockno (bufs s b) \<noteq> bn"
    and "lookup (bufs s) bn = None \<Longrightarrow> \<exists>b < NBUF. b_refcnt (bufs s b) = 0" and "pin s bn + 1 \<noteq> 0"
  obtains b t where "bread d bn s = Done b t" and "fsmod s t" and "held p d (insert b H) t" and "b \<notin> H"
    and "b_blockno (bufs t b) = bn" and "b_data (bufs t b) = view s bn" and "disk t = disk s"
    and "disk_writes t = disk_writes s" and "view t = view s" and "pin t = (pin s)(bn := pin s bn + 1)"
    and "\<And>i. i \<noteq> b \<Longrightarrow> bufs t i = bufs s i"
proof -
  obtain b x where g: "bget d bn s = Done b (sl_take (BufSleep b) (p_pid (procs s p)) (s\<lparr>bufs := (bufs s)(b := x)\<rparr>))"
    and b: "b < NBUF" "b \<notin> H" and x: "b_dev x = d" "b_blockno x = bn" "b_refcnt x = pin s bn + 1"
    "b_next x = b_next (bufs s b)" "b_prev x = b_prev (bufs s b)"
    and slot: "lookup (bufs s) bn = Some b \<or> lookup (bufs s) bn = None \<and> b_refcnt (bufs s b) = 0"
    and dat: "(if b_valid x then b_data x else disk s bn) = view s bn"
    by (rule bget_run [OF h assms(3,4)])
  let ?L = "(sleeplocks s)(BufSleep b := (sleeplocks s (BufSleep b))\<lparr>sl_locked := True, sl_pid := p_pid (procs s p)\<rparr>)"
  let ?s = "s\<lparr>bufs := (bufs s)(b := x), sleeplocks := ?L\<rparr>"
  note q = heldD(1) [OF h] and idle = heldD(2) [OF h] and d = heldD(3) [OF h] and ok = heldD(4) [OF h]
  have "\<exists>y v. bread d bn s = Done b (vd_set v (s\<lparr>bufs := (bufs s)(b := y), sleeplocks := ?L\<rparr>))
      \<and> b_valid y \<and> b_data y = view s bn \<and> b_dev y = d \<and> b_blockno y = bn \<and> b_refcnt y = b_refcnt x
      \<and> b_next y = b_next x \<and> b_prev y = b_prev x \<and> vq_idle (vd_set v (s\<lparr>bufs := (bufs s)(b := y), sleeplocks := ?L\<rparr>))"
  proof (cases "b_valid x")
    case True
    obtain v where v: "s = vd_set v s" using vd_set_same by blast
    have "?s = vd_set v ?s" by (subst v) simp
    moreover have "bread d bn s = Done b ?s" using g True by (simp add: bread_def sl_take_def kbind_run kseq_run)
    ultimately show ?thesis using x dat True idle by (intro exI [of _ x] exI [of _ v]) simp
  next
    case False
    have "quiet p ?s" "vq_idle ?s" using q idle by simp_all
    then obtain v where v: "virtio_disk_rw b False ?s = Done () (vd_set v (rw_effect b False ?s))"
      "vq_idle (vd_set v (rw_effect b False ?s))" by (rule virtio_disk_rw_run)
    let ?y = "x\<lparr>b_data := disk s bn, b_disk := False, b_valid := True\<rparr>"
    have "rw_effect b False ?s = s\<lparr>bufs := (bufs s)(b := x\<lparr>b_data := disk s bn, b_disk := False\<rparr>), sleeplocks := ?L\<rparr>"
      using x(2) disk_block_small [OF assms(2)] by (simp add: rw_effect_def)
    then have "bread d bn s = Done b (vd_set v (s\<lparr>bufs := (bufs s)(b := ?y), sleeplocks := ?L\<rparr>))"
      "vq_idle (vd_set v (s\<lparr>bufs := (bufs s)(b := ?y), sleeplocks := ?L\<rparr>))"
      using g False v by (simp_all add: bread_def sl_take_def kbind_run kseq_run) (simp_all add: vq_idle_def vd_set_def)
    then show ?thesis using x dat False by (intro exI [of _ ?y] exI [of _ v]) simp
  qed
  then obtain y v where run: "bread d bn s = Done b (vd_set v (s\<lparr>bufs := (bufs s)(b := y), sleeplocks := ?L\<rparr>))"
    and y: "b_valid y" "b_data y = view s bn" "b_dev y = d" "b_blockno y = bn" "b_refcnt y = pin s bn + 1"
      "b_next y = b_next (bufs s b)" "b_prev y = b_prev (bufs s b)"
    and idle': "vq_idle (vd_set v (s\<lparr>bufs := (bufs s)(b := y), sleeplocks := ?L\<rparr>))" using x by auto
  let ?t = "vd_set v (s\<lparr>bufs := (bufs s)(b := y), sleeplocks := ?L\<rparr>)"
  have rc: "b_refcnt y \<noteq> 0" using y(5) assms(5) by simp
  note r = replace_buffer [OF ok b(1) d y(3,4) assms(2) rc slot]
  have look: "view ?t bn = view s bn" "pin ?t bn = pin s bn + 1"
    using view_lookup [OF r(1) b(1)] y d by simp_all
  obtain xs where "lru (bufs s) xs" using h unfolding held_def by blast
  then have "\<exists>xs. lru (bufs ?t) xs" using lru_upd [of "bufs s" xs y b] y(6,7) by auto
  then have "held p d (insert b H) ?t"
    using h r(1) idle' b y rc d by (simp add: held_def)
  moreover have "fsmod s ?t"     using fsmod_upd [where s = s and v = v and B = "(bufs s)(b := y)" and L = ?L and D = "disk s" and W = "disk_writes s"] by simp
  moreover have "view ?t = view s"
  proof
    fix k
    show "view ?t k = view s k" using look(1) r(3) [of k] by (cases "k = bn") simp_all
  qed
  moreover have "pin ?t = (pin s)(bn := pin s bn + 1)"
  proof
    fix k
    show "pin ?t k = ((pin s)(bn := pin s bn + 1)) k" using look(2) r(4) [of k] by (cases "k = bn") simp_all
  qed
  ultimately show thesis using run y b by (intro that [of b ?t]) simp_all
qed

lemma update_buffer:
  assumes ok: "contents_ok d B D" and b: "b < NBUF" "b_dev (B b) \<noteq> 0" "b_blockno (B b) = bn"
    and x: "b_dev x = b_dev (B b)" "b_blockno x = bn" "b_refcnt x = 0 \<Longrightarrow> b_valid x \<Longrightarrow> b_data x = v"
  shows "contents_ok d (B(b := x)) (D(bn := v))"
    and "block_view (B(b := x)) (D(bn := v)) = (block_view B D)(bn := if b_valid x then b_data x else v)"
    and "pins (B(b := x)) = (pins B)(bn := b_refcnt x)"
proof -
  let ?C = "B(b := x)" and ?D = "D(bn := v)"
  have other: "b_blockno (B i) \<noteq> bn" if "i < NBUF" "i \<noteq> b" "b_dev (B i) \<noteq> 0" for i
    using contents_okD(3) [OF ok that(1) b(1) that(3) b(2)] b(3) that(2) by auto
  have eq: "b_dev (?C i) = b_dev (B i)" "b_blockno (?C i) = b_blockno (B i)" for i using x b(3) by simp_all
  show ok': "contents_ok d ?C ?D"
    unfolding contents_ok_def
  proof (intro conjI allI impI)
    fix i assume i: "i < NBUF"
    show "if b_dev (?C i) = 0 then \<not> b_valid (?C i) \<and> b_refcnt (?C i) = 0
        else b_dev (?C i) = d \<and> b_blockno (?C i) < 2 ^ 31"
      using contents_okD(1,2) [OF ok i] b(2) eq [of i] by (cases "i = b") simp_all
  next
    fix i j assume "i < NBUF" "j < NBUF"
      "b_dev (?C i) \<noteq> 0 \<and> b_dev (?C j) \<noteq> 0 \<and> b_blockno (?C i) = b_blockno (?C j)"
    then show "i = j" using contents_okD(3) [OF ok] eq by metis
  next
    fix i assume i: "i < NBUF" "b_refcnt (?C i) = 0 \<and> b_valid (?C i)"
    show "b_data (?C i) = ?D (b_blockno (?C i))"
    proof (cases "i = b")
      case True
      then show ?thesis using i x(2,3) by simp
    next
      case False
      then have v: "b_refcnt (B i) = 0" "b_valid (B i)" using i(2) by simp_all
      then have "b_dev (B i) \<noteq> 0" using contents_okD(1) [OF ok i(1)] by blast
      then show ?thesis using False other [OF i(1)] contents_okD(4) [OF ok i(1) v] by simp
    qed
  qed
  have l: "lookup ?C k = lookup B k" for k unfolding lookup_def by (rule find_cong) (simp_all only: eq)
  have lb: "lookup B bn = Some b" by (rule view_lookup(1) [OF ok b])
  have nb: "lookup B k \<noteq> Some b" if "k \<noteq> bn" for k using lookup_Some [OF ok, of k b] b(3) that by simp
  show "block_view ?C ?D = (block_view B D)(bn := if b_valid x then b_data x else v)"
  proof
    fix k
    show "block_view ?C ?D k = ((block_view B D)(bn := if b_valid x then b_data x else v)) k"
      using lb nb [of k] by (cases "k = bn") (auto simp: block_view_def l split: option.splits)
  qed
  show "pins ?C = (pins B)(bn := b_refcnt x)"
  proof
    fix k
    show "pins ?C k = ((pins B)(bn := b_refcnt x)) k"
      using lb nb [of k] by (cases "k = bn") (auto simp: pins_def l split: option.splits)
  qed
qed

text \<open>Changing only what the list's links do not depend on.\<close>

lemma held_update:
  assumes h: "held p d H s" and b: "b \<in> H" "b_blockno (bufs s b) = bn"
    and x: "b_dev x = b_dev (bufs s b)" "b_blockno x = bn" "b_valid x" "b_refcnt x \<noteq> 0"
      "b_next x = b_next (bufs s b)" "b_prev x = b_prev (bufs s b)"
    and t: "bufs t = (bufs s)(b := x)" "disk t = (disk s)(bn := v)" "fsmod s t" "sleeplocks t = sleeplocks s"
      "vq_idle t" "quiet p t"
  shows "held p d H t" and "view t = (view s)(bn := b_data x)" and "pin t = (pin s)(bn := b_refcnt x)"
proof -
  note bb = heldD(5) [OF h b(1)] heldD(6) [OF h b(1)]
  have "b_refcnt x = 0 \<Longrightarrow> b_valid x \<Longrightarrow> b_data x = v" using x(4) by simp
  note u = update_buffer [OF heldD(4) [OF h] bb b(2) x(1,2) this]
  obtain xs where "lru (bufs s) xs" using h unfolding held_def by blast
  then have "lru (bufs t) xs" using lru_upd [of "bufs s" xs x b] x(5,6) t(1) by simp
  then have l: "\<exists>xs. lru (bufs t) xs" by blast
  show "held p d H t"
    unfolding held_def
  proof (intro conjI ballI allI impI)
    show "contents_ok d (bufs t) (disk t)" using u(1) t(1,2) by simp
    show "quiet p t" "vq_idle t" "d \<noteq> 0" "\<exists>xs. lru (bufs t) xs" using t(5,6) l heldD(3) [OF h] by simp_all
  next
    fix c assume c: "c \<in> H"
    show "c < NBUF" "b_dev (bufs t c) \<noteq> 0" "b_valid (bufs t c)" "b_refcnt (bufs t c) \<noteq> 0"
      "sl_locked (sleeplocks t (BufSleep c))" "sl_pid (sleeplocks t (BufSleep c)) = p_pid (procs t p)"
      using heldD(5-10) [OF h c] t(1,4) x fsmod_procs [OF t(3)] by (auto simp: bb(2))
  next
    fix c assume "c < NBUF" "c \<notin> H"
    then show "\<not> sl_locked (sleeplocks t (BufSleep c))" using heldD(11) [OF h] t(4) by simp
  qed
  show "view t = (view s)(bn := b_data x)" "pin t = (pin s)(bn := b_refcnt x)"
    using u(2,3) t(1,2) x(3) by simp_all
qed

lemma bmodify_run:
  assumes h: "held p d H s" and b: "b \<in> H" "b_blockno (bufs s b) = bn"
    and t_def: "t = s\<lparr>bufs := (bufs s)(b := (bufs s b)\<lparr>b_data := c\<rparr>)\<rparr>"
  shows "held p d H t" and "view t = (view s)(bn := c)" and "pin t = pin s" and "fsmod s t"
proof -
  have bf: "bufs t = (bufs s)(b := (bufs s b)\<lparr>b_data := c\<rparr>)" "disk t = (disk s)(bn := disk s bn)"
    "fsmod s t" "sleeplocks t = sleeplocks s" "vq_idle t" "quiet p t"
    using heldD(1,2) [OF h] fsmod_bufs by (simp_all add: t_def)
  note u = held_update [OF h b _ _ _ _ _ _ bf, simplified]
  show "held p d H t" "view t = (view s)(bn := c)" using u heldD(7,8) [OF h b(1)] b by simp_all
  show "pin t = pin s" using u(3) heldD(7,8) [OF h b(1)] b
      view_lookup(3) [OF heldD(4) [OF h] heldD(5,6) [OF h b(1)] b(2)] by (simp add: fun_upd_idem)
  show "fsmod s t" by (rule bf(3))
qed

lemma bwrite_run:
  assumes h: "held p d H s" and b: "b \<in> H" "b_blockno (bufs s b) = bn"
  obtains t where "bwrite b s = Done () t" and "fsmod s t" and "held p d H t"
    and "disk t = (disk s)(bn := b_data (bufs s b))" and "disk_writes t = disk_writes s @ [(bn, b_data (bufs s b))]"
    and "view t = view s" and "pin t = pin s"
    and "\<And>i. b_blockno (bufs t i) = b_blockno (bufs s i) \<and> b_data (bufs t i) = b_data (bufs s i)"
proof -
  let ?x = "(bufs s b)\<lparr>b_disk := False\<rparr>"
  have bn: "bn < 2 ^ 31" using contents_okD(2) [OF heldD(4) [OF h] heldD(5,6) [OF h b(1)]] b(2) by simp
  note vl = view_lookup [OF heldD(4) [OF h] heldD(5,6) [OF h b(1)] b(2)]
  obtain v where v: "virtio_disk_rw b True s = Done () (vd_set v (rw_effect b True s))"
    "vq_idle (vd_set v (rw_effect b True s))" by (rule virtio_disk_rw_run [OF heldD(1,2) [OF h]])
  let ?t = "vd_set v (rw_effect b True s)"
  have e: "rw_effect b True s = s\<lparr>bufs := (bufs s)(b := ?x), disk := (disk s)(bn := b_data (bufs s b)),
     disk_writes := disk_writes s @ [(bn, b_data (bufs s b))]\<rparr>"
    using b(2) disk_block_small [OF bn] by (simp add: rw_effect_def Let_def)
  have "fsmod s ?t" unfolding e
    using fsmod_upd [where s = s and v = v and L = "sleeplocks s"] by (simp add: fsmod_def)
  then have f: "bufs ?t = (bufs s)(b := ?x)" "disk ?t = (disk s)(bn := b_data (bufs s b))" "fsmod s ?t"
    "sleeplocks ?t = sleeplocks s" "vq_idle ?t" "quiet p ?t"
    using heldD(1) [OF h] v(2) by (simp_all add: e)
  note u = held_update [OF h b _ _ _ _ _ _ f, simplified]
  have "bwrite b s = Done () ?t"
    using v(1) holdingsleep_run [OF heldD(1) [OF h], of "BufSleep b"] heldD(9,10) [OF h b(1)]
    by (simp add: bwrite_def kbind_run)
  moreover have "held p d H ?t" using u(1) heldD(7,8) [OF h b(1)] b by simp
  moreover have "view ?t = view s" "pin ?t = pin s"
    using u(2,3) heldD(7,8) [OF h b(1)] b vl by (simp_all add: fun_upd_idem)
  ultimately show thesis using f by (intro that [of ?t]) (simp_all add: e)
qed

text \<open>Moving a buffer in the list changes nothing that matters for the contents.\<close>

definition same_core :: "(nat \<Rightarrow> buf) \<Rightarrow> (nat \<Rightarrow> buf) \<Rightarrow> bool" where
  "same_core B C \<longleftrightarrow> (\<forall>i. b_dev (C i) = b_dev (B i) \<and> b_blockno (C i) = b_blockno (B i) \<and>
     b_valid (C i) = b_valid (B i) \<and> b_refcnt (C i) = b_refcnt (B i) \<and> b_data (C i) = b_data (B i))"

lemma same_core_eq:
  assumes "same_core B C"
  shows "contents_ok d C D = contents_ok d B D" and "block_view C D = block_view B D" and "pins C = pins B"
proof -
  note e = assms [unfolded same_core_def, rule_format]
  have l: "lookup C k = lookup B k" for k unfolding lookup_def using e by (intro find_cong) simp_all
  show "contents_ok d C D = contents_ok d B D" unfolding contents_ok_def using e by simp
  show "block_view C D = block_view B D" "pins C = pins B"
    using e by (auto simp: fun_eq_iff block_view_def pins_def l split: option.splits)
qed

lemma same_core_trans: "same_core A B \<Longrightarrow> same_core B C \<Longrightarrow> same_core A C"
  by (simp add: same_core_def)

lemma same_core_link:
  "same_core B (B(n := (B n)\<lparr>b_prev := q\<rparr>))" "same_core B (B(n := (B n)\<lparr>b_next := q\<rparr>))"
  "same_core B (B(n := (B n)\<lparr>b_next := q, b_prev := r\<rparr>))"
  by (simp_all add: same_core_def)

lemma same_core_moved: "same_core B (linked_first b (unlinked b B))"
  unfolding linked_first_def unlinked_def Let_def
  by (rule same_core_trans, rule same_core_link(1), rule same_core_trans, rule same_core_link(2),
      rule same_core_trans, rule same_core_link(3), rule same_core_trans, rule same_core_link(1),
      rule same_core_link(2))

lemma unlink_run:
  "kseq (bset (b_next (bufs s b)) (\<lambda>y. y\<lparr>b_prev := b_prev (bufs s b)\<rparr>))
     (kseq (bset (b_prev (bufs s b)) (\<lambda>y. y\<lparr>b_next := b_next (bufs s b)\<rparr>)) m) s
   = m (s\<lparr>bufs := unlinked b (bufs s)\<rparr>)"
  by (simp add: kseq_run unlinked_def Let_def)

lemma lru_moved:
  assumes "lru B xs" and "b < NBUF"
  shows "lru (linked_first b (unlinked b B)) (b # remove1 b xs)"
proof -
  have "b \<in> set xs" using assms by (simp add: lru_def)
  then obtain us vs where xs: "xs = us @ b # vs" by (meson split_list)
  have "distinct (bhead # us @ b # vs)" "linked B bhead (us @ b # vs) bhead"
    using assms(1) lru_bhead(1) [OF assms(1)] by (auto simp: lru_def xs)
  note l = unlinked_links [OF this(2,1)]
  have "distinct (bhead # b # us @ vs)" using \<open>distinct (bhead # us @ b # vs)\<close> by auto
  note m = linked_first_links [OF l this]
  have "remove1 b xs = us @ vs" using \<open>distinct (bhead # us @ b # vs)\<close> by (simp add: xs remove1_append)
  moreover have "lru (linked_first b (unlinked b B)) (b # us @ vs)"
    using m assms(1) by (auto simp: lru_def xs)
  ultimately show ?thesis by simp
qed

definition released :: "nat \<Rightarrow> (nat \<Rightarrow> buf) \<Rightarrow> (nat \<Rightarrow> buf)" where
  "released b B = (let C = B(b := (B b)\<lparr>b_refcnt := b_refcnt (B b) - 1\<rparr>)
     in if b_refcnt (C b) = 0 then linked_first b (unlinked b C) else C)"

lemma brelse_step:
  assumes "quiet p s" and "sl_locked (sleeplocks s (BufSleep b))"
    and "sl_pid (sleeplocks s (BufSleep b)) = p_pid (procs s p)"
  shows "brelse b s = Done () ((sl_drop (BufSleep b) s)\<lparr>bufs := released b (bufs s)\<rparr>)"
proof -
  let ?s = "sl_drop (BufSleep b) s"
  have q: "quiet p ?s" and sb: "bufs ?s = bufs s" using assms(1) by (simp_all add: sl_drop_def)
  let ?C = "(bufs s)(b := (bufs s b)\<lparr>b_refcnt := b_refcnt (bufs s b) - 1\<rparr>)"
  let ?u = "hold BcacheLock (?s\<lparr>bufs := ?C\<rparr>)"
  let ?move = "\<lambda>x. kwhen (b_refcnt x = 0)
      (kseq (bset (b_next x) (\<lambda>y. y\<lparr>b_prev := b_prev x\<rparr>))
      (kseq (bset (b_prev x) (\<lambda>y. y\<lparr>b_next := b_next x\<rparr>)) (link_first b)))"
  have bu: "bufs ?u = ?C" by simp
  have "?move (?C b) ?u = Done () (hold BcacheLock (?s\<lparr>bufs := released b (bufs s)\<rparr>))"
  proof (cases "b_refcnt (?C b) = 0")
    case True
    have "?move (?C b) ?u = link_first b (?u\<lparr>bufs := unlinked b ?C\<rparr>)"
      using unlink_run [of ?u b "link_first b"] True unfolding bu by (simp only: kwhen_run simp_thms if_True)
    also have "\<dots> = Done () (?u\<lparr>bufs := linked_first b (unlinked b ?C)\<rparr>)" by (simp add: link_first_run)
    finally show ?thesis using True by (simp add: released_def)
  next
    case False
    then show ?thesis by (simp add: released_def)
  qed
  then have "kseq (?move (?C b)) (release BcacheLock) ?u = Done () (?s\<lparr>bufs := released b (bufs s)\<rparr>)"
    using q by (simp only: kseq_run outcome.case) (simp add: release_quiet)
  moreover have "brelse b s = kseq (?move (?C b)) (release BcacheLock) ?u"
    using assms(2,3) q holdingsleep_run [OF assms(1), of "BufSleep b"] releasesleep_run [OF assms(1), of "BufSleep b"]
    by (simp add: brelse_def kbind_run kseq_run [of "releasesleep _"] kseq_run [of "acquire _"] kseq_run [of "bset _ _" _ "hold _ _"]
        acquire_quiet sb del: kwhen_run)
  ultimately show ?thesis by simp
qed

lemma released_facts:
  assumes "lru B xs" and "b < NBUF"
  shows "lru (released b B) (if b_refcnt (B b) = 1 then b # remove1 b xs else xs)"
    and "same_core (B(b := (B b)\<lparr>b_refcnt := b_refcnt (B b) - 1\<rparr>)) (released b B)"
proof -
  let ?C = "B(b := (B b)\<lparr>b_refcnt := b_refcnt (B b) - 1\<rparr>)"
  have l: "lru ?C xs" using lru_upd [OF assms(1)] by simp
  then show "lru (released b B) (if b_refcnt (B b) = 1 then b # remove1 b xs else xs)"
    using lru_moved [OF l assms(2)] by (cases "b_refcnt (B b) = 1") (simp_all add: released_def Let_def)
  show "same_core ?C (released b B)"
    using same_core_moved by (auto simp: released_def Let_def same_core_def)
qed

lemma brelse_run:
  assumes h: "held p d H s" and b: "b \<in> H" "b_blockno (bufs s b) = bn"
    and clean: "b_refcnt (bufs s b) = 1 \<Longrightarrow> b_data (bufs s b) = disk s bn"
  obtains t where "brelse b s = Done () t" and "fsmod s t" and "held p d (H - {b}) t"
    and "disk t = disk s" and "disk_writes t = disk_writes s" and "view t = view s"
    and "pin t = (pin s)(bn := pin s bn - 1)"
    and "\<And>i. b_blockno (bufs t i) = b_blockno (bufs s i) \<and> b_data (bufs t i) = b_data (bufs s i)"
proof -
  let ?x = "(bufs s b)\<lparr>b_refcnt := b_refcnt (bufs s b) - 1\<rparr>"
  let ?C = "(bufs s)(b := ?x)" and ?t = "(sl_drop (BufSleep b) s)\<lparr>bufs := released b (bufs s)\<rparr>"
  note bb = heldD(5) [OF h b(1)] heldD(6) [OF h b(1)] and ok = heldD(4) [OF h]
  note vl = view_lookup [OF ok bb b(2)]
  obtain xs where xs: "lru (bufs s) xs" using h unfolding held_def by blast
  note rel = released_facts [OF xs bb(1)]
  note e = same_core_eq [OF rel(2)] and core = rel(2) [unfolded same_core_def, rule_format]
  have "b_refcnt ?x = 0 \<Longrightarrow> b_valid ?x \<Longrightarrow> b_data ?x = disk s bn" using clean by simp
  note u = update_buffer [OF ok bb b(2) _ _ this, simplified fun_upd_triv]
  have u': "contents_ok d ?C (disk s)" "block_view ?C (disk s) = view s" "pins ?C = (pin s)(bn := pin s bn - 1)"
    using u b(2) vl heldD(7) [OF h b(1)] by (simp_all add: fun_upd_idem)
  have f: "bufs ?t = released b (bufs s)" "disk ?t = disk s" "disk_writes ?t = disk_writes s"
    "procs ?t = procs s" "quiet p ?t" "vq_idle ?t"
    using heldD(1,2) [OF h] by (simp_all add: sl_drop_def)
  have "held p d (H - {b}) ?t"
    unfolding held_def
  proof (intro conjI ballI allI impI)
    show "quiet p ?t" "vq_idle ?t" "d \<noteq> 0" "\<exists>xs. lru (bufs ?t) xs" using f rel(1) heldD(3) [OF h] by auto
    show "contents_ok d (bufs ?t) (disk ?t)" using e(1) u'(1) f by simp
  next
    fix c assume c: "c \<in> H - {b}"
    then show "c < NBUF" "b_dev (bufs ?t c) \<noteq> 0" "b_valid (bufs ?t c)" "b_refcnt (bufs ?t c) \<noteq> 0"
      "sl_locked (sleeplocks ?t (BufSleep c))" "sl_pid (sleeplocks ?t (BufSleep c)) = p_pid (procs ?t p)"
      using heldD(5-10) [OF h, of c] core [of c] f by (simp_all add: sl_drop_def)
  next
    fix c assume "c < NBUF" "c \<notin> H - {b}"
    then show "\<not> sl_locked (sleeplocks ?t (BufSleep c))" using heldD(11) [OF h, of c] by (auto simp: sl_drop_def)
  qed
  moreover have "brelse b s = Done () ?t" using brelse_step [OF heldD(1) [OF h] heldD(9,10) [OF h b(1)]] .
  moreover have "fsmod s ?t"   proof -
    have "s\<lparr>sleeplocks := L, bufs := B\<rparr> = s\<lparr>bufs := B, sleeplocks := L\<rparr>" for B L by simp
    then show ?thesis using fsmod_bl [where s = s] by (simp only: sl_drop_def)
  qed
  moreover have "view ?t = view s" "pin ?t = (pin s)(bn := pin s bn - 1)" using e(2,3) u'(2,3) f by simp_all
  moreover have "b_blockno (bufs ?t i) = b_blockno (bufs s i) \<and> b_data (bufs ?t i) = b_data (bufs s i)" for i
    using core [of i] f(1) by (cases "i = b") simp_all
  ultimately show thesis using f that by blast
qed

lemma bunpin_run:
  assumes h: "held p d H s" and b: "b \<in> H" "b_blockno (bufs s b) = bn" and rc: "pin s bn \<noteq> 1"
  obtains t where "bunpin b s = Done () t" and "fsmod s t" and "held p d H t"
    and "disk t = disk s" and "disk_writes t = disk_writes s" and "view t = view s"
    and "pin t = (pin s)(bn := pin s bn - 1)"
    and "\<And>i. b_blockno (bufs t i) = b_blockno (bufs s i) \<and> b_data (bufs t i) = b_data (bufs s i)"
proof -
  let ?x = "(bufs s b)\<lparr>b_refcnt := b_refcnt (bufs s b) - 1\<rparr>"
  let ?t = "s\<lparr>bufs := (bufs s)(b := ?x)\<rparr>"
  note vl = view_lookup [OF heldD(4) [OF h] heldD(5,6) [OF h b(1)] b(2)]
  have f: "bufs ?t = (bufs s)(b := ?x)" "disk ?t = (disk s)(bn := disk s bn)" "fsmod s ?t"
    "sleeplocks ?t = sleeplocks s" "vq_idle ?t" "quiet p ?t"
    using heldD(1,2) [OF h] fsmod_bufs by simp_all
  have nz: "b_refcnt (bufs s b) - 1 \<noteq> 0" using rc vl by simp
  have "bunpin b s = Done () ?t"
    using heldD(1) [OF h] by (simp add: bunpin_def kseq_run acquire_quiet release_quiet)
  moreover note u = held_update [OF h b _ _ _ _ _ _ f, simplified]
  moreover have "held p d H ?t" using u(1) heldD(7) [OF h b(1)] b nz by simp
  moreover have "view ?t = view s" "pin ?t = (pin s)(bn := pin s bn - 1)"
    using u(2,3) heldD(7) [OF h b(1)] b nz vl by (simp_all add: fun_upd_idem)
  ultimately show thesis using f(3) by (intro that [of ?t]) simp_all
qed

subsection \<open>Blocks in use\<close>

definition busy :: "'z kvirtio_scheme \<Rightarrow> u32 set" where
  "busy s = {bn. pin s bn \<noteq> 0}"

lemma finite_busy [simp]: "finite (busy s)"
  by simp

lemma pin_lookup: "pin s bn \<noteq> 0 \<Longrightarrow> lookup (bufs s) bn \<noteq> None"
  by (auto simp: pins_def split: option.splits)

lemma view_unpinned:
  assumes "contents_ok d (bufs s) (disk s)" and "pin s bn = 0"
  shows "view s bn = disk s bn"
proof (cases "lookup (bufs s) bn")
  case (Some b)
  then have b: "b < NBUF" "b_blockno (bufs s b) = bn" "b_refcnt (bufs s b) = 0"
    using lookup_Some [OF assms(1), of bn b] assms(2) by (auto simp: pins_def)
  then show ?thesis using Some contents_okD(4) [OF assms(1) b(1,3)] by (simp add: block_view_def)
qed (simp add: block_view_def)

lemma free_buffer:
  assumes "contents_ok d (bufs s) (disk s)" and "card (busy s) < NBUF"
  shows "\<exists>b < NBUF. b_refcnt (bufs s b) = 0"
proof (rule ccontr)
  assume no: "\<not> (\<exists>b < NBUF. b_refcnt (bufs s b) = 0)"
  let ?f = "\<lambda>b. b_blockno (bufs s b)"
  have dev: "b_dev (bufs s b) \<noteq> 0" if "b < NBUF" for b using no contents_okD(1) [OF assms(1) that] that by blast
  have "inj_on ?f {..<NBUF}"
  proof (rule inj_onI)
    fix i j assume "i \<in> {..<NBUF}" "j \<in> {..<NBUF}" "?f i = ?f j"
    then show "i = j" using contents_okD(3) [OF assms(1), of i j] dev by simp
  qed
  moreover have "?f ` {..<NBUF} \<subseteq> busy s"
  proof
    fix k assume "k \<in> ?f ` {..<NBUF}"
    then obtain b where b: "b < NBUF" "?f b = k" by auto
    then show "k \<in> busy s" using view_lookup(3) [OF assms(1) b(1) dev [OF b(1)] b(2)] no by (simp add: busy_def)
  qed
  ultimately have "card {..<NBUF} \<le> card (busy s)" by (metis card_image card_mono finite_busy)
  with assms(2) show False by simp
qed

text \<open>\<open>bread\<close> with its needs in terms of blocks.\<close>

lemma bread_block:
  assumes "held p d H s" and "bn < 2 ^ 31" and "\<forall>b \<in> H. b_blockno (bufs s b) \<noteq> bn"
    and "pin s bn \<noteq> 0 \<or> card (busy s) < NBUF" and "pin s bn + 1 \<noteq> 0"
  obtains b t where "bread d bn s = Done b t" and "fsmod s t" and "held p d (insert b H) t" and "b \<notin> H"
    and "b_blockno (bufs t b) = bn" and "b_data (bufs t b) = view s bn" and "disk t = disk s"
    and "disk_writes t = disk_writes s" and "view t = view s" and "pin t = (pin s)(bn := pin s bn + 1)"
    and "\<And>i. i \<noteq> b \<Longrightarrow> bufs t i = bufs s i"
proof (rule bread_run [OF assms(1-3)])
  show "\<exists>b < NBUF. b_refcnt (bufs s b) = 0" if "lookup (bufs s) bn = None"
    using assms(4) that pin_lookup [of s bn] free_buffer [OF heldD(4) [OF assms(1)]] by auto
qed (use assms(5) that in blast)+

subsection \<open>Initialisation\<close>

lemma initsleeplock_bufs: "\<exists>t. initsleeplock l name s = Done () t \<and> bufs t = bufs s"
  by (simp add: initsleeplock_def initlock_def kseq_run set_lock_def)

lemma binit_loop:
  assumes "linked (bufs s) bhead [] bhead" and "k \<le> NBUF"
  shows "\<exists>t. kfor [0..<k] (\<lambda>b. kseq (initsleeplock (BufSleep b) ''buffer'') (link_first b)) s = Done () t
    \<and> linked (bufs t) bhead (rev [0..<k]) bhead"
  using assms(2)
proof (induction k)
  case 0
  then show ?case using assms(1) by simp
next
  case (Suc k)
  let ?f = "\<lambda>b. kseq (initsleeplock (BufSleep b) ''buffer'') (link_first b)"
  obtain t where t: "kfor [0..<k] ?f s = Done () t" "linked (bufs t) bhead (rev [0..<k]) bhead" using Suc by auto
  obtain u where u: "initsleeplock (BufSleep k) ''buffer'' t = Done () u" "bufs u = bufs t"
    using initsleeplock_bufs by metis
  have "distinct (bhead # k # rev [0..<k])" using Suc.prems by auto
  then have "linked (linked_first k (bufs u)) bhead (k # rev [0..<k]) bhead"
    using linked_first_links [of "bufs u" "rev [0..<k]" k] t(2) u(2) by simp
  moreover have "kfor [0..<Suc k] ?f s = Done () (u\<lparr>bufs := linked_first k (bufs u)\<rparr>)"
    by (simp only: upt_Suc_append [OF le0] kfor_append kseq_run t(1) outcome.case kfor.simps)
      (simp add: u(1) kseq_run link_first_run)
  ultimately show ?case by auto
qed

lemma binit_lru: "\<exists>t. binit s = Done () t \<and> lru (bufs t) (rev [0..<NBUF])"
proof -
  obtain s1 where s1: "initlock BcacheLock ''bcache'' s = Done () s1" by (simp add: initlock_def)
  let ?s = "s1\<lparr>bufs := (bufs s1)(bhead := (bufs s1 bhead)\<lparr>b_prev := bhead, b_next := bhead\<rparr>)\<rparr>"
  have "linked (bufs ?s) bhead [] bhead" by simp
  from binit_loop [OF this order_refl] obtain t where
    "kfor [0..<NBUF] (\<lambda>b. kseq (initsleeplock (BufSleep b) ''buffer'') (link_first b)) ?s = Done () t"
    "linked (bufs t) bhead (rev [0..<NBUF]) bhead" by blast
  then have "binit s = Done () t \<and> lru (bufs t) (rev [0..<NBUF])"
    using s1 by (auto simp: binit_def kseq_run lru_def)
  then show ?thesis by blast
qed

subsection \<open>Properties\<close>

text \<open>
  C22 (functional). The disk driver transfers exactly one block: run by a process that holds no spinlock, with no other request
  under way, \<open>virtio_disk_rw\<close> returns with the buffer's block read from the disk, or written to it, with every other buffer as it
  was, and with all descriptors free again. The device obeys the chain of descriptors: it leaves a request alone whose lengths or flags
  do not fit its type.
\<close>

theorem virtio_disk_rw_transfers:
  assumes "quiet p s" and "vq_idle s" and "b_blockno (bufs s b) = bn" and "bn < 2 ^ 31"
  shows "\<exists>t. virtio_disk_rw b w s = Done () t \<and> vq_idle t \<and> quiet p t
    \<and> (bufs t)(b := x) = (bufs s)(b := x)
    \<and> (if w then disk t = (disk s)(bn := b_data (bufs s b)) \<and> disk_writes t = disk_writes s @ [(bn, b_data (bufs s b))]
         \<and> b_data (bufs t b) = b_data (bufs s b)
       else disk t = disk s \<and> disk_writes t = disk_writes s \<and> b_data (bufs t b) = disk s bn)"
proof -
  obtain v where v: "virtio_disk_rw b w s = Done () (vd_set v (rw_effect b w s))"
    "vq_idle (vd_set v (rw_effect b w s))" by (rule virtio_disk_rw_run [OF assms(1,2)])
  have "disk_block (b_blockno (bufs s b)) = bn" using disk_block_small [OF assms(4)] assms(3) by simp
  then show ?thesis using v assms(1) by (intro exI [of _ "vd_set v (rw_effect b w s)"]) (simp add: rw_effect_def Let_def)
qed

text \<open>
  C6 (invariant). The buffer cache is transparent and keeps its invariant (\<open>held\<close>: a well-formed circular list of all buffers,
  at most one buffer for a block, unused buffers that agree with the disk): \<open>bread\<close> returns a locked
  buffer with the current contents of the block and changes the contents of no block, even when it recycles a buffer;
  \<open>brelse\<close> puts everything back, and the disk is not written.
\<close>

theorem buffer_cache_transparent:
  assumes "held p d {} s" and "bn < 2 ^ 31" and "card (busy s) < NBUF" and "pin s bn + 1 \<noteq> 0"
  shows "\<exists>b t u. bread d bn s = Done b t \<and> b_data (bufs t b) = view s bn \<and> sl_locked (sleeplocks t (BufSleep b))
    \<and> held p d {b} t \<and> view t = view s
    \<and> brelse b t = Done () u \<and> held p d {} u \<and> view u = view s \<and> pin u = pin s \<and> disk u = disk s"
proof -
  have fr: "pin s bn \<noteq> 0 \<or> card (busy s) < NBUF" using assms(3) by simp
  have ne: "\<forall>b \<in> {}. b_blockno (bufs s b) \<noteq> bn" by simp
  obtain b t where t: "bread d bn s = Done b t" "held p d (insert b {}) t" "b_blockno (bufs t b) = bn"
    "b_data (bufs t b) = view s bn" "disk t = disk s" "view t = view s" "pin t = (pin s)(bn := pin s bn + 1)"
    by (rule bread_block [OF assms(1,2) ne fr assms(4)]) blast
  have b: "b \<in> insert b {}" by simp
  have "b_refcnt (bufs t b) = pin s bn + 1"
    using view_lookup(3) [OF heldD(4) [OF t(2)] heldD(5,6) [OF t(2) b] t(3)] t(7) by simp
  then have "b_data (bufs t b) = disk t bn" if "b_refcnt (bufs t b) = 1"
    using that view_unpinned [OF heldD(4) [OF assms(1)], of bn] t(4,5) by simp
  then obtain u where u: "brelse b t = Done () u" "held p d (insert b {} - {b}) u" "disk u = disk t" "view u = view t"
    "pin u = (pin t)(bn := pin t bn - 1)"
    by (rule brelse_run [OF t(2) b t(3)]) blast
  have "sl_locked (sleeplocks t (BufSleep b))" using heldD(9) [OF t(2) b] .
  moreover have "pin u = pin s" using u(5) t(7) by simp
  ultimately show ?thesis using t u by (intro exI [of _ b] exI [of _ t] exI [of _ u]) simp
qed

text \<open>
  C30 (error). Replacement in the cache: for a block without a buffer \<open>bget\<close> recycles the unused buffer that was
  released longest ago, and panics exactly when every buffer is in use; \<open>brelse\<close> of the last
  reference puts the buffer at the front of the list.
\<close>

theorem bget_recycles_least_recently_used:
  assumes "held p d H s" and "lru (bufs s) xs" and "lookup (bufs s) bn = None"
  shows "(case find (\<lambda>b. b_refcnt (bufs s b) = 0) (rev xs) of
      Some b \<Rightarrow> \<exists>t. bget d bn s = Done b t \<and> b_blockno (bufs t b) = bn \<and> \<not> b_valid (bufs t b)
    | None \<Rightarrow> bget d bn s = Panic ''bget: no buffers'')
    \<and> (\<forall>b. b \<in> H \<longrightarrow> (\<exists>t. brelse b s = Done () t
          \<and> lru (bufs t) (if b_refcnt (bufs s b) = 1 then b # remove1 b xs else xs)))"
proof -
  let ?B = "bufs s"
  note q = heldD(1) [OF assms(1)] and ok = heldD(4) [OF assms(1)] and d = heldD(3) [OF assms(1)]
  have len: "length xs \<le> NBUF" and link: "linked ?B bhead xs bhead" and bh: "bhead \<notin> set xs"
    and set: "set xs = {..<NBUF}" using assms(2) lru_bhead [OF assms(2)] by (auto simp: lru_def)
  have scan: "scan_next NBUF (\<lambda>x. b_dev x = d \<and> b_blockno x = bn) (b_next (?B bhead)) (hold BcacheLock s)
      = Done None (hold BcacheLock s)"
    using scan_next_run [of "hold BcacheLock s" bhead xs NBUF "\<lambda>x. b_dev x = d \<and> b_blockno x = bn"] link bh len
      find_lru [OF ok d set] assms(3) by simp
  have pscan: "scan_prev NBUF (\<lambda>x. b_refcnt x = 0) (b_prev (?B bhead)) (hold BcacheLock s)
      = Done (find (\<lambda>b. b_refcnt (?B b) = 0) (rev xs)) (hold BcacheLock s)"
    using scan_prev_run [of "hold BcacheLock s" xs bhead NBUF "\<lambda>x. b_refcnt x = 0"] link bh len by simp
  have "case find (\<lambda>b. b_refcnt (?B b) = 0) (rev xs) of
      Some b \<Rightarrow> \<exists>t. bget d bn s = Done b t \<and> b_blockno (bufs t b) = bn \<and> \<not> b_valid (bufs t b)
    | None \<Rightarrow> bget d bn s = Panic ''bget: no buffers''"
  proof (cases "find (\<lambda>b. b_refcnt (?B b) = 0) (rev xs)")
    case None
    then show ?thesis using scan pscan q by (simp add: bget_def kseq_run kbind_run acquire_quiet)
  next
    case (Some b)
    then have b: "b < NBUF" "b_refcnt (?B b) = 0" using set find_SomeD [OF Some] by simp_all
    then have nl: "\<not> sl_locked (sleeplocks s (BufSleep b))" using heldD(8,11) [OF assms(1)] by blast
    let ?x = "(?B b)\<lparr>b_dev := d, b_blockno := bn, b_valid := False, b_refcnt := 1\<rparr>"
    have "acquiresleep (BufSleep b) (s\<lparr>bufs := ?B(b := ?x)\<rparr>)
        = Done () (sl_take (BufSleep b) (p_pid (procs s p)) (s\<lparr>bufs := ?B(b := ?x)\<rparr>))"
      using acquiresleep_run [of p "s\<lparr>bufs := ?B(b := ?x)\<rparr>" "BufSleep b"] q nl by simp
    then show ?thesis using scan pscan Some q
      by (simp add: bget_def kseq_run kbind_run acquire_quiet release_quiet sl_take_def)
  qed
  moreover have "\<exists>t. brelse b s = Done () t \<and> lru (bufs t) (if b_refcnt (?B b) = 1 then b # remove1 b xs else xs)"
    if "b \<in> H" for b
    using brelse_step [OF q heldD(9,10) [OF assms(1) that]] released_facts(1) [OF assms(2) heldD(5) [OF assms(1) that]]
    by simp
  ultimately show ?thesis by blast
qed

text \<open>
  A machine for the witnesses: the processes of \<^const>\<open>small_ptable\<close> with the buffers \<open>B\<close> and the
  disk \<open>D\<close>; \<open>chained B\<close> gives buffers the links of a list in the order of their numbers.
\<close>

definition disk_vm :: "(nat \<Rightarrow> buf) \<Rightarrow> (u32 \<Rightarrow> bytes) \<Rightarrow> kvirtio" where
  "disk_vm B D = kproc.extend small_ptable
     \<lparr>sleeplocks = (\<lambda>_. \<lparr>sl_locked = False, sl_name = [], sl_pid = 0\<rparr>), bufs = B,
      vd_desc = (\<lambda>_. clear_desc), vd_avail_idx = 0, vd_avail_ring = (\<lambda>_. 0), vd_used_idx = 0, vd_used_ring = (\<lambda>_. 0),
      vd_free = (\<lambda>_. True), vd_seen = 0, vd_info_b = (\<lambda>_. None), vd_info_status = (\<lambda>_. 0),
      vd_ops = (\<lambda>_. \<lparr>req_type = 0, req_reserved = 0, req_sector = 0\<rparr>), dev_seen = 0, mmio = [],
      disk = D, disk_writes = []\<rparr>"

definition empty_buf :: buf where
  "empty_buf = \<lparr>b_valid = False, b_disk = False, b_dev = 0, b_blockno = 0, b_refcnt = 0, b_prev = 0, b_next = 0,
     b_data = (\<lambda>_. 0)\<rparr>"

definition chained :: "(nat \<Rightarrow> buf) \<Rightarrow> nat \<Rightarrow> buf" where
  "chained B i = (B i)\<lparr>b_next := (if i = NBUF then 0 else i + 1), b_prev := (if i = 0 then NBUF else i - 1)\<rparr>"

lemma chained_linked:
  assumes "k \<le> NBUF"
  shows "linked (chained B) (if k = 0 then NBUF else k - 1) [k..<NBUF] NBUF"
  using assms
proof (induction "NBUF - k" arbitrary: k)
  case 0
  then show ?case by (auto simp: chained_def NBUF_def MAXOPBLOCKS_def)
next
  case (Suc n)
  then have k: "k < NBUF" by simp
  have "linked (chained B) k [Suc k..<NBUF] NBUF" using Suc.hyps(1) [of "Suc k"] Suc.hyps(2) k by simp
  moreover have "k - 1 \<noteq> NBUF" using k by linarith
  ultimately show ?case using k by (auto simp: upt_conv_Cons chained_def)
qed

lemma chained_lru: "lru (chained B) [0..<NBUF]"
  using chained_linked [of 0 B] by (simp add: lru_def atLeast0LessThan)

lemma disk_vm_quiet: "quiet 0 (disk_vm B D)" "vq_idle (disk_vm B D)" "bufs (disk_vm B D) = B" "disk (disk_vm B D) = D"
  "sleeplocks (disk_vm B D) l = \<lparr>sl_locked = False, sl_name = [], sl_pid = 0\<rparr>"
proof -
  have s: "quiet 0 small_ptable"
  proof -
    have "\<not> fs_chan c" if "p_state (procs small_ptable i) = SLEEPING" "p_chan (procs small_ptable i) = Some c" for i c
    proof -
      consider "i = 0" | "i = Suc 0" | "i = 2" | "2 < i" by linarith
      then show ?thesis using that by cases (auto simp: no_proc_def small_ptable_others)
    qed
    then show ?thesis by (auto simp: quiet_def)
  qed
  then show "quiet 0 (disk_vm B D)"
    by (simp add: quiet_def disk_vm_def kproc.defs machine_ok_def myproc_def cpu_defs)
qed (simp_all add: disk_vm_def kproc.defs vq_idle_def)

lemma disk_vm_held:
  assumes "contents_ok 1 (chained B) D"
  shows "held 0 1 {} (disk_vm (chained B) D)"
  using assms chained_lru [of B] disk_vm_quiet [of "chained B" D] by (auto simp: held_def)

lemma empty_contents: "contents_ok 1 (chained (\<lambda>_. empty_buf)) D"
  by (simp add: contents_ok_def chained_def empty_buf_def)

lemma empty_pins: "pins (chained (\<lambda>_. empty_buf)) = (\<lambda>_. 0)" "lookup (chained (\<lambda>_. empty_buf)) bn = None"
proof -
  show l: "lookup (chained (\<lambda>_. empty_buf)) bn = None" for bn
    by (simp add: lookup_None chained_def empty_buf_def)
  show "pins (chained (\<lambda>_. empty_buf)) = (\<lambda>_. 0)" by (simp add: pins_def l fun_eq_iff)
qed

definition disk0 :: "u32 \<Rightarrow> bytes" where
  "disk0 = (\<lambda>bn a. if bn = 3 then 7 else 0)"

definition empty_cache :: kvirtio where
  "empty_cache = disk_vm (chained (\<lambda>_. empty_buf)) disk0"

lemma empty_cache_facts: "quiet 0 empty_cache" "vq_idle empty_cache" "held 0 1 {} empty_cache"
  "lookup (bufs empty_cache) bn = None" "pin empty_cache bn = 0" "busy empty_cache = {}"
  "b_blockno (bufs empty_cache b) = 0" "b_refcnt (bufs empty_cache b) = 0" "b_valid (bufs empty_cache b) = False"
  "lru (bufs empty_cache) [0..<NBUF]" "disk empty_cache = disk0"
proof -
  show "held 0 1 {} empty_cache" using disk_vm_held [OF empty_contents] by (simp add: empty_cache_def)
  have B: "bufs empty_cache = chained (\<lambda>_. empty_buf)" by (simp add: empty_cache_def disk_vm_quiet)
  show "b_refcnt (bufs empty_cache b) = 0" "b_valid (bufs empty_cache b) = False" "b_blockno (bufs empty_cache b) = 0" for b
    by (simp_all add: B chained_def empty_buf_def)
  show "busy empty_cache = {}" by (simp add: busy_def B empty_pins)
qed (simp_all add: empty_cache_def disk_vm_quiet empty_pins chained_lru)

lemma empty_cache_view: "view empty_cache = disk0"
  by (simp add: block_view_def fun_eq_iff empty_cache_facts(4,11))

theorem virtio_disk_rw_transfers_witness:
  "\<exists>t. virtio_disk_rw 5 False empty_cache = Done () t \<and> vq_idle t \<and> b_data (bufs t 5) = disk0 0
     \<and> b_blockno (bufs t 4) = 0"
proof -
  obtain t where t: "virtio_disk_rw 5 False empty_cache = Done () t" "vq_idle t"
    "(bufs t)(5 := empty_buf) = (bufs empty_cache)(5 := empty_buf)" "b_data (bufs t 5) = disk0 0"
    using virtio_disk_rw_transfers [OF empty_cache_facts(1,2,7), of 5 False empty_buf] by (auto simp: empty_cache_facts(11))
  have "bufs t 4 = bufs empty_cache 4" using fun_cong [OF t(3), of 4] by simp
  then show ?thesis using t by (intro exI [of _ t]) (simp add: empty_cache_facts(7))
qed

theorem buffer_cache_transparent_witness:
  "\<exists>b t u. bread 1 3 empty_cache = Done b t \<and> b_data (bufs t b) = (\<lambda>_. 7) \<and> brelse b t = Done () u \<and> view u = disk0"
proof -
  have "disk0 3 = (\<lambda>_. 7)" "(3::u32) < 2 ^ 31" "pin empty_cache 3 + 1 \<noteq> 0" "card (busy empty_cache) < NBUF"
    by (simp_all add: disk0_def empty_cache_facts(5,6) NBUF_def MAXOPBLOCKS_def)
  then show ?thesis using buffer_cache_transparent [OF empty_cache_facts(3), of 3]
    unfolding empty_cache_view by metis
qed

theorem bget_recycles_least_recently_used_witness:
  "\<exists>t. bget 1 3 empty_cache = Done 29 t \<and> b_blockno (bufs t 29) = 3 \<and> \<not> b_valid (bufs t 29)"
proof -
  have "rev [0..<NBUF] = 29 # rev [0..<29]" by (simp add: NBUF_def MAXOPBLOCKS_def upt_rec numeral_nat)
  then have "find (\<lambda>b. b_refcnt (bufs empty_cache b) = 0) (rev [0..<NBUF]) = Some 29"
    by (simp add: empty_cache_facts(8))
  then show ?thesis using bget_recycles_least_recently_used [OF empty_cache_facts(3,10) empty_cache_facts(4) [of 3]] by simp
qed

end
