(* ===== verification/Log_Commit.thy ===== *)
theory Log_Commit
  imports Fs_Data Bcache
begin

text \<open>
  Crash safety of the log: a transaction reaches the disk as a whole or not at all. \<open>commit\<close> is run to
  its end and its disk writes are listed; for a crash after any number of them, \<open>recover_from_log\<close> on
  the disk left behind restores either the state before the transaction or the state after it. A disk write of
  one block is atomic.
\<close>

subsection \<open>Copying blocks\<close>

lemma kvirtio_field_mod [simp]:
  "fsmod s t \<Longrightarrow> lh_n t = lh_n s" "fsmod s t \<Longrightarrow> lh_block t = lh_block s" "fsmod s t \<Longrightarrow> log_dev t = log_dev s"
  "fsmod s t \<Longrightarrow> log_start t = log_start s"
  unfolding fsmod_def by (elim exE, erule ssubst, simp add: vd_set_def)+

text \<open>Reading \<open>a\<close> and \<open>b\<close> and copying the one to the other, in the two orders of the code.\<close>

lemma two_blocks:
  assumes h: "held p d {} s" and ab: "a < 2 ^ 31" "b < 2 ^ 31" "a \<noteq> b"
    and free: "pin s a \<noteq> 0 \<or> pin s b \<noteq> 0 \<or> Suc (card (busy s)) < NBUF" "card (busy s) < NBUF"
    and pins: "pin s a + 1 \<noteq> 0" "pin s b + 1 \<noteq> 0"
  obtains x y t u where "bread d a s = Done x t" and "bread d b t = Done y u" and "fsmod s u" and "fsmod s t"
    and "held p d {x, y} u" and "x \<noteq> y" and "b_blockno (bufs u x) = a" and "b_blockno (bufs u y) = b"
    and "b_data (bufs u x) = view s a" and "b_data (bufs u y) = view s b" and "disk u = disk s"
    and "disk_writes u = disk_writes s" and "view u = view s"
    and "pin u = (pin s)(a := pin s a + 1, b := pin s b + 1)"
proof -
  have fa: "pin s a \<noteq> 0 \<or> card (busy s) < NBUF" using free(2) by simp
  obtain x t where x: "bread d a s = Done x t" "fsmod s t" "held p d (insert x {}) t"
    "b_blockno (bufs t x) = a" "b_data (bufs t x) = view s a" "disk t = disk s"
    "disk_writes t = disk_writes s" "view t = view s" "pin t = (pin s)(a := pin s a + 1)"
    using bread_block [OF h ab(1) _ fa pins(1)] by (metis empty_iff)
  have "busy t = insert a (busy s)" using pins(1) x(9) by (auto simp: busy_def)
  then have bt: "card (busy t) \<le> Suc (card (busy s))" "pin s a \<noteq> 0 \<Longrightarrow> busy t = busy s"
    by (auto simp: card_insert_if busy_def)
  have fb: "pin t b \<noteq> 0 \<or> card (busy t) < NBUF" using free bt x(9) ab(3) by (auto simp: fun_upd_def)
  have pb: "pin t b + 1 \<noteq> 0" "pin t b = pin s b" using pins(2) x(9) ab(3) by simp_all
  have ne: "\<forall>c \<in> insert x {}. b_blockno (bufs t c) \<noteq> b" using x(4) ab(3) by simp
  obtain y u where y: "bread d b t = Done y u" "fsmod t u" "held p d (insert y {x}) u" "y \<notin> {x}"
    "b_blockno (bufs u y) = b" "b_data (bufs u y) = view t b" "disk u = disk t"
    "disk_writes u = disk_writes t" "view u = view t" "pin u = (pin t)(b := pin t b + 1)"
    "\<And>i. i \<noteq> y \<Longrightarrow> bufs u i = bufs t i"
    by (rule bread_block [OF x(3) ab(2) ne fb pb(1)]) blast
  have "bufs u x = bufs t x" using y(4,11) by simp
  then show thesis using x y pb(2) fsmod_trans [OF x(2) y(2)]
    by (intro that [of x t y u]) (simp_all add: insert_commute)
qed

lemma modify_write:
  assumes h: "held p d H u" and z: "z \<in> H" "b_blockno (bufs u z) = bn"
  obtains w where "bwrite z (u\<lparr>bufs := (bufs u)(z := (bufs u z)\<lparr>b_data := c\<rparr>)\<rparr>) = Done () w" and "fsmod u w"
    and "held p d H w" and "disk w = (disk u)(bn := c)" and "disk_writes w = disk_writes u @ [(bn, c)]"
    and "view w = (view u)(bn := c)" and "pin w = pin u"
    and "\<forall>i. b_blockno (bufs w i) = b_blockno (bufs u i) \<and> b_data (bufs w i) = (if i = z then c else b_data (bufs u i))"
proof -
  let ?m = "u\<lparr>bufs := (bufs u)(z := (bufs u z)\<lparr>b_data := c\<rparr>)\<rparr>"
  note m = bmodify_run [OF h z refl, of c]
  have zm: "b_blockno (bufs ?m z) = bn" using z(2) by simp
  obtain w where w: "bwrite z ?m = Done () w" "fsmod ?m w" "held p d H w"
    "disk w = (disk ?m)(bn := b_data (bufs ?m z))" "disk_writes w = disk_writes ?m @ [(bn, b_data (bufs ?m z))]"
    "view w = view ?m" "pin w = pin ?m"
    "\<And>i. b_blockno (bufs w i) = b_blockno (bufs ?m i) \<and> b_data (bufs w i) = b_data (bufs ?m i)"
    by (rule bwrite_run [OF m(1) z(1) zm]) blast
  show thesis
    using w fsmod_trans [OF m(4) w(2)] m(2,3) z(2) by (intro that [of w]) simp_all
qed

lemma release_block:
  assumes h: "held p d H s" and b: "b \<in> H" "b_blockno (bufs s b) = bn"
    and clean: "pin s bn = 1 \<Longrightarrow> b_data (bufs s b) = disk s bn"
  obtains t where "brelse b s = Done () t" and "fsmod s t" and "held p d (H - {b}) t"
    and "disk t = disk s" and "disk_writes t = disk_writes s" and "view t = view s"
    and "pin t = (pin s)(bn := pin s bn - 1)"
    and "\<forall>i. b_blockno (bufs t i) = b_blockno (bufs s i) \<and> b_data (bufs t i) = b_data (bufs s i)"
proof -
  have "b_refcnt (bufs s b) = pin s bn"
    using view_lookup(3) [OF heldD(4) [OF h] heldD(5,6) [OF h b(1)] b(2)] by simp
  then have "b_refcnt (bufs s b) = 1 \<Longrightarrow> b_data (bufs s b) = disk s bn" using clean by simp
  from brelse_run [OF h b this] show thesis using that by metis
qed

text \<open>What is left to do after \<open>two_blocks\<close>: release both.\<close>

lemma release_two:
  assumes h: "held p d {x, y} u" and xy: "x \<noteq> y" "b_blockno (bufs u x) = a" "b_blockno (bufs u y) = b" "a \<noteq> b"
    and clean: "pin u a = 1 \<Longrightarrow> b_data (bufs u x) = disk u a" "pin u b = 1 \<Longrightarrow> b_data (bufs u y) = disk u b"
  obtains t where "kseq (brelse x) (brelse y) u = Done () t" and "fsmod u t" and "held p d {} t"
    and "disk t = disk u" and "disk_writes t = disk_writes u" and "view t = view u"
    and "pin t = (pin u)(a := pin u a - 1, b := pin u b - 1)"
proof -
  have xin: "x \<in> {x, y}" by simp
  obtain v where v: "brelse x u = Done () v" "fsmod u v" "held p d ({x, y} - {x}) v" "disk v = disk u"
    "disk_writes v = disk_writes u" "view v = view u" "pin v = (pin u)(a := pin u a - 1)"
    "\<forall>i. b_blockno (bufs v i) = b_blockno (bufs u i) \<and> b_data (bufs v i) = b_data (bufs u i)"
    by (rule release_block [OF h xin xy(2) clean(1)])
  have yin: "y \<in> {x, y} - {x}" and yb: "b_blockno (bufs v y) = b" and "pin v b = pin u b"
    using xy v(7,8) by simp_all
  then have "pin v b = 1 \<Longrightarrow> b_data (bufs v y) = disk v b" using clean(2) v(4,8) by simp
  then obtain t where t: "brelse y v = Done () t" "fsmod v t" "held p d ({x, y} - {x} - {y}) t" "disk t = disk v"
    "disk_writes t = disk_writes v" "view t = view v" "pin t = (pin v)(b := pin v b - 1)"
    using release_block [OF v(3) yin yb] by metis
  have "{x, y} - {x} - {y} = {}" by auto
  then have "held p d {} t" using t(3) by (simp only:)
  then show thesis using v t fsmod_trans [OF v(2) t(2)] \<open>pin v b = pin u b\<close>
    by (intro that [of t]) (simp_all add: kseq_run)
qed

text \<open>The effect of copying the current contents of block \<open>b\<close> to block \<open>a\<close>, on the disk too.\<close>

definition copied :: "u32 \<Rightarrow> bytes \<Rightarrow> 'z kvirtio_scheme \<Rightarrow> 'z kvirtio_scheme \<Rightarrow> bool" where
  "copied a c s t \<longleftrightarrow> fsmod s t \<and> disk t = (disk s)(a := c) \<and> disk_writes t = disk_writes s @ [(a, c)]
     \<and> view t = (view s)(a := c)"

lemma write_log_block_run:
  assumes h: "held p (log_dev s) {} s" and a: "a = log_start s + of_nat i + 1" and b: "b = lh_block s i"
    and ab: "a < 2 ^ 31" "b < 2 ^ 31" "a \<noteq> b"
    and free: "pin s b \<noteq> 0" "card (busy s) < NBUF" and pins: "pin s a + 1 \<noteq> 0" "pin s b + 1 \<noteq> 0"
  obtains t where "write_log_block i s = Done () t" and "held p (log_dev s) {} t" and "copied a (view s b) s t"
    and "pin t = pin s"
proof -
  have fr: "pin s a \<noteq> 0 \<or> pin s b \<noteq> 0 \<or> Suc (card (busy s)) < NBUF" using free(1) by simp
  obtain x y t u where two: "bread (log_dev s) a s = Done x t" "bread (log_dev s) b t = Done y u" "fsmod s u"
    "held p (log_dev s) {x, y} u" "x \<noteq> y" "b_blockno (bufs u x) = a" "b_blockno (bufs u y) = b"
    "b_data (bufs u x) = view s a" "b_data (bufs u y) = view s b" "disk u = disk s"
    "disk_writes u = disk_writes s" "view u = view s" "pin u = (pin s)(a := pin s a + 1, b := pin s b + 1)"
    by (rule two_blocks [OF h ab fr free(2) pins])
  have xin: "x \<in> {x, y}" by simp
  obtain w where w: "bwrite x (u\<lparr>bufs := (bufs u)(x := (bufs u x)\<lparr>b_data := view s b\<rparr>)\<rparr>) = Done () w" "fsmod u w"
    "held p (log_dev s) {x, y} w" "disk w = (disk u)(a := view s b)" "disk_writes w = disk_writes u @ [(a, view s b)]"
    "view w = (view u)(a := view s b)" "pin w = pin u"
    "\<forall>i. b_blockno (bufs w i) = b_blockno (bufs u i) \<and> b_data (bufs w i) = (if i = x then view s b else b_data (bufs u i))"
    by (rule modify_write [OF two(4) xin two(6)])
  have hw: "held p (log_dev s) {y, x} w" using w(3) by (simp add: insert_commute)
  have cb: "b_data (bufs w y) = disk w b" if "pin w b = 1"
    using that w(4,7,8) two(5,9,10,13) ab(3) view_unpinned [OF heldD(4) [OF h], of b] by simp
  have ca: "b_data (bufs w x) = disk w a" using w(4,8) by simp
  have yw: "b_blockno (bufs w y) = b" "b_blockno (bufs w x) = a" using w(8) two(6,7) by simp_all
  obtain v where v: "kseq (brelse y) (brelse x) w = Done () v" "fsmod w v" "held p (log_dev s) {} v" "disk v = disk w"
    "disk_writes v = disk_writes w" "view v = view w" "pin v = (pin w)(b := pin w b - 1, a := pin w a - 1)"
    by (rule release_two [OF hw two(5) [symmetric] yw ab(3) [symmetric] cb ca])
  have "write_log_block i s = kseq (brelse y) (brelse x) w"
    using two(1,2,9) w(1) a b by (simp add: write_log_block_def kbind_run kseq_run)
  moreover have "pin v = pin s" using v(7) w(7) two(13) ab(3) by (auto simp: fun_eq_iff)
  moreover have "copied a (view s b) s v"
    using v w two fsmod_trans [OF two(3) fsmod_trans [OF w(2) v(2)]] by (simp add: copied_def)
  ultimately show thesis using v(1,3) that by simp
qed

lemma install_block_run:
  assumes h: "held p (log_dev s) {} s" and a: "a = log_start s + of_nat i + 1" and b: "b = lh_block s i"
    and ab: "a < 2 ^ 31" "b < 2 ^ 31" "a \<noteq> b"
    and free: "pin s b \<noteq> 0 \<or> Suc (card (busy s)) < NBUF" "card (busy s) < NBUF"
    and pins: "pin s a = 0" "pin s b + 1 \<noteq> 0" "rec \<or> pin s b \<noteq> 0"
  obtains t where "install_block rec i s = Done () t" and "held p (log_dev s) {} t" and "copied b (view s a) s t"
    and "pin t = (if rec then pin s else (pin s)(b := pin s b - 1))"
proof -
  have fr: "pin s a \<noteq> 0 \<or> pin s b \<noteq> 0 \<or> Suc (card (busy s)) < NBUF" and pa: "pin s a + 1 \<noteq> 0"
    using free(1) pins(1) by auto
  obtain x y t u where two: "bread (log_dev s) a s = Done x t" "bread (log_dev s) b t = Done y u" "fsmod s u"
    "held p (log_dev s) {x, y} u" "x \<noteq> y" "b_blockno (bufs u x) = a" "b_blockno (bufs u y) = b"
    "b_data (bufs u x) = view s a" "b_data (bufs u y) = view s b" "disk u = disk s"
    "disk_writes u = disk_writes s" "view u = view s" "pin u = (pin s)(a := pin s a + 1, b := pin s b + 1)"
    by (rule two_blocks [OF h ab fr free(2) pa pins(2)])
  have yin: "y \<in> {x, y}" by simp
  obtain w where w: "bwrite y (u\<lparr>bufs := (bufs u)(y := (bufs u y)\<lparr>b_data := view s a\<rparr>)\<rparr>) = Done () w" "fsmod u w"
    "held p (log_dev s) {x, y} w" "disk w = (disk u)(b := view s a)" "disk_writes w = disk_writes u @ [(b, view s a)]"
    "view w = (view u)(b := view s a)" "pin w = pin u"
    "\<forall>i. b_blockno (bufs w i) = b_blockno (bufs u i) \<and> b_data (bufs w i) = (if i = y then view s a else b_data (bufs u i))"
    by (rule modify_write [OF two(4) yin two(7)])
  have yw: "b_blockno (bufs w y) = b" "b_blockno (bufs w x) = a" using w(8) two(6,7) by simp_all
  obtain r where r: "kwhen (\<not> rec) (bunpin y) w = Done () r" "fsmod w r" "held p (log_dev s) {x, y} r"
    "disk r = disk w" "disk_writes r = disk_writes w" "view r = view w"
    "pin r = (if rec then pin w else (pin w)(b := pin w b - 1))"
    "\<forall>i. b_blockno (bufs r i) = b_blockno (bufs w i) \<and> b_data (bufs r i) = b_data (bufs w i)"
  proof (cases "rec")
    case True
    have "fsmod w w" using fsmod_bufs [of w "bufs w"] by simp
    then show ?thesis using True w(3) by (intro that [of w]) simp_all
  next
    case False
    then have "pin w b \<noteq> 1" using w(7) two(13) ab(3) pins(3) by simp
    from bunpin_run [OF w(3) yin yw(1) this] show ?thesis using False that by (metis (no_types, lifting) kwhen_run)
  qed
  have cx: "b_data (bufs r x) = disk r a"
    using r(4,8) w(4,8) two(5,8,10) ab(3) pins(1) view_unpinned [OF heldD(4) [OF h], of a] by simp
  have cy: "b_data (bufs r y) = disk r b" using r(4,8) w(4,8) by simp
  have yr: "b_blockno (bufs r x) = a" "b_blockno (bufs r y) = b" using r(8) yw by simp_all
  obtain v where v: "kseq (brelse x) (brelse y) r = Done () v" "fsmod r v" "held p (log_dev s) {} v" "disk v = disk r"
    "disk_writes v = disk_writes r" "view v = view r" "pin v = (pin r)(a := pin r a - 1, b := pin r b - 1)"
    by (rule release_two [OF r(3) two(5) yr ab(3) cx cy])
  have "install_block rec i s = kseq (brelse x) (brelse y) r"
    using two(1,2,8) w(1) r(1) a b by (simp add: install_block_def kbind_run kseq_run)
  moreover have "pin v = (if rec then pin s else (pin s)(b := pin s b - 1))"
    using v(7) r(7) w(7) two(13) ab(3) by (auto simp: fun_eq_iff)
  moreover have "copied b (view s a) s v"
    using v r w two fsmod_trans [OF two(3) fsmod_trans [OF w(2) fsmod_trans [OF r(2) v(2)]]]
    by (simp add: copied_def)
  ultimately show thesis using v(1,3) that by simp
qed

subsection \<open>The header\<close>

text \<open>The header block that \<open>write_head\<close> writes over the old one.\<close>

definition head_data :: "bytes \<Rightarrow> nat \<Rightarrow> (nat \<Rightarrow> u32) \<Rightarrow> bytes" where
  "head_data old n blocks = write_addrs (write32 old 0 (of_nat n)) 4 blocks n"

lemma head_data_read:
  assumes "n \<le> LOGSIZE"
  shows "read32 (head_data old n blocks) 0 = of_nat n"
    and "i < n \<Longrightarrow> read32 (head_data old n blocks) (lh_off i) = blocks i"
proof -
  have n: "n < 2 ^ 60" using assms by (simp add: LOGSIZE_def MAXOPBLOCKS_def)
  show "read32 (head_data old n blocks) (lh_off i) = blocks i" if "i < n"
    using write_addrs_read [OF that n] by (simp add: head_data_def lh_off_def)
  have "\<not> in_region 4 (4 * n) x" if "in_region 0 4 x" for x
    using region_apart [of 0 0 4 x 4 "4 * n"] that n by simp
  then have "read32 (head_data old n blocks) 0 = read32 (write32 old 0 (of_nat n)) 0"
    unfolding head_data_def using n by (intro read_le_cong) (simp add: write_addrs_outside)
  then show "read32 (head_data old n blocks) 0 = of_nat n" by simp
qed

lemma write_entries_run:
  "kfor [0..<n] (\<lambda>i. kbind (kget (\<lambda>s. lh_block s i)) (\<lambda>bn.
      bset b (\<lambda>x. x\<lparr>b_data := write32 (b_data x) (lh_off i) bn\<rparr>))) s
   = Done () (s\<lparr>bufs := (bufs s)(b := (bufs s b)\<lparr>b_data := write_addrs (b_data (bufs s b)) 4 (lh_block s) n\<rparr>)\<rparr>)"
proof (induction n)
  case 0
  then show ?case by simp
next
  case (Suc n)
  show ?case
    by (simp only: upt_Suc_append [OF le0] kfor_append kseq_run Suc.IH outcome.case kfor.simps)
      (simp add: kseq_run kbind_run lh_off_def, rule arg_cong [where f = "\<lambda>f. s\<lparr>bufs := f\<rparr>"], rule ext, simp)
qed

lemma write_head_run:
  assumes h: "held p (log_dev s) {} s" and n: "lh_n s = int n" and st: "log_start s < 2 ^ 31"
    and pins: "pin s (log_start s) = 0" "card (busy s) < NBUF"
  obtains t where "write_head s = Done () t" and "held p (log_dev s) {} t" and "pin t = pin s"
    and "copied (log_start s) (head_data (view s (log_start s)) n (lh_block s)) s t"
proof -
  let ?a = "log_start s" and ?d = "log_dev s"
  let ?c = "head_data (view s ?a) n (lh_block s)"
  obtain b t where b: "bread ?d ?a s = Done b t" "fsmod s t" "held p ?d (insert b {}) t"
    "b_blockno (bufs t b) = ?a" "b_data (bufs t b) = view s ?a" "disk t = disk s" "disk_writes t = disk_writes s"
    "view t = view s" "pin t = (pin s)(?a := pin s ?a + 1)"
    using bread_block [OF h st, simplified] pins by (metis add_0 zero_neq_one)
  have bin: "b \<in> insert b {}" by simp
  obtain w where w: "bwrite b (t\<lparr>bufs := (bufs t)(b := (bufs t b)\<lparr>b_data := ?c\<rparr>)\<rparr>) = Done () w" "fsmod t w"
    "held p ?d (insert b {}) w" "disk w = (disk t)(?a := ?c)" "disk_writes w = disk_writes t @ [(?a, ?c)]"
    "view w = (view t)(?a := ?c)" "pin w = pin t"
    "\<forall>i. b_blockno (bufs w i) = b_blockno (bufs t i) \<and> b_data (bufs w i) = (if i = b then ?c else b_data (bufs t i))"
    by (rule modify_write [OF b(3) bin b(4)])
  have "b_blockno (bufs w b) = ?a" "b_data (bufs w b) = disk w ?a" using w(4,8) b(4) by simp_all
  then obtain v where v: "brelse b w = Done () v" "fsmod w v" "held p ?d (insert b {} - {b}) v" "disk v = disk w"
    "disk_writes v = disk_writes w" "view v = view w" "pin v = (pin w)(?a := pin w ?a - 1)"
    using release_block [OF w(3) bin, of ?a] by metis
  have wa: "write32 (b_data (bufs t b)) 0 (word_of_int (int n)) = write32 (view s ?a) 0 (of_nat n)"
    using b(5) by simp
  have "write_head s = brelse b w"
    using b(1,2) w(1) n wa
    by (simp add: write_head_def kbind_run kseq_run write_entries_run head_data_def)
  moreover have "pin v = pin s" using v(7) w(7) b(9) by (auto simp: fun_eq_iff)
  moreover have "copied ?a ?c s v"
    using v w b fsmod_trans [OF b(2) fsmod_trans [OF w(2) v(2)]] by (simp add: copied_def)
  ultimately show thesis using v(1,3) that by simp
qed

subsection \<open>Sequences of disk writes\<close>

definition apply_writes :: "(u32 \<times> bytes) list \<Rightarrow> (u32 \<Rightarrow> bytes) \<Rightarrow> (u32 \<Rightarrow> bytes)" where
  "apply_writes ws D = fold (\<lambda>(bn, c) D. D(bn := c)) ws D"

lemma apply_writes_simps [simp]:
  "apply_writes [] D = D" "apply_writes ((bn, c) # ws) D = apply_writes ws (D(bn := c))"
  "apply_writes (ws @ ws') D = apply_writes ws' (apply_writes ws D)"
  by (simp_all add: apply_writes_def)

lemma apply_writes_other: "bn \<notin> fst ` set ws \<Longrightarrow> apply_writes ws D bn = D bn"
  by (induction ws arbitrary: D) auto

lemma apply_writes_at:
  "apply_writes ws D bn = (case map_of (rev ws) bn of Some c \<Rightarrow> c | None \<Rightarrow> D bn)"
  by (induction ws arbitrary: D) (auto simp: map_add_def split: option.splits)

lemma apply_writes_same: "D bn = E bn \<Longrightarrow> apply_writes ws D bn = apply_writes ws E bn"
  unfolding apply_writes_at by (erule arg_cong)

lemma apply_writes_map:
  assumes "distinct is" and "inj_on f (set is)" and "i \<in> set is"
  shows "apply_writes (map (\<lambda>i. (f i, c i)) is) D (f i) = c i"
  using assms
proof (induction "is" arbitrary: D)
  case (Cons j js)
  show ?case
  proof (cases "i = j")
    case True
    then have "f i \<notin> f ` set js" using Cons.prems by (auto simp: inj_on_def)
    then show ?thesis using True by (simp add: apply_writes_other image_image)
  next
    case False
    then show ?thesis using Cons by (simp add: inj_on_insert)
  qed
qed simp

definition logged :: "(u32 \<times> bytes) list \<Rightarrow> 'z kvirtio_scheme \<Rightarrow> 'z kvirtio_scheme \<Rightarrow> bool" where
  "logged ws s t \<longleftrightarrow> fsmod s t \<and> disk t = apply_writes ws (disk s) \<and> disk_writes t = disk_writes s @ ws
     \<and> view t = apply_writes ws (view s)"

lemma logged_copied: "copied a c s t \<longleftrightarrow> logged [(a, c)] s t"
  by (simp add: copied_def logged_def)

lemma logged_view: "logged ws s t \<Longrightarrow> view t = apply_writes ws (view s)"
  and logged_disk: "logged ws s t \<Longrightarrow> disk t = apply_writes ws (disk s)"
  and logged_mod: "logged ws s t \<Longrightarrow> fsmod s t"
  unfolding logged_def by blast+

lemma logged_refl: "logged [] s s"
  using fsmod_bufs [of s "bufs s"] by (simp add: logged_def)

lemma logged_trans: "logged ws s t \<Longrightarrow> logged ws' t u \<Longrightarrow> logged (ws @ ws') s u"
  using fsmod_trans by (auto simp: logged_def)

lemma klog_updates [simp]:
  "held p d H (lh_n_update f1 s) = held p d H s" "held p d H (lh_block_update f2 s) = held p d H s"
  by (simp_all add: held_def quiet_def vq_idle_def machine_ok_def myproc_def cpu_defs)

subsection \<open>The state at a commit\<close>

text \<open>The blocks of the log: the header at \<open>st\<close> and the log blocks after it.\<close>

definition log_area :: "u32 \<Rightarrow> u32 set" where
  "log_area st = {bn. unat st \<le> unat bn \<and> unat bn < unat st + LOGSIZE}"

abbreviation log_blk :: "u32 \<Rightarrow> nat \<Rightarrow> u32" where
  "log_blk st i \<equiv> st + of_nat i + 1"

lemma log_blk_unat:
  assumes "unat st + LOGSIZE \<le> 2 ^ 31" and "Suc i < LOGSIZE"
  shows "unat (log_blk st i) = unat st + Suc i"
proof -
  have "unat st + Suc i < 2 ^ 32" using assms by simp
  moreover have "log_blk st i = of_nat (unat st + Suc i)" by simp
  ultimately show ?thesis by (simp only: unat_of_nat) (simp add: take_bit_nat_eq_self)
qed

lemma log_blk_facts:
  assumes "unat st + LOGSIZE \<le> 2 ^ 31" and "Suc i < LOGSIZE"
  shows "log_blk st i \<in> log_area st" and "log_blk st i < 2 ^ 31" and "log_blk st i \<noteq> st"
proof -
  note u = log_blk_unat [OF assms]
  show "log_blk st i \<in> log_area st" "log_blk st i < 2 ^ 31"
    using u assms by (auto simp: log_area_def word_less_nat_alt)
  show "log_blk st i \<noteq> st"
  proof
    assume "log_blk st i = st"
    then have "unat (log_blk st i) = unat st" by (rule arg_cong)
    with u show False by simp
  qed
qed

text \<open>
  The transaction is complete: \<open>n\<close> distinct blocks outside the log are listed, exactly they are pinned in
  the cache, and the header on the disk says that no transaction is committed.
\<close>

definition log_geometry :: "u32 \<Rightarrow> nat \<Rightarrow> (nat \<Rightarrow> u32) \<Rightarrow> bool" where
  "log_geometry st n blocks \<longleftrightarrow> n < LOGSIZE \<and> unat st + LOGSIZE \<le> 2 ^ 31
     \<and> (\<forall>i < n. blocks i < 2 ^ 31 \<and> blocks i \<notin> log_area st) \<and> inj_on blocks {..<n}"

lemma log_geometryD:
  assumes "log_geometry st n blocks"
  shows "n < LOGSIZE" and "unat st + LOGSIZE \<le> 2 ^ 31" and "i < n \<Longrightarrow> blocks i < 2 ^ 31"
    and "i < n \<Longrightarrow> blocks i \<notin> log_area st" and "inj_on blocks {..<n}"
    and "bn \<in> log_area st \<Longrightarrow> bn \<notin> blocks ` {..<n}"
  using assms by (auto simp: log_geometry_def)

definition commit_ready :: "nat \<Rightarrow> nat \<Rightarrow> 'z klog_scheme \<Rightarrow> bool" where
  "commit_ready p n s \<longleftrightarrow> held p (log_dev s) {} s \<and> lh_n s = int n
     \<and> log_geometry (log_start s) n (lh_block s)
     \<and> pin s = (\<lambda>bn. if bn \<in> lh_block s ` {..<n} then 1 else 0)
     \<and> read32 (disk s (log_start s)) 0 = 0"

lemma busy_card:
  assumes "pin s = (\<lambda>bn. if bn \<in> lh_block s ` {..<n} then 1 else 0)" and "n < LOGSIZE"
  shows "card (busy s) < NBUF"
proof -
  have "busy s = lh_block s ` {..<n}" using assms(1) by (auto simp: busy_def)
  then have "card (busy s) \<le> n" using card_image_le [of "{..<n}" "lh_block s"] by simp
  with assms(2) show ?thesis by (simp add: LOGSIZE_def NBUF_def)
qed

definition log_writes :: "nat \<Rightarrow> 'z klog_scheme \<Rightarrow> (u32 \<times> bytes) list" where
  "log_writes n s = map (\<lambda>i. (log_blk (log_start s) i, view s (lh_block s i))) [0..<n]"

lemma log_writes_outside:
  assumes "unat (log_start s) + LOGSIZE \<le> 2 ^ 31" and "n < LOGSIZE" and "bn \<notin> log_area (log_start s)"
  shows "apply_writes (log_writes n s) D bn = D bn"
  using assms log_blk_facts(1) [OF assms(1)]
  by (intro apply_writes_other) (auto simp: log_writes_def)

lemma write_log_run:
  assumes h: "held p (log_dev s) {} s" and g: "log_geometry (log_start s) n (lh_block s)"
    and pn: "pin s = (\<lambda>bn. if bn \<in> lh_block s ` {..<n} then 1 else 0)" and k: "k \<le> n"
  shows "\<exists>t. kfor [0..<k] write_log_block s = Done () t \<and> held p (log_dev s) {} t \<and> pin t = pin s
    \<and> logged (log_writes k s) s t"
  using k
proof (induction k)
  case 0
  then show ?case using h logged_refl by (simp add: log_writes_def)
next
  case (Suc k)
  then obtain t where t: "kfor [0..<k] write_log_block s = Done () t" "held p (log_dev s) {} t" "pin t = pin s"
    "logged (log_writes k s) s t" by auto
  have fs: "fsmod s t" using t(4) by (simp add: logged_def)
  let ?a = "log_blk (log_start s) k" and ?b = "lh_block s k"
  have gg: "unat (log_start s) + LOGSIZE \<le> 2 ^ 31" "n < LOGSIZE" "Suc k < LOGSIZE" "?b < 2 ^ 31" "?b \<notin> log_area (log_start s)"
    using log_geometryD [OF g] Suc.prems by simp_all
  note a = log_blk_facts [OF gg(1,3)]
  have ab: "?a \<noteq> ?b" using a(1) gg(5) by metis
  have "?a \<notin> lh_block s ` {..<n}" by (rule log_geometryD(6) [OF g a(1)])
  moreover have "?b \<in> lh_block s ` {..<n}" using Suc.prems by simp
  ultimately have pb: "pin t ?b = 1" "pin t ?a = 0" using pn t(3) by simp_all
  have card: "card (busy t) < NBUF" using busy_card [OF pn gg(2)] t(3) by (simp add: busy_def)
  have d: "log_dev t = log_dev s" "log_start t = log_start s" "lh_block t = lh_block s" using fs by simp_all
  have ht: "held p (log_dev t) {} t" "?a = log_start t + of_nat k + 1" "?b = lh_block t k" using t(2) d by simp_all
  have pp: "pin t ?b \<noteq> 0" "pin t ?a + 1 \<noteq> 0" "pin t ?b + 1 \<noteq> 0" using pb by simp_all
  obtain u where u: "write_log_block k t = Done () u" "held p (log_dev t) {} u" "copied ?a (view t ?b) t u" "pin u = pin t"
    by (rule write_log_block_run [OF ht a(2) gg(4) ab pp(1) card pp(2,3)])
  have "view t ?b = view s ?b"
    using log_writes_outside [OF gg(1) _ gg(5), of k] gg(3) by (simp only: logged_view [OF t(4)])
  then have "logged (log_writes (Suc k) s) s u"
    using logged_trans [OF t(4) u(3) [unfolded logged_copied]] by (simp add: log_writes_def)
  moreover have "kfor [0..<Suc k] write_log_block s = Done () u"
    by (simp only: upt_Suc_append [OF le0] kfor_append kseq_run t(1) outcome.case kfor.simps) (simp add: u(1) kseq_run)
  ultimately show ?case using u(2,4) t(3) d by auto
qed

definition install_writes :: "nat \<Rightarrow> 'z klog_scheme \<Rightarrow> (u32 \<times> bytes) list" where
  "install_writes n s = map (\<lambda>i. (lh_block s i, view s (log_blk (log_start s) i))) [0..<n]"

lemma install_writes_outside:
  assumes "bn \<notin> lh_block s ` {..<n}"
  shows "apply_writes (install_writes n s) D bn = D bn"
  using assms by (intro apply_writes_other) (auto simp: install_writes_def)

text \<open>Installing, in a commit (with the blocks pinned) or in recovery (with nothing pinned).\<close>

lemma install_run:
  assumes h: "held p (log_dev s) {} s" and g: "log_geometry (log_start s) n (lh_block s)"
    and pn: "pin s = (\<lambda>bn. if \<not> rec \<and> bn \<in> lh_block s ` {..<n} then 1 else 0)" and k: "k \<le> n"
  shows "\<exists>t. kfor [0..<k] (install_block rec) s = Done () t \<and> held p (log_dev s) {} t
    \<and> pin t = (\<lambda>bn. if \<not> rec \<and> bn \<in> lh_block s ` {k..<n} then 1 else 0) \<and> logged (install_writes k s) s t"
  using k
proof (induction k)
  case 0
  then show ?case using h pn logged_refl by (simp add: install_writes_def atLeast0LessThan)
next
  case (Suc k)
  then obtain t where t: "kfor [0..<k] (install_block rec) s = Done () t" "held p (log_dev s) {} t"
    "pin t = (\<lambda>bn. if \<not> rec \<and> bn \<in> lh_block s ` {k..<n} then 1 else 0)" "logged (install_writes k s) s t" by auto
  let ?a = "log_blk (log_start s) k" and ?b = "lh_block s k"
  have gg: "unat (log_start s) + LOGSIZE \<le> 2 ^ 31" "n < LOGSIZE" "Suc k < LOGSIZE" "?b < 2 ^ 31" "?b \<notin> log_area (log_start s)"
    using log_geometryD [OF g] Suc.prems by simp_all
  note a = log_blk_facts [OF gg(1,3)]
  have ab: "?a \<noteq> ?b" using a(1) gg(5) by metis
  have an: "?a \<notin> lh_block s ` {..<n}" by (rule log_geometryD(6) [OF g a(1)])
  have split: "lh_block s ` {k..<n} = insert ?b (lh_block s ` {Suc k..<n})"
  proof -
    have "{k..<n} = insert k {Suc k..<n}" using Suc.prems by auto
    then show ?thesis by (simp only: image_insert)
  qed
  have bn: "?b \<notin> lh_block s ` {Suc k..<n}"
  proof
    assume "?b \<in> lh_block s ` {Suc k..<n}"
    then obtain x where x: "Suc k \<le> x" "x < n" "?b = lh_block s x" by auto
    then have "k = x" using inj_onD [OF log_geometryD(5) [OF g] x(3)] by simp
    with x(1) show False by simp
  qed
  have sub: "lh_block s ` {k..<n} \<subseteq> lh_block s ` {..<n}" by (intro image_mono) auto
  have pa: "pin t ?a = 0" using t(3) an sub by auto
  have pb: "pin t ?b = (if rec then 0 else 1)" using t(3) split by simp
  have "busy t \<subseteq> lh_block s ` {k..<n}" "rec \<Longrightarrow> busy t = {}" using t(3) by (auto simp: busy_def split: if_splits)
  moreover have "card (lh_block s ` {k..<n}) \<le> n" using card_image_le [of "{k..<n}" "lh_block s"] by simp
  ultimately have card: "card (busy t) \<le> n" "rec \<Longrightarrow> card (busy t) = 0"
    using card_mono [of "lh_block s ` {k..<n}" "busy t"] by auto
  have nb: "Suc 0 < NBUF" "n < NBUF" using gg(2) by (simp_all add: NBUF_def LOGSIZE_def MAXOPBLOCKS_def)
  have free: "pin t ?b \<noteq> 0 \<or> Suc (card (busy t)) < NBUF" "card (busy t) < NBUF"
    using card nb pb by auto
  have d: "log_dev t = log_dev s" "log_start t = log_start s" "lh_block t = lh_block s"
    using logged_mod [OF t(4)] by simp_all
  have ht: "held p (log_dev t) {} t" "?a = log_start t + of_nat k + 1" "?b = lh_block t k" using t(2) d by simp_all
  have pp: "pin t ?b + 1 \<noteq> 0" "rec \<or> pin t ?b \<noteq> 0" using pb by auto
  obtain u where u: "install_block rec k t = Done () u" "held p (log_dev t) {} u" "copied ?b (view t ?a) t u"
    "pin u = (if rec then pin t else (pin t)(?b := pin t ?b - 1))"
    by (rule install_block_run [OF ht a(2) gg(4) ab free pa pp])
  have "?a \<notin> lh_block s ` {..<k}" using an Suc.prems by auto
  then have "view t ?a = view s ?a" using install_writes_outside by (simp only: logged_view [OF t(4)])
  then have "logged (install_writes (Suc k) s) s u"
    using logged_trans [OF t(4) u(3) [unfolded logged_copied]] by (simp add: install_writes_def)
  moreover have "kfor [0..<Suc k] (install_block rec) s = Done () u"
    by (simp only: upt_Suc_append [OF le0] kfor_append kseq_run t(1) outcome.case kfor.simps) (simp add: u(1) kseq_run)
  moreover have "pin u = (\<lambda>bn. if \<not> rec \<and> bn \<in> lh_block s ` {Suc k..<n} then 1 else 0)"
    using u(4) t(3) split bn by (auto simp: fun_eq_iff)
  ultimately show ?case using u(2) d by auto
qed

lemma read_entries_run:
  "kfor [0..<n] (\<lambda>i. kmod (\<lambda>s. s\<lparr>lh_block := (lh_block s)(i := g i)\<rparr>)) s
   = Done () (s\<lparr>lh_block := (\<lambda>i. if i < n then g i else lh_block s i)\<rparr>)"
proof (induction n)
  case 0
  then show ?case by simp
next
  case (Suc n)
  have "(\<lambda>i. if i < n then g i else lh_block s i)(n := g n) = (\<lambda>i. if i < Suc n then g i else lh_block s i)"
    by (auto simp: fun_eq_iff less_Suc_eq)
  then show ?case
    by (simp only: upt_Suc_append [OF le0] kfor_append kseq_run Suc.IH outcome.case kfor.simps)
      (simp add: kseq_run)
qed

lemma read_head_run:
  assumes h: "held p (log_dev s) {} s" and st: "log_start s < 2 ^ 31" and pn: "pin s = (\<lambda>_. 0)"
    and n: "sint (read32 (disk s (log_start s)) 0) = int n" "n \<le> LOGSIZE"
  obtains t u where "read_head s = Done () t" and "fsmod s u"
    and "t = u\<lparr>lh_n := int n, lh_block := (\<lambda>i. if i < n then read32 (disk s (log_start s)) (lh_off i) else lh_block s i)\<rparr>"
    and "held p (log_dev s) {} u" and "pin u = (\<lambda>_. 0)" and "disk u = disk s" and "disk_writes u = disk_writes s"
    and "view u = view s"
proof -
  let ?a = "log_start s" and ?d = "log_dev s"
  have vd: "view s ?a = disk s ?a" using view_unpinned [OF heldD(4) [OF h]] pn by simp
  have c: "card (busy s) < NBUF" using pn by (simp add: busy_def NBUF_def MAXOPBLOCKS_def)
  obtain b t where b: "bread ?d ?a s = Done b t" "fsmod s t" "held p ?d (insert b {}) t"
    "b_blockno (bufs t b) = ?a" "b_data (bufs t b) = view s ?a" "disk t = disk s" "disk_writes t = disk_writes s"
    "view t = view s" "pin t = (pin s)(?a := pin s ?a + 1)"
    using bread_block [OF h st, simplified] pn c by (metis add_0 zero_neq_one)
  let ?B = "\<lambda>i. if i < n then read32 (disk s ?a) (lh_off i) else lh_block s i"
  have bin: "b \<in> insert b {}" and cl: "b_data (bufs t b) = disk t ?a" using b(5,6) vd by simp_all
  let ?t = "t\<lparr>lh_n := int n, lh_block := ?B\<rparr>"
  have ht: "held p ?d (insert b {}) ?t" using b(3) by simp
  have bt: "b_blockno (bufs ?t b) = ?a" "b_data (bufs ?t b) = disk ?t ?a" using b(4) cl by simp_all
  obtain v where v: "brelse b ?t = Done () v" "fsmod ?t v" "held p ?d (insert b {} - {b}) v" "disk v = disk ?t"
    "disk_writes v = disk_writes ?t" "view v = view ?t" "pin v = (pin ?t)(?a := pin ?t ?a - 1)"
    by (rule release_block [OF ht bin bt(1) bt(2)])
  let ?u = "v\<lparr>lh_n := lh_n s, lh_block := lh_block s\<rparr>"
  have lb: "lh_block t = lh_block s" "lh_n t = lh_n s" using b(2) by simp_all
  have "read_head s = Done () v"
    using b(1,5) v(1) n vd lb(1) by (simp add: read_head_def kbind_run kseq_run read_entries_run cong: if_cong)
  moreover have v': "v = ?u\<lparr>lh_n := int n, lh_block := ?B\<rparr>"
    using kvirtio_field_mod(1,2) [OF v(2)] by simp
  moreover have "fsmod s ?u"
  proof -
    obtain w where w: "v = vd_set w (?t\<lparr>bufs := bufs v, sleeplocks := sleeplocks v, disk := disk v, disk_writes := disk_writes v\<rparr>)"
      using v(2) unfolding fsmod_def by blast
    have "?u = vd_set w (t\<lparr>bufs := bufs ?u, sleeplocks := sleeplocks ?u, disk := disk ?u, disk_writes := disk_writes ?u\<rparr>)"
      by (subst w) (use lb in \<open>simp add: vd_set_def\<close>)
    then have "fsmod t ?u" unfolding fsmod_def by blast
    then show ?thesis using fsmod_trans b(2) by blast
  qed
  moreover have "held p ?d {} ?u" "disk ?u = disk s" "disk_writes ?u = disk_writes s" "view ?u = view s"
    using v b(6,7,8) by simp_all
  moreover have "pin ?u = (\<lambda>_. 0)" using v(7) b(9) pn by (simp add: fun_eq_iff)
  ultimately show thesis using that by blast
qed

lemma log_geometry_cong:
  assumes "\<And>i. i < n \<Longrightarrow> b i = c i"
  shows "log_geometry st n b = log_geometry st n c"
  using assms by (simp add: log_geometry_def inj_on_def)

lemma log_start_small: "log_geometry st n b \<Longrightarrow> st < 2 ^ 31 \<and> st \<in> log_area st"
  by (auto simp: log_geometry_def log_area_def word_less_nat_alt LOGSIZE_def MAXOPBLOCKS_def)

text \<open>Clearing the header ends both commit and recovery.\<close>

lemma clear_head_run:
  assumes h: "held p (log_dev s) {} s" and g: "log_geometry (log_start s) n b" and pn: "pin s = (\<lambda>_. 0)"
  obtains t where "write_head (s\<lparr>lh_n := 0\<rparr>) = Done () t" and "held p (log_dev s) {} t" and "pin t = (\<lambda>_. 0)"
    and "lh_n t = 0" and "log_dev t = log_dev s" and "log_start t = log_start s"
    and "disk t = (disk s)(log_start s := head_data (view s (log_start s)) 0 (lh_block s))"
    and "disk_writes t = disk_writes s @ [(log_start s, head_data (view s (log_start s)) 0 (lh_block s))]"
proof -
  let ?s = "s\<lparr>lh_n := 0\<rparr>"
  have h': "held p (log_dev ?s) {} ?s" "lh_n ?s = int 0" "log_start ?s < 2 ^ 31" "pin ?s (log_start ?s) = 0"
    "card (busy ?s) < NBUF"
    using h log_start_small [OF g] pn by (simp_all add: busy_def NBUF_def MAXOPBLOCKS_def)
  obtain t where t: "write_head ?s = Done () t" "held p (log_dev ?s) {} t" "pin t = pin ?s"
    "copied (log_start ?s) (head_data (view ?s (log_start ?s)) 0 (lh_block ?s)) ?s t"
    by (rule write_head_run [OF h'])
  have "fsmod ?s t" using t(4) by (simp add: copied_def)
  then show thesis using that [of t] t pn kvirtio_field_mod [OF \<open>fsmod ?s t\<close>] by (simp add: copied_def)
qed

lemma head_cleared: "read32 (head_data old 0 b) 0 = 0"
  using head_data_read(1) [of 0 old b] by simp

lemma recover_run:
  assumes h: "held p (log_dev r) {} r" and pn: "pin r = (\<lambda>_. 0)"
    and n: "sint (read32 (disk r (log_start r)) 0) = int n"
    and g: "log_geometry (log_start r) n (\<lambda>i. read32 (disk r (log_start r)) (lh_off i))"
  obtains u where "recover_from_log r = Done () u" and "held p (log_dev r) {} u" and "pin u = (\<lambda>_. 0)" and "lh_n u = 0"
    and "read32 (disk u (log_start r)) 0 = 0"
    and "\<And>bn. bn \<noteq> log_start r \<Longrightarrow> disk u bn =
      apply_writes (map (\<lambda>i. (read32 (disk r (log_start r)) (lh_off i), disk r (log_blk (log_start r) i))) [0..<n]) (disk r) bn"
proof -
  let ?st = "log_start r" and ?B = "\<lambda>i. read32 (disk r (log_start r)) (lh_off i)"
  have st: "?st < 2 ^ 31" and nl: "n \<le> LOGSIZE" using log_start_small [OF g] log_geometryD(1) [OF g] by simp_all
  obtain t u where t: "read_head r = Done () t" and u: "fsmod r u"
    and tu: "t = u\<lparr>lh_n := int n, lh_block := (\<lambda>i. if i < n then ?B i else lh_block r i)\<rparr>"
    and hu: "held p (log_dev r) {} u" "pin u = (\<lambda>_. 0)" "disk u = disk r" "disk_writes u = disk_writes r" "view u = view r"
    by (rule read_head_run [OF h st pn n nl])
  have tf: "log_dev t = log_dev r" "log_start t = ?st" "lh_n t = int n" "\<And>i. i < n \<Longrightarrow> lh_block t i = ?B i"
    "disk t = disk r" "pin t = (\<lambda>_. 0)" "bufs t = bufs u"
    using u hu by (simp_all add: tu)
  have ht: "held p (log_dev t) {} t" using hu(1) tf(1) by (simp add: tu)
  have gt: "log_geometry (log_start t) n (lh_block t)"
    using g log_geometry_cong [of n "lh_block t" ?B] tf(2,4) by simp
  have pt: "pin t = (\<lambda>bn. if \<not> True \<and> bn \<in> lh_block t ` {..<n} then 1 else 0)" using tf(6) by simp
  obtain v where v: "kfor [0..<n] (install_block True) t = Done () v" "held p (log_dev t) {} v"
    "pin v = (\<lambda>bn. if \<not> True \<and> bn \<in> lh_block t ` {n..<n} then 1 else 0)" "logged (install_writes n t) t v"
    using install_run [OF ht gt pt order_refl] by blast
  note vm = logged_mod [OF v(4)]
  have vf: "log_dev v = log_dev r" "log_start v = ?st" "pin v = (\<lambda>_. 0)" using vm v(3) tf(1,2) by simp_all
  have hv: "held p (log_dev v) {} v" "log_geometry (log_start v) n (lh_block t)" using v(2) gt vf tf(1,2) by simp_all
  obtain w where w: "write_head (v\<lparr>lh_n := 0\<rparr>) = Done () w" "held p (log_dev v) {} w" "pin w = (\<lambda>_. 0)"
    "lh_n w = 0" "disk w = (disk v)(log_start v := head_data (view v (log_start v)) 0 (lh_block v))"
    using clear_head_run [OF hv vf(3)] by metis
  have vt: "view t bn = disk r bn" for bn using view_unpinned [OF heldD(4) [OF ht]] tf(5,6) by simp
  have iw: "install_writes n t = map (\<lambda>i. (?B i, disk r (log_blk ?st i))) [0..<n]"
    using tf(4) vt by (simp add: install_writes_def tf(2))
  have "recover_from_log r = Done () w"
    using t v(1) w(1) tf(3) by (simp add: recover_from_log_def install_trans_def kseq_run kbind_run)
  moreover have "disk w bn = apply_writes (map (\<lambda>i. (?B i, disk r (log_blk ?st i))) [0..<n]) (disk r) bn"
    if "bn \<noteq> ?st" for bn
    using w(5) that vf(2) logged_disk [OF v(4)] iw tf(5) by simp
  ultimately show thesis
    using w vf head_cleared by (intro that [of w]) simp_all
qed

subsection \<open>commit\<close>

definition commit_head :: "nat \<Rightarrow> 'z klog_scheme \<Rightarrow> bytes" where
  "commit_head n s = head_data (disk s (log_start s)) n (lh_block s)"

definition home_writes :: "nat \<Rightarrow> 'z klog_scheme \<Rightarrow> (u32 \<times> bytes) list" where
  "home_writes n s = map (\<lambda>i. (lh_block s i, view s (lh_block s i))) [0..<n]"

text \<open>The disk writes of a commit, in order: log blocks, header, home blocks, cleared header.\<close>

definition commit_writes :: "nat \<Rightarrow> 'z klog_scheme \<Rightarrow> (u32 \<times> bytes) list" where
  "commit_writes n s = log_writes n s @ [(log_start s, commit_head n s)] @ home_writes n s
     @ [(log_start s, head_data (commit_head n s) 0 (lh_block s))]"

lemma log_writes_at:
  assumes "log_geometry (log_start s) n (lh_block s)" and "i < n"
  shows "apply_writes (log_writes n s) D (log_blk (log_start s) i) = view s (lh_block s i)"
proof -
  let ?L = "log_blk (log_start s)"
  have u: "unat (?L j) = unat (log_start s) + Suc j" if "j < n" for j
    using log_blk_unat [OF log_geometryD(2) [OF assms(1)], of j] log_geometryD(1) [OF assms(1)] that by simp
  have inj: "inj_on ?L (set [0..<n])"
  proof (rule inj_onI)
    fix j k assume jk: "j \<in> set [0..<n]" "k \<in> set [0..<n]" "?L j = ?L k"
    then have "unat (?L j) = unat (?L k)" by metis
    then show "j = k" using u [of j] u [of k] jk(1,2) by simp
  qed
  show ?thesis
    using apply_writes_map [OF _ inj, of i "\<lambda>i. view s (lh_block s i)"] assms(2) by (simp add: log_writes_def)
qed

lemma commit_run:
  assumes r: "commit_ready p n s" and n: "0 < n"
  obtains t where "commit s = Done () t" and "held p (log_dev s) {} t" and "pin t = (\<lambda>_. 0)" and "lh_n t = 0"
    and "disk_writes t = disk_writes s @ commit_writes n s" and "disk t = apply_writes (commit_writes n s) (disk s)"
proof -
  let ?st = "log_start s" and ?H = "commit_head n s"
  have h: "held p (log_dev s) {} s" and nn: "lh_n s = int n" and g: "log_geometry ?st n (lh_block s)"
    and pn: "pin s = (\<lambda>bn. if bn \<in> lh_block s ` {..<n} then 1 else 0)" using r by (simp_all add: commit_ready_def)
  have sta: "?st < 2 ^ 31" "?st \<in> log_area ?st" using log_start_small [OF g] by simp_all
  have psta: "pin s ?st = 0" using log_geometryD(6) [OF g sta(2)] pn by simp
  have sout: "?st \<noteq> log_blk ?st i" if "i < n" for i
    using log_blk_facts(3) [OF log_geometryD(2) [OF g], of i] log_geometryD(1) [OF g] that by fastforce
  obtain a where a: "kfor [0..<n] write_log_block s = Done () a" "held p (log_dev s) {} a" "pin a = pin s"
    "logged (log_writes n s) s a" using write_log_run [OF h g pn order_refl] by blast
  have af: "log_dev a = log_dev s" "log_start a = ?st" "lh_block a = lh_block s" "lh_n a = int n"
    using logged_mod [OF a(4)] nn by simp_all
  have "?st \<notin> fst ` set (log_writes n s)" using sout by (auto simp: log_writes_def)
  then have "view a ?st = view s ?st" by (simp only: logged_view [OF a(4)]) (rule apply_writes_other)
  then have va: "view a ?st = disk s ?st" using view_unpinned [OF heldD(4) [OF h] psta] by simp
  have ha: "held p (log_dev a) {} a" "log_start a < 2 ^ 31" "pin a (log_start a) = 0" "card (busy a) < NBUF"
    using a(2,3) af psta sta(1) busy_card [OF pn log_geometryD(1) [OF g]] by (simp_all add: busy_def)
  obtain b where b: "write_head a = Done () b" "held p (log_dev a) {} b" "pin b = pin a"
    "copied (log_start a) (head_data (view a (log_start a)) n (lh_block a)) a b"
    by (rule write_head_run [OF ha(1) af(4) ha(2-4)])
  have bl: "logged [(?st, ?H)] a b" using b(4) af va by (simp add: logged_copied commit_head_def)
  note ab = logged_trans [OF a(4) bl]
  have bf: "log_dev b = log_dev s" "log_start b = ?st" "lh_block b = lh_block s" "lh_n b = int n"
    using logged_mod [OF ab] nn by simp_all
  have hb: "held p (log_dev b) {} b" "log_geometry (log_start b) n (lh_block b)"
    "pin b = (\<lambda>bn. if \<not> False \<and> bn \<in> lh_block b ` {..<n} then 1 else 0)"
    using b(2,3) a(3) pn g af bf by simp_all
  obtain c where c: "kfor [0..<n] (install_block False) b = Done () c" "held p (log_dev b) {} c"
    "pin c = (\<lambda>bn. if \<not> False \<and> bn \<in> lh_block b ` {n..<n} then 1 else 0)" "logged (install_writes n b) b c"
    using install_run [OF hb order_refl] by blast
  have vb: "view b (log_blk ?st i) = view s (lh_block s i)" if "i < n" for i
    using log_writes_at [OF g that] sout [OF that] by (simp only: logged_view [OF ab]) simp
  have iw: "install_writes n b = home_writes n s"
    using vb by (simp add: install_writes_def home_writes_def bf)
  note abc = logged_trans [OF ab c(4) [unfolded iw]]
  have cf: "log_dev c = log_dev s" "log_start c = ?st" "lh_block c = lh_block s" "pin c = (\<lambda>_. 0)"
    using logged_mod [OF abc] c(3) by simp_all
  have hc: "held p (log_dev c) {} c" "log_geometry (log_start c) n (lh_block s)" using c(2) bf cf g by simp_all
  obtain t where t: "write_head (c\<lparr>lh_n := 0\<rparr>) = Done () t" "held p (log_dev c) {} t" "pin t = (\<lambda>_. 0)" "lh_n t = 0"
    "disk t = (disk c)(log_start c := head_data (view c (log_start c)) 0 (lh_block c))"
    "disk_writes t = disk_writes c @ [(log_start c, head_data (view c (log_start c)) 0 (lh_block c))]"
    using clear_head_run [OF hc cf(4)] by metis
  have "?st \<notin> fst ` set (home_writes n s)"
    using log_geometryD(6) [OF g sta(2)] by (auto simp: home_writes_def)
  then have "view c ?st = ?H" by (simp only: logged_view [OF abc]) (simp add: apply_writes_other)
  then have dt: "disk t = apply_writes (commit_writes n s) (disk s)" "disk_writes t = disk_writes s @ commit_writes n s"
    using t(5,6) abc cf by (simp_all add: commit_writes_def logged_def)
  have "commit s = Done () t"
    using a(1) b(1) c(1) t(1) n nn af(4) bf(4)
    by (simp add: commit_def write_log_def install_trans_def kseq_run kbind_run)
  then show thesis using t dt cf that by simp
qed

subsection \<open>Crashes\<close>

lemma apply_home:
  assumes "inj_on (lh_block s) {..<n}" and "\<And>bn. bn \<notin> lh_block s ` {..<n} \<Longrightarrow> D bn = view s bn"
  shows "apply_writes (home_writes n s) D = view s"
proof
  fix bn
  show "apply_writes (home_writes n s) D bn = view s bn"
  proof (cases "bn \<in> lh_block s ` {..<n}")
    case True
    then obtain i where "i < n" "bn = lh_block s i" by auto
    then show ?thesis
      using apply_writes_map [of "[0..<n]" "lh_block s" i "\<lambda>i. view s (lh_block s i)"] assms(1)
      by (simp add: home_writes_def atLeast0LessThan)
  next
    case False
    then have "bn \<notin> fst ` set (home_writes n s)" by (auto simp: home_writes_def)
    then show ?thesis using assms(2) [OF False] by (simp add: apply_writes_other)
  qed
qed

lemma take_home_outside:
  assumes "bn \<notin> lh_block s ` {..<n}"
  shows "apply_writes (take j (home_writes n s)) D bn = D bn"
proof -
  have "fst ` set (take j (home_writes n s)) \<subseteq> lh_block s ` {..<n}"
    using set_take_subset [of j "home_writes n s"] by (auto simp: home_writes_def)
  then show ?thesis using assms by (intro apply_writes_other) auto
qed

lemma take_log_outside:
  assumes "log_geometry (log_start s) n (lh_block s)" and "bn \<notin> log_blk (log_start s) ` {..<n}"
  shows "apply_writes (take j (log_writes n s)) D bn = D bn"
proof -
  have "fst ` set (take j (log_writes n s)) \<subseteq> log_blk (log_start s) ` {..<n}"
    using set_take_subset [of j "log_writes n s"] by (auto simp: log_writes_def)
  then show ?thesis using assms(2) by (intro apply_writes_other) auto
qed

lemma sint_small: "n < 2 ^ 31 \<Longrightarrow> sint (of_nat n :: u32) = int n"
  by (simp add: signed_of_nat signed_take_bit_int_eq_self)

text \<open>The states of the disk in which a crash can leave it.\<close>

lemma crash_disk:
  assumes g: "log_geometry (log_start s) n (lh_block s)" and D: "D = apply_writes (take k (commit_writes n s)) (disk s)"
  shows "k \<le> n \<Longrightarrow> D (log_start s) = disk s (log_start s) \<and> (\<forall>bn. bn \<notin> log_area (log_start s) \<longrightarrow> D bn = disk s bn)"
    and "n < k \<Longrightarrow> k \<le> 2 * n + 1 \<Longrightarrow> D (log_start s) = commit_head n s
      \<and> (\<forall>i < n. D (log_blk (log_start s) i) = view s (lh_block s i))
      \<and> (\<forall>bn. bn \<notin> log_area (log_start s) \<and> bn \<notin> lh_block s ` {..<n} \<longrightarrow> D bn = disk s bn)"
    and "2 * n + 1 < k \<Longrightarrow> D (log_start s) = head_data (commit_head n s) 0 (lh_block s)
      \<and> (\<forall>bn. bn \<notin> log_area (log_start s) \<longrightarrow> D bn = apply_writes (home_writes n s) (disk s) bn)"
proof -
  let ?st = "log_start s" and ?L = "log_blk (log_start s)"
  have Li: "?L i \<in> log_area ?st" "?L i \<noteq> ?st" if "i < n" for i
    using log_blk_facts [OF log_geometryD(2) [OF g], of i] log_geometryD(1) [OF g] that by simp_all
  have stn: "?st \<notin> ?L ` {..<n}" "?st \<notin> lh_block s ` {..<n}"
    using Li(2) log_geometryD(6) [OF g] log_start_small [OF g] by fastforce+
  have out: "bn \<notin> ?L ` {..<n}" "bn \<noteq> ?st" if "bn \<notin> log_area ?st" for bn
    using that Li(1) log_start_small [OF g] by auto
  have len: "length (log_writes n s) = n" "length (home_writes n s) = n" by (simp_all add: log_writes_def home_writes_def)
  have full: "apply_writes (log_writes n s) E bn = E bn" if "bn \<notin> ?L ` {..<n}" for bn E
    using take_log_outside [OF g that, of n] len(1) by simp
  show "D ?st = disk s ?st \<and> (\<forall>bn. bn \<notin> log_area ?st \<longrightarrow> D bn = disk s bn)" if "k \<le> n"
    using that len take_log_outside [OF g] stn(1) out by (simp add: D commit_writes_def)
  show "D ?st = commit_head n s \<and> (\<forall>i < n. D (?L i) = view s (lh_block s i))
      \<and> (\<forall>bn. bn \<notin> log_area ?st \<and> bn \<notin> lh_block s ` {..<n} \<longrightarrow> D bn = disk s bn)" if k: "n < k" "k \<le> 2 * n + 1"
  proof -
    obtain j where j: "k = Suc (n + j)" "j \<le> n" using k by (metis add_Suc_right less_imp_Suc_add mult_2 Suc_eq_plus1 Suc_le_mono add_le_cancel_left)
    have d: "D = apply_writes (take j (home_writes n s)) ((apply_writes (log_writes n s) (disk s))(?st := commit_head n s))"
      using j len by (simp add: D commit_writes_def)
    have "?L i \<notin> lh_block s ` {..<n}" if "i < n" for i using log_geometryD(6) [OF g Li(1) [OF that]] .
    moreover have th: "apply_writes (take j (home_writes n s)) E bn = E bn" if "bn \<notin> lh_block s ` {..<n}" for bn E
      by (rule take_home_outside [OF that])
    ultimately have "D (?L i) = view s (lh_block s i)" if "i < n" for i
      using that Li(2) [OF that] log_writes_at [OF g that] by (simp only: d th) simp
    moreover have "D ?st = commit_head n s" by (simp only: d th [OF stn(2)]) simp
    moreover have "D bn = disk s bn" if "bn \<notin> log_area ?st" "bn \<notin> lh_block s ` {..<n}" for bn
      using out [OF that(1)] full by (simp only: d th [OF that(2)]) simp
    ultimately show ?thesis by blast
  qed
  show "D ?st = head_data (commit_head n s) 0 (lh_block s)
      \<and> (\<forall>bn. bn \<notin> log_area ?st \<longrightarrow> D bn = apply_writes (home_writes n s) (disk s) bn)" if k: "2 * n + 1 < k"
  proof -
    have "length (commit_writes n s) \<le> k" using k len by (simp add: commit_writes_def)
    then have d: "D = (apply_writes (home_writes n s) ((apply_writes (log_writes n s) (disk s))(?st := commit_head n s)))
        (?st := head_data (commit_head n s) 0 (lh_block s))" by (simp add: D commit_writes_def)
    have "D bn = apply_writes (home_writes n s) (disk s) bn" if "bn \<notin> log_area ?st" for bn
      using out [OF that] full by (simp add: d) (rule apply_writes_same, simp)
    then show ?thesis by (simp add: d)
  qed
qed

text \<open>Recovery from a disk whose header names the blocks of the transaction.\<close>

lemma recover_committed:
  assumes g: "log_geometry (log_start s) n (lh_block s)"
    and old: "\<And>bn. bn \<notin> lh_block s ` {..<n} \<Longrightarrow> disk s bn = view s bn"
    and r: "held q (log_dev r) {} r" "pin r = (\<lambda>_. 0)" "log_start r = log_start s"
    and hd: "disk r (log_start s) = commit_head n s"
    and lg: "\<And>i. i < n \<Longrightarrow> disk r (log_blk (log_start s) i) = view s (lh_block s i)"
    and out: "\<And>bn. bn \<notin> log_area (log_start s) \<Longrightarrow> bn \<notin> lh_block s ` {..<n} \<Longrightarrow> disk r bn = disk s bn"
  obtains u where "recover_from_log r = Done () u" and "\<And>bn. bn \<notin> log_area (log_start s) \<Longrightarrow> disk u bn = view s bn"
proof -
  let ?st = "log_start s"
  let ?B = "\<lambda>i. read32 (disk r (log_start r)) (lh_off i)"
  have ln: "n \<le> LOGSIZE" "n < 2 ^ 31" using log_geometryD(1) [OF g] by (simp_all add: LOGSIZE_def MAXOPBLOCKS_def)
  have n: "sint (read32 (disk r (log_start r)) 0) = int n"
    using head_data_read(1) [OF ln(1)] sint_small [OF ln(2)] hd by (simp add: r(3) commit_head_def)
  have b: "?B i = lh_block s i" if "i < n" for i
    using head_data_read(2) [OF ln(1) that] hd by (simp add: r(3) commit_head_def)
  have gr: "log_geometry (log_start r) n ?B" using g log_geometry_cong [of n ?B "lh_block s"] b r(3) by simp
  obtain u where u: "recover_from_log r = Done () u" "\<And>bn. bn \<noteq> log_start r \<Longrightarrow> disk u bn =
    apply_writes (map (\<lambda>i. (?B i, disk r (log_blk (log_start r) i))) [0..<n]) (disk r) bn"
    by (rule recover_run [OF r(1,2) n gr]) blast
  have "map (\<lambda>i. (?B i, disk r (log_blk (log_start r) i))) [0..<n] = home_writes n s"
    using b lg r(3) by (simp add: home_writes_def)
  then have u': "disk u bn = apply_writes (home_writes n s) (disk r) bn" if "bn \<noteq> ?st" for bn
    using u(2) [of bn] that r(3) by simp
  have "disk u bn = view s bn" if bn: "bn \<notin> log_area ?st" for bn
  proof -
    let ?E = "(view s)(bn := disk r bn)"
    have "bn \<noteq> ?st" using bn log_start_small [OF g] by auto
    then have "disk u bn = apply_writes (home_writes n s) ?E bn"
      using u' apply_writes_same [of "disk r" bn ?E] by simp
    moreover have "?E b = view s b" if "b \<notin> lh_block s ` {..<n}" for b
      using out [OF bn] old that by (cases "b = bn") simp_all
    then have "apply_writes (home_writes n s) ?E = view s" by (rule apply_home [OF log_geometryD(5) [OF g]])
    ultimately show ?thesis by simp
  qed
  then show thesis using u(1) that by blast
qed

text \<open>Recovery from a disk whose header is empty changes nothing but the header.\<close>

lemma recover_empty:
  assumes g: "log_geometry (log_start r) n b" and r: "held q (log_dev r) {} r" "pin r = (\<lambda>_. 0)"
    and hd: "read32 (disk r (log_start r)) 0 = 0"
  obtains u where "recover_from_log r = Done () u" and "\<And>bn. bn \<notin> log_area (log_start r) \<Longrightarrow> disk u bn = disk r bn"
proof -
  let ?B = "\<lambda>i. read32 (disk r (log_start r)) (lh_off i)"
  have s0: "sint (read32 (disk r (log_start r)) 0) = int 0" and gr: "log_geometry (log_start r) 0 ?B"
    using hd g by (simp_all add: log_geometry_def)
  obtain u where u: "recover_from_log r = Done () u"
    "\<And>bn. bn \<noteq> log_start r \<Longrightarrow> disk u bn = apply_writes (map (\<lambda>i. (?B i, disk r (log_blk (log_start r) i))) [0..<0]) (disk r) bn"
    by (rule recover_run [OF r s0 gr]) blast
  have "disk u bn = disk r bn" if "bn \<notin> log_area (log_start r)" for bn
    using u(2) [of bn] that log_start_small [OF g] by auto
  then show thesis using u(1) that by blast
qed

text \<open>
  C1 (safety). A transaction is atomic with respect to crashes. From the state at the end of the last outstanding operation,
  \<open>commit\<close> runs to its end and issues exactly the disk writes \<open>commit_writes\<close>: the log blocks, the header, the home
  blocks, the cleared header. If the machine stops after the first \<open>k\<close> of them, \<open>recover_from_log\<close> on the disk
  left behind, with whatever is in the cache of the new boot that agrees with the disk, runs to its end and leaves every block
  outside the log with its old contents when the header had not been written (\<open>k \<le> n\<close>) and with the contents the
  transaction gave it otherwise; never a mixture. A block write is taken to be atomic.
\<close>

theorem commit_crash_atomic:
  assumes "commit_ready p n s" and "0 < n"
    and "held q (log_dev r) {} r" and "pin r = (\<lambda>_. 0)" and "log_start r = log_start s"
    and "disk r = apply_writes (take k (commit_writes n s)) (disk s)"
  shows "\<exists>t u. commit s = Done () t \<and> disk_writes t = disk_writes s @ commit_writes n s
    \<and> recover_from_log r = Done () u
    \<and> (\<forall>bn. bn \<notin> log_area (log_start s) \<longrightarrow> disk u bn = (if k \<le> n then disk s bn else view s bn))"
proof -
  let ?st = "log_start s"
  obtain t where t: "commit s = Done () t" "disk_writes t = disk_writes s @ commit_writes n s"
    using commit_run [OF assms(1,2)] by metis
  have g: "log_geometry ?st n (lh_block s)" and h: "held p (log_dev s) {} s" and z: "read32 (disk s ?st) 0 = 0"
    and pn: "pin s = (\<lambda>bn. if bn \<in> lh_block s ` {..<n} then 1 else 0)"
    using assms(1) by (simp_all add: commit_ready_def)
  have old: "disk s bn = view s bn" if "bn \<notin> lh_block s ` {..<n}" for bn
    using view_unpinned [OF heldD(4) [OF h]] pn that by simp
  have home: "apply_writes (home_writes n s) (disk s) = view s" by (rule apply_home [OF log_geometryD(5) [OF g] old])
  note D = crash_disk [OF g assms(6)]
  have gr: "log_geometry (log_start r) n (lh_block s)" using g assms(5) by simp
  consider "n < k \<and> k \<le> 2 * n + 1" | "k \<le> n" | "2 * n + 1 < k" by linarith
  then have "\<exists>u. recover_from_log r = Done () u
    \<and> (\<forall>bn. bn \<notin> log_area ?st \<longrightarrow> disk u bn = (if k \<le> n then disk s bn else view s bn))"
  proof cases
    case 1
    then have d: "disk r ?st = commit_head n s" "\<And>i. i < n \<Longrightarrow> disk r (log_blk ?st i) = view s (lh_block s i)"
      "\<And>bn. bn \<notin> log_area ?st \<Longrightarrow> bn \<notin> lh_block s ` {..<n} \<Longrightarrow> disk r bn = disk s bn" using D(2) by auto
    obtain u where "recover_from_log r = Done () u" "\<And>bn. bn \<notin> log_area ?st \<Longrightarrow> disk u bn = view s bn"
      by (rule recover_committed [OF g old assms(3-5) d]) blast+
    then show ?thesis using 1 by auto
  next
    case 2
    then have "read32 (disk r (log_start r)) 0 = 0" using D(1) z assms(5) by simp
    then obtain u where "recover_from_log r = Done () u" "\<And>bn. bn \<notin> log_area (log_start r) \<Longrightarrow> disk u bn = disk r bn"
      by (rule recover_empty [OF gr assms(3,4)]) blast
    then show ?thesis using 2 D(1) assms(5) by auto
  next
    case 3
    then have "read32 (disk r (log_start r)) 0 = 0" using D(3) head_cleared assms(5) by simp
    then obtain u where "recover_from_log r = Done () u" "\<And>bn. bn \<notin> log_area (log_start r) \<Longrightarrow> disk u bn = disk r bn"
      by (rule recover_empty [OF gr assms(3,4)]) blast
    then show ?thesis using 3 D(3) assms(5) home by auto
  qed
  with t show ?thesis by blast
qed

text \<open>
  A machine for the witness: a log at blocks 2 to 31 of an empty disk, and block 40 modified by the transaction,
  in buffer 0; after the crash, between the header and the home blocks, the new boot has an empty cache.
\<close>

definition log_vm :: "nat \<Rightarrow> (nat \<Rightarrow> buf) \<Rightarrow> (u32 \<Rightarrow> bytes) \<Rightarrow> klog" where
  "log_vm n B D = kvirtio.extend (disk_vm (chained B) D)
     \<lparr>log_start = 2, log_size = 30, log_outstanding = 0, log_committing = True, log_dev = 1, lh_n = int n, lh_block = (\<lambda>_. 40)\<rparr>"

definition dirty_bufs :: "nat \<Rightarrow> buf" where
  "dirty_bufs = (\<lambda>_. empty_buf)(0 := empty_buf\<lparr>b_valid := True, b_dev := 1, b_blockno := 40, b_refcnt := 1, b_data := (\<lambda>_. 7)\<rparr>)"

lemma log_vm_simps [simp]:
  "bufs (log_vm n B D) = chained B" "disk (log_vm n B D) = D" "log_start (log_vm n B D) = 2" "log_dev (log_vm n B D) = 1"
  "lh_n (log_vm n B D) = int n" "lh_block (log_vm n B D) = (\<lambda>_. 40)"
  by (simp_all add: log_vm_def kvirtio.defs disk_vm_quiet)

lemma log_vm_held:
  assumes "contents_ok 1 (chained B) D"
  shows "held 0 1 {} (log_vm n B D)"
  using disk_vm_held [OF assms] by (simp add: log_vm_def kvirtio.defs held_def quiet_def machine_ok_def myproc_def cpu_defs vq_idle_def)

lemma dirty_contents: "contents_ok 1 (chained dirty_bufs) D"
  by (simp add: contents_ok_def chained_def dirty_bufs_def empty_buf_def)

lemma dirty_lookup: "lookup (chained dirty_bufs) bn = (if bn = 40 then Some 0 else None)"
proof (cases "bn = 40")
  case True
  then show ?thesis using lookup_Some [OF dirty_contents, of bn 0]
    by (simp add: chained_def dirty_bufs_def NBUF_def MAXOPBLOCKS_def)
next
  case False
  then show ?thesis by (simp add: lookup_None chained_def dirty_bufs_def empty_buf_def)
qed

lemma dirty_ready: "commit_ready 0 1 (log_vm 1 dirty_bufs (\<lambda>_ _. 0))"
proof -
  have "pins (chained dirty_bufs) = (\<lambda>bn. if bn = 40 then 1 else 0)"
    by (simp add: pins_def dirty_lookup fun_eq_iff) (simp add: chained_def dirty_bufs_def)
  moreover have "log_geometry 2 1 (\<lambda>_. 40)"
    by (simp add: log_geometry_def log_area_def LOGSIZE_def MAXOPBLOCKS_def inj_on_def)
  moreover have "read32 (\<lambda>_. 0) 0 = 0" by (simp add: numeral_nat)
  ultimately show ?thesis using log_vm_held [OF dirty_contents, of 1] by (simp add: commit_ready_def lessThan_Suc)
qed

theorem commit_crash_atomic_witness:
  "\<exists>t u. commit (log_vm 1 dirty_bufs (\<lambda>_ _. 0)) = Done () t
    \<and> recover_from_log (log_vm 0 (\<lambda>_. empty_buf)
        (apply_writes (take 2 (commit_writes 1 (log_vm 1 dirty_bufs (\<lambda>_ _. 0)))) (\<lambda>_ _. 0))) = Done () u
    \<and> disk u 40 = (\<lambda>_. 7) \<and> disk u 41 = (\<lambda>_. 0)"
proof -
  let ?s = "log_vm 1 dirty_bufs (\<lambda>_ _. 0)" and ?D = "apply_writes (take 2 (commit_writes 1 (log_vm 1 dirty_bufs (\<lambda>_ _. 0)))) (\<lambda>_ _. 0)"
  have "view ?s 40 = (\<lambda>_. 7)" "view ?s 41 = (\<lambda>_. 0)"
    by (simp_all add: block_view_def dirty_lookup) (simp_all add: chained_def dirty_bufs_def)
  moreover have "40 \<notin> log_area 2" "41 \<notin> log_area 2" by (simp_all add: log_area_def LOGSIZE_def MAXOPBLOCKS_def)
  moreover have "held 0 1 {} (log_vm 0 (\<lambda>_. empty_buf) ?D)" by (rule log_vm_held [OF empty_contents])
  ultimately show ?thesis
    using commit_crash_atomic [OF dirty_ready, of 0 "log_vm 0 (\<lambda>_. empty_buf) ?D" 2] by (simp add: empty_pins) metis
qed

end
