(* ===== verification/Ring_Buffer.thy ===== *)
theory Ring_Buffer
  imports Kernel_Prelude
begin

text \<open>
  The kernel's ring buffers (pipe, console input, UART output) use counters that only grow and
  wrap at their word size, and index the array by the counter modulo its size.
  \<open>ring_contents N d r w\<close> is the queue such a buffer holds. The locale \<open>byte_queue\<close> is the contract the
  component theories use: the queue that putting and taking single bytes implements.
\<close>

definition ring_contents :: "nat \<Rightarrow> (nat \<Rightarrow> u8) \<Rightarrow> 'a::len word \<Rightarrow> 'a word \<Rightarrow> u8 list" where
  "ring_contents N d r w = map (\<lambda>k. d ((unat r + k) mod N)) [0..<unat (w - r)]"

lemma length_ring_contents [simp]: "length (ring_contents N d r w) = unat (w - r)"
  by (simp add: ring_contents_def)

lemma ring_contents_empty: "ring_contents N d r w = [] \<longleftrightarrow> r = w"
  by (auto simp: ring_contents_def unat_eq_zero)

lemma ring_contents_full:
  fixes r w :: "'a::len word"
  assumes "N < 2 ^ LENGTH('a)"
  shows "w = r + of_nat N \<longleftrightarrow> length (ring_contents N d r w) = N"
proof -
  have "unat (of_nat N :: 'a word) = N" using assms by (simp add: unat_of_nat take_bit_nat_eq_self)
  then have "unat (w - r) = N \<longleftrightarrow> w - r = of_nat N" by (metis unsigned_word_eqI)
  then show ?thesis by (auto simp: algebra_simps)
qed

lemma ring_index:
  fixes r :: "'a::len word"
  assumes "N dvd 2 ^ LENGTH('a)"
  shows "unat (r + of_nat k) mod N = (unat r + k) mod N"
proof -
  have "unat (r + of_nat k) = (unat r + k) mod 2 ^ LENGTH('a)"
    by (simp add: unat_word_ariths unat_of_nat take_bit_eq_mod mod_add_right_eq)
  then show ?thesis using assms by (simp add: mod_mod_cancel)
qed

lemma unat_plus1:
  fixes x :: "'a::len word"
  assumes "unat x + 1 < 2 ^ LENGTH('a)"
  shows "unat (x + 1) = unat x + 1"
  using assms by (simp add: unat_word_ariths unat_of_nat)

lemma ring_contents_put:
  fixes r w :: "'a::len word"
  assumes "N dvd 2 ^ LENGTH('a)" and "N < 2 ^ LENGTH('a)" and "length (ring_contents N d r w) < N"
  shows "ring_contents N (d(unat w mod N := c)) r (w + 1) = ring_contents N d r w @ [c]"
proof -
  let ?n = "unat (w - r)"
  have n: "?n < N" using assms(3) by simp
  then have N: "0 < N" by simp
  have "w + 1 - r = w - r + 1" by simp
  moreover have "unat (w - r + 1) = ?n + 1" using n assms(2) by (intro unat_plus1) simp
  ultimately have len: "unat (w + 1 - r) = Suc ?n" by (simp only: Suc_eq_plus1)
  have w: "unat w mod N = (unat r + ?n) mod N"
    using ring_index [OF assms(1), of r ?n] by simp
  have "(unat r + k) mod N \<noteq> (unat r + ?n) mod N" if "k < ?n" for k
  proof
    assume "(unat r + k) mod N = (unat r + ?n) mod N"
    then have "N dvd unat r + ?n - (unat r + k)" using mod_eq_dvd_iff_nat [of "unat r + k" "unat r + ?n" N] that by simp
    then have "N \<le> ?n - k" using that by (intro dvd_imp_le) simp_all
    then show False using n by simp
  qed
  then show ?thesis by (simp add: ring_contents_def len w)
qed

lemma ring_contents_take:
  fixes r w :: "'a::len word"
  assumes "N dvd 2 ^ LENGTH('a)" and "r \<noteq> w"
  shows "ring_contents N d r w = d (unat r mod N) # ring_contents N d (r + 1) w"
proof -
  have "w - r \<noteq> 0" using assms(2) by simp
  then have "unat (w - r - 1) = unat (w - r) - 1" "0 < unat (w - r)"
    using unat_minus_one unat_gt_0 by blast+
  moreover have "w - (r + 1) = w - r - 1" by simp
  ultimately have len: "unat (w - r) = Suc (unat (w - (r + 1)))" by (simp only:)
  have "d ((unat r + Suc k) mod N) = d ((unat (r + 1) + k) mod N)" for k
    using ring_index [OF assms(1), of r "Suc k"] ring_index [OF assms(1), of "r + 1" k]
    by (simp add: ac_simps)
  then show ?thesis
    by (simp add: ring_contents_def len upt_conv_Cons map_Suc_upt [symmetric] comp_def del: upt_Suc)
qed

subsection \<open>The queue contract\<close>

locale byte_queue =
  fixes put :: "u8 \<Rightarrow> 'q \<Rightarrow> 'q"
    and front :: "'q \<Rightarrow> u8"
    and pop :: "'q \<Rightarrow> 'q"
    and contents :: "'q \<Rightarrow> u8 list"
    and capacity :: nat
  assumes contents_put: "length (contents q) < capacity \<Longrightarrow> contents (put c q) = contents q @ [c]"
    and contents_pop: "contents q \<noteq> [] \<Longrightarrow> contents q = front q # contents (pop q)"
begin

lemma put_all:
  "length (contents q) + length cs \<le> capacity \<Longrightarrow> contents (fold put cs q) = contents q @ cs"
proof (induction cs arbitrary: q)
  case Nil
  then show ?case by simp
next
  case (Cons c cs)
  then have "contents (put c q) = contents q @ [c]" by (intro contents_put) simp
  with Cons show ?case by simp
qed

lemma pop_all: "n \<le> length (contents q) \<Longrightarrow> contents ((pop ^^ n) q) = drop n (contents q)"
proof (induction n)
  case 0
  then show ?case by simp
next
  case (Suc n)
  then have "contents ((pop ^^ n) q) = drop n (contents q)" and "drop n (contents q) \<noteq> []" by simp_all
  then have "contents (pop ((pop ^^ n) q)) = tl (drop n (contents q))"
    using contents_pop [of "(pop ^^ n) q"] by (metis list.sel(3))
  then show ?case by (simp add: drop_Suc tl_drop)
qed

text \<open>First in, first out.\<close>

lemma fifo:
  assumes "length (contents q) + length cs \<le> capacity" and "n \<le> length (contents q) + length cs"
  shows "contents ((pop ^^ n) (fold put cs q)) = drop n (contents q @ cs)"
  using pop_all [of n "fold put cs q"] put_all [OF assms(1)] assms(2) by simp

end

end
