(* ===== verification/Pipe.thy ===== *)
theory Pipe
  imports Fs
begin

text \<open>
  \<^verbatim>\<open>kernel/pipe.c\<close> without \<open>pipealloc\<close>, which needs the file table: a pipe is a ring buffer of
  \<open>PIPESIZE\<close> bytes with 32-bit counters that are never reduced, in a page of its own; pipes are
  indexed by the address of that page. \<open>pipewrite\<close> that blocks goes on with \<open>pipewrite_loop\<close>
  at the same \<open>i\<close>, \<open>piperead\<close> with \<open>piperead_wait\<close>.
\<close>

abbreviation PIPESIZE :: nat where "PIPESIZE \<equiv> 512"

record pipe =
  pi_data :: "nat \<Rightarrow> u8"
  nread :: u32
  nwrite :: u32
  readopen :: bool
  writeopen :: bool

record kpipe = kfs +
  pipes :: "u64 \<Rightarrow> pipe"

definition piget :: "u64 \<Rightarrow> (pipe \<Rightarrow> 'a) \<Rightarrow> ('z kpipe_scheme, 'a) kop" where
  "piget a f = kget (\<lambda>s. f (pipes s a))"

definition piset :: "u64 \<Rightarrow> (pipe \<Rightarrow> pipe) \<Rightarrow> ('z kpipe_scheme, unit) kop" where
  "piset a f = kmod (\<lambda>s. s\<lparr>pipes := (pipes s)(a := f (pipes s a))\<rparr>)"

definition pipeclose :: "u64 \<Rightarrow> bool \<Rightarrow> ('z kpipe_scheme, unit) kop" where
  "pipeclose pp writable =
     kseq (acquire (PipeLock pp))
     (kseq (if writable
            then kseq (piset pp (\<lambda>x. x\<lparr>writeopen := False\<rparr>)) (wakeup (PipeReadChan pp))
            else kseq (piset pp (\<lambda>x. x\<lparr>readopen := False\<rparr>)) (wakeup (PipeWriteChan pp)))
     (kbind (piget pp id) (\<lambda>x.
        if \<not> readopen x \<and> \<not> writeopen x
        then kseq (release (PipeLock pp)) (kfree pp)
        else release (PipeLock pp))))"

text \<open>Storing and taking one byte; the counters are \<open>uint\<close> and wrap.\<close>

definition pi_put :: "u8 \<Rightarrow> pipe \<Rightarrow> pipe" where
  "pi_put ch x = x\<lparr>pi_data := (pi_data x)(unat (nwrite x) mod PIPESIZE := ch), nwrite := nwrite x + 1\<rparr>"

definition pi_next :: "pipe \<Rightarrow> u8" where
  "pi_next x = pi_data x (unat (nread x) mod PIPESIZE)"

definition pi_take :: "pipe \<Rightarrow> pipe" where
  "pi_take x = x\<lparr>nread := nread x + 1\<rparr>"

text \<open>The end of \<open>pipewrite\<close> after \<open>i\<close> bytes.\<close>

definition pipewrite_end :: "u64 \<Rightarrow> nat \<Rightarrow> ('z kpipe_scheme, int) kop" where
  "pipewrite_end pp i =
     kseq (wakeup (PipeReadChan pp))
     (kseq (release (PipeLock pp))
     (kret (int i)))"

function pipewrite_loop :: "nat \<Rightarrow> u64 \<Rightarrow> u64 \<Rightarrow> nat \<Rightarrow> nat \<Rightarrow> ('z kpipe_scheme, int) kop" where
  "pipewrite_loop pr pp addr n i =
     (if n \<le> i then pipewrite_end pp i
      else kbind (piget pp readopen) (\<lambda>ro.
        kbind (if ro then killed pr else kret 1) (\<lambda>k.
          if k \<noteq> 0 then kseq (release (PipeLock pp)) (kret (- 1))
          else kbind (piget pp id) (\<lambda>x.
            if nwrite x = nread x + of_nat PIPESIZE
            then kseq (wakeup (PipeReadChan pp)) (sleep (PipeWriteChan pp) (PipeLock pp))
            else kbind (pget pr pagetable) (\<lambda>pt.
              kbind (copyin pt (addr + of_nat i) 1) (\<lambda>(r, bs).
                if r = - 1 then pipewrite_end pp i
                else kseq (piset pp (pi_put (hd bs)))
                  (pipewrite_loop pr pp addr n (Suc i))))))))"
  by pat_completeness auto
termination
  by (relation "measure (\<lambda>(_, _, _, n, i). n - i)") auto

declare pipewrite_loop.simps [simp del]

definition pipewrite :: "u64 \<Rightarrow> u64 \<Rightarrow> int \<Rightarrow> ('z kpipe_scheme, int) kop" where
  "pipewrite pp addr n = with_myproc (\<lambda>pr.
     kseq (acquire (PipeLock pp)) (pipewrite_loop pr pp addr (nat n) 0))"

text \<open>The copy loop returns the number of bytes moved, \<open>i\<close> so far.\<close>

function piperead_copy :: "nat \<Rightarrow> u64 \<Rightarrow> u64 \<Rightarrow> nat \<Rightarrow> nat \<Rightarrow> ('z kpipe_scheme, nat) kop" where
  "piperead_copy pr pp addr n i =
     (if n \<le> i then kret i
      else kbind (piget pp id) (\<lambda>x.
        if nread x = nwrite x then kret i
        else kseq (piset pp pi_take)
          (kbind (pget pr pagetable) (\<lambda>pt.
           kbind (copyout pt (addr + of_nat i) [pi_next x]) (\<lambda>r.
             if r = - 1 then kret i
             else piperead_copy pr pp addr n (Suc i))))))"
  by pat_completeness auto
termination
  by (relation "measure (\<lambda>(_, _, _, n, i). n - i)") auto

declare piperead_copy.simps [simp del]

definition piperead_wait :: "nat \<Rightarrow> u64 \<Rightarrow> u64 \<Rightarrow> int \<Rightarrow> ('z kpipe_scheme, int) kop" where
  "piperead_wait pr pp addr n =
     kbind (piget pp id) (\<lambda>x.
       if nread x = nwrite x \<and> writeopen x
       then kbind (killed pr) (\<lambda>k.
         if k \<noteq> 0 then kseq (release (PipeLock pp)) (kret (- 1))
         else sleep (PipeReadChan pp) (PipeLock pp))
       else kbind (piperead_copy pr pp addr (nat n) 0) (\<lambda>i.
         kseq (wakeup (PipeWriteChan pp))
         (kseq (release (PipeLock pp))
         (kret (int i)))))"

definition piperead :: "u64 \<Rightarrow> u64 \<Rightarrow> int \<Rightarrow> ('z kpipe_scheme, int) kop" where
  "piperead pp addr n = with_myproc (\<lambda>pr.
     kseq (acquire (PipeLock pp)) (piperead_wait pr pp addr n))"

end
