(* ===== verification/Pipe_Fifo.thy ===== *)
theory Pipe_Fifo
  imports Pipe Ring_Buffer Vm_Copy Proc_Group
begin

text \<open>
  A pipe is a first-in first-out queue of bytes between two address spaces: what \<open>pipewrite\<close>
  appends and \<open>piperead\<close> removes, in terms of the queue (\<open>pi_contents\<close>) and of the user's view of
  memory, including the blocking of a writer on a full pipe.
\<close>

definition pi_contents :: "pipe \<Rightarrow> u8 list" where
  "pi_contents x = ring_contents PIPESIZE (pi_data x) (nread x) (nwrite x)"

definition pi_space :: "pipe \<Rightarrow> nat" where
  "pi_space x = PIPESIZE - length (pi_contents x)"

interpretation pq: byte_queue pi_put pi_next pi_take pi_contents PIPESIZE
proof unfold_locales
  have N: "PIPESIZE dvd 2 ^ LENGTH(32)" "PIPESIZE < 2 ^ LENGTH(32)" by simp_all
  fix x c
  show "pi_contents (pi_put c x) = pi_contents x @ [c]" if "length (pi_contents x) < PIPESIZE"
    using ring_contents_put [OF N, of "pi_data x" "nread x" "nwrite x" c] that
    by (simp add: pi_contents_def pi_put_def)
  show "pi_contents x = pi_next x # pi_contents (pi_take x)" if "pi_contents x \<noteq> []"
    using ring_contents_take [OF N(1), of "nread x" "nwrite x"] that
    by (simp add: pi_contents_def pi_next_def pi_take_def ring_contents_empty)
qed

lemma pi_full: "nwrite x = nread x + of_nat PIPESIZE \<longleftrightarrow> length (pi_contents x) = PIPESIZE"
  unfolding pi_contents_def by (rule ring_contents_full) simp

lemma pi_empty: "nread x = nwrite x \<longleftrightarrow> pi_contents x = []"
  by (simp add: pi_contents_def ring_contents_empty)

subsection \<open>Pipes in the state\<close>

lemma pipes_hold [simp]:
  "pipes (hold l s) = pipes s" "pipes (unhold l s) = pipes s"
  "hold l (pipes_update f s) = pipes_update f (hold l s)"
  "unhold l (pipes_update f s) = pipes_update f (unhold l s)"
  "machine_ok (pipes_update f s) = machine_ok s"
  "holding l (pipes_update f s) = holding l s"
  "mycpu (pipes_update f s) = mycpu s" "myproc (pipes_update f s) = myproc s"
  "ptable_free (pipes_update f s) = ptable_free s"
  by (simp_all add: hold_def unhold_def machine_ok_def holding_def myproc_def ptable_free_def cpu_defs)

lemma vm_inv_pipes [simp]: "vm_inv (pipes_update f s) r xs = vm_inv s r xs"
  by (simp add: vm_inv_def kmem_inv_def page_ok_def)

lemma vm_inv_hold:
  assumes "vm_inv s r xs" and "l \<noteq> KmemLock"
  shows "vm_inv (hold l s) r xs"
  using assms by (auto simp: vm_inv_def kmem_inv_def page_ok_def machine_ok_hold)

lemma piset_run [simp]: "piset a f s = Done () (s\<lparr>pipes := (pipes s)(a := f (pipes s a))\<rparr>)"
  and piget_run [simp]: "piget a g s = Done (g (pipes s a)) s"
  by (simp_all add: piset_def piget_def)

subsection \<open>Writing\<close>

text \<open>What a writing process may rely on while it holds the pipe's lock.\<close>

definition pipe_ready :: "nat \<Rightarrow> u64 \<Rightarrow> u64 list \<Rightarrow> 'z kpipe_scheme \<Rightarrow> bool" where
  "pipe_ready pr pt fl s \<longleftrightarrow> machine_ok s \<and> lock_free (ProcLock pr) s \<and> p_killed (procs s pr) = 0
     \<and> pagetable (procs s pr) = pt \<and> vm_inv s pt fl"

lemma pipe_ready_pipes [simp]: "pipe_ready pr pt fl (pipes_update f s) = pipe_ready pr pt fl s"
  by (simp add: pipe_ready_def)

definition user_bytes :: "'z kmem_scheme \<Rightarrow> u64 \<Rightarrow> u64 \<Rightarrow> nat \<Rightarrow> u8 list" where
  "user_bytes s pt addr n = map (\<lambda>i. the (user_byte (mem s) pt (addr + of_nat i))) [0..<n]"

lemma copyin_byte:
  assumes "pipe_ready pr pt fl s" and "user_byte (mem s) pt a = Some b"
  shows "copyin pt a 1 s = Done (0, [b]) s"
  using copyin_spec [of s pt fl 1 a] assms by (auto simp: pipe_ready_def)

definition pipe_filled :: "u64 \<Rightarrow> u8 list \<Rightarrow> 'z kpipe_scheme \<Rightarrow> 'z kpipe_scheme" where
  "pipe_filled pp bs s = s\<lparr>pipes := (pipes s)(pp := fold pi_put bs (pipes s pp))\<rparr>"

lemma pipewrite_loop_run:
  assumes "pipe_ready pr pt fl s" and "readopen (pipes s pp)" and "i \<le> n"
    and "\<forall>k < n. user_byte (mem s) pt (addr + of_nat k) \<noteq> None"
    and "length (pi_contents (pipes s pp)) \<le> PIPESIZE"
    and "m = min (n - i) (pi_space (pipes s pp))"
  shows "pipewrite_loop pr pp addr n i s =
    (if i + m = n then pipewrite_end pp n
     else kseq (wakeup (PipeReadChan pp)) (sleep (PipeWriteChan pp) (PipeLock pp)))
    (pipe_filled pp (take m (drop i (user_bytes s pt addr n))) s)"
  using assms
proof (induction "n - i" arbitrary: i s m)
  case 0
  then have "pipewrite_loop pr pp addr n i s = pipewrite_end pp n s"
    by (subst pipewrite_loop.simps) simp
  with 0 show ?case by (simp add: pipe_filled_def)
next
  case (Suc d)
  let ?x = "pipes s pp"
  have kl: "killed pr s = Done 0 s" using Suc.prems(1) by (simp add: pipe_ready_def killed_run)
  show ?case
  proof (cases "pi_space ?x = 0")
    case True
    then have "nwrite ?x = nread ?x + of_nat PIPESIZE"
      using Suc.prems(5) by (subst pi_full) (simp add: pi_space_def)
    then show ?thesis
      using True Suc.hyps(2) Suc.prems(2,3,6) kl
      by (subst pipewrite_loop.simps) (simp add: kbind_run pipe_filled_def)
  next
    case False
    let ?b = "the (user_byte (mem s) pt (addr + of_nat i))"
    let ?s = "s\<lparr>pipes := (pipes s)(pp := pi_put ?b ?x)\<rparr>"
    have i: "i < n" using Suc.hyps(2) by simp
    have "nwrite ?x \<noteq> nread ?x + of_nat PIPESIZE"
      using False Suc.prems(5) by (subst pi_full) (simp add: pi_space_def)
    moreover have "copyin pt (addr + of_nat i) 1 s = Done (0, [?b]) s"
      using Suc.prems(1,4) i by (intro copyin_byte) auto
    ultimately have step: "pipewrite_loop pr pp addr n i s = pipewrite_loop pr pp addr n (Suc i) ?s"
      using i Suc.prems(1,2) kl
      by (subst pipewrite_loop.simps) (simp add: kbind_run kseq_run pipe_ready_def)
    have lt: "length (pi_contents ?x) < PIPESIZE" using False by (simp add: pi_space_def)
    then have cont: "pi_contents (pi_put ?b ?x) = pi_contents ?x @ [?b]" by (rule pq.contents_put)
    have m': "m - 1 = min (n - Suc i) (pi_space (pi_put ?b ?x))"
      using Suc.prems(6) i lt unfolding pi_space_def cont by (simp add: min_def)
    have IH: "pipewrite_loop pr pp addr n (Suc i) ?s =
        (if Suc i + (m - 1) = n then pipewrite_end pp n
         else kseq (wakeup (PipeReadChan pp)) (sleep (PipeWriteChan pp) (PipeLock pp)))
        (pipe_filled pp (take (m - 1) (drop (Suc i) (user_bytes ?s pt addr n))) ?s)"
      using Suc.hyps(2) Suc.prems(1-4) i lt m' cont
      by (intro Suc.hyps(1)) (simp_all add: pi_put_def)
    have m0: "m = Suc (m - 1)" using Suc.prems(6) False i by simp
    have ub: "user_bytes ?s pt addr n = user_bytes s pt addr n" by (simp add: user_bytes_def)
    have "drop i (user_bytes s pt addr n) = ?b # drop (Suc i) (user_bytes s pt addr n)"
      using i by (simp add: Cons_nth_drop_Suc [symmetric] user_bytes_def)
    then have "take m (drop i (user_bytes s pt addr n)) = ?b # take (m - 1) (drop (Suc i) (user_bytes s pt addr n))"
      using m0 by (metis take_Suc_Cons)
    moreover have "i + m = n \<longleftrightarrow> Suc i + (m - 1) = n" using m0 by linarith
    ultimately show ?thesis using step IH ub by (simp add: pipe_filled_def)
  qed
qed

lemma fold_put_contents:
  assumes "length bs \<le> pi_space x" and "length (pi_contents x) \<le> PIPESIZE"
  shows "pi_contents (fold pi_put bs x) = pi_contents x @ bs"
  using assms by (intro pq.put_all) (simp add: pi_space_def)

lemma wakeup_held:
  assumes "ptable_free s"
  obtains t where "wakeup c s = Done () t" and "t = s\<lparr>procs := procs t\<rparr>"
    and "\<And>i. procs t i = procs s i \<or> procs t i = (procs s i)\<lparr>p_state := RUNNABLE\<rparr>"
    and "\<And>i. Some i = myproc s \<Longrightarrow> procs t i = procs s i"
  using wakeup_run [OF assms, of c] that by (simp add: wake_def)

text \<open>The conditions on a call from user space: the process holds no lock.\<close>

definition pipe_call :: "nat \<Rightarrow> u64 \<Rightarrow> u64 \<Rightarrow> u64 list \<Rightarrow> 'z kpipe_scheme \<Rightarrow> bool" where
  "pipe_call pr pp pt fl s \<longleftrightarrow> pipe_ready pr pt fl s \<and> myproc s = Some pr \<and> noff (mycpu s) = 0
     \<and> ptable_free s \<and> lock_free (PipeLock pp) s \<and> length (pi_contents (pipes s pp)) \<le> PIPESIZE"

lemma pipe_callD:
  assumes "pipe_call pr pp pt fl s"
  shows "pipe_ready pr pt fl (hold (PipeLock pp) s)" and "ptable_free (hold (PipeLock pp) s)"
    and "acquire (PipeLock pp) s = Done () (hold (PipeLock pp) s)" and "machine_ok s"
    and "lock_free (ProcLock pr) s"
  using assms
  by (auto simp: pipe_call_def pipe_ready_def ptable_free_def machine_ok_hold vm_inv_hold acquire_ok)

lemma locked_end:
  assumes "machine_ok s" and "lock_free l s"
  shows "release l ((hold l s)\<lparr>pipes := f, procs := g\<rparr>) = Done () (s\<lparr>pipes := f, procs := g\<rparr>)"
  using assms machine_ok_noff [OF assms(1)] by (simp add: release_ok)

lemma pipewrite_end_run:
  assumes "pipe_call pr pp pt fl s"
  obtains P where "pipewrite_end pp n (pipe_filled pp bs (hold (PipeLock pp) s))
    = Done (int n) (pipe_filled pp bs (s\<lparr>procs := P\<rparr>))"
proof -
  let ?f = "(pipes s)(pp := fold pi_put bs (pipes s pp))"
  let ?h = "hold (PipeLock pp) s"
  have pf: "ptable_free (?h\<lparr>pipes := ?f\<rparr>)" using pipe_callD(2) [OF assms] by simp
  obtain t where t: "wakeup (PipeReadChan pp) (?h\<lparr>pipes := ?f\<rparr>) = Done () t"
    "t = (?h\<lparr>pipes := ?f\<rparr>)\<lparr>procs := procs t\<rparr>"
    using wakeup_held [OF pf, of "PipeReadChan pp"] by metis
  have "release (PipeLock pp) t = Done () (s\<lparr>pipes := ?f, procs := procs t\<rparr>)"
    using locked_end [of s "PipeLock pp" "procs t" ?f] assms pipe_callD(4) [OF assms]
    by (subst t(2)) (simp add: pipe_call_def)
  with t(1) show thesis
    by (intro that [of "procs t"]) (simp add: pipewrite_end_def pipe_filled_def kseq_run)
qed

lemma pipewrite_block_run:
  assumes "pipe_call pr pp pt fl s"
  obtains u where "kseq (wakeup (PipeReadChan pp)) (sleep (PipeWriteChan pp) (PipeLock pp))
      (pipe_filled pp bs (hold (PipeLock pp) s)) = Block (Some (PipeWriteChan pp)) u"
    and "pipes u = pipes (pipe_filled pp bs s)" and "p_state (procs u pr) = SLEEPING"
    and "lock_free (PipeLock pp) u"
proof -
  let ?w = "pipe_filled pp bs (hold (PipeLock pp) s)"
  have pf: "ptable_free ?w" using pipe_callD(2) [OF assms] by (simp add: pipe_filled_def)
  obtain t where t: "wakeup (PipeReadChan pp) ?w = Done () t" "t = ?w\<lparr>procs := procs t\<rparr>"
    using wakeup_held [OF pf, of "PipeReadChan pp"] by metis
  have ok: "machine_ok t" "myproc t = Some pr" "lock_free (ProcLock pr) t" "holding (PipeLock pp) t"
    "noff (mycpu t) = 1" "pipes t = pipes (pipe_filled pp bs s)"
    using assms pipe_callD(4,5) [OF assms]
    by (subst t(2), simp add: pipe_call_def pipe_filled_def machine_ok_hold)+
  have "sleep (PipeWriteChan pp) (PipeLock pp) t =
      Block (Some (PipeWriteChan pp)) (asleep pr (PipeWriteChan pp) (PipeLock pp) t)"
    using sleep_run [OF ok(1-4)] ok(5) by simp
  with t(1) ok show thesis
    by (intro that [of "asleep pr (PipeWriteChan pp) (PipeLock pp) t"]) (simp_all add: kseq_run asleep_def)
qed

subsection \<open>Reading\<close>

lemma vm_inv_procs [simp]: "vm_inv (procs_update f s) r xs = vm_inv s r xs"
  by (simp add: vm_inv_def kmem_inv_def page_ok_def)

definition pipe_drained :: "u64 \<Rightarrow> nat \<Rightarrow> bytes \<Rightarrow> 'z kpipe_scheme \<Rightarrow> 'z kpipe_scheme" where
  "pipe_drained pp k m s = s\<lparr>mem := m, pipes := (pipes s)(pp := (pi_take ^^ k) (pipes s pp))\<rparr>"

lemma copyout_byte:
  assumes "pipe_ready pr pt fl s" and "user_sep (mem s) pt fl" and "user_byte (mem s) pt a \<noteq> None"
  obtains m where "copyout pt a [b] s = Done 0 (s\<lparr>mem := m\<rparr>)"
    and "pipe_ready pr pt fl (s\<lparr>mem := m\<rparr>)" and "user_sep m pt fl"
    and "user_byte m pt = user_store (user_byte (mem s) pt) a [b]"
proof -
  have inv: "vm_inv s pt fl" using assms(1) by (simp add: pipe_ready_def)
  have len: "length [b] < 2 ^ 64" by simp
  have ok: "\<forall>i < length [b]. user_byte (mem s) pt (a + of_nat i) \<noteq> None" using assms(3) by simp
  obtain t where t: "copyout pt a [b] s = Done 0 t" "vm_inv t pt fl" "user_sep (mem t) pt fl"
    "user_byte (mem t) pt = user_store (user_byte (mem s) pt) a [b]"
    using copyout_spec [OF inv assms(2) len, of a] ok by auto
  have st: "t = s\<lparr>mem := mem t\<rparr>" by (rule copyout_state [OF t(1)])
  show thesis
  proof (rule that [of "mem t"])
    show "copyout pt a [b] s = Done 0 (s\<lparr>mem := mem t\<rparr>)" using t(1) st by simp
    have "vm_inv (s\<lparr>mem := mem t\<rparr>) pt fl" using t(2) by (subst (asm) st)
    then show "pipe_ready pr pt fl (s\<lparr>mem := mem t\<rparr>)"
      using assms(1) by (simp add: pipe_ready_def)
  qed (use t in simp_all)
qed

lemma user_store_None:
  assumes "user_byte m pt = user_store (user_byte m0 pt) a bs"
    and "user_byte m0 pt x \<noteq> None"
  shows "user_byte m pt x \<noteq> None"
  using assms by (simp add: user_store_def)

lemma piperead_copy_run:
  assumes "pipe_ready pr pt fl s" and "user_sep (mem s) pt fl" and "i \<le> n" and "n < 2 ^ 64"
    and "\<forall>k < n. user_byte (mem s) pt (addr + of_nat k) \<noteq> None"
    and "d = min (n - i) (length (pi_contents (pipes s pp)))"
  shows "\<exists>m. piperead_copy pr pp addr n i s = Done (i + d) (pipe_drained pp d m s)
    \<and> user_byte m pt = user_store (user_byte (mem s) pt) (addr + of_nat i) (take d (pi_contents (pipes s pp)))"
  using assms
proof (induction "n - i" arbitrary: i s d)
  case 0
  then show ?case
    by (subst piperead_copy.simps) (auto simp: pipe_drained_def user_store_def fun_eq_iff intro!: exI [of _ "mem s"])
next
  case (Suc k)
  let ?x = "pipes s pp"
  have i: "i < n" using Suc.hyps(2) by simp
  show ?case
  proof (cases "pi_contents ?x = []")
    case True
    then show ?thesis using i Suc.prems(6)
      by (subst piperead_copy.simps)
        (auto simp: kbind_run pi_empty pipe_drained_def user_store_def fun_eq_iff intro!: exI [of _ "mem s"])
  next
    case False
    let ?s = "s\<lparr>pipes := (pipes s)(pp := pi_take ?x)\<rparr>" and ?b = "pi_next ?x"
    have c: "pi_contents ?x = ?b # pi_contents (pi_take ?x)" using False by (rule pq.contents_pop)
    have r: "pipe_ready pr pt fl ?s" "user_sep (mem ?s) pt fl" using Suc.prems(1,2) by simp_all
    have ub: "user_byte (mem ?s) pt (addr + of_nat i) \<noteq> None" using Suc.prems(5) i by simp
    obtain m where m: "copyout pt (addr + of_nat i) [?b] ?s = Done 0 (?s\<lparr>mem := m\<rparr>)"
      "pipe_ready pr pt fl (?s\<lparr>mem := m\<rparr>)" "user_sep m pt fl"
      "user_byte m pt = user_store (user_byte (mem ?s) pt) (addr + of_nat i) [?b]"
      by (rule copyout_byte [OF r ub])
    let ?t = "?s\<lparr>mem := m\<rparr>"
    have ne: "nread ?x \<noteq> nwrite ?x" using False by (simp add: pi_empty)
    have pg: "pagetable (procs s pr) = pt" using Suc.prems(1) by (simp add: pipe_ready_def)
    have step: "piperead_copy pr pp addr n i s = piperead_copy pr pp addr n (Suc i) ?t"
      using i ne m(1) pg by (subst piperead_copy.simps) (simp add: kbind_run kseq_run pget_def)
    have d': "d - 1 = min (n - Suc i) (length (pi_contents (pipes ?t pp)))"
      using Suc.prems(6) i c by simp
    have d0: "d = Suc (d - 1)" using Suc.prems(6) i c by simp
    have acc: "\<forall>k < n. user_byte (mem ?t) pt (addr + of_nat k) \<noteq> None"
      using Suc.prems(5) user_store_None [OF m(4)] by simp
    have k: "k = n - Suc i" using Suc.hyps(2) by simp
    have sep: "user_sep (mem ?t) pt fl" and le: "Suc i \<le> n" using m(3) i by simp_all
    obtain m' where m': "piperead_copy pr pp addr n (Suc i) ?t = Done (Suc i + (d - 1)) (pipe_drained pp (d - 1) m' ?t)"
      "user_byte m' pt = user_store (user_byte m pt) (addr + of_nat (Suc i)) (take (d - 1) (pi_contents (pi_take ?x)))"
      using Suc.hyps(1) [OF k m(2) sep le Suc.prems(4) acc d'] by (auto simp del: of_nat_Suc)
    have "take d (pi_contents ?x) = [?b] @ take (d - 1) (pi_contents (pi_take ?x))"
      by (subst c, subst d0) simp
    moreover have "length (\<dots>) < 2 ^ 64" using d' Suc.prems(4) i by simp
    ultimately have "user_byte m' pt = user_store (user_byte (mem s) pt) (addr + of_nat i) (take d (pi_contents ?x))"
      using m'(2) m(4) user_store_append [of "[?b]" "take (d - 1) (pi_contents (pi_take ?x))" "user_byte (mem s) pt" "addr + of_nat i"]
      by (simp add: algebra_simps)
    moreover have "pipe_drained pp (d - 1) m' ?t = pipe_drained pp d m' s"
      by (subst (2) d0) (simp add: pipe_drained_def funpow_swap1 del: funpow.simps(2) add: funpow_Suc_right)
    ultimately show ?thesis using step m'(1) d0 by (intro exI [of _ m']) simp
  qed
qed

lemma piperead_run:
  assumes "pipe_call pr pp pt fl s" and "user_sep (mem s) pt fl" and "n < 2 ^ 64"
    and "\<forall>k < n. user_byte (mem s) pt (addr + of_nat k) \<noteq> None"
    and "d = min n (length (pi_contents (pipes s pp)))"
    and "pi_contents (pipes s pp) \<noteq> [] \<or> \<not> writeopen (pipes s pp)"
  obtains m P where "piperead pp addr (int n) s = Done (int d) (pipe_drained pp d m (s\<lparr>procs := P\<rparr>))"
    and "user_byte m pt = user_store (user_byte (mem s) pt) addr (take d (pi_contents (pipes s pp)))"
proof -
  let ?h = "hold (PipeLock pp) s"
  note c = pipe_callD [OF assms(1)]
  have acc: "\<forall>k < n. user_byte (mem ?h) pt (addr + of_nat k) \<noteq> None" and sep: "user_sep (mem ?h) pt fl"
    using assms(2,4) by simp_all
  have d: "d = min (n - 0) (length (pi_contents (pipes ?h pp)))" using assms(5) by simp
  from piperead_copy_run [OF c(1) sep _ assms(3) acc d] obtain m where
    m: "piperead_copy pr pp addr n 0 ?h = Done d (pipe_drained pp d m ?h)"
       "user_byte m pt = user_store (user_byte (mem s) pt) addr (take d (pi_contents (pipes s pp)))" by auto
  let ?f = "(pipes s)(pp := (pi_take ^^ d) (pipes s pp))"
  have pf: "ptable_free (pipe_drained pp d m ?h)"
    using c(2) by (simp add: pipe_drained_def ptable_free_def)
  obtain t where t: "wakeup (PipeWriteChan pp) (pipe_drained pp d m ?h) = Done () t"
    "t = (pipe_drained pp d m ?h)\<lparr>procs := procs t\<rparr>"
    using wakeup_held [OF pf, of "PipeWriteChan pp"] by metis
  let ?s = "s\<lparr>mem := m\<rparr>"
  have "machine_ok ?s" "lock_free (PipeLock pp) ?s" using c(4) assms(1) by (simp_all add: pipe_call_def)
  then have "release (PipeLock pp) t = Done () (?s\<lparr>pipes := ?f, procs := procs t\<rparr>)"
    using locked_end [of ?s "PipeLock pp" "procs t" ?f]
    by (subst t(2)) (simp add: pipe_drained_def)
  moreover have "nread (pipes s pp) \<noteq> nwrite (pipes s pp) \<or> \<not> writeopen (pipes s pp)"
    using assms(6) by (simp add: pi_empty)
  ultimately have "piperead pp addr (int n) s = Done (int d) (?s\<lparr>pipes := ?f, procs := procs t\<rparr>)"
    using assms(1) c(3) m(1) t(1)
    by (auto simp: piperead_def with_myproc_def piperead_wait_def pipe_call_def kseq_run kbind_run)
  with m(2) show thesis by (intro that [of m "procs t"]) (simp_all add: pipe_drained_def)
qed

subsection \<open>Properties\<close>

text \<open>
  C12 (refinement). A pipe refines a bounded first-in first-out queue on the writing side. Writing \<open>n\<close> accessible user bytes
  to a pipe whose reader is open, from a process that holds no lock: if there is room for all of them, \<open>pipewrite\<close> returns
  \<open>n\<close> and the queue has the user's bytes appended, in order; if not, it appends as many
  as there is room for and puts the process to sleep with the pipe unlocked. No other pipe and no
  memory changes. The 32-bit counters may wrap.
\<close>

theorem pipewrite_appends:
  assumes "pipe_call pr pp pt fl s" and "readopen (pipes s pp)"
    and "\<forall>k < n. user_byte (mem s) pt (addr + of_nat k) \<noteq> None"
  shows "if n \<le> pi_space (pipes s pp)
    then \<exists>t. pipewrite pp addr (int n) s = Done (int n) t
      \<and> pi_contents (pipes t pp) = pi_contents (pipes s pp) @ user_bytes s pt addr n
      \<and> (pipes t)(pp := x) = (pipes s)(pp := x) \<and> mem t = mem s \<and> locks t = locks s
    else \<exists>u. pipewrite pp addr (int n) s = Block (Some (PipeWriteChan pp)) u
      \<and> pi_contents (pipes u pp) = pi_contents (pipes s pp) @ take (pi_space (pipes s pp)) (user_bytes s pt addr n)
      \<and> (pipes u)(pp := x) = (pipes s)(pp := x)
      \<and> p_state (procs u pr) = SLEEPING \<and> lock_free (PipeLock pp) u"
proof -
  let ?k = "pi_space (pipes s pp)" and ?bs = "user_bytes s pt addr n" and ?h = "hold (PipeLock pp) s"
  define m where "m = min n ?k"
  note c = pipe_callD [OF assms(1)]
  have len: "length (pi_contents (pipes s pp)) \<le> PIPESIZE" using assms(1) by (simp add: pipe_call_def)
  have lb: "length ?bs = n" by (simp add: user_bytes_def)
  have "pipewrite pp addr (int n) s = pipewrite_loop pr pp addr n 0 ?h"
    using assms(1) c(3) by (simp add: pipewrite_def with_myproc_def pipe_call_def kseq_run)
  also have "\<dots> = (if 0 + m = n then pipewrite_end pp n
       else kseq (wakeup (PipeReadChan pp)) (sleep (PipeWriteChan pp) (PipeLock pp)))
      (pipe_filled pp (take m (drop 0 (user_bytes ?h pt addr n))) ?h)"
    using assms(2,3) len by (intro pipewrite_loop_run [OF c(1)]) (simp_all add: m_def)
  finally have run: "pipewrite pp addr (int n) s = (if n \<le> ?k then pipewrite_end pp n
       else kseq (wakeup (PipeReadChan pp)) (sleep (PipeWriteChan pp) (PipeLock pp))) (pipe_filled pp (take m ?bs) ?h)"
    by (auto simp: m_def user_bytes_def)
  have cont: "pi_contents (fold pi_put (take m ?bs) (pipes s pp)) = pi_contents (pipes s pp) @ take m ?bs"
    using len by (intro fold_put_contents) (simp_all add: m_def)
  show ?thesis
  proof (cases "n \<le> ?k")
    case True
    then have "take m ?bs = ?bs" using lb by (simp add: m_def)
    moreover obtain P where "pipewrite_end pp n (pipe_filled pp ?bs ?h) = Done (int n) (pipe_filled pp ?bs (s\<lparr>procs := P\<rparr>))"
      by (rule pipewrite_end_run [OF assms(1)])
    ultimately show ?thesis using True run cont by (simp add: pipe_filled_def)
  next
    case False
    then have "m = ?k" by (simp add: m_def)
    obtain u where "kseq (wakeup (PipeReadChan pp)) (sleep (PipeWriteChan pp) (PipeLock pp))
      (pipe_filled pp (take m ?bs) ?h) = (Block (Some (PipeWriteChan pp)) u :: (_, int) outcome)"
      "pipes u = pipes (pipe_filled pp (take m ?bs) s)" "p_state (procs u pr) = SLEEPING"
      "lock_free (PipeLock pp) u" by (rule pipewrite_block_run [OF assms(1)])
    then show ?thesis using False run cont \<open>m = ?k\<close> by (simp add: pipe_filled_def)
  qed
qed

text \<open>
  C13 (refinement). The reading side: \<open>piperead\<close> of up to \<open>n\<close> bytes into accessible user memory takes the
  first \<open>min n (length queue)\<close> bytes off the queue, stores exactly them at the
  user's buffer, and returns their number, 0 at the end of file. An empty pipe whose writer is open puts
  the reader to sleep with the queue as it was.
\<close>

theorem piperead_takes_prefix:
  assumes "pipe_call pr pp pt fl s" and "user_sep (mem s) pt fl" and "n < 2 ^ 64"
    and "\<forall>k < n. user_byte (mem s) pt (addr + of_nat k) \<noteq> None"
    and "q = pi_contents (pipes s pp)" and "d = min n (length q)"
  shows "if q = [] \<and> writeopen (pipes s pp)
    then \<exists>u. piperead pp addr (int n) s = Block (Some (PipeReadChan pp)) u \<and> pipes u = pipes s
      \<and> p_state (procs u pr) = SLEEPING \<and> lock_free (PipeLock pp) u
    else \<exists>t. piperead pp addr (int n) s = Done (int d) t \<and> pi_contents (pipes t pp) = drop d q
      \<and> user_byte (mem t) pt = user_store (user_byte (mem s) pt) addr (take d q)
      \<and> (pipes t)(pp := x) = (pipes s)(pp := x) \<and> locks t = locks s"
proof (cases "q = [] \<and> writeopen (pipes s pp)")
  case True
  let ?h = "hold (PipeLock pp) s"
  note c = pipe_callD [OF assms(1)]
  have pc: "myproc s = Some pr" "lock_free (ProcLock pr) ?h" "p_killed (procs s pr) = 0" "noff (mycpu s) = 0"
    using assms(1) by (simp_all add: pipe_call_def pipe_ready_def)
  have ok: "machine_ok ?h" "myproc ?h = Some pr" using c(4) pc(1) by (simp_all add: machine_ok_hold)
  have e: "nread (pipes s pp) = nwrite (pipes s pp)" using True assms(5) by (simp add: pi_empty)
  have "sleep (PipeReadChan pp) (PipeLock pp) ?h = Block (Some (PipeReadChan pp)) (asleep pr (PipeReadChan pp) (PipeLock pp) ?h)"
    using sleep_run [OF ok pc(2), of "PipeLock pp"] pc(4) by simp
  then have "piperead pp addr (int n) s = Block (Some (PipeReadChan pp)) (asleep pr (PipeReadChan pp) (PipeLock pp) ?h)"
    using True e c(3) pc killed_run [OF ok(1) pc(2)]
    by (simp add: piperead_def with_myproc_def piperead_wait_def kseq_run kbind_run)
  then show ?thesis using True by (simp add: asleep_def)
next
  case False
  then have w: "pi_contents (pipes s pp) \<noteq> [] \<or> \<not> writeopen (pipes s pp)" using assms(5) by simp
  have d: "d = min n (length (pi_contents (pipes s pp)))" using assms(5,6) by simp
  obtain m P where "piperead pp addr (int n) s = Done (int d) (pipe_drained pp d m (s\<lparr>procs := P\<rparr>))"
    "user_byte m pt = user_store (user_byte (mem s) pt) addr (take d (pi_contents (pipes s pp)))"
    by (rule piperead_run [OF assms(1-4) d w])
  then show ?thesis using False pq.pop_all [of d "pipes s pp"] d assms(5)
    by (auto simp: pipe_drained_def)
qed

text \<open>
  A machine for the witnesses: the process of \<open>family_vm\<close> with a pipe that holds one byte, its
  counters at the wrap-around.
\<close>

definition pipe_vm :: kpipe where
  "pipe_vm = kproc.extend family_vm
     \<lparr>sleeplocks = (\<lambda>_. \<lparr>sl_locked = False, sl_name = [], sl_pid = 0\<rparr>),
      bufs = (\<lambda>_. \<lparr>b_valid = False, b_disk = False, b_dev = 0, b_blockno = 0, b_refcnt = 0, b_prev = 0,
        b_next = 0, b_data = (\<lambda>_. 0)\<rparr>),
      vd_desc = (\<lambda>_. \<lparr>d_addr = NoAddr, d_len = 0, d_flags = 0, d_next = 0\<rparr>), vd_avail_idx = 0,
      vd_avail_ring = (\<lambda>_. 0), vd_used_idx = 0, vd_used_ring = (\<lambda>_. 0), vd_free = (\<lambda>_. True),
      vd_seen = 0, vd_info_b = (\<lambda>_. None), vd_info_status = (\<lambda>_. 0),
      vd_ops = (\<lambda>_. \<lparr>req_type = 0, req_reserved = 0, req_sector = 0\<rparr>), dev_seen = 0, mmio = [],
      disk = (\<lambda>_ _. 0), disk_writes = [],
      log_start = 2, log_size = 30, log_outstanding = 0, log_committing = False, log_dev = 1, lh_n = 0,
      lh_block = (\<lambda>_. 0),
      sb = \<lparr>sb_magic = FSMAGIC, sb_size = 2000, sb_nblocks = 1954, sb_ninodes = 200, sb_nlog = 30,
        sb_logstart = 2, sb_inodestart = 32, sb_bmapstart = 45\<rparr>,
      inodes = (\<lambda>_. \<lparr>i_dev = 0, i_inum = 0, i_ref = 0, i_valid = False, i_type = 0, i_major = 0,
        i_minor = 0, i_nlink = 0, i_size = 0, i_addrs = (\<lambda>_. 0)\<rparr>),
      pipes = (\<lambda>_. \<lparr>pi_data = (\<lambda>_. 42), nread = 0xFFFFFFFF, nwrite = 0, readopen = True, writeopen = True\<rparr>)\<rparr>"

lemma pipe_vm_contents: "pi_contents (pipes pipe_vm pp) = [42]"
  by (simp add: pipe_vm_def kproc.defs pi_contents_def ring_contents_def)

lemma pipe_vm_call:
  obtains ys where "pipe_call 0 pp 0x87FFD000 ys pipe_vm" and "user_sep (mem pipe_vm) 0x87FFD000 ys"
    and "\<And>va. user_byte (mem pipe_vm) 0x87FFD000 va \<noteq> None \<longleftrightarrow> unat va < 4096"
proof -
  obtain ys where ys: "vm_inv family_vm 0x87FFD000 ys" "user_sep (mem family_vm) 0x87FFD000 ys"
    "\<And>va. user_byte (mem family_vm) 0x87FFD000 va \<noteq> None \<longleftrightarrow> unat va < 4096"
    using family_vm_space by metis
  have mach: "machine_ok pipe_vm \<longleftrightarrow> machine_ok family_vm" "mem pipe_vm = mem family_vm"
    "locks pipe_vm = locks family_vm" "procs pipe_vm = procs family_vm" "mycpu pipe_vm = mycpu family_vm"
    by (simp_all add: pipe_vm_def kproc.defs machine_ok_def cpu_defs)
  have "vm_inv pipe_vm 0x87FFD000 ys"
    using ys(1) by (simp add: vm_inv_def kmem_inv_def page_ok_def mach) (simp add: pipe_vm_def kproc.defs)
  moreover have "machine_ok family_vm" using ys(1) by (simp add: vm_inv_def kmem_inv_def)
  moreover have "lock_free l family_vm" for l
  proof -
    obtain zs where "vm_rest user_vm = vm_rest empty_vm" using user_vm_spec by metis
    then have "locks user_vm = locks empty_vm" by (rule vm_rest_fields)
    then show ?thesis by (simp add: family_vm_def kmem.defs empty_vm_def one_page_def boot_machine_def machine.defs)
  qed
  ultimately have "pipe_call 0 pp 0x87FFD000 ys pipe_vm"
    by (simp add: pipe_call_def pipe_ready_def ptable_free_def mach pipe_vm_contents myproc_def)
      (simp add: family_vm_def kmem.defs cpu_defs no_proc_def)
  with ys(2,3) show thesis by (intro that [of ys]) (simp_all add: mach)
qed

theorem pipewrite_appends_witness:
  "(\<exists>t. pipewrite 0x87FFA000 4 (int 3) pipe_vm = Done 3 t
      \<and> pi_contents (pipes t 0x87FFA000) = 42 # user_bytes pipe_vm 0x87FFD000 4 3)
   \<and> (\<exists>u. pipewrite 0x87FFA000 4 (int 600) pipe_vm = Block (Some (PipeWriteChan 0x87FFA000)) u
      \<and> length (pi_contents (pipes u 0x87FFA000)) = 512)"
proof -
  obtain ys where c: "pipe_call 0 0x87FFA000 0x87FFD000 ys pipe_vm"
    and ub: "\<And>va. user_byte (mem pipe_vm) 0x87FFD000 va \<noteq> None \<longleftrightarrow> unat va < 4096"
    using pipe_vm_call [of "0x87FFA000"] by metis
  have ro: "readopen (pipes pipe_vm 0x87FFA000)" by (simp add: pipe_vm_def kproc.defs)
  have acc: "\<forall>k < n. user_byte (mem pipe_vm) 0x87FFD000 (4 + of_nat k) \<noteq> None" if "n \<le> 600" for n
  proof (intro allI impI)
    fix k assume "k < n"
    then have "unat (4 + of_nat k :: u64) = 4 + k"
      using that by (simp add: unat_word_ariths unat_of_nat64)
    then show "user_byte (mem pipe_vm) 0x87FFD000 (4 + of_nat k) \<noteq> None" using ub \<open>k < n\<close> that by simp
  qed
  have sp: "pi_space (pipes pipe_vm 0x87FFA000) = 511" by (simp add: pi_space_def pipe_vm_contents)
  show ?thesis
    using pipewrite_appends [OF c ro acc [of 3]] pipewrite_appends [OF c ro acc [of 600]] length_take
    by (fastforce simp: sp pipe_vm_contents user_bytes_def)
qed

theorem piperead_takes_prefix_witness:
  "\<exists>t. piperead 0x87FFA000 8 (int 5) pipe_vm = Done 1 t \<and> pi_contents (pipes t 0x87FFA000) = []
     \<and> user_byte (mem t) 0x87FFD000 8 = Some 42"
proof -
  obtain ys where c: "pipe_call 0 0x87FFA000 0x87FFD000 ys pipe_vm" "user_sep (mem pipe_vm) 0x87FFD000 ys"
    and ub: "\<And>va. user_byte (mem pipe_vm) 0x87FFD000 va \<noteq> None \<longleftrightarrow> unat va < 4096"
    using pipe_vm_call [of "0x87FFA000"] by metis
  have acc: "\<forall>k < 5. user_byte (mem pipe_vm) 0x87FFD000 (8 + of_nat k) \<noteq> None"
    using ub by (auto simp: unat_word_ariths unat_of_nat64)
  have d: "1 = min 5 (length (pi_contents (pipes pipe_vm 0x87FFA000)))" by (simp add: pipe_vm_contents)
  show ?thesis
    using piperead_takes_prefix [OF c _ acc refl d, of undefined]
    by (force simp: pipe_vm_contents user_store_def in_region_def)
qed

end
