(* ===== verification/Console.thy ===== *)
theory Console
  imports Pipe
begin

text \<open>
  \<^verbatim>\<open>kernel/console.c\<close> and \<^verbatim>\<open>kernel/uart.c\<close>: the console's line buffer with its read, write and edit
  indices, and the UART's transmit buffer. Of the device the model keeps what the code can see of
  it: how many more bytes the transmitter takes now (\<open>uart_room\<close>), the bytes sent so far, the
  received bytes that wait to be read, and the writes to the other registers. \<open>panicked\<close> is 0.
\<close>

abbreviation INPUT_BUF_SIZE :: nat where "INPUT_BUF_SIZE \<equiv> 128"
abbreviation UART_TX_BUF_SIZE :: nat where "UART_TX_BUF_SIZE \<equiv> 32"

record kcons = kpipe +
  cons_buf :: "nat \<Rightarrow> u8"
  cons_r :: u32
  cons_w :: u32
  cons_e :: u32
  uart_tx_buf :: "nat \<Rightarrow> u8"
  uart_tx_w :: u64
  uart_tx_r :: u64
  uart_room :: nat
  uart_sent :: "u8 list"
  uart_rx :: "u8 list"
  uart_regs :: "(nat \<times> u8) list"

subsection \<open>UART\<close>

text \<open>\<open>WriteReg\<close> for the registers that configure the device, in order.\<close>

definition WriteReg :: "nat \<Rightarrow> u8 \<Rightarrow> ('z kcons_scheme, unit) kop" where
  "WriteReg reg v = kmod (\<lambda>s. s\<lparr>uart_regs := uart_regs s @ [(reg, v)]\<rparr>)"

definition uartinit :: "('z kcons_scheme, unit) kop" where
  "uartinit =
     kseq (WriteReg 1 0)
     (kseq (WriteReg 3 0x80)
     (kseq (WriteReg 0 3)
     (kseq (WriteReg 1 0)
     (kseq (WriteReg 3 3)
     (kseq (WriteReg 2 7)
     (kseq (WriteReg 1 3)
     (initlock UartLock ''uart'')))))))"

text \<open>\<open>WriteReg(THR, c)\<close>.\<close>

definition uart_send :: "u8 \<Rightarrow> ('z kcons_scheme, unit) kop" where
  "uart_send c = kmod (\<lambda>s. s\<lparr>uart_sent := uart_sent s @ [c], uart_room := uart_room s - 1\<rparr>)"

text \<open>The loop of \<open>uartstart\<close> runs at most \<open>uart_room\<close> times.\<close>

fun uartstart_loop :: "nat \<Rightarrow> ('z kcons_scheme, unit) kop" where
  "uartstart_loop 0 = kret ()"
| "uartstart_loop (Suc room) = (\<lambda>s.
     if uart_tx_w s = uart_tx_r s then Done () s
     else let c = uart_tx_buf s (unat (uart_tx_r s) mod UART_TX_BUF_SIZE)
       in (kseq (kmod (\<lambda>s. s\<lparr>uart_tx_r := uart_tx_r s + 1\<rparr>))
          (kseq (wakeup UartChan)
          (kseq (uart_send c)
          (uartstart_loop room)))) s)"

definition uartstart :: "('z kcons_scheme, unit) kop" where
  "uartstart = (\<lambda>s. uartstart_loop (uart_room s) s)"

definition uartputc_loop :: "u8 \<Rightarrow> ('z kcons_scheme, unit) kop" where
  "uartputc_loop c = (\<lambda>s.
     if uart_tx_w s = uart_tx_r s + of_nat UART_TX_BUF_SIZE then sleep UartChan UartLock s
     else (kseq (kmod (\<lambda>s. s\<lparr>uart_tx_buf := (uart_tx_buf s)(unat (uart_tx_w s) mod UART_TX_BUF_SIZE := c),
                              uart_tx_w := uart_tx_w s + 1\<rparr>))
          (kseq uartstart (release UartLock))) s)"

definition uartputc :: "u8 \<Rightarrow> ('z kcons_scheme, unit) kop" where
  "uartputc c = kseq (acquire UartLock) (uartputc_loop c)"

text \<open>\<open>uartputc_sync\<close> spins until the transmitter is idle.\<close>

definition uartputc_sync :: "u8 \<Rightarrow> ('z kcons_scheme, unit) kop" where
  "uartputc_sync c = kseq push_off (kseq (uart_send c) pop_off)"

definition uartgetc :: "('z kcons_scheme, int) kop" where
  "uartgetc = (\<lambda>s. case uart_rx s of
       [] \<Rightarrow> Done (- 1) s
     | c # cs \<Rightarrow> Done (uint c) (s\<lparr>uart_rx := cs\<rparr>))"

subsection \<open>Console\<close>

abbreviation (input) BACKSPACE :: int where "BACKSPACE \<equiv> 0x100"

definition consputc :: "int \<Rightarrow> ('z kcons_scheme, unit) kop" where
  "consputc c =
     (if c = BACKSPACE then kseq (uartputc_sync 8) (kseq (uartputc_sync 32) (uartputc_sync 8))
      else uartputc_sync (word_of_int c))"

function consolewrite_loop :: "bool \<Rightarrow> u64 \<Rightarrow> nat \<Rightarrow> nat \<Rightarrow> ('z kcons_scheme, int) kop" where
  "consolewrite_loop user_src src n i =
     (if n \<le> i then kret (int i)
      else kbind (either_copyin user_src (src + of_nat i) 1) (\<lambda>(r, bs).
        if r = - 1 then kret (int i)
        else kseq (uartputc (hd bs)) (consolewrite_loop user_src src n (Suc i))))"
  by pat_completeness auto
termination
  by (relation "measure (\<lambda>(_, _, n, i). n - i)") auto

declare consolewrite_loop.simps [simp del]

definition consolewrite :: "bool \<Rightarrow> u64 \<Rightarrow> int \<Rightarrow> ('z kcons_scheme, int) kop" where
  "consolewrite user_src src n = consolewrite_loop user_src src (nat n) 0"

text \<open>\<open>n\<close> bytes are still wanted of \<open>target\<close>.\<close>

primrec consoleread_loop :: "bool \<Rightarrow> nat \<Rightarrow> nat \<Rightarrow> u64 \<Rightarrow> ('z kcons_scheme, int) kop" where
  "consoleread_loop user_dst target 0 dst = kseq (release ConsLock) (kret (int target))"
| "consoleread_loop user_dst target (Suc n) dst = (\<lambda>s.
     if cons_r s = cons_w s
     then with_myproc (\<lambda>p. kbind (killed p) (\<lambda>k.
       if k \<noteq> 0 then kseq (release ConsLock) (kret (- 1))
       else sleep ConsChan ConsLock)) s
     else let c = cons_buf s (unat (cons_r s) mod INPUT_BUF_SIZE)
       in (kseq (kmod (\<lambda>s. s\<lparr>cons_r := cons_r s + 1\<rparr>))
          (if c = 4
           then kseq (kwhen (Suc n < target) (kmod (\<lambda>s. s\<lparr>cons_r := cons_r s - 1\<rparr>)))
               (kseq (release ConsLock) (kret (int target - int (Suc n))))
           else kbind (either_copyout user_dst dst [c]) (\<lambda>r.
             if r = - 1 then kseq (release ConsLock) (kret (int target - int (Suc n)))
             else if c = 10 then kseq (release ConsLock) (kret (int target - int n))
             else consoleread_loop user_dst target n (dst + 1)))) s)"

definition consoleread :: "bool \<Rightarrow> u64 \<Rightarrow> int \<Rightarrow> ('z kcons_scheme, int) kop" where
  "consoleread user_dst dst n =
     kseq (acquire ConsLock)
       (if n > 0 then consoleread_loop user_dst (nat n) (nat n) dst
        else kseq (release ConsLock) (kret 0))"

text \<open>Killing the line: back to the last newline or to the write index.\<close>

function kill_line :: "u32 \<Rightarrow> u32 \<Rightarrow> ('z kcons_scheme, unit) kop" where
  "kill_line e w = (\<lambda>s.
     if e \<noteq> w \<and> cons_buf s (unat (e - 1) mod INPUT_BUF_SIZE) \<noteq> 10
     then (kseq (kmod (\<lambda>s. s\<lparr>cons_e := e - 1\<rparr>)) (kseq (consputc BACKSPACE) (kill_line (e - 1) w))) s
     else Done () s)"
  by pat_completeness auto
termination
proof (relation "measure (\<lambda>(e, w). unat (e - w))")
  fix e w :: u32 and x :: "'z kcons_scheme"
  assume "e \<noteq> w \<and> cons_buf x (unat (e - 1) mod INPUT_BUF_SIZE) \<noteq> 10"
  then have "e - w \<noteq> 0" by simp
  then have u: "unat (e - w - 1) = unat (e - w) - 1" and "0 < unat (e - w)"
    using unat_minus_one unat_gt_0 by blast+
  moreover have "unat (e - 1 - w) = unat (e - w - 1)" by (simp only: diff_right_commute)
  ultimately show "((e - 1, w), (e, w)) \<in> measure (\<lambda>(e, w). unat (e - w))"
    by (simp only: in_measure case_prod_conv)
qed simp

declare kill_line.simps [simp del]

definition consoleintr :: "int \<Rightarrow> ('z kcons_scheme, unit) kop" where
  "consoleintr c =
     kseq (acquire ConsLock)
     (kseq
       (if c = 16 then kret ()
        else if c = 21 then (\<lambda>s. kill_line (cons_e s) (cons_w s) s)
        else if c = 8 \<or> c = 0x7f then (\<lambda>s.
          if cons_e s \<noteq> cons_w s
          then (kseq (kmod (\<lambda>s. s\<lparr>cons_e := cons_e s - 1\<rparr>)) (consputc BACKSPACE)) s
          else Done () s)
        else (\<lambda>s.
          if c \<noteq> 0 \<and> cons_e s - cons_r s < of_nat INPUT_BUF_SIZE
          then let c' = (if c = 13 then 10 else c)
            in (kseq (consputc c')
               (kseq (kmod (\<lambda>s. s\<lparr>cons_buf := (cons_buf s)(unat (cons_e s) mod INPUT_BUF_SIZE := word_of_int c'),
                                   cons_e := cons_e s + 1\<rparr>))
               (\<lambda>s. if c' = 10 \<or> c' = 4 \<or> cons_e s - cons_r s = of_nat INPUT_BUF_SIZE
                    then (kseq (kmod (\<lambda>s. s\<lparr>cons_w := cons_e s\<rparr>)) (wakeup ConsChan)) s
                    else Done () s))) s
          else Done () s))
     (release ConsLock))"

text \<open>The input loop of \<open>uartintr\<close> handles the bytes that have arrived.\<close>

definition uartintr :: "('z kcons_scheme, unit) kop" where
  "uartintr =
     kbind (kget uart_rx) (\<lambda>cs.
     kseq (kfor cs (\<lambda>_. kbind uartgetc consoleintr))
     (kseq (acquire UartLock)
     (kseq uartstart
     (release UartLock))))"

end
