(* ===== verification/Console_Queue.thy ===== *)
theory Console_Queue
  imports Console Pipe_Fifo
begin

text \<open>
  The transmit buffer of the UART is a queue of bytes between \<open>uartputc\<close> and the transmitter: no byte is lost or
  reordered between the two.
\<close>

subsection \<open>The buffer as a queue\<close>

definition tx_contents :: "'z kcons_scheme \<Rightarrow> u8 list" where
  "tx_contents s = ring_contents UART_TX_BUF_SIZE (uart_tx_buf s) (uart_tx_r s) (uart_tx_w s)"

definition tx_put :: "u8 \<Rightarrow> 'z kcons_scheme \<Rightarrow> 'z kcons_scheme" where
  "tx_put c s = s\<lparr>uart_tx_buf := (uart_tx_buf s)(unat (uart_tx_w s) mod UART_TX_BUF_SIZE := c), uart_tx_w := uart_tx_w s + 1\<rparr>"

definition tx_front :: "'z kcons_scheme \<Rightarrow> u8" where
  "tx_front s = uart_tx_buf s (unat (uart_tx_r s) mod UART_TX_BUF_SIZE)"

definition tx_pop :: "'z kcons_scheme \<Rightarrow> 'z kcons_scheme" where
  "tx_pop s = s\<lparr>uart_tx_r := uart_tx_r s + 1\<rparr>"

interpretation tx: byte_queue tx_put tx_front tx_pop tx_contents UART_TX_BUF_SIZE
proof unfold_locales
  have N: "UART_TX_BUF_SIZE dvd 2 ^ LENGTH(64)" "UART_TX_BUF_SIZE < 2 ^ LENGTH(64)" by simp_all
  fix s :: "'a kcons_scheme" and c
  show "tx_contents (tx_put c s) = tx_contents s @ [c]" if "length (tx_contents s) < UART_TX_BUF_SIZE"
    using ring_contents_put [OF N, of "uart_tx_buf s" "uart_tx_r s" "uart_tx_w s" c] that
    by (simp add: tx_contents_def tx_put_def)
  show "tx_contents s = tx_front s # tx_contents (tx_pop s)" if "tx_contents s \<noteq> []"
    using ring_contents_take [OF N(1), of "uart_tx_r s" "uart_tx_w s"] that
    by (simp add: tx_contents_def tx_front_def tx_pop_def ring_contents_empty)
qed

lemma tx_full: "uart_tx_w s = uart_tx_r s + of_nat UART_TX_BUF_SIZE \<longleftrightarrow> length (tx_contents s) = UART_TX_BUF_SIZE"
  unfolding tx_contents_def by (rule ring_contents_full) simp

lemma tx_empty: "uart_tx_w s = uart_tx_r s \<longleftrightarrow> tx_contents s = []"
  by (auto simp: tx_contents_def ring_contents_empty)

subsection \<open>The buffer in the state\<close>

lemma kcons_hold [simp]:
  "uart_tx_buf (hold l s) = uart_tx_buf s" "uart_tx_r (hold l s) = uart_tx_r s" "uart_tx_w (hold l s) = uart_tx_w s"
  "uart_sent (hold l s) = uart_sent s" "uart_room (hold l s) = uart_room s"
  "hold l (uart_tx_buf_update f1 s) = uart_tx_buf_update f1 (hold l s)" "hold l (uart_tx_r_update f2 s) = uart_tx_r_update f2 (hold l s)"
  "hold l (uart_tx_w_update f3 s) = uart_tx_w_update f3 (hold l s)" "hold l (uart_sent_update f4 s) = uart_sent_update f4 (hold l s)"
  "hold l (uart_room_update f5 s) = uart_room_update f5 (hold l s)" "tx_contents (hold l s) = tx_contents s"
  by (simp_all add: hold_def cpu_defs tx_contents_def)

lemma kcons_update [simp]:
  "tx_contents (procs_update g s) = tx_contents s" "uart_sent (procs_update g s) = uart_sent s" "uart_room (procs_update g s) = uart_room s"
  "tx_contents (uart_sent_update f4 s) = tx_contents s" "tx_contents (uart_room_update f5 s) = tx_contents s"
  by (simp_all add: tx_contents_def)

text \<open>The process table can be scanned and the UART's lock is free.\<close>

definition tx_ready :: "'z kcons_scheme \<Rightarrow> bool" where
  "tx_ready s \<longleftrightarrow> ptable_free s \<and> lock_free UartLock s"

lemma tx_ready_simps [simp]:
  "tx_ready (uart_tx_buf_update f1 s) = tx_ready s" "tx_ready (uart_tx_r_update f2 s) = tx_ready s"
  "tx_ready (uart_tx_w_update f3 s) = tx_ready s" "tx_ready (uart_sent_update f4 s) = tx_ready s"
  "tx_ready (uart_room_update f5 s) = tx_ready s" "tx_ready (procs_update g s) = tx_ready s"
  by (simp_all add: tx_ready_def ptable_free_def machine_ok_def myproc_def cpu_defs)

lemma tx_wakeup:
  assumes "tx_ready s"
  shows "\<exists>P. wakeup UartChan (hold UartLock s) = Done () (hold UartLock (s\<lparr>procs := P\<rparr>))"
proof -
  have "ptable_free (hold UartLock s)" using assms by (simp add: tx_ready_def ptable_free_def machine_ok_hold)
  from wakeup_run [OF this, of UartChan] show ?thesis by auto
qed

text \<open>\<open>uartstart\<close> hands the transmitter as many bytes as it takes now, in order.\<close>

lemma uartstart_loop_run:
  assumes "tx_ready s"
  shows "\<exists>t. uartstart_loop n (hold UartLock s) = Done () (hold UartLock t) \<and> tx_ready t
    \<and> tx_contents t = drop n (tx_contents s) \<and> uart_sent t = uart_sent s @ take n (tx_contents s)"
  using assms
proof (induction n arbitrary: s)
  case 0
  then show ?case by auto
next
  case (Suc n)
  show ?case
  proof (cases "tx_contents s = []")
    case True
    then show ?thesis using Suc.prems tx_empty [of s] by auto
  next
    case False
    obtain P where P: "wakeup UartChan (hold UartLock (tx_pop s)) = Done () (hold UartLock ((tx_pop s)\<lparr>procs := P\<rparr>))"
      using tx_wakeup [of "tx_pop s"] Suc.prems by (auto simp: tx_pop_def)
    let ?u = "(tx_pop s)\<lparr>procs := P, uart_sent := uart_sent s @ [tx_front s], uart_room := uart_room s - 1\<rparr>"
    have "uartstart_loop (Suc n) (hold UartLock s) = uartstart_loop n (hold UartLock ?u)"
      using False tx_empty [of s] P by (simp add: kseq_run kmod_def uart_send_def Let_def tx_front_def tx_pop_def)
    moreover have "tx_ready ?u" "uart_sent ?u = uart_sent s @ [tx_front s]"
      using Suc.prems by (simp_all add: tx_pop_def)
    moreover have "tx_contents s = tx_front s # tx_contents ?u"
      using tx.contents_pop [OF False] by simp
    ultimately show ?thesis using Suc.IH [of ?u] by force
  qed
qed

lemma release_tx:
  assumes "tx_ready s"
  shows "release UartLock (hold UartLock s) = Done () s"
  using assms by (intro release_hold_same) (simp_all add: tx_ready_def ptable_free_def)

lemma uartstart_run:
  assumes "tx_ready s"
  shows "\<exists>t. kseq (acquire UartLock) (kseq uartstart (release UartLock)) s = Done () t \<and> tx_ready t
    \<and> tx_contents t = drop (uart_room s) (tx_contents s) \<and> uart_sent t = uart_sent s @ take (uart_room s) (tx_contents s)"
proof -
  obtain t where "uartstart_loop (uart_room s) (hold UartLock s) = Done () (hold UartLock t)" "tx_ready t"
    "tx_contents t = drop (uart_room s) (tx_contents s)" "uart_sent t = uart_sent s @ take (uart_room s) (tx_contents s)"
    using uartstart_loop_run [OF assms] by blast
  then show ?thesis
    using assms by (auto simp: kseq_run acquire_ok uartstart_def release_tx tx_ready_def)
qed

lemma uartputc_room:
  assumes "tx_ready s" and "length (tx_contents s) < UART_TX_BUF_SIZE"
  shows "\<exists>t. uartputc c s = Done () t \<and> tx_ready t \<and> tx_contents t = drop (uart_room s) (tx_contents s @ [c])
    \<and> uart_sent t = uart_sent s @ take (uart_room s) (tx_contents s @ [c])"
proof -
  have ready: "tx_ready (tx_put c s)" using assms(1) by (simp add: tx_put_def)
  obtain t where t: "uartstart_loop (uart_room s) (hold UartLock (tx_put c s)) = Done () (hold UartLock t)" "tx_ready t"
    "tx_contents t = drop (uart_room s) (tx_contents (tx_put c s))"
    "uart_sent t = uart_sent (tx_put c s) @ take (uart_room s) (tx_contents (tx_put c s))"
    using uartstart_loop_run [OF ready] by blast
  have "uart_tx_w s \<noteq> uart_tx_r s + of_nat UART_TX_BUF_SIZE" using assms(2) tx_full [of s] by simp
  then have "uartputc c s = kseq uartstart (release UartLock) (hold UartLock (tx_put c s))"
    using assms(1) by (simp add: uartputc_def uartputc_loop_def kseq_run kmod_def acquire_ok tx_ready_def tx_put_def)
  also have "\<dots> = Done () t"
    using t(1) release_tx [OF t(2)] by (simp add: kseq_run uartstart_def tx_put_def)
  finally show ?thesis
    using t tx.contents_put [OF assms(2), of c] by (auto simp: tx_put_def)
qed

lemma uartputc_full:
  assumes "tx_ready s" and "length (tx_contents s) = UART_TX_BUF_SIZE"
    and "myproc s = Some p" and "lock_free (ProcLock p) s" and "noff (mycpu s) = 0"
  shows "uartputc c s = Block (Some UartChan) (asleep p UartChan UartLock (hold UartLock s))"
proof -
  have "(sleep UartChan UartLock (hold UartLock s) :: (_, unit) outcome)
      = Block (Some UartChan) (asleep p UartChan UartLock (hold UartLock s))"
    using assms by (subst sleep_run [where p = p]) (simp_all add: tx_ready_def ptable_free_def machine_ok_hold)
  then show ?thesis
    using assms(1,2) tx_full [of s] by (simp add: uartputc_def uartputc_loop_def kseq_run acquire_ok tx_ready_def)
qed

subsection \<open>A machine with a UART\<close>

text \<open>The counters are at the wrap-around, and \<open>n\<close> bytes wait.\<close>

definition uart_vm :: "nat \<Rightarrow> kcons" where
  "uart_vm n = kpipe.extend
     (pipe_vm\<lparr>hart := 0, cpus := cpus small_ptable, locks := locks small_ptable, procs := procs small_ptable\<rparr>)
     \<lparr>cons_buf = (\<lambda>_. 0), cons_r = 0, cons_w = 0, cons_e = 0,
      uart_tx_buf = (\<lambda>_. 46), uart_tx_w = of_nat n - 1, uart_tx_r = - 1, uart_room = 1, uart_sent = [], uart_rx = [], uart_regs = []\<rparr>"

lemma uart_vm_fields:
  "myproc (uart_vm n) = Some 0" "noff (mycpu (uart_vm n)) = 0" "lock_free l (uart_vm n)" "tx_ready (uart_vm n)"
  "uart_room (uart_vm n) = 1" "uart_sent (uart_vm n) = []"
proof -
  have h: "hart small_ptable = 0" by (simp add: small_ptable_def one_page_def boot_machine_def kmem.defs machine.defs)
  have f: "hart (uart_vm n) = 0" "cpus (uart_vm n) = cpus small_ptable" "locks (uart_vm n) = locks small_ptable"
    by (simp_all add: uart_vm_def kpipe.defs)
  show "myproc (uart_vm n) = Some 0" "noff (mycpu (uart_vm n)) = 0" "lock_free l (uart_vm n)"
    using small_ptable_fields(2-4) h by (simp_all add: f myproc_def cpu_defs)
  have "machine_ok (uart_vm n) = machine_ok small_ptable" using h by (simp add: machine_ok_def cpu_defs f)
  then show "tx_ready (uart_vm n)" by (simp add: tx_ready_def ptable_free_def f)
  show "uart_room (uart_vm n) = 1" "uart_sent (uart_vm n) = []" by (simp_all add: uart_vm_def kpipe.defs)
qed

lemma uart_vm_contents: "n \<le> 32 \<Longrightarrow> tx_contents (uart_vm n) = replicate n 46"
proof -
  assume "n \<le> 32"
  then have "unat (of_nat n :: u64) = n" by (simp add: unat_of_nat take_bit_nat_eq_self)
  then show ?thesis by (simp add: tx_contents_def uart_vm_def kpipe.defs ring_contents_def map_replicate_const)
qed

subsection \<open>Property\<close>

text \<open>
  C39 (refinement). Output reaches the line in order and complete: the bytes already sent followed by the bytes in the
  transmit buffer are a stream that \<open>uartputc\<close> only extends by its byte, and that \<open>uartstart\<close>, called there and by the
  UART's interrupt, only moves from the buffer to the line, as many bytes as the transmitter takes. \<open>uartputc\<close> sleeps exactly
  when 32 bytes are waiting. The 64-bit counters of the buffer may wrap.
\<close>

theorem uart_output_in_order:
  assumes "tx_ready s" and "length (tx_contents s) \<le> UART_TX_BUF_SIZE"
    and "myproc s = Some p" and "lock_free (ProcLock p) s" and "noff (mycpu s) = 0"
  shows "(if length (tx_contents s) = UART_TX_BUF_SIZE
      then uartputc c s = Block (Some UartChan) (asleep p UartChan UartLock (hold UartLock s))
      else \<exists>t. uartputc c s = Done () t \<and> tx_ready t \<and> uart_sent t @ tx_contents t = uart_sent s @ tx_contents s @ [c]
        \<and> length (uart_sent t) = length (uart_sent s) + min (uart_room s) (length (tx_contents s) + 1))
    \<and> (\<exists>t. kseq (acquire UartLock) (kseq uartstart (release UartLock)) s = Done () t \<and> tx_ready t
        \<and> uart_sent t @ tx_contents t = uart_sent s @ tx_contents s
        \<and> length (uart_sent t) = length (uart_sent s) + min (uart_room s) (length (tx_contents s)))"
proof
  show "\<exists>t. kseq (acquire UartLock) (kseq uartstart (release UartLock)) s = Done () t \<and> tx_ready t
      \<and> uart_sent t @ tx_contents t = uart_sent s @ tx_contents s
      \<and> length (uart_sent t) = length (uart_sent s) + min (uart_room s) (length (tx_contents s))"
    using uartstart_run [OF assms(1)] by (auto simp: min.commute)
  show "if length (tx_contents s) = UART_TX_BUF_SIZE
      then uartputc c s = Block (Some UartChan) (asleep p UartChan UartLock (hold UartLock s))
      else \<exists>t. uartputc c s = Done () t \<and> tx_ready t \<and> uart_sent t @ tx_contents t = uart_sent s @ tx_contents s @ [c]
        \<and> length (uart_sent t) = length (uart_sent s) + min (uart_room s) (length (tx_contents s) + 1)"
  proof (cases "length (tx_contents s) = UART_TX_BUF_SIZE")
    case True
    then show ?thesis using uartputc_full [OF assms(1) _ assms(3-5)] by simp
  next
    case False
    then have "length (tx_contents s) < UART_TX_BUF_SIZE" using assms(2) by simp
    from uartputc_room [OF assms(1) this, of c] obtain t where t: "uartputc c s = Done () t" "tx_ready t"
      "tx_contents t = drop (uart_room s) (tx_contents s @ [c])" "uart_sent t = uart_sent s @ take (uart_room s) (tx_contents s @ [c])"
      by blast
    have "length (uart_sent t) = length (uart_sent s) + min (uart_room s) (length (tx_contents s) + 1)"
      by (simp add: t(4) min.commute del: take_append)
    moreover have "uart_sent t @ tx_contents t = uart_sent s @ tx_contents s @ [c]"
      by (simp only: t(3,4) append_assoc append_take_drop_id)
    ultimately show ?thesis using False t(1,2) by auto
  qed
qed

theorem uart_output_in_order_witness:
  "(\<exists>t. uartputc 65 (uart_vm 1) = Done () t \<and> uart_sent t @ tx_contents t = [46, 65] \<and> length (uart_sent t) = 1)
   \<and> uartputc 65 (uart_vm 32) = Block (Some UartChan) (asleep 0 UartChan UartLock (hold UartLock (uart_vm 32)))"
  using uart_output_in_order [of "uart_vm 1" 0 65] uart_output_in_order [of "uart_vm 32" 0 65]
  by (auto simp: uart_vm_fields uart_vm_contents)

end
