(* ===== verification/File.thy ===== *)
theory File
  imports Console
begin

text \<open>
  \<^verbatim>\<open>kernel/file.c\<close> and \<open>pipealloc\<close> of \<^verbatim>\<open>kernel/pipe.c\<close>: the table of open files. A
  \<open>struct file *\<close> is the index in \<open>ftable.file\<close>. The only entry of \<open>devsw\<close> is the console's,
  so a device is connected or not.
\<close>

datatype fdtype = FD_NONE | FD_PIPE | FD_INODE | FD_DEVICE

record struct_file =
  f_type :: fdtype
  f_ref :: int
  f_readable :: bool
  f_writable :: bool
  f_pipe :: u64
  f_ip :: "nat option"
  f_off :: u32
  f_major :: u16

record kfile = kcons +
  files :: "nat \<Rightarrow> struct_file"
  devsw :: "nat \<Rightarrow> bool"

abbreviation (input) CONSOLE :: nat where "CONSOLE \<equiv> 1"

definition fget :: "nat \<Rightarrow> (struct_file \<Rightarrow> 'a) \<Rightarrow> ('z kfile_scheme, 'a) kop" where
  "fget f g = kget (\<lambda>s. g (files s f))"

definition fset :: "nat \<Rightarrow> (struct_file \<Rightarrow> struct_file) \<Rightarrow> ('z kfile_scheme, unit) kop" where
  "fset f g = kmod (\<lambda>s. s\<lparr>files := (files s)(f := g (files s f))\<rparr>)"

text \<open>Following the inode pointer of a file.\<close>

definition with_ip :: "nat \<Rightarrow> (nat \<Rightarrow> ('z kfile_scheme, 'a) kop) \<Rightarrow> ('z kfile_scheme, 'a) kop" where
  "with_ip f m = kbind (fget f f_ip) (\<lambda>i. case i of None \<Rightarrow> kfault | Some ip \<Rightarrow> m ip)"

definition fileinit :: "('z kfile_scheme, unit) kop" where
  "fileinit = initlock FtableLock ''ftable''"

definition consoleinit :: "('z kfile_scheme, unit) kop" where
  "consoleinit =
     kseq (initlock ConsLock ''cons'')
     (kseq uartinit
     (kmod (\<lambda>s. s\<lparr>devsw := (devsw s)(CONSOLE := True)\<rparr>)))"

definition filealloc :: "('z kfile_scheme, nat option) kop" where
  "filealloc =
     kseq (acquire FtableLock)
     (kbind (kget (\<lambda>s. find (\<lambda>f. f_ref (files s f) = 0) [0..<NFILE])) (\<lambda>found. case found of
        Some f \<Rightarrow> kseq (fset f (\<lambda>x. x\<lparr>f_ref := 1\<rparr>)) (kseq (release FtableLock) (kret (Some f)))
      | None \<Rightarrow> kseq (release FtableLock) (kret None)))"

definition filedup :: "nat \<Rightarrow> ('z kfile_scheme, nat) kop" where
  "filedup f =
     kseq (acquire FtableLock)
     (kbind (fget f f_ref) (\<lambda>r.
        if r < 1 then kpanic ''filedup''
        else kseq (fset f (\<lambda>x. x\<lparr>f_ref := f_ref x + 1\<rparr>))
          (kseq (release FtableLock) (kret f))))"

definition fileclose :: "nat \<Rightarrow> ('z kfile_scheme, unit) kop" where
  "fileclose f =
     kseq (acquire FtableLock)
     (kbind (fget f f_ref) (\<lambda>r.
        if r < 1 then kpanic ''fileclose''
        else kseq (fset f (\<lambda>x. x\<lparr>f_ref := f_ref x - 1\<rparr>))
          (if r - 1 > 0 then release FtableLock
           else kbind (fget f id) (\<lambda>ff.
             kseq (fset f (\<lambda>x. x\<lparr>f_ref := 0, f_type := FD_NONE\<rparr>))
             (kseq (release FtableLock)
             (case f_type ff of
                FD_PIPE \<Rightarrow> pipeclose (f_pipe ff) (f_writable ff)
              | FD_NONE \<Rightarrow> kret ()
              | _ \<Rightarrow> kseq begin_op
                  (kseq (case f_ip ff of None \<Rightarrow> kfault | Some ip \<Rightarrow> iput ip)
                  end_op)))))))"

text \<open>\<open>struct stat\<close> as it is copied out: 24 bytes, with 4 of padding before \<open>size\<close>, which are
  not initialised; \<open>pad\<close> stands for them.\<close>

definition le_bytes :: "nat \<Rightarrow> 'a::len word \<Rightarrow> u8 list" where
  "le_bytes n v = map (\<lambda>i. ucast (drop_bit (8 * i) v)) [0..<n]"

definition stat_bytes :: "u8 list \<Rightarrow> stat \<Rightarrow> u8 list" where
  "stat_bytes pad st = le_bytes 4 (st_dev st) @ le_bytes 4 (st_ino st) @ le_bytes 2 (st_type st)
     @ le_bytes 2 (st_nlink st) @ pad @ le_bytes 8 (st_size st)"

definition filestat :: "u8 list \<Rightarrow> nat \<Rightarrow> u64 \<Rightarrow> ('z kfile_scheme, int) kop" where
  "filestat pad f addr = with_myproc (\<lambda>p.
     kbind (fget f f_type) (\<lambda>t.
       if t = FD_INODE \<or> t = FD_DEVICE
       then with_ip f (\<lambda>ip.
         kseq (ilock ip)
         (kbind (stati ip) (\<lambda>st.
          kseq (iunlock ip)
          (kbind (pget p pagetable) (\<lambda>pt.
           kbind (copyout pt addr (stat_bytes pad st)) (\<lambda>r.
           kret (if r < 0 then - 1 else 0)))))))
       else kret (- 1)))"

definition dev_connected :: "'z kfile_scheme \<Rightarrow> u16 \<Rightarrow> bool" where
  "dev_connected s major \<longleftrightarrow> 0 \<le> sint major \<and> sint major < int NDEV \<and> devsw s (nat (sint major))"

definition fileread :: "nat \<Rightarrow> u64 \<Rightarrow> int \<Rightarrow> ('z kfile_scheme, int) kop" where
  "fileread f addr n =
     kbind (fget f id) (\<lambda>x.
       if \<not> f_readable x then kret (- 1)
       else case f_type x of
         FD_PIPE \<Rightarrow> piperead (f_pipe x) addr n
       | FD_DEVICE \<Rightarrow> kbind (kget (\<lambda>s. dev_connected s (f_major x))) (\<lambda>c.
           if \<not> c then kret (- 1) else consoleread True addr n)
       | FD_INODE \<Rightarrow> with_ip f (\<lambda>ip.
           kseq (ilock ip)
           (kbind (readi ip (Some addr) (f_off x) (word_of_int n)) (\<lambda>(r, _).
            kseq (kwhen (r > 0) (fset f (\<lambda>y. y\<lparr>f_off := f_off y + word_of_int r\<rparr>)))
            (kseq (iunlock ip)
            (kret r)))))
       | FD_NONE \<Rightarrow> kpanic ''fileread'')"

text \<open>\<open>max\<close> in \<open>filewrite\<close>: the bytes of one transaction.\<close>

definition write_max :: nat where
  "write_max = ((MAXOPBLOCKS - 1 - 1 - 2) div 2) * BSIZE"

lemma write_max_pos: "0 < write_max"
  by (simp add: write_max_def MAXOPBLOCKS_def)

function filewrite_loop :: "nat \<Rightarrow> nat \<Rightarrow> u64 \<Rightarrow> nat \<Rightarrow> nat \<Rightarrow> ('z kfile_scheme, nat) kop" where
  "filewrite_loop f ip addr n i =
     (if n \<le> i then kret i
      else let n1 = min (n - i) write_max
        in kseq begin_op
          (kseq (ilock ip)
          (kbind (fget f f_off) (\<lambda>off.
           kbind (writei ip (USrc (addr + of_nat i)) off (of_nat n1)) (\<lambda>r.
           kseq (kwhen (r > 0) (fset f (\<lambda>y. y\<lparr>f_off := f_off y + word_of_int r\<rparr>)))
           (kseq (iunlock ip)
           (kseq end_op
           (if r \<noteq> int n1 then kret i
            else filewrite_loop f ip addr n (i + n1)))))))))"
  by pat_completeness auto
termination
  using write_max_pos by (relation "measure (\<lambda>(_, _, _, n, i). n - i)") auto

declare filewrite_loop.simps [simp del]

definition filewrite :: "nat \<Rightarrow> u64 \<Rightarrow> int \<Rightarrow> ('z kfile_scheme, int) kop" where
  "filewrite f addr n =
     kbind (fget f id) (\<lambda>x.
       if \<not> f_writable x then kret (- 1)
       else case f_type x of
         FD_PIPE \<Rightarrow> pipewrite (f_pipe x) addr n
       | FD_DEVICE \<Rightarrow> kbind (kget (\<lambda>s. dev_connected s (f_major x))) (\<lambda>c.
           if \<not> c then kret (- 1) else consolewrite True addr n)
       | FD_INODE \<Rightarrow>
           if n \<le> 0 then kret (if n = 0 then 0 else - 1)
           else with_ip f (\<lambda>ip.
             kbind (filewrite_loop f ip addr (nat n) 0) (\<lambda>i.
             kret (if int i = n then n else - 1)))
       | FD_NONE \<Rightarrow> kpanic ''filewrite'')"

subsection \<open>pipealloc\<close>

definition pipealloc :: "('z kfile_scheme, (nat \<times> nat) option) kop" where
  "pipealloc =
     kbind filealloc (\<lambda>f0. case f0 of
       None \<Rightarrow> kret None
     | Some a \<Rightarrow> kbind filealloc (\<lambda>f1. case f1 of
         None \<Rightarrow> kseq (fileclose a) (kret None)
       | Some b \<Rightarrow> kbind kalloc (\<lambda>pp.
           if pp = 0 then kseq (fileclose a) (kseq (fileclose b) (kret None))
           else kseq (piset pp (\<lambda>x. x\<lparr>readopen := True, writeopen := True, nwrite := 0, nread := 0\<rparr>))
             (kseq (initlock (PipeLock pp) ''pipe'')
             (kseq (fset a (\<lambda>x. x\<lparr>f_type := FD_PIPE, f_readable := True, f_writable := False, f_pipe := pp\<rparr>))
             (kseq (fset b (\<lambda>x. x\<lparr>f_type := FD_PIPE, f_readable := False, f_writable := True, f_pipe := pp\<rparr>))
             (kret (Some (a, b)))))))))"

end
