(* ===== verification/Proc_Life.thy ===== *)
theory Proc_Life
  imports File Proc_Wait
begin

text \<open>
  The part of \<^verbatim>\<open>kernel/proc.c\<close> that works on open files and inodes: \<open>userinit\<close>, \<open>fork\<close>,
  \<open>thread_create\<close>, \<open>exit\<close>, \<open>thread_exit\<close>, \<open>forkret\<close> and \<open>threadret\<close>. The return to user space is
  an argument (\<open>usertrapret\<close>), since \<^verbatim>\<open>trap.c\<close> is above this theory.
\<close>

definition initcode :: "u8 list" where
  "initcode =
    [0x17, 0x05, 0x00, 0x00, 0x13, 0x05, 0x45, 0x02,
     0x97, 0x05, 0x00, 0x00, 0x93, 0x85, 0x35, 0x02,
     0x93, 0x08, 0x70, 0x00, 0x73, 0x00, 0x00, 0x00,
     0x93, 0x08, 0x20, 0x00, 0x73, 0x00, 0x00, 0x00,
     0xef, 0xf0, 0x9f, 0xff, 0x2f, 0x69, 0x6e, 0x69,
     0x74, 0x00, 0x00, 0x24, 0x00, 0x00, 0x00, 0x00,
     0x00, 0x00, 0x00, 0x00]"

text \<open>ASCII text as bytes, and \<open>safestrcpy\<close> between strings: at most \<open>n - 1\<close> bytes.\<close>

definition ascii :: "string \<Rightarrow> u8 list" where
  "ascii s = map (\<lambda>c. word_of_int (of_char c)) s"

definition safestrcpy_str :: "u8 list \<Rightarrow> nat \<Rightarrow> u8 list" where
  "safestrcpy_str t n = take (n - 1) (takeWhile (\<lambda>b. b \<noteq> 0) t)"

definition userinit :: "('z kfile_scheme, unit) kop" where
  "userinit =
     kbind allocproc (\<lambda>found.
     kseq (kmod (\<lambda>s. s\<lparr>initproc := found\<rparr>))
     (case found of None \<Rightarrow> kfault
      | Some p \<Rightarrow>
          kbind (pget p pagetable) (\<lambda>pt.
          kseq (uvmfirst pt initcode)
          (kseq (pset p (\<lambda>x. x\<lparr>sz := PGSIZE\<rparr>))
          (kseq (tf_set p tf_epc 0)
          (kseq (tf_set p tf_sp PGSIZE)
          (kseq (pset p (\<lambda>x. x\<lparr>p_name := safestrcpy_str (ascii ''initcode'') 16\<rparr>))
          (kbind (namei [slash]) (\<lambda>ip.
           kseq (pset p (\<lambda>x. x\<lparr>cwd := ip, p_state := RUNNABLE\<rparr>))
           (release (ProcLock p)))))))))))"

text \<open>\<open>if(p->ofile[i]) np->ofile[i] = filedup(p->ofile[i])\<close> for all descriptors.\<close>

definition copy_ofile :: "nat \<Rightarrow> nat \<Rightarrow> ('z kfile_scheme, unit) kop" where
  "copy_ofile p np = kfor [0..<NOFILE] (\<lambda>i.
     kbind (pget p (\<lambda>x. ofile x i)) (\<lambda>f. case f of
       None \<Rightarrow> kret ()
     | Some g \<Rightarrow> kbind (filedup g) (\<lambda>h. pset np (\<lambda>x. x\<lparr>ofile := (ofile x)(i := Some h)\<rparr>))))"

definition copy_cwd :: "nat \<Rightarrow> nat \<Rightarrow> ('z kfile_scheme, unit) kop" where
  "copy_cwd p np = kbind (pget p cwd) (\<lambda>c. case c of
       None \<Rightarrow> kfault
     | Some ip \<Rightarrow> kbind (idup ip) (\<lambda>ip'. pset np (\<lambda>x. x\<lparr>cwd := Some ip'\<rparr>)))"

definition fork :: "('z kfile_scheme, int) kop" where
  "fork = with_myproc (\<lambda>p.
     kbind allocproc (\<lambda>found. case found of
       None \<Rightarrow> kret (- 1)
     | Some np \<Rightarrow>
         kbind (pget p id) (\<lambda>x.
         kbind (pget np pagetable) (\<lambda>npt.
         kbind (uvmcopy (pagetable x) npt (sz x)) (\<lambda>r.
           if r < 0
           then kseq (freeproc np) (kseq (release (ProcLock np)) (kret (- 1)))
           else kseq (pset np (\<lambda>y. y\<lparr>sz := sz x\<rparr>))
             (kseq (tf_copy np p)
             (kseq (tf_set np tf_a0 0)
             (kseq (copy_ofile p np)
             (kseq (copy_cwd p np)
             (kseq (pset np (\<lambda>y. y\<lparr>p_name := safestrcpy_str (p_name x) 16\<rparr>))
             (kbind (pget np p_pid) (\<lambda>pid.
             kseq (release (ProcLock np))
             (kseq (acquire WaitLock)
             (kseq (pset np (\<lambda>y. y\<lparr>p_parent := Some p\<rparr>))
             (kseq (release WaitLock)
             (kseq (acquire (ProcLock np))
             (kseq (pset np (\<lambda>y. y\<lparr>p_state := RUNNABLE\<rparr>))
             (kseq (release (ProcLock np))
             (kret pid)))))))))))))))))))"

subsection \<open>thread\_create\<close>

text \<open>Taking the locks of the caller and of its leader, in the order of the code.\<close>

definition thread_locks :: "nat \<Rightarrow> ('z kproc_scheme, nat) kop" where
  "thread_locks p =
     kseq (acquire (ProcLock p))
     (kbind (pget p group_leader) (\<lambda>gl.
        let leader = (case gl of Some l \<Rightarrow> l | None \<Rightarrow> p)
        in if leader \<noteq> p
           then kseq (release (ProcLock p))
               (kseq (acquire (ProcLock leader))
               (kseq (acquire (ProcLock p))
               (kret leader)))
           else kret leader))"

text \<open>Joining the group: the leader's counters and the four links.\<close>

definition thread_link :: "nat \<Rightarrow> nat \<Rightarrow> nat \<Rightarrow> ('z kproc_scheme, unit) kop" where
  "thread_link p leader np =
     kseq (pset p (\<lambda>x. if group_leader x = None
         then x\<lparr>group_leader := Some p, group_next := Some p, group_prev := Some p,
                num_children := 0, ref_count := 1\<rparr>
         else x))
     (kseq (pset leader (\<lambda>x. x\<lparr>num_children := num_children x + 1, ref_count := ref_count x + 1\<rparr>))
     (kbind (pget leader id) (\<lambda>l.
      kseq (pset np (\<lambda>x. x\<lparr>tid := num_children l, group_leader := Some leader,
         group_prev := Some leader, group_next := group_next l\<rparr>))
      (case group_next l of None \<Rightarrow> kfault
       | Some n \<Rightarrow>
           kseq (pset n (\<lambda>x. x\<lparr>group_prev := Some np\<rparr>))
           (pset leader (\<lambda>x. x\<lparr>group_next := Some np\<rparr>))))))"

text \<open>The new size and the stack page for every member; the result of \<open>mappages\<close> is not used.\<close>

definition thread_map_stack :: "nat \<Rightarrow> u64 \<Rightarrow> u64 \<Rightarrow> ('z kproc_scheme, unit) kop" where
  "thread_map_stack leader curr_group_sz stack =
     kbind (ring_do leader (\<lambda>q _.
         kseq (pset q (\<lambda>x. x\<lparr>sz := curr_group_sz + PGSIZE\<rparr>))
         (kbind (pget q pagetable) (\<lambda>pt.
          kbind (mappages pt curr_group_sz PGSIZE stack (PTE_W OR PTE_R OR PTE_U)) (\<lambda>_.
          kret (Inl () :: unit + unit))))) ())
       (\<lambda>_. kret ())"

definition thread_unlock :: "nat \<Rightarrow> nat \<Rightarrow> nat \<Rightarrow> ('z kproc_scheme, unit) kop" where
  "thread_unlock p leader np =
     kseq (release (ProcLock p))
     (kseq (kwhen (leader \<noteq> p) (release (ProcLock leader)))
     (release (ProcLock np)))"

definition thread_create_bad :: "nat \<Rightarrow> nat \<Rightarrow> nat \<Rightarrow> ('z kproc_scheme, int) kop" where
  "thread_create_bad p leader np =
     kbind (pget np id) (\<lambda>x. case (group_prev x, group_next x) of
         (Some a, Some b) \<Rightarrow>
           kseq (pset a (\<lambda>y. y\<lparr>group_next := Some b\<rparr>))
           (kseq (pset b (\<lambda>y. y\<lparr>group_prev := Some a\<rparr>))
           (kseq (pset leader (\<lambda>y. y\<lparr>num_children := num_children y - 1, ref_count := ref_count y - 1\<rparr>))
           (kseq (thread_unlock p leader np)
           (kret (- 1)))))
       | _ \<Rightarrow> kfault)"

definition thread_create :: "u64 \<Rightarrow> u64 \<Rightarrow> ('z kfile_scheme, int) kop" where
  "thread_create start_routine arg_ptr = with_myproc (\<lambda>p.
     kbind allocproc (\<lambda>found. case found of
       None \<Rightarrow> kret (- 1)
     | Some np \<Rightarrow>
         kbind (thread_locks p) (\<lambda>leader.
         kseq (thread_link p leader np)
         (kbind (pget p id) (\<lambda>x.
          kbind (pget np pagetable) (\<lambda>npt.
          kbind (uvmshare (pagetable x) npt (sz x)) (\<lambda>_.
          kbind kalloc (\<lambda>stack.
            if stack = 0 then thread_create_bad p leader np
            else kseq (kmod (\<lambda>s. s\<lparr>mem := memset (mem s) stack 0 4096\<rparr>))
              (kseq (thread_map_stack leader (sz x) stack)
              (kseq (tf_copy np p)
              (kseq (tf_set np tf_epc start_routine)
              (kseq (tf_set np tf_sp (sz x + PGSIZE - 8))
              (kseq (tf_set np tf_a0 arg_ptr)
              (kseq (tf_set np tf_ra 0)
              (kseq (copy_ofile p np)
              (kseq (copy_cwd p np)
              (kseq (pset np (\<lambda>y. y\<lparr>is_thread := 1, p_name := safestrcpy_str (ascii ''kthread'') 8,
                  p_parent := Some p, p_state := RUNNABLE\<rparr>))
              (kseq (thread_unlock p leader np)
              (kbind (pget np tid) kret)))))))))))))))))))"

subsection \<open>Exit\<close>

definition thread_exit_thread :: "nat \<Rightarrow> ('z kproc_scheme, 'a) kop" where
  "thread_exit_thread p =
     kbind (pget p group_leader) (\<lambda>gl.
       let leader = (case gl of Some l \<Rightarrow> l | None \<Rightarrow> p)
       in kseq (kwhen (p \<noteq> leader) (acquire (ProcLock leader)))
         (kseq (pset leader (\<lambda>x. if ref_count x > 0 then x\<lparr>ref_count := ref_count x - 1\<rparr> else x))
         (kseq (kwhen (p \<noteq> leader) (release (ProcLock leader)))
         (kseq (pset p (\<lambda>x. x\<lparr>p_xstate := 0, p_state := ZOMBIE\<rparr>))
         (kseq (acquire WaitLock)
         (kbind (pget p p_parent) (\<lambda>par.
          kseq (case par of None \<Rightarrow> kret () | Some q \<Rightarrow> wakeup (ProcChan q))
         (kseq (release WaitLock)
         sched))))))))"

text \<open>\<open>exit\<close> of a process that is not a thread.\<close>

definition exit_process :: "nat \<Rightarrow> int \<Rightarrow> ('z kfile_scheme, 'a) kop" where
  "exit_process p status =
     kseq (acquire (ProcLock p))
     (kseq (kfor [0..<NOFILE] (\<lambda>fd.
        kbind (pget p (\<lambda>x. ofile x fd)) (\<lambda>f. case f of
          None \<Rightarrow> kret ()
        | Some g \<Rightarrow> kseq (fileclose g) (pset p (\<lambda>x. x\<lparr>ofile := (ofile x)(fd := None)\<rparr>)))))
     (kseq begin_op
     (kbind (pget p cwd) (\<lambda>c.
      kseq (case c of None \<Rightarrow> kret () | Some ip \<Rightarrow> iput ip)
     (kseq end_op
     (kseq (pset p (\<lambda>x. x\<lparr>cwd := None\<rparr>))
     (kseq (acquire WaitLock)
     (kseq (reparent p)
     (kseq (release WaitLock)
     (kbind (pget p id) (\<lambda>x.
      kseq (kwhen (pagetable x \<noteq> 0)
        (kseq (proc_freepagetable (pagetable x) (sz x))
        (pset p (\<lambda>y. y\<lparr>pagetable := 0, sz := 0\<rparr>))))
     (kseq (pset p (\<lambda>y. y\<lparr>p_xstate := status, p_state := ZOMBIE\<rparr>))
     (kseq (acquire WaitLock)
     (kbind (pget p p_parent) (\<lambda>par.
      kseq (case par of None \<Rightarrow> kret () | Some q \<Rightarrow> wakeup (ProcChan q))
     (kseq (release WaitLock)
     sched))))))))))))))))"

definition thread_exit :: "('z kfile_scheme, 'a) kop" where
  "thread_exit = (\<lambda>s. case myproc s of
       None \<Rightarrow> Panic ''thread_exit: no process''
     | Some p \<Rightarrow>
         (kseq (acquire (ProcLock p))
         (kbind (pget p is_thread) (\<lambda>t.
            if t = 0 then kseq (release (ProcLock p)) (exit_process p (- 1))
            else thread_exit_thread p))) s)"

definition exit :: "int \<Rightarrow> ('z kfile_scheme, 'a) kop" where
  "exit status = with_myproc (\<lambda>p.
     kbind (pget p is_thread) (\<lambda>t. if t \<noteq> 0 then thread_exit else exit_process p status))"

subsection \<open>First return of a new process\<close>

definition forkret :: "('z kfile_scheme, unit) kop \<Rightarrow> ('z kfile_scheme, unit) kop" where
  "forkret usertrapret = with_myproc (\<lambda>p.
     kseq (release (ProcLock p))
     (kbind (kget first_forkret) (\<lambda>first.
      kseq (kwhen first
        (kseq (kmod (\<lambda>s. s\<lparr>first_forkret := False\<rparr>)) (fsinit ROOTDEV)))
      usertrapret)))"

definition threadret :: "('z kfile_scheme, unit) kop \<Rightarrow> ('z kfile_scheme, unit) kop" where
  "threadret usertrapret = with_myproc (\<lambda>p.
     kseq (release (ProcLock p))
     (kbind (tf_get p tf_epc) (\<lambda>epc.
      kseq (tf_set p tf_epc epc)
     (kbind (tf_get p tf_sp) (\<lambda>sp.
      kseq (tf_set p tf_sp (PGROUNDDOWN sp))
      usertrapret)))))"

end
