(* ===== verification/Printf.thy ===== *)
theory Printf
  imports Proc_Life
begin

text \<open>
  \<^verbatim>\<open>kernel/printf.c\<close>: formatted console output. The arguments of \<open>printf\<close> are a list of values, a
  missing one is a fault. \<open>panic\<close> is the outcome \<open>Panic\<close> of the model. \<open>printint\<close> gives the bytes that its
  last loop sends to the console, that is its buffer from the end to the start.
\<close>

record kprint = kfile +
  pr_locking :: bool

datatype fmt_arg = ArgInt int | ArgPtr u64 | ArgStr "u8 list option"

definition digits :: "u8 list" where
  "digits = ascii ''0123456789abcdef''"

text \<open>
  The loop \<open>do { buf[i++] = digits[x % base]; } while((x /= base) != 0)\<close>; \<open>base\<close> is 10 or 16.
\<close>

function printint_loop :: "u8 list \<Rightarrow> nat \<Rightarrow> nat \<Rightarrow> u8 list" where
  "printint_loop ds base x =
     (ds ! (x mod base)) # (if x div base = 0 \<or> base < 2 then [] else printint_loop ds base (x div base))"
  by pat_completeness auto
termination
  by (relation "measure (\<lambda>(_, _, x). x)") (auto intro!: div_less_dividend gr0I)

declare printint_loop.simps [simp del]

text \<open>\<open>x = -xx\<close> or \<open>x = xx\<close> as an unsigned number, and the contents of \<open>buf\<close>.\<close>

definition printint_buf :: "u8 list \<Rightarrow> int \<Rightarrow> nat \<Rightarrow> bool \<Rightarrow> u8 list" where
  "printint_buf ds xx base sign =
     (if sign \<and> xx < 0 then printint_loop ds base (unat (word_of_int (- xx) :: u32)) @ ascii ''-''
      else printint_loop ds base (unat (word_of_int xx :: u32)))"

definition printint :: "int \<Rightarrow> nat \<Rightarrow> bool \<Rightarrow> u8 list" where
  "printint xx base sign = rev (printint_buf digits xx base sign)"

text \<open>The sixteen hexadecimal digits of \<open>printptr\<close>, most significant first.\<close>

definition printptr :: "u64 \<Rightarrow> u8 list" where
  "printptr x = ascii ''0x'' @ map (\<lambda>i. digits ! unat (drop_bit 60 (push_bit (4 * i) x))) [0..<16]"

text \<open>The output of the loop of \<open>printf\<close>, or nothing when an argument is missing.\<close>

fun printf_out :: "u8 list \<Rightarrow> fmt_arg list \<Rightarrow> u8 list option" where
  "printf_out [] args = Some []"
| "printf_out (c # fmt) args =
     (if c \<noteq> 37 then map_option ((#) c) (printf_out fmt args)
      else case fmt of
        [] \<Rightarrow> Some []
      | d # fmt' \<Rightarrow>
          if d = 100 then (case args of ArgInt v # as \<Rightarrow> map_option ((@) (printint v 10 True)) (printf_out fmt' as) | _ \<Rightarrow> None)
          else if d = 120 then (case args of ArgInt v # as \<Rightarrow> map_option ((@) (printint v 16 True)) (printf_out fmt' as) | _ \<Rightarrow> None)
          else if d = 112 then (case args of ArgPtr v # as \<Rightarrow> map_option ((@) (printptr v)) (printf_out fmt' as) | _ \<Rightarrow> None)
          else if d = 115 then (case args of
              ArgStr s # as \<Rightarrow> map_option ((@) (case s of None \<Rightarrow> ascii ''(null)'' | Some t \<Rightarrow> t)) (printf_out fmt' as)
            | _ \<Rightarrow> None)
          else if d = 37 then map_option ((#) 37) (printf_out fmt' args)
          else map_option (\<lambda>out. 37 # d # out) (printf_out fmt' args))"

definition printf :: "string \<Rightarrow> fmt_arg list \<Rightarrow> ('z kprint_scheme, unit) kop" where
  "printf fmt args =
     kbind (kget pr_locking) (\<lambda>locking.
     kseq (kwhen locking (acquire PrLock))
     (kseq (case printf_out (ascii fmt) args of None \<Rightarrow> kfault | Some out \<Rightarrow> kfor out (\<lambda>c. consputc (uint c)))
     (kwhen locking (release PrLock))))"

definition printfinit :: "('z kprint_scheme, unit) kop" where
  "printfinit = kseq (initlock PrLock ''pr'') (kmod (\<lambda>s. s\<lparr>pr_locking := True\<rparr>))"

end
