(* ===== verification/Sysfile.thy ===== *)
theory Sysfile
  imports Printf
begin

text \<open>
  The argument routines of \<^verbatim>\<open>kernel/syscall.c\<close> that read user memory, and \<^verbatim>\<open>kernel/sysfile.c\<close> but for \<open>sys_exec\<close>. A
  system call returns the 64-bit word that goes to \<open>a0\<close>. A kernel buffer filled from user space (\<open>path\<close>, \<open>name\<close>) is a
  list of bytes, the string in it ends before its first zero.
\<close>

definition MAXPATH :: nat where "MAXPATH = 128"

abbreviation (input) err :: u64 where "err \<equiv> - 1"

subsection \<open>Arguments\<close>

definition le_word :: "u8 list \<Rightarrow> u64" where
  "le_word bs = foldr (\<lambda>b w. ucast b OR push_bit 8 w) bs 0"

definition fetchaddr :: "u64 \<Rightarrow> ('z kproc_scheme, u64 option) kop" where
  "fetchaddr addr = with_myproc (\<lambda>p.
     kbind (pget p id) (\<lambda>x.
       if addr \<ge> sz x \<or> addr + 8 > sz x then kret None
       else kbind (copyin (pagetable x) addr 8) (\<lambda>(r, bs).
         kret (if r \<noteq> 0 then None else Some (le_word bs)))))"

text \<open>The bytes written to the buffer, and the length of the string or -1.\<close>

definition fetchstr :: "u64 \<Rightarrow> nat \<Rightarrow> ('z kproc_scheme, int \<times> u8 list) kop" where
  "fetchstr addr mx = with_myproc (\<lambda>p.
     kbind (pget p pagetable) (\<lambda>pt.
     kbind (copyinstr pt addr mx) (\<lambda>(r, bs).
       kret (if r < 0 then - 1 else int (length (takeWhile (\<lambda>b. b \<noteq> 0) bs)), bs))))"

definition argstr :: "nat \<Rightarrow> nat \<Rightarrow> ('z kproc_scheme, int \<times> u8 list) kop" where
  "argstr n mx = kbind (argaddr n) (\<lambda>addr. fetchstr addr mx)"

text \<open>A path argument: \<open>argstr(n, path, MAXPATH) < 0\<close> is \<open>None\<close>.\<close>

definition argpath :: "nat \<Rightarrow> ('z kproc_scheme, u8 list option) kop" where
  "argpath n = kbind (argstr n MAXPATH) (\<lambda>(r, bs).
     kret (if r < 0 then None else Some (takeWhile (\<lambda>b. b \<noteq> 0) bs)))"

subsection \<open>File descriptors\<close>

definition argfd :: "nat \<Rightarrow> ('z kproc_scheme, (nat \<times> nat) option) kop" where
  "argfd n =
     kbind (argint n) (\<lambda>fd.
       if fd < 0 \<or> fd \<ge> int NOFILE then kret None
       else with_myproc (\<lambda>p. kbind (pget p (\<lambda>x. ofile x (nat fd))) (\<lambda>f. case f of
              None \<Rightarrow> kret None
            | Some g \<Rightarrow> kret (Some (nat fd, g)))))"

definition fdalloc :: "nat \<Rightarrow> ('z kproc_scheme, nat option) kop" where
  "fdalloc f = with_myproc (\<lambda>p.
     kbind (pget p (\<lambda>x. find (\<lambda>fd. ofile x fd = None) [0..<NOFILE])) (\<lambda>r. case r of
       None \<Rightarrow> kret None
     | Some fd \<Rightarrow> kseq (pset p (\<lambda>x. x\<lparr>ofile := (ofile x)(fd := Some f)\<rparr>)) (kret (Some fd))))"

definition clear_fd :: "nat \<Rightarrow> ('z kproc_scheme, unit) kop" where
  "clear_fd fd = with_myproc (\<lambda>p. pset p (\<lambda>x. x\<lparr>ofile := (ofile x)(fd := None)\<rparr>))"

definition sys_dup :: "('z kfile_scheme, u64) kop" where
  "sys_dup = kbind (argfd 0) (\<lambda>r. case r of
       None \<Rightarrow> kret err
     | Some (_, f) \<Rightarrow> kbind (fdalloc f) (\<lambda>a. case a of
         None \<Rightarrow> kret err
       | Some fd \<Rightarrow> kbind (filedup f) (\<lambda>_. kret (of_nat fd))))"

definition sys_read :: "('z kfile_scheme, u64) kop" where
  "sys_read =
     kbind (argaddr 1) (\<lambda>p.
     kbind (argint 2) (\<lambda>n.
     kbind (argfd 0) (\<lambda>r. case r of
       None \<Rightarrow> kret err
     | Some (_, f) \<Rightarrow> kbind (fileread f p n) (\<lambda>v. kret (word_of_int v)))))"

definition sys_write :: "('z kfile_scheme, u64) kop" where
  "sys_write =
     kbind (argaddr 1) (\<lambda>p.
     kbind (argint 2) (\<lambda>n.
     kbind (argfd 0) (\<lambda>r. case r of
       None \<Rightarrow> kret err
     | Some (_, f) \<Rightarrow> kbind (filewrite f p n) (\<lambda>v. kret (word_of_int v)))))"

definition sys_close :: "('z kfile_scheme, u64) kop" where
  "sys_close = kbind (argfd 0) (\<lambda>r. case r of
       None \<Rightarrow> kret err
     | Some (fd, f) \<Rightarrow> kseq (clear_fd fd) (kseq (fileclose f) (kret 0)))"

text \<open>\<open>pad\<close>: the uninitialised padding bytes of \<open>struct stat\<close>.\<close>

definition sys_fstat :: "u8 list \<Rightarrow> ('z kfile_scheme, u64) kop" where
  "sys_fstat pad =
     kbind (argaddr 1) (\<lambda>st.
     kbind (argfd 0) (\<lambda>r. case r of
       None \<Rightarrow> kret err
     | Some (_, f) \<Rightarrow> kbind (filestat pad f st) (\<lambda>v. kret (word_of_int v))))"

subsection \<open>link and unlink\<close>

text \<open>The ends \<open>end_op(); return v\<close> and \<open>iunlockput(ip); end_op(); return v\<close> of many calls.\<close>

definition end_ret :: "u64 \<Rightarrow> ('z kfs_scheme, u64) kop" where
  "end_ret v = kseq end_op (kret v)"

definition put_ret :: "nat \<Rightarrow> u64 \<Rightarrow> ('z kfs_scheme, u64) kop" where
  "put_ret ip v = kseq (iunlockput ip) (end_ret v)"

definition sys_link_bad :: "nat \<Rightarrow> ('z kfs_scheme, u64) kop" where
  "sys_link_bad ip =
     kseq (ilock ip)
     (kseq (iset ip (\<lambda>x. x\<lparr>i_nlink := i_nlink x - 1\<rparr>))
     (kseq (iupdate ip)
     (put_ret ip err)))"

definition sys_link :: "('z kfs_scheme, u64) kop" where
  "sys_link =
     kbind (argpath 0) (\<lambda>old. case old of None \<Rightarrow> kret err
     | Some old_path \<Rightarrow>
     kbind (argpath 1) (\<lambda>new. case new of None \<Rightarrow> kret err
     | Some new_path \<Rightarrow>
     kseq begin_op
     (kbind (namei old_path) (\<lambda>found. case found of None \<Rightarrow> end_ret err
     | Some ip \<Rightarrow>
       kseq (ilock ip)
       (kbind (iget_field ip i_type) (\<lambda>t.
          if t = T_DIR then put_ret ip err
          else
            kseq (iset ip (\<lambda>x. x\<lparr>i_nlink := i_nlink x + 1\<rparr>))
            (kseq (iupdate ip)
            (kseq (iunlock ip)
            (kbind (nameiparent new_path) (\<lambda>par. case par of None \<Rightarrow> sys_link_bad ip
             | Some (dp, name) \<Rightarrow>
                 kseq (ilock dp)
                 (kbind (iget_field dp i_dev) (\<lambda>dd.
                  kbind (iget_field ip id) (\<lambda>x.
                  kbind (if dd \<noteq> i_dev x then kret (- 1) else dirlink dp name (i_inum x)) (\<lambda>r.
                    if r < 0 then kseq (iunlockput dp) (sys_link_bad ip)
                    else kseq (iunlockput dp) (kseq (iput ip) (end_ret 0))))))))))))))))"

text \<open>The loop runs over the entries after \<open>.\<close> and \<open>..\<close>.\<close>

definition isdirempty :: "nat \<Rightarrow> ('z kfs_scheme, bool) kop" where
  "isdirempty dp =
     kbind (iget_field dp i_size) (\<lambda>n.
     kbind (kfind (drop 2 (de_offsets n)) (\<lambda>off.
        kbind (readi dp None (of_nat off) (of_nat de_size)) (\<lambda>(r, de).
          if r \<noteq> int de_size then kpanic ''isdirempty: readi''
          else kret (if de_inum de \<noteq> 0 then Some () else None))))
     (\<lambda>r. kret (r = None)))"

text \<open>From the point where both inodes are locked and the entry is at \<open>off\<close> of \<open>dp\<close>.\<close>

definition unlink_entry :: "nat \<Rightarrow> nat \<Rightarrow> nat \<Rightarrow> ('z kfs_scheme, u64) kop" where
  "unlink_entry dp ip off =
     kbind (writei dp (KSrc (replicate de_size 0)) (of_nat off) (of_nat de_size)) (\<lambda>r.
       if r \<noteq> int de_size then kpanic ''unlink: writei''
       else kbind (iget_field ip i_type) (\<lambda>t.
         kseq (kwhen (t = T_DIR)
           (kseq (iset dp (\<lambda>x. x\<lparr>i_nlink := i_nlink x - 1\<rparr>)) (iupdate dp)))
         (kseq (iunlockput dp)
         (kseq (iset ip (\<lambda>x. x\<lparr>i_nlink := i_nlink x - 1\<rparr>))
         (kseq (iupdate ip)
         (put_ret ip 0))))))"

definition sys_unlink :: "('z kfs_scheme, u64) kop" where
  "sys_unlink =
     kbind (argpath 0) (\<lambda>arg. case arg of None \<Rightarrow> kret err
     | Some path \<Rightarrow>
     kseq begin_op
     (kbind (nameiparent path) (\<lambda>par. case par of None \<Rightarrow> end_ret err
     | Some (dp, name) \<Rightarrow>
       kseq (ilock dp)
       (if namecmp name (ascii ''.'') = 0 \<or> namecmp name (ascii ''..'') = 0 then put_ret dp err
        else kbind (dirlookup dp name) (\<lambda>found. case found of None \<Rightarrow> put_ret dp err
        | Some (ip, off) \<Rightarrow>
            kseq (ilock ip)
            (kbind (iget_field ip id) (\<lambda>x.
               if sint (i_nlink x) < 1 then kpanic ''unlink: nlink < 1''
               else kbind (if i_type x = T_DIR then isdirempty ip else kret True) (\<lambda>ok.
                 if \<not> ok then kseq (iunlockput ip) (put_ret dp err)
                 else unlink_entry dp ip off))))))))"

subsection \<open>create, open and friends\<close>

text \<open>\<open>fail:\<close> in \<open>create\<close>.\<close>

definition create_fail :: "nat \<Rightarrow> nat \<Rightarrow> ('z kfs_scheme, nat option) kop" where
  "create_fail dp ip =
     kseq (iset ip (\<lambda>x. x\<lparr>i_nlink := 0\<rparr>))
     (kseq (iupdate ip)
     (kseq (iunlockput ip)
     (kseq (iunlockput dp)
     (kret None))))"

text \<open>Filling the new inode \<open>ip\<close> and linking it.\<close>

definition create_new :: "nat \<Rightarrow> u8 list \<Rightarrow> nat \<Rightarrow> u16 \<Rightarrow> u16 \<Rightarrow> u16 \<Rightarrow> ('z kfs_scheme, nat option) kop" where
  "create_new dp name ip type major minor =
     kseq (ilock ip)
     (kseq (iset ip (\<lambda>x. x\<lparr>i_major := major, i_minor := minor, i_nlink := 1\<rparr>))
     (kseq (iupdate ip)
     (kbind (iget_field ip i_inum) (\<lambda>inum.
      kbind (iget_field dp i_inum) (\<lambda>dinum.
      kbind (if type = T_DIR
             then kbind (dirlink ip (ascii ''.'') inum) (\<lambda>r.
               if r < 0 then kret r else dirlink ip (ascii ''..'') dinum)
             else kret 0) (\<lambda>r.
        if r < 0 then create_fail dp ip
        else kbind (dirlink dp name inum) (\<lambda>r.
          if r < 0 then create_fail dp ip
          else kseq (kwhen (type = T_DIR)
              (kseq (iset dp (\<lambda>x. x\<lparr>i_nlink := i_nlink x + 1\<rparr>)) (iupdate dp)))
            (kseq (iunlockput dp)
            (kret (Some ip))))))))))"

definition create :: "u8 list \<Rightarrow> u16 \<Rightarrow> u16 \<Rightarrow> u16 \<Rightarrow> ('z kfs_scheme, nat option) kop" where
  "create path type major minor =
     kbind (nameiparent path) (\<lambda>par. case par of None \<Rightarrow> kret None
     | Some (dp, name) \<Rightarrow>
       kseq (ilock dp)
       (kbind (dirlookup dp name) (\<lambda>found. case found of
          Some (ip, _) \<Rightarrow>
            kseq (iunlockput dp)
            (kseq (ilock ip)
            (kbind (iget_field ip i_type) (\<lambda>t.
               if type = T_FILE \<and> (t = T_FILE \<or> t = T_DEVICE) then kret (Some ip)
               else kseq (iunlockput ip) (kret None))))
        | None \<Rightarrow>
            kbind (iget_field dp i_dev) (\<lambda>dev.
            kbind (ialloc dev type) (\<lambda>new. case new of
               None \<Rightarrow> kseq (iunlockput dp) (kret None)
             | Some ip \<Rightarrow> create_new dp name ip type major minor)))))"

abbreviation (input) O_WRONLY :: u32 where "O_WRONLY \<equiv> 1"
abbreviation (input) O_RDWR :: u32 where "O_RDWR \<equiv> 2"
abbreviation (input) O_CREATE :: u32 where "O_CREATE \<equiv> 0x200"
abbreviation (input) O_TRUNC :: u32 where "O_TRUNC \<equiv> 0x400"

text \<open>The locked inode to open, or nothing after \<open>end_op\<close>.\<close>

definition open_inode :: "u8 list \<Rightarrow> u32 \<Rightarrow> ('z kfs_scheme, nat option) kop" where
  "open_inode path omode =
     (if omode AND O_CREATE \<noteq> 0
      then kbind (create path T_FILE 0 0) (\<lambda>r. case r of
          None \<Rightarrow> kseq end_op (kret None)
        | Some ip \<Rightarrow> kret (Some ip))
      else kbind (namei path) (\<lambda>r. case r of
          None \<Rightarrow> kseq end_op (kret None)
        | Some ip \<Rightarrow>
            kseq (ilock ip)
            (kbind (iget_field ip i_type) (\<lambda>t.
               if t = T_DIR \<and> omode \<noteq> 0 then kseq (iunlockput ip) (kseq end_op (kret None))
               else kret (Some ip)))))"

definition open_file :: "nat \<Rightarrow> u32 \<Rightarrow> nat \<Rightarrow> nat \<Rightarrow> ('z kfile_scheme, u64) kop" where
  "open_file ip omode f fd =
     kbind (iget_field ip id) (\<lambda>x.
     kseq (if i_type x = T_DEVICE then fset f (\<lambda>y. y\<lparr>f_type := FD_DEVICE, f_major := i_major x\<rparr>)
           else fset f (\<lambda>y. y\<lparr>f_type := FD_INODE, f_off := 0\<rparr>))
     (kseq (fset f (\<lambda>y. y\<lparr>f_ip := Some ip, f_readable := (omode AND O_WRONLY = 0),
         f_writable := (omode AND O_WRONLY \<noteq> 0 \<or> omode AND O_RDWR \<noteq> 0)\<rparr>))
     (kseq (kwhen (omode AND O_TRUNC \<noteq> 0 \<and> i_type x = T_FILE) (itrunc ip))
     (kseq (iunlock ip)
     (end_ret (of_nat fd))))))"

definition sys_open :: "('z kfile_scheme, u64) kop" where
  "sys_open =
     kbind (argint 1) (\<lambda>m. let omode = word_of_int m in
     kbind (argpath 0) (\<lambda>arg. case arg of None \<Rightarrow> kret err
     | Some path \<Rightarrow>
     kseq begin_op
     (kbind (open_inode path omode) (\<lambda>r. case r of None \<Rightarrow> kret err
     | Some ip \<Rightarrow>
       kbind (iget_field ip id) (\<lambda>x.
         if i_type x = T_DEVICE \<and> (sint (i_major x) < 0 \<or> sint (i_major x) \<ge> int NDEV) then put_ret ip err
         else kbind filealloc (\<lambda>fa. case fa of
             None \<Rightarrow> put_ret ip err
           | Some f \<Rightarrow> kbind (fdalloc f) (\<lambda>d. case d of
               None \<Rightarrow> kseq (fileclose f) (put_ret ip err)
             | Some fd \<Rightarrow> open_file ip omode f fd)))))))"

definition sys_mkdir :: "('z kfs_scheme, u64) kop" where
  "sys_mkdir =
     kseq begin_op
     (kbind (argpath 0) (\<lambda>arg. case arg of None \<Rightarrow> end_ret err
     | Some path \<Rightarrow> kbind (create path T_DIR 0 0) (\<lambda>r. case r of
         None \<Rightarrow> end_ret err
       | Some ip \<Rightarrow> put_ret ip 0)))"

definition sys_mknod :: "('z kfs_scheme, u64) kop" where
  "sys_mknod =
     kseq begin_op
     (kbind (argint 1) (\<lambda>major.
      kbind (argint 2) (\<lambda>minor.
      kbind (argpath 0) (\<lambda>arg. case arg of None \<Rightarrow> end_ret err
      | Some path \<Rightarrow> kbind (create path T_DEVICE (word_of_int major) (word_of_int minor)) (\<lambda>r. case r of
          None \<Rightarrow> end_ret err
        | Some ip \<Rightarrow> put_ret ip 0)))))"

definition sys_chdir :: "('z kfs_scheme, u64) kop" where
  "sys_chdir = with_myproc (\<lambda>p.
     kseq begin_op
     (kbind (argpath 0) (\<lambda>arg. case arg of None \<Rightarrow> end_ret err
      | Some path \<Rightarrow> kbind (namei path) (\<lambda>r. case r of None \<Rightarrow> end_ret err
        | Some ip \<Rightarrow>
            kseq (ilock ip)
            (kbind (iget_field ip i_type) (\<lambda>t.
               if t \<noteq> T_DIR then put_ret ip err
               else kseq (iunlock ip)
                 (kbind (pget p cwd) (\<lambda>c.
                  kseq (case c of None \<Rightarrow> kfault | Some old \<Rightarrow> iput old)
                  (kseq end_op
                  (kseq (pset p (\<lambda>x. x\<lparr>cwd := Some ip\<rparr>))
                  (kret 0)))))))))))"

text \<open>Giving back both ends of a new pipe.\<close>

definition close_both :: "nat \<Rightarrow> nat \<Rightarrow> ('z kfile_scheme, u64) kop" where
  "close_both rf wrf = kseq (fileclose rf) (kseq (fileclose wrf) (kret err))"

definition sys_pipe :: "('z kfile_scheme, u64) kop" where
  "sys_pipe = with_myproc (\<lambda>p.
     kbind (argaddr 0) (\<lambda>fdarray.
     kbind pipealloc (\<lambda>pp. case pp of None \<Rightarrow> kret err
     | Some (rf, wrf) \<Rightarrow>
       kbind (fdalloc rf) (\<lambda>a. case a of None \<Rightarrow> close_both rf wrf
       | Some fd0 \<Rightarrow>
         kbind (fdalloc wrf) (\<lambda>b. case b of None \<Rightarrow> kseq (clear_fd fd0) (close_both rf wrf)
         | Some fd1 \<Rightarrow>
           kbind (pget p pagetable) (\<lambda>pt.
           kbind (copyout pt fdarray (int_bytes (int fd0))) (\<lambda>r0.
           kbind (if r0 < 0 then kret r0 else copyout pt (fdarray + 4) (int_bytes (int fd1))) (\<lambda>r.
             if r < 0 then kseq (clear_fd fd0) (kseq (clear_fd fd1) (close_both rf wrf))
             else kret 0))))))))"

end
