(* ===== verification/Exec.thy ===== *)
theory Exec
  imports Sysfile
begin

text \<open>
  \<^verbatim>\<open>kernel/exec.c\<close> and \<open>sys_exec\<close>. The argument vector is the list of the addresses of the pages that hold the
  strings; the strings are read from memory where the code reads them. \<open>readi\<close> into a physical page returns
  the bytes, which are then stored there.
\<close>

definition MAXARG :: nat where "MAXARG = 32"

abbreviation (input) ELF_MAGIC :: u32 where "ELF_MAGIC \<equiv> 0x464C457F"
abbreviation (input) ELF_PROG_LOAD :: u32 where "ELF_PROG_LOAD \<equiv> 1"
abbreviation (input) elf_size :: nat where "elf_size \<equiv> 64"
abbreviation (input) ph_size :: nat where "ph_size \<equiv> 56"

record elfhdr =
  elf_magic :: u32
  elf_entry :: u64
  elf_phoff :: u64
  elf_phnum :: u16

record proghdr =
  ph_type :: u32
  ph_flags :: u32
  ph_off :: u64
  ph_vaddr :: u64
  ph_filesz :: u64
  ph_memsz :: u64

text \<open>The fields at their offsets in the headers.\<close>

definition at :: "u8 list \<Rightarrow> nat \<Rightarrow> nat \<Rightarrow> 'a::len word" where
  "at bs off n = ucast (le_word (take n (drop off bs)))"

definition elf_of :: "u8 list \<Rightarrow> elfhdr" where
  "elf_of bs = \<lparr>elf_magic = at bs 0 4, elf_entry = at bs 24 8, elf_phoff = at bs 32 8, elf_phnum = at bs 56 2\<rparr>"

definition ph_of :: "u8 list \<Rightarrow> proghdr" where
  "ph_of bs = \<lparr>ph_type = at bs 0 4, ph_flags = at bs 4 4, ph_off = at bs 8 8, ph_vaddr = at bs 16 8,
     ph_filesz = at bs 32 8, ph_memsz = at bs 40 8\<rparr>"

definition flags2perm :: "u32 \<Rightarrow> u64" where
  "flags2perm flags =
     (let perm = (if flags AND 1 \<noteq> 0 then PTE_X else 0)
      in if flags AND 2 \<noteq> 0 then perm OR PTE_W else perm)"

subsection \<open>Loading a segment\<close>

text \<open>
  The offsets of the pages of a segment of \<open>fsz\<close> bytes. (For \<open>fsz\<close> within a page of \<open>2 ^ 32\<close> the loop variable of the code wraps
  after them; a file is too small for the loop to get there.)
\<close>

definition seg_offsets :: "u32 \<Rightarrow> nat list" where
  "seg_offsets fsz = map (\<lambda>k. k * 4096) [0..<(unat fsz + 4095) div 4096]"

definition loadseg :: "u64 \<Rightarrow> u64 \<Rightarrow> nat \<Rightarrow> u32 \<Rightarrow> u32 \<Rightarrow> ('z kfs_scheme, int) kop" where
  "loadseg pt va ip offset fsz =
     kbind (kfind (seg_offsets fsz) (\<lambda>i.
       kbind (walkaddr pt (va + of_nat i)) (\<lambda>pa.
         if pa = 0 then kpanic ''loadseg: address should exist''
         else let n = min (unat fsz - i) 4096
           in kbind (readi ip None (offset + of_nat i) (of_nat n)) (\<lambda>(r, bs).
              kseq (kmod (\<lambda>s. s\<lparr>mem := store_bytes (mem s) pa bs\<rparr>))
              (kret (if r \<noteq> int n then Some () else None))))))
     (\<lambda>r. kret (if r = None then 0 else - 1))"

text \<open>
  The loop over the program headers, with the number of headers left, the file offset of the next one and the size so
  far. The result says whether the loop got through, and the size at that point.
\<close>

primrec exec_load :: "nat \<Rightarrow> nat \<Rightarrow> u64 \<Rightarrow> u32 \<Rightarrow> u64 \<Rightarrow> ('z kfs_scheme, bool \<times> u64) kop" where
  "exec_load 0 ip pt off sz0 = kret (True, sz0)"
| "exec_load (Suc k) ip pt off sz0 =
     kbind (readi ip None off (of_nat ph_size)) (\<lambda>(r, bs).
       let ph = ph_of bs; top = ph_vaddr ph + ph_memsz ph in
       if r \<noteq> int ph_size then kret (False, sz0)
       else if ph_type ph \<noteq> ELF_PROG_LOAD then exec_load k ip pt (off + of_nat ph_size) sz0
       else if ph_memsz ph < ph_filesz ph \<or> top < ph_vaddr ph \<or> ph_vaddr ph mod PGSIZE \<noteq> 0 then kret (False, sz0)
       else kbind (uvmalloc pt sz0 top (flags2perm (ph_flags ph))) (\<lambda>sz1.
         if sz1 = 0 then kret (False, sz0)
         else kbind (loadseg pt (ph_vaddr ph) ip (ucast (ph_off ph)) (ucast (ph_filesz ph))) (\<lambda>l.
           if l < 0 then kret (False, sz1)
           else exec_load k ip pt (off + of_nat ph_size) sz1)))"

subsection \<open>The stack of the new program\<close>

text \<open>\<open>strlen\<close> of a string in kernel memory; a string without end is read for ever.\<close>

definition kstrlen :: "u64 \<Rightarrow> ('z kmem_scheme, nat) kop" where
  "kstrlen a = (\<lambda>s. case strlen (mem s) a of None \<Rightarrow> Hang | Some n \<Rightarrow> Done n s)"

text \<open>Pushing the argument strings: the stack pointer and \<open>ustack\<close> at the end, or nothing for \<open>bad\<close>.\<close>

fun push_args :: "u64 \<Rightarrow> u64 \<Rightarrow> u64 list \<Rightarrow> u64 \<Rightarrow> u64 list \<Rightarrow> ('z kmem_scheme, (u64 \<times> u64 list) option) kop" where
  "push_args pt stackbase [] sp ustack = kret (Some (sp, ustack @ [0]))"
| "push_args pt stackbase (a # argv) sp ustack =
     (if length ustack \<ge> MAXARG then kret None
      else kbind (kstrlen a) (\<lambda>n.
        let sp1 = sp - of_nat (n + 1); sp2 = sp1 - sp1 mod 16 in
        if sp2 < stackbase then kret None
        else kbind (kget (\<lambda>s. load_bytes (mem s) a (n + 1))) (\<lambda>bs.
          kbind (copyout pt sp2 bs) (\<lambda>r.
            if r < 0 then kret None else push_args pt stackbase argv sp2 (ustack @ [sp2])))))"

definition u64_bytes :: "u64 \<Rightarrow> u8 list" where
  "u64_bytes v = map (\<lambda>i. ucast (drop_bit (8 * i) v)) [0..<8]"

text \<open>The strings, then the array of pointers to them.\<close>

definition push_argv :: "u64 \<Rightarrow> u64 \<Rightarrow> u64 list \<Rightarrow> u64 \<Rightarrow> ('z kmem_scheme, u64 option) kop" where
  "push_argv pt stackbase argv sp =
     kbind (push_args pt stackbase argv sp []) (\<lambda>r. case r of
       None \<Rightarrow> kret None
     | Some (sp1, ustack) \<Rightarrow>
         let sp2 = sp1 - of_nat (length ustack) * 8; sp3 = sp2 - sp2 mod 16 in
         if sp3 < stackbase then kret None
         else kbind (copyout pt sp3 (concat (map u64_bytes ustack))) (\<lambda>r.
           kret (if r < 0 then None else Some sp3)))"

subsection \<open>exec\<close>

text \<open>The last component of a path.\<close>

definition last_elem :: "u8 list \<Rightarrow> u8 list" where
  "last_elem path = rev (takeWhile (\<lambda>c. c \<noteq> slash) (rev path))"

definition exec_commit :: "nat \<Rightarrow> u8 list \<Rightarrow> u64 \<Rightarrow> u64 \<Rightarrow> u64 \<Rightarrow> u64 \<Rightarrow> u64 \<Rightarrow> ('z kproc_scheme, unit) kop" where
  "exec_commit p path pt newsz entry sp oldsz =
     kseq (tf_set p tf_a1 sp)
     (kbind (pget p pagetable) (\<lambda>oldpt.
      kseq (pset p (\<lambda>x. x\<lparr>p_name := safestrcpy_str (last_elem path) 16, pagetable := pt, sz := newsz\<rparr>))
     (kseq (tf_set p tf_epc entry)
     (kseq (tf_set p tf_sp sp)
     (proc_freepagetable oldpt oldsz)))))"

text \<open>From \<open>PGROUNDUP(sz)\<close> on, when the inode is closed: the stack pages, the arguments, the new image.\<close>

definition exec_stack :: "nat \<Rightarrow> u8 list \<Rightarrow> u64 list \<Rightarrow> u64 \<Rightarrow> u64 \<Rightarrow> u64 \<Rightarrow> ('z kproc_scheme, int) kop" where
  "exec_stack p path argv pt sz0 entry =
     kbind (pget p sz) (\<lambda>oldsz.
     let base = PGROUNDUP sz0 in
     kbind (uvmalloc pt base (base + 2 * PGSIZE) PTE_W) (\<lambda>sz1.
       if sz1 = 0 then kseq (proc_freepagetable pt base) (kret (- 1))
       else kseq (uvmclear pt (sz1 - 2 * PGSIZE))
         (kbind (push_argv pt (sz1 - PGSIZE) argv sz1) (\<lambda>r. case r of
            None \<Rightarrow> kseq (proc_freepagetable pt sz1) (kret (- 1))
          | Some sp \<Rightarrow> kseq (exec_commit p path pt sz1 entry sp oldsz) (kret (int (length argv)))))))"

definition exec :: "u8 list \<Rightarrow> u64 list \<Rightarrow> ('z kfs_scheme, int) kop" where
  "exec path argv = with_myproc (\<lambda>p.
     kseq begin_op
     (kbind (namei path) (\<lambda>found. case found of
        None \<Rightarrow> kseq end_op (kret (- 1))
      | Some ip \<Rightarrow>
          kseq (ilock ip)
          (kbind (readi ip None 0 (of_nat elf_size)) (\<lambda>(r, bs).
             let elf = elf_of bs; bad = kseq (iunlockput ip) (kseq end_op (kret (- 1))) in
             if r \<noteq> int elf_size \<or> elf_magic elf \<noteq> ELF_MAGIC then bad
             else kbind (proc_pagetable p) (\<lambda>pt.
               if pt = 0 then bad
               else kbind (exec_load (unat (elf_phnum elf)) ip pt (ucast (elf_phoff elf)) 0) (\<lambda>(ok, sz0).
                 if \<not> ok then kseq (proc_freepagetable pt sz0) bad
                 else kseq (iunlockput ip) (kseq end_op (exec_stack p path argv pt sz0 (elf_entry elf))))))))))"

subsection \<open>sys\_exec\<close>

text \<open>
  The loop that copies the argument strings, with the number of slots of \<open>argv\<close> left: whether it reached the null
  pointer, and the pages allocated so far. The bytes a failing \<open>fetchstr\<close> has copied stay in its page.
\<close>

primrec fetch_args :: "nat \<Rightarrow> u64 \<Rightarrow> u64 list \<Rightarrow> ('z kproc_scheme, bool \<times> u64 list) kop" where
  "fetch_args 0 uargv pages = kret (False, pages)"
| "fetch_args (Suc k) uargv pages =
     kbind (fetchaddr (uargv + 8 * of_nat (length pages))) (\<lambda>a. case a of
       None \<Rightarrow> kret (False, pages)
     | Some uarg \<Rightarrow>
         if uarg = 0 then kret (True, pages)
         else kbind kalloc (\<lambda>page.
           if page = 0 then kret (False, pages)
           else kbind (fetchstr uarg 4096) (\<lambda>(r, bs).
             kseq (kmod (\<lambda>s. s\<lparr>mem := store_bytes (mem s) page bs\<rparr>))
             (if r < 0 then kret (False, pages @ [page])
              else fetch_args k uargv (pages @ [page])))))"

definition sys_exec :: "('z kfs_scheme, u64) kop" where
  "sys_exec =
     kbind (argaddr 1) (\<lambda>uargv.
     kbind (argpath 0) (\<lambda>arg. case arg of None \<Rightarrow> kret err
     | Some path \<Rightarrow>
       kbind (fetch_args MAXARG uargv []) (\<lambda>(ok, pages).
         kbind (if ok then exec path pages else kret (- 1)) (\<lambda>ret.
         kseq (kfor pages kfree) (kret (word_of_int ret))))))"

end
