(* ===== verification/Exec_Args.thy ===== *)
theory Exec_Args
  imports Exec
begin

text \<open>
  What a program finds on its stack: the argument strings that \<open>exec\<close> pushes and the array of pointers to them.
\<close>

subsection \<open>Memory that is not the user's\<close>

text \<open>No user page of the address space \<open>r\<close> contains the physical address \<open>x\<close>.\<close>

definition kernel_only :: "bytes \<Rightarrow> u64 \<Rightarrow> u64 \<Rightarrow> bool" where
  "kernel_only m r x \<longleftrightarrow>
     (\<forall>va. translate m r (PGROUNDDOWN va) \<noteq> 0 \<longrightarrow> \<not> in_region (translate m r (PGROUNDDOWN va)) 4096 x)"

lemma kernel_only_cong: "(\<And>va. translate m' r va = translate m r va) \<Longrightarrow> kernel_only m' r x = kernel_only m r x"
  by (simp add: kernel_only_def)

definition only_user :: "u64 \<Rightarrow> bytes \<Rightarrow> bytes \<Rightarrow> bool" where
  "only_user r m m' \<longleftrightarrow> (\<forall>v. translate m' r v = translate m r v) \<and> (\<forall>x. kernel_only m r x \<longrightarrow> m' x = m x)"

lemma only_user_refl: "only_user r m m"
  by (simp add: only_user_def)

lemma only_user_trans: "only_user r m m' \<Longrightarrow> only_user r m' m'' \<Longrightarrow> only_user r m m''"
  using kernel_only_cong [of m' r m] by (simp add: only_user_def)

lemma copyout_frame:
  assumes "vm_inv s r xs" and "user_sep (mem s) r xs" and "copyout r va src s = Done rc t"
  shows "only_user r (mem s) (mem t)"
  using assms
proof (induction "length src" arbitrary: s va src rule: less_induct)
  case less
  show ?case
  proof (cases "src = []")
    case True
    then show ?thesis using less.prems(3) by (simp add: only_user_refl)
  next
    case False
    define n where "n = page_chunk va (length src)"
    define pa where "pa = translate (mem s) r (PGROUNDDOWN va)"
    have pos: "0 < length src" using False by simp
    note n = chunk_next [OF n_def pos]
    show ?thesis
    proof (cases "pa = 0")
      case True
      have "copyout r va src s = Done (- 1) s"
        using False True walkaddr_inv [OF less.prems(1)] by (subst copyout.simps) (simp add: kbind_run pa_def Let_def)
      then show ?thesis using less.prems(3) by (simp add: only_user_refl)
    next
      case pa: False
      define m' where "m' = store_bytes (mem s) (pa + (va - PGROUNDDOWN va)) (take n src)"
      have run: "copyout r (PGROUNDDOWN va + PGSIZE) (drop n src) (s\<lparr>mem := m'\<rparr>) = Done rc t"
        using False pa walkaddr_inv [OF less.prems(1)] less.prems(3)
        by (subst (asm) copyout.simps) (simp add: kbind_run kseq_run pa_def n_def m'_def Let_def)
      have len: "length (take n src) \<le> 4096 - unat va mod 4096" "length (take n src) < 2 ^ 64" using n(1,3) by simp_all
      note w = user_chunk_write [OF less.prems(1,2) pa_def pa len(1) m'_def]
      have frame: "m' y = mem s y" if "\<not> in_region pa 4096 y" for y
        using that chunk_in_page [OF len(1)] store_bytes_eq [OF len(2), of "mem s" "pa + (va - PGROUNDDOWN va)"]
        by (auto simp: m'_def)
      have "pa \<notin> owned (mem s) r xs" using less.prems(2) pa pa_def by (auto simp: user_sep_def)
      from user_page_write_map(1) [OF less.prems(1) _ this frame] have "translate m' r v = translate (mem s) r v" for v
        by (simp add: pa_def translate_aligned)
      then have "only_user r (mem s) m'"
        using frame pa pa_def by (auto simp: only_user_def kernel_only_def)
      moreover have "only_user r m' (mem t)"
        using less.hyps [of "drop n src" "s\<lparr>mem := m'\<rparr>"] w(1,2) run n(2) pos by simp
      ultimately show ?thesis by (rule only_user_trans)
    qed
  qed
qed

subsection \<open>Strings of the user and of the kernel\<close>

definition user_str :: "bytes \<Rightarrow> u64 \<Rightarrow> u64 \<Rightarrow> u8 list \<Rightarrow> bool" where
  "user_str m r p b \<longleftrightarrow> (\<forall>j < length b. user_byte m r (p + of_nat j) = Some (b ! j))"

definition kernel_str :: "bytes \<Rightarrow> u64 \<Rightarrow> u64 \<Rightarrow> u8 list \<Rightarrow> bool" where
  "kernel_str m r a b \<longleftrightarrow> cstr m a b \<and> (\<forall>j \<le> length b. kernel_only m r (a + of_nat j))"

lemma kernel_str_kept:
  assumes "only_user r m m'" and "kernel_str m r a b"
  shows "kernel_str m' r a b"
proof -
  have "m' (a + of_nat j) = m (a + of_nat j)" if "j \<le> length b" for j
    using assms that by (simp add: only_user_def kernel_str_def)
  then have "cstr m' a b" using assms(2) by (auto simp: kernel_str_def cstr_nth)
  then show ?thesis using assms kernel_only_cong [of m' r m] by (simp add: kernel_str_def only_user_def)
qed

lemma kernel_str_read:
  assumes "kernel_str (mem s) r a b"
  shows "kstrlen a s = Done (length b) s" and "load_bytes (mem s) a (length b + 1) = b @ [0]"
proof -
  have c: "cstr (mem s) a b" using assms by (simp add: kernel_str_def)
  then show "kstrlen a s = Done (length b) s"
    using strlen_from_cstr [of "mem s" a 0 b] by (simp add: kstrlen_def strlen_def)
  show "load_bytes (mem s) a (length b + 1) = b @ [0]"
    using c by (intro nth_equalityI) (auto simp: load_bytes_map cstr_nth nth_append less_Suc_eq)
qed

subsection \<open>Writing to the stack page\<close>

definition stack_ok :: "'z kmem_scheme \<Rightarrow> u64 \<Rightarrow> u64 list \<Rightarrow> u64 \<Rightarrow> bool" where
  "stack_ok s pt fl base \<longleftrightarrow> vm_inv s pt fl \<and> user_sep (mem s) pt fl \<and> 4096 \<le> unat base \<and> unat base + 4096 < 2 ^ 64
     \<and> (\<forall>x. unat base \<le> unat x \<and> unat x < unat base + 4096 \<longrightarrow> user_byte (mem s) pt x \<noteq> None)"

lemma unat_add_small: "unat a + n < 2 ^ 64 \<Longrightarrow> unat (a + of_nat n) = unat a + n" for a :: u64
proof -
  assume *: "unat a + n < 2 ^ 64"
  then have "unat (of_nat n :: u64) = n" by (intro unat_of_nat64) simp
  then show ?thesis using * by (simp add: unat_word_ariths)
qed

lemma in_region_nat:
  assumes "unat a + n < 2 ^ 64"
  shows "in_region a n x \<longleftrightarrow> unat a \<le> unat x \<and> unat x < unat a + n" and "in_region a n x \<Longrightarrow> unat (x - a) = unat x - unat a"
proof -
  have le: "unat (x - a) = unat x - unat a" if "unat a \<le> unat x"
    using that by (intro unat_sub) (simp add: word_le_nat_alt)
  have "unat x = unat a + unat (x - a)" if "unat (x - a) < n"
  proof -
    have "unat a + unat (x - a) < 2 ^ 64" using that assms by linarith
    from unat_add_small [OF this] show ?thesis by simp
  qed
  then show "in_region a n x \<longleftrightarrow> unat a \<le> unat x \<and> unat x < unat a + n"
    using le by (auto simp: in_region_def)
  then show "unat (x - a) = unat x - unat a" if "in_region a n x" using that le by blast
qed

lemma copyout_stack:
  assumes "stack_ok s pt fl base" and "unat base \<le> unat q" and "unat q + length src \<le> unat base + 4096"
  shows "\<exists>t. copyout pt q src s = Done 0 t \<and> stack_ok t pt fl base \<and> only_user pt (mem s) (mem t)
    \<and> user_str (mem t) pt q src
    \<and> (\<forall>x. \<not> (unat q \<le> unat x \<and> unat x < unat q + length src) \<longrightarrow> user_byte (mem t) pt x = user_byte (mem s) pt x)"
proof -
  have s: "vm_inv s pt fl" "user_sep (mem s) pt fl" "unat base + 4096 < 2 ^ 64" using assms(1) by (simp_all add: stack_ok_def)
  have sum: "unat q + length src < 2 ^ 64" using assms(3) s(3) by simp
  have q: "unat (q + of_nat i) = unat q + i" if "i \<le> length src" for i using that sum by (intro unat_add_small) simp
  have "\<forall>i < length src. user_byte (mem s) pt (q + of_nat i) \<noteq> None"
    using assms q by (auto simp: stack_ok_def)
  then obtain t where t: "copyout pt q src s = Done 0 t" "vm_inv t pt fl" "user_sep (mem t) pt fl"
    "user_byte (mem t) pt = user_store (user_byte (mem s) pt) q src"
    using copyout_spec [OF s(1,2), of src q] sum by auto
  have b: "user_byte (mem t) pt x = (if unat q \<le> unat x \<and> unat x < unat q + length src
      then Some (src ! (unat x - unat q)) else user_byte (mem s) pt x)" for x
    using in_region_nat [OF sum, of x] by (auto simp: t(4) user_store_def)
  have "user_str (mem t) pt q src" using q by (simp add: user_str_def b)
  moreover have "stack_ok t pt fl base" using assms(1) t(2,3) by (simp add: stack_ok_def b)
  ultimately show ?thesis using t(1) b copyout_frame [OF s(1,2) t(1)] by auto
qed

text \<open>Moving the stack pointer down by \<open>n\<close> bytes and to a multiple of 16.\<close>

definition down :: "nat \<Rightarrow> u64 \<Rightarrow> u64" where
  "down n sp = (sp - of_nat n) - (sp - of_nat n) mod 16"

lemma down_bounds:
  assumes "n \<le> unat sp"
  shows "unat (down n sp) = (unat sp - n) div 16 * 16" and "unat (down n sp) + n \<le> unat sp" and "unat sp \<le> unat (down n sp) + n + 15"
    and "unat (down n sp) mod 16 = 0"
proof -
  have n: "unat (of_nat n :: u64) = n" using assms unat_u64_less [of sp] by (intro unat_of_nat64) simp
  have a: "unat (sp - of_nat n) = unat sp - n" using assms n by (simp add: unat_sub word_le_nat_alt)
  have m: "unat ((sp - of_nat n) mod 16) = (unat sp - n) mod 16" by (simp add: unat_mod a)
  have "(sp - of_nat n) mod 16 \<le> sp - of_nat n" by (simp add: word_le_nat_alt unat_mod)
  then have "unat (down n sp) = (unat sp - n) - (unat sp - n) mod 16" by (simp add: down_def unat_sub a m)
  then show d: "unat (down n sp) = (unat sp - n) div 16 * 16" by (simp add: minus_mod_eq_div_mult)
  show "unat (down n sp) + n \<le> unat sp" using assms d by (simp add: div_times_less_eq_dividend) 
  have "unat sp - n = (unat sp - n) div 16 * 16 + (unat sp - n) mod 16" by simp
  moreover have "(unat sp - n) mod 16 < 16" by simp
  ultimately show "unat sp \<le> unat (down n sp) + n + 15" using d assms by linarith
  show "unat (down n sp) mod 16 = 0" by (simp add: d)
qed

subsection \<open>The argument strings\<close>

definition placed :: "bytes \<Rightarrow> u64 \<Rightarrow> nat \<Rightarrow> nat \<Rightarrow> u64 list \<Rightarrow> u8 list list \<Rightarrow> bool" where
  "placed m pt lo hi = list_all2 (\<lambda>p b. user_str m pt p (b @ [0]) \<and> lo \<le> unat p \<and> unat p + length b < hi)"

lemma placed_kept:
  assumes "placed m pt lo hi ps bss" and "hi < 2 ^ 64" and "\<And>x. lo \<le> unat x \<Longrightarrow> unat x < hi \<Longrightarrow> user_byte m' pt x = user_byte m pt x"
    and "lo' \<le> lo" and "hi \<le> hi'"
  shows "placed m' pt lo' hi' ps bss"
  unfolding placed_def
proof (rule list_all2_mono [OF assms(1) [unfolded placed_def]])
  fix p b
  assume *: "user_str m pt p (b @ [0]) \<and> lo \<le> unat p \<and> unat p + length b < hi"
  have "user_byte m' pt (p + of_nat j) = user_byte m pt (p + of_nat j)" if "j \<le> length b" for j
  proof -
    have "unat (p + of_nat j) = unat p + j" using * that assms(2) by (intro unat_add_small) linarith
    then show ?thesis using * that by (intro assms(3)) linarith+
  qed
  then show "user_str m' pt p (b @ [0]) \<and> lo' \<le> unat p \<and> unat p + length b < hi'"
    using * assms(4,5) by (auto simp: user_str_def)
qed

definition args_size :: "u8 list list \<Rightarrow> nat" where
  "args_size bss = sum_list (map (\<lambda>b. length b + 16) bss)"

definition pushed :: "u64 \<Rightarrow> u64 \<Rightarrow> u8 list list \<Rightarrow> u64 \<Rightarrow> u64 list \<Rightarrow> bytes \<Rightarrow> (u64 \<times> u64 list) option \<Rightarrow> bytes \<Rightarrow> bool" where
  "pushed pt base bss sp ustack m r m' \<longleftrightarrow>
     (\<forall>x. \<not> (unat base \<le> unat x \<and> unat x < unat sp) \<longrightarrow> user_byte m' pt x = user_byte m pt x) \<and> (case r of
     None \<Rightarrow> unat sp < unat base + args_size bss
   | Some (sp', us) \<Rightarrow> \<exists>ps. us = ustack @ ps @ [0] \<and> placed m' pt (unat sp') (unat sp) ps bss
       \<and> unat base \<le> unat sp' \<and> unat sp' \<le> unat sp \<and> unat sp \<le> unat sp' + args_size bss
       \<and> (\<forall>x. \<not> (unat sp' \<le> unat x \<and> unat x < unat sp) \<longrightarrow> user_byte m' pt x = user_byte m pt x))"

lemma push_args_spec:
  assumes "stack_ok s pt fl base" and "list_all2 (kernel_str (mem s) pt) argv bss" and "\<forall>b \<in> set bss. length b < 4096"
    and "unat base \<le> unat sp" and "unat sp \<le> unat base + 4096" and "length ustack + length argv \<le> MAXARG"
  shows "\<exists>r t. push_args pt base argv sp ustack s = Done r t \<and> stack_ok t pt fl base \<and> only_user pt (mem s) (mem t)
    \<and> pushed pt base bss sp ustack (mem s) r (mem t)"
  using assms
proof (induction argv arbitrary: s sp ustack bss)
  case Nil
  then show ?case by (simp add: pushed_def placed_def args_size_def only_user_refl)
next
  case (Cons a argv)
  then obtain b bs where bss: "bss = b # bs" "kernel_str (mem s) pt a b" "list_all2 (kernel_str (mem s) pt) argv bs"
    by (auto simp: list_all2_Cons1)
  define q where "q = down (length b + 1) sp"
  have room: "length b + 1 \<le> unat sp" using Cons.prems bss(1) by (auto simp: stack_ok_def)
  note q = down_bounds [OF room, folded q_def]
  have run: "push_args pt base (a # argv) sp ustack s = (if q < base then Done None s
      else kbind (copyout pt q (b @ [0])) (\<lambda>r. if r < 0 then kret None else push_args pt base argv q (ustack @ [q])) s)"
  proof -
    have few: "\<not> MAXARG \<le> length ustack" using Cons.prems(6) by simp
    have qd: "sp - of_nat (length b + 1) - (sp - of_nat (length b + 1)) mod 16 = q" by (simp add: q_def down_def)
    have get: "kget (\<lambda>s. load_bytes (mem s) a (length b + 1)) s = Done (b @ [0]) s"
      using kernel_str_read(2) [OF bss(2)] by (simp add: kget_def)
    show ?thesis
    proof (cases "q < base")
      case True
      then show ?thesis
        by (simp only: push_args.simps few if_False kbind_run kernel_str_read(1) [OF bss(2)] outcome.case Let_def qd if_True) simp
    next
      case False
      then show ?thesis
        by (simp only: push_args.simps few if_False kbind_run kernel_str_read(1) [OF bss(2)] outcome.case Let_def qd get)
    qed
  qed
  show ?case
  proof (cases "q < base")
    case True
    then have "unat sp < unat base + args_size bss" using q(3) bss(1) by (simp add: word_less_nat_alt args_size_def)
    then show ?thesis using run True Cons.prems(1) by (simp add: pushed_def only_user_refl)
  next
    case False
    then have base: "unat base \<le> unat q" by (simp add: word_less_nat_alt)
    obtain t where t: "copyout pt q (b @ [0]) s = Done 0 t" "stack_ok t pt fl base" "only_user pt (mem s) (mem t)"
      "user_str (mem t) pt q (b @ [0])"
      "\<And>x. \<not> (unat q \<le> unat x \<and> unat x < unat q + length (b @ [0])) \<Longrightarrow> user_byte (mem t) pt x = user_byte (mem s) pt x"
      using copyout_stack [OF Cons.prems(1) base, of "b @ [0]"] q(2) Cons.prems(5) by fastforce
    have "list_all2 (kernel_str (mem t) pt) argv bs"
      using bss(3) kernel_str_kept [OF t(3)] by (rule list_all2_mono)
    moreover have "\<forall>b \<in> set bs. length b < 4096" "unat q \<le> unat base + 4096" "length (ustack @ [q]) + length argv \<le> MAXARG"
      using Cons.prems bss(1) q(2) by simp_all
    ultimately obtain r u where u: "push_args pt base argv q (ustack @ [q]) t = Done r u" "stack_ok u pt fl base"
      "only_user pt (mem t) (mem u)" "pushed pt base bs q (ustack @ [q]) (mem t) r (mem u)"
      using Cons.IH [OF t(2) _ _ base, of bs "ustack @ [q]"] by blast
    have out: "user_byte (mem u) pt x = user_byte (mem s) pt x" if "\<not> (unat base \<le> unat x \<and> unat x < unat sp)" for x
      using that u(4) t(5) [of x] base q(2) by (auto simp: pushed_def)
    have "pushed pt base bss sp ustack (mem s) r (mem u)"
    proof (cases r)
      case None
      then show ?thesis using u(4) q(3) bss(1) out by (simp add: pushed_def args_size_def)
    next
      case (Some z)
      obtain sp' ps where z: "z = (sp', (ustack @ [q]) @ ps @ [0])" "placed (mem u) pt (unat sp') (unat q) ps bs"
        "unat base \<le> unat sp'" "unat sp' \<le> unat q" "unat q \<le> unat sp' + args_size bs"
        "\<And>x. \<not> (unat sp' \<le> unat x \<and> unat x < unat q) \<Longrightarrow> user_byte (mem u) pt x = user_byte (mem t) pt x"
        using u(4) Some by (cases z) (auto simp: pushed_def)
      have lim: "unat q + length b + 1 \<le> unat sp" "unat sp < 2 ^ 64" using q(2) unat_u64_less by simp_all
      have "placed (mem t) pt (unat q) (unat q + length b + 1) [q] [b]" using t(4) by (simp add: placed_def)
      then have "placed (mem u) pt (unat sp') (unat sp) [q] [b]"
        by (rule placed_kept) (use lim z(4,6) in auto)
      moreover have "placed (mem u) pt (unat sp') (unat sp) ps bs"
        by (rule placed_kept [OF z(2)]) (use lim z(4) in auto)
      ultimately have "placed (mem u) pt (unat sp') (unat sp) (q # ps) (b # bs)" by (simp add: placed_def)
      moreover have "user_byte (mem u) pt x = user_byte (mem s) pt x" if "\<not> (unat sp' \<le> unat x \<and> unat x < unat sp)" for x
        using that z(4) z(6) [of x] t(5) [of x] lim by auto
      ultimately show ?thesis
        using Some z(1,3-5) lim q(3) bss(1) out by (auto simp: pushed_def args_size_def intro!: exI [of _ "q # ps"])
    qed
    moreover have "push_args pt base (a # argv) sp ustack s = Done r u" using run False t(1) u(1) by (simp add: kbind_run)
    ultimately show ?thesis using u(2) only_user_trans [OF t(3) u(3)] by blast
  qed
qed

subsection \<open>The array of pointers\<close>

lemma length_u64_bytes [simp]: "length (u64_bytes v) = 8"
  by (simp add: u64_bytes_def)

lemma length_words: "length (concat (map u64_bytes us)) = 8 * length us"
  by (induction us) simp_all

lemma words_nth: "i < length us \<Longrightarrow> j < 8 \<Longrightarrow> concat (map u64_bytes us) ! (8 * i + j) = u64_bytes (us ! i) ! j"
proof (induction us arbitrary: i)
  case Nil
  then show ?case by simp
next
  case (Cons v us)
  then show ?case by (cases i) (simp_all add: nth_append)
qed

text \<open>The bytes of a pointer are those \<open>fetchaddr\<close> puts together again.\<close>

lemma le_word_step:
  "ucast (ucast x :: u8) OR push_bit 8 (take_bit n (drop_bit 8 x)) = take_bit (n + 8) x" for x :: u64
  by (rule bit_word_eqI) (auto simp: bit_simps)

lemma le_word_upt: "le_word (map (\<lambda>i. ucast (drop_bit (8 * i) v)) [k..<k + n]) = take_bit (8 * n) (drop_bit (8 * k) v)"
proof (induction n arbitrary: k)
  case 0
  then show ?case by (simp add: le_word_def)
next
  case (Suc n)
  have "[k..<k + Suc n] = k # [Suc k..<Suc k + n]" by (simp add: upt_conv_Cons)
  then have "le_word (map (\<lambda>i. ucast (drop_bit (8 * i) v)) [k..<k + Suc n]) =
      ucast (ucast (drop_bit (8 * k) v) :: u8) OR push_bit 8 (le_word (map (\<lambda>i. ucast (drop_bit (8 * i) v)) [Suc k..<Suc k + n]))"
    by (simp add: le_word_def)
  also have "\<dots> = take_bit (8 * n + 8) (drop_bit (8 * k) v)"
    using le_word_step [of "drop_bit (8 * k) v" "8 * n"] unfolding Suc.IH by (simp add: drop_bit_drop_bit add.commute)
  finally show ?case by (simp add: add.commute)
qed

lemma le_word_u64_bytes: "le_word (u64_bytes v) = v"
  using le_word_upt [of v 0 8] by (simp add: u64_bytes_def take_bit_word_eq_self)

lemma user_str_words:
  assumes "user_str m pt q (concat (map u64_bytes us))" and "i < length us"
  shows "user_str m pt (q + 8 * of_nat i) (u64_bytes (us ! i))"
  unfolding user_str_def
proof (intro allI impI)
  fix j
  assume "j < length (u64_bytes (us ! i))"
  then have j: "j < 8" by simp
  have "8 * i + j < length (concat (map u64_bytes us))" using assms(2) j by (simp add: length_words)
  then have "user_byte m pt (q + of_nat (8 * i + j)) = Some (u64_bytes (us ! i) ! j)"
    using assms(1) [unfolded user_str_def] words_nth [OF assms(2) j] by metis
  then show "user_byte m pt (q + 8 * of_nat i + of_nat j) = Some (u64_bytes (us ! i) ! j)" by (simp add: add.assoc)
qed

lemma push_argv_array:
  assumes "stack_ok s pt fl base" and "unat base \<le> unat sp" and "unat sp \<le> unat base + 4096" and "8 * length us \<le> 4096"
    and "placed (mem s) pt (unat sp) hi ps bss" and "hi < 2 ^ 64"
  shows "(down (8 * length us) sp < base \<longrightarrow> unat sp < unat base + 8 * length us + 15)
    \<and> (base \<le> down (8 * length us) sp \<longrightarrow>
      (\<exists>t. copyout pt (down (8 * length us) sp) (concat (map u64_bytes us)) s = Done 0 t \<and> stack_ok t pt fl base
        \<and> placed (mem t) pt (unat (down (8 * length us) sp) + 8 * length us) hi ps bss
        \<and> (\<forall>i < length us. user_str (mem t) pt (down (8 * length us) sp + 8 * of_nat i) (u64_bytes (us ! i)))
        \<and> (\<forall>x. \<not> (unat base \<le> unat x \<and> unat x < unat sp) \<longrightarrow> user_byte (mem t) pt x = user_byte (mem s) pt x)))"
proof -
  let ?q = "down (8 * length us) sp"
  have room: "8 * length us \<le> unat sp" using assms(1,2,4) by (simp add: stack_ok_def)
  note q = down_bounds [OF room]
  have "\<exists>t. copyout pt ?q (concat (map u64_bytes us)) s = Done 0 t \<and> stack_ok t pt fl base
      \<and> placed (mem t) pt (unat ?q + 8 * length us) hi ps bss \<and> (\<forall>i < length us. user_str (mem t) pt (?q + 8 * of_nat i) (u64_bytes (us ! i)))
      \<and> (\<forall>x. \<not> (unat base \<le> unat x \<and> unat x < unat sp) \<longrightarrow> user_byte (mem t) pt x = user_byte (mem s) pt x)"
    if "base \<le> ?q"
  proof -
    have b: "unat base \<le> unat ?q" using that by (simp add: word_le_nat_alt)
    obtain t where t: "copyout pt ?q (concat (map u64_bytes us)) s = Done 0 t" "stack_ok t pt fl base"
      "user_str (mem t) pt ?q (concat (map u64_bytes us))"
      "\<And>x. \<not> (unat ?q \<le> unat x \<and> unat x < unat ?q + 8 * length us) \<Longrightarrow> user_byte (mem t) pt x = user_byte (mem s) pt x"
      using copyout_stack [OF assms(1) b, of "concat (map u64_bytes us)"] q(2) assms(3) by (auto simp: length_words)
    have "placed (mem t) pt (unat ?q + 8 * length us) hi ps bss"
      by (rule placed_kept [OF assms(5,6)]) (use t(4) q(2) in auto)
    moreover have "user_byte (mem t) pt x = user_byte (mem s) pt x" if "\<not> (unat base \<le> unat x \<and> unat x < unat sp)" for x
      using that b q(2) t(4) [of x] by auto
    ultimately show ?thesis using t(1,2) user_str_words [OF t(3)] by blast
  qed
  then show ?thesis using q(3) by (auto simp: word_less_nat_alt)
qed

subsection \<open>A stack page and one argument\<close>

text \<open>The page \<open>0x87FFC000\<close> is the stack at \<open>0x1000\<close>; the string lies in the page \<open>0x87FFB000\<close>.\<close>

definition stack_vm :: kmem where
  "stack_vm = (case mappages 0x87FFD000 0x1000 PGSIZE 0x87FFC000 (PTE_R OR PTE_W OR PTE_U) empty_vm of
     Done _ t \<Rightarrow> t\<lparr>mem := (mem t)(0x87FFB000 := 97, 0x87FFB001 := 0)\<rparr> | _ \<Rightarrow> empty_vm)"

lemma stack_vm_ok:
  obtains ys where "stack_ok stack_vm 0x87FFD000 ys 0x1000"
    and "list_all2 (kernel_str (mem stack_vm) 0x87FFD000) [0x87FFB000] [[97]]"
proof -
  let ?r = "0x87FFD000" and ?p = "PTE_R OR PTE_W OR PTE_U"
  obtain rc t ys where m: "mappages ?r 0x1000 PGSIZE 0x87FFC000 ?p empty_vm = Done rc t"
    "vm_ext ?r empty_vm [0x87FFF000, 0x87FFE000] t ys" "rc = 0"
    "\<And>va. pte_of (mem t) ?r va =
      (if rc = 0 \<and> same_path 3 0x1000 va then PA2PTE 0x87FFC000 OR ?p OR PTE_V else pte_of (mem empty_vm) ?r va)"
    using mappages_page [OF empty_vm_inv, of "0x1000" "0x87FFC000" ?p] by (auto simp: page_aligned_def empty_vm_pte)
  have pte: "pte_of (mem t) ?r va = (if same_path 3 0x1000 va then 0x21FFF017 else 0)" for va
    by (simp add: m(3,4) PA2PTE_def empty_vm_pte)
  have "same_path 3 0x1000 va \<longleftrightarrow> PGROUNDDOWN va = 0x1000" if "va < MAXVA" for va
    using same_page_iff [of "0x1000" va] that by (auto simp: PGROUNDDOWN_def)
  then have tr: "translate (mem t) ?r va = (if va < MAXVA \<and> PGROUNDDOWN va = 0x1000 then 0x87FFC000 else 0)" for va
    by (auto simp: translate_def pte PTE2PA_def not_le)
  have own: "owned (mem t) ?r ys \<subseteq> {0x87FFF000, 0x87FFE000, 0x87FFD000}"
    using m(2) by (auto simp: vm_ext_def owned_def empty_vm_node split: if_splits)
  define m1 where "m1 = (mem t)(0x87FFB000 := 97, 0x87FFB001 := 0)"
  have vm: "stack_vm = t\<lparr>mem := m1\<rparr>" using m(1) by (simp add: stack_vm_def m1_def)
  have frame: "m1 x = mem t x" if "\<not> in_region 0x87FFB000 4096 x" for x
    using that by (auto simp: m1_def in_region_def)
  have inv: "vm_inv t ?r ys" and b: "page_aligned 0x87FFB000" "0x87FFB000 \<notin> owned (mem t) ?r ys"
    using m(2) own by (auto simp: vm_ext_def page_aligned_def)
  note w = user_page_write_nodes(3) [OF inv b frame] user_page_write_map [OF inv b frame]
  have "user_sep (mem t) ?r ys" using own by (auto simp: user_sep_def tr split: if_splits)
  then have sep: "user_sep m1 ?r ys" using w(4) by blast
  have "PGROUNDDOWN x = 0x1000 \<and> x < MAXVA" if "4096 \<le> unat x" "unat x < 4096 + 4096" for x
  proof -
    have "unat (PGROUNDDOWN x) = unat (0x1000 :: u64)" using that by (simp add: unat_PGROUNDDOWN)
    then show ?thesis using that by (simp add: word_unat_eq_iff word_less_nat_alt)
  qed
  then have "\<forall>x. 4096 \<le> unat x \<and> unat x < 4096 + 4096 \<longrightarrow> user_byte m1 ?r x \<noteq> None"
    by (auto simp: user_byte_def w(2) tr Let_def word_less_nat_alt)
  then have "stack_ok stack_vm ?r ys 0x1000" using w(1) sep by (simp add: vm stack_ok_def)
  moreover have "kernel_only m1 ?r (0x87FFB000 + of_nat j)" if "j \<le> 1" for j
  proof -
    have "\<not> in_region 0x87FFC000 4096 (0x87FFB000 + of_nat j)" using that by (cases j) (auto simp: in_region_def)
    then show ?thesis by (auto simp: kernel_only_def w(2) tr)
  qed
  then have "list_all2 (kernel_str (mem stack_vm) ?r) [0x87FFB000] [[97]]"
    using le_Suc_eq by (auto simp: vm kernel_str_def m1_def)
  ultimately show thesis by (rule that)
qed

subsection \<open>Property\<close>

lemma push_argv_tail:
  assumes "push_args pt base argv hi0 [] s = Done (Some (sp, us)) t" and "stack_ok t pt fl base"
    and "unat base \<le> unat sp" and "unat sp \<le> unat base + 4096" and "8 * length us \<le> 4096"
    and "placed (mem t) pt (unat sp) hi ps bss" and "hi < 2 ^ 64"
  shows "\<exists>r u. push_argv pt base argv hi0 s = Done r u \<and> stack_ok u pt fl base
    \<and> (\<forall>x. \<not> (unat base \<le> unat x \<and> unat x < unat sp) \<longrightarrow> user_byte (mem u) pt x = user_byte (mem t) pt x)
    \<and> (case r of None \<Rightarrow> unat sp < unat base + 8 * length us + 15
       | Some q \<Rightarrow> unat base \<le> unat q \<and> unat q mod 16 = 0 \<and> placed (mem u) pt (unat q + 8 * length us) hi ps bss
           \<and> (\<forall>i < length us. user_str (mem u) pt (q + 8 * of_nat i) (u64_bytes (us ! i))))"
proof -
  define q where "q = down (8 * length us) sp"
  have qd: "sp - of_nat (length us) * 8 - (sp - of_nat (length us) * 8) mod 16 = q"
    by (simp add: q_def down_def algebra_simps)
  have run: "push_argv pt base argv hi0 s = (if q < base then Done None t
      else kbind (copyout pt q (concat (map u64_bytes us))) (\<lambda>r. kret (if r < 0 then None else Some q)) t)"
    by (simp only: push_argv_def kbind_run assms(1) outcome.case option.case prod.case Let_def qd) (simp add: kbind_run)
  note a = push_argv_array [OF assms(2-7), folded q_def]
  show ?thesis
  proof (cases "q < base")
    case True
    then show ?thesis using run a assms(2) by (intro exI [of _ "None :: u64 option"] exI [of _ t]) simp
  next
    case False
    have "unat base \<le> unat q" "unat q mod 16 = 0"
      using False down_bounds(4) [of "8 * length us" sp] assms(2,3,5) by (simp_all add: word_less_nat_alt q_def stack_ok_def)
    with False a run show ?thesis by (auto simp: kbind_run not_less)
  qed
qed

text \<open>
  C15 (functional). The stack that \<open>exec\<close> builds for \<open>main(argc, argv)\<close>: the stack pointer is a multiple of 16 inside the stack
  page, at it lies an array of \<open>argc\<close> pointers and a null pointer, and pointer \<open>i\<close> points to a copy of argument string \<open>i\<close>
  with its terminating zero, above the array and inside the page; the strings do not overwrite each other or the array, and no
  user byte outside the page changes. \<open>exec\<close> fails for lack of space only if the strings, each with up to 16 bytes
  of terminator and alignment, and the array do not fit into the page.
\<close>

theorem exec_argv_layout:
  assumes "stack_ok s pt fl base" and "list_all2 (kernel_str (mem s) pt) argv bss"
    and "\<forall>b \<in> set bss. length b < 4096" and "length argv < MAXARG"
  shows "\<exists>r t. push_argv pt base argv (base + PGSIZE) s = Done r t \<and> stack_ok t pt fl base
    \<and> (\<forall>x. \<not> (unat base \<le> unat x \<and> unat x < unat base + 4096) \<longrightarrow> user_byte (mem t) pt x = user_byte (mem s) pt x)
    \<and> (case r of None \<Rightarrow> 4096 < args_size bss + 8 * (length argv + 1) + 15
       | Some sp \<Rightarrow> unat base \<le> unat sp \<and> unat sp mod 16 = 0
           \<and> (\<exists>ps. placed (mem t) pt (unat sp + 8 * (length argv + 1)) (unat base + 4096) ps bss
               \<and> (\<forall>i \<le> length argv. user_str (mem t) pt (sp + 8 * of_nat i) (u64_bytes ((ps @ [0]) ! i)))))"
proof -
  let ?top = "base + PGSIZE"
  have lim: "unat base + 4096 < 2 ^ 64" using assms(1) by (simp add: stack_ok_def)
  have top: "unat ?top = unat base + 4096" using unat_add_small [of base 4096] lim by simp
  obtain r t where t: "push_args pt base argv ?top [] s = Done r t" "stack_ok t pt fl base" "only_user pt (mem s) (mem t)"
    "pushed pt base bss ?top [] (mem s) r (mem t)"
    using push_args_spec [OF assms(1-3), of ?top "[]"] assms(4) top by auto
  show ?thesis
  proof (cases r)
    case None
    then have "push_argv pt base argv ?top s = Done None t" using t(1) by (simp add: push_argv_def kbind_run)
    then show ?thesis using t(2,4) None top by (auto simp: pushed_def)
  next
    case (Some z)
    obtain sp ps where z: "z = (sp, ps @ [0])" "placed (mem t) pt (unat sp) (unat base + 4096) ps bss" "unat base \<le> unat sp"
      "unat sp \<le> unat base + 4096" "unat base + 4096 \<le> unat sp + args_size bss"
      "\<And>x. \<not> (unat sp \<le> unat x \<and> unat x < unat base + 4096) \<Longrightarrow> user_byte (mem t) pt x = user_byte (mem s) pt x"
      using t(4) Some top by (cases z) (auto simp: pushed_def)
    have ps: "length ps = length argv" using z(2) assms(2) by (auto simp: placed_def dest!: list_all2_lengthD)
    have "8 * length (ps @ [0]) \<le> 4096" using assms(4) ps by (simp add: MAXARG_def)
    then obtain v u where u: "push_argv pt base argv ?top s = Done v u" "stack_ok u pt fl base"
      "\<And>x. \<not> (unat base \<le> unat x \<and> unat x < unat sp) \<Longrightarrow> user_byte (mem u) pt x = user_byte (mem t) pt x"
      "case v of None \<Rightarrow> unat sp < unat base + 8 * length (ps @ [0]) + 15
       | Some q \<Rightarrow> unat base \<le> unat q \<and> unat q mod 16 = 0 \<and> placed (mem u) pt (unat q + 8 * length (ps @ [0])) (unat base + 4096) ps bss
           \<and> (\<forall>i < length (ps @ [0]). user_str (mem u) pt (q + 8 * of_nat i) (u64_bytes ((ps @ [0]) ! i)))"
      using push_argv_tail [OF t(1) [unfolded Some z(1)] t(2) z(3,4) _ z(2) lim] by blast
    have "\<forall>x. \<not> (unat base \<le> unat x \<and> unat x < unat base + 4096) \<longrightarrow> user_byte (mem u) pt x = user_byte (mem s) pt x"
      using u(3) z(3,4,6) by auto
    then show ?thesis using u(1,2,4) z(5) ps by (auto split: option.splits)
  qed
qed

theorem exec_argv_layout_witness:
  "\<exists>sp t p. push_argv 0x87FFD000 0x1000 [0x87FFB000] 0x2000 stack_vm = Done (Some sp) t \<and> unat sp mod 16 = 0
     \<and> user_str (mem t) 0x87FFD000 sp (u64_bytes p) \<and> user_str (mem t) 0x87FFD000 p [97, 0]"
proof -
  obtain ys where ok: "stack_ok stack_vm 0x87FFD000 ys 0x1000"
    "list_all2 (kernel_str (mem stack_vm) 0x87FFD000) [0x87FFB000] [[97]]"
    using stack_vm_ok by blast
  obtain r t where r: "push_argv 0x87FFD000 0x1000 [0x87FFB000] 0x2000 stack_vm = Done r t"
    "case r of None \<Rightarrow> 4096 < args_size [[97]] + 8 * (length [0x87FFB000 :: u64] + 1) + 15
       | Some sp \<Rightarrow> unat (0x1000 :: u64) \<le> unat sp \<and> unat sp mod 16 = 0
           \<and> (\<exists>ps. placed (mem t) 0x87FFD000 (unat sp + 8 * (length [0x87FFB000 :: u64] + 1)) (unat (0x1000 :: u64) + 4096) ps [[97]]
               \<and> (\<forall>i \<le> length [0x87FFB000 :: u64]. user_str (mem t) 0x87FFD000 (sp + 8 * of_nat i) (u64_bytes ((ps @ [0]) ! i))))"
    using exec_argv_layout [OF ok] by (auto simp: MAXARG_def)
  show ?thesis
  proof (cases r)
    case None
    then show ?thesis using r(2) by (simp add: args_size_def)
  next
    case (Some sp)
    then obtain ps where ps: "placed (mem t) 0x87FFD000 (unat sp + 16) (4096 + 4096) ps [[97]]" "unat sp mod 16 = 0"
      "user_str (mem t) 0x87FFD000 (sp + 8 * of_nat 0) (u64_bytes ((ps @ [0]) ! 0))"
      using r(2) by fastforce
    then obtain p where "ps = [p]" "user_str (mem t) 0x87FFD000 p [97, 0]" by (auto simp: placed_def list_all2_Cons2)
    then show ?thesis using r(1) Some ps(2,3) by auto
  qed
qed

end
