(* ===== verification/Sysproc.thy ===== *)
theory Sysproc
  imports Exec
begin

text \<open>
  \<^verbatim>\<open>kernel/sysproc.c\<close> and the dispatcher \<open>syscall\<close> of \<^verbatim>\<open>kernel/syscall.c\<close>. The state gets the clock
  \<open>ticks\<close> of \<^verbatim>\<open>kernel/trap.c\<close>.
\<close>

record kclock = kprint +
  ticks :: u32

subsection \<open>Process system calls\<close>

definition sys_exit :: "('z kfile_scheme, u64) kop" where
  "sys_exit = kbind (argint 0) exit"

definition sys_getpid :: "('z kproc_scheme, u64) kop" where
  "sys_getpid = with_myproc (\<lambda>p. kbind (pget p p_pid) (\<lambda>pid. kret (word_of_int pid)))"

definition sys_fork :: "('z kfile_scheme, u64) kop" where
  "sys_fork = kbind fork (\<lambda>r. kret (word_of_int r))"

definition sys_wait :: "('z kproc_scheme, u64) kop" where
  "sys_wait = kbind (argaddr 0) (\<lambda>p. kbind (wait p) (\<lambda>r. kret (word_of_int r)))"

definition sys_sbrk :: "('z kproc_scheme, u64) kop" where
  "sys_sbrk =
     kbind (argint 0) (\<lambda>n.
     with_myproc (\<lambda>p. kbind (pget p sz) (\<lambda>addr.
     kbind (growproc n) (\<lambda>r. kret (if r < 0 then err else addr)))))"

text \<open>
  The loop of \<open>sys_sleep\<close>, with \<open>tickslock\<close> held. The comparison is unsigned: a negative \<open>n\<close> is a large number.
\<close>

definition sys_sleep_loop :: "u32 \<Rightarrow> u32 \<Rightarrow> ('z kclock_scheme, u64) kop" where
  "sys_sleep_loop ticks0 n = (\<lambda>s.
     if ticks s - ticks0 < n
     then with_myproc (\<lambda>p. kbind (killed p) (\<lambda>k.
       if k \<noteq> 0 then kseq (release TicksLock) (kret err)
       else sleep TicksChan TicksLock)) s
     else (kseq (release TicksLock) (kret 0)) s)"

definition sys_sleep :: "('z kclock_scheme, u64) kop" where
  "sys_sleep =
     kbind (argint 0) (\<lambda>n.
     kseq (acquire TicksLock)
     (kbind (kget ticks) (\<lambda>ticks0. sys_sleep_loop ticks0 (word_of_int n))))"

definition sys_kill :: "('z kproc_scheme, u64) kop" where
  "sys_kill = kbind (argint 0) (\<lambda>pid. kbind (kill pid) (\<lambda>r. kret (word_of_int r)))"

definition sys_uptime :: "('z kclock_scheme, u64) kop" where
  "sys_uptime =
     kseq (acquire TicksLock)
     (kbind (kget ticks) (\<lambda>xticks.
     kseq (release TicksLock)
     (kret (ucast xticks))))"

definition sys_spoon :: "('z kproc_scheme, u64) kop" where
  "sys_spoon = kbind (argaddr 0) (\<lambda>addr. kbind (spoon addr) (\<lambda>r. kret (word_of_int r)))"

definition sys_thread_create :: "('z kfile_scheme, u64) kop" where
  "sys_thread_create =
     kbind (argaddr 0) (\<lambda>start.
     kbind (argaddr 1) (\<lambda>addr.
     kbind (thread_create start addr) (\<lambda>r. kret (word_of_int r))))"

text \<open>\<open>thread_join\<close> takes an \<open>int\<close>, the argument is truncated.\<close>

definition sys_thread_join :: "('z kproc_scheme, u64) kop" where
  "sys_thread_join = kbind (argaddr 0) (\<lambda>id.
     kbind (thread_join (sint (ucast id :: u32))) (\<lambda>r. kret (word_of_int r)))"

definition sys_thread_exit :: "('z kfile_scheme, u64) kop" where
  "sys_thread_exit = thread_exit"

definition sys_getfamily :: "('z kproc_scheme, u64) kop" where
  "sys_getfamily = kbind getfamily (\<lambda>r. kret (word_of_int r))"

definition sys_getstatus :: "('z kproc_scheme, u64) kop" where
  "sys_getstatus = kbind getstatus (\<lambda>r. kret (word_of_int r))"

subsection \<open>Dispatch\<close>

text \<open>The table \<open>syscalls[]\<close>, indexed by the numbers of \<^verbatim>\<open>kernel/syscall.h\<close>; \<open>pad\<close> as in \<open>sys_fstat\<close>.\<close>

definition syscalls :: "u8 list \<Rightarrow> ('z kclock_scheme, u64) kop option list" where
  "syscalls pad =
     [None, Some sys_fork, Some sys_exit, Some sys_wait, Some sys_pipe, Some sys_read, Some sys_kill, Some sys_exec,
      Some (sys_fstat pad), Some sys_chdir, Some sys_dup, Some sys_getpid, Some sys_sbrk, Some sys_sleep, Some sys_uptime,
      Some sys_open, Some sys_write, Some sys_mknod, Some sys_unlink, Some sys_link, Some sys_mkdir, Some sys_close,
      Some sys_spoon, Some sys_thread_create, Some sys_thread_join, Some sys_thread_exit, Some sys_getfamily,
      Some sys_getstatus]"

definition syscall :: "u8 list \<Rightarrow> ('z kclock_scheme, unit) kop" where
  "syscall pad = with_myproc (\<lambda>p.
     kbind (tf_get p tf_a7) (\<lambda>a7.
     let num = sint (ucast a7 :: u32) in
     case (if 0 < num \<and> num < int (length (syscalls pad :: ('z kclock_scheme, u64) kop option list))
           then syscalls pad ! nat num else None) of
       Some f \<Rightarrow> kbind f (tf_set p tf_a0)
     | None \<Rightarrow>
         kbind (pget p id) (\<lambda>x.
         kseq (printf (''%d %s: unknown sys call %d'' @ [CHR 0x0A]) [ArgInt (p_pid x), ArgStr (Some (p_name x)), ArgInt num])
         (tf_set p tf_a0 err))))"

end
