(* ===== verification/Trap.thy ===== *)
theory Trap
  imports Sysproc
begin

text \<open>
  \<^verbatim>\<open>kernel/trap.c\<close> and \<^verbatim>\<open>kernel/plic.c\<close>. The control registers of a hart are a record; the interrupt-enable bit of
  \<open>sstatus\<close> stays in the record \<open>cpu\<close>, and \<open>csr_sstatus\<close> is the rest of the register. The interrupt controller is its enable
  bits, the interrupts it has pending for a hart, and the interrupts that were completed; \<open>virtio_regs\<close> is what the disk device answers
  when a register is read. A routine that
  returns to user space returns the argument of \<open>userret\<close>.
\<close>

record csrs =
  csr_scause :: u64
  csr_sepc :: u64
  csr_stval :: u64
  csr_stvec :: u64
  csr_sstatus :: u64
  csr_sip :: u64

record ktrap = kclock +
  csr :: "nat \<Rightarrow> csrs"
  plic_priority :: "nat \<Rightarrow> u32"
  plic_enable :: "nat \<Rightarrow> u32"
  plic_threshold :: "nat \<Rightarrow> u32"
  plic_pending :: "nat \<Rightarrow> u32 list"
  plic_done :: "(nat \<times> u32) list"
  virtio_regs :: "u64 \<Rightarrow> u32"
  sym_kernelvec :: u64
  sym_uservec :: u64
  sym_userret :: u64
  sym_usertrap :: u64

abbreviation (input) SSTATUS_SPP :: u64 where "SSTATUS_SPP \<equiv> 0x100"
abbreviation (input) SSTATUS_SPIE :: u64 where "SSTATUS_SPIE \<equiv> 0x20"
abbreviation (input) UART0_IRQ :: nat where "UART0_IRQ \<equiv> 10"
abbreviation (input) VIRTIO0_IRQ :: nat where "VIRTIO0_IRQ \<equiv> 1"

definition r_csr :: "(csrs \<Rightarrow> 'a) \<Rightarrow> ('z ktrap_scheme, 'a) kop" where
  "r_csr f = kget (\<lambda>s. f (csr s (hart s)))"

definition w_csr :: "(csrs \<Rightarrow> csrs) \<Rightarrow> ('z ktrap_scheme, unit) kop" where
  "w_csr f = kmod (\<lambda>s. s\<lparr>csr := (csr s)(hart s := f (csr s (hart s)))\<rparr>)"

subsection \<open>The interrupt controller\<close>

definition plicinit :: "('z ktrap_scheme, unit) kop" where
  "plicinit = kmod (\<lambda>s. s\<lparr>plic_priority := (plic_priority s)(UART0_IRQ := 1, VIRTIO0_IRQ := 1)\<rparr>)"

definition plicinithart :: "('z ktrap_scheme, unit) kop" where
  "plicinithart = kmod (\<lambda>s. s\<lparr>plic_enable := (plic_enable s)(cpuid s := push_bit UART0_IRQ 1 OR push_bit VIRTIO0_IRQ 1),
     plic_threshold := (plic_threshold s)(cpuid s := 0)\<rparr>)"

text \<open>Reading the claim register takes the next pending interrupt, 0 when there is none.\<close>

definition plic_claim :: "('z ktrap_scheme, u32) kop" where
  "plic_claim = (\<lambda>s. case plic_pending s (cpuid s) of
       [] \<Rightarrow> Done 0 s
     | irq # irqs \<Rightarrow> Done irq (s\<lparr>plic_pending := (plic_pending s)(cpuid s := irqs)\<rparr>))"

definition plic_complete :: "u32 \<Rightarrow> ('z ktrap_scheme, unit) kop" where
  "plic_complete irq = kmod (\<lambda>s. s\<lparr>plic_done := plic_done s @ [(cpuid s, irq)]\<rparr>)"

subsection \<open>Interrupts\<close>

definition trapinit :: "('z ktrap_scheme, unit) kop" where
  "trapinit = initlock TicksLock ''time''"

definition trapinithart :: "('z ktrap_scheme, unit) kop" where
  "trapinithart = kbind (kget sym_kernelvec) (\<lambda>v. w_csr (\<lambda>c. c\<lparr>csr_stvec := v\<rparr>))"

definition clockintr :: "('z kclock_scheme, unit) kop" where
  "clockintr =
     kseq (acquire TicksLock)
     (kseq (kmod (\<lambda>s. s\<lparr>ticks := ticks s + 1\<rparr>))
     (kseq (wakeup TicksChan)
     (release TicksLock)))"

definition newline :: string where
  "newline = [CHR 0x0A]"

definition devintr :: "('z ktrap_scheme, int) kop" where
  "devintr =
     kbind (r_csr csr_scause) (\<lambda>scause.
       if scause AND 0x8000000000000000 \<noteq> 0 \<and> scause AND 0xff = 9
       then kbind plic_claim (\<lambda>irq.
         kseq (if irq = of_nat UART0_IRQ then uartintr
               else if irq = of_nat VIRTIO0_IRQ then kbind (kget (\<lambda>s. virtio_regs s 0x60)) virtio_disk_intr
               else kwhen (irq \<noteq> 0) (printf (''unexpected interrupt irq=%d'' @ newline) [ArgInt (sint irq)]))
         (kseq (kwhen (irq \<noteq> 0) (plic_complete irq))
         (kret 1)))
       else if scause = 0x8000000000000001
       then kbind (kget cpuid) (\<lambda>id.
         kseq (kwhen (id = 0) clockintr)
         (kseq (w_csr (\<lambda>c. c\<lparr>csr_sip := csr_sip c AND NOT 2\<rparr>))
         (kret 2)))
       else kret 0)"

subsection \<open>Traps from and to user space\<close>

definition usertrapret :: "('z ktrap_scheme, u64) kop" where
  "usertrapret = with_myproc (\<lambda>p.
     kseq intr_off
     (kbind (kget (\<lambda>s. TRAMPOLINE + (sym_uservec s - sym_trampoline s))) (\<lambda>uservec.
     kseq (w_csr (\<lambda>c. c\<lparr>csr_stvec := uservec\<rparr>))
     (kbind (kget (\<lambda>s. satp s (hart s))) (\<lambda>ksatp.
     kseq (tf_set p tf_kernel_satp ksatp)
     (kbind (pget p kstack) (\<lambda>ks.
     kseq (tf_set p tf_kernel_sp (ks + PGSIZE))
     (kbind (kget sym_usertrap) (\<lambda>ut.
     kseq (tf_set p tf_kernel_trap ut)
     (kbind (kget hart) (\<lambda>h.
     kseq (tf_set p tf_kernel_hartid (of_nat h))
     (kseq (w_csr (\<lambda>c. c\<lparr>csr_sstatus := (csr_sstatus c AND NOT SSTATUS_SPP) OR SSTATUS_SPIE\<rparr>))
     (kbind (tf_get p tf_epc) (\<lambda>epc.
     kseq (w_csr (\<lambda>c. c\<lparr>csr_sepc := epc\<rparr>))
     (kbind (pget p pagetable) (\<lambda>pt.
     kret (MAKE_SATP pt)))))))))))))))))"

text \<open>The end of \<open>usertrap\<close>, after the cause has been dealt with.\<close>

definition usertrap_end :: "nat \<Rightarrow> int \<Rightarrow> ('z ktrap_scheme, u64) kop" where
  "usertrap_end p which_dev =
     kbind (killed p) (\<lambda>k.
     kseq (kwhen (k \<noteq> 0) (exit (- 1)))
     (kseq (kwhen (which_dev = 2) yield)
     usertrapret))"

text \<open>\<open>pad\<close> as in \<open>sys_fstat\<close>.\<close>

definition usertrap :: "u8 list \<Rightarrow> ('z ktrap_scheme, u64) kop" where
  "usertrap pad =
     kbind (r_csr csr_sstatus) (\<lambda>st.
       if st AND SSTATUS_SPP \<noteq> 0 then kpanic ''usertrap: not from user mode''
       else
         kbind (kget sym_kernelvec) (\<lambda>v.
         kseq (w_csr (\<lambda>c. c\<lparr>csr_stvec := v\<rparr>))
         (with_myproc (\<lambda>p.
         kbind (r_csr csr_sepc) (\<lambda>pc.
         kseq (tf_set p tf_epc pc)
         (kbind (r_csr csr_scause) (\<lambda>cause.
            if cause = 8 then
              kbind (killed p) (\<lambda>k.
              kseq (kwhen (k \<noteq> 0) (exit (- 1)))
              (kbind (tf_get p tf_epc) (\<lambda>epc.
              kseq (tf_set p tf_epc (epc + 4))
              (kseq intr_on
              (kseq (syscall pad)
              (usertrap_end p 0))))))
            else kbind devintr (\<lambda>which_dev.
              if which_dev \<noteq> 0 then usertrap_end p which_dev
              else
                kbind (r_csr id) (\<lambda>c.
                kbind (pget p p_pid) (\<lambda>pid.
                kseq (printf (''usertrap(): unexpected scause %p pid=%d'' @ newline) [ArgPtr (csr_scause c), ArgInt pid])
                (kseq (printf (''            sepc=%p stval=%p'' @ newline) [ArgPtr (csr_sepc c), ArgPtr (csr_stval c)])
                (kseq (setkilled p)
                (usertrap_end p 0)))))))))))))"

text \<open>The first return of a new process and of a new thread.\<close>

definition forkret_user :: "('z ktrap_scheme, unit) kop" where
  "forkret_user = forkret (kbind usertrapret (\<lambda>_. kret ()))"

definition threadret_user :: "('z ktrap_scheme, unit) kop" where
  "threadret_user = threadret (kbind usertrapret (\<lambda>_. kret ()))"

subsection \<open>Traps from the kernel\<close>

text \<open>
  What follows \<open>yield\<close> in \<open>kerneltrap\<close>. \<open>w_sstatus\<close> also clears the interrupt-enable bit, which was clear on entry.
\<close>

definition kerneltrap_end :: "u64 \<Rightarrow> u64 \<Rightarrow> ('z ktrap_scheme, unit) kop" where
  "kerneltrap_end sepc sstatus =
     kseq (w_csr (\<lambda>c. c\<lparr>csr_sepc := sepc\<rparr>))
     (kseq (w_csr (\<lambda>c. c\<lparr>csr_sstatus := sstatus\<rparr>)) intr_off)"

definition kerneltrap :: "('z ktrap_scheme, unit) kop" where
  "kerneltrap =
     kbind (r_csr id) (\<lambda>c.
     kbind (kget myproc) (\<lambda>p.
       if csr_sstatus c AND SSTATUS_SPP = 0 then kpanic ''kerneltrap: not from supervisor mode''
       else kbind (kget intr_get) (\<lambda>on.
         if on then kpanic ''kerneltrap: interrupts enabled''
         else kbind devintr (\<lambda>which_dev.
           if which_dev = 0
           then kbind (case p of None \<Rightarrow> kret (- 1) | Some q \<Rightarrow> pget q p_pid) (\<lambda>pid.
             kseq (printf (''scause %p pid=%d'' @ newline) [ArgPtr (csr_scause c), ArgInt pid])
             (kseq (printf (''sepc=%p stval=%p'' @ newline) [ArgPtr (csr_sepc c), ArgPtr (csr_stval c)])
             (kpanic ''kerneltrap'')))
           else kbind (kget (\<lambda>s. case myproc s of None \<Rightarrow> False | Some q \<Rightarrow> p_state (procs s q) = RUNNING)) (\<lambda>running.
             kseq (kwhen (which_dev = 2 \<and> running) yield)
             (kerneltrap_end (csr_sepc c) (csr_sstatus c)))))))"

subsection \<open>Start of the kernel\<close>

text \<open>
  \<open>main\<close> of \<^verbatim>\<open>kernel/main.c\<close> up to \<open>scheduler\<close>: on hart 0, and on the other harts once \<open>started\<close> is set.
\<close>

definition main_first :: "('z ktrap_scheme, unit) kop" where
  "main_first =
     kseq consoleinit
     (kseq printfinit
     (kseq (printf newline [])
     (kseq (printf (''xv6 kernel is booting'' @ newline) [])
     (kseq (printf newline [])
     (kseq kinit
     (kseq kvminit
     (kseq kvminithart
     (kseq procinit
     (kseq trapinit
     (kseq trapinithart
     (kseq plicinit
     (kseq plicinithart
     (kseq binit
     (kseq iinit
     (kseq fileinit
     (kseq (kbind (kget virtio_regs) virtio_disk_init)
     (kseq userinit
     scheduler_init)))))))))))))))))"

definition main_other :: "('z ktrap_scheme, unit) kop" where
  "main_other =
     kbind (kget cpuid) (\<lambda>id.
     kseq (printf (''hart %d starting'' @ newline) [ArgInt (int id)])
     (kseq kvminithart
     (kseq trapinithart
     (kseq plicinithart
     scheduler_init))))"

end
