(* ===== verification/Clock.thy ===== *)
theory Clock
  imports Trap Pipe_Fifo
begin

text \<open>
  The clock from end to end: a timer interrupt taken by the idle loop of the scheduler, the processes it wakes, and
  \<open>sys_sleep\<close> run across such interrupts until it returns.
\<close>

subsection \<open>States between two interrupts\<close>

text \<open>Hart 0 in the scheduler, and hart 0 running process \<open>p\<close> in the kernel, with no spinlock taken anywhere.\<close>

definition hart_idle :: "'z ktrap_scheme \<Rightarrow> bool" where
  "hart_idle s \<longleftrightarrow> hart s = 0 \<and> myproc s = None \<and> noff (mycpu s) = 0 \<and> sie (mycpu s)
     \<and> (\<forall>l. lock_free l s \<and> lk_cpu (locks s l) = None)"

definition hart_runs :: "nat \<Rightarrow> 'z ktrap_scheme \<Rightarrow> bool" where
  "hart_runs p s \<longleftrightarrow> hart s = 0 \<and> machine_ok s \<and> myproc s = Some p \<and> noff (mycpu s) = 0 \<and> sie (mycpu s)
     \<and> (\<forall>l. lock_free l s)"

text \<open>
  The hart takes the software interrupt of the timer at \<open>pc\<close>: the cause is recorded, the interrupt-enable bit moves to
  \<open>SPIE\<close>, and the privilege is kept in \<open>SPP\<close>. \<open>kernelvec\<close> calls \<open>kerneltrap\<close> and returns with \<open>sret\<close>, which moves the
  bit back.
\<close>

definition trap_enter :: "u64 \<Rightarrow> 'z ktrap_scheme \<Rightarrow> 'z ktrap_scheme" where
  "trap_enter pc s =
     (set_mycpu ((mycpu s)\<lparr>sie := False\<rparr>) s)
     \<lparr>csr := (csr s)(hart s := (csr s (hart s))\<lparr>csr_scause := 0x8000000000000001, csr_sepc := pc,
       csr_sstatus := (csr_sstatus (csr s (hart s)) AND NOT SSTATUS_SPIE) OR SSTATUS_SPP
         OR (if sie (mycpu s) then SSTATUS_SPIE else 0)\<rparr>)\<rparr>"

definition trap_leave :: "'z ktrap_scheme \<Rightarrow> 'z ktrap_scheme" where
  "trap_leave s = set_mycpu ((mycpu s)\<lparr>sie := csr_sstatus (csr s (hart s)) AND SSTATUS_SPIE \<noteq> 0\<rparr>) s"

definition timer_trap :: "u64 \<Rightarrow> ('z ktrap_scheme, unit) kop" where
  "timer_trap pc = kseq (kmod (trap_enter pc)) (kseq kerneltrap (kmod trap_leave))"

subsection \<open>The clock and the critical sections\<close>

lemma ktrap_hold [simp]:
  "ticks (hold l s) = ticks s" "ticks (unhold l s) = ticks s"
  "csr (hold l s') = csr s'" "csr (unhold l s') = csr s'"
  "hold l (ticks_update f s) = ticks_update f (hold l s)"
  "unhold l (ticks_update f s) = ticks_update f (unhold l s)"
  "ptable_free (ticks_update f s) = ptable_free s"
  "holding l (ticks_update f s) = holding l s" "machine_ok (ticks_update f s) = machine_ok s"
  "mycpu (ticks_update f s) = mycpu s" "myproc (ticks_update f s) = myproc s"
  "procs (ticks_update f s) = procs s"
  by (simp_all add: hold_def unhold_def ptable_free_def machine_ok_def holding_def myproc_def cpu_defs)

text \<open>
  In an interrupt handler \<open>intena\<close> need not agree with the interrupt-enable bit, so \<open>machine_ok\<close> may fail; it holds again
  once a lock is taken.
\<close>

lemma machine_ok_hold0:
  assumes "noff (mycpu s) = 0" and "\<forall>l. lk_cpu (locks s l) = None"
  shows "machine_ok (hold l s)"
  using assms by (auto simp: machine_ok_def hold_def cpu_defs)

lemma clockintr_run:
  assumes "noff (mycpu s) = 0" and "myproc s = None" and "\<forall>l. lock_free l s \<and> lk_cpu (locks s l) = None"
  shows "clockintr s = Done () (unhold TicksLock (hold TicksLock
    (s\<lparr>ticks := ticks s + 1, procs := (\<lambda>i. if i < NPROC then wake TicksChan (procs s i) else procs s i)\<rparr>)))"
proof -
  let ?h = "hold TicksLock s"
  let ?t = "?h\<lparr>ticks := ticks s + 1\<rparr>"
  have "ptable_free ?t"
    using assms machine_ok_hold0 [of s TicksLock] by (simp add: ptable_free_def)
  note w = wakeup_run [OF this, of TicksChan]
  have "release TicksLock (procs_update f ?t) = Done () (unhold TicksLock (procs_update f ?t))" for f
    using assms(1) by (intro release_ok) simp_all
  then show ?thesis
    using assms by (simp add: clockintr_def kseq_run acquire_ok kmod_def w cong: if_cong)
qed

text \<open>
  A timer interrupt of the idle hart: one more tick, everybody who sleeps on \<open>ticks\<close> is runnable, and the hart is idle
  again with interrupts on.
\<close>

lemma trap_enter_simps [simp]:
  "hart (trap_enter pc s) = hart s" "myproc (trap_enter pc s) = myproc s" "noff (mycpu (trap_enter pc s)) = noff (mycpu s)"
  "\<not> sie (mycpu (trap_enter pc s))" "locks (trap_enter pc s) = locks s" "ticks (trap_enter pc s) = ticks s"
  "procs (trap_enter pc s) = procs s" "csr_scause (csr (trap_enter pc s) (hart s)) = 0x8000000000000001"
  by (simp_all add: trap_enter_def myproc_def cpu_defs)

lemma spp_spie_bits:
  "((x AND NOT SSTATUS_SPIE) OR SSTATUS_SPP OR SSTATUS_SPIE) AND SSTATUS_SPP \<noteq> 0"
  "((x AND NOT SSTATUS_SPIE) OR SSTATUS_SPP OR SSTATUS_SPIE) AND SSTATUS_SPIE \<noteq> 0"
  for x :: u64
proof -
  let ?y = "(x AND NOT SSTATUS_SPIE) OR SSTATUS_SPP OR SSTATUS_SPIE"
  have "bit (?y AND SSTATUS_SPP) 8" "bit (?y AND SSTATUS_SPIE) 5"
    by (simp_all add: bit_and_iff bit_or_iff bit_not_iff bit_simps)
  then show "?y AND SSTATUS_SPP \<noteq> 0" "?y AND SSTATUS_SPIE \<noteq> 0" by auto
qed

lemma devintr_timer:
  assumes "csr_scause (csr s 0) = 0x8000000000000001" and "hart s = 0" and "clockintr s = Done () t" and "hart t = 0"
  shows "devintr s = Done 2 (t\<lparr>csr := (csr t)(0 := (csr t 0)\<lparr>csr_sip := csr_sip (csr t 0) AND NOT 2\<rparr>)\<rparr>)"
  using assms
  by (simp add: devintr_def r_csr_def w_csr_def kbind_run kseq_run kwhen_def cpuid_def kmod_def)

lemma kerneltrap_timer:
  assumes "csr_scause (csr s 0) = 0x8000000000000001" and "hart s = 0" and "myproc s = None" and "\<not> sie (mycpu s)"
    and "csr_sstatus (csr s 0) AND SSTATUS_SPP \<noteq> 0"
    and "clockintr s = Done () t" and "hart t = 0" and "myproc t = None"
  shows "kerneltrap s = Done () (set_mycpu ((mycpu t)\<lparr>sie := False\<rparr>)
    (t\<lparr>csr := (csr t)(0 := (csr t 0)\<lparr>csr_sip := csr_sip (csr t 0) AND NOT 2, csr_sepc := csr_sepc (csr s 0),
      csr_sstatus := csr_sstatus (csr s 0)\<rparr>)\<rparr>))"
  using assms devintr_timer [OF assms(1,2,6,7)]
  by (simp add: kerneltrap_def kerneltrap_end_def r_csr_def w_csr_def kbind_run kseq_run kwhen_def intr_get_def
      intr_off_def kmod_def myproc_def cpu_defs)

lemma timer_trap_run:
  assumes "hart_idle s"
  shows "\<exists>t. timer_trap pc s = Done () t \<and> hart_idle t \<and> ticks t = ticks s + 1
    \<and> procs t = (\<lambda>i. if i < NPROC then wake TicksChan (procs s i) else procs s i)"
proof -
  let ?e = "trap_enter pc s"
  let ?P = "\<lambda>i. if i < NPROC then wake TicksChan (procs s i) else procs s i"
  let ?c = "unhold TicksLock (hold TicksLock (?e\<lparr>ticks := ticks s + 1, procs := ?P\<rparr>))"
  have i: "hart s = 0" "myproc s = None" "noff (mycpu s) = 0" "sie (mycpu s)"
    "\<forall>l. lock_free l s \<and> lk_cpu (locks s l) = None"
    using assms by (simp_all add: hart_idle_def)
  have c: "clockintr ?e = Done () ?c"
    using clockintr_run [of ?e] i by (simp cong: if_cong)
  have st: "csr_sstatus (csr ?e 0) = (csr_sstatus (csr s 0) AND NOT SSTATUS_SPIE) OR SSTATUS_SPP OR SSTATUS_SPIE"
    using i by (simp add: trap_enter_def)
  have t: "hart ?c = 0" "myproc ?c = None" "csr ?c 0 = csr ?e 0" using i by simp_all
  have sc: "csr_scause (csr ?e 0) = 0x8000000000000001" using trap_enter_simps(8) [of pc s] i(1) by simp
  let ?u = "set_mycpu ((mycpu ?c)\<lparr>sie := False\<rparr>)
    (?c\<lparr>csr := (csr ?c)(0 := (csr ?c 0)\<lparr>csr_sip := csr_sip (csr ?c 0) AND NOT 2, csr_sepc := csr_sepc (csr ?e 0),
      csr_sstatus := csr_sstatus (csr ?e 0)\<rparr>)\<rparr>)"
  have "kerneltrap ?e = Done () ?u"
    by (rule kerneltrap_timer) (use i c t st sc spp_spie_bits in simp_all)
  then have run: "timer_trap pc s = Done () (trap_leave ?u)"
    by (simp add: timer_trap_def kseq_run kmod_def)
  have e: "cpu_proc (cpus ?e 0) = None" "noff (cpus ?e 0) = 0"
    using i by (simp_all add: trap_enter_def myproc_def cpu_defs)
  have "hart_idle (trap_leave ?u)"
    using i e st spp_spie_bits(2) [of "csr_sstatus (csr s 0)"]
    by (simp add: hart_idle_def trap_leave_def hold_def unhold_def myproc_def cpu_defs)
  moreover have "ticks (trap_leave ?u) = ticks s + 1" "procs (trap_leave ?u) = ?P"
    by (simp_all add: trap_leave_def hold_def unhold_def cpu_defs)
  ultimately show ?thesis using run by blast
qed

subsection \<open>From the interrupt to the process\<close>

text \<open>
  \<open>intena\<close> is written before it is read whenever no lock is held, so a scan of the scheduler does not depend on it.
\<close>

definition settle :: "'z ktrap_scheme \<Rightarrow> 'z ktrap_scheme" where
  "settle s = set_mycpu ((mycpu s)\<lparr>intena := sie (mycpu s)\<rparr>) s"

lemma settle_simps [simp]:
  "ticks (settle s) = ticks s" "procs (settle s) = procs s" "myproc (settle s) = myproc s" "hart (settle s) = hart s"
  "locks (settle s) = locks s" "noff (mycpu (settle s)) = noff (mycpu s)" "sie (mycpu (settle s)) = sie (mycpu s)"
  "intena (mycpu (settle s)) = sie (mycpu s)"
  by (simp_all add: settle_def myproc_def cpu_defs)

lemma hold_settle: "noff (mycpu s) = 0 \<Longrightarrow> hold l (settle s) = hold l s"
  by (cases s, cases "cpus s (hart s)") (simp add: settle_def hold_def cpu_defs)

lemma machine_ok_settle: "hart_idle s \<Longrightarrow> machine_ok (settle s)"
  by (simp add: hart_idle_def machine_ok_def)

lemma scheduler_scan_settle:
  assumes "noff (mycpu s) = 0" and "lock_free (ProcLock i) s"
  shows "scheduler_scan (i # is) (settle s) = scheduler_scan (i # is) s"
  using assms by (simp add: scheduler_scan_def kseq_run kbind_run acquire_ok hold_settle)

definition resumed :: "nat \<Rightarrow> 'z ktrap_scheme \<Rightarrow> 'z ktrap_scheme" where
  "resumed p s = set_mycpu ((mycpu s)\<lparr>cpu_proc := Some p, intena := True\<rparr>)
     (s\<lparr>procs := (procs s)(p := (procs s p)\<lparr>p_state := RUNNING\<rparr>)\<rparr>)"

lemma scheduler_round_idle:
  assumes "hart_idle s" and "find (\<lambda>i. p_state (procs s i) = RUNNABLE) [0..<NPROC] = Some p"
  shows "scheduler_round s = Done (Some p) (hold (ProcLock p) (resumed p s))"
proof -
  have i: "myproc s = None" "noff (mycpu s) = 0" "sie (mycpu s)" "\<forall>l. lock_free l s"
    using assms(1) by (simp_all add: hart_idle_def)
  have on: "intr_on s = Done () s"
    using i by (cases s, cases "cpus s (hart s)") (simp add: intr_on_def cpu_defs fun_upd_idem_iff)
  have "scheduler_scan [0..<NPROC] s = scheduler_scan [0..<NPROC] (settle s)"
    using scheduler_scan_settle [of s 0] i by (simp add: NPROC_upt)
  also have "\<dots> = Done (Some p) (dispatched p (settle s))"
    using scheduler_scan_run [OF machine_ok_settle [OF assms(1)], of "[0..<NPROC]"] i assms(2) by simp
  also have "dispatched p (settle s) = hold (ProcLock p) (resumed p s)"
    using i by (cases s, cases "cpus s (hart s)") (simp add: dispatched_def resumed_def settle_def hold_def cpu_defs)
  finally show ?thesis using on by (simp add: scheduler_round_def kseq_run)
qed

lemma resumed_runs:
  assumes "hart_idle s"
  shows "hart_runs p (resumed p s)"
  using assms by (clarsimp simp: hart_runs_def hart_idle_def machine_ok_def resumed_def myproc_def cpu_defs)

text \<open>A sleeper that is dispatched goes on in its loop with the lock held.\<close>

lemma sleep_resume_run:
  assumes "hart_runs p s"
  shows "sleep_resume True lk (hold (ProcLock p) s) =
    Done () (hold lk (s\<lparr>procs := (procs s)(p := (procs s p)\<lparr>p_chan := None\<rparr>)\<rparr>))"
proof -
  have r: "machine_ok s" "myproc s = Some p" "sie (mycpu s)" "noff (mycpu s) = 0" "\<forall>l. lock_free l s"
    using assms by (simp_all add: hart_runs_def)
  have "set_mycpu ((mycpu (hold (ProcLock p) s))\<lparr>intena := True\<rparr>) (hold (ProcLock p) s) = hold (ProcLock p) s"
    using r(3,4) by (cases s, cases "cpus s (hart s)") (simp add: hold_def cpu_defs)
  moreover have "release (ProcLock p) (procs_update f (hold (ProcLock p) s)) = Done () (procs_update f s)" for f
    using r by (intro release_hold) simp_all
  ultimately show ?thesis
    using r by (simp add: sleep_resume_def sched_resume_def kseq_run kmod_def acquire_ok)
qed

lemma sys_sleep_loop_run:
  assumes "hart_runs p s" and "p_killed (procs s p) = 0"
  shows "sys_sleep_loop t0 n (hold TicksLock s) =
    (if ticks s - t0 < n
     then Block (Some TicksChan) (hold (ProcLock p)
       (s\<lparr>procs := (procs s)(p := (procs s p)\<lparr>p_chan := Some TicksChan, p_state := SLEEPING\<rparr>)\<rparr>))
     else Done 0 s)"
proof -
  let ?h = "hold TicksLock s"
  have r: "machine_ok s" "myproc s = Some p" "noff (mycpu s) = 0" "\<forall>l. lock_free l s"
    using assms(1) by (simp_all add: hart_runs_def)
  then have k: "killed p ?h = Done 0 ?h"
    using killed_run [of ?h p] assms(2) by (simp add: machine_ok_hold)
  have "unhold TicksLock (hold (ProcLock p) ?h) = hold (ProcLock p) s"
    using r by (simp add: hold_commute [of "ProcLock p"] unhold_hold machine_ok_hold)
  then have "sleep TicksChan TicksLock ?h = (Block (Some TicksChan) (hold (ProcLock p)
      (s\<lparr>procs := (procs s)(p := (procs s p)\<lparr>p_chan := Some TicksChan, p_state := SLEEPING\<rparr>)\<rparr>)) :: (_, u64) outcome)"
    using r by (simp add: sleep_run [where p = p] machine_ok_hold asleep_def)
  moreover have "release TicksLock ?h = Done () s" using r by (intro release_hold_same) simp_all
  ultimately show ?thesis using r k by (simp add: sys_sleep_loop_def kseq_run kbind_run)
qed

lemma scheduler_back_run:
  assumes "hart_runs p s"
  shows "scheduler_back p (hold (ProcLock p) s) = Done () (set_mycpu ((mycpu s)\<lparr>cpu_proc := None\<rparr>) s)"
    and "hart_idle (set_mycpu ((mycpu s)\<lparr>cpu_proc := None\<rparr>) s)"
proof -
  let ?v = "set_mycpu ((mycpu s)\<lparr>cpu_proc := None\<rparr>) s"
  have r: "machine_ok ?v" "lock_free (ProcLock p) ?v"
    using assms by (clarsimp simp: hart_runs_def machine_ok_def cpu_defs)+
  have "set_mycpu ((mycpu (hold (ProcLock p) s))\<lparr>cpu_proc := None\<rparr>) (hold (ProcLock p) s) = hold (ProcLock p) ?v"
    by (cases s, cases "cpus s (hart s)") (simp add: hold_def cpu_defs)
  then show "scheduler_back p (hold (ProcLock p) s) = Done () ?v"
    using release_hold_same [OF r] by (simp add: scheduler_back_def kseq_run kmod_def)
  show "hart_idle ?v" using assms by (auto simp: hart_idle_def hart_runs_def machine_ok_def myproc_def cpu_defs)
qed

subsection \<open>A process that sleeps for some ticks\<close>

text \<open>
  The run of hart 0 from the moment \<open>p\<close> has gone to sleep in \<open>sys_sleep\<close>: the scheduler gets the hart back, the timer
  interrupts its idle loop, and if \<open>p\<close> is the next process it goes on in its loop.
\<close>

definition tick_round :: "nat \<Rightarrow> u64 \<Rightarrow> u32 \<Rightarrow> u32 \<Rightarrow> ('z ktrap_scheme, u64) kop" where
  "tick_round p pc t0 n =
     kbind (kget (\<lambda>s. intena (mycpu s))) (\<lambda>saved.
     kseq (scheduler_back p)
     (kseq (timer_trap pc)
     (kbind scheduler_round (\<lambda>r.
        if r = Some p then kseq (sleep_resume saved TicksLock) (sys_sleep_loop t0 n) else (\<lambda>_. Hang)))))"

primrec after_ticks :: "nat \<Rightarrow> nat \<Rightarrow> u64 \<Rightarrow> u32 \<Rightarrow> u32 \<Rightarrow> ('z ktrap_scheme, u64) outcome \<Rightarrow> ('z ktrap_scheme, u64) outcome" where
  "after_ticks 0 p pc t0 n r = r"
| "after_ticks (Suc k) p pc t0 n r =
     (case after_ticks k p pc t0 n r of Block c s \<Rightarrow> tick_round p pc t0 n s | r' \<Rightarrow> r')"

text \<open>\<open>p\<close> is the first process a tick makes runnable.\<close>

definition next_on_tick :: "nat \<Rightarrow> (nat \<Rightarrow> proc) \<Rightarrow> bool" where
  "next_on_tick p P \<longleftrightarrow> p < NPROC \<and> p_killed (P p) = 0
     \<and> (\<forall>i < p. p_state (P i) \<noteq> RUNNABLE \<and> \<not> (p_state (P i) = SLEEPING \<and> p_chan (P i) = Some TicksChan))"

lemma find_woken:
  assumes "next_on_tick p P" and "p_state (P p) = SLEEPING" and "p_chan (P p) = Some TicksChan"
  shows "find (\<lambda>i. p_state (if i < NPROC then wake TicksChan (P i) else P i) = RUNNABLE) [0..<NPROC] = Some p"
  using assms unfolding find_Some_iff
  by (intro exI [of _ p]) (auto simp: next_on_tick_def wake_def)

lemma tick_round_run:
  assumes "hart_runs p s" and "next_on_tick p (procs s)"
    and "p_state (procs s p) = SLEEPING" and "p_chan (procs s p) = Some TicksChan"
  shows "\<exists>t. hart_runs p t \<and> next_on_tick p (procs t) \<and> ticks t = ticks s + 1
    \<and> p_state (procs t p) = RUNNING
    \<and> tick_round p pc t0 n (hold (ProcLock p) s) = sys_sleep_loop t0 n (hold TicksLock t)"
proof -
  let ?v = "set_mycpu ((mycpu s)\<lparr>cpu_proc := None\<rparr>) s"
  let ?P = "\<lambda>i. if i < NPROC then wake TicksChan (procs s i) else procs s i"
  have v: "procs ?v = procs s" "ticks ?v = ticks s" by (simp_all add: cpu_defs)
  obtain u where u: "timer_trap pc ?v = Done () u" "hart_idle u" "ticks u = ticks s + 1" "procs u = ?P"
    using timer_trap_run [OF scheduler_back_run(2) [OF assms(1)], of pc] unfolding v by blast
  have "scheduler_round u = Done (Some p) (hold (ProcLock p) (resumed p u))"
    using u(2,4) find_woken [OF assms(2-4)] by (intro scheduler_round_idle) simp_all
  moreover define t where "t = (resumed p u)\<lparr>procs := (procs (resumed p u))(p := (procs (resumed p u) p)\<lparr>p_chan := None\<rparr>)\<rparr>"
  moreover have "intena (mycpu (hold (ProcLock p) s))"
    using assms(1) by (clarsimp simp: hart_runs_def hold_def cpu_defs)
  ultimately have "tick_round p pc t0 n (hold (ProcLock p) s) = sys_sleep_loop t0 n (hold TicksLock t)"
    using scheduler_back_run(1) [OF assms(1)] u(1) sleep_resume_run [OF resumed_runs [OF u(2), of p], of TicksLock]
    by (simp add: tick_round_def kseq_run kbind_run)
  moreover have "hart_runs p t"
    using resumed_runs [OF u(2), of p] by (simp add: t_def hart_runs_def)
  moreover have "next_on_tick p (procs t)" "ticks t = ticks s + 1" "p_state (procs t p) = RUNNING"
    using assms u(3,4) by (auto simp: t_def resumed_def next_on_tick_def wake_def cpu_defs)
  ultimately show ?thesis by blast
qed

lemma of_nat_less_word: "k < unat n \<Longrightarrow> (of_nat k :: 'a::len word) < n"
  by (metis mod_less_eq_dividend order_le_less_trans unat_of_nat word_less_nat_alt)

text \<open>
  After \<open>k\<close> interrupts, \<open>k\<close> less than the number of ticks asked for, the process has slept \<open>k\<close> ticks and sleeps again.
\<close>

lemma sleeps_until:
  assumes "hart_runs p s" and "next_on_tick p (procs s)"
    and "r = sys_sleep_loop (ticks s) n (hold TicksLock s)" and "k \<le> unat n"
  shows "\<exists>t. hart_runs p t \<and> next_on_tick p (procs t) \<and> ticks t = ticks s + of_nat k
    \<and> after_ticks k p pc (ticks s) n r = sys_sleep_loop (ticks s) n (hold TicksLock t)"
  using assms(4)
proof (induction k)
  case 0
  then show ?case using assms(1-3) by auto
next
  case (Suc k)
  then obtain t where t: "hart_runs p t" "next_on_tick p (procs t)" "ticks t = ticks s + of_nat k"
    "after_ticks k p pc (ticks s) n r = sys_sleep_loop (ticks s) n (hold TicksLock t)"
    by auto
  have less: "ticks t - ticks s < n"
    using Suc.prems t(3) of_nat_less_word [of k n] by simp
  let ?u = "t\<lparr>procs := (procs t)(p := (procs t p)\<lparr>p_chan := Some TicksChan, p_state := SLEEPING\<rparr>)\<rparr>"
  have run: "after_ticks (Suc k) p pc (ticks s) n r = tick_round p pc (ticks s) n (hold (ProcLock p) ?u)"
    using t(4) sys_sleep_loop_run [OF t(1), of "ticks s" n] t(2) less by (simp add: next_on_tick_def)
  have u: "hart_runs p ?u" "next_on_tick p (procs ?u)" "p_state (procs ?u p) = SLEEPING"
    "p_chan (procs ?u p) = Some TicksChan" "ticks ?u = ticks t"
    using t(1,2) by (auto simp: hart_runs_def next_on_tick_def)
  obtain w where "hart_runs p w" "next_on_tick p (procs w)" "ticks w = ticks ?u + 1"
    "tick_round p pc (ticks s) n (hold (ProcLock p) ?u) = sys_sleep_loop (ticks s) n (hold TicksLock w)"
    using tick_round_run [OF u(1-4)] by blast
  then show ?case using run t(3) u(5) by (intro exI [of _ w]) (simp add: algebra_simps)
qed

lemma sys_sleep_run:
  assumes "hart_runs p s" and "argint 0 s = Done n s"
  shows "sys_sleep s = sys_sleep_loop (ticks s) (word_of_int n) (hold TicksLock s)"
  using assms by (simp add: sys_sleep_def kbind_run kseq_run acquire_ok hart_runs_def)

subsection \<open>A process that asks for two ticks\<close>

definition sleep_vm :: ktrap where
  "sleep_vm = kpipe.extend
     (pipe_vm\<lparr>mem := write64 (\<lambda>_. 0) 0x87FFE070 2, hart := 0, cpus := cpus small_ptable, locks := locks small_ptable,
       procs := (procs small_ptable)(0 := (procs small_ptable 0)\<lparr>trapframe := 0x87FFE000\<rparr>)\<rparr>)
     \<lparr>cons_buf = (\<lambda>_. 0), cons_r = 0, cons_w = 0, cons_e = 0,
      uart_tx_buf = (\<lambda>_. 0), uart_tx_w = 0, uart_tx_r = 0, uart_room = 1, uart_sent = [], uart_rx = [], uart_regs = [],
      files = (\<lambda>_. \<lparr>f_type = FD_NONE, f_ref = 0, f_readable = False, f_writable = False, f_pipe = 0, f_ip = None,
        f_off = 0, f_major = 0\<rparr>), devsw = (\<lambda>_. False), pr_locking = True, ticks = - 1,
      csr = (\<lambda>_. \<lparr>csr_scause = 0, csr_sepc = 0, csr_stval = 0, csr_stvec = 0, csr_sstatus = 0, csr_sip = 0\<rparr>),
      plic_priority = (\<lambda>_. 0), plic_enable = (\<lambda>_. 0), plic_threshold = (\<lambda>_. 0), plic_pending = (\<lambda>_. []), plic_done = [],
      virtio_regs = (\<lambda>_. 0), sym_kernelvec = 0, sym_uservec = 0, sym_userret = 0, sym_usertrap = 0\<rparr>"

lemma sleep_vm_ready:
  "hart_runs 0 sleep_vm" "next_on_tick 0 (procs sleep_vm)" "argint 0 sleep_vm = Done 2 sleep_vm" "ticks sleep_vm = - 1"
proof -
  have f: "hart sleep_vm = 0" "cpus sleep_vm = cpus small_ptable" "locks sleep_vm = locks small_ptable"
    "procs sleep_vm = (procs small_ptable)(0 := (procs small_ptable 0)\<lparr>trapframe := 0x87FFE000\<rparr>)"
    by (simp_all add: sleep_vm_def kpipe.defs)
  have h: "hart small_ptable = 0"
    by (simp add: small_ptable_def one_page_def boot_machine_def kmem.defs machine.defs)
  have p: "procs sleep_vm 0 = no_proc\<lparr>p_state := RUNNING, p_pid := 1, trapframe := 0x87FFE000\<rparr>" by (simp add: f)
  have y: "myproc sleep_vm = Some 0" "machine_ok sleep_vm = machine_ok small_ptable" "mycpu sleep_vm = mycpu small_ptable"
    using f h small_ptable_fields(3) by (simp_all add: myproc_def machine_ok_def cpu_defs)
  have m: "mem sleep_vm = write64 (\<lambda>_. 0) 0x87FFE070 2"
    by (simp add: sleep_vm_def kpipe.defs)
  show "hart_runs 0 sleep_vm" using y f by (simp add: hart_runs_def)
  show "next_on_tick 0 (procs sleep_vm)" using p by (simp add: next_on_tick_def NPROC_def no_proc_def)
  show "argint 0 sleep_vm = Done 2 sleep_vm"
    using p m y by (simp add: argint_def argraw_def tf_get_def kbind_run)
  show "ticks sleep_vm = - 1" by (simp add: sleep_vm_def kpipe.defs)
qed

subsection \<open>Property\<close>

text \<open>
  C4 (liveness). A process that calls \<open>sleep(n)\<close> sleeps through every clock interrupt before the \<open>n\<close>th and
  returns 0 after the \<open>n\<close>th: each interrupt goes through \<open>kerneltrap\<close>, \<open>devintr\<close>, \<open>clockintr\<close>
  and \<open>wakeup\<close>, the scheduler then finds the process runnable, and it returns with no lock held, however \<open>ticks\<close> wraps
  around. \<open>n\<close> counts as unsigned, so a negative argument sleeps for more than 2^31 ticks.
\<close>

theorem sys_sleep_returns_after_n_ticks:
  assumes "hart_runs p s" and "next_on_tick p (procs s)" and "argint 0 s = Done n s"
  shows "(\<forall>k < unat (word_of_int n :: u32).
      \<exists>t. after_ticks k p pc (ticks s) (word_of_int n) (sys_sleep s) = Block (Some TicksChan) t)
    \<and> (\<exists>t. after_ticks (unat (word_of_int n :: u32)) p pc (ticks s) (word_of_int n) (sys_sleep s) = Done 0 t
        \<and> hart_runs p t \<and> ticks t = ticks s + word_of_int n)"
proof -
  let ?n = "word_of_int n :: u32"
  let ?r = "\<lambda>k. after_ticks k p pc (ticks s) ?n (sys_sleep s)"
  have st: "\<exists>t. hart_runs p t \<and> ticks t = ticks s + of_nat k \<and> p_killed (procs t p) = 0
      \<and> ?r k = sys_sleep_loop (ticks s) ?n (hold TicksLock t)" if "k \<le> unat ?n" for k
    using sleeps_until [OF assms(1,2) sys_sleep_run [OF assms(1,3)] that] unfolding next_on_tick_def by blast
  have "\<exists>t. ?r k = Block (Some TicksChan) t" if k: "k < unat ?n" for k
  proof -
    obtain t where t: "hart_runs p t" "ticks t = ticks s + of_nat k" "p_killed (procs t p) = 0"
      "?r k = sys_sleep_loop (ticks s) ?n (hold TicksLock t)"
      using st [of k] k by auto
    have "ticks t - ticks s < ?n"
      using of_nat_less_word [OF k] t(2) by simp
    then show ?thesis using t(4) sys_sleep_loop_run [OF t(1,3), of "ticks s" ?n] by simp
  qed
  moreover obtain t where "hart_runs p t" "ticks t = ticks s + ?n" "p_killed (procs t p) = 0"
    "?r (unat ?n) = sys_sleep_loop (ticks s) ?n (hold TicksLock t)"
    using st [of "unat ?n"] by auto
  ultimately show ?thesis
    using sys_sleep_loop_run [of p t "ticks s" ?n] by auto
qed

theorem sys_sleep_returns_after_n_ticks_witness:
  "(\<exists>t. after_ticks 1 0 0x80001000 (- 1) 2 (sys_sleep sleep_vm) = Block (Some TicksChan) t)
   \<and> (\<exists>t. after_ticks 2 0 0x80001000 (- 1) 2 (sys_sleep sleep_vm) = Done 0 t \<and> ticks t = 1)"
  using sys_sleep_returns_after_n_ticks [OF sleep_vm_ready(1-3), of "0x80001000"]
  by (auto simp del: after_ticks.simps simp: sleep_vm_ready(4))

end
