(* ===== verification/Start.thy ===== *)
theory Start
  imports Riscv
begin

text \<open>
  \<^verbatim>\<open>start.c\<close>: what a hart does in machine mode before \<open>main\<close>, the accessors of \<^verbatim>\<open>riscv.h\<close> that it uses, and the handler
  \<open>timervec\<close> of \<^verbatim>\<open>kernelvec.S\<close> that it installs. The registers follow the RISC-V privileged architecture: \<open>sie\<close> and
  \<open>sip\<close> show the delegated bits of \<open>mie\<close> and \<open>mip\<close>, \<open>mideleg\<close> has only the bits that the hart can delegate, \<open>mret\<close> returns
  to the mode in \<open>MPP\<close>. Memory is given by its aligned cells of 64 bits; all accesses here are of that kind.
\<close>

subsection \<open>Registers\<close>

datatype priv = UserMode | SupervisorMode | MachineMode

record hart_regs =
  csr_mhartid :: u64
  csr_mstatus :: u64
  csr_mepc :: u64
  csr_satp :: u64
  csr_medeleg :: u64
  csr_mideleg :: u64
  csr_mie :: u64
  csr_mip :: u64
  csr_pmpaddr0 :: u64
  csr_pmpcfg0 :: u64
  csr_mscratch :: u64
  csr_mtvec :: u64
  reg_tp :: u64
  reg_a0 :: u64
  reg_a1 :: u64
  reg_a2 :: u64
  reg_a3 :: u64
  hart_mode :: priv
  hart_pc :: u64
  delegable :: u64
  cells :: "u64 \<Rightarrow> u64"

definition NCPU :: nat where "NCPU = 8"

definition MSTATUS_MPP_MASK :: u64 where "MSTATUS_MPP_MASK = push_bit 11 3"
definition MSTATUS_MPP_S :: u64 where "MSTATUS_MPP_S = push_bit 11 1"
definition MSTATUS_MIE :: u64 where "MSTATUS_MIE = push_bit 3 1"
definition MSTATUS_MPIE :: u64 where "MSTATUS_MPIE = push_bit 7 1"
definition SIE_SEIE :: u64 where "SIE_SEIE = push_bit 9 1"
definition SIE_STIE :: u64 where "SIE_STIE = push_bit 5 1"
definition SIE_SSIE :: u64 where "SIE_SSIE = push_bit 1 1"
definition MIE_MTIE :: u64 where "MIE_MTIE = push_bit 7 1"

abbreviation CLINT :: u64 where "CLINT \<equiv> 0x2000000"
definition CLINT_MTIMECMP :: "u64 \<Rightarrow> u64" where "CLINT_MTIMECMP hartid = CLINT + 0x4000 + 8 * hartid"
definition CLINT_MTIME :: u64 where "CLINT_MTIME = CLINT + 0xBFF8"

definition r_mhartid :: "hart_regs \<Rightarrow> u64" where "r_mhartid h = csr_mhartid h"
definition r_mstatus :: "hart_regs \<Rightarrow> u64" where "r_mstatus h = csr_mstatus h"
definition w_mstatus :: "u64 \<Rightarrow> hart_regs \<Rightarrow> hart_regs" where "w_mstatus x h = h\<lparr>csr_mstatus := x\<rparr>"
definition w_mepc :: "u64 \<Rightarrow> hart_regs \<Rightarrow> hart_regs" where "w_mepc x h = h\<lparr>csr_mepc := x\<rparr>"
definition w_satp :: "u64 \<Rightarrow> hart_regs \<Rightarrow> hart_regs" where "w_satp x h = h\<lparr>csr_satp := x\<rparr>"
definition w_medeleg :: "u64 \<Rightarrow> hart_regs \<Rightarrow> hart_regs" where "w_medeleg x h = h\<lparr>csr_medeleg := x\<rparr>"
definition w_mideleg :: "u64 \<Rightarrow> hart_regs \<Rightarrow> hart_regs" where "w_mideleg x h = h\<lparr>csr_mideleg := x AND delegable h\<rparr>"
definition r_sie :: "hart_regs \<Rightarrow> u64" where "r_sie h = csr_mie h AND csr_mideleg h"
definition w_sie :: "u64 \<Rightarrow> hart_regs \<Rightarrow> hart_regs" where
  "w_sie x h = h\<lparr>csr_mie := (csr_mie h AND NOT (csr_mideleg h)) OR (x AND csr_mideleg h)\<rparr>"
definition r_mie :: "hart_regs \<Rightarrow> u64" where "r_mie h = csr_mie h"
definition w_mie :: "u64 \<Rightarrow> hart_regs \<Rightarrow> hart_regs" where "w_mie x h = h\<lparr>csr_mie := x\<rparr>"
definition w_pmpaddr0 :: "u64 \<Rightarrow> hart_regs \<Rightarrow> hart_regs" where "w_pmpaddr0 x h = h\<lparr>csr_pmpaddr0 := x\<rparr>"
definition w_pmpcfg0 :: "u64 \<Rightarrow> hart_regs \<Rightarrow> hart_regs" where "w_pmpcfg0 x h = h\<lparr>csr_pmpcfg0 := x\<rparr>"
definition w_mscratch :: "u64 \<Rightarrow> hart_regs \<Rightarrow> hart_regs" where "w_mscratch x h = h\<lparr>csr_mscratch := x\<rparr>"
definition w_mtvec :: "u64 \<Rightarrow> hart_regs \<Rightarrow> hart_regs" where "w_mtvec x h = h\<lparr>csr_mtvec := x\<rparr>"
definition w_tp :: "u64 \<Rightarrow> hart_regs \<Rightarrow> hart_regs" where "w_tp x h = h\<lparr>reg_tp := x\<rparr>"

text \<open>A write of \<open>sip\<close> changes the software interrupt bit only, the others are read-only there.\<close>

definition w_sip :: "u64 \<Rightarrow> hart_regs \<Rightarrow> hart_regs" where
  "w_sip x h = h\<lparr>csr_mip := (csr_mip h AND NOT (csr_mideleg h AND 2)) OR (x AND csr_mideleg h AND 2)\<rparr>"

definition store64 :: "u64 \<Rightarrow> u64 \<Rightarrow> hart_regs \<Rightarrow> hart_regs" where
  "store64 a v h = h\<lparr>cells := (cells h)(a := v)\<rparr>"

lemmas hart_access = r_mhartid_def r_mstatus_def w_mstatus_def w_mepc_def w_satp_def w_medeleg_def w_mideleg_def r_sie_def
  w_sie_def r_mie_def w_mie_def w_pmpaddr0_def w_pmpcfg0_def w_mscratch_def w_mtvec_def w_tp_def w_sip_def store64_def

text \<open>The field \<open>MPP\<close> and what the hardware does on a machine-mode trap and on \<open>mret\<close>.\<close>

fun mpp_of :: "priv \<Rightarrow> u64" where
  "mpp_of UserMode = 0" | "mpp_of SupervisorMode = 1" | "mpp_of MachineMode = 3"

definition mpp_mode :: "u64 \<Rightarrow> priv" where
  "mpp_mode st = (let p = drop_bit 11 st AND 3 in if p = 0 then UserMode else if p = 1 then SupervisorMode else MachineMode)"

definition leave_status :: "u64 \<Rightarrow> u64" where
  "leave_status st = (st AND NOT (MSTATUS_MPP_MASK OR MSTATUS_MIE)) OR MSTATUS_MPIE OR (if bit st 7 then MSTATUS_MIE else 0)"

definition enter_status :: "priv \<Rightarrow> u64 \<Rightarrow> u64" where
  "enter_status m st = (st AND NOT (MSTATUS_MPP_MASK OR MSTATUS_MIE OR MSTATUS_MPIE)) OR push_bit 11 (mpp_of m)
     OR (if bit st 3 then MSTATUS_MPIE else 0)"

definition mret :: "hart_regs \<Rightarrow> hart_regs" where
  "mret h = h\<lparr>hart_mode := mpp_mode (csr_mstatus h), hart_pc := csr_mepc h, csr_mstatus := leave_status (csr_mstatus h)\<rparr>"

text \<open>The machine timer interrupt is taken when it is due, enabled, not delegated, and not masked by the mode.\<close>

definition timer_taken :: "hart_regs \<Rightarrow> bool" where
  "timer_taken h \<longleftrightarrow> cells h (CLINT_MTIMECMP (csr_mhartid h)) \<le> cells h CLINT_MTIME \<and> bit (csr_mie h) 7
     \<and> \<not> bit (csr_mideleg h) 7 \<and> (hart_mode h \<noteq> MachineMode \<or> bit (csr_mstatus h) 3)"

definition machine_trap :: "hart_regs \<Rightarrow> hart_regs" where
  "machine_trap h = h\<lparr>csr_mepc := hart_pc h, hart_pc := csr_mtvec h, hart_mode := MachineMode,
     csr_mstatus := enter_status (hart_mode h) (csr_mstatus h)\<rparr>"

subsection \<open>start.c\<close>

text \<open>\<open>timer_scratch[id]\<close> and its element \<open>k\<close>, for the array at \<open>ts\<close>.\<close>

definition scratch_at :: "u64 \<Rightarrow> u64 \<Rightarrow> u64" where "scratch_at ts i = ts + 40 * i"

definition timerinit :: "u64 \<Rightarrow> u64 \<Rightarrow> hart_regs \<Rightarrow> hart_regs" where
  "timerinit ts vec h =
     (let id = scast (ucast (r_mhartid h) :: u32);
        interval = 1000000;
        h = store64 (CLINT_MTIMECMP id) (cells h CLINT_MTIME + interval) h;
        scratch = scratch_at ts id;
        h = store64 (scratch + 24) (CLINT_MTIMECMP id) h;
        h = store64 (scratch + 32) interval h;
        h = w_mscratch scratch h;
        h = w_mtvec vec h;
        h = w_mstatus (r_mstatus h OR MSTATUS_MIE) h
      in w_mie (r_mie h OR MIE_MTIE) h)"

definition start :: "u64 \<Rightarrow> u64 \<Rightarrow> u64 \<Rightarrow> hart_regs \<Rightarrow> hart_regs" where
  "start main ts vec h =
     (let x = (r_mstatus h AND NOT MSTATUS_MPP_MASK) OR MSTATUS_MPP_S;
        h = w_mstatus x h;
        h = w_mepc main h;
        h = w_satp 0 h;
        h = w_medeleg 0xffff h;
        h = w_mideleg 0xffff h;
        h = w_sie (r_sie h OR SIE_SEIE OR SIE_STIE OR SIE_SSIE) h;
        h = w_pmpaddr0 0x3fffffffffffff h;
        h = w_pmpcfg0 0xf h;
        h = timerinit ts vec h;
        id = scast (ucast (r_mhartid h) :: u32);
        h = w_tp id h
      in mret h)"

subsection \<open>The timer handler\<close>

text \<open>Save three registers, add the interval to \<open>mtimecmp\<close> and ask for a software interrupt, restore the registers and return.\<close>

definition timer_save :: "hart_regs \<Rightarrow> hart_regs" where
  "timer_save h =
     (let h = h\<lparr>reg_a0 := csr_mscratch h, csr_mscratch := reg_a0 h\<rparr>;
        h = store64 (reg_a0 h) (reg_a1 h) h;
        h = store64 (reg_a0 h + 8) (reg_a2 h) h
      in store64 (reg_a0 h + 16) (reg_a3 h) h)"

definition timer_rearm :: "hart_regs \<Rightarrow> hart_regs" where
  "timer_rearm h =
     (let h = h\<lparr>reg_a1 := cells h (reg_a0 h + 24)\<rparr>;
        h = h\<lparr>reg_a2 := cells h (reg_a0 h + 32)\<rparr>;
        h = h\<lparr>reg_a3 := cells h (reg_a1 h)\<rparr>;
        h = h\<lparr>reg_a3 := reg_a3 h + reg_a2 h\<rparr>;
        h = store64 (reg_a1 h) (reg_a3 h) h;
        h = h\<lparr>reg_a1 := 2\<rparr>
      in w_sip (reg_a1 h) h)"

definition timer_restore :: "hart_regs \<Rightarrow> hart_regs" where
  "timer_restore h =
     (let h = h\<lparr>reg_a3 := cells h (reg_a0 h + 16)\<rparr>;
        h = h\<lparr>reg_a2 := cells h (reg_a0 h + 8)\<rparr>;
        h = h\<lparr>reg_a1 := cells h (reg_a0 h)\<rparr>
      in h\<lparr>reg_a0 := csr_mscratch h, csr_mscratch := reg_a0 h\<rparr>)"

definition timervec :: "hart_regs \<Rightarrow> hart_regs" where
  "timervec h = mret (timer_restore (timer_rearm (timer_save h)))"

subsection \<open>The invariant of the timer\<close>

text \<open>The array \<open>timer_scratch\<close> lies in the memory of the kernel, away from the timer's registers.\<close>

definition scratch_layout :: "u64 \<Rightarrow> bool" where
  "scratch_layout ts \<longleftrightarrow> KERNBASE \<le> ts \<and> unat ts + 40 * NCPU \<le> unat PHYSTOP"

definition timer_ready :: "u64 \<Rightarrow> u64 \<Rightarrow> hart_regs \<Rightarrow> bool" where
  "timer_ready ts vec h \<longleftrightarrow> unat (csr_mhartid h) < NCPU
     \<and> csr_mscratch h = scratch_at ts (csr_mhartid h) \<and> csr_mtvec h = vec
     \<and> cells h (csr_mscratch h + 24) = CLINT_MTIMECMP (csr_mhartid h) \<and> cells h (csr_mscratch h + 32) = 1000000
     \<and> bit (csr_mie h) 7 \<and> \<not> bit (csr_mideleg h) 7 \<and> bit (csr_mideleg h) 1"

definition own_cell :: "u64 \<Rightarrow> u64 \<Rightarrow> u64 \<Rightarrow> bool" where
  "own_cell ts i a \<longleftrightarrow> a = CLINT_MTIMECMP i \<or> (\<exists>k < 5. a = scratch_at ts i + of_nat (8 * k))"

lemma scratch_unat:
  assumes "scratch_layout ts" and "unat i < NCPU" and "k < 5"
  shows "unat (scratch_at ts i + of_nat (8 * k)) = unat ts + 40 * unat i + 8 * k"
proof -
  have "scratch_at ts i + of_nat (8 * k) = of_nat (unat ts + 40 * unat i + 8 * k)"
    by (simp add: scratch_at_def)
  moreover have "unat ts + 40 * unat i + 8 * k < 2 ^ 64" using assms by (simp add: scratch_layout_def NCPU_def)
  ultimately show ?thesis using unat_of_nat64 by metis
qed

lemma mtimecmp_unat: "unat i < NCPU \<Longrightarrow> unat (CLINT_MTIMECMP i) = 0x2004000 + 8 * unat i"
proof -
  assume "unat i < NCPU"
  moreover have "CLINT_MTIMECMP i = of_nat (0x2004000 + 8 * unat i)" by (simp add: CLINT_MTIMECMP_def)
  moreover have "0x2004000 + 8 * unat i < 2 ^ 64" if "unat i < NCPU" using that by (simp add: NCPU_def)
  ultimately show ?thesis using unat_of_nat64 by metis
qed

text \<open>The cells that two harts use are different, and those of one hart among themselves.\<close>

lemma own_cells_apart:
  assumes "scratch_layout ts" and "unat i < NCPU" and "unat j < NCPU" and "i \<noteq> j" and "own_cell ts i a"
  shows "\<not> own_cell ts j a"
proof
  assume j: "own_cell ts j a"
  have ne: "unat i \<noteq> unat j" using assms(4) by (simp add: word_unat_eq_iff)
  have base: "unat ts \<ge> 0x80000000" using assms(1) by (simp add: scratch_layout_def word_le_nat_alt)
  have "unat a = 0x2004000 + 8 * unat x \<or> (\<exists>k < 5. unat a = unat ts + 40 * unat x + 8 * k)"
    if "own_cell ts x a" "unat x < NCPU" for x
    using that scratch_unat [OF assms(1) that(2)] mtimecmp_unat [OF that(2)] by (auto simp: own_cell_def)
  from this [OF assms(5,2)] this [OF j assms(3)] show False
    using ne base assms(2,3) by (auto simp: NCPU_def)
qed

lemma scratch_cells:
  assumes "scratch_layout ts" and "unat i < NCPU"
  shows "distinct [CLINT_MTIMECMP i, scratch_at ts i, scratch_at ts i + 8, scratch_at ts i + 16, scratch_at ts i + 24, scratch_at ts i + 32]"
proof -
  have "distinct (map unat [CLINT_MTIMECMP i, scratch_at ts i, scratch_at ts i + 8, scratch_at ts i + 16, scratch_at ts i + 24, scratch_at ts i + 32])"
    using scratch_unat [OF assms, of 0] scratch_unat [OF assms, of 1] scratch_unat [OF assms, of 2] scratch_unat [OF assms, of 3]
      scratch_unat [OF assms, of 4] mtimecmp_unat [OF assms(2)] assms
    by (simp add: scratch_layout_def NCPU_def word_le_nat_alt)
  then show ?thesis using distinct_map by blast
qed

lemma hart_id_int: "unat i < NCPU \<Longrightarrow> scast (ucast (i :: u64) :: u32) = i"
proof -
  assume "unat i < NCPU"
  then have "unat i \<in> {0, 1, 2, 3, 4, 5, 6, 7}" by (auto simp: NCPU_def)
  then have "i \<in> {0, 1, 2, 3, 4, 5, 6, 7}" by (auto simp: word_unat_eq_iff)
  then show ?thesis by auto
qed

lemma bit_push_one: "bit (push_bit k (1 :: u64)) n \<longleftrightarrow> n = k \<and> n < 64"
  by (auto simp: bit_simps)

lemma bit_small [simp]: "bit (2 :: int) n \<longleftrightarrow> n = 1" "bit (3 :: int) n \<longleftrightarrow> n = 0 \<or> n = 1"
  by (cases n; auto simp: bit_numeral_rec bit_1_iff split: nat.splits)+

lemma status_bits:
  "bit MSTATUS_MPP_MASK n \<longleftrightarrow> n = 11 \<or> n = 12" "bit MSTATUS_MPP_S n \<longleftrightarrow> n = 11" "bit MSTATUS_MIE n \<longleftrightarrow> n = 3"
  "bit MSTATUS_MPIE n \<longleftrightarrow> n = 7" "bit SIE_SEIE n \<longleftrightarrow> n = 9" "bit SIE_STIE n \<longleftrightarrow> n = 5" "bit SIE_SSIE n \<longleftrightarrow> n = 1"
  "bit MIE_MTIE n \<longleftrightarrow> n = 7" "bit (mpp_of m) n \<longleftrightarrow> n = 0 \<and> m \<noteq> UserMode \<or> n = 1 \<and> m = MachineMode"
proof -
  show "bit MSTATUS_MPP_MASK n \<longleftrightarrow> n = 11 \<or> n = 12"
    unfolding MSTATUS_MPP_MASK_def bit_push_bit_iff by auto
  show "bit (mpp_of m) n \<longleftrightarrow> n = 0 \<and> m \<noteq> UserMode \<or> n = 1 \<and> m = MachineMode"
    by (cases m) (auto simp: bit_1_iff)
qed (unfold MSTATUS_MPP_S_def MSTATUS_MIE_def MSTATUS_MPIE_def SIE_SEIE_def SIE_STIE_def SIE_SSIE_def MIE_MTIE_def bit_push_one, auto)

lemma mpp_mode_bits: "mpp_mode st =
    (if \<not> bit st 11 \<and> \<not> bit st 12 then UserMode else if bit st 11 \<and> \<not> bit st 12 then SupervisorMode else MachineMode)"
proof -
  let ?p = "drop_bit 11 st AND 3"
  have b: "bit ?p n \<longleftrightarrow> (n = 0 \<and> bit st 11 \<or> n = 1 \<and> bit st 12)" for n
    by (auto simp: bit_and_iff bit_drop_bit_eq)
  have "?p = 0 \<longleftrightarrow> \<not> bit st 11 \<and> \<not> bit st 12" "?p = 1 \<longleftrightarrow> bit st 11 \<and> \<not> bit st 12"
    by (auto simp: bit_eq_iff [where 'a = u64] b bit_1_iff dest: spec [of _ 0] spec [of _ "Suc 0"])
  then show ?thesis by (simp add: mpp_mode_def)
qed

lemma mpp_mode_enter: "mpp_mode (enter_status m st) = m"
  by (cases m) (simp_all add: mpp_mode_bits enter_status_def bit_simps status_bits)

lemma leave_enter: "leave_status (enter_status m st) = (st AND NOT MSTATUS_MPP_MASK) OR MSTATUS_MPIE"
  by (rule bit_word_eqI) (auto simp: enter_status_def leave_status_def bit_simps status_bits)

lemma set_again: "(x AND NOT y) OR y = x OR (y :: u64)"
  by (rule bit_word_eqI) (auto simp: bit_simps)

lemma timervec_run:
  assumes "scratch_layout ts" and "timer_ready ts vec h"
  shows "timervec (machine_trap h) = h\<lparr>csr_mepc := hart_pc h, csr_mip := csr_mip h OR 2,
     csr_mstatus := (csr_mstatus h AND NOT MSTATUS_MPP_MASK) OR MSTATUS_MPIE,
     cells := (cells h)(csr_mscratch h := reg_a1 h, csr_mscratch h + 8 := reg_a2 h, csr_mscratch h + 16 := reg_a3 h,
       CLINT_MTIMECMP (csr_mhartid h) := cells h (CLINT_MTIMECMP (csr_mhartid h)) + 1000000)\<rparr>"
proof -
  let ?i = "csr_mhartid h" and ?m = "csr_mscratch h"
  have m: "?m = scratch_at ts ?i" and i: "unat ?i < NCPU" using assms(2) by (simp_all add: timer_ready_def)
  have two: "csr_mideleg h AND 2 = 2" using assms(2) by (intro bit_word_eqI) (auto simp: timer_ready_def bit_and_iff)
  have "NOT (csr_mideleg h) OR - 3 = NOT (csr_mideleg h AND 2)" by simp
  then have sip: "(csr_mip h AND (NOT (csr_mideleg h) OR - 3)) OR 2 = csr_mip h OR 2"
    using set_again [of "csr_mip h" 2] by (simp only: two)
  let ?c = "(cells h)(?m := reg_a1 h, ?m + 8 := reg_a2 h, ?m + 16 := reg_a3 h)"
  let ?s = "(machine_trap h)\<lparr>reg_a0 := ?m, csr_mscratch := reg_a0 h, cells := ?c\<rparr>"
  have 1: "timer_save (machine_trap h) = ?s"
    by (simp add: timer_save_def machine_trap_def store64_def)
  have 2: "timer_rearm ?s = ?s\<lparr>reg_a1 := 2, reg_a2 := 1000000, reg_a3 := cells h (CLINT_MTIMECMP ?i) + 1000000,
      cells := ?c(CLINT_MTIMECMP ?i := cells h (CLINT_MTIMECMP ?i) + 1000000), csr_mip := csr_mip h OR 2\<rparr>"
    using scratch_cells [OF assms(1) i] assms(2)
    by (simp add: timer_rearm_def machine_trap_def store64_def w_sip_def timer_ready_def m two sip)
  show ?thesis unfolding timervec_def 1 2
    using scratch_cells [OF assms(1) i] scratch_cells [OF assms(1) i, THEN distinct_rev [THEN iffD2]]
    by (intro hart_regs.equality) (simp_all add: timer_restore_def mret_def m machine_trap_def mpp_mode_enter leave_enter)
qed

lemma timerinit_run:
  assumes "scratch_layout ts" and "unat (csr_mhartid h) < NCPU"
  shows "timerinit ts vec h = h\<lparr>csr_mscratch := scratch_at ts (csr_mhartid h), csr_mtvec := vec,
     csr_mstatus := csr_mstatus h OR MSTATUS_MIE, csr_mie := csr_mie h OR MIE_MTIE,
     cells := (cells h)(CLINT_MTIMECMP (csr_mhartid h) := cells h CLINT_MTIME + 1000000,
       scratch_at ts (csr_mhartid h) + 24 := CLINT_MTIMECMP (csr_mhartid h), scratch_at ts (csr_mhartid h) + 32 := 1000000)\<rparr>"
  using hart_id_int [OF assms(2)] by (simp add: timerinit_def hart_access Let_def)

lemma own_cell_simps:
  "own_cell ts i (CLINT_MTIMECMP i)" "own_cell ts i (scratch_at ts i)" "own_cell ts i (scratch_at ts i + 8)"
  "own_cell ts i (scratch_at ts i + 16)" "own_cell ts i (scratch_at ts i + 24)" "own_cell ts i (scratch_at ts i + 32)"
proof -
  have "own_cell ts i (scratch_at ts i + of_nat (8 * k))" if "k < 5" for k using that by (auto simp: own_cell_def)
  from this [of 0] this [of 1] this [of 2] this [of 3] this [of 4]
  show "own_cell ts i (scratch_at ts i)" "own_cell ts i (scratch_at ts i + 8)"
    "own_cell ts i (scratch_at ts i + 16)" "own_cell ts i (scratch_at ts i + 24)" "own_cell ts i (scratch_at ts i + 32)" by simp_all
qed (simp add: own_cell_def)

lemma tick_keeps:
  assumes "scratch_layout ts" and "timer_ready ts vec t"
  shows "timer_ready ts vec (timervec (machine_trap t))"
proof -
  have i: "unat (csr_mhartid t) < NCPU" using assms(2) by (simp add: timer_ready_def)
  show ?thesis unfolding timervec_run [OF assms] using assms(2) scratch_cells [OF assms(1) i] by (auto simp: timer_ready_def)
qed

text \<open>\<open>start\<close>, its registers apart from \<open>mstatus\<close> and the delegation that the hart allows.\<close>

lemma start_run:
  assumes "scratch_layout ts" and "unat (csr_mhartid h) < NCPU"
  shows "\<exists>st mie dl. start main ts vec h = h\<lparr>hart_mode := SupervisorMode, hart_pc := main, csr_mstatus := st, csr_mepc := main,
     csr_satp := 0, csr_medeleg := 0xffff, csr_mideleg := dl, csr_mie := mie, csr_pmpaddr0 := 0x3fffffffffffff,
     csr_pmpcfg0 := 0xf, csr_mscratch := scratch_at ts (csr_mhartid h), csr_mtvec := vec, reg_tp := csr_mhartid h,
     cells := (cells h)(CLINT_MTIMECMP (csr_mhartid h) := cells h CLINT_MTIME + 1000000,
       scratch_at ts (csr_mhartid h) + 24 := CLINT_MTIMECMP (csr_mhartid h), scratch_at ts (csr_mhartid h) + 32 := 1000000)\<rparr>
     \<and> dl = 0xffff AND delegable h \<and> (\<forall>n. bit dl n \<longrightarrow> n \<in> {1, 5, 9} \<longrightarrow> bit mie n) \<and> bit mie 7"
proof -
  let ?st = "(csr_mstatus h AND NOT MSTATUS_MPP_MASK) OR MSTATUS_MPP_S" and ?dl = "0xffff AND delegable h"
  let ?mie = "(csr_mie h AND NOT ?dl) OR (((csr_mie h AND ?dl) OR SIE_SEIE OR SIE_STIE OR SIE_SSIE) AND ?dl)"
  let ?h = "h\<lparr>csr_mstatus := ?st, csr_mepc := main, csr_satp := 0, csr_medeleg := 0xffff, csr_mideleg := ?dl, csr_mie := ?mie,
    csr_pmpaddr0 := 0x3fffffffffffff, csr_pmpcfg0 := 0xf\<rparr>"
  have mode: "mpp_mode (?st OR MSTATUS_MIE) = SupervisorMode"
    by (simp add: mpp_mode_bits bit_simps status_bits)
  have run: "start main ts vec h = mret (w_tp (csr_mhartid h) (timerinit ts vec ?h))"
    using hart_id_int [OF assms(2)] timerinit_run [OF assms(1), of ?h vec] assms(2)
    by (simp add: start_def hart_access Let_def)
  have bits: "bit (?mie OR MIE_MTIE) n" if "bit ?dl n" "n \<in> {1, 5, 9}" for n
    using that by (auto simp: bit_or_iff bit_and_iff status_bits)
  show ?thesis unfolding run
    by (intro exI [of _ "leave_status (?st OR MSTATUS_MIE)"] exI [of _ "?mie OR MIE_MTIE"] exI [of _ ?dl])
      (use mode bits assms in \<open>simp add: timerinit_run w_tp_def mret_def status_bits bit_or_iff\<close>)
qed

text \<open>What an interrupted program and the other harts see of the handler.\<close>

definition ticked :: "u64 \<Rightarrow> hart_regs \<Rightarrow> hart_regs \<Rightarrow> bool" where
  "ticked ts t t' \<longleftrightarrow> cells t' (CLINT_MTIMECMP (csr_mhartid t)) = cells t (CLINT_MTIMECMP (csr_mhartid t)) + 1000000 \<and> bit (csr_mip t') 1
     \<and> (hart_mode t', hart_pc t', reg_a0 t', reg_a1 t', reg_a2 t', reg_a3 t', reg_tp t')
       = (hart_mode t, hart_pc t, reg_a0 t, reg_a1 t, reg_a2 t, reg_a3 t, reg_tp t)
     \<and> (\<forall>a. \<not> own_cell ts (csr_mhartid t) a \<longrightarrow> cells t' a = cells t a)
     \<and> (\<forall>i a. unat i < NCPU \<and> i \<noteq> csr_mhartid t \<and> own_cell ts i a \<longrightarrow> cells t' a = cells t a)"

lemma tick_effect:
  assumes "scratch_layout ts" and "timer_ready ts vec t"
  shows "ticked ts t (timervec (machine_trap t))"
proof -
  let ?c = "cells (timervec (machine_trap t))" and ?i = "csr_mhartid t"
  have i: "unat ?i < NCPU" and m: "csr_mscratch t = scratch_at ts ?i" using assms(2) by (simp_all add: timer_ready_def)
  have other: "?c a = cells t a" if "\<not> own_cell ts ?i a" for a
  proof -
    have "a \<noteq> CLINT_MTIMECMP ?i" "a \<noteq> scratch_at ts ?i" "a \<noteq> scratch_at ts ?i + 8" "a \<noteq> scratch_at ts ?i + 16"
      using that own_cell_simps by blast+
    then show ?thesis unfolding timervec_run [OF assms] by (simp add: m)
  qed
  then have others: "?c a = cells t a" if "unat j < NCPU" "j \<noteq> ?i" "own_cell ts j a" for j a
    using own_cells_apart [OF assms(1) that(1) i that(2,3)] by blast
  have own: "?c (CLINT_MTIMECMP ?i) = cells t (CLINT_MTIMECMP ?i) + 1000000" by (simp add: timervec_run [OF assms])
  let ?t = "timervec (machine_trap t)"
  have regs: "bit (csr_mip ?t) 1" "(hart_mode ?t, hart_pc ?t, reg_a0 ?t, reg_a1 ?t, reg_a2 ?t, reg_a3 ?t, reg_tp ?t)
      = (hart_mode t, hart_pc t, reg_a0 t, reg_a1 t, reg_a2 t, reg_a3 t, reg_tp t)"
    by (simp_all add: timervec_run [OF assms] bit_or_iff)
  show ?thesis unfolding ticked_def using other others own regs by blast
qed

subsection \<open>Property\<close>

text \<open>
  C34 (invariant). \<open>start\<close> leaves machine mode for \<open>main\<close> in supervisor mode with paging off, the hart's number in \<open>tp\<close>,
  the supervisor's interrupts enabled, and the timer set one interval ahead; and from then on the timer keeps going without the kernel's help: whatever the kernel
  does with its own registers and the rest of memory (any state \<open>t\<close> in which \<open>timer_ready\<close> still holds), the interrupt is taken outside machine mode exactly when it is due,
  and \<open>timervec\<close> then moves \<open>mtimecmp\<close> one interval on, makes a supervisor software interrupt pending, and gives back the mode, the
  program counter and the registers it used. Only the cells of the hart's own scratch area and timer are written,
  and no other hart uses those. That \<open>mideleg\<close> cannot delegate the machine timer interrupt, bit 7, and can delegate the
  supervisor's, bits 1, 5 and 9, is what the kernel relies on when it writes \<open>0xffff\<close> there.
\<close>

theorem start_timer_runs:
  assumes "scratch_layout ts" and "unat (csr_mhartid h) < NCPU"
    and "\<not> bit (delegable h) 7" and "bit (delegable h) 1" and "bit (delegable h) 5" and "bit (delegable h) 9"
    and "s = start main ts vec h"
  shows "hart_mode s = SupervisorMode \<and> hart_pc s = main \<and> csr_satp s = 0 \<and> reg_tp s = csr_mhartid h
    \<and> bit (r_sie s) 1 \<and> bit (r_sie s) 5 \<and> bit (r_sie s) 9
    \<and> cells s (CLINT_MTIMECMP (csr_mhartid h)) = cells h CLINT_MTIME + 1000000 \<and> timer_ready ts vec s
    \<and> (\<forall>a. \<not> own_cell ts (csr_mhartid h) a \<longrightarrow> cells s a = cells h a)
    \<and> (\<forall>t. timer_ready ts vec t \<longrightarrow> hart_pc (machine_trap t) = vec \<and> timer_ready ts vec (timervec (machine_trap t))
        \<and> ticked ts t (timervec (machine_trap t))
        \<and> (hart_mode t \<noteq> MachineMode \<longrightarrow> timer_taken t = (cells t (CLINT_MTIMECMP (csr_mhartid t)) \<le> cells t CLINT_MTIME)))"
proof -
  let ?i = "csr_mhartid h"
  obtain st mie dl where s: "s = h\<lparr>hart_mode := SupervisorMode, hart_pc := main, csr_mstatus := st, csr_mepc := main,
     csr_satp := 0, csr_medeleg := 0xffff, csr_mideleg := dl, csr_mie := mie, csr_pmpaddr0 := 0x3fffffffffffff,
     csr_pmpcfg0 := 0xf, csr_mscratch := scratch_at ts ?i, csr_mtvec := vec, reg_tp := ?i,
     cells := (cells h)(CLINT_MTIMECMP ?i := cells h CLINT_MTIME + 1000000,
       scratch_at ts ?i + 24 := CLINT_MTIMECMP ?i, scratch_at ts ?i + 32 := 1000000)\<rparr>"
    and dl: "dl = 0xffff AND delegable h" and mie: "\<forall>n. bit dl n \<longrightarrow> n \<in> {1, 5, 9} \<longrightarrow> bit mie n" "bit mie 7"
    using start_run [OF assms(1,2), of main vec] assms(7) by metis
  have bits: "bit dl 1" "bit dl 5" "bit dl 9" "\<not> bit dl 7"
    using assms(3-6) by (simp_all add: dl bit_and_iff bit_numeral_rec)
  have 1: "hart_mode s = SupervisorMode \<and> hart_pc s = main \<and> csr_satp s = 0 \<and> reg_tp s = ?i
    \<and> bit (r_sie s) 1 \<and> bit (r_sie s) 5 \<and> bit (r_sie s) 9" "\<forall>a. \<not> own_cell ts ?i a \<longrightarrow> cells s a = cells h a"
    using bits mie(1) own_cell_simps by (auto simp: s r_sie_def bit_and_iff)
  have 2: "cells s (CLINT_MTIMECMP ?i) = cells h CLINT_MTIME + 1000000 \<and> timer_ready ts vec s"
    using scratch_cells [OF assms(1,2)] bits mie(2) assms(2) by (simp add: s timer_ready_def)
  have 3: "hart_pc (machine_trap t) = vec" "ticked ts t (timervec (machine_trap t))"
    "hart_mode t \<noteq> MachineMode \<Longrightarrow> timer_taken t = (cells t (CLINT_MTIMECMP (csr_mhartid t)) \<le> cells t CLINT_MTIME)"
    if "timer_ready ts vec t" for t
    using that tick_effect [OF assms(1) that] by (auto simp: machine_trap_def timer_ready_def timer_taken_def)
  show ?thesis using 1 2 3 tick_keeps [OF assms(1)] by blast
qed

definition reset_hart :: hart_regs where
  "reset_hart = \<lparr>csr_mhartid = 2, csr_mstatus = 0, csr_mepc = 0, csr_satp = 0, csr_medeleg = 0, csr_mideleg = 0, csr_mie = 0,
     csr_mip = 0, csr_pmpaddr0 = 0, csr_pmpcfg0 = 0, csr_mscratch = 0, csr_mtvec = 0, reg_tp = 0, reg_a0 = 0, reg_a1 = 0, reg_a2 = 0,
     reg_a3 = 0, hart_mode = MachineMode, hart_pc = 0x80000000, delegable = 0x222, cells = (\<lambda>_. 0)\<rparr>"

theorem start_timer_runs_witness:
  "hart_mode (start 0x80000100 0x80009000 0x80000200 reset_hart) = SupervisorMode
   \<and> hart_pc (start 0x80000100 0x80009000 0x80000200 reset_hart) = 0x80000100
   \<and> cells (start 0x80000100 0x80009000 0x80000200 reset_hart) 0x2004010 = 1000000"
proof -
  have "scratch_layout 0x80009000" by (simp add: scratch_layout_def NCPU_def)
  moreover have "unat (csr_mhartid reset_hart) < NCPU" "\<not> bit (delegable reset_hart) 7" "bit (delegable reset_hart) 1"
    "bit (delegable reset_hart) 5" "bit (delegable reset_hart) 9"
    by (simp_all add: reset_hart_def NCPU_def bit_numeral_rec)
  ultimately show ?thesis
    using start_timer_runs [of "0x80009000" reset_hart _ "0x80000100" "0x80000200"]
    by (simp add: reset_hart_def CLINT_MTIMECMP_def)
qed

end
