(* ===== verification/Thread_Group.thy ===== *)
theory Thread_Group
  imports Proc_Life
begin

text \<open>
  The thread groups that \<open>thread_create\<close> builds: the circular list through \<open>group_next\<close> and \<open>group_prev\<close>, the leader's
  count and the thread ids.
\<close>

subsection \<open>The invariant of a group\<close>

primrec back_links :: "(nat \<Rightarrow> nat option) \<Rightarrow> nat \<Rightarrow> nat list \<Rightarrow> bool" where
  "back_links pv q [] \<longleftrightarrow> True"
| "back_links pv q (y # ys) \<longleftrightarrow> pv y = Some q \<and> back_links pv y ys"

text \<open>
  \<open>l\<close> leads the group whose threads are \<open>ys\<close>, the youngest first; the threads are numbered in the order in which they
  were created.
\<close>

definition thread_group :: "(nat \<Rightarrow> proc) \<Rightarrow> nat \<Rightarrow> nat list \<Rightarrow> bool" where
  "thread_group P l ys \<longleftrightarrow>
     ring (\<lambda>i. group_next (P i)) l (l # ys)
     \<and> back_links (\<lambda>i. group_prev (P i)) l ys \<and> group_prev (P l) = Some (last (l # ys))
     \<and> (\<forall>q \<in> set (l # ys). group_leader (P q) = Some l)
     \<and> num_children (P l) = int (length ys) \<and> map (\<lambda>q. tid (P q)) ys = map int (rev [1..<Suc (length ys)])"

text \<open>A process that has created no thread is the leader of the empty group once \<open>thread_create\<close> has set its links.\<close>

definition alone :: "nat \<Rightarrow> proc \<Rightarrow> proc" where
  "alone p x = (if group_leader x = None
     then x\<lparr>group_leader := Some p, group_next := Some p, group_prev := Some p, num_children := 0, ref_count := 1\<rparr> else x)"

lemma alone_group:
  assumes "group_leader (P p) = None" and "p < NPROC"
  shows "thread_group (P(p := alone p (P p))) p []"
  using assms by (simp add: thread_group_def alone_def ring_def)

lemma alone_same: "thread_group P l ys \<Longrightarrow> p \<in> set (l # ys) \<Longrightarrow> P(p := alone p (P p)) = P"
  by (auto simp: thread_group_def alone_def)

lemma ring_links_cong: "(\<And>q. q \<in> set xs \<Longrightarrow> nx q = nx' q) \<Longrightarrow> ring_links nx l xs = ring_links nx' l xs"
  by (induction nx l xs rule: ring_links.induct) auto

lemma back_links_cong: "(\<And>q. q \<in> set ys \<Longrightarrow> pv q = pv' q) \<Longrightarrow> back_links pv q ys = back_links pv' q ys"
  by (induction ys arbitrary: q) auto

subsection \<open>Joining and leaving\<close>

definition joined :: "nat \<Rightarrow> nat \<Rightarrow> nat \<Rightarrow> (nat \<Rightarrow> proc) \<Rightarrow> nat \<Rightarrow> proc" where
  "joined l n np P =
     (let P1 = P(l := (P l)\<lparr>num_children := num_children (P l) + 1, ref_count := ref_count (P l) + 1\<rparr>);
          P2 = P1(np := (P1 np)\<lparr>tid := num_children (P1 l), group_leader := Some l, group_prev := Some l, group_next := Some n\<rparr>);
          P3 = P2(n := (P2 n)\<lparr>group_prev := Some np\<rparr>)
      in P3(l := (P3 l)\<lparr>group_next := Some np\<rparr>))"

lemma pset_procs: "pset i f (s\<lparr>procs := P\<rparr>) = Done () (s\<lparr>procs := P(i := f (P i))\<rparr>)"
  by simp

lemma thread_link_run:
  assumes "P = (procs s)(p := alone p (procs s p))" and "group_next (P l) = Some n"
  shows "thread_link p l np s = Done () (s\<lparr>procs := joined l n np P\<rparr>)"
proof -
  have first: "pset p (\<lambda>x. if group_leader x = None
      then x\<lparr>group_leader := Some p, group_next := Some p, group_prev := Some p, num_children := 0, ref_count := 1\<rparr>
      else x) s = Done () (s\<lparr>procs := P\<rparr>)"
    by (simp add: assms(1) alone_def [abs_def])
  let ?P1 = "P(l := (P l)\<lparr>num_children := num_children (P l) + 1, ref_count := ref_count (P l) + 1\<rparr>)"
  have n: "group_next (?P1 l) = Some n" using assms(2) by simp
  have get: "pget l id (s\<lparr>procs := ?P1\<rparr>) = Done (?P1 l) (s\<lparr>procs := ?P1\<rparr>)" by simp
  show ?thesis
    unfolding thread_link_def kseq_run first outcome.case pset_procs kbind_run get n option.case joined_def Let_def
    by simp
qed

lemma joined_group:
  assumes "thread_group P l ys" and "group_next (P l) = Some n" and "np \<notin> set (l # ys)" and "np < NPROC"
  shows "thread_group (joined l n np P) l (np # ys)"
proof (cases ys)
  case Nil
  then show ?thesis using assms by (auto simp: thread_group_def joined_def ring_def)
next
  case (Cons y zs)
  let ?Q = "joined l n np P"
  have g: "ring_links (\<lambda>i. group_next (P i)) l ys" "n = y" "back_links (\<lambda>i. group_prev (P i)) y zs" "y \<noteq> l" "l \<notin> set zs"
    "y \<notin> set zs" "np \<noteq> y" "np \<noteq> l" "np \<notin> set zs"
    using assms(1-3) Cons by (auto simp: thread_group_def ring_def)
  have q: "group_next (?Q l) = Some np" "group_next (?Q np) = Some y" "group_prev (?Q np) = Some l" "group_prev (?Q y) = Some np"
    "group_prev (?Q l) = group_prev (P l)" "group_leader (?Q np) = Some l" "tid (?Q np) = num_children (P l) + 1"
    "num_children (?Q l) = num_children (P l) + 1"
    "\<And>i. group_leader (?Q i) = (if i = np then Some l else group_leader (P i))" "\<And>i. tid (?Q i) = (if i = np then num_children (P l) + 1 else tid (P i))"
    using g by (auto simp: joined_def)
  have nxt: "group_next (?Q i) = group_next (P i)" if "i \<in> set ys" for i
    using that g Cons by (auto simp: joined_def)
  have prv: "group_prev (?Q i) = group_prev (P i)" if "i \<in> set zs" for i
    using that g by (auto simp: joined_def)
  have "ring_links (\<lambda>i. group_next (?Q i)) l ys"
    using g(1) ring_links_cong [of ys "\<lambda>i. group_next (?Q i)" "\<lambda>i. group_next (P i)" l] nxt by simp
  moreover have "back_links (\<lambda>i. group_prev (?Q i)) y zs"
    using g(3) back_links_cong [of zs "\<lambda>i. group_prev (?Q i)" "\<lambda>i. group_prev (P i)" y] prv by simp
  moreover have "set (l # ys) \<subseteq> {..<NPROC}" "distinct (l # ys)" using assms(1) by (simp_all add: thread_group_def ring_def)
  ultimately have "ring (\<lambda>i. group_next (?Q i)) l (l # np # ys)" "back_links (\<lambda>i. group_prev (?Q i)) l (np # ys)"
    using assms(3,4) q(1-4) g(4,7,8) Cons by (simp_all add: ring_def)
  moreover have "map (\<lambda>q. tid (?Q q)) (np # ys) = map int (rev [1..<Suc (length (np # ys))])"
  proof -
    have "map (\<lambda>q. tid (?Q q)) ys = map (\<lambda>q. tid (P q)) ys" using q(10) assms(3) by (auto intro: map_cong)
    also have "\<dots> = map int (rev [1..<Suc (length ys)])" using assms(1) by (simp only: thread_group_def)
    finally show ?thesis using q(7) assms(1) by (simp del: upt_Suc add: upt_Suc_append thread_group_def)
  qed
  moreover have "group_prev (?Q l) = Some (last (l # np # ys))" "num_children (?Q l) = int (length (np # ys))"
    "\<forall>i \<in> set (l # np # ys). group_leader (?Q i) = Some l"
    using assms(1) q(5,8,9) Cons by (simp_all add: thread_group_def)
  ultimately show ?thesis unfolding thread_group_def by blast
qed

text \<open>Taking the newest member out again gives the group back.\<close>

definition left_group :: "nat \<Rightarrow> nat \<Rightarrow> nat \<Rightarrow> (nat \<Rightarrow> proc) \<Rightarrow> nat \<Rightarrow> proc" where
  "left_group l a b P =
     (let P1 = P(a := (P a)\<lparr>group_next := Some b\<rparr>); P2 = P1(b := (P1 b)\<lparr>group_prev := Some a\<rparr>)
      in P2(l := (P2 l)\<lparr>num_children := num_children (P2 l) - 1, ref_count := ref_count (P2 l) - 1\<rparr>))"

lemma left_joined:
  assumes "thread_group P l ys" and "group_next (P l) = Some n" and "np \<notin> set (l # ys)"
  shows "left_group l l n (joined l n np P) = P(np := joined l n np P np)"
proof -
  have "group_prev (P n) = Some l"
    using assms(1,2) by (cases ys) (auto simp: thread_group_def ring_def)
  moreover have "n \<noteq> np" "l \<noteq> np" using assms by (cases ys; auto simp: thread_group_def ring_def)+
  ultimately show ?thesis using assms(2) by (auto simp: left_group_def joined_def fun_eq_iff Let_def)
qed

lemma thread_group_cong:
  assumes "\<And>i. i \<in> set (l # ys) \<Longrightarrow> Q i = P i"
  shows "thread_group Q l ys = thread_group P l ys"
proof -
  have "ring_links (\<lambda>i. group_next (Q i)) l (l # ys) = ring_links (\<lambda>i. group_next (P i)) l (l # ys)"
    using assms by (intro ring_links_cong) simp
  moreover have "back_links (\<lambda>i. group_prev (Q i)) l ys = back_links (\<lambda>i. group_prev (P i)) l ys"
    using assms by (intro back_links_cong) simp
  moreover have "map (\<lambda>q. tid (Q q)) ys = map (\<lambda>q. tid (P q)) ys" using assms by simp
  ultimately show ?thesis using assms by (simp add: thread_group_def ring_def del: map_eq_conv upt_Suc)
qed

definition group_locked :: "nat \<Rightarrow> nat \<Rightarrow> nat \<Rightarrow> 'z kproc_scheme \<Rightarrow> bool" where
  "group_locked p l np s \<longleftrightarrow> holding (ProcLock p) s \<and> holding (ProcLock l) s \<and> holding (ProcLock np) s
     \<and> \<not> sie (mycpu s) \<and> (if l = p then 2 else 3) \<le> noff (mycpu s) \<and> np \<noteq> p \<and> np \<noteq> l"

lemma thread_unlock_run:
  assumes "group_locked p l np s"
  shows "\<exists>u. thread_unlock p l np s = Done () u \<and> procs u = procs s"
proof -
  have h: "holding (ProcLock p) s" "holding (ProcLock l) s" "holding (ProcLock np) s" "\<not> sie (mycpu s)"
    "(if l = p then 2 else 3) \<le> noff (mycpu s)" "np \<noteq> p" "np \<noteq> l"
    using assms by (simp_all add: group_locked_def)
  let ?a = "unhold (ProcLock p) s"
  let ?b = "if l = p then ?a else unhold (ProcLock l) ?a"
  have "release (ProcLock p) s = Done () ?a" using h by (intro release_ok) (auto split: if_splits)
  moreover have "kwhen (l \<noteq> p) (release (ProcLock l)) ?a = Done () ?b"
    using h by (auto simp: kwhen_def release_ok split: if_splits)
  moreover have "release (ProcLock np) ?b = Done () (unhold (ProcLock np) ?b)"
    using h by (intro release_ok) (auto split: if_splits)
  ultimately show ?thesis by (simp add: thread_unlock_def kseq_run)
qed

lemma thread_create_bad_run:
  assumes "group_locked p l np s" and "group_prev (procs s np) = Some a" and "group_next (procs s np) = Some b"
  shows "\<exists>u. thread_create_bad p l np s = Done (- 1) u \<and> procs u = left_group l a b (procs s)"
proof -
  let ?t = "s\<lparr>procs := left_group l a b (procs s)\<rparr>"
  have "group_locked p l np ?t" using assms(1) by (simp add: group_locked_def)
  then obtain u where u: "thread_unlock p l np ?t = Done () u" "procs u = procs ?t"
    using thread_unlock_run by blast
  have run: "thread_create_bad p l np s = kseq (thread_unlock p l np) (kret (- 1)) ?t"
    using assms(2,3) by (simp add: thread_create_bad_def kbind_run kseq_run left_group_def Let_def)
  show ?thesis using u by (simp add: run kseq_run)
qed

subsection \<open>The order of the locks at exit\<close>

text \<open>
  \<open>wait\<close> takes \<open>wait_lock\<close> and then the lock of a child; \<open>thread_exit\<close> (like \<open>exit\<close>) takes \<open>wait_lock\<close> while it holds its own
  lock. Run on two harts at the same time they wait for each other for ever.
\<close>

lemma wait_spins_on_child:
  assumes "myproc s = Some p" and "lock_free WaitLock s" and "c < NPROC" and "p_parent (procs s c) = Some p"
    and "\<forall>i < c. p_parent (procs s i) \<noteq> Some p"
    and "lk_locked (locks s (ProcLock c)) \<noteq> 0" and "lk_cpu (locks s (ProcLock c)) \<noteq> Some (hart s)"
  shows "wait addr s = Spin (ProcLock c)"
proof -
  let ?h = "hold WaitLock s"
  have "acquire (ProcLock c) ?h = Spin (ProcLock c)"
    using assms(6,7) by (intro acquire_other) (simp_all add: hold_def)
  moreover have "wait_scan p addr (is @ js) hk ?h = wait_scan p addr js hk ?h" if "\<forall>i \<in> set is. i < c" for "is" js hk
    using that assms(5) by (induction "is" arbitrary: hk) (auto simp: kbind_run)
  from this [of "[0..<c]" "[c..<NPROC]" False] have "wait_scan p addr [0..<NPROC] False ?h = wait_scan p addr [c..<NPROC] False ?h"
    using upt_add_eq_append [of 0 c "NPROC - c"] assms(3) by simp
  ultimately show ?thesis
    using assms(1-4) by (simp add: wait_def wait_loop_def kseq_run kbind_run acquire_ok upt_conv_Cons)
qed

theorem exit_wait_deadlock:
  assumes "hart s = 0" and "myproc s = Some p" and "lock_free WaitLock s"
    and "c < NPROC" and "p_parent (procs s c) = Some p" and "\<forall>i < c. p_parent (procs s i) \<noteq> Some p"
    and "lk_locked (locks s (ProcLock c)) = 1" and "lk_cpu (locks s (ProcLock c)) = Some 1"
    and "group_leader (procs s c) = Some l" and "l \<noteq> c" and "lock_free (ProcLock l) s"
    and "0 < noff (cpus s 1)" and "\<not> sie (cpus s 1)"
  shows "wait addr s = Spin (ProcLock c) \<and>
    thread_exit_thread c ((hold WaitLock s)\<lparr>hart := 1\<rparr>) = (Spin WaitLock :: (_, 'a) outcome)"
proof
  show "wait addr s = Spin (ProcLock c)"
    using assms by (intro wait_spins_on_child [where p = p]) simp_all
  let ?u = "(hold WaitLock s)\<lparr>hart := 1\<rparr>"
  let ?v = "unhold (ProcLock l) (hold (ProcLock l) ?u)"
  have a: "acquire (ProcLock l) ?u = Done () (hold (ProcLock l) ?u)" using assms(11) by (intro acquire_ok) simp
  have r: "release (ProcLock l) (procs_update f (hold (ProcLock l) ?u)) = Done () (procs_update f ?v)" for f
    using assms(1,12) by (subst release_ok) (simp_all add: hold_def holding_def cpu_defs)
  have "acquire WaitLock (procs_update f ?v) = Spin WaitLock" for f
    using assms(1) by (intro acquire_other) (simp_all add: hold_def unhold_def cpu_defs)
  then show "thread_exit_thread c ?u = (Spin WaitLock :: (_, 'a) outcome)"
    using assms(9,10) by (simp add: thread_exit_thread_def kbind_run kseq_run kwhen_def a r Let_def del: One_nat_def)
qed

subsection \<open>Property\<close>

text \<open>
  C11 (invariant). When \<open>thread_create\<close> links the slot it got into the group of its caller (which becomes a group
  of its own first, if it had none), the group stays a doubly linked ring from the leader through every thread, youngest
  first, with the threads numbered in the order of their creation and the leader's count equal to their number; slots
  outside the group are not touched. When the stack page cannot be allocated the error path takes the slot out again,
  and the group is what it was.
\<close>

theorem thread_create_keeps_group:
  assumes "group_leader (procs s p) = None \<and> l = p \<and> ys = [] \<and> p < NPROC \<or> thread_group (procs s) l ys \<and> p \<in> set (l # ys)"
    and "np \<notin> set (l # ys)" and "np < NPROC"
  shows "\<exists>t. thread_link p l np s = Done () t \<and> thread_group (procs t) l (np # ys)
    \<and> tid (procs t np) = int (length ys) + 1 \<and> (\<forall>i. i \<notin> set (l # np # ys) \<longrightarrow> procs t i = procs s i)
    \<and> (group_locked p l np s \<longrightarrow> (\<exists>u. thread_create_bad p l np t = Done (- 1) u \<and> thread_group (procs u) l ys
         \<and> (\<forall>i. i \<noteq> np \<and> i \<noteq> p \<longrightarrow> procs u i = procs s i)))"
proof -
  define P where "P = (procs s)(p := alone p (procs s p))"
  have P: "thread_group P l ys" "p \<in> set (l # ys)"
    using assms(1) alone_group [of "procs s" p] alone_same [of "procs s" l ys p] by (auto simp: P_def)
  obtain n where n: "group_next (P l) = Some n" "n \<in> set (l # ys)"
    using P(1) by (cases ys) (auto simp: thread_group_def ring_def)
  let ?t = "s\<lparr>procs := joined l n np P\<rparr>"
  have group: "thread_group (procs ?t) l (np # ys)" using joined_group [OF P(1) n(1) assms(2,3)] by simp
  have np: "group_prev (procs ?t np) = Some l" "group_next (procs ?t np) = Some n"
    using assms(2) n(2) by (auto simp: joined_def Let_def)
  have out: "procs ?t i = procs s i" if "i \<notin> set (l # np # ys)" for i
    using that n(2) P(2) by (auto simp: joined_def Let_def P_def)
  have bad: "\<exists>u. thread_create_bad p l np ?t = Done (- 1) u \<and> thread_group (procs u) l ys
      \<and> (\<forall>i. i \<noteq> np \<and> i \<noteq> p \<longrightarrow> procs u i = procs s i)" if "group_locked p l np s"
  proof -
    have "group_locked p l np ?t" using that by (simp add: group_locked_def)
    from thread_create_bad_run [OF this np] obtain u where u: "thread_create_bad p l np ?t = Done (- 1) u"
      "procs u = P(np := joined l n np P np)"
      using left_joined [OF P(1) n(1) assms(2)] by auto
    have "thread_group (procs u) l ys"
      using P(1) assms(2) by (subst thread_group_cong [of _ _ _ P]) (auto simp: u(2))
    then show ?thesis using u by (auto simp: P_def)
  qed
  have "tid (procs ?t np) = int (length ys) + 1" using group by (simp add: thread_group_def)
  then show ?thesis using thread_link_run [OF P_def n(1)] group out bad by blast
qed

theorem thread_create_keeps_group_witness:
  "\<exists>t. thread_link 0 0 2 small_ptable = Done () t \<and> thread_group (procs t) 0 [2]
     \<and> (\<exists>t'. thread_link 2 0 3 t = Done () t' \<and> thread_group (procs t') 0 [3, 2] \<and> tid (procs t' 3) = 2)"
proof -
  obtain t where t: "thread_link 0 0 2 small_ptable = Done () t" "thread_group (procs t) 0 [2]"
    using thread_create_keeps_group [of small_ptable 0 0 "[]" 2] by (auto simp: no_proc_def NPROC_def)
  then have "\<exists>t'. thread_link 2 0 3 t = Done () t' \<and> thread_group (procs t') 0 [3, 2] \<and> tid (procs t' 3) = int (length [2]) + 1"
    using thread_create_keeps_group [of t 2 0 "[2]" 3] by (auto simp: NPROC_def)
  with t show ?thesis by auto
qed

end
