(* ===== verification/Log_Space.thy ===== *)
theory Log_Space
  imports Log_Commit
begin

text \<open>
  The space of the log: what \<open>begin_op\<close> reserves for an operation and what \<open>log_write\<close> uses of it.
\<close>

subsection \<open>Reservations\<close>

text \<open>
  \<open>bs\<close> gives for every outstanding operation the number of blocks it may still log; what is in the log and what may come
  fits into the header's array.
\<close>

definition log_room :: "'z klog_scheme \<Rightarrow> nat list \<Rightarrow> bool" where
  "log_room s bs \<longleftrightarrow> 0 \<le> lh_n s \<and> log_outstanding s = int (length bs) \<and> (\<forall>b \<in> set bs. b \<le> MAXOPBLOCKS)
     \<and> lh_n s + int (sum_list bs) \<le> int LOGSIZE"

lemma sum_list_at_most: "\<forall>b \<in> set bs. b \<le> k \<Longrightarrow> sum_list bs \<le> length bs * k" for k :: nat
  by (induction bs) auto

lemma sum_list_spend: "i < length bs \<Longrightarrow> 0 < bs ! i \<Longrightarrow> sum_list bs = Suc (sum_list (bs[i := bs ! i - 1]))" for bs :: "nat list"
  by (induction bs arbitrary: i) (auto split: nat.splits simp: less_Suc_eq_0_disj)

lemma sum_list_drop_one: "i < length bs \<Longrightarrow> sum_list (take i bs @ drop (Suc i) bs) \<le> sum_list bs" for bs :: "nat list"
proof -
  assume "i < length bs"
  from id_take_nth_drop [OF this] have "sum_list bs = sum_list (take i bs @ bs ! i # drop (Suc i) bs)" by simp
  then show ?thesis by simp
qed

lemma klog_hold [simp]:
  "lh_n (hold l s) = lh_n s" "lh_block (hold l s) = lh_block s" "log_outstanding (hold l s) = log_outstanding s"
  "log_size (hold l s) = log_size s" "log_committing (hold l s) = log_committing s"
  "lh_n_update f (hold l s) = hold l (lh_n_update f s)" "lh_block_update g (hold l s) = hold l (lh_block_update g s)"
  "log_outstanding_update h (hold l s) = hold l (log_outstanding_update h s)"
  "quiet p (lh_n_update f s) = quiet p s" "quiet p (lh_block_update g s) = quiet p s"
  "quiet p (log_outstanding_update h s) = quiet p s"
  by (simp_all add: hold_def quiet_def machine_ok_def myproc_def cpu_defs)

subsection \<open>begin_op\<close>

lemma begin_op_run:
  assumes "quiet p s"
  shows "begin_op s = (if log_committing s \<or> lh_n s + (log_outstanding s + 1) * int MAXOPBLOCKS > int LOGSIZE
    then Block (Some LogChan) (asleep p LogChan LogLock (hold LogLock s))
    else Done () (s\<lparr>log_outstanding := log_outstanding s + 1\<rparr>))"
proof -
  have ok: "machine_ok (hold LogLock s)" "myproc (hold LogLock s) = Some p" "lock_free (ProcLock p) (hold LogLock s)"
    "holding LogLock (hold LogLock s)" "LogLock \<noteq> ProcLock p" "noff (mycpu (hold LogLock s)) = 1"
    using quietD [OF assms] by (auto simp: machine_ok_hold)
  have "(sleep LogChan LogLock (hold LogLock s) :: (_, unit) outcome) = Block (Some LogChan) (asleep p LogChan LogLock (hold LogLock s))"
    using sleep_run [OF ok(1-5)] ok(6) by simp
  then show ?thesis
    using assms by (simp add: begin_op_def begin_op_loop_def kseq_run kmod_def acquire_quiet [OF assms] release_quiet [where p = p])
qed

subsection \<open>log_write\<close>

definition log_put :: "nat \<Rightarrow> 'z klog_scheme \<Rightarrow> 'z klog_scheme" where
  "log_put b s = (let bn = b_blockno (bufs s b); i = log_slot (lh_block s) (nat (lh_n s)) bn
     in if int i = lh_n s
        then s\<lparr>lh_block := (lh_block s)(i := bn), bufs := (bufs s)(b := (bufs s b)\<lparr>b_refcnt := b_refcnt (bufs s b) + 1\<rparr>),
               lh_n := lh_n s + 1\<rparr>
        else s\<lparr>lh_block := (lh_block s)(i := bn)\<rparr>)"

lemma log_write_run:
  assumes "quiet p s" and "1 \<le> log_outstanding s"
  shows "log_write b s = (if lh_n s \<ge> int LOGSIZE \<or> lh_n s \<ge> log_size s - 1 then Panic ''too big a transaction''
    else Done () (log_put b s))"
proof -
  have pin: "bpin b (hold LogLock t) = Done () (hold LogLock (t\<lparr>bufs := (bufs t)(b := (bufs t b)\<lparr>b_refcnt := b_refcnt (bufs t b) + 1\<rparr>)\<rparr>))"
    if q: "quiet p t" for t :: "'a klog_scheme"
  proof -
    have "machine_ok (hold LogLock (t\<lparr>bufs := f\<rparr>))" "lock_free BcacheLock (hold LogLock (t\<lparr>bufs := f\<rparr>))" for f
      using quietD [of p "t\<lparr>bufs := f\<rparr>"] q by (simp_all add: machine_ok_hold)
    note rel = release_hold_same [OF this]
    have free: "lock_free BcacheLock (hold LogLock t)" using quietD [OF q] by simp
    show ?thesis by (simp add: bpin_def kseq_run acquire_ok [OF free] rel)
  qed
  let ?bn = "b_blockno (bufs s b)"
  let ?i = "log_slot (lh_block s) (nat (lh_n s)) ?bn"
  let ?t = "s\<lparr>lh_block := (lh_block s)(?i := ?bn)\<rparr>"
  have "quiet p ?t" using assms(1) by simp
  note p = pin [OF this]
  show ?thesis
    using assms p
    by (auto simp: log_write_def kseq_run kmod_def kwhen_def Let_def acquire_quiet [OF assms(1)] release_quiet [where p = p] log_put_def)
qed

text \<open>A block is absorbed into its slot if it is in the log already, and gets a new slot otherwise.\<close>

abbreviation logged_block :: "'z klog_scheme \<Rightarrow> u32 \<Rightarrow> bool" where
  "logged_block s bn \<equiv> \<exists>i < nat (lh_n s). lh_block s i = bn"

lemma log_slot_cases:
  "log_slot blocks n bn = n \<and> (\<forall>i < n. blocks i \<noteq> bn) \<or> log_slot blocks n bn < n \<and> blocks (log_slot blocks n bn) = bn"
proof (cases "find (\<lambda>i. blocks i = bn) [0..<n]")
  case None
  then have "\<forall>i < n. blocks i \<noteq> bn" by (simp add: find_None_iff)
  then show ?thesis using None by (simp add: log_slot_def)
next
  case (Some i)
  then have "i < n" "blocks i = bn" unfolding find_Some_iff by (auto simp: less_le_trans)
  then show ?thesis using Some by (simp add: log_slot_def)
qed

lemma log_put_facts:
  assumes "0 \<le> lh_n s"
  shows "lh_n (log_put b s) = (if logged_block s (b_blockno (bufs s b)) then lh_n s else lh_n s + 1)"
    and "logged_block (log_put b s) (b_blockno (bufs s b))"
    and "logged_block s bn \<Longrightarrow> logged_block (log_put b s) bn"
    and "log_outstanding (log_put b s) = log_outstanding s"
proof -
  let ?bn = "b_blockno (bufs s b)"
  define i where "i = log_slot (lh_block s) (nat (lh_n s)) ?bn"
  have c: "i = nat (lh_n s) \<and> \<not> logged_block s ?bn \<or> i < nat (lh_n s) \<and> lh_block s i = ?bn"
    using log_slot_cases [of "lh_block s" "nat (lh_n s)" ?bn] by (auto simp: i_def)
  have e: "int i = lh_n s \<longleftrightarrow> i = nat (lh_n s)" using assms by auto
  have put: "lh_n (log_put b s) = (if i = nat (lh_n s) then lh_n s + 1 else lh_n s)"
    "lh_block (log_put b s) = (lh_block s)(i := ?bn)" "log_outstanding (log_put b s) = log_outstanding s"
    by (simp_all add: log_put_def Let_def i_def [symmetric] e)
  show "lh_n (log_put b s) = (if logged_block s ?bn then lh_n s else lh_n s + 1)"
    using c put(1) by auto
  show "logged_block (log_put b s) ?bn"
    using c
  proof
    assume "i = nat (lh_n s) \<and> \<not> logged_block s ?bn"
    then show ?thesis using put(1,2) assms by (intro exI [of _ i]) simp
  next
    assume "i < nat (lh_n s) \<and> lh_block s i = ?bn"
    then show ?thesis using put(1,2) by (intro exI [of _ i]) simp
  qed
  show "logged_block (log_put b s) bn" if L: "logged_block s bn"
  proof -
    obtain j where j: "j < nat (lh_n s)" "lh_block s j = bn" using L by blast
    then have "lh_block (log_put b s) j = bn" using c put(2) by auto
    moreover have "j < nat (lh_n (log_put b s))" using j(1) put(1) by auto
    ultimately show ?thesis by blast
  qed
  show "log_outstanding (log_put b s) = log_outstanding s" by (rule put(3))
qed

subsection \<open>end_op\<close>

text \<open>An operation that ends while others are outstanding gives its space back and wakes those that wait for it.\<close>

lemma end_op_run:
  assumes "quiet p s" and "1 < log_outstanding s" and "\<not> log_committing s"
  shows "end_op s = Done () (s\<lparr>log_outstanding := log_outstanding s - 1\<rparr>)"
proof -
  let ?t = "s\<lparr>log_outstanding := log_outstanding s - 1\<rparr>"
  have q: "quiet p ?t" using assms(1) by simp
  have "wakeup LogChan (hold LogLock ?t) = Done () (hold LogLock ?t)" by (rule wakeup_quiet(1) [OF q]) simp_all
  then show ?thesis
    using assms release_quiet [OF q, of LogLock]
    by (simp add: end_op_def kseq_run kbind_run kmod_def kwhen_def acquire_quiet [OF assms(1)])
qed

subsection \<open>Property\<close>

text \<open>
  C21 (bounds). The log never overflows: \<open>begin_op\<close> lets an operation start only when ten blocks for each outstanding
  operation and for itself still fit, and waits otherwise; as long as every operation logs at most ten blocks, \<open>log_write\<close>
  finds room in the header's array, absorbs a block that is in the log already, and keeps every block that was there; the
  space of an operation that ends is free again. With a log of \<open>LOGSIZE\<close> blocks, header included, as mkfs makes it,
  \<open>log_write\<close> nevertheless panics on the thirtieth block of such a transaction.
\<close>

theorem log_space_reserved:
  assumes "quiet p s" and "log_room s bs"
  shows "lh_n s \<le> int LOGSIZE
    \<and> (begin_op s = Done () (s\<lparr>log_outstanding := log_outstanding s + 1\<rparr>)
         \<and> log_room (s\<lparr>log_outstanding := log_outstanding s + 1\<rparr>) (bs @ [MAXOPBLOCKS])
       \<or> begin_op s = Block (Some LogChan) (asleep p LogChan LogLock (hold LogLock s))
         \<and> (log_committing s \<or> int LOGSIZE < lh_n s + (int (length bs) + 1) * int MAXOPBLOCKS))
    \<and> (\<forall>i < length bs. 0 < bs ! i \<longrightarrow>
         (if lh_n s < log_size s - 1
          then \<exists>t. log_write b s = Done () t \<and> log_room t (bs[i := bs ! i - 1]) \<and> logged_block t (b_blockno (bufs s b))
            \<and> (\<forall>bn. logged_block s bn \<longrightarrow> logged_block t bn)
            \<and> (logged_block s (b_blockno (bufs s b)) \<longrightarrow> lh_n t = lh_n s)
          else log_write b s = Panic ''too big a transaction''))
    \<and> (\<forall>i < length bs. 1 < length bs \<and> \<not> log_committing s \<longrightarrow>
         (\<exists>t. end_op s = Done () t \<and> log_room t (take i bs @ drop (Suc i) bs)))"
proof -
  have r: "0 \<le> lh_n s" "log_outstanding s = int (length bs)" "\<forall>x \<in> set bs. x \<le> MAXOPBLOCKS"
    "lh_n s + int (sum_list bs) \<le> int LOGSIZE"
    using assms(2) by (simp_all add: log_room_def)
  have "int (sum_list bs) \<le> int (length bs * MAXOPBLOCKS)"
    using sum_list_at_most [OF r(3)] by (simp only: of_nat_le_iff)
  then have b: "log_room (s\<lparr>log_outstanding := log_outstanding s + 1\<rparr>) (bs @ [MAXOPBLOCKS])"
    if "lh_n s + (int (length bs) + 1) * int MAXOPBLOCKS \<le> int LOGSIZE"
    using that r by (simp add: log_room_def algebra_simps)
  have w: "if lh_n s < log_size s - 1
      then \<exists>t. log_write b s = Done () t \<and> log_room t (bs[i := bs ! i - 1]) \<and> logged_block t (b_blockno (bufs s b))
        \<and> (\<forall>bn. logged_block s bn \<longrightarrow> logged_block t bn) \<and> (logged_block s (b_blockno (bufs s b)) \<longrightarrow> lh_n t = lh_n s)
      else log_write b s = Panic ''too big a transaction''" if i: "i < length bs" "0 < bs ! i" for i
  proof -
    have "lh_n s < int LOGSIZE" "1 \<le> log_outstanding s" using sum_list_spend [OF i] r i by auto
    then have run: "log_write b s = (if lh_n s < log_size s - 1 then Done () (log_put b s) else Panic ''too big a transaction'')"
      using log_write_run [OF assms(1), of b] by auto
    have "\<forall>x \<in> set (bs[i := bs ! i - 1]). x \<le> MAXOPBLOCKS"
      using r(3) i by (auto dest!: in_set_conv_nth [THEN iffD1] simp: nth_list_update split: if_splits) (meson diff_le_self le_trans nth_mem)
    then have "log_room (log_put b s) (bs[i := bs ! i - 1])"
      using sum_list_spend [OF i] r log_put_facts(1,4) [OF r(1), where b = b] by (simp add: log_room_def)
    then show ?thesis using run log_put_facts(1-3) [OF r(1), where b = b] by simp
  qed
  have e: "\<exists>t. end_op s = Done () t \<and> log_room t (take i bs @ drop (Suc i) bs)"
    if i: "i < length bs" "1 < length bs" "\<not> log_committing s" for i
  proof -
    have "log_room (s\<lparr>log_outstanding := log_outstanding s - 1\<rparr>) (take i bs @ drop (Suc i) bs)"
      using r i sum_list_drop_one [OF i(1)] by (auto simp: log_room_def of_nat_diff dest: in_set_takeD in_set_dropD)
    then show ?thesis using end_op_run [OF assms(1)] r(2) i by auto
  qed
  show ?thesis using b w e r begin_op_run [OF assms(1)] by auto
qed

theorem log_space_reserved_witness:
  "begin_op (log_vm 0 dirty_bufs (\<lambda>_ _. 0)) = Block (Some LogChan)
       (asleep 0 LogChan LogLock (hold LogLock (log_vm 0 dirty_bufs (\<lambda>_ _. 0))))
   \<and> (\<exists>t. log_write 0 ((log_vm 0 dirty_bufs (\<lambda>_ _. 0))\<lparr>log_outstanding := 1\<rparr>) = Done () t \<and> log_room t [9])
   \<and> log_write 0 ((log_vm 29 dirty_bufs (\<lambda>_ _. 0))\<lparr>log_outstanding := 3\<rparr>) = Panic ''too big a transaction''"
proof -
  let ?s = "log_vm 0 dirty_bufs (\<lambda>_ _. 0)"
  have q: "quiet 0 (log_vm n dirty_bufs (\<lambda>_ _. 0))" for n
    using log_vm_held [OF dirty_contents, of n "\<lambda>_ _. 0"] by (simp add: held_def)
  have f: "log_committing (log_vm n B D)" "log_outstanding (log_vm n B D) = 0" "log_size (log_vm n B D) = 30" for n B D
    by (simp_all add: log_vm_def kvirtio.defs)
  have "log_room ?s []" "log_room (?s\<lparr>log_outstanding := 1\<rparr>) [10]"
    "log_room ((log_vm 29 dirty_bufs (\<lambda>_ _. 0))\<lparr>log_outstanding := 3\<rparr>) [0, 0, 1]"
    by (simp_all add: log_room_def f LOGSIZE_def MAXOPBLOCKS_def)
  note r = log_space_reserved [OF _ this(1), of 0 0] log_space_reserved [OF _ this(2), of 0 0]
    log_space_reserved [OF _ this(3), of 0 0]
  have 1: "begin_op ?s = Block (Some LogChan) (asleep 0 LogChan LogLock (hold LogLock ?s))"
    using r(1) q begin_op_run [OF q, of 0] f by simp
  have 2: "\<exists>t. log_write 0 (?s\<lparr>log_outstanding := 1\<rparr>) = Done () t \<and> log_room t [9]"
    using r(2) q by (force simp: f)
  have 3: "log_write 0 ((log_vm 29 dirty_bufs (\<lambda>_ _. 0))\<lparr>log_outstanding := 3\<rparr>) = Panic ''too big a transaction''"
    using r(3) q by (auto simp: f)
  from 1 2 3 show ?thesis by blast
qed

end
