(* ===== verification/Fs_Op.thy ===== *)
theory Fs_Op
  imports Log_Space Fs_Data Vm_Copy Vm_Frame
begin

text \<open>
  Reading and changing blocks inside a file-system operation, as \<^verbatim>\<open>kernel/fs.c\<close> does it: \<open>bread\<close>, the change,
  \<open>log_write\<close>, \<open>brelse\<close>. The lemmas give the effect of these calls on the contents of the blocks, and on the space in the log.
\<close>

subsection \<open>Blocks inside an operation\<close>

text \<open>
  Process \<open>p\<close> is inside a file-system operation on device \<open>d\<close> and holds the buffers \<open>H\<close>; the cache keeps exactly the blocks that are
  in the log or held, and a held block that is not in the log is as on the disk.
\<close>

definition in_op_with :: "nat \<Rightarrow> u32 \<Rightarrow> nat set \<Rightarrow> 'z klog_scheme \<Rightarrow> bool" where
  "in_op_with p d H s \<longleftrightarrow> held p d H s \<and> finite H \<and> 0 \<le> lh_n s \<and> lh_n s < int LOGSIZE \<and> 1 \<le> log_outstanding s
     \<and> (\<forall>bn. pin s bn = (if logged_block s bn then 1 else 0) + (if \<exists>b \<in> H. b_blockno (bufs s b) = bn then 1 else 0))
     \<and> (\<forall>b \<in> H. \<not> logged_block s (b_blockno (bufs s b)) \<longrightarrow> b_data (bufs s b) = disk s (b_blockno (bufs s b)))"

abbreviation in_op :: "nat \<Rightarrow> u32 \<Rightarrow> 'z klog_scheme \<Rightarrow> bool" where
  "in_op p d s \<equiv> in_op_with p d {} s"

text \<open>The log has room for the blocks of \<open>F\<close> that are not in it yet, and for \<open>n\<close> more.\<close>

definition room_for :: "u32 set \<Rightarrow> nat \<Rightarrow> 'z klog_scheme \<Rightarrow> bool" where
  "room_for F n s \<longleftrightarrow> finite F \<and> lh_n s + int (card {b \<in> F. \<not> logged_block s b} + n) < int LOGSIZE
     \<and> lh_n s + int (card {b \<in> F. \<not> logged_block s b} + n) < log_size s - 1"

lemma room_for_take:
  assumes "room_for F (Suc n) s"
  shows "room_for (insert bn F) n s"
proof -
  have f: "finite F" using assms by (simp add: room_for_def)
  then have "card {b \<in> insert bn F. \<not> logged_block s b} \<le> card (insert bn {b \<in> F. \<not> logged_block s b})" by (intro card_mono) auto
  also have "\<dots> \<le> Suc (card {b \<in> F. \<not> logged_block s b})" using f by (intro card_insert_le_m1) simp_all
  finally show ?thesis using assms f by (simp add: room_for_def)
qed

lemma room_for_mono:
  assumes "room_for F n s" and "G \<subseteq> F" and "m \<le> n"
  shows "room_for G m s"
proof -
  have f: "finite F" using assms(1) by (simp add: room_for_def)
  then have "card {b \<in> G. \<not> logged_block s b} \<le> card {b \<in> F. \<not> logged_block s b}" using assms(2) by (intro card_mono) auto
  then show ?thesis using assms f by (auto simp: room_for_def intro: finite_subset)
qed

text \<open>Nothing of the state changes but the cache, the disk and the log; nothing of the log either.\<close>

definition same_fs :: "'z kfs_scheme \<Rightarrow> 'z kfs_scheme \<Rightarrow> bool" where
  "same_fs s t \<longleftrightarrow> inodes t = inodes s \<and> sb t = sb s \<and> procs t = procs s \<and> log_size t = log_size s
     \<and> log_outstanding t = log_outstanding s \<and> freelist t = freelist s \<and> refcount t = refcount s \<and> sym_end t = sym_end s"

definition same_log :: "'z klog_scheme \<Rightarrow> 'z klog_scheme \<Rightarrow> bool" where
  "same_log s t \<longleftrightarrow> lh_n t = lh_n s \<and> lh_block t = lh_block s \<and> log_size t = log_size s"

lemma same_fs_refl [simp]: "same_fs s s" "same_log s s"
  by (simp_all add: same_fs_def same_log_def)

lemma same_fs_trans: "same_fs s t \<Longrightarrow> same_fs t u \<Longrightarrow> same_fs s u"
  by (simp add: same_fs_def)

lemma same_log_trans: "same_log s t \<Longrightarrow> same_log t u \<Longrightarrow> same_log s u"
  by (simp add: same_log_def)

lemma room_for_same: "same_log s t \<Longrightarrow> room_for F n t = room_for F n s"
  by (simp add: room_for_def same_log_def)

lemma fsmod_same:
  fixes s t :: "'z kfs_scheme"
  assumes "fsmod s t"
  shows "same_fs s t" and "same_log s t" and "mem t = mem s" and "log_outstanding t = log_outstanding s"
proof -
  from assms obtain v B L D W where e: "t = vd_set v (s\<lparr>bufs := B, sleeplocks := L, disk := D, disk_writes := W\<rparr>)"
    unfolding fsmod_def by blast
  show "same_fs s t" and "same_log s t" and "mem t = mem s" and "log_outstanding t = log_outstanding s"
    unfolding e by (simp_all add: same_fs_def same_log_def vd_set_def)
qed

lemma busy_logged:
  assumes "in_op_with p d H s" and "lh_n s + int (card H) < int LOGSIZE"
  shows "card (busy s) < NBUF"
proof -
  have f: "finite H" "0 \<le> lh_n s" using assms(1) by (simp_all add: in_op_with_def)
  have "busy s \<subseteq> lh_block s ` {..<nat (lh_n s)} \<union> (\<lambda>b. b_blockno (bufs s b)) ` H" using assms(1) by (auto simp: in_op_with_def busy_def)
  then have "card (busy s) \<le> card (lh_block s ` {..<nat (lh_n s)} \<union> (\<lambda>b. b_blockno (bufs s b)) ` H)" using f by (intro card_mono) auto
  also have "\<dots> \<le> card (lh_block s ` {..<nat (lh_n s)}) + card ((\<lambda>b. b_blockno (bufs s b)) ` H)" by (rule card_Un_le)
  also have "\<dots> \<le> nat (lh_n s) + card H" using card_image_le [of "{..<nat (lh_n s)}" "lh_block s"] card_image_le [OF f(1), of "\<lambda>b. b_blockno (bufs s b)"] by simp
  finally show ?thesis using assms(2) f(2) by (simp add: LOGSIZE_def NBUF_def MAXOPBLOCKS_def)
qed

text \<open>A block is read into buffer \<open>b\<close>, which is held from then on.\<close>

lemma bread_in_op:
  fixes s :: "'z kfs_scheme"
  assumes op: "in_op_with p d H s" and "bn < 2 ^ 31" and new: "\<forall>b \<in> H. b_blockno (bufs s b) \<noteq> bn"
    and room: "logged_block s bn \<or> lh_n s + int (card H) < int LOGSIZE"
  obtains b t where "bread d bn s = Done b t" and "in_op_with p d (insert b H) t" and "b \<notin> H" and "b_blockno (bufs t b) = bn"
    and "b_data (bufs t b) = view s bn" and "view t = view s" and "same_log s t" and "same_fs s t" and "mem t = mem s"
    and "\<And>i. i \<in> H \<Longrightarrow> bufs t i = bufs s i"
proof -
  have h: "held p d H s" and pin: "pin s x = (if logged_block s x then 1 else 0) + (if \<exists>b \<in> H. b_blockno (bufs s b) = x then 1 else 0)" for x
    using op by (simp_all add: in_op_with_def)
  have "pin s bn + 1 \<noteq> 0" "logged_block s bn \<Longrightarrow> pin s bn \<noteq> 0" using new by (simp_all add: pin)
  then obtain b t where t: "bread d bn s = Done b t" "fsmod s t" "held p d (insert b H) t" "b \<notin> H" "b_blockno (bufs t b) = bn"
    "b_data (bufs t b) = view s bn" "disk t = disk s" "view t = view s" "pin t = (pin s)(bn := pin s bn + 1)"
    "\<And>i. i \<noteq> b \<Longrightarrow> bufs t i = bufs s i"
    using bread_block [OF h assms(2) new] busy_logged [OF op] room by (metis (no_types, lifting))
  note f = fsmod_same [OF t(2)]
  have l: "lh_n t = lh_n s" "lh_block t = lh_block s" using f(2) by (simp_all add: same_log_def)
  have B: "bufs t i = bufs s i" if "i \<in> H" for i using t(4,10) that by metis
  have "pin t x = (if logged_block t x then 1 else 0) + (if \<exists>i \<in> insert b H. b_blockno (bufs t i) = x then 1 else 0)" for x
    using t(5,9) B new by (auto simp: l pin)
  moreover have "b_data (bufs t b) = disk t bn" if "\<not> logged_block s bn"
  proof -
    have "pin s bn = 0" using that new by (simp add: pin)
    then show ?thesis using view_unpinned [OF heldD(4) [OF h]] t(6,7) by simp
  qed
  ultimately have "in_op_with p d (insert b H) t" using op t(3,5,7) B f(4) by (auto simp: in_op_with_def l)
  then show thesis using that t f B by blast
qed

lemma brelse_in_op:
  fixes t :: "'z kfs_scheme"
  assumes op: "in_op_with p d (insert b H) t" and "b \<notin> H"
  obtains u where "brelse b t = Done () u" and "in_op_with p d H u" and "view u = view t" and "same_log t u" and "same_fs t u" and "mem u = mem t"
    and "\<And>i. b_blockno (bufs u i) = b_blockno (bufs t i)"
proof -
  have h: "held p d (insert b H) t" and pin: "\<And>x. pin t x = (if logged_block t x then 1 else 0) + (if \<exists>i \<in> insert b H. b_blockno (bufs t i) = x then 1 else 0)"
    and clean: "\<not> logged_block t (b_blockno (bufs t b)) \<Longrightarrow> b_data (bufs t b) = disk t (b_blockno (bufs t b))"
    using op by (simp_all add: in_op_with_def)
  let ?bn = "b_blockno (bufs t b)"
  have "b_data (bufs t b) = disk t ?bn" if "pin t ?bn = 1" using that clean by (auto simp: pin split: if_splits)
  then obtain u where u: "brelse b t = Done () u" "fsmod t u" "held p d (insert b H - {b}) u" "disk u = disk t" "view u = view t"
    "pin u = (pin t)(?bn := pin t ?bn - 1)" "\<And>i. b_blockno (bufs u i) = b_blockno (bufs t i) \<and> b_data (bufs u i) = b_data (bufs t i)"
    using release_block [OF h insertI1 refl] by metis
  note f = fsmod_same [OF u(2)]
  have l: "lh_n u = lh_n t" "lh_block u = lh_block t" using f(2) by (simp_all add: same_log_def)
  have other: "b_blockno (bufs t i) \<noteq> ?bn" if "i \<in> H" for i
    using contents_okD(3) [OF heldD(4) [OF h] heldD(5) [OF h] heldD(5) [OF h], of i b] heldD(6) [OF h] assms(2) that by blast
  have "pin u x = (if logged_block u x then 1 else 0) + (if \<exists>i \<in> H. b_blockno (bufs u i) = x then 1 else 0)" for x
    using other by (auto simp: u(6) l pin u(7))
  moreover have "insert b H - {b} = H" using assms(2) by simp
  ultimately have "in_op_with p d H u" using op u(3,4,7) f(4) by (auto simp: in_op_with_def l)
  then show thesis using that u(1,5,7) f by blast
qed

text \<open>
  A held block gets new contents and is put into the log: the buffer is pinned if the block was not in the log yet.
\<close>

lemma log_put_pin:
  fixes m :: "'z kfs_scheme"
  assumes h: "held p d H m" and b: "b \<in> H" "b_blockno (bufs m b) = bn" and n: "0 \<le> lh_n m" and rc: "pin m bn \<noteq> - 1"
  shows "held p d H (log_put b m)" and "view (log_put b m) = view m" and "disk (log_put b m) = disk m"
    and "pin (log_put b m) = (pin m)(bn := pin m bn + (if logged_block m bn then 0 else 1))"
    and "b_blockno (bufs (log_put b m) i) = b_blockno (bufs m i)" and "b_data (bufs (log_put b m) i) = b_data (bufs m i)"
    and "same_fs m (log_put b m)" and "mem (log_put b m) = mem m"
    and "logged_block (log_put b m) x \<longleftrightarrow> logged_block m x \<or> x = bn"
proof -
  define j where "j = log_slot (lh_block m) (nat (lh_n m)) bn"
  have "held p d H (log_put b m) \<and> view (log_put b m) = view m \<and> disk (log_put b m) = disk m
    \<and> pin (log_put b m) = (pin m)(bn := pin m bn + (if logged_block m bn then 0 else 1))
    \<and> (\<forall>i. b_blockno (bufs (log_put b m) i) = b_blockno (bufs m i) \<and> b_data (bufs (log_put b m) i) = b_data (bufs m i))
    \<and> same_fs m (log_put b m) \<and> mem (log_put b m) = mem m \<and> (\<forall>x. logged_block (log_put b m) x \<longleftrightarrow> logged_block m x \<or> x = bn)"
  proof (cases "logged_block m bn")
    case True
    then have j: "j < nat (lh_n m)" "lh_block m j = bn"
      using log_slot_cases [of "lh_block m" "nat (lh_n m)" bn] by (auto simp: j_def)
    have "(lh_block m)(j := bn) = lh_block m" using j(2) by (simp add: fun_upd_idem)
    moreover have "int j \<noteq> lh_n m" using j(1) by simp
    ultimately have "log_put b m = m" using b(2) by (simp add: log_put_def Let_def j_def)
    then show ?thesis using True h by (auto simp: fun_upd_idem)
  next
    case False
    then have j: "j = nat (lh_n m)" using log_slot_cases [of "lh_block m" "nat (lh_n m)" bn] by (auto simp: j_def)
    let ?x = "(bufs m b)\<lparr>b_refcnt := b_refcnt (bufs m b) + 1\<rparr>"
    let ?w = "m\<lparr>bufs := (bufs m)(b := ?x)\<rparr>"
    have put: "log_put b m = ?w\<lparr>lh_block := (lh_block m)(j := bn), lh_n := lh_n m + 1\<rparr>"
      using b(2) j n by (simp add: log_put_def Let_def j_def [symmetric])
    have r: "b_refcnt (bufs m b) = pin m bn" using view_lookup(3) [OF heldD(4) [OF h] heldD(5,6) [OF h b(1)] b(2)] by simp
    then have nz: "b_refcnt ?x \<noteq> 0" using rc by (simp add: add_eq_0_iff2)
    have f: "bufs ?w = (bufs m)(b := ?x)" "disk ?w = (disk m)(bn := disk m bn)" "fsmod m ?w" "sleeplocks ?w = sleeplocks m" "vq_idle ?w" "quiet p ?w"
      using heldD(1,2) [OF h] fsmod_bufs by simp_all
    have u: "held p d H ?w" "view ?w = (view m)(bn := b_data ?x)" "pin ?w = (pin m)(bn := b_refcnt ?x)"
      using held_update [OF h b _ _ _ nz _ _ f] heldD(7) [OF h b(1)] b(2) by simp_all
    have v: "view m bn = b_data (bufs m b)"
      using view_lookup(2) [OF heldD(4) [OF h] heldD(5,6) [OF h b(1)] b(2)] heldD(7) [OF h b(1)] by simp
    have w: "held p d H (log_put b m)" "view (log_put b m) = view ?w" "pin (log_put b m) = pin ?w"
      using u(1) by (simp_all add: put held_def quiet_def machine_ok_def myproc_def cpu_defs vq_idle_def)
    have "view (log_put b m) = view m" using w(2) u(2) v by (simp add: fun_upd_idem)
    moreover have "pin (log_put b m) = (pin m)(bn := pin m bn + (if logged_block m bn then 0 else 1))" unfolding if_not_P [OF False] using w(3) u(3) r by simp
    moreover have "logged_block (log_put b m) x \<longleftrightarrow> logged_block m x \<or> x = bn" for x
    proof
      assume "logged_block (log_put b m) x"
      then show "logged_block m x \<or> x = bn" using n j by (auto simp: put nat_add_distrib less_Suc_eq split: if_splits)
    next
      assume "logged_block m x \<or> x = bn"
      then show "logged_block (log_put b m) x" using log_put_facts(2,3) [OF n, where b = b] b(2) by metis
    qed
    ultimately show ?thesis using w(1) by (simp add: put same_fs_def)
  qed
  then show "held p d H (log_put b m)" and "view (log_put b m) = view m" and "disk (log_put b m) = disk m"
    and "pin (log_put b m) = (pin m)(bn := pin m bn + (if logged_block m bn then 0 else 1))"
    and "b_blockno (bufs (log_put b m) i) = b_blockno (bufs m i)" and "b_data (bufs (log_put b m) i) = b_data (bufs m i)"
    and "same_fs m (log_put b m)" and "mem (log_put b m) = mem m"
    and "logged_block (log_put b m) x \<longleftrightarrow> logged_block m x \<or> x = bn"
    by blast+
qed

lemma change_held:
  fixes t :: "'z kfs_scheme"
  assumes op: "in_op_with p d H t" and b: "b \<in> H" "b_blockno (bufs t b) = bn" and room: "room_for F n t" "bn \<in> F"
    and g: "\<And>x. g x = x\<lparr>b_data := f (b_data x)\<rparr>"
  obtains w where "kseq (bset b g) (log_write b) t = Done () w" and "in_op_with p d H w" and "view w = (view t)(bn := f (view t bn))"
    and "room_for F n w" and "same_fs t w" and "mem w = mem t" and "\<And>i. b_blockno (bufs w i) = b_blockno (bufs t i)"
proof -
  have h: "held p d H t" and n: "0 \<le> lh_n t" "lh_n t < int LOGSIZE" "1 \<le> log_outstanding t"
    and pin: "pin t x = (if logged_block t x then 1 else 0) + (if \<exists>i \<in> H. b_blockno (bufs t i) = x then 1 else 0)"
    and clean: "i \<in> H \<Longrightarrow> \<not> logged_block t (b_blockno (bufs t i)) \<Longrightarrow> b_data (bufs t i) = disk t (b_blockno (bufs t i))" for x i
    using op by (simp_all add: in_op_with_def)
  define m where "m = t\<lparr>bufs := (bufs t)(b := (bufs t b)\<lparr>b_data := f (view t bn)\<rparr>)\<rparr>"
  define w where "w = log_put b m"
  have "view t bn = b_data (bufs t b)"
    using view_lookup(2) [OF heldD(4) [OF h] heldD(5,6) [OF h b(1)] b(2)] heldD(7) [OF h b(1)] by simp
  then have m: "bset b g t = Done () m" by (simp add: m_def g)
  note mm = bmodify_run [OF h b m_def]
  have mn: "lh_n m = lh_n t" "lh_block m = lh_block t" "log_outstanding m = log_outstanding t" "log_size m = log_size t" "same_fs t m" "mem m = mem t"
    "disk m = disk t" "\<And>i. b_blockno (bufs m i) = b_blockno (bufs t i)" "\<And>i. i \<noteq> b \<Longrightarrow> bufs m i = bufs t i"
    by (simp_all add: m_def same_fs_def)
  have lim: "lh_n t < log_size t - 1" using room(1) by (auto simp: room_for_def)
  have lw: "log_write b m = Done () w" using log_write_run [OF heldD(1) [OF mm(1)], of b] mn(1,3,4) n lim by (simp add: w_def)
  have bm: "b_blockno (bufs m b) = bn" and nm: "0 \<le> lh_n m" using b(2) mn(1,8) n(1) by simp_all
  have "pin m bn \<noteq> - 1" by (simp add: mm(3) pin)
  note q = log_put_pin [OF mm(1) b(1) bm nm this, folded w_def]
  have L: "logged_block w x \<longleftrightarrow> logged_block t x \<or> x = bn" for x using q(9) mn(1,2) by metis
  have N: "lh_n w = (if logged_block t bn then lh_n t else lh_n t + 1)" using log_put_facts(1) [OF nm, where b = b] bm mn(1,2) by (simp add: w_def)
  have P: "pin w x = (if logged_block w x then 1 else 0) + (if \<exists>i \<in> H. b_blockno (bufs w i) = x then 1 else 0)" for x
  proof -
    have held: "(\<exists>i \<in> H. b_blockno (bufs w i) = x) = (\<exists>i \<in> H. b_blockno (bufs t i) = x)" by (simp add: q(5) mn(8))
    show ?thesis unfolding held L q(4) mm(3) using mn(1,2) b by (cases "x = bn") (auto simp: pin)
  qed
  have C: "b_data (bufs w i) = disk w (b_blockno (bufs w i))" if "i \<in> H" "\<not> logged_block w (b_blockno (bufs w i))" for i
  proof -
    have "b_blockno (bufs t i) \<noteq> bn" "\<not> logged_block t (b_blockno (bufs t i))" using that(2) by (simp_all add: L q(5) mn(8))
    then have "i \<noteq> b" "b_data (bufs t i) = disk t (b_blockno (bufs t i))" using b(2) clean [OF that(1)] by auto
    then show ?thesis using mn(7-9) by (simp add: q(3,5,6))
  qed
  have R: "room_for F n w"
  proof -
    have f: "finite F" using room(1) by (simp add: room_for_def)
    have "{x \<in> F. \<not> logged_block w x} = {x \<in> F. \<not> logged_block t x} - {bn}" using L by auto
    then have "card {x \<in> F. \<not> logged_block w x} = card {x \<in> F. \<not> logged_block t x} - (if logged_block t bn then 0 else 1)"
      using f room(2) by (cases "logged_block t bn") (auto simp: card_Diff_singleton_if)
    moreover have "0 < card {x \<in> F. \<not> logged_block t x}" if "\<not> logged_block t bn" using f room(2) that by (auto simp: card_gt_0_iff)
    ultimately have "lh_n w + int (card {x \<in> F. \<not> logged_block w x} + n) = lh_n t + int (card {x \<in> F. \<not> logged_block t x} + n)"
      using N by (cases "logged_block t bn") (simp_all only: if_True if_False, auto)
    moreover have "log_size w = log_size t" using q(7) mn(4) by (simp add: same_fs_def)
    ultimately show ?thesis using room(1) f by (simp add: room_for_def)
  qed
  have "in_op_with p d H w"
    unfolding in_op_with_def using q(1,7) op R P C N n mn(3) by (auto simp: in_op_with_def room_for_def same_fs_def split: if_splits)
  moreover have "view w = (view t)(bn := f (view t bn))" using q(2) mm(2) by simp
  ultimately show thesis
    using that [of w] m lw R same_fs_trans [OF mn(5) q(7)] q(5,8) mn(6,8) by (simp add: kseq_run)
qed

text \<open>The three calls that change a block, and what follows them.\<close>

lemma change_block:
  fixes t :: "'z kfs_scheme"
  assumes op: "in_op_with p d (insert b H) t" and b: "b \<notin> H" "b_blockno (bufs t b) = bn" and room: "room_for F n t" "bn \<in> F"
    and g: "\<And>x. g x = x\<lparr>b_data := f (b_data x)\<rparr>"
  obtains u where "\<And>k. kseq (bset b g) (kseq (log_write b) (kseq (brelse b) k)) t = k u"
    and "kseq (bset b g) (kseq (log_write b) (brelse b)) t = Done () u"
    and "in_op_with p d H u" and "view u = (view t)(bn := f (view t bn))" and "room_for F n u" and "same_fs t u" and "mem u = mem t"
    and "\<And>i. b_blockno (bufs u i) = b_blockno (bufs t i)"
proof -
  obtain w where w: "kseq (bset b g) (log_write b) t = Done () w" "in_op_with p d (insert b H) w" "view w = (view t)(bn := f (view t bn))"
    "room_for F n w" "same_fs t w" "mem w = mem t" "\<And>i. b_blockno (bufs w i) = b_blockno (bufs t i)"
    using change_held [OF op insertI1 b(2) room g] by blast
  obtain u where u: "brelse b w = Done () u" "in_op_with p d H u" "view u = view w" "same_log w u" "same_fs w u" "mem u = mem w"
    "\<And>i. b_blockno (bufs u i) = b_blockno (bufs w i)"
    using brelse_in_op [OF w(2) b(1)] by blast
  obtain m where m: "bset b g t = Done () m" "log_write b m = Done () w" using w(1) by (auto elim: kseq_DoneE)
  show thesis
    using that [of u] m u w same_fs_trans [OF w(5) u(5)] room_for_same [OF u(4)] by (simp add: kseq_run)
qed

end
