(* ===== verification/Fs_Rw.thy ===== *)
theory Fs_Rw
  imports Fs_Op
begin

text \<open>
  Files as lists of bytes: where \<open>bmap\<close> of \<^verbatim>\<open>kernel/fs.c\<close> finds the blocks of a file, \<open>readi\<close> through the buffer cache, and what storing a
  chunk or the inode does to the bytes; theory \<open>Fs_Write\<close> has \<open>writei\<close>.
\<close>

subsection \<open>The blocks of a file\<close>

text \<open>The block that holds block \<open>k\<close> of the contents of inode \<open>x\<close>, zero if none is allocated.\<close>

definition block_of :: "(u32 \<Rightarrow> bytes) \<Rightarrow> inode \<Rightarrow> nat \<Rightarrow> u32" where
  "block_of V x k = (if k < NDIRECT then i_addrs x k
     else if i_addrs x NDIRECT = 0 then 0 else read32 (V (i_addrs x NDIRECT)) (4 * of_nat (k - NDIRECT)))"

lemma bread_block_in_op:
  fixes s :: "'z kfs_scheme"
  assumes op: "in_op p d s" and "bn < 2 ^ 31"
  obtains b t where "bread d bn s = Done b t" and "in_op_with p d {b} t" and "b_blockno (bufs t b) = bn"
    and "b_data (bufs t b) = view s bn" and "view t = view s" and "same_log s t" and "same_fs s t" and "mem t = mem s"
proof -
  have "lh_n s + int (card ({} :: nat set)) < int LOGSIZE" using op by (simp add: in_op_with_def)
  then show thesis using bread_in_op [OF op assms(2), of thesis] that by blast
qed

lemma bmap_mapped:
  fixes s :: "'z kfs_scheme"
  assumes op: "in_op p d s" and x: "x = inodes s ip" "i_dev x = d" and k: "k < MAXFILE" and ne: "block_of (view s) x k \<noteq> 0"
    and ind: "NDIRECT \<le> k \<Longrightarrow> i_addrs x NDIRECT < 2 ^ 31"
  obtains t where "bmap ip k s = Done (block_of (view s) x k) t" and "in_op p d t" and "view t = view s" and "same_log s t"
    and "same_fs s t" and "mem t = mem s"
proof (cases "k < NDIRECT")
  case True
  then have "bmap ip k s = Done (block_of (view s) x k) s"
    using x ne by (simp add: bmap_def iget_field_def kbind_run block_of_def)
  then show thesis using that [of s] op by simp
next
  case False
  let ?a = "i_addrs x NDIRECT"
  have a: "?a \<noteq> 0" "block_of (view s) x k = read32 (view s ?a) (4 * of_nat (k - NDIRECT))"
    using ne False by (auto simp: block_of_def split: if_splits)
  obtain b t where t: "bread d ?a s = Done b t" "in_op_with p d {b} t" "b_data (bufs t b) = view s ?a" "view t = view s" "same_log s t"
    "same_fs s t" "mem t = mem s"
    using bread_block_in_op [OF op ind] False by (metis (no_types, lifting) linorder_not_less)
  obtain u where u: "brelse b t = Done () u" "in_op p d u" "view u = view t" "same_log t u" "same_fs t u" "mem u = mem t"
    using brelse_in_op [OF t(2)] by auto
  have "bmap ip k s = Done (block_of (view s) x k) u"
    using False k a ne x t(1,3) u(1) by (simp add: bmap_def iget_field_def kbind_run kseq_run)
  then show thesis using that [of u] u t(4-7) same_fs_trans [OF t(6) u(5)] same_log_trans [OF t(5) u(4)] by simp
qed

text \<open>An entry of the indirect block.\<close>

lemma entry_written:
  assumes "a = i_addrs x NDIRECT" and "a \<noteq> 0" and "NDIRECT \<le> n" and "n < MAXFILE" and "k < MAXFILE"
  shows "block_of (V(a := write32 (V a) (4 * of_nat (n - NDIRECT)) f)) x k = (if k = n then f else block_of V x k)"
proof -
  have "read32 (write32 (V a) (4 * of_nat (n - NDIRECT)) f) (4 * of_nat (k - NDIRECT)) = read32 (V a) (4 * of_nat (k - NDIRECT))"
    if "k \<noteq> n" "NDIRECT \<le> k"
  proof -
    have "read32 (write32 (V a) (0 + of_nat (4 * (n - NDIRECT))) f) (0 + of_nat (4 * (k - NDIRECT))) = read32 (V a) (0 + of_nat (4 * (k - NDIRECT)))"
      using that assms(3-5) by (intro read_write_apart) auto
    then show ?thesis by (simp only: add_0 of_nat_mult of_nat_numeral)
  qed
  then show ?thesis using assms(1-4) by (auto simp: block_of_def)
qed

text \<open>The first \<open>nb\<close> blocks are allocated, to different blocks that are not the indirect block.\<close>

definition mapped :: "(u32 \<Rightarrow> bytes) \<Rightarrow> inode \<Rightarrow> nat \<Rightarrow> bool" where
  "mapped V x nb \<longleftrightarrow> nb \<le> MAXFILE \<and> (\<forall>k < nb. block_of V x k \<noteq> 0 \<and> block_of V x k < 2 ^ 31) \<and> inj_on (block_of V x) {..<nb}
     \<and> (NDIRECT < nb \<longrightarrow> i_addrs x NDIRECT < 2 ^ 31 \<and> i_addrs x NDIRECT \<notin> block_of V x ` {..<nb})"

definition file_byte :: "(u32 \<Rightarrow> bytes) \<Rightarrow> inode \<Rightarrow> nat \<Rightarrow> u8" where
  "file_byte V x i = V (block_of V x (i div BSIZE)) (of_nat (i mod BSIZE))"

lemma chunk_index:
  assumes "i < block_chunk left off"
  shows "(off + i) div BSIZE = off div BSIZE" and "(off + i) mod BSIZE = off mod BSIZE + i"
proof -
  have "off mod BSIZE + i < BSIZE" using assms by (auto simp: block_chunk_def)
  moreover have "off + i = BSIZE * (off div BSIZE) + (off mod BSIZE + i)" by simp
  ultimately show "(off + i) div BSIZE = off div BSIZE" "(off + i) mod BSIZE = off mod BSIZE + i"
    by (metis div_mult_self4 div_less add_0_right zero_neq_numeral, metis mod_mult_self4 mod_less)
qed

lemma block_chunk_le: "block_chunk left off \<le> left" "block_chunk left off \<le> BSIZE"
  by (simp_all add: block_chunk_def)

lemma load_chunk:
  "load_bytes (V (block_of V x (off div BSIZE))) (of_nat (off mod BSIZE)) (block_chunk left off)
    = map (file_byte V x) [off..<off + block_chunk left off]"
  by (rule nth_equalityI) (simp_all add: load_bytes_map file_byte_def chunk_index)

lemma mapped_block:
  assumes "mapped V x nb" and "off < nb * BSIZE"
  shows "off div BSIZE < MAXFILE" and "block_of V x (off div BSIZE) \<noteq> 0" and "block_of V x (off div BSIZE) < 2 ^ 31"
    and "NDIRECT \<le> off div BSIZE \<Longrightarrow> i_addrs x NDIRECT < 2 ^ 31"
proof -
  have "off div BSIZE < nb" using assms(2) by (simp add: less_mult_imp_div_less)
  then show "off div BSIZE < MAXFILE" "block_of V x (off div BSIZE) \<noteq> 0" "block_of V x (off div BSIZE) < 2 ^ 31"
    "NDIRECT \<le> off div BSIZE \<Longrightarrow> i_addrs x NDIRECT < 2 ^ 31"
    using assms(1) by (auto simp: mapped_def)
qed

subsection \<open>Reading\<close>

text \<open>The destination of a read, a buffer of the kernel or of the user, and what it holds afterwards.\<close>

definition dst_ready :: "u64 \<Rightarrow> u64 list \<Rightarrow> u64 option \<Rightarrow> nat \<Rightarrow> 'z kmem_scheme \<Rightarrow> bool" where
  "dst_ready pt fl dst n s \<longleftrightarrow> (\<forall>a. dst = Some a \<longrightarrow> vm_inv s pt fl \<and> user_sep (mem s) pt fl
     \<and> (\<forall>i < n. user_byte (mem s) pt (a + of_nat i) \<noteq> None))"

definition sent :: "u64 \<Rightarrow> u64 list \<Rightarrow> u64 option \<Rightarrow> u8 list \<Rightarrow> 'z kmem_scheme \<Rightarrow> 'z kmem_scheme \<Rightarrow> bool" where
  "sent pt fl dst bs s t \<longleftrightarrow> (case dst of None \<Rightarrow> mem t = mem s
     | Some a \<Rightarrow> vm_inv t pt fl \<and> user_sep (mem t) pt fl \<and> user_byte (mem t) pt = user_store (user_byte (mem s) pt) a bs)"

lemma vm_inv_same:
  assumes "same_fs s t" and "mem t = mem s" and "quiet p t"
  shows "vm_inv s pt fl \<Longrightarrow> vm_inv t pt fl"
  using assms quietD [OF assms(3)] by (simp add: vm_inv_def kmem_inv_def page_ok_def same_fs_def)

lemma in_op_quiet: "in_op_with p d H s \<Longrightarrow> quiet p s"
  by (simp add: in_op_with_def held_def)

lemma held_mem [simp]: "held p d H (mem_update f s) = held p d H s"
  by (simp add: held_def quiet_def vq_idle_def)

lemma held_eqs: "held p d H s \<Longrightarrow> myproc s = Some p"
  using heldD(1) quietD(2) by blast

lemma in_op_mem [simp]: "in_op_with p d H (mem_update f s) = in_op_with p d H s"
  unfolding in_op_with_def by (simp only: held_mem) simp

text \<open>Handing one chunk to the destination while a buffer is held.\<close>

lemma send_chunk:
  fixes s t :: "'z kfs_scheme"
  assumes op: "in_op_with p d H t" and same: "same_fs s t" "mem t = mem s"
    and ready: "dst_ready pt fl dst n s" "pagetable (procs s p) = pt" and len: "length bs \<le> n" "n < 2 ^ 64"
  obtains m where "(case dst of None \<Rightarrow> kret 0 | Some a \<Rightarrow> either_copyout True a bs) t = Done 0 (t\<lparr>mem := m\<rparr>)"
    and "sent pt fl dst bs s (t\<lparr>mem := m\<rparr>)"
proof (cases dst)
  case None
  then show thesis using that [of "mem t"] same(2) by (simp add: sent_def)
next
  case (Some a)
  have held: "held p d H t" using op by (simp add: in_op_with_def)
  then have vm: "vm_inv t pt fl" "user_sep (mem t) pt fl" "\<forall>i < length bs. user_byte (mem t) pt (a + of_nat i) \<noteq> None"
    using vm_inv_same [OF same heldD(1) [OF held]] ready(1) Some same(2) len(1) by (auto simp: dst_ready_def)
  have "length bs < 2 ^ 64" using len by simp
  from copyout_spec [OF vm(1,2) this, of a] vm(3)
  obtain u where u: "copyout pt a bs t = Done 0 u" "vm_inv u pt fl" "user_sep (mem u) pt fl"
    "user_byte (mem u) pt = user_store (user_byte (mem t) pt) a bs" by auto
  have "u = t\<lparr>mem := mem u\<rparr>" using copyout_state [OF u(1)] .
  moreover have "either_copyout True a bs t = Done 0 u"
    using u(1) held_eqs [OF held] ready(2) same(1) by (simp add: either_copyout_def with_myproc_run kbind_run same_fs_def)
  ultimately show thesis using that [of "mem u"] u(2-4) same(2) Some by (simp add: sent_def)
qed

lemma sent_append:
  assumes "sent pt fl dst bs s t" and "sent pt fl (map_option (\<lambda>a. a + of_nat (length bs)) dst) cs t u" and "length (bs @ cs) < 2 ^ 64"
  shows "sent pt fl dst (bs @ cs) s u"
  using assms user_store_append [OF assms(3)] by (auto simp: sent_def split: option.splits)

lemma sent_ready:
  assumes "sent pt fl dst bs s t" and "dst_ready pt fl dst n s" and "length bs \<le> n"
  shows "dst_ready pt fl (map_option (\<lambda>a. a + of_nat (length bs)) dst) (n - length bs) t"
  unfolding dst_ready_def
proof (intro allI impI)
  fix c assume "map_option (\<lambda>a. a + of_nat (length bs)) dst = Some c"
  then obtain a where a: "dst = Some a" "c = a + of_nat (length bs)" by auto
  have "user_byte (mem t) pt (c + of_nat i) \<noteq> None" if "i < n - length bs" for i
  proof -
    have "length bs + i < n" using that by simp
    then have "user_byte (mem s) pt (a + of_nat (length bs + i)) \<noteq> None" using assms(2) a(1) unfolding dst_ready_def by blast
    then show ?thesis using assms(1) a by (simp add: sent_def user_store_def add.assoc)
  qed
  then show "vm_inv t pt fl \<and> user_sep (mem t) pt fl \<and> (\<forall>i < n - length bs. user_byte (mem t) pt (c + of_nat i) \<noteq> None)"
    using assms(1) a(1) by (simp add: sent_def)
qed

text \<open>One iteration of the loop.\<close>

lemma readi_step:
  fixes s :: "'z kfs_scheme"
  assumes op: "in_op p d s" "i_dev (inodes s ip) = d" "mapped (view s) (inodes s ip) nb" and left: "off + left \<le> nb * BSIZE" "left \<noteq> 0"
    and dst: "dst_ready pt fl dst left s" "pagetable (procs s p) = pt"
    and bs: "bs = map (file_byte (view s) (inodes s ip)) [off..<off + block_chunk left off]"
  obtains t where "readi_loop ip dst off left tot acc s = readi_loop ip (map_option (\<lambda>a. a + of_nat (block_chunk left off)) dst) (off + block_chunk left off)
      (left - block_chunk left off) (tot + int (block_chunk left off)) (if dst = None then acc @ bs else acc) t"
    and "in_op p d t" and "view t = view s" and "same_log s t" and "same_fs s t" and "sent pt fl dst bs s t"
proof -
  let ?bn = "block_of (view s) (inodes s ip) (off div BSIZE)"
  have len: "length bs \<le> left" using block_chunk_le by (simp add: bs)
  have "left \<le> nb * BSIZE" "nb \<le> MAXFILE" using op(3) left by (simp_all add: mapped_def)
  then have lim: "left < 2 ^ 64" by simp
  have off: "off < nb * BSIZE" using left by simp
  note blk = mapped_block [OF op(3) off]
  obtain t1 where t1: "bmap ip (off div BSIZE) s = Done ?bn t1" "in_op p d t1" "view t1 = view s" "same_log s t1" "same_fs s t1" "mem t1 = mem s"
    by (rule bmap_mapped [OF op(1) refl op(2) blk(1,2,4)])
  obtain b t2 where t2: "bread d ?bn t1 = Done b t2" "in_op_with p d {b} t2" "b_data (bufs t2 b) = view t1 ?bn" "view t2 = view t1" "same_log t1 t2"
    "same_fs t1 t2" "mem t2 = mem t1"
    using bread_block_in_op [OF t1(2) blk(3)] by blast
  have "dst_ready pt fl dst left t1" "pagetable (procs t1 p) = pt"
    using dst t1(5,6) vm_inv_same [OF t1(5,6) in_op_quiet [OF t1(2)]] by (auto simp: dst_ready_def same_fs_def)
  from send_chunk [OF t2(2,6,7) this len lim]
  obtain mm where t3: "(case dst of None \<Rightarrow> kret 0 | Some a \<Rightarrow> either_copyout True a bs) t2 = Done 0 (t2\<lparr>mem := mm\<rparr>)"
    "sent pt fl dst bs t1 (t2\<lparr>mem := mm\<rparr>)" by blast
  have "in_op_with p d {b} (t2\<lparr>mem := mm\<rparr>)" using t2(2) by simp
  then obtain t where t: "brelse b (t2\<lparr>mem := mm\<rparr>) = Done () t" "in_op p d t" "view t = view (t2\<lparr>mem := mm\<rparr>)" "same_log (t2\<lparr>mem := mm\<rparr>) t"
    "same_fs (t2\<lparr>mem := mm\<rparr>) t" "mem t = mem (t2\<lparr>mem := mm\<rparr>)"
    using brelse_in_op [of p d b "{}"] by blast
  have "same_fs s t" "same_log s t" "view t = view s" using t1(3-5) t2(4-6) t(3-5) by (simp_all add: same_fs_def same_log_def)
  moreover have "sent pt fl dst bs s t"
    using t3(2) t1(6) t(6) vm_inv_same [OF t(5,6) in_op_quiet [OF t(2)]] by (auto simp: sent_def split: option.splits)
  moreover have "load_bytes (b_data (bufs t2 b)) (of_nat (off mod BSIZE)) (block_chunk left off) = bs" "i_dev (inodes t1 ip) = d"
    using t2(3) t1(3,5) op(2) load_chunk [of "view s" "inodes s ip" off left] by (simp_all add: same_fs_def bs)
  then have "readi_loop ip dst off left tot acc s = readi_loop ip (map_option (\<lambda>a. a + of_nat (block_chunk left off)) dst) (off + block_chunk left off)
      (left - block_chunk left off) (tot + int (block_chunk left off)) (if dst = None then acc @ bs else acc) t"
    using left(2) t1(1) t2(1) t3(1) t(1) blk(2)
    by (subst readi_loop.simps) (simp add: kbind_run kseq_run iget_field_def map_option_case)
  ultimately show thesis using that [of t] t(2) by simp
qed

lemma readi_loop_run:
  fixes s :: "'z kfs_scheme"
  assumes "in_op p d s" and "i_dev (inodes s ip) = d" and "mapped (view s) (inodes s ip) nb" and "off + left \<le> nb * BSIZE"
    and "dst_ready pt fl dst left s" and "pagetable (procs s p) = pt"
  shows "\<exists>t. readi_loop ip dst off left tot acc s = Done (tot + int left,
        if dst = None then acc @ map (file_byte (view s) (inodes s ip)) [off..<off + left] else acc) t
      \<and> in_op p d t \<and> view t = view s \<and> same_log s t \<and> same_fs s t
      \<and> sent pt fl dst (map (file_byte (view s) (inodes s ip)) [off..<off + left]) s t"
  using assms
proof (induction left arbitrary: s dst off tot acc rule: less_induct)
  case (less left)
  let ?m = "block_chunk left off"
  let ?f = "file_byte (view s) (inodes s ip)" and ?dst = "map_option (\<lambda>a. a + of_nat ?m) dst"
  show ?case
  proof (cases "left = 0")
    case True
    then show ?thesis using less.prems by (auto simp: readi_loop.simps sent_def dst_ready_def user_store_def fun_eq_iff split: option.splits)
  next
    case False
    let ?bs = "map ?f [off..<off + ?m]" and ?cs = "map ?f [off + ?m..<off + left]"
    have m: "0 < ?m" "?m \<le> left" using False block_chunk_pos block_chunk_le by auto
    have "left \<le> nb * BSIZE" "nb \<le> MAXFILE" using less.prems(3,4) by (simp_all add: mapped_def)
    then have lim: "left < 2 ^ 64" by simp
    from readi_step [OF less.prems(1-4) False less.prems(5,6) refl]
    obtain u where u: "readi_loop ip dst off left tot acc s = readi_loop ip ?dst (off + ?m)
        (left - ?m) (tot + int ?m) (if dst = None then acc @ ?bs else acc) u"
      "in_op p d u" "view u = view s" "same_log s u" "same_fs s u" "sent pt fl dst ?bs s u" by blast
    have "inodes u = inodes s" "procs u = procs s" using u(5) by (simp_all add: same_fs_def)
    moreover have "dst_ready pt fl ?dst (left - ?m) u" using sent_ready [OF u(6) less.prems(5)] m by simp
    ultimately obtain t where t: "readi_loop ip ?dst (off + ?m) (left - ?m) (tot + int ?m) (if dst = None then acc @ ?bs else acc) u
        = Done (tot + int left, if dst = None then acc @ ?bs @ ?cs else acc) t"
      "in_op p d t" "view t = view s" "same_log u t" "same_fs u t" "sent pt fl ?dst ?cs u t"
      using less.IH [of "left - ?m" u "off + ?m" ?dst "tot + int ?m" "if dst = None then acc @ ?bs else acc"] m less.prems(2-4,6) False u(2,3)
      by auto
    have split: "map ?f [off..<off + left] = ?bs @ ?cs"
      using m upt_add_eq_append [of off "off + ?m" "left - ?m"] by simp
    have "sent pt fl dst (?bs @ ?cs) s t"
      using sent_append [OF u(6), of ?cs t] t(6) m lim by simp
    then show ?thesis using u(1) t(1-5) same_fs_trans [OF u(5) t(5)] same_log_trans [OF u(4) t(4)] unfolding split by auto
  qed
qed

subsection \<open>Writing\<close>

text \<open>The source of a write, a buffer of the kernel or of the user, holds \<open>bs\<close>.\<close>

definition src_bytes :: "u64 \<Rightarrow> u64 list \<Rightarrow> wsrc \<Rightarrow> u8 list \<Rightarrow> 'z kmem_scheme \<Rightarrow> bool" where
  "src_bytes pt fl src bs s \<longleftrightarrow> (case src of KSrc cs \<Rightarrow> cs = bs
     | USrc a \<Rightarrow> vm_inv s pt fl \<and> (\<forall>i < length bs. user_byte (mem s) pt (a + of_nat i) = Some (bs ! i)))"

lemma src_take:
  fixes s :: "'z kfs_scheme"
  assumes "src_bytes pt fl src bs s" and "quiet p s" and "pagetable (procs s p) = pt" and "m \<le> length bs"
  shows "wsrc_take src m s = Done (0, take m bs) s"
proof (cases src)
  case (USrc a)
  then have u: "vm_inv s pt fl" "\<forall>i < length bs. user_byte (mem s) pt (a + of_nat i) = Some (bs ! i)"
    using assms(1) by (simp_all add: src_bytes_def)
  have "map (\<lambda>i. the (user_byte (mem s) pt (a + of_nat i))) [0..<m] = take m bs"
    using u(2) assms(4) by (intro nth_equalityI) auto
  moreover have "\<not> (\<exists>i < m. user_byte (mem s) pt (a + of_nat i) = None)" using u(2) assms(4) by auto
  ultimately have "copyin pt a m s = Done (0, take m bs) s" using copyin_spec [OF u(1), of m a] by auto
  then show ?thesis using USrc quietD(2) [OF assms(2)] assms(3) by (simp add: either_copyin_def with_myproc_run kbind_run)
qed (use assms(1) in \<open>simp add: src_bytes_def\<close>)

lemma src_advance:
  assumes "src_bytes pt fl src bs s" and "m \<le> length bs"
  shows "src_bytes pt fl (wsrc_advance src m) (drop m bs) s"
proof (cases src)
  case (USrc a)
  have "user_byte (mem s) pt (a + of_nat m + of_nat i) = Some (drop m bs ! i)" if "i < length bs - m" for i
  proof -
    have "m + i < length bs" using that by simp
    then have "user_byte (mem s) pt (a + of_nat (m + i)) = Some (bs ! (m + i))"
      using assms(1) unfolding src_bytes_def USrc wsrc.case by blast
    then show ?thesis using assms(2) by (simp add: add.assoc)
  qed
  then show ?thesis using assms(1) USrc by (simp add: src_bytes_def)
qed (use assms in \<open>simp add: src_bytes_def\<close>)

lemma src_same:
  assumes "src_bytes pt fl src bs s" and "same_fs s t" and "mem t = mem s" and "quiet p t"
  shows "src_bytes pt fl src bs t"
  using assms vm_inv_same [OF assms(2-4)] by (auto simp: src_bytes_def split: wsrc.splits)

text \<open>Storing a chunk into its block changes these bytes of the file, and nothing else of it.\<close>

definition put_chunk :: "(u32 \<Rightarrow> bytes) \<Rightarrow> inode \<Rightarrow> nat \<Rightarrow> u8 list \<Rightarrow> u32 \<Rightarrow> bytes" where
  "put_chunk V x off bs = (let bn = block_of V x (off div BSIZE) in V(bn := store_bytes (V bn) (of_nat (off mod BSIZE)) bs))"

lemma put_chunk_blocks:
  assumes "mapped V x nb" and "off < nb * BSIZE" and "k < nb"
  shows "block_of (put_chunk V x off bs) x k = block_of V x k"
proof -
  have "off div BSIZE < nb" using assms(2) by (simp add: less_mult_imp_div_less)
  then have "NDIRECT \<le> k \<Longrightarrow> i_addrs x NDIRECT \<noteq> block_of V x (off div BSIZE)"
    using assms(1,3) by (auto simp: mapped_def)
  then show ?thesis by (auto simp: block_of_def put_chunk_def Let_def)
qed

lemma put_chunk_mapped:
  assumes "mapped V x nb" and "off < nb * BSIZE"
  shows "mapped (put_chunk V x off bs) x nb"
proof -
  note b = put_chunk_blocks [OF assms]
  have "inj_on (block_of (put_chunk V x off bs) x) {..<nb} = inj_on (block_of V x) {..<nb}" by (rule inj_on_cong) (simp add: b)
  moreover have "block_of (put_chunk V x off bs) x ` {..<nb} = block_of V x ` {..<nb}" by (rule image_cong) (simp_all add: b)
  ultimately show ?thesis using assms(1) by (simp add: mapped_def b)
qed

lemma chunk_range:
  fixes a j n q r :: nat
  assumes "a < BSIZE" and "j < BSIZE" and "n \<le> BSIZE - a"
  shows "BSIZE * q + a \<le> BSIZE * r + j \<and> BSIZE * r + j < BSIZE * q + a + n \<longleftrightarrow> r = q \<and> a \<le> j \<and> j < a + n"
  using assms by (cases r q rule: linorder_cases) auto

lemma block_offset:
  assumes "a < BSIZE" and "j < BSIZE"
  shows "n \<le> BSIZE \<Longrightarrow> in_region (of_nat a) n (of_nat j :: u64) \<longleftrightarrow> a \<le> j \<and> j < a + n"
    and "a \<le> j \<Longrightarrow> unat (of_nat j - of_nat a :: u64) = j - a"
proof -
  have u: "unat (of_nat a :: u64) = a" "unat (of_nat j :: u64) = j" using assms by (simp_all add: unat_of_nat64)
  show *: "unat (of_nat j - of_nat a :: u64) = j - a" if "a \<le> j"
    using that u by (simp add: unat_sub word_le_nat_alt)
  show "in_region (of_nat a) n (of_nat j :: u64) \<longleftrightarrow> a \<le> j \<and> j < a + n" if "n \<le> BSIZE"
  proof (cases "a \<le> j")
    case True
    then show ?thesis using * by (auto simp: in_region_def)
  next
    case False
    have "\<not> in_region (of_nat a) n (of_nat j :: u64)"
    proof
      assume "in_region (of_nat a) n (of_nat j :: u64)"
      then obtain x where x: "x < n" "(of_nat j :: u64) = of_nat (a + x)" using region_index [of 0 a n "of_nat j"] by auto
      have "j < 2 ^ 64" "a + x < 2 ^ 64" using x(1) that assms by simp_all
      then have "j = a + x" using x(2) of_nat_eq64 by blast
      then show False using False by simp
    qed
    then show ?thesis using False by simp
  qed
qed

lemma put_chunk_byte:
  assumes map: "mapped V x nb" and off: "off < nb * BSIZE" and len: "length bs \<le> BSIZE - off mod BSIZE" and i: "i < nb * BSIZE"
  shows "file_byte (put_chunk V x off bs) x i = (if off \<le> i \<and> i < off + length bs then bs ! (i - off) else file_byte V x i)"
proof -
  let ?a = "off mod BSIZE" and ?j = "i mod BSIZE"
  have k: "i div BSIZE < nb" "off div BSIZE < nb" using off i by (simp_all add: less_mult_imp_div_less)
  have same: "block_of V x (i div BSIZE) = block_of V x (off div BSIZE) \<longleftrightarrow> i div BSIZE = off div BSIZE"
    using map k by (auto simp: mapped_def inj_on_def)
  have aj: "?a < BSIZE" "?j < BSIZE" by simp_all
  have "length bs \<le> BSIZE" using len by simp
  note reg = block_offset(1) [OF aj this] block_offset(2) [OF aj]
  have pos: "off = BSIZE * (off div BSIZE) + ?a" "i = BSIZE * (i div BSIZE) + ?j" by simp_all
  have iff: "off \<le> i \<and> i < off + length bs \<longleftrightarrow> i div BSIZE = off div BSIZE \<and> ?a \<le> ?j \<and> ?j < ?a + length bs"
    using chunk_range [OF aj len, of "off div BSIZE" "i div BSIZE"] pos by simp
  have sub: "i - off = ?j - ?a" if "i div BSIZE = off div BSIZE" using pos that by linarith
  have "length bs < 2 ^ 64" using len by simp
  then show ?thesis
    using same reg iff sub put_chunk_blocks [OF map off k(1), of bs]
    by (auto simp: file_byte_def put_chunk_def Let_def store_bytes_eq)
qed

text \<open>The number of blocks that \<open>n\<close> bytes at offset \<open>off\<close> touch.\<close>

definition touched :: "nat \<Rightarrow> nat \<Rightarrow> nat" where
  "touched off n = (if n = 0 then 0 else Suc ((off + n - 1) div BSIZE - off div BSIZE))"

lemma touched_step:
  assumes "n \<noteq> 0"
  shows "touched off n = Suc (touched (off + block_chunk n off) (n - block_chunk n off))"
proof (cases "n \<le> BSIZE - off mod BSIZE")
  case True
  then have c: "block_chunk n off = n" by (simp add: block_chunk_def)
  then have "(off + (n - 1)) div BSIZE = off div BSIZE" using assms by (intro chunk_index(1) [of _ n]) simp
  then show ?thesis using assms c by (simp add: touched_def)
next
  case False
  let ?q = "off div BSIZE"
  have c: "block_chunk n off = BSIZE - off mod BSIZE" using False by (simp add: block_chunk_def)
  have up: "b * q + a = x \<Longrightarrow> a < b \<Longrightarrow> x + (b - a) = b * Suc q" for a b q x :: nat by auto
  have "off + (BSIZE - off mod BSIZE) = BSIZE * Suc ?q" by (rule up) simp_all
  then have o: "off + block_chunk n off = BSIZE * Suc ?q" by (simp only: c)
  then have "BSIZE * Suc ?q \<le> off + n - 1" using False c by simp
  then have "Suc ?q \<le> (off + n - 1) div BSIZE" by (simp add: less_eq_div_iff_mult_less_eq)
  moreover have "n - block_chunk n off \<noteq> 0" "off + block_chunk n off + (n - block_chunk n off) - 1 = off + n - 1"
    "(off + block_chunk n off) div BSIZE = Suc ?q" using False c o by simp_all
  ultimately show ?thesis using assms by (simp only: touched_def if_False Suc_diff_le [symmetric] diff_Suc_Suc)
qed

subsection \<open>The inode\<close>

definition inode_block :: "'z kfs_scheme \<Rightarrow> nat \<Rightarrow> u32" where
  "inode_block s ip = IBLOCK (i_inum (inodes s ip)) (sb s)"

text \<open>The contents of a file.\<close>

definition file_data :: "'z kfs_scheme \<Rightarrow> nat \<Rightarrow> u8 list" where
  "file_data s ip = map (file_byte (view s) (inodes s ip)) [0..<unat (i_size (inodes s ip))]"

lemma iupdate_run:
  fixes s :: "'z kfs_scheme"
  assumes op: "in_op p d s" and dev: "i_dev (inodes s ip) = d" and bn: "inode_block s ip = bn" "bn < 2 ^ 31" and room: "room_for F n s" "bn \<in> F"
  obtains t where "iupdate ip s = Done () t" and "in_op p d t" and "room_for F n t" and "same_fs s t" and "mem t = mem s"
    and "view t = (view s)(bn := dinode_store (view s bn) (dinode_off (i_inum (inodes s ip))) (inodes s ip))"
proof -
  obtain b t1 where t1: "bread d bn s = Done b t1" "in_op_with p d {b} t1" "b_blockno (bufs t1 b) = bn" "view t1 = view s" "same_log s t1"
    "same_fs s t1" "mem t1 = mem s"
    using bread_block_in_op [OF op bn(2)] by blast
  let ?f = "\<lambda>c. dinode_store c (dinode_off (i_inum (inodes s ip))) (inodes s ip)"
  have "room_for F n t1" using room(1) room_for_same [OF t1(5)] by simp
  then obtain t where t: "kseq (bset b (\<lambda>y. y\<lparr>b_data := ?f (b_data y)\<rparr>)) (kseq (log_write b) (brelse b)) t1 = Done () t"
    "in_op p d t" "view t = (view t1)(bn := ?f (view t1 bn))" "room_for F n t" "same_fs t1 t" "mem t = mem t1"
    using change_block [OF t1(2) _ t1(3) _ room(2), of n "\<lambda>y. y\<lparr>b_data := ?f (b_data y)\<rparr>" ?f] by (metis empty_iff)
  moreover have "iupdate ip s = Done () t"
    using t1(1) t(1) dev bn(1) by (simp add: iupdate_def iget_field_def inode_block_def kbind_run)
  moreover have "same_fs s t" using same_fs_trans [OF t1(6) t(5)] .
  ultimately show thesis using that [of t] t1(4,7) by simp
qed

lemma in_op_inodes [simp]: "in_op_with p d H (inodes_update f s) = in_op_with p d H s"
  by (simp add: in_op_with_def held_def quiet_def vq_idle_def machine_ok_def myproc_def cpu_defs)

lemma file_data_cong:
  assumes "i_addrs y = i_addrs x"
  shows "block_of V y = block_of V x" and "mapped V y = mapped V x" and "file_byte V y = file_byte V x"
proof -
  show b: "block_of V y = block_of V x" using assms by (simp add: fun_eq_iff block_of_def)
  show "mapped V y = mapped V x" "file_byte V y = file_byte V x"
    by (intro ext, simp only: mapped_def b assms) (intro ext, simp only: file_byte_def b)
qed

lemma readi_run:
  fixes s :: "'z kfs_scheme"
  assumes op: "in_op p d s" and ok: "i_dev (inodes s ip) = d" "mapped (view s) (inodes s ip) nb" "unat (i_size (inodes s ip)) \<le> nb * BSIZE"
    and off: "unat off \<le> unat (i_size (inodes s ip))" and no_wrap: "unat off + unat n < 2 ^ 32"
    and dst: "dst_ready pt fl dst (unat n) s" "pagetable (procs s p) = pt" and bs: "bs = take (unat n) (drop (unat off) (file_data s ip))"
  obtains t where "readi ip dst off n s = Done (int (length bs), if dst = None then bs else []) t" and "in_op p d t" and "view t = view s"
    and "same_log s t" and "same_fs s t" and "sent pt fl dst bs s t"
proof -
  let ?x = "inodes s ip"
  define k where "k = (if off + n > i_size ?x then i_size ?x - off else n)"
  have add: "unat (off + n) = unat off + unat n" using no_wrap by (simp add: unat_add_lem [symmetric])
  have k: "unat k = min (unat n) (unat (i_size ?x) - unat off)"
    using off add by (auto simp: k_def word_less_nat_alt unat_sub word_le_nat_alt min_def)
  have data: "bs = map (file_byte (view s) ?x) [unat off..<unat off + unat k]"
    unfolding bs file_data_def k using off by (simp add: drop_map take_map min_def)
  have "unat off + unat k \<le> nb * BSIZE" "dst_ready pt fl dst (unat k) s"
    using ok off k dst(1) by (auto simp: dst_ready_def)
  from readi_loop_run [OF op ok(1,2) this dst(2), of 0 "[]", folded data, unfolded add_0 append_Nil]
  obtain t where t: "readi_loop ip dst (unat off) (unat k) 0 [] s = Done (int (unat k), if dst = None then bs else []) t"
    "in_op p d t" "view t = view s" "same_log s t" "same_fs s t" "sent pt fl dst bs s t" by blast
  have len: "length bs = unat k" by (simp add: data)
  have "\<not> (i_size ?x < off \<or> off + n < off)" using off add by (simp add: word_less_nat_alt)
  then have "readi ip dst off n s = Done (int (length bs), if dst = None then bs else []) t"
    using t(1) by (simp add: readi_def iget_field_def kbind_run Let_def k_def [symmetric] len)
  then show thesis using that t(2-6) by blast
qed

text \<open>Overwriting part of a list, and extending it if need be.\<close>

lemma overwrite_map:
  assumes "\<And>i. i < max n (off + length bs) \<Longrightarrow> g i = (if off \<le> i \<and> i < off + length bs then bs ! (i - off) else f i)" and "off \<le> n"
  shows "map g [0..<max n (off + length bs)] = take off (map f [0..<n]) @ bs @ drop (off + length bs) (map f [0..<n])"
  using assms by (intro nth_equalityI) (auto simp: nth_append max_def split: if_splits)

definition grown :: "nat \<Rightarrow> inode \<Rightarrow> inode" where
  "grown n x = (if n > unat (i_size x) then x\<lparr>i_size := of_nat n\<rparr> else x)"

lemma grown_simps [simp]:
  "i_addrs (grown n x) = i_addrs x" "i_dev (grown n x) = i_dev x" "i_inum (grown n x) = i_inum x"
  "n < 2 ^ 32 \<Longrightarrow> unat (i_size (grown n x)) = max (unat (i_size x)) n"
  by (simp_all add: grown_def unat_of_nat max_def)

end
