(* ===== verification/Fs_Alloc.thy ===== *)
theory Fs_Alloc
  imports Fs_Op
begin

text \<open>
  \<open>balloc\<close> of \<^verbatim>\<open>kernel/fs.c\<close> inside an operation, with the scan of the bitmap blocks and the zeroing of the block: it takes the first free
  block, or finds the disk full.
\<close>

definition in_use :: "superblock \<Rightarrow> (u32 \<Rightarrow> bytes) \<Rightarrow> u32 \<Rightarrow> bool" where
  "in_use q V a \<longleftrightarrow> unat a < unat (sb_size q) \<and> \<not> bitmap_free (V (BBLOCK (unat a) q)) (unat a mod BPB)"

definition bmap_blocks :: "superblock \<Rightarrow> u32 set" where
  "bmap_blocks q = (\<lambda>b. BBLOCK b q) ` {..<unat (sb_size q)}"

text \<open>The bitmap blocks and the boot block are blocks of the disk that are marked in use; \<open>F\<close> are the blocks with room in the log.\<close>

definition alloc_ready :: "superblock \<Rightarrow> (u32 \<Rightarrow> bytes) \<Rightarrow> u32 set \<Rightarrow> bool" where
  "alloc_ready q V F \<longleftrightarrow> unat (sb_size q) \<le> 2 ^ 31 \<and> bmap_blocks q \<subseteq> F \<and> (\<forall>a \<in> bmap_blocks q. in_use q V a) \<and> in_use q V 0"

text \<open>Block \<open>a\<close> marked and zeroed.\<close>

definition alloc_view :: "superblock \<Rightarrow> (u32 \<Rightarrow> bytes) \<Rightarrow> u32 \<Rightarrow> u32 \<Rightarrow> bytes" where
  "alloc_view q V a = (let bb = BBLOCK (unat a) q in
     V(bb := bitmap_mark (V bb) (unat a mod BPB), a := memset (V a) 0 0 BSIZE))"

lemma in_use_small: "unat (sb_size q) \<le> 2 ^ 31 \<Longrightarrow> in_use q V a \<Longrightarrow> a < 2 ^ 31"
  by (auto simp: in_use_def word_less_nat_alt)

lemma unat_of_nat32: "n < 2 ^ 32 \<Longrightarrow> unat (of_nat n :: u32) = n"
  by (simp add: unat_of_nat take_bit_nat_eq_self)

lemma BBLOCK_inj:
  fixes a b :: u32
  assumes "BBLOCK (unat a) q = BBLOCK (unat b) q"
  shows "unat a div BPB = unat b div BPB"
proof -
  have u: "unat (of_nat (unat x div BPB) :: u32) = unat x div BPB" for x :: u32
  proof -
    have "unat x < 2 ^ 32" using unsigned_less [of x, where 'a = nat] by simp
    then have "unat x div BPB < 2 ^ 32" by (meson div_le_dividend le_less_trans)
    then show ?thesis by (rule unat_of_nat32)
  qed
  have "(of_nat (unat a div BPB) :: u32) = of_nat (unat b div BPB)" using assms unfolding BBLOCK_def by (rule add_right_imp_eq)
  from arg_cong [where f = unat, OF this] show ?thesis by (simp only: u)
qed

lemma in_use_alloc:
  assumes "a \<notin> bmap_blocks q" and "unat a < unat (sb_size q)"
  shows "in_use q (alloc_view q V a) x \<longleftrightarrow> in_use q V x \<or> x = a"
proof (cases "unat x < unat (sb_size q)")
  case True
  have n: "BBLOCK (unat x) q \<noteq> a" using assms(1) True by (auto simp: bmap_blocks_def)
  show ?thesis
  proof (cases "BBLOCK (unat x) q = BBLOCK (unat a) q")
    case bb: True
    have "x = a \<longleftrightarrow> unat x div BPB = unat a div BPB \<and> unat x mod BPB = unat a mod BPB"
      by (metis div_mult_mod_eq word_unat_eq_iff)
    then have "x = a \<longleftrightarrow> unat x mod BPB = unat a mod BPB" using BBLOCK_inj [OF bb] by simp
    then show ?thesis using n bb True by (auto simp: in_use_def alloc_view_def Let_def bitmap_free_mark)
  next
    case False
    then show ?thesis using n by (auto simp: in_use_def alloc_view_def Let_def)
  qed
qed (use assms(2) in \<open>auto simp: in_use_def\<close>)

lemma alloc_view_other:
  assumes "b \<notin> bmap_blocks q" and "unat a < unat (sb_size q)"
  shows "alloc_view q V a b = (if b = a then memset (V a) 0 0 BSIZE else V b)"
  using assms by (auto simp: alloc_view_def Let_def bmap_blocks_def)

subsection \<open>Zeroing\<close>

lemma room_read: "room_for F n s \<Longrightarrow> bn \<in> F \<Longrightarrow> card H \<le> 1 \<Longrightarrow> logged_block s bn \<or> lh_n s + int (card H) < int LOGSIZE"
proof (rule disjCI)
  assume a: "room_for F n s" "bn \<in> F" "card H \<le> 1" "\<not> lh_n s + int (card H) < int LOGSIZE"
  show "logged_block s bn"
  proof (rule ccontr)
    assume "\<not> logged_block s bn"
    then have "0 < card {b \<in> F. \<not> logged_block s b}" using a(1,2) by (auto simp: room_for_def card_gt_0_iff)
    then show False using a by (simp add: room_for_def)
  qed
qed

lemma bzero_run:
  fixes s :: "'z kfs_scheme"
  assumes op: "in_op_with p d H s" "card H \<le> 1" and a: "a < 2 ^ 31" "\<forall>b \<in> H. b_blockno (bufs s b) \<noteq> a" and room: "room_for F n s" "a \<in> F"
  obtains t where "bzero d a s = Done () t" and "in_op_with p d H t" and "view t = (view s)(a := memset (view s a) 0 0 BSIZE)"
    and "room_for F n t" and "same_fs s t" and "mem t = mem s" and "\<And>i. i \<in> H \<Longrightarrow> b_blockno (bufs t i) = b_blockno (bufs s i)"
proof -
  obtain b u where u: "bread d a s = Done b u" "in_op_with p d (insert b H) u" "b \<notin> H" "b_blockno (bufs u b) = a"
    "view u = view s" "same_log s u" "same_fs s u" "mem u = mem s" "\<And>i. i \<in> H \<Longrightarrow> bufs u i = bufs s i"
    using bread_in_op [OF op(1) a room_read [OF room op(2)]] by blast
  have "room_for F n u" using room(1) room_for_same [OF u(6)] by simp
  then obtain t where t: "kseq (bset b (\<lambda>x. x\<lparr>b_data := memset (b_data x) 0 0 BSIZE\<rparr>)) (kseq (log_write b) (brelse b)) u = Done () t"
    "in_op_with p d H t" "view t = (view u)(a := memset (view u a) 0 0 BSIZE)" "room_for F n t" "same_fs u t" "mem t = mem u"
    "\<And>i. b_blockno (bufs t i) = b_blockno (bufs u i)"
    using change_block [OF u(2,3,4) _ room(2), of n "\<lambda>x. x\<lparr>b_data := memset (b_data x) 0 0 BSIZE\<rparr>" "\<lambda>c. memset c 0 0 BSIZE"] by metis
  have "bzero d a s = Done () t" using u(1) t(1) by (simp add: bzero_def kbind_run)
  then show thesis using that t u same_fs_trans [OF u(7) t(5)] by simp
qed

subsection \<open>Allocation\<close>

definition balloc_body :: "u32 \<Rightarrow> superblock \<Rightarrow> nat \<Rightarrow> ('z kfs_scheme, u32 option) kop" where
  "balloc_body dev x b =
     kbind (bread dev (BBLOCK b x)) (\<lambda>bp.
     kbind (bget_field bp b_data) (\<lambda>d.
       case bitmap_find d b (unat (sb_size x)) of
         Some bi \<Rightarrow>
           kseq (bset bp (\<lambda>y. y\<lparr>b_data := bitmap_mark (b_data y) bi\<rparr>))
           (kseq (log_write bp)
           (kseq (brelse bp)
           (kseq (bzero dev (of_nat (b + bi)))
           (kret (Some (of_nat (b + bi)))))))
       | None \<Rightarrow> kseq (brelse bp) (kret None)))"

lemma balloc_rounds:
  "balloc dev = kbind (kget sb) (\<lambda>x. kbind (kfind (map (\<lambda>k. k * BPB) [0..<(unat (sb_size x) + BPB - 1) div BPB]) (balloc_body dev x))
     (\<lambda>r. kret (case r of Some v \<Rightarrow> v | None \<Rightarrow> 0)))"
  unfolding balloc_def balloc_body_def by (rule refl)

lemma bitmap_find_cases:
  "bitmap_find d b n = None \<Longrightarrow> j < BPB \<Longrightarrow> b + j < n \<Longrightarrow> \<not> bitmap_free d j"
  "bitmap_find d b n = Some i \<Longrightarrow> i < BPB \<and> b + i < n \<and> bitmap_free d i"
  using bitmap_scan_first [where d = d and b = b and n = n and bi = 0] by (auto simp: bitmap_find_def split: option.splits)

text \<open>What one round, and what the loop over the bitmap blocks \<open>ks\<close> has done.\<close>

definition scanned :: "nat \<Rightarrow> u32 \<Rightarrow> nat set \<Rightarrow> u32 set \<Rightarrow> nat \<Rightarrow> 'z kfs_scheme \<Rightarrow> nat set \<Rightarrow> u32 option \<Rightarrow> 'z kfs_scheme \<Rightarrow> bool" where
  "scanned p d H F n s ks r t \<longleftrightarrow> in_op_with p d H t \<and> same_fs s t \<and> mem t = mem s
     \<and> (\<forall>i \<in> H. b_blockno (bufs t i) = b_blockno (bufs s i))
     \<and> (case r of
          None \<Rightarrow> view t = view s \<and> same_log s t \<and> (\<forall>a. unat a < unat (sb_size (sb s)) \<and> unat a div BPB \<in> ks \<longrightarrow> in_use (sb s) (view s) a)
        | Some a \<Rightarrow> unat a < unat (sb_size (sb s)) \<and> \<not> in_use (sb s) (view s) a \<and> view t = alloc_view (sb s) (view s) a
            \<and> room_for (insert a F) n t)"

lemma balloc_round:
  fixes s :: "'z kfs_scheme"
  assumes op: "in_op_with p d H s" "card H \<le> 1" and ready: "alloc_ready (sb s) (view s) F" and room: "room_for F (Suc n) s"
    and H: "\<forall>b \<in> H. b_blockno (bufs s b) \<notin> bmap_blocks (sb s) \<and> in_use (sb s) (view s) (b_blockno (bufs s b))"
    and k: "k * BPB < unat (sb_size (sb s))"
  shows "\<exists>r t. balloc_body d (sb s) (k * BPB) s = Done r t \<and> scanned p d H F n s {k} r t"
proof -
  let ?q = "sb s" and ?bb = "BBLOCK (k * BPB) (sb s)"
  have bb: "?bb \<in> bmap_blocks ?q" using k by (auto simp: bmap_blocks_def)
  then have F: "?bb \<in> F" and lim: "unat (sb_size ?q) \<le> 2 ^ 31" and small: "?bb < 2 ^ 31"
    using ready in_use_small by (auto simp: alloc_ready_def)
  have new: "\<forall>b \<in> H. b_blockno (bufs s b) \<noteq> ?bb" using H bb by auto
  obtain b u where u: "bread d ?bb s = Done b u" "in_op_with p d (insert b H) u" "b \<notin> H" "b_blockno (bufs u b) = ?bb"
    "b_data (bufs u b) = view s ?bb" "view u = view s" "same_log s u" "same_fs s u" "mem u = mem s" "\<And>i. i \<in> H \<Longrightarrow> bufs u i = bufs s i"
    using bread_in_op [OF op(1) small new room_read [OF room F op(2)]] by blast
  have at: "BBLOCK (unat a) ?q = ?bb" if "unat a div BPB = k" for a using that by (simp add: BBLOCK_def)
  show ?thesis
  proof (cases "bitmap_find (view s ?bb) (k * BPB) (unat (sb_size ?q))")
    case None
    obtain t where t: "brelse b u = Done () t" "in_op_with p d H t" "view t = view u" "same_log u t" "same_fs u t" "mem t = mem u"
      "\<And>i. b_blockno (bufs t i) = b_blockno (bufs u i)"
      using brelse_in_op [OF u(2,3)] by blast
    have "in_use ?q (view s) a" if "unat a < unat (sb_size ?q)" "unat a div BPB = k" for a
    proof -
      have "k * BPB + unat a mod BPB = unat a" using that(2) by (metis div_mult_mod_eq)
      then show ?thesis using bitmap_find_cases(1) [OF None, of "unat a mod BPB"] that at [OF that(2)] by (simp add: in_use_def)
    qed
    moreover have "balloc_body d ?q (k * BPB) s = Done None t" using u(1,5) None t(1) by (simp add: balloc_body_def kbind_run kseq_run)
    ultimately show ?thesis
      using t u same_fs_trans [OF u(8) t(5)] same_log_trans [OF u(7) t(4)] by (intro exI [of _ None] exI [of _ t]) (simp add: scanned_def)
  next
    case (Some bi)
    define a where "a = (of_nat (k * BPB + bi) :: u32)"
    have bi: "bi < BPB" "k * BPB + bi < unat (sb_size ?q)" "bitmap_free (view s ?bb) bi" using bitmap_find_cases(2) [OF Some] by simp_all
    have ua: "unat a = k * BPB + bi" unfolding a_def using bi(2) lim by (intro unat_of_nat32) simp
    then have ak: "unat a div BPB = k" "unat a mod BPB = bi" using bi(1) by simp_all
    have free: "\<not> in_use ?q (view s) a" "unat a < unat (sb_size ?q)" using ua ak at [OF ak(1)] bi by (simp_all add: in_use_def)
    then have nb: "a \<noteq> ?bb" and a31: "a < 2 ^ 31" using ready bb lim by (auto simp: alloc_ready_def word_less_nat_alt)
    have "room_for F (Suc n) u" using room room_for_same [OF u(7)] by simp
    then obtain v where v: "\<And>k :: ('z kfs_scheme, u32 option) kop. kseq (bset b (\<lambda>y. y\<lparr>b_data := bitmap_mark (b_data y) bi\<rparr>)) (kseq (log_write b) (kseq (brelse b) k)) u = k v"
      "in_op_with p d H v" "view v = (view u)(?bb := bitmap_mark (view u ?bb) bi)" "room_for F (Suc n) v" "same_fs u v" "mem v = mem u"
      "\<And>i. b_blockno (bufs v i) = b_blockno (bufs u i)"
      using change_block [OF u(2,3,4) _ F, of "Suc n" "\<lambda>y. y\<lparr>b_data := bitmap_mark (b_data y) bi\<rparr>" "\<lambda>c. bitmap_mark c bi"] by metis
    have nH: "\<forall>i \<in> H. b_blockno (bufs v i) \<noteq> a" using H free(1) v(7) u(10) by metis
    obtain t where t: "bzero d a v = Done () t" "in_op_with p d H t" "view t = (view v)(a := memset (view v a) 0 0 BSIZE)" "room_for (insert a F) n t"
      "same_fs v t" "mem t = mem v" "\<And>i. i \<in> H \<Longrightarrow> b_blockno (bufs t i) = b_blockno (bufs v i)"
      using bzero_run [OF v(2) op(2) a31 nH room_for_take [OF v(4)] insertI1] by blast
    have "balloc_body d ?q (k * BPB) s = Done (Some a) t"
      using u(1,5) Some v(1) t(1) by (simp add: balloc_body_def kbind_run kseq_run a_def)
    moreover have "view t = alloc_view ?q (view s) a"
      using t(3) v(3) u(6) nb at [OF ak(1)] ak(2) by (simp add: alloc_view_def Let_def)
    ultimately show ?thesis
      using t u v free same_fs_trans [OF same_fs_trans [OF u(8) v(5)] t(5)] by (intro exI [of _ "Some a"] exI [of _ t]) (simp add: scanned_def)
  qed
qed

text \<open>The rounds go through the bitmap blocks in order, up to the first with a free bit.\<close>

lemma scanned_more:
  assumes "scanned p d H F n s {k} None u" and "scanned p d H F n u ks r t"
  shows "scanned p d H F n s (insert k ks) r t"
proof -
  have u: "same_fs s u" "view u = view s" "same_log s u" using assms(1) by (simp_all add: scanned_def)
  then have "sb u = sb s" by (simp add: same_fs_def)
  then show ?thesis
    using assms u same_fs_trans [OF u(1), of t] same_log_trans [OF u(3), of t] by (cases r) (auto simp: scanned_def)
qed

lemma balloc_scan:
  fixes s :: "'z kfs_scheme"
  assumes "in_op_with p d H s" and "card H \<le> 1" and "alloc_ready (sb s) (view s) F" and "room_for F (Suc n) s"
    and "\<forall>b \<in> H. b_blockno (bufs s b) \<notin> bmap_blocks (sb s) \<and> in_use (sb s) (view s) (b_blockno (bufs s b))"
    and "\<forall>k \<in> set ks. k * BPB < unat (sb_size (sb s))"
  shows "\<exists>r t. kfind (map (\<lambda>k. k * BPB) ks) (balloc_body d (sb s)) s = Done r t \<and> scanned p d H F n s (set ks) r t"
  using assms
proof (induction ks arbitrary: s)
  case Nil
  then show ?case by (simp add: scanned_def)
next
  case (Cons k ks)
  obtain r u where u: "balloc_body d (sb s) (k * BPB) s = Done r u" "scanned p d H F n s {k} r u"
    using balloc_round [OF Cons.prems(1-5), of k] Cons.prems(6) by auto
  show ?case
  proof (cases r)
    case (Some a)
    then have "scanned p d H F n s (set (k # ks)) r u" using u(2) by (simp add: scanned_def)
    then show ?thesis using u(1) Some by (simp add: kbind_run)
  next
    case None
    have e: "in_op_with p d H u" "sb u = sb s" "view u = view s" "same_log s u" "\<forall>i \<in> H. b_blockno (bufs u i) = b_blockno (bufs s i)"
      using u(2) None by (simp_all add: scanned_def same_fs_def)
    then obtain r' t where t: "kfind (map (\<lambda>k. k * BPB) ks) (balloc_body d (sb s)) u = Done r' t" "scanned p d H F n u (set ks) r' t"
      using Cons.IH [of u] Cons.prems(2-6) room_for_same [OF e(4)] by auto
    show ?thesis using u t None scanned_more [of p d H F n s k u "set ks" r' t] by (simp add: kbind_run)
  qed
qed

definition disk_full :: "superblock \<Rightarrow> (u32 \<Rightarrow> bytes) \<Rightarrow> bool" where
  "disk_full q V \<longleftrightarrow> (\<forall>a. unat a < unat (sb_size q) \<longrightarrow> in_use q V a)"

text \<open>\<open>balloc\<close> takes a free block, marks it and zeroes it; it gives 0 and changes nothing if there is none.\<close>

definition allocated :: "nat \<Rightarrow> u32 \<Rightarrow> nat set \<Rightarrow> u32 set \<Rightarrow> nat \<Rightarrow> 'z kfs_scheme \<Rightarrow> u32 \<Rightarrow> 'z kfs_scheme \<Rightarrow> bool" where
  "allocated p d H F n s a t \<longleftrightarrow> in_op_with p d H t \<and> same_fs s t \<and> mem t = mem s
     \<and> (\<forall>i \<in> H. b_blockno (bufs t i) = b_blockno (bufs s i))
     \<and> (if a = 0 then disk_full (sb s) (view s) \<and> view t = view s \<and> same_log s t
        else unat a < unat (sb_size (sb s)) \<and> \<not> in_use (sb s) (view s) a \<and> view t = alloc_view (sb s) (view s) a \<and> room_for (insert a F) n t)"

lemma balloc_run:
  fixes s :: "'z kfs_scheme"
  assumes "in_op_with p d H s" and "card H \<le> 1" and "alloc_ready (sb s) (view s) F" and "room_for F (Suc n) s"
    and "\<forall>b \<in> H. b_blockno (bufs s b) \<notin> bmap_blocks (sb s) \<and> in_use (sb s) (view s) (b_blockno (bufs s b))"
  obtains a t where "balloc d s = Done a t" and "allocated p d H F n s a t"
proof -
  let ?N = "unat (sb_size (sb s))"
  define ks where "ks = [0..<(?N + BPB - 1) div BPB]"
  have "k * BPB < ?N" if "k \<in> set ks" for k using that by (auto simp: ks_def less_eq_div_iff_mult_less_eq Suc_le_eq [symmetric])
  then obtain r t where t: "kfind (map (\<lambda>k. k * BPB) ks) (balloc_body d (sb s)) s = Done r t" "scanned p d H F n s (set ks) r t"
    using balloc_scan [OF assms, of ks] by blast
  have "balloc d s = Done (case r of Some v \<Rightarrow> v | None \<Rightarrow> 0) t"
    unfolding balloc_rounds using t(1) by (simp add: kbind_run ks_def)
  moreover have all: "unat a div BPB \<in> set ks" if "unat a < ?N" for a :: u32
  proof -
    have "unat a div BPB < (?N + BPB - 1) div BPB" using that by (simp add: less_eq_div_iff_mult_less_eq Suc_le_eq [symmetric])
    then show ?thesis by (simp add: ks_def)
  qed
  have "allocated p d H F n s (case r of Some v \<Rightarrow> v | None \<Rightarrow> 0) t"
  proof (cases r)
    case None
    then show ?thesis using t(2) all by (auto simp: scanned_def allocated_def disk_full_def)
  next
    case (Some a)
    then have "a \<noteq> 0" using t(2) assms(3) by (auto simp: scanned_def alloc_ready_def)
    then show ?thesis using t(2) Some by (simp add: scanned_def allocated_def)
  qed
  ultimately show thesis using that by blast
qed

end
