(* ===== verification/Fs_Write.thy ===== *)
theory Fs_Write
  imports Fs_Rw Fs_Alloc
begin

text \<open>
  Writing files: \<open>bmap\<close> of \<^verbatim>\<open>kernel/fs.c\<close> with its allocation of data blocks and of the indirect block, and \<open>writei\<close>, which
  overwrites a file and lets it grow, up to the end of the disk.
\<close>

subsection \<open>The blocks of a file and the bitmap\<close>

text \<open>The blocks of a file: the data blocks and the indirect block.\<close>

definition own :: "(u32 \<Rightarrow> bytes) \<Rightarrow> inode \<Rightarrow> nat \<Rightarrow> u32 set" where
  "own V x nb = block_of V x ` {..<nb} \<union> (if i_addrs x NDIRECT = 0 then {} else {i_addrs x NDIRECT})"

text \<open>
  A file of \<open>nb\<close> blocks, with its inode in block \<open>ib\<close>: the blocks are different from each other and from the bitmap, the inode's and
  the boot block, and the bitmap has them all.
\<close>

definition disk_ok :: "superblock \<Rightarrow> u32 \<Rightarrow> (u32 \<Rightarrow> bytes) \<Rightarrow> bool" where
  "disk_ok q ib V \<longleftrightarrow> unat (sb_size q) \<le> 2 ^ 31 \<and> (\<forall>a \<in> bmap_blocks q. in_use q V a) \<and> in_use q V 0 \<and> in_use q V ib \<and> ib \<notin> bmap_blocks q"

definition file_inv :: "superblock \<Rightarrow> u32 \<Rightarrow> (u32 \<Rightarrow> bytes) \<Rightarrow> inode \<Rightarrow> nat \<Rightarrow> bool" where
  "file_inv q ib V x nb \<longleftrightarrow> disk_ok q ib V \<and> mapped V x nb \<and> (\<forall>k < MAXFILE. nb \<le> k \<longrightarrow> block_of V x k = 0)
     \<and> i_addrs x NDIRECT \<notin> block_of V x ` {..<nb} \<and> (\<forall>b \<in> own V x nb. in_use q V b \<and> b \<notin> bmap_blocks q \<and> b \<noteq> ib)"

lemma disk_ok_ready: "disk_ok q ib V \<Longrightarrow> bmap_blocks q \<subseteq> F \<Longrightarrow> alloc_ready q V F"
  by (simp add: disk_ok_def alloc_ready_def)

lemma in_use_cong:
  assumes "\<And>b. b \<in> bmap_blocks q \<Longrightarrow> V b = W b"
  shows "in_use q V = in_use q W"
  using assms by (intro ext) (auto simp: in_use_def bmap_blocks_def)

text \<open>
  From the file \<open>V\<close>, \<open>x\<close>, \<open>nb\<close> to the file \<open>V'\<close>, \<open>x'\<close>, \<open>nb'\<close>: \<open>bs\<close> is written at \<open>off\<close>, the file keeps its blocks and takes only
  free ones, the bitmap has exactly the new blocks added, and no other block has changed.
\<close>

definition wrote :: "superblock \<Rightarrow> u32 \<Rightarrow> nat \<Rightarrow> u8 list \<Rightarrow> (u32 \<Rightarrow> bytes) \<times> inode \<times> nat \<Rightarrow> (u32 \<Rightarrow> bytes) \<times> inode \<times> nat \<Rightarrow> bool" where
  "wrote q ib off bs = (\<lambda>(V, x, nb) (V', x', nb'). file_inv q ib V' x' nb' \<and> nb \<le> nb' \<and> x' = x\<lparr>i_addrs := i_addrs x'\<rparr>
     \<and> off + length bs \<le> nb' * BSIZE
     \<and> (\<forall>i < max (nb * BSIZE) (off + length bs).
          file_byte V' x' i = (if off \<le> i \<and> i < off + length bs then bs ! (i - off) else file_byte V x i))
     \<and> own V x nb \<subseteq> own V' x' nb' \<and> (\<forall>b \<in> own V' x' nb'. in_use q V b \<longrightarrow> b \<in> own V x nb)
     \<and> (\<forall>b. in_use q V' b \<longleftrightarrow> in_use q V b \<or> b \<in> own V' x' nb')
     \<and> (\<forall>b. b \<notin> own V' x' nb' \<and> b \<notin> bmap_blocks q \<longrightarrow> V' b = V b))"

lemma wrote_none: "file_inv q ib V x nb \<Longrightarrow> off \<le> nb * BSIZE \<Longrightarrow> wrote q ib off [] (V, x, nb) (V, x, nb)"
  by (auto simp: wrote_def file_inv_def)

lemma wrote_append:
  assumes "off \<le> nb * BSIZE" and "wrote q ib off bs (V, x, nb) (V1, x1, nb1)" and "wrote q ib (off + length bs) cs (V1, x1, nb1) (V2, x2, nb2)"
  shows "wrote q ib off (bs @ cs) (V, x, nb) (V2, x2, nb2)"
proof -
  note a = assms(2) [unfolded wrote_def split] and b = assms(3) [unfolded wrote_def split]
  have x: "x2 = x\<lparr>i_addrs := i_addrs x2\<rparr>" "nb \<le> nb2" "off + length (bs @ cs) \<le> nb2 * BSIZE"
    using a b by (metis (no_types, lifting) inode.surjective inode.update_convs(10), auto)
  have byte: "file_byte V2 x2 i = (if off \<le> i \<and> i < off + length (bs @ cs) then (bs @ cs) ! (i - off) else file_byte V x i)"
    if i: "i < max (nb * BSIZE) (off + length (bs @ cs))" for i
  proof -
    have "nb * BSIZE \<le> nb1 * BSIZE" using a by simp
    then have "i < max (nb1 * BSIZE) (off + length bs + length cs)" using i by auto
    then have 2: "file_byte V2 x2 i = (if off + length bs \<le> i \<and> i < off + length bs + length cs then cs ! (i - (off + length bs)) else file_byte V1 x1 i)"
      using b by blast
    show ?thesis
    proof (cases "i < max (nb * BSIZE) (off + length bs)")
      case True
      then have "file_byte V1 x1 i = (if off \<le> i \<and> i < off + length bs then bs ! (i - off) else file_byte V x i)" using a by blast
      then show ?thesis using 2 by (auto simp: nth_append)
    next
      case False
      then show ?thesis using 2 i assms(1) by (auto simp: nth_append)
    qed
  qed
  have o: "own V x nb \<subseteq> own V1 x1 nb1" "own V1 x1 nb1 \<subseteq> own V2 x2 nb2" using a b by blast+
  have u: "in_use q V2 c \<longleftrightarrow> in_use q V c \<or> c \<in> own V2 x2 nb2" "c \<in> own V2 x2 nb2 \<Longrightarrow> in_use q V c \<Longrightarrow> c \<in> own V x nb" for c
    using a b o by blast+
  have "V2 c = V c" if "c \<notin> own V2 x2 nb2" "c \<notin> bmap_blocks q" for c
  proof -
    have "c \<notin> own V1 x1 nb1" using that o by blast
    then show ?thesis using a b that by metis
  qed
  then show ?thesis unfolding wrote_def split using x byte o u b by blast
qed

text \<open>Storing a chunk into an allocated block.\<close>

lemma wrote_put:
  assumes inv: "file_inv q ib V x nb" and off: "off < nb * BSIZE" and len: "length bs \<le> BSIZE - off mod BSIZE"
  shows "wrote q ib off bs (V, x, nb) (put_chunk V x off bs, x, nb)"
proof -
  let ?W = "put_chunk V x off bs" and ?k = "off div BSIZE"
  note i = inv [unfolded file_inv_def]
  have map: "mapped V x nb" using i by blast
  have k: "?k < nb" using off by (simp add: less_mult_imp_div_less)
  then have bk: "block_of V x ?k \<in> own V x nb" by (simp add: own_def)
  have bi: "i_addrs x NDIRECT \<noteq> block_of V x ?k" using i k by (metis imageI lessThan_iff)
  have other: "?W b = V b" if "b \<noteq> block_of V x ?k" for b using that by (simp add: put_chunk_def Let_def)
  have blk: "block_of ?W x = block_of V x" using other [OF bi] by (intro ext) (simp add: block_of_def)
  then have o: "own ?W x nb = own V x nb" by (simp add: own_def)
  have u: "in_use q ?W = in_use q V" using i bk by (intro in_use_cong other) auto
  have m: "mapped ?W x nb" by (rule put_chunk_mapped [OF map off])
  have "file_inv q ib ?W x nb" using i m unfolding file_inv_def disk_ok_def blk o u by blast
  moreover have "off + length bs \<le> nb * BSIZE"
  proof -
    have "off + length bs \<le> off div BSIZE * BSIZE + BSIZE" using len div_mult_mod_eq [of off BSIZE] by linarith
    moreover have "Suc ?k * BSIZE \<le> nb * BSIZE" using k by (intro mult_le_mono1) simp
    ultimately show ?thesis by simp
  qed
  moreover have "?W b = V b" if "b \<notin> own V x nb" for b using that bk by (intro other) auto
  ultimately show ?thesis
    using put_chunk_byte [OF map off len] i by (auto simp: wrote_def o u max_def split: if_splits)
qed

subsection \<open>Growing by a block\<close>

lemma wrote_alloc:
  assumes inv: "file_inv q ib V x nb" and free: "\<not> in_use q V a" and x: "x' = x\<lparr>i_addrs := i_addrs x'\<rparr>"
    and nb: "nb \<le> nb'" "off \<le> nb * BSIZE" and map: "mapped V' x' nb'" "\<And>k. k < MAXFILE \<Longrightarrow> nb' \<le> k \<Longrightarrow> block_of V' x' k = 0"
    and ind: "i_addrs x' NDIRECT \<notin> block_of V' x' ` {..<nb'}" and own: "own V' x' nb' = insert a (own V x nb)"
    and old: "\<And>k. k < nb \<Longrightarrow> block_of V' x' k = block_of V x k" and use: "\<And>b. in_use q V' b \<longleftrightarrow> in_use q V b \<or> b = a"
    and V': "\<And>b. b \<notin> bmap_blocks q \<Longrightarrow> b \<noteq> a \<Longrightarrow> b = 0 \<or> b \<noteq> i_addrs x NDIRECT \<Longrightarrow> V' b = V b"
  shows "wrote q ib off [] (V, x, nb) (V', x', nb')"
proof -
  note i = inv [unfolded file_inv_def disk_ok_def]
  have a: "a \<notin> bmap_blocks q" "a \<noteq> ib" "a \<noteq> 0" using i free by auto
  have inv': "file_inv q ib V' x' nb'"
    using i a map ind by (auto simp: file_inv_def disk_ok_def own use)
  have byte: "file_byte V' x' j = file_byte V x j" if "j < nb * BSIZE" for j
  proof -
    have k: "j div BSIZE < nb" using that by (simp add: less_mult_imp_div_less)
    then have b: "block_of V x (j div BSIZE) \<in> own V x nb" by (simp add: own_def)
    have "i_addrs x NDIRECT \<noteq> block_of V x (j div BSIZE)" using i k by (metis imageI lessThan_iff)
    then have "V' (block_of V x (j div BSIZE)) = V (block_of V x (j div BSIZE))" using i b free by (intro V') auto
    then show ?thesis using old [OF k] by (simp add: file_byte_def)
  qed
  have lim: "off \<le> nb' * BSIZE" "max (nb * BSIZE) off = nb * BSIZE" using nb by (auto intro: order_trans)
  have V0: "V' b = V b" if "b \<notin> own V' x' nb'" "b \<notin> bmap_blocks q" for b
    using that own by (intro V') (auto simp: own_def split: if_splits)
  show ?thesis
    unfolding wrote_def split using inv' nb lim x byte own use free V0 i by auto
qed

text \<open>What the allocation of block \<open>a\<close> leaves of the file.\<close>

lemma alloc_keeps:
  assumes inv: "file_inv q ib V x nb" and free: "\<not> in_use q V a" "unat a < unat (sb_size q)" and W: "W = alloc_view q V a"
  shows "block_of W x k = block_of V x k" and "in_use q W b \<longleftrightarrow> in_use q V b \<or> b = a"
    and "b \<notin> bmap_blocks q \<Longrightarrow> b \<noteq> a \<Longrightarrow> W b = V b" and "W a = memset (V a) 0 0 BSIZE" and "a \<notin> own V x nb" and "a \<noteq> 0" and "a < 2 ^ 31"
proof -
  note i = inv [unfolded file_inv_def disk_ok_def]
  have a: "a \<notin> bmap_blocks q" using i free(1) by auto
  show keep: "W b = V b" if "b \<notin> bmap_blocks q" "b \<noteq> a" for b using alloc_view_other [OF that(1) free(2), of V] that(2) W by simp
  show "W a = memset (V a) 0 0 BSIZE" using alloc_view_other [OF a free(2), of V] W by simp
  show "in_use q W b \<longleftrightarrow> in_use q V b \<or> b = a" unfolding W by (rule in_use_alloc [OF a free(2)])
  show "a \<notin> own V x nb" "a \<noteq> 0" using i free(1) by auto
  show "a < 2 ^ 31" using i free(2) by (simp add: word_less_nat_alt)
  have "W (i_addrs x NDIRECT) = V (i_addrs x NDIRECT)" if "i_addrs x NDIRECT \<noteq> 0"
    using i free(1) that by (intro keep) (auto simp: own_def)
  then show "block_of W x k = block_of V x k" by (simp add: block_of_def)
qed

lemma own_Suc:
  assumes "\<And>k. k < nb \<Longrightarrow> block_of W y k = block_of V x k" and "block_of W y nb = a" and "i_addrs y NDIRECT = i_addrs x NDIRECT"
  shows "block_of W y ` {..<Suc nb} = insert a (block_of V x ` {..<nb})" and "own W y (Suc nb) = insert a (own V x nb)"
proof -
  have "block_of W y ` {..<nb} = block_of V x ` {..<nb}" using assms(1) by (intro image_cong) simp_all
  then show "block_of W y ` {..<Suc nb} = insert a (block_of V x ` {..<nb})" using assms(2) by (simp add: lessThan_Suc)
  then show "own W y (Suc nb) = insert a (own V x nb)" using assms(3) by (simp add: own_def)
qed

text \<open>The new block is the last of the file.\<close>

lemma wrote_block:
  assumes inv: "file_inv q ib V x nb" and free: "\<not> in_use q V a" "unat a < unat (sb_size q)" and W: "W = alloc_view q V a"
    and y: "y = x\<lparr>i_addrs := i_addrs y\<rparr>" "i_addrs y NDIRECT = i_addrs x NDIRECT" and nb: "nb < MAXFILE" "off \<le> nb * BSIZE"
    and blk: "\<And>k. k < MAXFILE \<Longrightarrow> block_of W' y k = (if k = nb then a else block_of V x k)"
    and W': "\<And>b. b = 0 \<or> b \<noteq> i_addrs x NDIRECT \<Longrightarrow> W' b = W b"
  shows "wrote q ib off [] (V, x, nb) (W', y, Suc nb)"
proof -
  note i = inv [unfolded file_inv_def disk_ok_def mapped_def] and k = alloc_keeps [OF inv free W]
  have o: "block_of W' y ` {..<Suc nb} = insert a (block_of V x ` {..<nb})" "own W' y (Suc nb) = insert a (own V x nb)"
    using own_Suc [of nb W' y V x a] blk nb(1) y(2) by auto
  have ai: "i_addrs x NDIRECT \<noteq> a" "a \<notin> block_of V x ` {..<nb}" using k(5,6) by (auto simp: own_def split: if_splits)
  have "inj_on (block_of W' y) {..<nb} = inj_on (block_of V x) {..<nb}" using blk nb(1) by (intro inj_on_cong) simp
  moreover have "block_of W' y ` {..<nb} = block_of V x ` {..<nb}" using blk nb(1) by (intro image_cong) simp_all
  ultimately have "inj_on (block_of W' y) {..<Suc nb}" using i ai(2) blk nb(1) by (simp add: lessThan_Suc)
  moreover have "i_addrs x NDIRECT < 2 ^ 31"
  proof (cases "i_addrs x NDIRECT = 0")
    case False
    then show ?thesis using i in_use_small [of q V] by (simp add: own_def)
  qed simp
  ultimately have m: "mapped W' y (Suc nb)" using i nb(1) blk k(6,7) ai(1) y(2) by (auto simp: mapped_def o(1) less_Suc_eq)
  have u: "in_use q W' b \<longleftrightarrow> in_use q V b \<or> b = a" for b
  proof -
    have "in_use q W' = in_use q W" using i by (intro in_use_cong W') (auto simp: own_def)
    then show ?thesis using k(2) by simp
  qed
  have "block_of W' y k = 0" if "k < MAXFILE" "Suc nb \<le> k" for k using blk [OF that(1)] i that by simp
  moreover have "block_of W' y k = block_of V x k" if "k < nb" for k using blk [of k] nb(1) that by simp
  moreover have "i_addrs y NDIRECT \<notin> block_of W' y ` {..<Suc nb}" using i ai(1) y(2) by (simp add: o(1))
  ultimately show ?thesis
    using W' k(3) nb(2) by (intro wrote_alloc [OF inv free(1) y(1) _ _ m _ _ o(2) _ u]) simp_all
qed

lemma wrote_direct:
  assumes "file_inv q ib V x nb" and "\<not> in_use q V a" and "unat a < unat (sb_size q)" and "nb < NDIRECT" and "off \<le> nb * BSIZE"
  shows "wrote q ib off [] (V, x, nb) (alloc_view q V a, x\<lparr>i_addrs := (i_addrs x)(nb := a)\<rparr>, Suc nb)"
proof (rule wrote_block [OF assms(1-3) refl])
  fix k :: nat assume "k < MAXFILE"
  have "block_of W (x\<lparr>i_addrs := (i_addrs x)(nb := a)\<rparr>) k = (if k = nb then a else block_of W x k)" for W
    using assms(4) by (simp add: block_of_def)
  then show "block_of (alloc_view q V a) (x\<lparr>i_addrs := (i_addrs x)(nb := a)\<rparr>) k = (if k = nb then a else block_of V x k)"
    using alloc_keeps(1) [OF assms(1-3) refl] by simp
qed (use assms(4,5) in simp_all)

lemma wrote_entry:
  assumes "file_inv q ib V x nb" and "\<not> in_use q V a" and "unat a < unat (sb_size q)" and "NDIRECT \<le> nb" and "nb < MAXFILE"
    and "off \<le> nb * BSIZE" and W: "W = alloc_view q V a" and c: "c = i_addrs x NDIRECT" "c \<noteq> 0"
  shows "wrote q ib off [] (V, x, nb) (W(c := write32 (W c) (4 * of_nat (nb - NDIRECT)) a), x, Suc nb)"
proof (rule wrote_block [OF assms(1-3) W])
  fix k :: nat assume "k < MAXFILE"
  then show "block_of (W(c := write32 (W c) (4 * of_nat (nb - NDIRECT)) a)) x k = (if k = nb then a else block_of V x k)"
    using entry_written [OF c assms(4,5), of k W a] alloc_keeps(1) [OF assms(1-3) W] by simp
qed (use assms(5,6) c in auto)

text \<open>The new block becomes the indirect block: its entries are all zero.\<close>

lemma wrote_indirect:
  assumes inv: "file_inv q ib V x nb" and free: "\<not> in_use q V a" "unat a < unat (sb_size q)" and z: "i_addrs x NDIRECT = 0" and off: "off \<le> nb * BSIZE"
  shows "wrote q ib off [] (V, x, nb) (alloc_view q V a, x\<lparr>i_addrs := (i_addrs x)(NDIRECT := a)\<rparr>, nb)"
proof -
  let ?W = "alloc_view q V a" and ?y = "x\<lparr>i_addrs := (i_addrs x)(NDIRECT := a)\<rparr>"
  note i = inv [unfolded file_inv_def mapped_def] and k = alloc_keeps [OF inv free refl]
  have "read32 (?W a) (4 * of_nat j) = 0" if "j < NINDIRECT" for j
  proof (rule read_le_zero)
    fix c :: u64 assume "in_region (4 * of_nat j) 4 c"
    then have "in_region 0 BSIZE c" using region_sub [of 0 "4 * j" 4 c BSIZE] that by simp
    then show "?W a c = 0" by (simp add: k(4) memset_eq)
  qed
  then have b: "block_of ?W ?y k = block_of V x k" if "k < MAXFILE" for k
    using that z k(1) [of k] by (auto simp: block_of_def simp del: of_nat_diff)
  have lim: "nb \<le> MAXFILE" using i by blast
  have img: "block_of ?W ?y ` {..<nb} = block_of V x ` {..<nb}" using b lim by (intro image_cong) simp_all
  have inj: "inj_on (block_of ?W ?y) {..<nb} = inj_on (block_of V x) {..<nb}" using b lim by (intro inj_on_cong) simp
  have a: "a \<notin> block_of V x ` {..<nb}" using k(5) by (simp add: own_def)
  have m: "mapped ?W ?y nb" using i a k(7) lim by (simp add: mapped_def img inj b)
  have o: "own ?W ?y nb = insert a (own V x nb)" using k(6) z by (simp add: own_def img)
  show ?thesis
    using i k(2,3) off a lim by (intro wrote_alloc [OF inv free(1) _ _ _ m _ _ o]) (simp_all add: img b)
qed

subsection \<open>Finding or allocating a block\<close>

text \<open>The second half of \<open>bmap\<close> for a block behind the indirect block \<open>c\<close>.\<close>

definition bmap_entry :: "u32 \<Rightarrow> nat \<Rightarrow> u32 \<Rightarrow> ('z kfs_scheme, u32) kop" where
  "bmap_entry dev bn c =
     kbind (bread dev c) (\<lambda>bp.
     kbind (bget_field bp (\<lambda>b. read32 (b_data b) (4 * of_nat (bn - NDIRECT)))) (\<lambda>a.
     kbind (if a \<noteq> 0 then kret a
            else kbind (balloc dev) (\<lambda>addr.
              kseq (kwhen (addr \<noteq> 0)
                (kseq (bset bp (\<lambda>b. b\<lparr>b_data := write32 (b_data b) (4 * of_nat (bn - NDIRECT)) addr\<rparr>))
                (log_write bp)))
              (kret addr))) (\<lambda>addr.
     kseq (brelse bp) (kret addr))))"

lemma bmap_indirect:
  assumes "NDIRECT \<le> bn" and "bn < MAXFILE"
  shows "bmap ip bn s = kbind (if i_addrs (inodes s ip) NDIRECT \<noteq> 0 then kret (i_addrs (inodes s ip) NDIRECT)
      else kbind (balloc (i_dev (inodes s ip))) (\<lambda>addr.
        kseq (kwhen (addr \<noteq> 0) (iset ip (\<lambda>y. y\<lparr>i_addrs := (i_addrs y)(NDIRECT := addr)\<rparr>))) (kret addr)))
     (\<lambda>c. if c = 0 then kret 0 else bmap_entry (i_dev (inodes s ip)) bn c) s"
proof -
  have "\<not> bn < NDIRECT" "bn - NDIRECT < NINDIRECT" using assms by auto
  then show ?thesis unfolding bmap_def bmap_entry_def iget_field_def by (simp only: kbind_run kget_run outcome.case if_False if_True id_apply)
qed

lemma bmap_entry_run:
  fixes s :: "'z kfs_scheme"
  assumes op: "in_op p d s" and inv: "file_inv (sb s) ib (view s) x nb" and nb: "NDIRECT \<le> nb" "nb < MAXFILE" "off \<le> nb * BSIZE"
    and c: "c = i_addrs x NDIRECT" "c \<noteq> 0" and room: "room_for F (Suc n) s" "bmap_blocks (sb s) \<subseteq> F" "c \<in> F"
  obtains a t where "bmap_entry d nb c s = Done a t" and "in_op p d t" and "same_fs s t" and "mem t = mem s"
    and "if a = 0 then view t = view s \<and> disk_full (sb s) (view s) \<and> room_for F n t
      else wrote (sb s) ib off [] (view s, x, nb) (view t, x, Suc nb) \<and> block_of (view t) x nb = a \<and> room_for (insert a F) n t"
proof -
  note i = inv [unfolded file_inv_def]
  have use: "in_use (sb s) (view s) c" "c \<notin> bmap_blocks (sb s)" using i c by (auto simp: own_def)
  then have c31: "c < 2 ^ 31" using i in_use_small by (auto simp: disk_ok_def)
  obtain b t1 where t1: "bread d c s = Done b t1" "in_op_with p d {b} t1" "b_blockno (bufs t1 b) = c" "b_data (bufs t1 b) = view s c"
    "view t1 = view s" "same_log s t1" "same_fs s t1" "mem t1 = mem s"
    using bread_block_in_op [OF op c31] by blast
  have q: "sb t1 = sb s" using t1(7) by (simp add: same_fs_def)
  have "read32 (view s c) (4 * of_nat (nb - NDIRECT)) = block_of (view s) x nb" using c nb(1) by (simp add: block_of_def del: of_nat_diff)
  also have "\<dots> = 0" using i nb(2) by blast
  finally have z: "read32 (view s c) (4 * of_nat (nb - NDIRECT)) = 0" .
  have ready: "alloc_ready (sb t1) (view t1) F" unfolding q t1(5) using i disk_ok_ready [OF _ room(2)] by blast
  have r1: "room_for F (Suc n) t1" using room(1) room_for_same [OF t1(6)] by simp
  have "\<forall>i \<in> {b}. b_blockno (bufs t1 i) \<notin> bmap_blocks (sb t1) \<and> in_use (sb t1) (view t1) (b_blockno (bufs t1 i))" using use by (simp add: t1(3,5) q)
  from balloc_run [OF t1(2) _ ready r1 this]
  obtain a t2 where t2: "balloc d t1 = Done a t2" "allocated p d {b} F n t1 a t2" by auto
  note t2' = t2(2) [unfolded allocated_def q t1(5)]
  show thesis
  proof (cases "a = 0")
    case True
    obtain t where t: "brelse b t2 = Done () t" "in_op p d t" "view t = view t2" "same_log t2 t" "same_fs t2 t" "mem t = mem t2"
      using brelse_in_op [of p d b "{}" t2] t2' by auto
    have "room_for F n t" using room_for_same [OF t(4)] room_for_same [of t1 t2] t2' True room_for_mono [OF r1 subset_refl, of n] by simp
    moreover have "bmap_entry d nb c s = Done 0 t" using t1(1,4) z t2(1) t(1) True by (simp add: bmap_entry_def kbind_run kseq_run)
    moreover have "same_fs s t" using same_fs_trans [OF t1(7) same_fs_trans [OF _ t(5)]] t2' by blast
    ultimately show thesis using that [of 0 t] t(2,3,6) t2' t1(8) True by simp
  next
    case False
    let ?f = "\<lambda>m. write32 m (4 * of_nat (nb - NDIRECT)) a"
    have r2: "room_for (insert a F) n t2" and b2: "in_op_with p d {b} t2" "b_blockno (bufs t2 b) = c" using t2' False t1(3) by simp_all
    obtain t3 where t3: "kseq (bset b (\<lambda>y. y\<lparr>b_data := ?f (b_data y)\<rparr>)) (log_write b) t2 = Done () t3" "in_op_with p d {b} t3"
      "view t3 = (view t2)(c := ?f (view t2 c))" "room_for (insert a F) n t3" "same_fs t2 t3" "mem t3 = mem t2"
      using change_held [OF b2(1) _ b2(2) r2, of "\<lambda>y. y\<lparr>b_data := ?f (b_data y)\<rparr>" ?f] room(3) by blast
    obtain t where t: "brelse b t3 = Done () t" "in_op p d t" "view t = view t3" "same_log t3 t" "same_fs t3 t" "mem t = mem t3"
      using brelse_in_op [of p d b "{}" t3] t3(2) by auto
    have w: "wrote (sb s) ib off [] (view s, x, nb) (view t, x, Suc nb)"
      unfolding t(3) t3(3) using t2' False by (intro wrote_entry [OF inv _ _ nb _ c]) simp_all
    have "block_of (view t) x nb = a" unfolding t(3) t3(3) using entry_written [OF c nb(1,2,2)] by simp
    moreover have "bmap_entry d nb c s = Done a t" using t1(1,4) z t2(1) t3(1) t(1) False by (simp add: bmap_entry_def kbind_run kseq_run)
    moreover have "same_fs s t" using same_fs_trans [OF t1(7) same_fs_trans [OF _ same_fs_trans [OF t3(5) t(5)]]] t2' by blast
    moreover have "room_for (insert a F) n t" using t3(4) room_for_same [OF t(4)] by simp
    ultimately show thesis using that [of a t] t(2,6) t3(6) t2' t1(8) False w by simp
  qed
qed

text \<open>
  The blocks that an operation on a file logs in any case: the bitmap, the inode's block and the indirect block. An indirect block still to be
  allocated counts as one more.
\<close>

definition base :: "superblock \<Rightarrow> u32 \<Rightarrow> inode \<Rightarrow> u32 set" where
  "base q ib x = bmap_blocks q \<union> insert ib (if i_addrs x NDIRECT = 0 then {} else {i_addrs x NDIRECT})"

lemma file_inv_ready: "file_inv q ib V x nb \<Longrightarrow> alloc_ready q V (base q ib x)"
  unfolding file_inv_def by (elim conjE) (erule disk_ok_ready, auto simp: base_def)

definition ind_cost :: "inode \<Rightarrow> nat \<Rightarrow> nat" where
  "ind_cost x e = (if i_addrs x NDIRECT = 0 \<and> NDIRECT * BSIZE < e then 1 else 0)"

text \<open>One step of an operation on the file of inode \<open>ip\<close>, which has \<open>nb\<close> blocks before and \<open>nb'\<close> afterwards.\<close>

definition wrote_st :: "nat \<Rightarrow> u32 \<Rightarrow> nat \<Rightarrow> nat \<Rightarrow> u8 list \<Rightarrow> 'z kfs_scheme \<times> nat \<Rightarrow> 'z kfs_scheme \<times> nat \<Rightarrow> bool" where
  "wrote_st p d ip off bs = (\<lambda>(s, nb) (t, nb'). in_op p d t \<and> inodes t = (inodes s)(ip := inodes t ip) \<and> same_fs (s\<lparr>inodes := inodes t\<rparr>) t
     \<and> mem t = mem s \<and> wrote (sb s) (inode_block s ip) off bs (view s, inodes s ip, nb) (view t, inodes t ip, nb'))"

lemma wrote_stI:
  fixes s t :: "'z kfs_scheme"
  assumes "in_op p d t" and "same_fs (s\<lparr>inodes := (inodes s)(ip := y)\<rparr>) t" and "mem t = mem s"
    and "wrote (sb s) (inode_block s ip) off bs (view s, inodes s ip, nb) (view t, y, nb')"
  shows "wrote_st p d ip off bs (s, nb) (t, nb')"
proof -
  have "inodes t = (inodes s)(ip := y)" using assms(2) by (simp add: same_fs_def)
  then show ?thesis using assms by (simp add: wrote_st_def)
qed

lemma wrote_stD:
  assumes "wrote_st p d ip off bs (s, nb) (t, nb')"
  shows "sb t = sb s" and "inode_block t ip = inode_block s ip" and "i_dev (inodes t ip) = i_dev (inodes s ip)"
    and "i_size (inodes t ip) = i_size (inodes s ip)" and "i_inum (inodes t ip) = i_inum (inodes s ip)" and "procs t = procs s"
    and "file_inv (sb t) (inode_block t ip) (view t) (inodes t ip) nb'"
proof -
  have w: "wrote (sb s) (inode_block s ip) off bs (view s, inodes s ip, nb) (view t, inodes t ip, nb')" using assms by (simp add: wrote_st_def)
  then have "inodes t ip = (inodes s ip)\<lparr>i_addrs := i_addrs (inodes t ip)\<rparr>" by (simp add: wrote_def)
  then show x: "i_dev (inodes t ip) = i_dev (inodes s ip)" "i_size (inodes t ip) = i_size (inodes s ip)" "i_inum (inodes t ip) = i_inum (inodes s ip)"
    by (metis inode.select_convs inode.surjective inode.update_convs(10))+
  show q: "sb t = sb s" "procs t = procs s" using assms by (simp_all add: wrote_st_def same_fs_def)
  then show b: "inode_block t ip = inode_block s ip" using x(3) by (simp add: inode_block_def)
  show "file_inv (sb t) (inode_block t ip) (view t) (inodes t ip) nb'" using w by (simp add: wrote_def q(1) b)
qed

lemma wrote_st_append:
  assumes "off \<le> nb * BSIZE" and "wrote_st p d ip off bs (s, nb) (t, nb1)" and "wrote_st p d ip (off + length bs) cs (t, nb1) (u, nb2)"
  shows "wrote_st p d ip off (bs @ cs) (s, nb) (u, nb2)"
proof -
  note w = wrote_stD [OF assms(2)]
  have "inodes t = (inodes s)(ip := inodes t ip)" "inodes u = (inodes t)(ip := inodes u ip)" using assms(2,3) unfolding wrote_st_def split by blast+
  then have "inodes u = (inodes s)(ip := inodes u ip)" by (metis fun_upd_upd)
  moreover have "same_fs (s\<lparr>inodes := inodes u\<rparr>) u" "mem u = mem s" using assms(2,3) by (simp_all add: wrote_st_def same_fs_def)
  ultimately show ?thesis
    using wrote_append [OF assms(1), of "sb s" "inode_block s ip" bs "view s" "inodes s ip" "view t" "inodes t ip" nb1 cs] assms(2,3)
    by (simp add: wrote_st_def w)
qed

definition mapped_to :: "nat \<Rightarrow> u32 \<Rightarrow> nat \<Rightarrow> nat \<Rightarrow> nat \<Rightarrow> nat \<Rightarrow> nat \<Rightarrow> 'z kfs_scheme \<Rightarrow> nat \<Rightarrow> u32 \<Rightarrow> 'z kfs_scheme \<Rightarrow> bool" where
  "mapped_to p d ip k off e n s nb a t \<longleftrightarrow> (let F = base (sb s) (inode_block s ip) (inodes t ip) in
     if a = 0 then k = nb \<and> wrote_st p d ip off [] (s, nb) (t, nb) \<and> disk_full (sb s) (view t) \<and> room_for F n t
     else wrote_st p d ip off [] (s, nb) (t, max nb (Suc k)) \<and> block_of (view t) (inodes t ip) k = a
       \<and> room_for (insert a F) (ind_cost (inodes t ip) e + n) t)"

lemma bmap_direct_run:
  fixes s :: "'z kfs_scheme"
  assumes op: "in_op p d s" "i_dev (inodes s ip) = d" and inv: "file_inv (sb s) (inode_block s ip) (view s) (inodes s ip) nb"
    and nb: "nb < NDIRECT" "off \<le> nb * BSIZE"
    and room: "room_for (base (sb s) (inode_block s ip) (inodes s ip)) (Suc (ind_cost (inodes s ip) e + n)) s"
  shows "\<exists>a t. bmap ip nb s = Done a t \<and> mapped_to p d ip nb off e n s nb a t"
proof -
  let ?x = "inodes s ip" and ?F = "base (sb s) (inode_block s ip) (inodes s ip)"
  note i = inv [unfolded file_inv_def]
  have "block_of (view s) ?x nb = 0" using i nb(1) by simp
  then have z: "i_addrs ?x nb = 0" using nb(1) by (simp add: block_of_def)
  note ready = file_inv_ready [OF inv]
  obtain a t where t: "balloc d s = Done a t" "allocated p d {} ?F (ind_cost ?x e + n) s a t"
    using balloc_run [OF op(1) _ ready room] by auto
  note t' = t(2) [unfolded allocated_def]
  show ?thesis
  proof (cases "a = 0")
    case True
    have "wrote_st p d ip off [] (s, nb) (t, nb)"
      using t' True wrote_none [OF inv nb(2)] by (intro wrote_stI [where y = ?x]) simp_all
    moreover have "room_for ?F n t" using t' True room_for_same [of s t] room_for_mono [OF room subset_refl, of n] by simp
    moreover have "bmap ip nb s = Done 0 t" using t(1) nb(1) z op(2) True by (simp add: bmap_def iget_field_def kbind_run)
    ultimately show ?thesis using t' True by (intro exI [of _ 0] exI [of _ t]) (simp add: mapped_to_def same_fs_def)
  next
    case False
    let ?y = "?x\<lparr>i_addrs := (i_addrs ?x)(nb := a)\<rparr>"
    define u where "u = t\<lparr>inodes := (inodes t)(ip := ?y)\<rparr>"
    have u: "view u = view t" "mem u = mem s" "in_op p d u" "inodes u ip = ?y" "same_fs (s\<lparr>inodes := (inodes s)(ip := ?y)\<rparr>) u" "same_log t u"
      using t' by (simp_all add: u_def same_fs_def same_log_def)
    have "wrote_st p d ip off [] (s, nb) (u, Suc nb)"
      using u t' False by (intro wrote_stI [where y = ?y]) (simp_all add: wrote_direct [OF inv _ _ nb])
    moreover have "bmap ip nb s = Done a u"
      using t(1) nb(1) z op(2) False t' by (simp add: bmap_def iget_field_def iset_def kbind_run kseq_run u_def same_fs_def)
    moreover have "block_of (view u) ?y nb = a" "ind_cost ?y e = ind_cost ?x e" "base (sb s) (inode_block s ip) ?y = ?F"
      using nb(1) by (simp_all add: block_of_def ind_cost_def base_def)
    moreover have "room_for (insert a ?F) (ind_cost ?x e + n) u" using t' False room_for_same [OF u(6)] by simp
    ultimately show ?thesis using False u(4) by (intro exI [of _ a] exI [of _ u]) (simp add: mapped_to_def)
  qed
qed

lemma bmap_entry_at:
  fixes s :: "'z kfs_scheme"
  assumes op: "in_op p d s" and inv: "file_inv (sb s) (inode_block s ip) (view s) (inodes s ip) nb"
    and nb: "NDIRECT \<le> nb" "nb < MAXFILE" "off \<le> nb * BSIZE" and c: "i_addrs (inodes s ip) NDIRECT \<noteq> 0"
    and room: "room_for (base (sb s) (inode_block s ip) (inodes s ip)) (Suc n) s"
  shows "\<exists>a t. bmap_entry d nb (i_addrs (inodes s ip) NDIRECT) s = Done a t \<and> mapped_to p d ip nb off e n s nb a t"
proof -
  let ?x = "inodes s ip" and ?F = "base (sb s) (inode_block s ip) (inodes s ip)"
  have F: "bmap_blocks (sb s) \<subseteq> ?F" "i_addrs ?x NDIRECT \<in> ?F" using c by (auto simp: base_def)
  obtain a t where t: "bmap_entry d nb (i_addrs ?x NDIRECT) s = Done a t" "in_op p d t" "same_fs s t" "mem t = mem s"
    "if a = 0 then view t = view s \<and> disk_full (sb s) (view s) \<and> room_for ?F n t
     else wrote (sb s) (inode_block s ip) off [] (view s, ?x, nb) (view t, ?x, Suc nb) \<and> block_of (view t) ?x nb = a \<and> room_for (insert a ?F) n t"
    by (rule bmap_entry_run [OF op inv nb refl c room F])
  have x: "inodes t = inodes s" "same_fs (s\<lparr>inodes := (inodes s)(ip := ?x)\<rparr>) t" using t(3) by (simp_all add: same_fs_def)
  have "mapped_to p d ip nb off e n s nb a t"
  proof (cases "a = 0")
    case True
    have "wrote_st p d ip off [] (s, nb) (t, nb)"
      using t True wrote_none [OF inv nb(3)] by (intro wrote_stI [OF _ x(2)]) simp_all
    then show ?thesis using t(5) True x(1) by (simp add: mapped_to_def)
  next
    case False
    have "wrote_st p d ip off [] (s, nb) (t, Suc nb)" using t False by (intro wrote_stI [OF _ x(2)]) simp_all
    then show ?thesis using t(5) False x(1) c by (simp add: mapped_to_def ind_cost_def)
  qed
  then show ?thesis using t(1) by blast
qed

text \<open>The indirect block is allocated first.\<close>

lemma bmap_new_indirect_run:
  fixes s :: "'z kfs_scheme"
  assumes op: "in_op p d s" "i_dev (inodes s ip) = d" and inv: "file_inv (sb s) (inode_block s ip) (view s) (inodes s ip) nb"
    and nb: "NDIRECT \<le> nb" "nb < MAXFILE" "off \<le> nb * BSIZE" and z: "i_addrs (inodes s ip) NDIRECT = 0"
    and room: "room_for (base (sb s) (inode_block s ip) (inodes s ip)) (Suc (Suc n)) s"
  shows "\<exists>a t. bmap ip nb s = Done a t \<and> mapped_to p d ip nb off e n s nb a t"
proof -
  let ?x = "inodes s ip" and ?q = "sb s" and ?ib = "inode_block s ip"
  let ?F = "base ?q ?ib ?x"
  obtain c t where t: "balloc d s = Done c t" "allocated p d {} ?F (Suc n) s c t"
    using balloc_run [OF op(1) _ file_inv_ready [OF inv] room] by auto
  note t' = t(2) [unfolded allocated_def]
  show ?thesis
  proof (cases "c = 0")
    case True
    have "wrote_st p d ip off [] (s, nb) (t, nb)"
      using t' True wrote_none [OF inv nb(3)] by (intro wrote_stI [where y = ?x]) simp_all
    moreover have "room_for ?F n t" using t' True room_for_same [of s t] room_for_mono [OF room subset_refl, of n] by simp
    moreover have "bmap ip nb s = Done 0 t" using t(1) z op(2) True by (simp add: bmap_indirect [OF nb(1,2)] kbind_run kseq_run)
    ultimately show ?thesis using t' True by (intro exI [of _ 0] exI [of _ t]) (simp add: mapped_to_def same_fs_def)
  next
    case False
    let ?y = "?x\<lparr>i_addrs := (i_addrs ?x)(NDIRECT := c)\<rparr>"
    define u where "u = t\<lparr>inodes := (inodes t)(ip := ?y)\<rparr>"
    have u: "view u = view t" "mem u = mem s" "in_op p d u" "inodes u ip = ?y" "same_fs (s\<lparr>inodes := (inodes s)(ip := ?y)\<rparr>) u" "same_log t u"
      using t' by (simp_all add: u_def same_fs_def same_log_def)
    have w: "wrote_st p d ip off [] (s, nb) (u, nb)"
      using u t' False by (intro wrote_stI [where y = ?y]) (simp_all add: wrote_indirect [OF inv _ _ z nb(3)])
    note wd = wrote_stD [OF w]
    have "base ?q ?ib ?y = insert c ?F" using z False by (auto simp: base_def)
    then have "room_for (base (sb u) (inode_block u ip) (inodes u ip)) (Suc n) u"
      unfolding wd(1,2) u(4) using t' False room_for_same [OF u(6)] by simp
    then obtain a v where v: "bmap_entry d nb c u = Done a v" "mapped_to p d ip nb off e n u nb a v"
      using bmap_entry_at [OF u(3) wd(7) nb, of n e] u(4) False by auto
    have st: "wrote_st p d ip off [] (s, nb) (v, k)" if "wrote_st p d ip off [] (u, nb) (v, k)" for k
      using wrote_st_append [OF nb(3) w, of "[]" v k] that by simp
    have "bmap ip nb s = Done a v"
      using t(1) z op(2) False v(1) [unfolded u_def] t' by (simp add: bmap_indirect [OF nb(1,2)] iset_def kbind_run kseq_run same_fs_def)
    moreover have "mapped_to p d ip nb off e n s nb a v"
      using v(2) st by (simp add: mapped_to_def wd(1,2) Let_def split: if_splits)
    ultimately show ?thesis by blast
  qed
qed

lemma bmap_run:
  fixes s :: "'z kfs_scheme"
  assumes op: "in_op p d s" "i_dev (inodes s ip) = d" and inv: "file_inv (sb s) (inode_block s ip) (view s) (inodes s ip) nb"
    and k: "k \<le> nb" "k < MAXFILE" "k * BSIZE < e" and off: "off \<le> nb * BSIZE"
    and room: "room_for (base (sb s) (inode_block s ip) (inodes s ip)) (Suc (ind_cost (inodes s ip) e + n)) s"
  shows "\<exists>a t. bmap ip k s = Done a t \<and> mapped_to p d ip k off e n s nb a t"
proof (cases "k = nb")
  case True
  note nb = k(2) [unfolded True]
  consider "nb < NDIRECT" | "NDIRECT \<le> nb" "i_addrs (inodes s ip) NDIRECT = 0" | "NDIRECT \<le> nb" "i_addrs (inodes s ip) NDIRECT \<noteq> 0" by linarith
  then show ?thesis
  proof cases
    case 1
    then show ?thesis using bmap_direct_run [OF op inv 1 off room] True by simp
  next
    case 2
    then have "NDIRECT * BSIZE < e" using mult_le_mono1 [OF 2(1), of BSIZE] k(3) True by linarith
    then have "ind_cost (inodes s ip) e = 1" using 2(2) by (simp add: ind_cost_def)
    then show ?thesis using bmap_new_indirect_run [OF op inv 2(1) nb off 2(2), of n e] room True by simp
  next
    case 3
    then show ?thesis
      using bmap_entry_at [OF op(1) inv 3(1) nb off 3(2), of n e] room True op(2) by (simp add: bmap_indirect [OF 3(1) nb] kbind_run ind_cost_def)
  qed
next
  case False
  let ?x = "inodes s ip" and ?F = "base (sb s) (inode_block s ip) (inodes s ip)"
  have "mapped (view s) ?x nb" and lt: "k < nb" using inv False k(1) by (simp_all add: file_inv_def)
  then have m: "block_of (view s) ?x k \<noteq> 0" "NDIRECT \<le> k \<Longrightarrow> i_addrs ?x NDIRECT < 2 ^ 31" by (auto simp: mapped_def)
  obtain t where t: "bmap ip k s = Done (block_of (view s) ?x k) t" "in_op p d t" "view t = view s" "same_log s t" "same_fs s t" "mem t = mem s"
    by (rule bmap_mapped [OF op(1) refl op(2) k(2) m])
  have x: "inodes t = inodes s" "max nb (Suc k) = nb" using t(5) lt by (simp_all add: same_fs_def)
  have "wrote_st p d ip off [] (s, nb) (t, nb)"
    using t wrote_none [OF inv off] by (intro wrote_stI [where y = ?x]) simp_all
  moreover have "room_for (insert (block_of (view s) ?x k) ?F) (ind_cost ?x e + n) t"
    using room_for_take [OF room] room_for_same [OF t(4)] by simp
  ultimately show ?thesis using t(1,3) m(1) x by (intro exI [of _ "block_of (view s) ?x k"] exI [of _ t]) (simp add: mapped_to_def)
qed

subsection \<open>Writing\<close>

lemma change_data:
  fixes s :: "'z kfs_scheme"
  assumes op: "in_op p d s" and inv: "file_inv (sb s) (inode_block s ip) (view s) (inodes s ip) nb" and off: "off < nb * BSIZE"
    and a: "a = block_of (view s) (inodes s ip) (off div BSIZE)" and m: "m = block_chunk (length bs) off"
    and src: "src_bytes pt fl src bs s" "pagetable (procs s p) = pt" and room: "room_for (insert a F) n s"
  obtains t where "\<And>k k' :: ('z kfs_scheme, int \<times> nat) kop. kbind (bread d a) (\<lambda>bp. kbind (wsrc_take src m) (\<lambda>(r, cs).
      kseq (bset bp (\<lambda>b. b\<lparr>b_data := store_bytes (b_data b) (of_nat (off mod BSIZE)) cs\<rparr>))
        (if r = - 1 then kseq (brelse bp) k' else kseq (log_write bp) (kseq (brelse bp) k)))) s = k t"
    and "wrote_st p d ip off (take m bs) (s, nb) (t, nb)" and "room_for F n t" and "same_fs s t"
proof -
  have map: "mapped (view s) (inodes s ip) nb" using inv by (simp add: file_inv_def)
  have a31: "a < 2 ^ 31" unfolding a by (rule mapped_block(3) [OF map off])
  have len: "m \<le> length bs" "length (take m bs) \<le> BSIZE - off mod BSIZE" by (simp_all add: m block_chunk_def)
  obtain b t1 where t1: "bread d a s = Done b t1" "in_op_with p d {b} t1" "b_blockno (bufs t1 b) = a" "view t1 = view s" "same_log s t1"
    "same_fs s t1" "mem t1 = mem s"
    using bread_block_in_op [OF op a31] by blast
  have take: "wsrc_take src m t1 = Done (0, take m bs) t1"
    using src_take [OF src_same [OF src(1) t1(6,7) in_op_quiet [OF t1(2)]] in_op_quiet [OF t1(2)] _ len(1)] src(2) t1(6) by (simp add: same_fs_def)
  let ?f = "\<lambda>c. store_bytes c (of_nat (off mod BSIZE)) (take m bs)"
  have "room_for (insert a F) n t1" using room room_for_same [OF t1(5)] by simp
  then obtain t where t: "\<And>k :: ('z kfs_scheme, int \<times> nat) kop. kseq (bset b (\<lambda>y. y\<lparr>b_data := ?f (b_data y)\<rparr>)) (kseq (log_write b) (kseq (brelse b) k)) t1 = k t"
    "in_op p d t" "view t = (view t1)(a := ?f (view t1 a))" "room_for (insert a F) n t" "same_fs t1 t" "mem t = mem t1"
    using change_block [OF t1(2) _ t1(3) _ insertI1, of F n "\<lambda>y. y\<lparr>b_data := ?f (b_data y)\<rparr>" ?f] by (metis empty_iff)
  have f: "same_fs s t" using same_fs_trans [OF t1(6) t(5)] .
  have "view t = put_chunk (view s) (inodes s ip) off (take m bs)" using t(3) t1(4) by (simp add: put_chunk_def Let_def a)
  then have "wrote_st p d ip off (take m bs) (s, nb) (t, nb)"
    using t(2,6) t1(7) f wrote_put [OF inv off len(2)] by (intro wrote_stI [where y = "inodes s ip"]) simp_all
  moreover have "room_for F n t" using room_for_mono [OF t(4)] by blast
  ultimately show thesis using that [of t] f t1(1) take t(1) by (simp add: kbind_run)
qed

definition nblocks :: "nat \<Rightarrow> nat" where
  "nblocks n = (n + BSIZE - 1) div BSIZE"

lemma nblocks_le: "nblocks n \<le> nb \<longleftrightarrow> n \<le> nb * BSIZE"
  using div_less_iff_less_mult [of BSIZE "n + BSIZE - 1" "Suc nb"] by (auto simp: nblocks_def less_Suc_eq_le)

lemma nblocks_chunk:
  assumes "0 < n"
  shows "nblocks (off + block_chunk n off) = Suc (off div BSIZE)"
proof (rule antisym)
  have "off mod BSIZE < BSIZE" by simp
  then have c: "off mod BSIZE < off mod BSIZE + block_chunk n off" "off mod BSIZE + block_chunk n off \<le> BSIZE"
    using assms by (auto simp: block_chunk_def)
  have o: "off = off div BSIZE * BSIZE + off mod BSIZE" by simp
  show "nblocks (off + block_chunk n off) \<le> Suc (off div BSIZE)" unfolding nblocks_le using c o by (simp only: mult_Suc)
  have "\<not> nblocks (off + block_chunk n off) \<le> off div BSIZE" unfolding nblocks_le using c o by linarith
  then show "Suc (off div BSIZE) \<le> nblocks (off + block_chunk n off)" by simp
qed

text \<open>
  The loop writes the first \<open>m\<close> bytes: all of them, or as many as fill the blocks of the file when the disk is full. It takes no more
  blocks than it needs.
\<close>

definition loop_wrote :: "nat \<Rightarrow> u32 \<Rightarrow> nat \<Rightarrow> nat \<Rightarrow> u8 list \<Rightarrow> nat \<Rightarrow> 'z kfs_scheme \<Rightarrow> nat \<Rightarrow> nat \<Rightarrow> 'z kfs_scheme \<Rightarrow> bool" where
  "loop_wrote p d ip off bs n s nb m t \<longleftrightarrow> (let nb' = max nb (nblocks (off + m)) in
     m \<le> length bs \<and> wrote_st p d ip off (take m bs) (s, nb) (t, nb')
     \<and> (m < length bs \<longrightarrow> off + m = nb' * BSIZE \<and> disk_full (sb s) (view t))
     \<and> room_for (base (sb s) (inode_block s ip) (inodes t ip)) n t)"

lemma loop_wrote_step:
  assumes w: "wrote_st p d ip off (take m bs) (s, nb) (t, nb1)" and nb1: "nb1 = max nb (nblocks (off + m))" and off: "off \<le> nb * BSIZE"
    and m: "m \<le> length bs" and rest: "loop_wrote p d ip (off + m) (drop m bs) n t nb1 j u"
  shows "loop_wrote p d ip off bs n s nb (m + j) u"
proof -
  note d = wrote_stD [OF w]
  have "nblocks (off + m) \<le> nblocks (off + (m + j))" by (simp add: nblocks_def div_le_mono)
  then have nb: "max nb1 (nblocks (off + m + j)) = max nb (nblocks (off + (m + j)))" by (simp add: nb1 max_def add.assoc)
  have "take (m + j) bs = take m bs @ take j (drop m bs)" by (simp add: take_add)
  moreover have "off + length (take m bs) = off + m" using m by simp
  ultimately have "wrote_st p d ip off (take (m + j) bs) (s, nb) (u, max nb1 (nblocks (off + m + j)))"
    using wrote_st_append [OF off w, of "take j (drop m bs)" u] rest by (simp add: loop_wrote_def Let_def)
  then show ?thesis using rest m unfolding loop_wrote_def Let_def nb d(1,2) by (auto simp: add.assoc)
qed

lemma writei_step:
  fixes s :: "'z kfs_scheme"
  assumes op: "in_op p d s" "i_dev (inodes s ip) = d" and inv: "file_inv (sb s) (inode_block s ip) (view s) (inodes s ip) nb"
    and off: "off \<le> nb * BSIZE" "off + length bs \<le> MAXFILE * BSIZE" "bs \<noteq> []" and m: "m = block_chunk (length bs) off"
    and src: "src_bytes pt fl src bs s" "pagetable (procs s p) = pt"
    and room: "room_for (base (sb s) (inode_block s ip) (inodes s ip)) (Suc (ind_cost (inodes s ip) (off + length bs) + n)) s"
  obtains (full) t where "writei_loop ip src off (length bs) tot s = Done (tot, off) t" and "loop_wrote p d ip off bs n s nb 0 t"
  | (more) t where "writei_loop ip src off (length bs) tot s = writei_loop ip (wsrc_advance src m) (off + m) (length bs - m) (tot + int m) t"
    and "wrote_st p d ip off (take m bs) (s, nb) (t, max nb (nblocks (off + m)))" and "src_bytes pt fl src bs t"
    and "room_for (base (sb s) (inode_block s ip) (inodes t ip)) (ind_cost (inodes t ip) (off + length bs) + n) t"
proof -
  let ?k = "off div BSIZE" and ?e = "off + length bs"
  have o: "?k * BSIZE \<le> off" "0 < length bs" using off(3) by simp_all
  then have k: "?k \<le> nb" "?k < MAXFILE" "?k * BSIZE < ?e"
    using off(1,2) div_le_mono [OF off(1), of BSIZE] by (simp, intro less_mult_imp_div_less, linarith, linarith)
  obtain a t1 where t1: "bmap ip ?k s = Done a t1" "mapped_to p d ip ?k off ?e n s nb a t1"
    using bmap_run [OF op inv k off(1) room] by blast
  show thesis
  proof (cases "a = 0")
    case True
    then have "?k = nb" using t1(2) by (simp add: mapped_to_def)
    then have "off = nb * BSIZE" using o(1) off(1) by simp
    then have "loop_wrote p d ip off bs n s nb 0 t1" using t1(2) True o(2) by (simp add: loop_wrote_def mapped_to_def nblocks_def)
    moreover have "writei_loop ip src off (length bs) tot s = Done (tot, off) t1" using t1(1) True off(3) by (subst writei_loop.simps) (simp add: kbind_run)
    ultimately show thesis by (rule full [rotated])
  next
    case False
    let ?nb = "max nb (Suc ?k)" and ?F = "base (sb s) (inode_block s ip) (inodes t1 ip)"
    have w: "wrote_st p d ip off [] (s, nb) (t1, ?nb)" and a: "a = block_of (view t1) (inodes t1 ip) ?k"
      and r: "room_for (insert a ?F) (ind_cost (inodes t1 ip) ?e + n) t1" using t1(2) False by (simp_all add: mapped_to_def Let_def)
    note wd = wrote_stD [OF w]
    have op1: "in_op p d t1" "mem t1 = mem s" "same_fs (s\<lparr>inodes := inodes t1\<rparr>) t1" using w by (simp_all add: wrote_st_def)
    have "vm_inv (s\<lparr>inodes := inodes t1\<rparr>) pt fl = vm_inv s pt fl" by (simp add: vm_inv_def kmem_inv_def page_ok_def machine_ok_def myproc_def cpu_defs)
    then have s1: "src_bytes pt fl src bs t1"
      using src_same [OF _ op1(3) _ in_op_quiet [OF op1(1)], of pt fl src bs] src(1) op1(2) by (simp add: src_bytes_def split: wsrc.splits)
    have lt: "off < ?nb * BSIZE"
    proof -
      have "off < Suc ?k * BSIZE" using div_less_iff_less_mult [of BSIZE off "Suc ?k"] by simp
      also have "\<dots> \<le> ?nb * BSIZE" by (intro mult_le_mono1) simp
      finally show ?thesis .
    qed
    have pt1: "pagetable (procs t1 p) = pt" using src(2) wd(6) by simp
    obtain t where t: "\<And>k k' :: ('z kfs_scheme, int \<times> nat) kop. kbind (bread d a) (\<lambda>bp. kbind (wsrc_take src m) (\<lambda>(r, cs).
        kseq (bset bp (\<lambda>b. b\<lparr>b_data := store_bytes (b_data b) (of_nat (off mod BSIZE)) cs\<rparr>))
          (if r = - 1 then kseq (brelse bp) k' else kseq (log_write bp) (kseq (brelse bp) k)))) t1 = k t"
      "wrote_st p d ip off (take m bs) (t1, ?nb) (t, ?nb)" "room_for ?F (ind_cost (inodes t1 ip) ?e + n) t" "same_fs t1 t"
      using change_data [OF op1(1) wd(7) lt a m s1 pt1 r] by blast
    have x: "inodes t = inodes t1" "mem t = mem t1" "in_op p d t" using t(2,4) by (simp_all add: same_fs_def wrote_st_def)
    have "wrote_st p d ip off (take m bs) (s, nb) (t, max nb (nblocks (off + m)))"
      using wrote_st_append [OF off(1) w, of "take m bs" t] t(2) nblocks_chunk [OF o(2), of off] by (simp add: m)
    moreover have "i_dev (inodes t1 ip) = d" using op(2) wd(3) by simp
    then have "writei_loop ip src off (length bs) tot s = writei_loop ip (wsrc_advance src m) (off + m) (length bs - m) (tot + int m) t"
      using t1(1) off(3) False by (subst writei_loop.simps) (simp add: kbind_run [of "bmap ip ?k"] kbind_run [of "kget f" for f] iget_field_def m [symmetric] t(1))
    moreover have "src_bytes pt fl src bs t" using src_same [OF s1 t(4) x(2) in_op_quiet [OF x(3)]] .
    ultimately show thesis using more [of t] t(3) x(1) by simp
  qed
qed

lemma writei_loop_run:
  fixes s :: "'z kfs_scheme"
  assumes "in_op p d s" and "i_dev (inodes s ip) = d" and "file_inv (sb s) (inode_block s ip) (view s) (inodes s ip) nb"
    and "off \<le> nb * BSIZE" and "off + length bs \<le> MAXFILE * BSIZE" and "src_bytes pt fl src bs s" and "pagetable (procs s p) = pt"
    and "room_for (base (sb s) (inode_block s ip) (inodes s ip)) (touched off (length bs) + ind_cost (inodes s ip) (off + length bs) + n) s"
  shows "\<exists>m t. writei_loop ip src off (length bs) tot s = Done (tot + int m, off + m) t \<and> loop_wrote p d ip off bs n s nb m t"
  using assms
proof (induction "length bs" arbitrary: s bs src off tot nb rule: less_induct)
  case less
  let ?m = "block_chunk (length bs) off" and ?e = "off + length bs"
  show ?case
  proof (cases "bs = []")
    case True
    have "wrote_st p d ip off [] (s, nb) (s, nb)" using less.prems(1) wrote_none [OF less.prems(3,4)] by (simp add: wrote_st_def)
    moreover have "nblocks off \<le> nb" using less.prems(4) by (simp add: nblocks_le)
    ultimately have "loop_wrote p d ip off bs n s nb 0 s"
      using True less.prems(8) room_for_mono [OF less.prems(8) subset_refl, of n] by (simp add: loop_wrote_def max_absorb1)
    then show ?thesis using True by (intro exI [of _ 0] exI [of _ s]) (simp add: writei_loop.simps)
  next
    case False
    have m: "0 < ?m" "?m \<le> length bs" using False block_chunk_pos block_chunk_le by auto
    let ?n = "touched (off + ?m) (length bs - ?m) + n"
    have "touched off (length bs) + ind_cost (inodes s ip) ?e + n = Suc (ind_cost (inodes s ip) ?e + ?n)" using touched_step [of "length bs" off] False by simp
    then have room: "room_for (base (sb s) (inode_block s ip) (inodes s ip)) (Suc (ind_cost (inodes s ip) ?e + ?n)) s" using less.prems(8) by (simp only:)
    show ?thesis
    proof (rule writei_step [OF less.prems(1-5) False refl less.prems(6,7) room, where tot = tot])
      fix t assume t: "writei_loop ip src off (length bs) tot s = Done (tot, off) t" "loop_wrote p d ip off bs ?n s nb 0 t"
      have "loop_wrote p d ip off bs n s nb 0 t" using t(2) room_for_mono [OF _ subset_refl, of _ ?n t n] by (simp add: loop_wrote_def Let_def)
      then show ?thesis using t(1) by (intro exI [of _ 0] exI [of _ t]) simp
    next
      fix t assume t: "writei_loop ip src off (length bs) tot s = writei_loop ip (wsrc_advance src ?m) (off + ?m) (length bs - ?m) (tot + int ?m) t"
        "wrote_st p d ip off (take ?m bs) (s, nb) (t, max nb (nblocks (off + ?m)))" "src_bytes pt fl src bs t"
        "room_for (base (sb s) (inode_block s ip) (inodes t ip)) (ind_cost (inodes t ip) ?e + ?n) t"
      let ?nb = "max nb (nblocks (off + ?m))"
      note d = wrote_stD [OF t(2)]
      have op: "in_op p d t" "off + ?m \<le> ?nb * BSIZE" using t(2) nblocks_le [of "off + ?m" ?nb] by (simp_all add: wrote_st_def)
      have short: "length (drop ?m bs) < length bs" "length (drop ?m bs) = length bs - ?m" "off + ?m + (length bs - ?m) = ?e" using m by simp_all
      have room': "room_for (base (sb t) (inode_block t ip) (inodes t ip)) (touched (off + ?m) (length (drop ?m bs)) + ind_cost (inodes t ip) (off + ?m + length (drop ?m bs)) + n) t"
        unfolding d(1,2) short(2,3) using t(4) by (simp add: ac_simps)
      obtain j u where u: "writei_loop ip (wsrc_advance src ?m) (off + ?m) (length (drop ?m bs)) (tot + int ?m) t = Done (tot + int ?m + int j, off + ?m + j) u"
        "loop_wrote p d ip (off + ?m) (drop ?m bs) n t ?nb j u"
        using less.hyps [OF short(1) op(1) _ d(7) op(2) _ src_advance [OF t(3) m(2)] _ room', of "tot + int ?m"] less.prems(2,5,7) d(3,6) short(2,3) by auto
      have "loop_wrote p d ip off bs n s nb (?m + j) u" by (rule loop_wrote_step [OF t(2) refl less.prems(4) m(2) u(2)])
      then show ?thesis using t(1) u(1) short(2) by (intro exI [of _ "?m + j"] exI [of _ u]) (simp add: add.assoc)
    qed
  qed
qed

text \<open>A file on the disk: its size is covered by its blocks.\<close>

definition file_ok :: "'z kfs_scheme \<Rightarrow> u32 \<Rightarrow> nat \<Rightarrow> nat \<Rightarrow> bool" where
  "file_ok s d ip nb \<longleftrightarrow> i_dev (inodes s ip) = d \<and> unat (i_size (inodes s ip)) \<le> nb * BSIZE
     \<and> file_inv (sb s) (inode_block s ip) (view s) (inodes s ip) nb"

text \<open>Storing the inode leaves the blocks and the bytes of the file alone.\<close>

lemma store_inode:
  assumes inv: "file_inv q ib V x nb" and y: "i_addrs y = i_addrs x"
  shows "file_inv q ib (V(ib := c)) y nb" and "own (V(ib := c)) y nb = own V x nb" and "in_use q (V(ib := c)) = in_use q V"
    and "i < nb * BSIZE \<Longrightarrow> file_byte (V(ib := c)) y i = file_byte V x i"
proof -
  note i = inv [unfolded file_inv_def disk_ok_def]
  have "i_addrs x NDIRECT \<noteq> 0 \<Longrightarrow> i_addrs x NDIRECT \<noteq> ib" using i by (simp add: own_def)
  then have b: "block_of (V(ib := c)) y k = block_of V x k" for k using y by (simp add: block_of_def)
  then show o: "own (V(ib := c)) y nb = own V x nb" using y by (simp add: own_def)
  show u: "in_use q (V(ib := c)) = in_use q V" using i by (intro in_use_cong) auto
  have "mapped (V(ib := c)) y nb" using i y by (simp add: mapped_def b inj_on_def)
  then show "file_inv q ib (V(ib := c)) y nb" using i y by (simp add: file_inv_def disk_ok_def o u b)
  show "file_byte (V(ib := c)) y i = file_byte V x i" if "i < nb * BSIZE"
  proof -
    have "i div BSIZE < nb" using that by (simp add: less_mult_imp_div_less)
    then have "block_of V x (i div BSIZE) \<noteq> ib" using i by (auto simp: own_def)
    then show ?thesis by (simp add: file_byte_def b)
  qed
qed

lemma writei_run:
  fixes s :: "'z kfs_scheme"
  assumes op: "in_op p d s" and ok: "file_ok s d ip nb" and off: "unat off \<le> unat (i_size (inodes s ip))" "unat off + length bs \<le> MAXFILE * BSIZE"
    and src: "src_bytes pt fl src bs s" "pagetable (procs s p) = pt"
    and room: "room_for (base (sb s) (inode_block s ip) (inodes s ip)) (touched (unat off) (length bs) + ind_cost (inodes s ip) (unat off + length bs) + n) s"
  obtains m t1 t where "writei ip src off (of_nat (length bs)) s = Done (int m) t" and "loop_wrote p d ip (unat off) bs n s nb m t1"
    and "in_op p d t" and "room_for (base (sb s) (inode_block s ip) (inodes t ip)) n t" and "inodes t ip = grown (unat off + m) (inodes t1 ip)"
    and "sb t = sb s" and "procs t = procs s"
    and "view t = (view t1)(inode_block s ip := dinode_store (view t1 (inode_block s ip)) (dinode_off (i_inum (inodes s ip))) (inodes t ip))"
proof -
  let ?x = "inodes s ip" and ?ib = "inode_block s ip" and ?o = "unat off"
  have f: "i_dev ?x = d" "?o \<le> nb * BSIZE" "file_inv (sb s) ?ib (view s) ?x nb" using ok off(1) by (auto simp: file_ok_def)
  have n: "unat (of_nat (length bs) :: u32) = length bs" "unat (off + of_nat (length bs)) = ?o + length bs"
    using off(2) by (simp_all add: unat_of_nat unat_word_ariths)
  obtain m t1 where t1: "writei_loop ip src ?o (length bs) 0 s = Done (int m, ?o + m) t1" "loop_wrote p d ip ?o bs n s nb m t1"
    using writei_loop_run [OF op f(1,3,2) off(2) src room, of 0] by auto
  note w = t1(2) [unfolded loop_wrote_def Let_def]
  note wd = wrote_stD [OF conjunct1 [OF conjunct2 [OF w]]]
  define t2 where "t2 = t1\<lparr>inodes := (inodes t1)(ip := grown (?o + m) (inodes t1 ip))\<rparr>"
  have i: "inodes t2 ip = grown (?o + m) (inodes t1 ip)" "in_op p d t2" "inode_block t2 ip = ?ib" "view t2 = view t1" "sb t2 = sb t1" "procs t2 = procs t1"
    "same_log t1 t2" "i_dev (inodes t2 ip) = d" "i_inum (inodes t2 ip) = i_inum ?x"
    using w wd f(1) by (simp_all add: t2_def inode_block_def same_log_def wrote_st_def)
  have b: "?ib < 2 ^ 31" "?ib \<in> base (sb s) ?ib (inodes t2 ip)" using f(3) in_use_small by (auto simp: file_inv_def disk_ok_def base_def)
  have "base (sb s) ?ib (inodes t2 ip) = base (sb s) ?ib (inodes t1 ip)" by (simp add: base_def i(1))
  then have "room_for (base (sb s) ?ib (inodes t2 ip)) n t2" using w room_for_same [OF i(7)] by simp
  from iupdate_run [OF i(2,8,3) b(1) this b(2)]
  obtain t where t: "iupdate ip t2 = Done () t" "in_op p d t" "room_for (base (sb s) ?ib (inodes t2 ip)) n t" "same_fs t2 t"
    "view t = (view t2)(?ib := dinode_store (view t2 ?ib) (dinode_off (i_inum (inodes t2 ip))) (inodes t2 ip))" by blast
  have "inodes t = inodes t2" "sb t = sb s" "procs t = procs s" using t(4) i(5,6) wd(1,6) by (simp_all add: same_fs_def)
  moreover have "\<not> (off > i_size ?x \<or> off + of_nat (length bs) < off)" using off(1) n by (simp add: word_less_nat_alt)
  then have "writei ip src off (of_nat (length bs)) s = Done (int m) t"
    using t1(1) t(1) n off(2) by (simp add: writei_def iget_field_def iset_def kbind_run kseq_run t2_def grown_def [symmetric])
  ultimately show thesis using that [of m t t1] t1(2) t(2,3,5) i(1,4,9) by simp
qed

text \<open>The bytes of the file after the write.\<close>

lemma written_data:
  fixes s t t1 :: "'z kfs_scheme"
  assumes ok: "file_ok s d ip nb" and off: "unat off \<le> unat (i_size (inodes s ip))" "unat off + length bs \<le> MAXFILE * BSIZE"
    and w: "loop_wrote p d ip (unat off) bs n s nb m t1" and t: "inodes t ip = grown (unat off + m) (inodes t1 ip)" "sb t = sb s"
    and v: "view t = (view t1)(inode_block s ip := c)" and nb': "nb' = max nb (nblocks (unat off + m))"
  shows "file_ok t d ip nb'" and "file_data t ip = take (unat off) (file_data s ip) @ take m bs @ drop (unat off + m) (file_data s ip)"
proof -
  let ?x = "inodes s ip" and ?y = "inodes t ip" and ?ib = "inode_block s ip" and ?o = "unat off"
  have m: "m \<le> length bs" and st: "wrote_st p d ip ?o (take m bs) (s, nb) (t1, nb')" using w by (simp_all add: loop_wrote_def nb' Let_def)
  note wd = wrote_stD [OF st]
  have W: "wrote (sb s) ?ib ?o (take m bs) (view s, ?x, nb) (view t1, inodes t1 ip, nb')" using st by (simp add: wrote_st_def)
  have y: "i_addrs ?y = i_addrs (inodes t1 ip)" "i_dev ?y = i_dev ?x" "inode_block t ip = ?ib"
    using t wd by (simp_all add: inode_block_def)
  have "?o + m < 2 ^ 32" using off(2) m by simp
  then have sz: "unat (i_size ?y) = max (unat (i_size ?x)) (?o + m)" using t(1) wd(4) by simp
  have "unat (i_size ?x) \<le> nb * BSIZE" "?o + m \<le> nb' * BSIZE" "nb * BSIZE \<le> nb' * BSIZE"
    using ok W m by (simp_all add: file_ok_def wrote_def min_absorb2)
  then have lim: "max (unat (i_size ?x)) (?o + m) \<le> max (nb * BSIZE) (?o + m)" "unat (i_size ?y) \<le> nb' * BSIZE" unfolding sz by auto
  note si = store_inode [OF wd(7) [unfolded wd(1,2)] y(1), where c = c, folded v]
  show "file_ok t d ip nb'" using si(1) lim(2) y ok t(2) by (simp add: file_ok_def)
  have l: "length (take m bs) = m" using m by simp
  have "file_byte (view t) ?y i = (if ?o \<le> i \<and> i < ?o + m then take m bs ! (i - ?o) else file_byte (view s) ?x i)"
    if "i < max (unat (i_size ?x)) (?o + m)" for i
  proof -
    have "i < nb' * BSIZE" "i < max (nb * BSIZE) (?o + m)" using that sz lim by linarith+
    then show ?thesis using si(4) W l by (simp add: wrote_def)
  qed
  then show "file_data t ip = take ?o (file_data s ip) @ take m bs @ drop (?o + m) (file_data s ip)"
    using overwrite_map [of "unat (i_size ?x)" ?o "take m bs" "file_byte (view t) ?y" "file_byte (view s) ?x"] off(1)
    by (simp only: file_data_def sz l)
qed

subsection \<open>Properties\<close>

text \<open>
  C5 (refinement). A file is a list of bytes. \<open>writei\<close> of \<open>bs\<close> at an offset up to the end of the file writes the first \<open>m\<close> bytes of \<open>bs\<close> over
  the bytes there and behind the end, from a kernel or a user buffer: all of them, unless the disk is full. It allocates the blocks
  that the file lacks, direct ones and ones behind the indirect block, which it allocates, too, when the file gets that long: the file keeps
  its blocks, the new ones were free, the bitmap has exactly these added, and there are as many data blocks as the bytes need. It stores
  the inode, and changes no block but the file's, the inode's and the bitmap. The log needs room for the bitmap, the inode, the indirect block
  and the data blocks that are touched. \<open>readi\<close> then gives the bytes of the new contents at any offset, up to the requested
  length or the end of the file.
\<close>

theorem writei_readi_file:
  assumes "in_op p d s" and "file_ok s d ip nb" and "unat off \<le> length (file_data s ip)" and "unat off + length bs \<le> MAXFILE * BSIZE"
    and "src_bytes pt fl src bs s" and "pagetable (procs s p) = pt"
    and "room_for (base (sb s) (inode_block s ip) (inodes s ip)) (touched (unat off) (length bs) + ind_cost (inodes s ip) (unat off + length bs) + n) s"
  shows "\<exists>m t. writei ip src off (of_nat (length bs)) s = Done (int m) t
    \<and> m \<le> length bs \<and> (m < length bs \<longrightarrow> disk_full (sb s) (view t) \<and> unat off + m = max nb (nblocks (unat off + m)) * BSIZE)
    \<and> in_op p d t \<and> room_for (base (sb s) (inode_block s ip) (inodes t ip)) n t \<and> file_ok t d ip (max nb (nblocks (unat off + m)))
    \<and> file_data t ip = take (unat off) (file_data s ip) @ take m bs @ drop (unat off + m) (file_data s ip)
    \<and> dinode_load (view t (inode_block s ip)) (dinode_off (i_inum (inodes s ip))) (inodes t ip) = inodes t ip
    \<and> (let B = own (view s) (inodes s ip) nb; B' = own (view t) (inodes t ip) (max nb (nblocks (unat off + m)))
       in B \<subseteq> B' \<and> (\<forall>b \<in> B' - B. \<not> in_use (sb s) (view s) b) \<and> (\<forall>b. in_use (sb s) (view t) b \<longleftrightarrow> in_use (sb s) (view s) b \<or> b \<in> B')
         \<and> (\<forall>b. b \<notin> B' \<union> bmap_blocks (sb s) \<union> {inode_block s ip} \<longrightarrow> view t b = view s b))
    \<and> (\<forall>dst off' n'. unat off' \<le> length (file_data t ip) \<and> unat off' + unat n' < 2 ^ 32 \<and> dst_ready pt fl dst (unat n') t \<longrightarrow>
         (\<exists>u. let bs' = take (unat n') (drop (unat off') (file_data t ip)) in
            readi ip dst off' n' t = Done (int (length bs'), if dst = None then bs' else []) u
            \<and> sent pt fl dst bs' t u \<and> file_data u ip = file_data t ip))"
proof -
  let ?ib = "inode_block s ip"
  have off: "unat off \<le> unat (i_size (inodes s ip))" using assms(3) by (simp add: file_data_def)
  obtain m t1 t where t: "writei ip src off (of_nat (length bs)) s = Done (int m) t" "loop_wrote p d ip (unat off) bs n s nb m t1"
    "in_op p d t" "room_for (base (sb s) ?ib (inodes t ip)) n t" "inodes t ip = grown (unat off + m) (inodes t1 ip)" "sb t = sb s" "procs t = procs s"
    "view t = (view t1)(?ib := dinode_store (view t1 ?ib) (dinode_off (i_inum (inodes s ip))) (inodes t ip))"
    by (rule writei_run [OF assms(1,2) off assms(4-7)])
  define nb' where "nb' = max nb (nblocks (unat off + m))"
  note w = t(2) [unfolded loop_wrote_def Let_def, folded nb'_def]
  then have st: "wrote_st p d ip (unat off) (take m bs) (s, nb) (t1, nb')" by blast
  note wd = wrote_stD [OF st] and f = written_data [OF assms(2) off assms(4) t(2,5,6,8) nb'_def]
  have y: "i_addrs (inodes t ip) = i_addrs (inodes t1 ip)" by (simp add: t(5))
  note si = store_inode [OF wd(7) [unfolded wd(1,2)] y, where c = "dinode_store (view t1 ?ib) (dinode_off (i_inum (inodes s ip))) (inodes t ip)", folded t(8)]
  have "wrote (sb s) ?ib (unat off) (take m bs) (view s, inodes s ip, nb) (view t1, inodes t1 ip, nb')" using st by (simp add: wrote_st_def)
  then have B: "let B = own (view s) (inodes s ip) nb; B' = own (view t) (inodes t ip) nb'
       in B \<subseteq> B' \<and> (\<forall>b \<in> B' - B. \<not> in_use (sb s) (view s) b) \<and> (\<forall>b. in_use (sb s) (view t) b \<longleftrightarrow> in_use (sb s) (view s) b \<or> b \<in> B')
         \<and> (\<forall>b. b \<notin> B' \<union> bmap_blocks (sb s) \<union> {?ib} \<longrightarrow> view t b = view s b)"
    unfolding wrote_def split Let_def si(2,3) by (auto simp: t(8))
  have full: "m < length bs \<longrightarrow> disk_full (sb s) (view t) \<and> unat off + m = nb' * BSIZE" using w si(3) by (simp add: disk_full_def)
  have inode: "dinode_load (view t ?ib) (dinode_off (i_inum (inodes s ip))) (inodes t ip) = inodes t ip"
    by (simp add: t(8) dinode_load_def dinode_store_fields dinode_store_addr cong: if_cong)
  have "\<exists>u. let bs' = take (unat n') (drop (unat off') (file_data t ip)) in
        readi ip dst off' n' t = Done (int (length bs'), if dst = None then bs' else []) u \<and> sent pt fl dst bs' t u \<and> file_data u ip = file_data t ip"
    if "unat off' \<le> length (file_data t ip)" "unat off' + unat n' < 2 ^ 32" "dst_ready pt fl dst (unat n') t" for dst off' n'
  proof -
    have "i_dev (inodes t ip) = d" "mapped (view t) (inodes t ip) nb'" "unat (i_size (inodes t ip)) \<le> nb' * BSIZE"
      "unat off' \<le> unat (i_size (inodes t ip))" "pagetable (procs t p) = pt"
      using that(1) f(1) t(7) assms(6) by (simp_all add: file_ok_def file_inv_def file_data_def)
    from readi_run [OF t(3) this(1-4) that(2,3) this(5) refl] show ?thesis
      by (metis (no_types, lifting) file_data_def same_fs_def)
  qed
  then show ?thesis using t(1,3,4) w full f inode B unfolding nb'_def by blast
qed

text \<open>A file that fills its twelve direct blocks, on a disk of 2000 blocks of which the first 128 are in use, with an empty cache and log.\<close>

definition file_vm :: kfs where
  "file_vm = klog.extend (log_vm 0 (\<lambda>_. empty_buf) (disk0(45 := (\<lambda>i. if unat i < 16 then - 1 else 0))) \<lparr>log_outstanding := 1\<rparr>)
     \<lparr>sb = \<lparr>sb_magic = FSMAGIC, sb_size = 2000, sb_nblocks = 1954, sb_ninodes = 200, sb_nlog = 30, sb_logstart = 2,
        sb_inodestart = 32, sb_bmapstart = 45\<rparr>,
      inodes = (\<lambda>_. \<lparr>i_dev = 1, i_inum = 5, i_ref = 1, i_valid = True, i_type = T_FILE, i_major = 0, i_minor = 0, i_nlink = 1,
        i_size = 12288, i_addrs = (\<lambda>k. if k < NDIRECT then of_nat (100 + k) else 0)\<rparr>)\<rparr>"

lemma file_vm_fields:
  "view file_vm = disk0(45 := (\<lambda>i. if unat i < 16 then - 1 else 0))" "lh_n file_vm = 0" "log_size file_vm = 30" "log_outstanding file_vm = 1"
  "sb_size (sb file_vm) = 2000" "inode_block file_vm 0 = 32" "i_size (inodes file_vm 0) = 12288" "i_dev (inodes file_vm 0) = 1"
  "i_addrs (inodes file_vm 0) k = (if k < NDIRECT then of_nat (100 + k) else 0)" "bmap_blocks (sb file_vm) = {45}"
  "bufs file_vm = chained (\<lambda>_. empty_buf)"
proof -
  show f: "bufs file_vm = chained (\<lambda>_. empty_buf)" "lh_n file_vm = 0" "log_size file_vm = 30" "log_outstanding file_vm = 1" "sb_size (sb file_vm) = 2000"
    "inode_block file_vm 0 = 32" "i_size (inodes file_vm 0) = 12288" "i_dev (inodes file_vm 0) = 1"
    "i_addrs (inodes file_vm 0) k = (if k < NDIRECT then of_nat (100 + k) else 0)"
    by (simp_all add: file_vm_def klog.defs inode_block_def IBLOCK_def) (simp add: log_vm_def kvirtio.defs)
  have "disk file_vm = disk0(45 := (\<lambda>i. if unat i < 16 then - 1 else 0))" by (simp add: file_vm_def klog.defs)
  then show "view file_vm = disk0(45 := (\<lambda>i. if unat i < 16 then - 1 else 0))" by (simp add: fun_eq_iff block_view_def f(1) empty_pins)
  have "BBLOCK b (sb file_vm) = 45" if "b < 2000" for b using that by (simp add: BBLOCK_def file_vm_def klog.defs)
  then show "bmap_blocks (sb file_vm) = {45}" by (auto simp: bmap_blocks_def f(5) image_iff) (rule exI [of _ 0], simp)
qed

lemma file_vm_use: "in_use (sb file_vm) (view file_vm) a \<longleftrightarrow> unat a < 128"
proof (cases "unat a < 2000")
  case True
  then have "BBLOCK (unat a) (sb file_vm) \<in> bmap_blocks (sb file_vm)" by (auto simp: bmap_blocks_def file_vm_fields(5))
  then have b: "BBLOCK (unat a) (sb file_vm) = 45" by (simp add: file_vm_fields(10))
  have "unat (of_nat (unat a div 8) :: u64) = unat a div 8" using True by (intro unat_of_nat64) simp
  then show ?thesis using True by (auto simp: in_use_def b file_vm_fields(1,5) bitmap_free_bit)
qed (simp add: in_use_def file_vm_fields(5))

lemma file_vm_ok: "in_op 0 1 file_vm" "file_ok file_vm 1 0 12"
  "room_for (base (sb file_vm) (inode_block file_vm 0) (inodes file_vm 0)) (touched 12288 2 + ind_cost (inodes file_vm 0) (12288 + 2) + 2) file_vm"
proof -
  have "held 0 1 {} (log_vm 0 (\<lambda>_. empty_buf) (disk0(45 := (\<lambda>i. if unat i < 16 then - 1 else 0))))" by (rule log_vm_held [OF empty_contents])
  then have "held 0 1 {} file_vm"
    by (simp add: file_vm_def klog.defs held_def quiet_def machine_ok_def myproc_def cpu_defs vq_idle_def)
  then show "in_op 0 1 file_vm" by (simp add: in_op_with_def file_vm_fields empty_pins LOGSIZE_def MAXOPBLOCKS_def)
  have b: "block_of V (inodes file_vm 0) k = (if k < NDIRECT then of_nat (100 + k) else 0)" for V k
    by (simp add: block_of_def file_vm_fields(9))
  have u: "unat (of_nat (100 + k) :: u32) = 100 + k" if "k < NDIRECT" for k using that by (intro unat_of_nat32) simp
  have img: "block_of V (inodes file_vm 0) ` {..<12} \<subseteq> {a. 100 \<le> unat a \<and> unat a < 128}" for V using u by (auto simp: b)
  have "inj_on (block_of V (inodes file_vm 0)) {..<12}" for V
    by (rule inj_onI) (metis add_left_cancel b lessThan_iff u)
  moreover have "block_of V (inodes file_vm 0) k \<noteq> 0 \<and> block_of V (inodes file_vm 0) k < 2 ^ 31" if "k < 12" for V k
    using u [OF that] that by (auto simp: b word_less_nat_alt)
  ultimately have "mapped (view file_vm) (inodes file_vm 0) 12" by (simp add: mapped_def)
  moreover have "in_use (sb file_vm) (view file_vm) c \<and> c \<notin> bmap_blocks (sb file_vm) \<and> c \<noteq> inode_block file_vm 0"
    if "c \<in> own (view file_vm) (inodes file_vm 0) 12" for c
  proof -
    have "100 \<le> unat c \<and> unat c < 128" using that img [of "view file_vm"] by (auto simp: own_def file_vm_fields(9))
    then show ?thesis by (auto simp: file_vm_use file_vm_fields(6,10))
  qed
  moreover have "i_addrs (inodes file_vm 0) NDIRECT \<notin> block_of (view file_vm) (inodes file_vm 0) ` {..<12}"
    using img [of "view file_vm"] by (auto simp: file_vm_fields(9) simp del: image_iff)
  moreover have "\<forall>k < MAXFILE. 12 \<le> k \<longrightarrow> block_of (view file_vm) (inodes file_vm 0) k = 0" by (simp add: b)
  moreover have "disk_ok (sb file_vm) (inode_block file_vm 0) (view file_vm)" by (simp add: disk_ok_def file_vm_fields(5,6,10) file_vm_use)
  ultimately show "file_ok file_vm 1 0 12"
    unfolding file_ok_def file_inv_def by (intro conjI) (simp_all add: file_vm_fields(7,8))
  have "{b :: u32. b = 32 \<or> b = 45} = {32, 45}" by auto
  then show "room_for (base (sb file_vm) (inode_block file_vm 0) (inodes file_vm 0)) (touched 12288 2 + ind_cost (inodes file_vm 0) (12288 + 2) + 2) file_vm"
    by (simp add: room_for_def base_def ind_cost_def touched_def file_vm_fields(2,3,6,9,10) LOGSIZE_def MAXOPBLOCKS_def)
qed

lemma file_vm_space:
  assumes "m \<le> 2" and "\<forall>b. in_use (sb file_vm) V b \<longleftrightarrow> in_use (sb file_vm) (view file_vm) b \<or> b \<in> own V x (max 12 (nblocks (12288 + m)))"
  shows "\<not> disk_full (sb file_vm) V"
proof
  assume full: "disk_full (sb file_vm) V"
  let ?n = "max 12 (nblocks (12288 + m))" and ?A = "of_nat ` {128..<143} :: u32 set"
  have u: "unat (of_nat k :: u32) = k" if "k < 143" for k using that by (intro unat_of_nat32) simp
  have "of_nat k \<in> own V x ?n" if "128 \<le> k" "k < 143" for k
    using full [unfolded disk_full_def, rule_format, of "of_nat k"] assms(2) u [OF that(2)] that by (simp add: file_vm_fields(5) file_vm_use)
  then have "?A \<subseteq> own V x ?n" by auto
  moreover have "own V x ?n \<subseteq> insert (i_addrs x NDIRECT) (block_of V x ` {..<?n})" by (auto simp: own_def)
  ultimately have "card ?A \<le> card (insert (i_addrs x NDIRECT) (block_of V x ` {..<?n}))" by (intro card_mono) auto
  also have "\<dots> \<le> Suc (card (block_of V x ` {..<?n}))" by (intro card_insert_le_m1) simp_all
  also have "\<dots> \<le> Suc ?n" using card_image_le [of "{..<?n}" "block_of V x"] by simp
  also have "?n \<le> 13" using assms(1) nblocks_le [of "12288 + m" 13] by simp
  finally have "card ?A \<le> 14" by simp
  moreover have "inj_on (of_nat :: nat \<Rightarrow> u32) {128..<143}" by (rule inj_onI) (metis atLeastLessThan_iff u)
  then have "card ?A = 15" by (simp add: card_image)
  ultimately show False by simp
qed

theorem writei_readi_file_witness:
  "\<exists>t u. writei 0 (KSrc [1, 2]) 12288 2 file_vm = Done 2 t \<and> file_ok t 1 0 13 \<and> length (file_data t 0) = 12290
     \<and> readi 0 None 12288 2 t = Done (2, [1, 2]) u"
proof -
  have l: "length (file_data file_vm 0) = 12288" by (simp add: file_data_def file_vm_fields)
  have two: "length [1, 2 :: u8] = 2" "unat (12288 :: u32) = 12288" by simp_all
  have h: "unat (12288 :: u32) \<le> length (file_data file_vm 0)" "unat (12288 :: u32) + length [1, 2 :: u8] \<le> MAXFILE * BSIZE"
    "src_bytes (pagetable (procs file_vm 0)) [] (KSrc [1, 2]) [1, 2] file_vm"
    "room_for (base (sb file_vm) (inode_block file_vm 0) (inodes file_vm 0)) (touched (unat (12288 :: u32)) (length [1, 2 :: u8])
       + ind_cost (inodes file_vm 0) (unat (12288 :: u32) + length [1, 2 :: u8]) + 2) file_vm"
    unfolding two by (simp_all add: l src_bytes_def) (use file_vm_ok(3) in simp)
  obtain m t where t: "writei 0 (KSrc [1, 2]) 12288 2 file_vm = Done (int m) t" "m \<le> 2" "m < 2 \<longrightarrow> disk_full (sb file_vm) (view t)"
    "file_ok t 1 0 (max 12 (nblocks (12288 + m)))"
    "file_data t 0 = take 12288 (file_data file_vm 0) @ take m [1, 2] @ drop (12288 + m) (file_data file_vm 0)"
    "\<forall>b. in_use (sb file_vm) (view t) b \<longleftrightarrow> in_use (sb file_vm) (view file_vm) b \<or> b \<in> own (view t) (inodes t 0) (max 12 (nblocks (12288 + m)))"
    "\<forall>dst off' n'. unat off' \<le> length (file_data t 0) \<and> unat off' + unat n' < 2 ^ 32
       \<and> dst_ready (pagetable (procs file_vm 0)) [] dst (unat n') t \<longrightarrow>
         (\<exists>u. let bs' = take (unat n') (drop (unat off') (file_data t 0)) in
            readi 0 dst off' n' t = Done (int (length bs'), if dst = None then bs' else []) u
            \<and> sent (pagetable (procs file_vm 0)) [] dst bs' t u \<and> file_data u 0 = file_data t 0)"
    using writei_readi_file [OF file_vm_ok(1,2) h(1-3) refl h(4)] by (elim exE conjE) (simp add: Let_def)
  have m: "m = 2" using t(2,3) file_vm_space [OF t(2,6)] by linarith
  have n: "nblocks 12290 = 13" by (simp add: nblocks_def)
  have "length (file_data t 0) = 12290" "take 2 (drop 12288 (file_data t 0)) = [1, 2]" using t(5) l by (simp_all add: m)
  moreover from this(1) have "\<exists>u. readi 0 None 12288 2 t = Done (int (length (take 2 (drop 12288 (file_data t 0)))), take 2 (drop 12288 (file_data t 0))) u"
    using t(7) [rule_format, of 12288 2 None] by (auto simp: dst_ready_def Let_def)
  ultimately show ?thesis using t(1,4) by (auto simp: m n)
qed

end
