(* ===== verification/Mkfs.thy ===== *)
theory Mkfs
  imports Fs
begin

text \<open>
  \<^verbatim>\<open>mkfs/mkfs.c\<close>: the host program that makes the file system image the kernel boots from. The image is a sequence of
  blocks; \<open>struct dinode\<close> and \<open>struct dirent\<close> are those of the kernel (\<open>dinode_store\<close>, \<open>dinode_load\<close>, \<open>de_make\<close>). A failed
  \<open>assert\<close> and \<open>die\<close> end the program: \<open>Panic\<close>. The host's disk does not fill up, and the host is little-endian.
\<close>

subsection \<open>Layout\<close>

abbreviation (input) NINODES :: nat where "NINODES \<equiv> 200"
abbreviation (input) FSSIZE :: nat where "FSSIZE \<equiv> 2000"

definition nbitmap :: nat where "nbitmap = FSSIZE div (BSIZE * 8) + 1"
definition ninodeblocks :: nat where "ninodeblocks = NINODES div IPB + 1"
definition nlog :: nat where "nlog = LOGSIZE"

text \<open>\<open>img_len\<close> is the length of the image in blocks.\<close>

record mkfs =
  img :: "u32 \<Rightarrow> bytes"
  img_len :: nat
  fs_sb :: superblock
  freeinode :: u32
  freeblock :: u32

text \<open>The bytes of the result, least significant first, read as an integer of the host.\<close>

definition xshort :: "u16 \<Rightarrow> u16" where
  "xshort x = read_le 2 ((\<lambda>_. 0)(0 := ucast x, 1 := ucast (drop_bit 8 x))) 0"

definition xint :: "u32 \<Rightarrow> u32" where
  "xint x = read32 ((\<lambda>_. 0)(0 := ucast x, 1 := ucast (drop_bit 8 x), 2 := ucast (drop_bit 16 x), 3 := ucast (drop_bit 24 x))) 0"

subsection \<open>Sectors\<close>

text \<open>The block of the image at byte offset \<open>sec * BSIZE\<close>, computed as an unsigned integer.\<close>

definition sect_pos :: "u32 \<Rightarrow> u32" where
  "sect_pos sec = sec * 1024 div 1024"

definition wsect :: "u32 \<Rightarrow> bytes \<Rightarrow> (mkfs, unit) kop" where
  "wsect sec buf = kmod (\<lambda>s. s\<lparr>img := (img s)(sect_pos sec := buf), img_len := max (img_len s) (Suc (unat (sect_pos sec)))\<rparr>)"

definition rsect :: "u32 \<Rightarrow> (mkfs, bytes) kop" where
  "rsect sec = (\<lambda>s. if unat (sect_pos sec) < img_len s then Done (img s (sect_pos sec)) s else Panic ''read'')"

subsection \<open>Inodes\<close>

definition zero_dinode :: inode where
  "zero_dinode = \<lparr>i_dev = 0, i_inum = 0, i_ref = 0, i_valid = False, i_type = 0, i_major = 0, i_minor = 0, i_nlink = 0,
     i_size = 0, i_addrs = (\<lambda>_. 0)\<rparr>"

definition winode :: "u32 \<Rightarrow> inode \<Rightarrow> (mkfs, unit) kop" where
  "winode inum ip =
     kbind (kget fs_sb) (\<lambda>b.
     let bn = IBLOCK inum b
     in kbind (rsect bn) (\<lambda>buf. wsect bn (dinode_store buf (dinode_off inum) ip)))"

definition rinode :: "u32 \<Rightarrow> (mkfs, inode) kop" where
  "rinode inum =
     kbind (kget fs_sb) (\<lambda>b.
     kbind (rsect (IBLOCK inum b)) (\<lambda>buf. kret (dinode_load buf (dinode_off inum) zero_dinode)))"

definition mk_ialloc :: "u16 \<Rightarrow> (mkfs, u32) kop" where
  "mk_ialloc type =
     kbind (kget freeinode) (\<lambda>inum.
     kseq (kmod (\<lambda>s. s\<lparr>freeinode := freeinode s + 1\<rparr>))
     (kseq (winode inum (zero_dinode\<lparr>i_type := xshort type, i_nlink := xshort 1, i_size := xint 0\<rparr>))
     (kret inum)))"

subsection \<open>Blocks\<close>

definition mk_balloc :: "int \<Rightarrow> (mkfs, unit) kop" where
  "mk_balloc used =
     (if used \<ge> int (BSIZE * 8) then kpanic ''assert''
      else kbind (kget fs_sb) (\<lambda>b.
        wsect (sb_bmapstart b) (fold (\<lambda>i d. bitmap_mark d i) [0..<nat used] (\<lambda>_. 0))))"

text \<open>\<open>freeblock++\<close>\<close>

definition next_block :: "(mkfs, u32) kop" where
  "next_block = kbind (kget freeblock) (\<lambda>b. kseq (kmod (\<lambda>s. s\<lparr>freeblock := freeblock s + 1\<rparr>)) (kret b))"

text \<open>The two branches that find block \<open>fbn\<close> of the inode, or allocate it: the inode and \<open>x\<close>.\<close>

definition append_block :: "inode \<Rightarrow> nat \<Rightarrow> (mkfs, inode \<times> u32) kop" where
  "append_block din fbn =
     (if fbn < NDIRECT then
        kbind (if xint (i_addrs din fbn) = 0
               then kbind next_block (\<lambda>b. kret (din\<lparr>i_addrs := (i_addrs din)(fbn := xint b)\<rparr>)) else kret din) (\<lambda>din.
        kret (din, xint (i_addrs din fbn)))
      else
        kbind (if xint (i_addrs din NDIRECT) = 0
               then kbind next_block (\<lambda>b. kret (din\<lparr>i_addrs := (i_addrs din)(NDIRECT := xint b)\<rparr>)) else kret din) (\<lambda>din.
        kbind (rsect (xint (i_addrs din NDIRECT))) (\<lambda>indirect.
        kbind (if read32 indirect (4 * of_nat (fbn - NDIRECT)) = 0
               then kbind next_block (\<lambda>b.
                 let ind = write32 indirect (4 * of_nat (fbn - NDIRECT)) (xint b)
                 in kseq (wsect (xint (i_addrs din NDIRECT)) ind) (kret ind))
               else kret indirect) (\<lambda>indirect.
        kret (din, xint (read32 indirect (4 * of_nat (fbn - NDIRECT))))))))"

lemma append_step:
  assumes "unat (off div 1024 :: u32) < MAXFILE"
  shows "unat ((off div 1024 + 1) * 1024 - off) = BSIZE - unat off mod BSIZE"
proof -
  have "unat off div 1024 < MAXFILE" using assms by (simp add: unat_div)
  then have u: "unat ((off div 1024 + 1) * 1024) = (unat off div 1024 + 1) * 1024"
    by (simp add: unat_word_ariths unat_div)
  moreover have less: "unat off < (unat off div 1024 + 1) * 1024" using dividend_less_div_times [of 1024 "unat off"] by simp
  ultimately have "unat ((off div 1024 + 1) * 1024 - off) = (unat off div 1024 + 1) * 1024 - unat off"
    by (simp add: unat_sub word_le_nat_alt)
  moreover have "(q + 1) * b - (q * b + a) = b - a" for q a b :: nat by simp
  from this [of "unat off div BSIZE" BSIZE "unat off mod BSIZE"]
  have "(unat off div 1024 + 1) * 1024 - unat off = BSIZE - unat off mod BSIZE" by (simp only: div_mult_mod_eq)
  ultimately show ?thesis by simp
qed

function iappend_loop :: "inode \<Rightarrow> u32 \<Rightarrow> u8 list \<Rightarrow> (mkfs, inode \<times> u32) kop" where
  "iappend_loop din off p =
     (if p = [] then kret (din, off)
      else let fbn = off div 1024
        in if unat fbn \<ge> MAXFILE then kpanic ''assert''
           else kbind (append_block din (unat fbn)) (\<lambda>(din, x).
             let n1 = min (length p) (unat ((fbn + 1) * 1024 - off))
             in kbind (rsect x) (\<lambda>buf.
                kseq (wsect x (store_bytes buf (ucast (off - fbn * 1024)) (take n1 p)))
                (iappend_loop din (off + of_nat n1) (drop n1 p)))))"
  by pat_completeness auto
termination
  by (relation "measure (\<lambda>(_, _, p). length p)") (auto simp: append_step not_le simp del: distrib_right_numeral)

declare iappend_loop.simps [simp del]

definition iappend :: "u32 \<Rightarrow> u8 list \<Rightarrow> (mkfs, unit) kop" where
  "iappend inum p =
     kbind (rinode inum) (\<lambda>din.
     kbind (iappend_loop din (xint (i_size din)) p) (\<lambda>(din, off).
     winode inum (din\<lparr>i_size := xint off\<rparr>)))"

subsection \<open>main\<close>

text \<open>\<open>while((cc = read(fd, buf, sizeof(buf))) > 0) iappend(inum, buf, cc)\<close>\<close>

function append_file :: "u32 \<Rightarrow> u8 list \<Rightarrow> (mkfs, unit) kop" where
  "append_file inum c = (if c = [] then kret () else kseq (iappend inum (take BSIZE c)) (append_file inum (drop BSIZE c)))"
  by pat_completeness auto
termination
  by (relation "measure (\<lambda>(_, c). length c)") auto

declare append_file.simps [simp del]

text \<open>An argument and the contents of the file it names, if that can be opened.\<close>

type_synonym mkfs_arg = "u8 list \<times> u8 list option"

definition user_dir :: "u8 list" where "user_dir = [117, 115, 101, 114, 47]"

definition shortname :: "u8 list \<Rightarrow> u8 list" where
  "shortname arg = (if strncmp_str 5 arg user_dir = 0 then drop 5 arg else arg)"

definition add_file :: "u32 \<Rightarrow> mkfs_arg \<Rightarrow> (mkfs, unit) kop" where
  "add_file rootino a =
     (let name = shortname (fst a)
      in if 47 \<in> set name then kpanic ''assert''
         else case snd a of
           None \<Rightarrow> kpanic ''open''
         | Some c \<Rightarrow>
             let name = (if str_hd name = 95 then tl name else name)
             in kbind (mk_ialloc T_FILE) (\<lambda>inum.
                kseq (iappend rootino (de_make (xshort (ucast inum)) name))
                (append_file inum c)))"

definition sb_store :: "superblock \<Rightarrow> bytes" where
  "sb_store b = write32 (write32 (write32 (write32 (write32 (write32 (write32 (write32 (\<lambda>_. 0)
     0 (sb_magic b)) 4 (sb_size b)) 8 (sb_nblocks b)) 12 (sb_ninodes b)) 16 (sb_nlog b)) 20 (sb_logstart b))
     24 (sb_inodestart b)) 28 (sb_bmapstart b)"

text \<open>\<open>image_arg\<close>: whether there is a first argument, and whether the image it names can be created.\<close>

definition mkfs_main :: "bool option \<Rightarrow> mkfs_arg list \<Rightarrow> (mkfs, unit) kop" where
  "mkfs_main image_arg files =
     (case image_arg of
        None \<Rightarrow> kpanic ''Usage: mkfs fs.img files...''
      | Some opens \<Rightarrow>
          if \<not> opens then kpanic ''open''
          else
            let nmeta = 2 + nlog + ninodeblocks + nbitmap; nblocks = FSSIZE - nmeta;
              b = \<lparr>sb_magic = FSMAGIC, sb_size = xint (of_nat FSSIZE), sb_nblocks = xint (of_nat nblocks),
                sb_ninodes = xint (of_nat NINODES), sb_nlog = xint (of_nat nlog), sb_logstart = xint 2,
                sb_inodestart = xint (of_nat (2 + nlog)), sb_bmapstart = xint (of_nat (2 + nlog + ninodeblocks))\<rparr>
            in kseq (kmod (\<lambda>s. s\<lparr>img := (\<lambda>_ _. 0), img_len := 0, fs_sb := b, freeblock := of_nat nmeta\<rparr>))
              (kseq (kfor [0..<FSSIZE] (\<lambda>i. wsect (of_nat i) (\<lambda>_. 0)))
              (kseq (wsect 1 (sb_store b))
              (kbind (mk_ialloc T_DIR) (\<lambda>rootino.
                if rootino \<noteq> ROOTINO then kpanic ''assert''
                else
                  kseq (iappend rootino (de_make (xshort (ucast rootino)) [46]))
                  (kseq (iappend rootino (de_make (xshort (ucast rootino)) [46, 46]))
                  (kseq (kfor files (add_file rootino))
                  (kbind (rinode rootino) (\<lambda>din.
                   let off = (xint (i_size din) div 1024 + 1) * 1024
                   in kseq (winode rootino (din\<lparr>i_size := xint off\<rparr>))
                     (kbind (kget freeblock) (\<lambda>f. mk_balloc (sint f))))))))))))"

text \<open>The global variables when \<open>main\<close> starts.\<close>

definition mkfs_init :: mkfs where
  "mkfs_init = \<lparr>img = (\<lambda>_ _. 0), img_len = 0,
     fs_sb = \<lparr>sb_magic = 0, sb_size = 0, sb_nblocks = 0, sb_ninodes = 0, sb_nlog = 0, sb_logstart = 0, sb_inodestart = 0, sb_bmapstart = 0\<rparr>,
     freeinode = 1, freeblock = 0\<rparr>"

end
