(* ===== verification/Mkfs_Append.thy ===== *)
theory Mkfs_Append
  imports Mkfs Fs_Rw
begin

text \<open>
  One file on the image of \<open>mkfs\<close>: its blocks, as the kernel's \<open>bmap\<close> finds them, and what \<open>iappend\<close> does to them.
\<close>

subsection \<open>Sectors and inodes\<close>

lemma xint_id [simp]: "xint x = x"
proof -
  have "xint x = read32 (write32 (\<lambda>_. 0) 0 x) 0" by (simp add: xint_def numeral_nat drop_bit_drop_bit)
  then show ?thesis by simp
qed

lemma xshort_id [simp]: "xshort x = x"
proof -
  have "xshort x = read_le 2 (write_le 2 (\<lambda>_. 0) 0 x) 0" by (simp add: xshort_def numeral_nat)
  then show ?thesis by simp
qed

lemma sect_pos_small: "unat sec < 2 ^ 22 \<Longrightarrow> sect_pos sec = sec"
  by (simp add: sect_pos_def word_unat_eq_iff unat_div unat_word_ariths)

text \<open>The layout that \<open>main\<close> computes.\<close>

definition mk_sb :: superblock where
  "mk_sb = \<lparr>sb_magic = FSMAGIC, sb_size = 2000, sb_nblocks = 1954, sb_ninodes = 200, sb_nlog = 30, sb_logstart = 2,
     sb_inodestart = 32, sb_bmapstart = 45\<rparr>"

definition mk_ready :: "mkfs \<Rightarrow> bool" where
  "mk_ready s \<longleftrightarrow> img_len s = FSSIZE \<and> fs_sb s = mk_sb"

lemma wsect_run: "mk_ready s \<Longrightarrow> unat sec < FSSIZE \<Longrightarrow> wsect sec buf s = Done () (s\<lparr>img := (img s)(sec := buf)\<rparr>)"
  by (simp add: wsect_def sect_pos_small mk_ready_def max_def)

lemma rsect_run: "mk_ready s \<Longrightarrow> unat sec < FSSIZE \<Longrightarrow> rsect sec s = Done (img s sec) s"
  by (simp add: rsect_def sect_pos_small mk_ready_def)

lemma mk_ready_simps [simp]:
  "mk_ready (img_update f s) = mk_ready s" "mk_ready (freeblock_update g s) = mk_ready s" "mk_ready (freeinode_update g s) = mk_ready s"
  by (simp_all add: mk_ready_def)

lemma mk_ready_sb: "mk_ready s \<Longrightarrow> fs_sb s = mk_sb"
  by (simp add: mk_ready_def)

text \<open>An inode on the image.\<close>

abbreviation iblk :: "u32 \<Rightarrow> u32" where
  "iblk inum \<equiv> IBLOCK inum mk_sb"

definition dino :: "(u32 \<Rightarrow> bytes) \<Rightarrow> u32 \<Rightarrow> inode" where
  "dino V inum = dinode_load (V (iblk inum)) (dinode_off inum) zero_dinode"

definition is_dinode :: "inode \<Rightarrow> bool" where
  "is_dinode x \<longleftrightarrow> i_dev x = 0 \<and> i_inum x = 0 \<and> i_ref x = 0 \<and> \<not> i_valid x \<and> (\<forall>k > NDIRECT. i_addrs x k = 0)"

lemma dino_is_dinode: "is_dinode (dino V inum)"
  by (simp add: is_dinode_def dino_def dinode_load_def zero_dinode_def)

lemma iblk_unat: "unat inum < 208 \<Longrightarrow> unat (iblk inum) = unat inum div 16 + 32"
  by (simp add: IBLOCK_def mk_sb_def unat_word_ariths unat_div)

lemma iblk_small: "unat inum < 208 \<Longrightarrow> unat (iblk inum) < FSSIZE" "unat inum < 208 \<Longrightarrow> unat (iblk inum) < 45" "unat inum < 208 \<Longrightarrow> 32 \<le> unat (iblk inum)"
  by (simp_all add: iblk_unat less_mult_imp_div_less)

definition put_dino :: "(u32 \<Rightarrow> bytes) \<Rightarrow> u32 \<Rightarrow> inode \<Rightarrow> u32 \<Rightarrow> bytes" where
  "put_dino V inum x = V(iblk inum := dinode_store (V (iblk inum)) (dinode_off inum) x)"

lemma rinode_run: "mk_ready s \<Longrightarrow> unat inum < 208 \<Longrightarrow> rinode inum s = Done (dino (img s) inum) s"
  by (simp add: rinode_def kbind_run mk_ready_sb rsect_run iblk_small dino_def)

lemma winode_run: "mk_ready s \<Longrightarrow> unat inum < 208 \<Longrightarrow> winode inum x s = Done () (s\<lparr>img := put_dino (img s) inum x\<rparr>)"
  by (simp add: winode_def kbind_run Let_def mk_ready_sb rsect_run wsect_run iblk_small put_dino_def)

lemma dino_put:
  assumes "is_dinode x" and "unat i < 208" and "unat j < 208"
  shows "dino (put_dino V i x) j = (if i = j then x else dino V j)"
proof (cases "iblk i = iblk j")
  case True
  then have d: "unat i div 16 = unat j div 16" using iblk_unat assms(2,3) by (metis add_right_cancel)
  have "i = j \<longleftrightarrow> i mod 16 = j mod 16"
  proof
    assume "i mod 16 = j mod 16"
    then have "unat i mod 16 = unat j mod 16" by (simp add: word_unat_eq_iff unat_mod)
    then show "i = j" using d by (metis div_mult_mod_eq word_unat_eq_iff)
  qed simp
  moreover have "x = zero_dinode\<lparr>i_type := i_type x, i_major := i_major x, i_minor := i_minor x, i_nlink := i_nlink x,
            i_size := i_size x, i_addrs := (\<lambda>k. if k \<le> NDIRECT then i_addrs x k else i_addrs zero_dinode k)\<rparr>"
    using assms(1) by (intro inode.equality) (auto simp: is_dinode_def zero_dinode_def fun_eq_iff)
  ultimately show ?thesis using True by (simp add: dino_def put_dino_def dinode_roundtrip)
next
  case False
  then show ?thesis by (auto simp: dino_def put_dino_def)
qed

subsection \<open>The blocks of a file on the image\<close>

text \<open>The data blocks handed out so far are those from 46 to \<open>f\<close>.\<close>

definition used :: "u32 \<Rightarrow> u32 set" where
  "used f = {b. 46 \<le> unat b \<and> b < f}"

text \<open>The first \<open>n\<close> blocks of the file are allocated and no others.\<close>

definition alloc_ok :: "(u32 \<Rightarrow> bytes) \<Rightarrow> inode \<Rightarrow> nat \<Rightarrow> u32 \<Rightarrow> bool" where
  "alloc_ok V x n f \<longleftrightarrow> n \<le> MAXFILE \<and> block_of V x ` {..<n} \<subseteq> used f \<and> inj_on (block_of V x) {..<n}
     \<and> (\<forall>k < NDIRECT. n \<le> k \<longrightarrow> i_addrs x k = 0)
     \<and> (if NDIRECT < n then i_addrs x NDIRECT \<in> used f \<and> i_addrs x NDIRECT \<notin> block_of V x ` {..<n}
          \<and> (\<forall>k < MAXFILE. n \<le> k \<longrightarrow> block_of V x k = 0)
        else i_addrs x NDIRECT = 0)"

definition owned_blocks :: "(u32 \<Rightarrow> bytes) \<Rightarrow> inode \<Rightarrow> nat \<Rightarrow> u32 set" where
  "owned_blocks V x n = block_of V x ` {..<n} \<union> (if NDIRECT < n then {i_addrs x NDIRECT} else {})"

definition cost :: "nat \<Rightarrow> nat" where
  "cost n = (if NDIRECT < n then Suc n else n)"

lemma used_bounds: "b \<in> used f \<Longrightarrow> unat f \<le> FSSIZE \<Longrightarrow> unat b < FSSIZE \<and> b \<noteq> 0 \<and> b < 2 ^ 31"
  by (auto simp: used_def word_less_nat_alt)

lemma alloc_ok_mapped: "alloc_ok V x n f \<Longrightarrow> unat f \<le> FSSIZE \<Longrightarrow> mapped V x n"
  using used_bounds by (auto simp: alloc_ok_def mapped_def image_subset_iff)

lemma alloc_ok_owned: "alloc_ok V x n f \<Longrightarrow> owned_blocks V x n \<subseteq> used f"
  by (auto simp: alloc_ok_def owned_blocks_def)

lemma append_block_old:
  assumes "mk_ready s" and "alloc_ok (img s) x n f" and "unat f \<le> FSSIZE" and "k < n"
  shows "append_block x k s = Done (x, block_of (img s) x k) s"
proof -
  have b: "block_of (img s) x k \<noteq> 0" using assms(2-4) used_bounds by (auto simp: alloc_ok_def image_subset_iff)
  show ?thesis
  proof (cases "k < NDIRECT")
    case True
    then show ?thesis using b by (simp add: append_block_def block_of_def kbind_run)
  next
    case False
    then have "i_addrs x NDIRECT \<in> used f" using assms(2,4) by (auto simp: alloc_ok_def)
    then have i: "i_addrs x NDIRECT \<noteq> 0" "unat (i_addrs x NDIRECT) < FSSIZE" using used_bounds assms(3) by blast+
    then show ?thesis using b False by (simp add: append_block_def block_of_def kbind_run rsect_run [OF assms(1)])
  qed
qed

text \<open>A new block: \<open>x'\<close> is the inode, \<open>V'\<close> the image and \<open>f'\<close> the first free block afterwards.\<close>

definition new_block :: "(u32 \<Rightarrow> bytes) \<Rightarrow> inode \<Rightarrow> u32 \<Rightarrow> nat \<Rightarrow> (u32 \<Rightarrow> bytes) \<Rightarrow> inode \<Rightarrow> u32 \<Rightarrow> bool" where
  "new_block V x f n V' x' f' \<longleftrightarrow> alloc_ok V' x' (Suc n) f' \<and> (\<forall>k < n. block_of V' x' k = block_of V x k) \<and> f \<le> block_of V' x' n
     \<and> unat f' + cost n = unat f + cost (Suc n) \<and> (\<forall>b. b \<ge> f' \<longrightarrow> V' b = (\<lambda>_. 0))
     \<and> (\<forall>b < f. b \<notin> owned_blocks V x n \<longrightarrow> V' b = V b) \<and> (\<forall>b \<in> block_of V x ` {..<n}. V' b = V b)
     \<and> owned_blocks V' x' (Suc n) \<subseteq> owned_blocks V x n \<union> {b. f \<le> b} \<and> x' = x\<lparr>i_addrs := i_addrs x'\<rparr> \<and> (is_dinode x \<longrightarrow> is_dinode x')"

lemma next_block_run [simp]: "next_block s = Done (freeblock s) (s\<lparr>freeblock := freeblock s + 1\<rparr>)"
  by (simp add: next_block_def kbind_run kseq_run)

lemma used_next: "b \<in> used f \<Longrightarrow> unat f < FSSIZE \<Longrightarrow> b \<in> used (f + 1)" "46 \<le> unat f \<Longrightarrow> unat f < FSSIZE \<Longrightarrow> f \<in> used (f + 1)"
  "unat f < FSSIZE \<Longrightarrow> unat (f + 1) = Suc (unat f)"
proof -
  show u: "unat (f + 1) = Suc (unat f)" if "unat f < FSSIZE" for f :: u32 using that by (simp add: unat_word_ariths)
  show "b \<in> used f \<Longrightarrow> unat f < FSSIZE \<Longrightarrow> b \<in> used (f + 1)" "46 \<le> unat f \<Longrightarrow> unat f < FSSIZE \<Longrightarrow> f \<in> used (f + 1)"
    using u by (auto simp: used_def word_less_nat_alt)
qed

lemma new_direct:
  assumes ok: "alloc_ok V x n f" and n: "n < NDIRECT" and f: "46 \<le> unat f" "unat f < FSSIZE" and z: "\<forall>b \<ge> f. V b = (\<lambda>_. 0)"
  shows "new_block V x f n V (x\<lparr>i_addrs := (i_addrs x)(n := f)\<rparr>) (f + 1)"
proof -
  let ?x = "x\<lparr>i_addrs := (i_addrs x)(n := f)\<rparr>"
  have b: "block_of V ?x k = (if k = n then f else block_of V x k)" for k using n by (simp add: block_of_def)
  have img: "block_of V ?x ` {..<Suc n} = insert f (block_of V x ` {..<n})" by (auto simp: b lessThan_Suc)
  have old: "block_of V x ` {..<n} \<subseteq> used f" using ok by (simp add: alloc_ok_def)
  then have fresh: "f \<notin> block_of V x ` {..<n}" by (auto simp: used_def)
  have "inj_on (block_of V ?x) {..<Suc n}" using ok fresh by (auto simp: alloc_ok_def inj_on_def b less_Suc_eq)
  moreover have "block_of V ?x ` {..<Suc n} \<subseteq> used (f + 1)" using old f used_next unfolding img by blast
  moreover have "i_addrs x NDIRECT = 0" using ok n by (simp add: alloc_ok_def)
  ultimately have "alloc_ok V ?x (Suc n) (f + 1)" using ok n by (auto simp: alloc_ok_def)
  moreover have "owned_blocks V ?x (Suc n) \<subseteq> owned_blocks V x n \<union> {b. f \<le> b}" using n unfolding owned_blocks_def img by auto
  moreover have "\<forall>b \<ge> f + 1. V b = (\<lambda>_. 0)" using z used_next(3) [OF f(2)] by (simp add: word_le_nat_alt)
  ultimately show ?thesis using n b used_next(3) [OF f(2)] by (simp add: new_block_def cost_def is_dinode_def)
qed

definition entry_free :: "(u32 \<Rightarrow> bytes) \<Rightarrow> inode \<Rightarrow> nat \<Rightarrow> u32 \<Rightarrow> bool" where
  "entry_free V x n f \<longleftrightarrow> NDIRECT \<le> n \<and> n < MAXFILE \<and> block_of V x ` {..<n} \<subseteq> used f \<and> inj_on (block_of V x) {..<n}
     \<and> i_addrs x NDIRECT \<in> used f \<and> i_addrs x NDIRECT \<notin> block_of V x ` {..<n} \<and> (\<forall>k < MAXFILE. n \<le> k \<longrightarrow> block_of V x k = 0)"

lemma new_entry:
  assumes e: "entry_free V x n f" and f: "46 \<le> unat f" "unat f < FSSIZE" and a: "a = i_addrs x NDIRECT"
    and V': "V' = V(a := write32 (V a) (4 * of_nat (n - NDIRECT)) f)"
  shows "alloc_ok V' x (Suc n) (f + 1)" and "\<forall>k < n. block_of V' x k = block_of V x k" and "block_of V' x n = f"
    and "block_of V' x ` {..<Suc n} = insert f (block_of V x ` {..<n})"
proof -
  note e' = e [unfolded entry_free_def]
  have "a \<in> used f" using e' a by simp
  then have "a \<noteq> 0" by (auto simp: used_def)
  note b = entry_written [OF a this, of n _ V f, folded V']
  show same: "\<forall>k < n. block_of V' x k = block_of V x k" and new: "block_of V' x n = f" using b e' by simp_all
  then show img: "block_of V' x ` {..<Suc n} = insert f (block_of V x ` {..<n})" by (auto simp: lessThan_Suc)
  have old: "block_of V x ` {..<n} \<subseteq> used f" and af: "a \<in> used f" "a \<notin> block_of V x ` {..<n}" using e' a by simp_all
  then have fresh: "f \<notin> block_of V x ` {..<n}" "a \<noteq> f" by (auto simp: used_def)
  have "block_of V' x ` {..<n} = block_of V x ` {..<n}" using same by (intro image_cong) simp_all
  moreover have "inj_on (block_of V' x) {..<n}"
    using e' same inj_on_cong [of "{..<n}" "block_of V' x" "block_of V x"] by simp
  ultimately have "inj_on (block_of V' x) {..<Suc n}" using fresh(1) new by (simp add: lessThan_Suc)
  moreover have "block_of V' x ` {..<Suc n} \<subseteq> used (f + 1)" using old f used_next unfolding img by blast
  moreover have "a \<notin> block_of V' x ` {..<Suc n}" "a \<in> used (f + 1)" unfolding img using fresh af used_next f by auto
  moreover have "\<forall>k < MAXFILE. Suc n \<le> k \<longrightarrow> block_of V' x k = 0" using b e' by simp
  ultimately show "alloc_ok V' x (Suc n) (f + 1)" using e' a by (auto simp: alloc_ok_def)
qed

lemma new_indirect:
  assumes ok: "alloc_ok V x n f" and n: "NDIRECT < n" "n < MAXFILE" and f: "46 \<le> unat f" "unat f < FSSIZE" and z: "\<forall>b \<ge> f. V b = (\<lambda>_. 0)"
    and a: "a = i_addrs x NDIRECT" and V': "V' = V(a := write32 (V a) (4 * of_nat (n - NDIRECT)) f)"
  shows "new_block V x f n V' x (f + 1)" and "block_of V' x n = f"
proof -
  have "entry_free V x n f" using ok n by (simp add: entry_free_def alloc_ok_def)
  note e = new_entry [OF this f a V']
  show "block_of V' x n = f" by (rule e(3))
  have au: "a \<in> used f" "a \<in> owned_blocks V x n" "a \<notin> block_of V x ` {..<n}" using ok n a by (simp_all add: alloc_ok_def owned_blocks_def)
  moreover have "\<forall>b \<ge> f + 1. V' b = (\<lambda>_. 0)"
    using z used_next(3) [OF f(2)] au(1) by (auto simp: V' word_le_nat_alt used_def word_less_nat_alt)
  moreover have "owned_blocks V' x (Suc n) \<subseteq> owned_blocks V x n \<union> {b. f \<le> b}"
    unfolding owned_blocks_def e(4) using n by auto
  ultimately show "new_block V x f n V' x (f + 1)"
    using e n used_next(3) [OF f(2)] by (auto simp: new_block_def cost_def V')
qed

lemma new_first_indirect:
  assumes ok: "alloc_ok V x NDIRECT f" and f: "46 \<le> unat f" "Suc (unat f) < FSSIZE" and z: "\<forall>b \<ge> f. V b = (\<lambda>_. 0)"
    and x': "x' = x\<lparr>i_addrs := (i_addrs x)(NDIRECT := f)\<rparr>" and V': "V' = V(f := write32 (V f) 0 (f + 1))"
  shows "new_block V x f NDIRECT V' x' (f + 2)" and "block_of V' x' NDIRECT = f + 1"
proof -
  have f1: "unat (f + 1) = Suc (unat f)" "46 \<le> unat (f + 1)" "unat (f + 1) < FSSIZE" "f \<noteq> 0" "f < f + 1"
    using f by (auto simp: unat_word_ariths word_less_nat_alt)
  have b: "block_of V x' k = block_of V x k" if "k < NDIRECT" for k using that by (simp add: block_of_def x')
  then have img: "block_of V x' ` {..<NDIRECT} = block_of V x ` {..<NDIRECT}" by (intro image_cong) simp_all
  have old: "block_of V x ` {..<NDIRECT} \<subseteq> used f" using ok by (simp add: alloc_ok_def)
  then have fresh: "f \<notin> block_of V x ` {..<NDIRECT}" by (auto simp: used_def)
  have "f \<in> used (f + 1)" "block_of V x ` {..<NDIRECT} \<subseteq> used (f + 1)" using old f used_next by auto
  moreover have "inj_on (block_of V x') {..<NDIRECT}" using ok inj_on_cong [of "{..<NDIRECT}" "block_of V x'" "block_of V x"] b by (simp add: alloc_ok_def)
  moreover have "block_of V x' k = 0" if "NDIRECT \<le> k" for k using that z by (simp add: block_of_def x' read_le_zero)
  ultimately have "entry_free V x' NDIRECT (f + 1)" using img fresh by (simp add: entry_free_def x')
  note e = new_entry [OF this f1(2,3), of f V']
  have a: "f = i_addrs x' NDIRECT" "V' = V(f := write32 (V f) (4 * of_nat (NDIRECT - NDIRECT)) (f + 1))" by (simp_all add: x' V')
  note e = e [OF a]
  show "block_of V' x' NDIRECT = f + 1" by (rule e(3))
  have f2: "unat (f + 2) = Suc (Suc (unat f))" using f by (simp add: unat_word_ariths)
  then have "\<forall>b \<ge> f + 2. V' b = (\<lambda>_. 0)" using z by (auto simp: V' word_le_nat_alt)
  moreover have al: "alloc_ok V' x' (Suc NDIRECT) (f + 2)" using e(1) by (simp add: add.commute)
  moreover have "owned_blocks V' x' (Suc NDIRECT) \<subseteq> owned_blocks V x NDIRECT \<union> {b. f \<le> b}"
    unfolding owned_blocks_def e(4) img using f1 by (auto simp: x')
  ultimately show "new_block V x f NDIRECT V' x' (f + 2)"
    using al e(2-4) f f1 f2 b fresh by (auto simp: new_block_def cost_def V' x' is_dinode_def)
qed

lemma append_block_new:
  assumes r: "mk_ready s" and ok: "alloc_ok (img s) x n (freeblock s)" and n: "n < MAXFILE" and f: "46 \<le> unat (freeblock s)"
    and room: "unat (freeblock s) + cost (Suc n) - cost n \<le> FSSIZE" and z: "\<forall>b \<ge> freeblock s. img s b = (\<lambda>_. 0)"
  obtains V' x' f' where "append_block x n s = Done (x', block_of V' x' n) (s\<lparr>img := V', freeblock := f'\<rparr>)"
    and "new_block (img s) x (freeblock s) n V' x' f'"
proof -
  let ?V = "img s" and ?f = "freeblock s"
  consider "n < NDIRECT" | "n = NDIRECT" | "NDIRECT < n" by linarith
  then show thesis
  proof cases
    case 1
    let ?x = "x\<lparr>i_addrs := (i_addrs x)(n := ?f)\<rparr>"
    have "i_addrs x n = 0" "unat ?f < FSSIZE" using ok 1 room by (simp_all add: alloc_ok_def cost_def)
    then have "append_block x n s = Done (?x, block_of ?V ?x n) (s\<lparr>img := ?V, freeblock := ?f + 1\<rparr>)"
      using 1 by (simp add: append_block_def kbind_run block_of_def)
    then show ?thesis using that new_direct [OF ok 1 f \<open>unat ?f < FSSIZE\<close> z] by blast
  next
    case 2
    let ?x = "x\<lparr>i_addrs := (i_addrs x)(NDIRECT := ?f)\<rparr>" and ?V' = "?V(?f := write32 (?V ?f) 0 (?f + 1))"
    have a: "i_addrs x NDIRECT = 0" "Suc (unat ?f) < FSSIZE" using ok 2 room by (simp_all add: alloc_ok_def cost_def)
    have zero: "read32 (?V ?f) 0 = 0" using z by (simp add: read_le_zero)
    note nb = new_first_indirect [OF ok [unfolded 2] f a(2) z refl refl]
    have "append_block x n s = Done (?x, block_of ?V' ?x n) (s\<lparr>img := ?V', freeblock := ?f + 2\<rparr>)"
      using 2 a zero nb(2) r by (simp add: append_block_def kbind_run kseq_run Let_def rsect_run wsect_run add.commute)
    then show ?thesis using that nb(1) 2 by blast
  next
    case 3
    let ?a = "i_addrs x NDIRECT"
    let ?V' = "?V(?a := write32 (?V ?a) (4 * of_nat (n - NDIRECT)) ?f)"
    have lim: "unat ?f < FSSIZE" using room 3 by (simp add: cost_def)
    have "?a \<in> used ?f" and e: "block_of ?V x n = 0" using ok 3 n by (simp_all add: alloc_ok_def)
    then have a: "?a \<noteq> 0" "unat ?a < FSSIZE" using used_bounds lim by (simp_all add: less_imp_le)
    have zero: "read32 (?V ?a) (4 * of_nat (n - NDIRECT)) = 0" using e a(1) 3 by (simp add: block_of_def)
    note nb = new_indirect [OF ok 3 n f lim z refl refl]
    have "append_block x n s = Done (x, block_of ?V' x n) (s\<lparr>img := ?V', freeblock := ?f + 1\<rparr>)"
      using 3 a zero nb(2) r unfolding append_block_def by (simp add: kbind_run kseq_run Let_def rsect_run wsect_run)
    then show ?thesis using that nb(1) by blast
  qed
qed

subsection \<open>Appending\<close>

definition nblk :: "nat \<Rightarrow> nat" where
  "nblk off = (off + 1023) div BSIZE"

lemma nblk_cases: "nblk off = (if off mod BSIZE = 0 then off div BSIZE else Suc (off div BSIZE))"
proof -
  have "(BSIZE * q + r + 1023) div BSIZE = (if r = 0 then q else Suc q)" if "r < BSIZE" for q r :: nat
    using that by (auto intro!: div_nat_eqI)
  from this [of "off mod BSIZE" "off div BSIZE"] show ?thesis by (simp add: nblk_def)
qed

lemma nblk_append:
  assumes "0 < m" and "m \<le> BSIZE - off mod BSIZE"
  shows "nblk (off + m) = Suc (off div BSIZE)"
proof -
  have "off mod BSIZE < BSIZE" by simp
  have "(BSIZE * q + r + m + 1023) div BSIZE = Suc q" if "r < BSIZE" "m \<le> BSIZE - r" for q r :: nat
    using that assms(1) by (auto intro!: div_nat_eqI)
  from this [of "off mod BSIZE" "off div BSIZE"] assms(2) show ?thesis by (simp add: nblk_def)
qed

lemma nblk_bound: "off \<le> nblk off * BSIZE" "nblk off \<le> n \<longleftrightarrow> off \<le> n * BSIZE"
proof -
  show *: "nblk off \<le> n \<longleftrightarrow> off \<le> n * BSIZE" for n
  proof -
    have "nblk off < Suc n \<longleftrightarrow> off + 1023 < Suc n * BSIZE" by (simp add: nblk_def div_less_iff_less_mult)
    then show ?thesis by (simp add: less_Suc_eq_le)
  qed
  show "off \<le> nblk off * BSIZE" using * [of "nblk off"] by simp
qed

text \<open>The file of inode \<open>x\<close> has \<open>off\<close> bytes; all blocks from \<open>f\<close> on are unused and zero.\<close>

definition mk_file :: "(u32 \<Rightarrow> bytes) \<Rightarrow> inode \<Rightarrow> u32 \<Rightarrow> nat \<Rightarrow> bool" where
  "mk_file V x f off \<longleftrightarrow> is_dinode x \<and> alloc_ok V x (nblk off) f \<and> (\<forall>b \<ge> f. V b = (\<lambda>_. 0)) \<and> 46 \<le> unat f \<and> unat f \<le> FSSIZE"

text \<open>It has grown by \<open>p\<close>; of the blocks in use, only its own have changed.\<close>

definition mk_grown :: "(u32 \<Rightarrow> bytes) \<Rightarrow> inode \<Rightarrow> u32 \<Rightarrow> nat \<Rightarrow> (u32 \<Rightarrow> bytes) \<Rightarrow> inode \<Rightarrow> u32 \<Rightarrow> u8 list \<Rightarrow> bool" where
  "mk_grown V x f off V' x' f' p \<longleftrightarrow> mk_file V' x' f' (off + length p)
     \<and> (\<forall>i < off + length p. file_byte V' x' i = (if i < off then file_byte V x i else p ! (i - off)))
     \<and> (\<forall>b < f. b \<notin> owned_blocks V x (nblk off) \<longrightarrow> V' b = V b)
     \<and> owned_blocks V' x' (nblk (off + length p)) \<subseteq> owned_blocks V x (nblk off) \<union> {b. f \<le> b}
     \<and> unat f' + cost (nblk off) = unat f + cost (nblk (off + length p)) \<and> f \<le> f' \<and> x' = x\<lparr>i_addrs := i_addrs x'\<rparr>"

lemma mk_grown_none: "mk_file V x f off \<Longrightarrow> mk_grown V x f off V x f []"
  by (simp add: mk_grown_def)

lemma mk_grown_append:
  assumes "mk_grown V x f off V1 x1 f1 p" and "mk_grown V1 x1 f1 (off + length p) V2 x2 f2 q"
  shows "mk_grown V x f off V2 x2 f2 (p @ q)"
proof -
  note a = assms(1) [unfolded mk_grown_def] and b = assms(2) [unfolded mk_grown_def]
  have "V2 c = V c" if "c < f" "c \<notin> owned_blocks V x (nblk off)" for c
  proof -
    have "c < f1" using that(1) a by auto
    moreover have "c \<notin> owned_blocks V1 x1 (nblk (off + length p))" using a that by auto
    ultimately show ?thesis using a b that by simp
  qed
  moreover have "owned_blocks V2 x2 (nblk (off + length p + length q)) \<subseteq> owned_blocks V x (nblk off) \<union> {c. f \<le> c}"
    using a b by (auto intro: order_trans)
  moreover have "x2 = x\<lparr>i_addrs := i_addrs x2\<rparr>" using a b by (metis inode.update_convs(10) inode.surjective)
  moreover have "file_byte V2 x2 i = (if i < off then file_byte V x i else (p @ q) ! (i - off))" if "i < off + length (p @ q)" for i
    using a b that by (auto simp: nth_append)
  ultimately show ?thesis using a b unfolding mk_grown_def by (auto simp: add.assoc)
qed

lemma alloc_ok_put:
  assumes "alloc_ok V x n f" and "unat f \<le> FSSIZE" and "off < n * BSIZE"
  shows "alloc_ok (put_chunk V x off bs) x n f" and "block_of (put_chunk V x off bs) x = block_of V x"
proof -
  have "off div BSIZE < n" using assms(3) by (simp add: less_mult_imp_div_less)
  then have "NDIRECT < n \<Longrightarrow> i_addrs x NDIRECT \<noteq> block_of V x (off div BSIZE)" using assms(1) by (auto simp: alloc_ok_def)
  moreover have "\<not> NDIRECT < n \<Longrightarrow> i_addrs x NDIRECT = 0" using assms(1) by (simp add: alloc_ok_def)
  ultimately have "i_addrs x NDIRECT \<noteq> block_of V x (off div BSIZE) \<or> i_addrs x NDIRECT = 0" by blast
  moreover have "put_chunk V x off bs = V(block_of V x (off div BSIZE) := put_chunk V x off bs (block_of V x (off div BSIZE)))"
    by (simp add: put_chunk_def Let_def)
  then have "put_chunk V x off bs b = V b" if "b \<noteq> block_of V x (off div BSIZE)" for b using that by (metis fun_upd_other)
  ultimately have "put_chunk V x off bs (i_addrs x NDIRECT) = V (i_addrs x NDIRECT) \<or> i_addrs x NDIRECT = 0" by blast
  then show e: "block_of (put_chunk V x off bs) x = block_of V x" unfolding block_of_def [abs_def] by auto
  show "alloc_ok (put_chunk V x off bs) x n f" using assms(1) unfolding alloc_ok_def e .
qed

text \<open>One round of the loop, with the block in place.\<close>

lemma mk_grown_chunk:
  assumes fil: "mk_file V x f off" and p: "p \<noteq> []" "length p \<le> BSIZE - off mod BSIZE" and k: "k = off div BSIZE"
    and blk: "if off mod BSIZE = 0 then new_block V x f k V1 x1 f1 else V1 = V \<and> x1 = x \<and> f1 = f" and f1: "unat f1 \<le> FSSIZE"
  shows "mk_grown V x f off (put_chunk V1 x1 off p) x1 f1 p"
proof -
  let ?n = "nblk off"
  have n': "nblk (off + length p) = Suc k" using nblk_append [of "length p" off] p k by simp
  have n: "?n = (if off mod BSIZE = 0 then k else Suc k)" using nblk_cases k by simp
  note fl = fil [unfolded mk_file_def]
  have dv: "off = BSIZE * k + off mod BSIZE" using k by simp
  have off: "off < Suc k * BSIZE" using dv mod_less_divisor [of BSIZE off] by simp
  have a1: "alloc_ok V1 x1 (Suc k) f1" using blk fl n by (auto simp: new_block_def split: if_splits)
  note put = alloc_ok_put [OF a1 f1 off]
  have old: "block_of V1 x1 j = block_of V x j" "V1 (block_of V x j) = V (block_of V x j)" if "j < ?n" for j
    using blk that n by (auto simp: new_block_def split: if_splits)
  have z: "\<forall>b \<ge> f1. V1 b = (\<lambda>_. 0)" and ff: "f \<le> f1" "unat f1 + cost ?n = unat f + cost (Suc k)" "is_dinode x1" "x1 = x\<lparr>i_addrs := i_addrs x1\<rparr>"
    using blk fl n by (auto simp: new_block_def word_le_nat_alt cost_def split: if_splits)
  have fr: "\<forall>b < f. b \<notin> owned_blocks V x ?n \<longrightarrow> V1 b = V b" and ow: "owned_blocks V1 x1 (Suc k) \<subseteq> owned_blocks V x ?n \<union> {b. f \<le> b}"
    using blk n by (auto simp: new_block_def split: if_splits)
  have bn: "block_of V1 x1 k \<in> owned_blocks V1 x1 (Suc k)" "block_of V1 x1 k \<in> used f1" using a1 by (auto simp: owned_blocks_def alloc_ok_def)
  have pc: "put_chunk V1 x1 off p b = V1 b" if "b \<noteq> block_of V1 x1 k" for b using that k by (simp add: put_chunk_def Let_def)
  have "put_chunk V1 x1 off p b = (\<lambda>_. 0)" if "f1 \<le> b" for b
  proof -
    have "b \<noteq> block_of V1 x1 k" using that bn(2) by (auto simp: used_def)
    then show ?thesis using pc z that by simp
  qed
  moreover have "46 \<le> unat f1" using ff(1) fl by (simp add: word_le_nat_alt)
  ultimately have "mk_file (put_chunk V1 x1 off p) x1 f1 (off + length p)"
    using put(1) ff(3) f1 unfolding mk_file_def n' by simp
  moreover have "file_byte (put_chunk V1 x1 off p) x1 i = (if i < off then file_byte V x i else p ! (i - off))" if "i < off + length p" for i
  proof -
    have "i < Suc k * BSIZE" using that p(2) dv by simp
    then have "file_byte (put_chunk V1 x1 off p) x1 i = (if off \<le> i \<and> i < off + length p then p ! (i - off) else file_byte V1 x1 i)"
      using put_chunk_byte [OF alloc_ok_mapped [OF a1 f1] off p(2)] by simp
    moreover have "file_byte V1 x1 i = file_byte V x i" if "i < off"
    proof -
      have "i div BSIZE < ?n" using that nblk_bound(1) [of off] by (simp add: less_mult_imp_div_less)
      then show ?thesis using old by (simp add: file_byte_def)
    qed
    ultimately show ?thesis using that by auto
  qed
  moreover have "put_chunk V1 x1 off p b = V b" if "b < f" "b \<notin> owned_blocks V x ?n" for b
  proof -
    have "b \<noteq> block_of V1 x1 k" using that ow bn(1) by auto
    then show ?thesis using pc fr that by simp
  qed
  moreover have "owned_blocks (put_chunk V1 x1 off p) x1 (Suc k) = owned_blocks V1 x1 (Suc k)" by (simp only: owned_blocks_def put(2))
  ultimately show ?thesis using ow ff unfolding mk_grown_def n' by blast
qed

lemma cost_mono: "m \<le> n \<Longrightarrow> cost m \<le> cost n"
  by (simp add: cost_def)

lemma nblk_mono: "m \<le> n \<Longrightarrow> nblk m \<le> nblk n"
  by (simp add: nblk_def div_le_mono)

lemma mk_get_block:
  assumes r: "mk_ready s" and fil: "mk_file (img s) x (freeblock s) off" and k: "k = off div BSIZE" "k < MAXFILE"
    and room: "unat (freeblock s) + cost (Suc k) - cost (nblk off) \<le> FSSIZE"
  obtains V' x' f' where "append_block x k s = Done (x', block_of V' x' k) (s\<lparr>img := V', freeblock := f'\<rparr>)" and "unat f' \<le> FSSIZE"
    and "if off mod BSIZE = 0 then new_block (img s) x (freeblock s) k V' x' f' else V' = img s \<and> x' = x \<and> f' = freeblock s"
    and "unat (block_of V' x' k) < FSSIZE"
proof -
  note fl = fil [unfolded mk_file_def]
  have n: "nblk off = (if off mod BSIZE = 0 then k else Suc k)" using nblk_cases k by simp
  show thesis
  proof (cases "off mod BSIZE = 0")
    case True
    then have ok: "alloc_ok (img s) x k (freeblock s)" and lim: "unat (freeblock s) + cost (Suc k) - cost k \<le> FSSIZE"
      using fl n room by simp_all
    have "46 \<le> unat (freeblock s)" "\<forall>b \<ge> freeblock s. img s b = (\<lambda>_. 0)" using fl by simp_all
    then obtain V' x' f' where b: "append_block x k s = Done (x', block_of V' x' k) (s\<lparr>img := V', freeblock := f'\<rparr>)"
      "new_block (img s) x (freeblock s) k V' x' f'"
      by (rule append_block_new [OF r ok k(2) _ lim])
    have "unat f' + cost k = unat (freeblock s) + cost (Suc k)" using b(2) by (simp add: new_block_def)
    then have f: "unat f' \<le> FSSIZE" using lim by simp
    moreover have "block_of V' x' k \<in> used f'" using b(2) by (auto simp: new_block_def alloc_ok_def)
    ultimately show ?thesis using that [of x' V' f'] b True used_bounds by simp
  next
    case False
    have ok: "alloc_ok (img s) x (Suc k) (freeblock s)" using fl n False by simp
    then have "block_of (img s) x k \<in> used (freeblock s)" by (auto simp: alloc_ok_def)
    then show ?thesis
      using that [of x "img s" "freeblock s"] append_block_old [OF r ok, of k] False fl used_bounds by simp
  qed
qed

lemma chunk_offset:
  assumes "unat off div BSIZE < MAXFILE"
  shows "ucast (off - off div 1024 * 1024 :: u32) = (of_nat (unat off mod BSIZE) :: u64)"
proof -
  have "off - off div 1024 * 1024 = off mod 1024" by (simp add: minus_div_mult_eq_mod)
  moreover have "ucast (off mod 1024) = (of_nat (unat (off mod 1024)) :: u64)" by simp
  ultimately show ?thesis by (simp only: unat_mod unat_numeral) simp
qed

text \<open>The first round of the loop.\<close>

lemma iappend_step:
  assumes r: "mk_ready s" and fil: "mk_file (img s) x (freeblock s) (unat off)" and p: "p \<noteq> []" and k: "unat off div BSIZE < MAXFILE"
    and m: "m = min (length p) (BSIZE - unat off mod BSIZE)"
    and room: "unat (freeblock s) + cost (nblk (unat off + m)) - cost (nblk (unat off)) \<le> FSSIZE"
  obtains V x' f where "iappend_loop x off p s = iappend_loop x' (off + of_nat m) (drop m p) (s\<lparr>img := V, freeblock := f\<rparr>)"
    and "mk_grown (img s) x (freeblock s) (unat off) V x' f (take m p)"
proof -
  let ?o = "unat off" and ?k = "unat off div BSIZE"
  have "?o mod BSIZE < BSIZE" by simp
  then have mm: "0 < m" "length (take m p) = m" "m \<le> BSIZE - ?o mod BSIZE" using p unfolding m by (auto simp del: mod_less_divisor)
  have n: "nblk (?o + m) = Suc ?k" by (rule nblk_append [OF mm(1,3)])
  obtain V1 x1 f1 where b: "append_block x ?k s = Done (x1, block_of V1 x1 ?k) (s\<lparr>img := V1, freeblock := f1\<rparr>)" "unat f1 \<le> FSSIZE"
    "if ?o mod BSIZE = 0 then new_block (img s) x (freeblock s) ?k V1 x1 f1 else V1 = img s \<and> x1 = x \<and> f1 = freeblock s"
    "unat (block_of V1 x1 ?k) < FSSIZE"
    by (rule mk_get_block [OF r fil refl k room [unfolded n]])
  have "take m p \<noteq> []" "length (take m p) \<le> BSIZE - ?o mod BSIZE" using mm by auto
  note g = mk_grown_chunk [OF fil this refl b(3,2)]
  let ?bn = "block_of V1 x1 ?k"
  have fbn: "unat (off div 1024) = ?k" by (simp add: unat_div)
  then have n1: "min (length p) (unat ((off div 1024 + 1) * 1024 - off)) = m" using append_step [of off] k m by simp
  have r1: "mk_ready (s\<lparr>img := V1, freeblock := f1\<rparr>)" and st: "s\<lparr>img := V1, freeblock := f1, img := W\<rparr> = s\<lparr>img := W, freeblock := f1\<rparr>" for W
    using r by (simp, cases s, simp)
  have "iappend_loop x off p s = iappend_loop x1 (off + of_nat m) (drop m p)
      (s\<lparr>img := V1(?bn := store_bytes (V1 ?bn) (of_nat (?o mod BSIZE)) (take m p)), freeblock := f1\<rparr>)"
    by (subst iappend_loop.simps)
      (use p k in \<open>simp only: if_False Let_def fbn n1 chunk_offset [OF k] kbind_run b(1) outcome.case prod.case rsect_run [OF r1 b(4)] kseq_run
        wsect_run [OF r1 b(4)] not_le [symmetric] simp_thms\<close>, simp add: st)
  then show thesis using that g by (simp add: put_chunk_def Let_def)
qed

lemma iappend_loop_run:
  assumes "mk_ready s" and "mk_file (img s) x (freeblock s) (unat off)" and "unat off + length p \<le> MAXFILE * BSIZE"
    and "unat (freeblock s) + cost (nblk (unat off + length p)) \<le> FSSIZE + cost (nblk (unat off))"
  shows "\<exists>V x' f. iappend_loop x off p s = Done (x', off + of_nat (length p)) (s\<lparr>img := V, freeblock := f\<rparr>)
    \<and> mk_grown (img s) x (freeblock s) (unat off) V x' f p"
  using assms
proof (induction "length p" arbitrary: s x off p rule: less_induct)
  case less
  show ?case
  proof (cases "p = []")
    case True
    then show ?thesis using less.prems(2) mk_grown_none by (auto simp: iappend_loop.simps intro!: exI [of _ "img s"] exI [of _ "freeblock s"])
  next
    case False
    let ?o = "unat off"
    define m where "m = min (length p) (BSIZE - ?o mod BSIZE)"
    have "?o mod BSIZE < BSIZE" by simp
    then have m: "0 < m" "m \<le> length p" using False unfolding m_def by (auto simp del: mod_less_divisor)
    have "?o < MAXFILE * BSIZE" using less.prems(3) False by (cases p) auto
    then have k: "?o div BSIZE < MAXFILE" by (simp add: less_mult_imp_div_less)
    have "cost (nblk (?o + m)) \<le> cost (nblk (?o + length p))" using m by (intro cost_mono nblk_mono) simp
    then have "unat (freeblock s) + cost (nblk (?o + m)) - cost (nblk ?o) \<le> FSSIZE" using less.prems(4) by simp
    then obtain V x' f where u: "iappend_loop x off p s = iappend_loop x' (off + of_nat m) (drop m p) (s\<lparr>img := V, freeblock := f\<rparr>)"
      "mk_grown (img s) x (freeblock s) ?o V x' f (take m p)"
      by (rule iappend_step [OF less.prems(1,2) False k m_def])
    have o: "unat (off + of_nat m) = ?o + m" using less.prems(3) m(2) by (simp add: unat_word_ariths unat_of_nat)
    have lt: "length (take m p) = m" "length (drop m p) < length p" "length (drop m p) = length p - m" using m by simp_all
    have g: "mk_file V x' f (?o + m)" "unat f + cost (nblk ?o) = unat (freeblock s) + cost (nblk (?o + m))"
      using u(2) unfolding mk_grown_def lt(1) by simp_all
    obtain W y e where w: "iappend_loop x' (off + of_nat m) (drop m p) (s\<lparr>img := V, freeblock := f\<rparr>)
        = Done (y, off + of_nat m + of_nat (length p - m)) (s\<lparr>img := W, freeblock := e\<rparr>)" "mk_grown V x' f (?o + m) W y e (drop m p)"
      using less.hyps [OF lt(2), of "s\<lparr>img := V, freeblock := f\<rparr>" x' "off + of_nat m"] less.prems(1,3,4) g m(2) by (auto simp: o)
    have "mk_grown (img s) x (freeblock s) ?o W y e p" using mk_grown_append [OF u(2)] w(2) lt(1) by (metis append_take_drop_id)
    moreover have "off + of_nat m + of_nat (length p - m) = off + of_nat (length p)" using m(2) by (simp add: of_nat_diff)
    ultimately show ?thesis using u(1) w(1) by auto
  qed
qed

end
