(* ===== verification/Mkfs_Image.thy ===== *)
theory Mkfs_Image
  imports Mkfs_Append
begin

text \<open>
  The image that \<open>mkfs\<close> makes, read with the eyes of the kernel: super block, inodes, contents of files and directories
  and the bitmap of free blocks.
\<close>

subsection \<open>All files of the image\<close>

text \<open>The file of inode \<open>x\<close> is of type \<open>ty\<close> and has contents \<open>c\<close>.\<close>

definition holds :: "(u32 \<Rightarrow> bytes) \<Rightarrow> u32 \<Rightarrow> inode \<Rightarrow> u16 \<times> u8 list \<Rightarrow> bool" where
  "holds V f x e \<longleftrightarrow> i_type x = fst e \<and> i_nlink x = 1 \<and> unat (i_size x) = length (snd e) \<and> length (snd e) \<le> MAXFILE * BSIZE
     \<and> alloc_ok V x (nblk (length (snd e))) f \<and> (\<forall>j < length (snd e). file_byte V x j = snd e ! j)"

abbreviation owns :: "(u32 \<Rightarrow> bytes) \<Rightarrow> inode \<Rightarrow> u16 \<times> u8 list \<Rightarrow> u32 set" where
  "owns V x e \<equiv> owned_blocks V x (nblk (length (snd e)))"

abbreviation size_cost :: "u16 \<times> u8 list \<Rightarrow> nat" where
  "size_cost e \<equiv> cost (nblk (length (snd e)))"

definition ino :: "nat \<Rightarrow> u32" where
  "ino i = of_nat (Suc i)"

definition img_inv :: "mkfs \<Rightarrow> (u16 \<times> u8 list) list \<Rightarrow> bool" where
  "img_inv s C \<longleftrightarrow> mk_ready s \<and> length C < NINODES \<and> freeinode s = ino (length C)
     \<and> unat (freeblock s) = 46 + sum_list (map size_cost C) \<and> unat (freeblock s) \<le> FSSIZE \<and> (\<forall>b \<ge> freeblock s. img s b = (\<lambda>_. 0))
     \<and> (\<forall>i < length C. holds (img s) (freeblock s) (dino (img s) (ino i)) (C ! i))
     \<and> (\<forall>i < length C. \<forall>j < length C. i \<noteq> j \<longrightarrow> owns (img s) (dino (img s) (ino i)) (C ! i) \<inter> owns (img s) (dino (img s) (ino j)) (C ! j) = {})"

lemma alloc_ok_cong:
  assumes "alloc_ok V x n f" and "\<And>b. b \<in> owned_blocks V x n \<Longrightarrow> W b = V b"
  shows "block_of W x = block_of V x" and "alloc_ok W x n f" and "owned_blocks W x n = owned_blocks V x n"
    and "i < n * BSIZE \<Longrightarrow> file_byte W x i = file_byte V x i"
proof -
  have "i_addrs x NDIRECT \<in> owned_blocks V x n \<or> i_addrs x NDIRECT = 0"
    using assms(1) by (auto simp: alloc_ok_def owned_blocks_def)
  then have "W (i_addrs x NDIRECT) = V (i_addrs x NDIRECT) \<or> i_addrs x NDIRECT = 0" using assms(2) by blast
  then show e: "block_of W x = block_of V x" unfolding block_of_def [abs_def] by auto
  show "alloc_ok W x n f" using assms(1) unfolding alloc_ok_def e .
  show "owned_blocks W x n = owned_blocks V x n" by (simp only: owned_blocks_def e)
  show "file_byte W x i = file_byte V x i" if "i < n * BSIZE"
  proof -
    have "block_of V x (i div BSIZE) \<in> owned_blocks V x n" using that by (simp add: owned_blocks_def less_mult_imp_div_less)
    then show ?thesis using assms(2) by (simp add: file_byte_def e)
  qed
qed

lemma holds_cong:
  assumes "holds V f x e" and "\<And>b. b \<in> owns V x e \<Longrightarrow> W b = V b" and "f \<le> f'"
  shows "holds W f' x e" and "owns W x e = owns V x e"
proof -
  let ?n = "nblk (length (snd e))"
  have a: "alloc_ok V x ?n f" using assms(1) by (simp add: holds_def)
  note c = alloc_ok_cong [OF a assms(2)]
  have "used f \<subseteq> used f'" using assms(3) by (auto simp: used_def)
  then have "alloc_ok W x ?n f'" using c(2) by (auto simp: alloc_ok_def)
  moreover have "length (snd e) \<le> ?n * BSIZE" by (rule nblk_bound)
  then have "\<forall>j < length (snd e). file_byte W x j = snd e ! j" using c(4) assms(1) by (simp add: holds_def)
  ultimately show "holds W f' x e" using assms(1) by (simp add: holds_def)
  show "owns W x e = owns V x e" by (rule c(3))
qed

lemma sum_list_update_add: "i < length C \<Longrightarrow> sum_list (map h (C[i := e])) + h (C ! i) = sum_list (map h C) + h e" for h :: "'a \<Rightarrow> nat"
  by (induction C arbitrary: i) (auto split: nat.splits)

lemma ino_facts: "i < NINODES \<Longrightarrow> unat (ino i) = Suc i" "i < NINODES \<Longrightarrow> unat (ino i) < 208"
  "i < NINODES \<Longrightarrow> j < NINODES \<Longrightarrow> ino i = ino j \<longleftrightarrow> i = j"
proof -
  show u: "i < NINODES \<Longrightarrow> unat (ino i) = Suc i" for i by (simp add: ino_def unat_of_nat del: of_nat_Suc)
  show "i < NINODES \<Longrightarrow> unat (ino i) < 208" using u by simp
  show "i < NINODES \<Longrightarrow> j < NINODES \<Longrightarrow> ino i = ino j \<longleftrightarrow> i = j" using u by (metis Suc_inject)
qed

lemma put_dino_other: "unat inum < 208 \<Longrightarrow> 46 \<le> unat b \<Longrightarrow> put_dino V inum x b = V b" "unat inum < 208 \<Longrightarrow> unat b < 32 \<Longrightarrow> put_dino V inum x b = V b"
  using iblk_small(2,3) [of inum] by (auto simp: put_dino_def)

lemma img_invD:
  assumes "img_inv s C"
  shows "mk_ready s" and "length C < NINODES" and "46 \<le> unat (freeblock s)" and "unat (freeblock s) \<le> FSSIZE"
    and "\<forall>b \<ge> freeblock s. img s b = (\<lambda>_. 0)" and "i < length C \<Longrightarrow> holds (img s) (freeblock s) (dino (img s) (ino i)) (C ! i)"
    and "i < length C \<Longrightarrow> b \<in> owns (img s) (dino (img s) (ino i)) (C ! i) \<Longrightarrow> 46 \<le> unat b \<and> b < freeblock s"
    and "i < length C \<Longrightarrow> j < length C \<Longrightarrow> i \<noteq> j \<Longrightarrow> b \<in> owns (img s) (dino (img s) (ino i)) (C ! i) \<Longrightarrow> b \<notin> owns (img s) (dino (img s) (ino j)) (C ! j)"
proof -
  note a = assms [unfolded img_inv_def]
  show "mk_ready s" "length C < NINODES" "46 \<le> unat (freeblock s)" "unat (freeblock s) \<le> FSSIZE"
    "\<forall>b \<ge> freeblock s. img s b = (\<lambda>_. 0)" using a by simp_all
  show h: "i < length C \<Longrightarrow> holds (img s) (freeblock s) (dino (img s) (ino i)) (C ! i)" using a by blast
  show "i < length C \<Longrightarrow> b \<in> owns (img s) (dino (img s) (ino i)) (C ! i) \<Longrightarrow> 46 \<le> unat b \<and> b < freeblock s"
    using h alloc_ok_owned unfolding holds_def used_def by blast
  show "i < length C \<Longrightarrow> j < length C \<Longrightarrow> i \<noteq> j \<Longrightarrow> b \<in> owns (img s) (dino (img s) (ino i)) (C ! i) \<Longrightarrow> b \<notin> owns (img s) (dino (img s) (ino j)) (C ! j)"
    using a by blast
qed

text \<open>Changing one file keeps the others.\<close>

lemma img_inv_change:
  assumes inv: "img_inv s C" and i: "i < length C"
    and t: "mk_ready t" "freeinode t = freeinode s" "freeblock s \<le> freeblock t" "unat (freeblock t) \<le> FSSIZE" "\<forall>b \<ge> freeblock t. img t b = (\<lambda>_. 0)"
      "unat (freeblock t) + size_cost (C ! i) = unat (freeblock s) + size_cost e"
    and same: "\<And>j. j < length C \<Longrightarrow> j \<noteq> i \<Longrightarrow> dino (img t) (ino j) = dino (img s) (ino j)"
    and fr: "\<And>b. 46 \<le> unat b \<Longrightarrow> b < freeblock s \<Longrightarrow> b \<notin> owns (img s) (dino (img s) (ino i)) (C ! i) \<Longrightarrow> img t b = img s b"
    and new: "holds (img t) (freeblock t) (dino (img t) (ino i)) e"
      "owns (img t) (dino (img t) (ino i)) e \<subseteq> owns (img s) (dino (img s) (ino i)) (C ! i) \<union> {b. freeblock s \<le> b}"
  shows "img_inv t (C[i := e])"
proof -
  note a = img_invD [OF inv]
  let ?O = "\<lambda>j. owns (img s) (dino (img s) (ino j)) (C ! j)" and ?P = "\<lambda>j. owns (img t) (dino (img t) (ino j)) (C[i := e] ! j)"
  have old: "holds (img t) (freeblock t) (dino (img t) (ino j)) (C ! j)" "?P j = ?O j" if j: "j < length C" "j \<noteq> i" for j
  proof -
    have "img t c = img s c" if c: "c \<in> ?O j" for c using a(7) [OF j(1) c] a(8) [OF j(1) i j(2) c] fr by blast
    note h = holds_cong [OF a(6) [OF j(1)] this t(3)]
    show "holds (img t) (freeblock t) (dino (img t) (ino j)) (C ! j)" "?P j = ?O j" using h j same [OF j] by simp_all
  qed
  have sum: "unat (freeblock t) = 46 + sum_list (map size_cost (C[i := e]))"
    using sum_list_update_add [OF i, of size_cost e] inv t(6) by (simp add: img_inv_def)
  have H: "holds (img t) (freeblock t) (dino (img t) (ino j)) (C[i := e] ! j)" if "j < length C" for j
    using that new(1) old(1) by (cases "j = i") simp_all
  have P: "?P i \<subseteq> ?O i \<union> {b. freeblock s \<le> b}" using new(2) i by simp
  have Oi: "?P i \<inter> ?P j = {}" if j: "j < length C" "j \<noteq> i" for j
  proof -
    have "c \<notin> ?P i" if c: "c \<in> ?O j" for c using P a(7) [OF j(1) c] a(8) [OF j(1) i j(2) c] by auto
    then show ?thesis using old(2) [OF j] by auto
  qed
  have O: "?P j \<inter> ?P k = {}" if jk: "j < length C" "k < length C" "j \<noteq> k" for j k
  proof (cases "j = i \<or> k = i")
    case True
    then show ?thesis using Oi jk by blast
  next
    case False
    then show ?thesis using old(2) a(8) [OF jk] jk by auto
  qed
  show ?thesis unfolding img_inv_def length_list_update using H O sum t inv by (simp add: img_inv_def)
qed

text \<open>What \<open>iappend\<close> leaves behind: file \<open>i\<close> has grown by \<open>p\<close> and the inode is stored.\<close>

lemma holds_grown:
  assumes h: "holds V x0 x e0" and g: "mk_grown V x x0 (length (snd e0)) V' x' f p" and len: "length (snd e0) + length p \<le> MAXFILE * BSIZE"
    and y: "y = x'\<lparr>i_size := of_nat (length (snd e0) + length p)\<rparr>" and e: "e = (fst e0, snd e0 @ p)"
  shows "holds V' f y e" and "owns V' y e \<subseteq> owns V x e0 \<union> {b. x0 \<le> b}" and "owns V' y e \<subseteq> used f" and "is_dinode y"
proof -
  note gg = g [unfolded mk_grown_def mk_file_def]
  obtain ad where "x' = x\<lparr>i_addrs := ad\<rparr>" using gg by blast
  then have xa: "i_type x' = i_type x" "i_nlink x' = i_nlink x" by simp_all
  have ye: "block_of V' y = block_of V' x'" "file_byte V' y = file_byte V' x'" by (rule file_data_cong, simp add: y)+
  have "unat (i_size y) = length (snd e)" using len by (simp add: e y unat_of_nat del: of_nat_add)
  moreover have "alloc_ok V' y (nblk (length (snd e))) f" using gg unfolding alloc_ok_def ye e by (simp add: y)
  moreover have "\<forall>j < length (snd e). file_byte V' y j = snd e ! j"
    using h gg unfolding holds_def ye e by (auto simp: nth_append)
  moreover have "i_type y = fst e" "i_nlink y = 1" using h xa by (simp_all add: holds_def e y)
  ultimately show h': "holds V' f y e" using len by (simp add: holds_def e)
  have "owns V' y e = owned_blocks V' x' (nblk (length (snd e0) + length p))" unfolding owned_blocks_def ye e by (simp add: y)
  then show "owns V' y e \<subseteq> owns V x e0 \<union> {b. x0 \<le> b}" using gg by blast
  show "owns V' y e \<subseteq> used f" using alloc_ok_owned h' by (simp add: holds_def)
  show "is_dinode y" using gg by (simp add: is_dinode_def y)
qed

lemma img_inv_grown:
  assumes inv: "img_inv s C" and i: "i < length C" and x: "x = dino (img s) (ino i)"
    and g: "mk_grown (img s) x (freeblock s) (length (snd (C ! i))) V x' f p"
    and len: "length (snd (C ! i)) + length p \<le> MAXFILE * BSIZE"
    and t: "t = s\<lparr>img := put_dino V (ino i) (x'\<lparr>i_size := of_nat (length (snd (C ! i)) + length p)\<rparr>), freeblock := f\<rparr>"
    and e: "e = (fst (C ! i), snd (C ! i) @ p)"
  shows "img_inv t (C[i := e])" and "unat b < 32 \<Longrightarrow> img t b = img s b"
proof -
  let ?c = "snd (C ! i)" and ?y = "x'\<lparr>i_size := of_nat (length (snd (C ! i)) + length p)\<rparr>"
  note a = img_invD [OF inv] and gg = g [unfolded mk_grown_def mk_file_def]
  have n: "j < NINODES" if "j < length C" for j using a(2) that by simp
  have iu: "unat (ino i) < 208" using ino_facts(2) n i by blast
  note h = holds_grown [OF a(6) [OF i, folded x] g len refl e]
  note dp = dino_put [OF h(4) iu]
  have low: "V c = img s c" if "unat c < 46" for c
  proof -
    have "c < freeblock s" "c \<notin> owned_blocks (img s) x (nblk (length ?c))" using that a(3) a(7) [OF i, of c] x by (auto simp: word_less_nat_alt)
    then show ?thesis using gg by blast
  qed
  have same: "dino (img t) (ino j) = dino (img s) (ino j)" if j: "j < length C" "j \<noteq> i" for j
  proof -
    have "unat (iblk (ino j)) < 46" using iblk_small(2) ino_facts(2) n j(1) by (meson less_trans numeral_less_iff semiring_norm)
    then have "dino V (ino j) = dino (img s) (ino j)" using low by (simp add: dino_def)
    then show ?thesis using dp ino_facts(2,3) n j i by (simp add: t)
  qed
  have new: "dino (img t) (ino i) = ?y" using dp [of "ino i"] iu by (simp add: t)
  have hi: "img t c = V c" if "46 \<le> unat c" for c using put_dino_other(1) [OF iu that] by (simp add: t)
  show "unat b < 32 \<Longrightarrow> img t b = img s b" using put_dino_other(2) [OF iu] low by (simp add: t)
  have hN: "holds (img t) f ?y e" "owns (img t) ?y e = owns V ?y e"
    using holds_cong [OF h(1), of "img t" f] hi h(3) by (auto simp: used_def)
  have f: "freeblock t = f" "freeinode t = freeinode s" "mk_ready t" using a(1) by (simp_all add: t)
  show "img_inv t (C[i := e])"
  proof (rule img_inv_change [OF inv i])
    show "\<forall>b \<ge> freeblock t. img t b = (\<lambda>_. 0)"
    proof (intro allI impI)
      fix b assume "b \<ge> freeblock t"
      then have "V b = (\<lambda>_. 0)" "46 \<le> unat b" using gg f(1) by (auto simp: word_le_nat_alt)
      then show "img t b = (\<lambda>_. 0)" using hi by simp
    qed
    show "img t b = img s b" if "46 \<le> unat b" "b < freeblock s" "b \<notin> owns (img s) (dino (img s) (ino i)) (C ! i)" for b
      using that hi gg x by simp
    show "unat (freeblock t) + size_cost (C ! i) = unat (freeblock s) + size_cost e" using gg f(1) e by simp
  qed (use f gg same new hN h(2) x in simp_all)
qed

abbreviation total :: "(u16 \<times> u8 list) list \<Rightarrow> nat" where
  "total C \<equiv> 46 + sum_list (map size_cost C)"

definition grow :: "nat \<Rightarrow> u8 list \<Rightarrow> (u16 \<times> u8 list) list \<Rightarrow> (u16 \<times> u8 list) list" where
  "grow i p C = C[i := (fst (C ! i), snd (C ! i) @ p)]"

text \<open>The blocks before the inodes are left alone.\<close>

definition same_head :: "mkfs \<Rightarrow> mkfs \<Rightarrow> bool" where
  "same_head s t \<longleftrightarrow> (\<forall>b. unat b < 32 \<longrightarrow> img t b = img s b)"

lemma iappend_run:
  assumes inv: "img_inv s C" and i: "i < length C" and len: "length (snd (C ! i)) + length p \<le> MAXFILE * BSIZE"
    and room: "total (grow i p C) \<le> FSSIZE"
  obtains t where "iappend (ino i) p s = Done () t" and "img_inv t (grow i p C)" and "same_head s t"
proof -
  let ?c = "snd (C ! i)" and ?x = "dino (img s) (ino i)"
  note a = img_invD [OF inv]
  have iu: "unat (ino i) < 208" using ino_facts(2) a(2) i by simp
  have h: "holds (img s) (freeblock s) ?x (C ! i)" using a(6) i by blast
  have sz: "unat (i_size ?x) = length ?c" using h by (simp add: holds_def)
  then have off: "i_size ?x = of_nat (length ?c)" by (simp flip: sz)
  have fil: "mk_file (img s) ?x (freeblock s) (unat (i_size ?x))"
    using h a dino_is_dinode unfolding mk_file_def sz by (simp add: holds_def)
  have "unat (freeblock s) + cost (nblk (length ?c + length p)) \<le> FSSIZE + size_cost (C ! i)"
    using room sum_list_update_add [OF i, of size_cost "(fst (C ! i), ?c @ p)"] inv by (simp add: img_inv_def grow_def)
  from iappend_loop_run [OF a(1) fil len [folded sz] this [folded sz]]
  obtain V x' f where w: "iappend_loop ?x (i_size ?x) p s = Done (x', i_size ?x + of_nat (length p)) (s\<lparr>img := V, freeblock := f\<rparr>)"
    "mk_grown (img s) ?x (freeblock s) (length ?c) V x' f p" unfolding sz by blast
  let ?t = "s\<lparr>img := put_dino V (ino i) (x'\<lparr>i_size := of_nat (length ?c + length p)\<rparr>), freeblock := f\<rparr>"
  have "mk_ready (s\<lparr>img := V, freeblock := f\<rparr>)" using a(1) by simp
  note wi = winode_run [OF this iu]
  have "s\<lparr>img := V, freeblock := f, img := W\<rparr> = s\<lparr>img := W, freeblock := f\<rparr>" for W by (cases s) simp
  then have "iappend (ino i) p s = Done () ?t"
    using w(1) wi by (simp add: iappend_def kbind_run rinode_run [OF a(1) iu] off)
  then show thesis
    using that img_inv_grown [OF inv i refl w(2) len refl refl] by (auto simp: grow_def same_head_def)
qed

lemma alloc_ok_zero: "alloc_ok V (zero_dinode\<lparr>i_type := ty, i_nlink := l, i_size := z\<rparr>) 0 f"
  by (simp add: alloc_ok_def zero_dinode_def block_of_def)

lemma mk_ialloc_run:
  assumes inv: "img_inv s C" and len: "Suc (length C) < NINODES"
  obtains t where "mk_ialloc ty s = Done (ino (length C)) t" and "img_inv t (C @ [(ty, [])])" and "same_head s t"
proof -
  let ?x = "zero_dinode\<lparr>i_type := ty, i_nlink := 1, i_size := 0\<rparr>" and ?i = "ino (length C)"
  let ?V = "put_dino (img s) ?i ?x"
  let ?t = "s\<lparr>freeinode := freeinode s + 1, img := ?V\<rparr>"
  note a = img_invD [OF inv]
  have iu: "unat ?i < 208" using ino_facts(2) len by simp
  have fi: "freeinode s = ?i" "freeinode s + 1 = ino (Suc (length C))" using inv by (simp_all add: img_inv_def ino_def)
  have "mk_ready (s\<lparr>freeinode := freeinode s + 1\<rparr>)" using a(1) by simp
  from winode_run [OF this iu, of ?x] have run: "mk_ialloc ty s = Done ?i ?t"
    by (simp add: mk_ialloc_def kbind_run kseq_run fi(1))
  have dn: "dino ?V ?i = ?x" "j < length C \<Longrightarrow> dino ?V (ino j) = dino (img s) (ino j)" for j
    using dino_put [OF _ iu, of ?x] iu ino_facts(2,3) len by (auto simp: is_dinode_def zero_dinode_def)
  have hi: "?V b = img s b" if "46 \<le> unat b" for b using put_dino_other(1) [OF iu that] .
  have old: "holds ?V (freeblock s) (dino ?V (ino j)) (C ! j)" "owns ?V (dino ?V (ino j)) (C ! j) = owns (img s) (dino (img s) (ino j)) (C ! j)"
    if j: "j < length C" for j
    using holds_cong [OF a(6) [OF j], of ?V "freeblock s"] a(7) [OF j] hi dn(2) [OF j] by auto
  have new: "holds ?V (freeblock s) ?x (ty, [])" "owns ?V ?x (ty, []) = {}"
    using alloc_ok_zero by (simp_all add: holds_def nblk_def owned_blocks_def)
  have z: "\<forall>b \<ge> freeblock s. ?V b = (\<lambda>_. 0)" using a(3,5) hi by (simp add: word_le_nat_alt)
  have "img_inv ?t (C @ [(ty, [])])"
    using inv len fi(2) z old new dn(1) a(8) by (auto simp: img_inv_def nth_append less_Suc_eq nblk_def cost_def)
  then show thesis using that run put_dino_other(2) [OF iu] by (simp add: same_head_def)
qed

lemma same_head_trans: "same_head s t \<Longrightarrow> same_head t u \<Longrightarrow> same_head s u"
  by (simp add: same_head_def)

lemma grow_facts:
  assumes "i < length C"
  shows "length (grow i p C) = length C" and "grow i p C ! i = (fst (C ! i), snd (C ! i) @ p)" and "grow i q (grow i p C) = grow i (p @ q) C"
    and "total C \<le> total (grow i p C)" and "j \<noteq> i \<Longrightarrow> grow i p C ! j = C ! j" and "grow i [] C = C"
proof -
  show "length (grow i p C) = length C" "grow i p C ! i = (fst (C ! i), snd (C ! i) @ p)" "grow i q (grow i p C) = grow i (p @ q) C"
    "j \<noteq> i \<Longrightarrow> grow i p C ! j = C ! j" "grow i [] C = C"
    using assms by (simp_all add: grow_def)
  have "size_cost (C ! i) \<le> size_cost (fst (C ! i), snd (C ! i) @ p)" by (simp add: cost_mono nblk_mono)
  then show "total C \<le> total (grow i p C)"
    using sum_list_update_add [OF assms, of size_cost "(fst (C ! i), snd (C ! i) @ p)"] by (simp add: grow_def)
qed

lemma append_file_run:
  assumes "img_inv s C" and "i < length C" and "length (snd (C ! i)) + length c \<le> MAXFILE * BSIZE" and "total (grow i c C) \<le> FSSIZE"
  shows "\<exists>t. append_file (ino i) c s = Done () t \<and> img_inv t (grow i c C) \<and> same_head s t"
  using assms
proof (induction "length c" arbitrary: s C c rule: less_induct)
  case less
  show ?case
  proof (cases "c = []")
    case True
    then show ?thesis using less.prems grow_facts(6) by (simp add: append_file.simps same_head_def)
  next
    case False
    let ?p = "take BSIZE c" and ?q = "drop BSIZE c"
    note g = grow_facts [OF less.prems(2)]
    have pq: "grow i ?q (grow i ?p C) = grow i c C" using g(3) by simp
    have il: "i < length (grow i ?p C)" using less.prems(2) g(1) by simp
    have "total (grow i ?p C) \<le> FSSIZE" using grow_facts(4) [OF il, of ?q] less.prems(4) pq by simp
    moreover have "length (snd (C ! i)) + length ?p \<le> MAXFILE * BSIZE" using less.prems(3) by simp
    ultimately obtain u where u: "iappend (ino i) ?p s = Done () u" "img_inv u (grow i ?p C)" "same_head s u"
      using iappend_run [OF less.prems(1,2)] by blast
    have sh: "length ?q < length c" "length (snd (grow i ?p C ! i)) + length ?q \<le> MAXFILE * BSIZE"
      using False less.prems(3) g(2) by (simp_all add: min_def)
    obtain t where "append_file (ino i) ?q u = Done () t" "img_inv t (grow i c C)" "same_head u t"
      using less.hyps [OF sh(1) u(2) il sh(2)] less.prems(4) pq by auto
    then show ?thesis using u False same_head_trans by (subst append_file.simps) (auto simp: kseq_run)
  qed
qed

text \<open>The name of a file in the root directory, and the files after one more argument.\<close>

definition entry_name :: "u8 list \<Rightarrow> u8 list" where
  "entry_name arg = (let name = shortname arg in if str_hd name = 95 then tl name else name)"

definition mk_add :: "(u16 \<times> u8 list) list \<Rightarrow> mkfs_arg \<Rightarrow> (u16 \<times> u8 list) list" where
  "mk_add C a = grow 0 (de_make (of_nat (Suc (length C))) (entry_name (fst a))) C @ [(T_FILE, the (snd a))]"

definition arg_ok :: "mkfs_arg \<Rightarrow> bool" where
  "arg_ok a \<longleftrightarrow> 47 \<notin> set (shortname (fst a)) \<and> (\<exists>c. snd a = Some c \<and> length c \<le> MAXFILE * BSIZE)"

lemma mk_add_facts:
  assumes "C \<noteq> []"
  shows "length (mk_add C a) = Suc (length C)" and "total C \<le> total (mk_add C a)" and "mk_add C a \<noteq> []"
    and "length (snd (mk_add C a ! 0)) = length (snd (C ! 0)) + 16"
  using grow_facts(1,2,4) [of 0 C] assms by (simp_all add: mk_add_def nth_append length_de_make trans_le_add1)

lemma add_file_run:
  assumes inv: "img_inv s C" and ne: "C \<noteq> []" and a: "arg_ok a" and len: "Suc (length C) < NINODES"
    and dir: "length (snd (C ! 0)) + 16 \<le> MAXFILE * BSIZE" and room: "total (mk_add C a) \<le> FSSIZE"
  obtains t where "add_file 1 a s = Done () t" and "img_inv t (mk_add C a)" and "same_head s t"
proof -
  obtain c where c: "snd a = Some c" "length c \<le> MAXFILE * BSIZE" "47 \<notin> set (shortname (fst a))" using a by (auto simp: arg_ok_def)
  let ?D = "C @ [(T_FILE, [])]" and ?de = "de_make (of_nat (Suc (length C))) (entry_name (fst a))" and ?n = "length C"
  let ?E = "grow 0 ?de ?D"
  obtain t1 where t1: "mk_ialloc T_FILE s = Done (ino ?n) t1" "img_inv t1 ?D" "same_head s t1" by (rule mk_ialloc_run [OF inv len])
  have E: "?E = grow 0 ?de C @ [(T_FILE, [])]" "grow ?n c ?E = mk_add C a" "?n < length ?E" "?E ! ?n = (T_FILE, [])"
    using ne grow_facts(1) [of 0 C ?de] c(1) by (auto simp: grow_def mk_add_def nth_append list_update_append)
  have "total ?E \<le> FSSIZE" using grow_facts(4) [OF E(3), of c] room E(2) by simp
  then obtain t2 where t2: "iappend (ino 0) ?de t1 = Done () t2" "img_inv t2 ?E" "same_head t1 t2"
    using iappend_run [OF t1(2), of 0 ?de] dir ne by (auto simp: nth_append length_de_make)
  obtain t3 where t3: "append_file (ino ?n) c t2 = Done () t3" "img_inv t3 (mk_add C a)" "same_head t2 t3"
    using append_file_run [OF t2(2) E(3), of c] c(2) room E(2,4) by auto
  have "ucast (ino ?n) = (of_nat (Suc ?n) :: u16)" using len by (simp add: ino_def unsigned_of_nat take_bit_nat_eq_self del: of_nat_Suc)
  then have "add_file 1 a s = Done () t3"
    using c t1(1) t2(1) t3(1) unfolding add_file_def Let_def entry_name_def by (simp add: kbind_run kseq_run ino_def [of 0])
  then show thesis using that t3(2) t1(3) t2(3) t3(3) same_head_trans by blast
qed

lemma total_foldl: "D \<noteq> [] \<Longrightarrow> total D \<le> total (foldl mk_add D fs)"
proof (induction fs arbitrary: D)
  case (Cons a fs)
  show ?case using order_trans [OF mk_add_facts(2) [OF Cons.prems] Cons.IH [OF mk_add_facts(3) [OF Cons.prems]]] by simp
qed simp

lemma add_files_run:
  assumes "img_inv s C" and "C \<noteq> []" and "\<forall>a \<in> set fs. arg_ok a" and "length C + length fs < NINODES"
    and "length (snd (C ! 0)) + 16 * length fs \<le> MAXFILE * BSIZE" and "total (foldl mk_add C fs) \<le> FSSIZE"
  shows "\<exists>t. kfor fs (add_file 1) s = Done () t \<and> img_inv t (foldl mk_add C fs) \<and> same_head s t"
  using assms
proof (induction fs arbitrary: s C)
  case Nil
  then show ?case by (simp add: same_head_def)
next
  case (Cons a fs)
  note f = mk_add_facts [OF Cons.prems(2), of a]
  have "total (mk_add C a) \<le> FSSIZE" using total_foldl [OF f(3), of fs] Cons.prems(6) by simp
  then obtain u where u: "add_file 1 a s = Done () u" "img_inv u (mk_add C a)" "same_head s u"
    using add_file_run [OF Cons.prems(1,2), of a] Cons.prems(3,4,5) by auto
  obtain t where "kfor fs (add_file 1) u = Done () t" "img_inv t (foldl mk_add (mk_add C a) fs)" "same_head u t"
    using Cons.IH [OF u(2) f(3)] Cons.prems(3-6) f(1,4) by auto
  then show ?case using u same_head_trans by (auto simp: kseq_run)
qed

primrec dir_entries :: "nat \<Rightarrow> mkfs_arg list \<Rightarrow> u8 list" where
  "dir_entries n [] = []"
| "dir_entries n (a # as) = de_make (of_nat n) (entry_name (fst a)) @ dir_entries (Suc n) as"

lemma foldl_mk_add:
  "foldl mk_add ((ty, d) # F) fs = (ty, d @ dir_entries (length F + 2) fs) # F @ map (\<lambda>a. (T_FILE, the (snd a))) fs"
  by (induction fs arbitrary: d F) (simp_all add: mk_add_def grow_def)

text \<open>Root directory and files.\<close>

definition mk_files :: "mkfs_arg list \<Rightarrow> (u16 \<times> u8 list) list" where
  "mk_files fs = (T_DIR, de_make 1 [46] @ de_make 1 [46, 46] @ dir_entries 2 fs) # map (\<lambda>a. (T_FILE, the (snd a))) fs"

lemma zero_sectors:
  assumes "img s = (\<lambda>_ _. 0)" and "img_len s = 0" and "n \<le> FSSIZE"
  shows "kfor [0..<n] (\<lambda>i. wsect (of_nat i) (\<lambda>_. 0)) s = Done () (s\<lparr>img_len := n\<rparr>)"
  using assms(3)
proof (induction n)
  case 0
  then show ?case using assms(2) by simp
next
  case (Suc n)
  have "unat (of_nat n :: u32) = n" using Suc.prems by (simp add: unat_of_nat)
  then have "wsect (of_nat n) (\<lambda>_. 0) (s\<lparr>img_len := n\<rparr>) = Done () (s\<lparr>img_len := Suc n\<rparr>)"
    using Suc.prems assms(1) by (cases s) (simp add: wsect_def sect_pos_small fun_upd_idem)
  then show ?case using Suc by (simp add: kfor_append kseq_run)
qed

lemma bitmap_fold:
  assumes "n \<le> BPB" and "j < BPB"
  shows "bitmap_free (fold (\<lambda>i d. bitmap_mark d i) [0..<n] d) j \<longleftrightarrow> n \<le> j \<and> bitmap_free d j"
  using assms by (induction n) (auto simp: bitmap_free_mark)

lemma sb_store_read:
  "map (read32 (sb_store b)) [0, 4, 8, 12, 16, 20, 24, 28]
    = [sb_magic b, sb_size b, sb_nblocks b, sb_ninodes b, sb_nlog b, sb_logstart b, sb_inodestart b, sb_bmapstart b]"
proof -
  have "read32 (write32 m j v) i = read32 m i" if "unat i + 4 \<le> unat j \<or> unat j + 4 \<le> unat i" "unat i < 100" "unat j < 100" for i j m v
  proof -
    have "read32 (write32 m (0 + of_nat (unat j)) v) (0 + of_nat (unat i)) = read32 m (0 + of_nat (unat i))"
      using that by (intro read_write_apart) auto
    then show ?thesis by simp
  qed
  then show ?thesis by (simp add: sb_store_def)
qed

subsection \<open>main\<close>

text \<open>The image and the tables when the root directory is about to be made.\<close>

definition mk_start :: mkfs where
  "mk_start = \<lparr>img = (\<lambda>_ _. 0)(1 := sb_store mk_sb), img_len = FSSIZE, fs_sb = mk_sb, freeinode = 1, freeblock = 46\<rparr>"

lemma mk_start_inv: "img_inv mk_start []"
  by (simp add: img_inv_def mk_start_def mk_ready_def ino_def word_le_nat_alt)

lemma mkfs_main_start:
  "mkfs_main (Some True) fs mkfs_init =
    kbind (mk_ialloc T_DIR) (\<lambda>rootino.
      if rootino \<noteq> ROOTINO then kpanic ''assert''
      else kseq (iappend rootino (de_make (ucast rootino) [46]))
        (kseq (iappend rootino (de_make (ucast rootino) [46, 46]))
        (kseq (kfor fs (add_file rootino))
        (kbind (rinode rootino) (\<lambda>din.
          kseq (winode rootino (din\<lparr>i_size := (i_size din div 1024 + 1) * 1024\<rparr>))
          (kbind (kget freeblock) (\<lambda>f. mk_balloc (sint f)))))))) mk_start"
proof -
  let ?s = "mkfs_init\<lparr>img := (\<lambda>_ _. 0), img_len := 0, fs_sb := mk_sb, freeblock := 46\<rparr>"
  have sz: "nlog = 30" "ninodeblocks = 13" "nbitmap = 1" by (simp_all add: nlog_def LOGSIZE_def MAXOPBLOCKS_def ninodeblocks_def nbitmap_def)
  have z: "kfor [0..<FSSIZE] (\<lambda>i. wsect (of_nat i) (\<lambda>_. 0)) ?s = Done () (?s\<lparr>img_len := FSSIZE\<rparr>)"
    by (rule zero_sectors) simp_all
  have "wsect 1 (sb_store mk_sb) (?s\<lparr>img_len := FSSIZE\<rparr>) = Done () mk_start"
    by (subst wsect_run) (simp_all add: mk_ready_def mk_start_def mkfs_init_def)
  then show ?thesis
    unfolding mkfs_main_def option.case Let_def sz xint_id xshort_id
    by (simp add: kseq_run mk_sb_def [symmetric] z del: upt_conv_Cons)
qed

text \<open>The files are on the image before the size of the root directory is rounded up.\<close>

lemma mkfs_files_run:
  assumes ok: "\<forall>a \<in> set fs. arg_ok a" and len: "Suc (length fs) < NINODES" and room: "total (mk_files fs) \<le> FSSIZE"
  obtains t where "img_inv t (mk_files fs)" and "same_head mk_start t"
    and "mkfs_main (Some True) fs mkfs_init =
      (kbind (rinode 1) (\<lambda>din. kseq (winode 1 (din\<lparr>i_size := (i_size din div 1024 + 1) * 1024\<rparr>))
          (kbind (kget freeblock) (\<lambda>f. mk_balloc (sint f))))) t"
proof -
  let ?a = "de_make 1 [46]" and ?b = "de_make 1 [46, 46]"
  obtain t1 where t1: "mk_ialloc T_DIR mk_start = Done (ino 0) t1" "img_inv t1 [(T_DIR, [])]" "same_head mk_start t1"
    using mk_ialloc_run [OF mk_start_inv, of T_DIR] by auto
  have i0: "ino 0 = 1" by (simp add: ino_def)
  have c: "size_cost (T_DIR, p) \<le> 1" if "length p \<le> 32" for p using that nblk_bound(2) [of "length p" 1] by (simp add: cost_def)
  obtain t2 where t2: "iappend 1 ?a t1 = Done () t2" "img_inv t2 [(T_DIR, ?a)]" "same_head t1 t2"
    using iappend_run [OF t1(2), of 0 ?a] c [of ?a] by (auto simp: i0 grow_def length_de_make)
  obtain t3 where t3: "iappend 1 ?b t2 = Done () t3" "img_inv t3 [(T_DIR, ?a @ ?b)]" "same_head t2 t3"
    using iappend_run [OF t2(2), of 0 ?b] c [of "?a @ ?b"] by (auto simp: i0 grow_def length_de_make)
  have fm: "foldl mk_add [(T_DIR, ?a @ ?b)] fs = mk_files fs" by (simp add: foldl_mk_add mk_files_def numeral_2_eq_2)
  obtain t where t: "kfor fs (add_file 1) t3 = Done () t" "img_inv t (mk_files fs)" "same_head t3 t"
    using add_files_run [OF t3(2) _ ok] len room by (auto simp: fm length_de_make)
  have "same_head mk_start t" using t1(3) t2(3) t3(3) t(3) by (simp add: same_head_def)
  moreover note that [OF t(2) this]
  ultimately show thesis
    using t1(1) t2(1) t3(1) t(1) unfolding mkfs_main_start i0 by (simp add: kbind_run kseq_run)
qed

text \<open>
  On the image, inode \<open>inum\<close> is a file of type \<open>fst e\<close> with one link and \<open>n\<close> bytes, the first of which, in blocks in use, are
  \<open>snd e\<close>.
\<close>

definition stored :: "(u32 \<Rightarrow> bytes) \<Rightarrow> u32 \<Rightarrow> u32 \<Rightarrow> nat \<Rightarrow> u16 \<times> u8 list \<Rightarrow> bool" where
  "stored V f inum n e \<longleftrightarrow> (let x = dino V inum in i_type x = fst e \<and> i_nlink x = 1 \<and> unat (i_size x) = n
     \<and> mapped V x (nblk (length (snd e))) \<and> owns V x e \<subseteq> used f \<and> map (file_byte V x) [0..<length (snd e)] = snd e)"

text \<open>Rounding up the root directory and writing the bitmap leave all files in place.\<close>

lemma image_finished:
  assumes inv: "img_inv s C" and i: "i < length C" and f: "f = freeblock s" and x: "x = dino (img s) 1"
    and W: "W = (put_dino (img s) 1 (x\<lparr>i_size := z\<rparr>))(45 := bm)"
  shows "stored W f (ino i) (if i = 0 then unat z else length (snd (C ! i))) (C ! i)"
    and "owns W (dino W (ino i)) (C ! i) = owns (img s) (dino (img s) (ino i)) (C ! i)"
proof -
  note a = img_invD [OF inv]
  have i0: "ino 0 = 1" by (simp add: ino_def)
  have iu: "unat (ino j) < 208" if "j < length C" for j using ino_facts(2) a(2) that by simp
  have hi: "W b = img s b" if "46 \<le> unat b" for b using that put_dino_other(1) [of 1 b] by (auto simp: W)
  have ne: "iblk (ino i) \<noteq> 45" using iblk_small(2) [OF iu [OF i]] by auto
  have dx: "is_dinode (x\<lparr>i_size := z\<rparr>)" using dino_is_dinode [of "img s" 1] by (simp add: x is_dinode_def)
  have "dino W (ino i) = dino (put_dino (img s) 1 (x\<lparr>i_size := z\<rparr>)) (ino i)" using ne by (simp add: W dino_def)
  then have dw: "dino W (ino i) = (if i = 0 then x\<lparr>i_size := z\<rparr> else dino (img s) (ino i))"
    using dino_put [OF dx, of 1 "ino i"] iu [OF i] ino_facts(3) [of i 0] a(2) i i0 by auto
  let ?y = "dino (img s) (ino i)" and ?w = "dino W (ino i)"
  have y: "i_addrs ?w = i_addrs ?y" "i_type ?w = i_type ?y" "i_nlink ?w = i_nlink ?y" using dw x i0 by auto
  note e = file_data_cong [OF y(1)]
  have h: "holds W f ?y (C ! i)" and o: "owns W ?y (C ! i) = owns (img s) ?y (C ! i)"
    using holds_cong [OF a(6) [OF i], of W f] a(7) [OF i] hi f by auto
  have ow: "owns W ?w (C ! i) = owns W ?y (C ! i)" unfolding owned_blocks_def e y(1) ..
  then show "owns W ?w (C ! i) = owns (img s) ?y (C ! i)" using o by simp
  have "mapped W ?y (nblk (length (snd (C ! i))))" "owns W ?y (C ! i) \<subseteq> used f"
    using h a(4) f alloc_ok_mapped alloc_ok_owned by (auto simp: holds_def)
  moreover have "map (file_byte W ?y) [0..<length (snd (C ! i))] = snd (C ! i)"
    using h by (intro nth_equalityI) (auto simp: holds_def)
  moreover have "unat (i_size ?w) = (if i = 0 then unat z else length (snd (C ! i)))" using h dw by (simp add: holds_def)
  ultimately show "stored W f (ino i) (if i = 0 then unat z else length (snd (C ! i))) (C ! i)"
    using h unfolding stored_def Let_def e ow y(2,3) by (simp add: holds_def)
qed

lemma mkfs_finish:
  assumes inv: "img_inv s C" and z: "z = (i_size (dino (img s) 1) div 1024 + 1) * 1024"
    and bm: "bm = fold (\<lambda>i d. bitmap_mark d i) [0..<unat (freeblock s)] (\<lambda>_. 0)"
  shows "(kbind (rinode 1) (\<lambda>din. kseq (winode 1 (din\<lparr>i_size := (i_size din div 1024 + 1) * 1024\<rparr>))
      (kbind (kget freeblock) (\<lambda>f. mk_balloc (sint f))))) s
    = Done () (s\<lparr>img := (put_dino (img s) 1 ((dino (img s) 1)\<lparr>i_size := z\<rparr>))(45 := bm)\<rparr>)"
proof -
  note a = img_invD [OF inv]
  let ?u = "s\<lparr>img := put_dino (img s) 1 ((dino (img s) 1)\<lparr>i_size := z\<rparr>)\<rparr>" and ?f = "freeblock s"
  have sf: "sint ?f = int (unat ?f)" using sint_small [of "unat ?f"] a(4) by simp
  have u: "mk_ready ?u" "fs_sb ?u = mk_sb" "sb_bmapstart mk_sb = 45" using a(1) by (simp_all add: mk_ready_sb mk_sb_def)
  have "\<not> int (unat ?f) \<ge> int (BSIZE * 8)" using a(4) by linarith
  then have "mk_balloc (int (unat ?f)) ?u = wsect 45 bm ?u"
    by (simp only: mk_balloc_def if_False kbind_run kget_run outcome.case nat_int u(2,3) bm)
  also have "\<dots> = Done () (s\<lparr>img := (put_dino (img s) 1 ((dino (img s) 1)\<lparr>i_size := z\<rparr>))(45 := bm)\<rparr>)"
    using wsect_run [OF u(1), of 45 bm] by simp
  finally show ?thesis
    using a(1) by (simp add: kbind_run kseq_run rinode_run winode_run sf z [symmetric] del: of_nat_unat distrib_right_numeral)
qed

subsection \<open>Property\<close>

text \<open>
  C14 (roundtrip). The image that \<open>mkfs\<close> makes is a file system for the kernel: block 1 holds the super block that \<open>readsb\<close> reads; inode 1
  is the root directory, with the entries \<open>.\<close> and \<open>..\<close> and one entry for each argument; inode \<open>i + 2\<close> is a file with the bytes
  of argument \<open>i\<close>, found through its direct and indirect blocks as \<open>bmap\<close> and \<open>readi\<close> find them; no two files share
  a block, and the bitmap marks exactly the blocks below the first unused one, so all blocks of all files. The root
  directory's size is rounded up past its entries to the next block, also when it already ends at one.
\<close>

theorem mkfs_image:
  assumes "\<forall>a \<in> set fs. arg_ok a" and "Suc (length fs) < NINODES" and "total (mk_files fs) \<le> FSSIZE"
  shows "\<exists>t. mkfs_main (Some True) fs mkfs_init = Done () t
    \<and> map (read32 (img t 1)) [0, 4, 8, 12, 16, 20, 24, 28] = [FSMAGIC, 2000, 1954, 200, 30, 2, 32, 45]
    \<and> unat (freeblock t) = total (mk_files fs) \<and> (\<forall>b < BPB. bitmap_free (img t 45) b \<longleftrightarrow> unat (freeblock t) \<le> b)
    \<and> (\<forall>i < length (mk_files fs). stored (img t) (freeblock t) (ino i)
         (if i = 0 then (length (snd (mk_files fs ! 0)) div BSIZE + 1) * BSIZE else length (snd (mk_files fs ! i))) (mk_files fs ! i))
    \<and> (\<forall>i < length (mk_files fs). \<forall>j < length (mk_files fs). i \<noteq> j \<longrightarrow>
         owns (img t) (dino (img t) (ino i)) (mk_files fs ! i) \<inter> owns (img t) (dino (img t) (ino j)) (mk_files fs ! j) = {})"
proof -
  let ?C = "mk_files fs"
  obtain s where s: "img_inv s ?C" "same_head mk_start s" and run: "mkfs_main (Some True) fs mkfs_init =
      (kbind (rinode 1) (\<lambda>din. kseq (winode 1 (din\<lparr>i_size := (i_size din div 1024 + 1) * 1024\<rparr>))
          (kbind (kget freeblock) (\<lambda>f. mk_balloc (sint f))))) s"
    by (rule mkfs_files_run [OF assms])
  note a = img_invD [OF s(1)]
  define z where "z = (i_size (dino (img s) 1) div 1024 + 1) * 1024"
  define bm where "bm = fold (\<lambda>i d. bitmap_mark d i) [0..<unat (freeblock s)] (\<lambda>_. 0)"
  define t where "t = s\<lparr>img := (put_dino (img s) 1 ((dino (img s) 1)\<lparr>i_size := z\<rparr>))(45 := bm)\<rparr>"
  have main: "mkfs_main (Some True) fs mkfs_init = Done () t" using run mkfs_finish [OF s(1) z_def bm_def] by (simp only: t_def)
  have i0: "ino 0 = 1" "0 < length ?C" by (simp_all add: ino_def mk_files_def)
  have "unat (i_size (dino (img s) 1)) = length (snd (?C ! 0))" "length (snd (?C ! 0)) \<le> MAXFILE * BSIZE"
    using a(6) [OF i0(2)] by (simp_all add: holds_def i0)
  then have z: "unat z = (length (snd (?C ! 0)) div BSIZE + 1) * BSIZE"
    by (simp add: z_def unat_word_ariths unat_div)
  have ft: "freeblock t = freeblock s" "img t = (put_dino (img s) 1 ((dino (img s) 1)\<lparr>i_size := z\<rparr>))(45 := bm)" by (simp_all add: t_def)
  note im = image_finished [OF s(1) _ ft(1) refl ft(2), unfolded z]
  have "img t 1 = sb_store mk_sb" using s(2) put_dino_other(2) [of 1 1] by (simp add: same_head_def mk_start_def t_def)
  then have "map (read32 (img t 1)) [0, 4, 8, 12, 16, 20, 24, 28] = [FSMAGIC, 2000, 1954, 200, 30, 2, 32, 45]"
    using sb_store_read [of mk_sb] by (simp add: mk_sb_def)
  moreover have "unat (freeblock t) = total ?C" using s(1) by (simp add: img_inv_def t_def)
  moreover have "\<forall>b < BPB. bitmap_free (img t 45) b \<longleftrightarrow> unat (freeblock t) \<le> b"
    using bitmap_fold [of "unat (freeblock s)" _ "\<lambda>_. 0"] a(4) by (simp add: t_def bm_def bitmap_free_bit)
  moreover have "owns (img t) (dino (img t) (ino i)) (?C ! i) \<inter> owns (img t) (dino (img t) (ino j)) (?C ! j) = {}"
    if ij: "i < length ?C" "j < length ?C" "i \<noteq> j" for i j
    using a(8) [OF ij] im(2) [OF ij(1)] im(2) [OF ij(2)] by blast
  ultimately show ?thesis using main im(1) by (intro exI [of _ t]) simp
qed

theorem mkfs_image_witness:
  "\<exists>t. mkfs_main (Some True) [([117, 115, 101, 114, 47, 95, 97], Some [7, 8])] mkfs_init = Done () t \<and> unat (freeblock t) = 48
     \<and> unat (i_size (dino (img t) 1)) = 1024 \<and> map (file_byte (img t) (dino (img t) 2)) [0..<2] = [7, 8]"
proof -
  let ?fs = "[([117, 115, 101, 114, 47, 95, 97], Some [7, 8])] :: mkfs_arg list"
  have C: "mk_files ?fs = [(T_DIR, de_make 1 [46] @ de_make 1 [46, 46] @ de_make 2 (entry_name [117, 115, 101, 114, 47, 95, 97])), (T_FILE, [7, 8])]"
    by (simp add: mk_files_def)
  have l: "length (snd (mk_files ?fs ! 0)) = 48" "mk_files ?fs ! Suc 0 = (T_FILE, [7, 8])" "length (mk_files ?fs) = 2"
    by (simp_all add: C length_de_make)
  have tot: "total (mk_files ?fs) = 48" by (simp add: C length_de_make nblk_def cost_def)
  have n: "strncmp_str 5 [117, 115, 101, 114, 47, 95, 97] user_dir = 0" by (simp add: user_dir_def numeral_nat)
  have "\<forall>a \<in> set ?fs. arg_ok a" by (simp add: arg_ok_def shortname_def n)
  then obtain t where t: "mkfs_main (Some True) ?fs mkfs_init = Done () t" "unat (freeblock t) = total (mk_files ?fs)"
    "\<And>i. i < length (mk_files ?fs) \<Longrightarrow> stored (img t) (freeblock t) (ino i)
       (if i = 0 then (length (snd (mk_files ?fs ! 0)) div BSIZE + 1) * BSIZE else length (snd (mk_files ?fs ! i))) (mk_files ?fs ! i)"
    using mkfs_image [of ?fs] tot by auto
  have "ino 0 = 1" "ino 1 = 2" by (simp_all add: ino_def)
  then show ?thesis using t(1,2) t(3) [of 0] t(3) [of 1] l tot by (auto simp: stored_def Let_def numeral_2_eq_2)
qed

end
