(* ===== verification/Grep.thy ===== *)
theory Grep
  imports Kernel_Prelude
begin

text \<open>
  \<^verbatim>\<open>user/grep.c\<close>: the regular-expression matcher and the loop that splits the input into lines. A C string is
  the list of its bytes without the terminating zero. The properties: the matcher decides the language of
  the pattern, and the program prints exactly the matching lines, however \<open>read\<close> cuts the input into pieces.
\<close>

subsection \<open>The matcher\<close>

abbreviation (input) ch_caret :: u8 where "ch_caret \<equiv> 94"
abbreviation (input) ch_dollar :: u8 where "ch_dollar \<equiv> 36"
abbreviation (input) ch_star :: u8 where "ch_star \<equiv> 42"
abbreviation (input) ch_dot :: u8 where "ch_dot \<equiv> 46"
abbreviation (input) ch_newline :: u8 where "ch_newline \<equiv> 10"

text \<open>\<open>re[1]\<close> of a non-empty string is its second byte, or the zero at its end.\<close>

function matchhere :: "u8 list \<Rightarrow> u8 list \<Rightarrow> bool"
  and matchstar :: "u8 \<Rightarrow> u8 list \<Rightarrow> u8 list \<Rightarrow> bool" where
  "matchhere re str =
     (case re of [] \<Rightarrow> True
      | c # rs \<Rightarrow>
          if rs \<noteq> [] \<and> hd rs = ch_star then matchstar c (tl rs) str
          else if c = ch_dollar \<and> rs = [] then str = []
          else case str of [] \<Rightarrow> False
            | t # ts \<Rightarrow> if c = ch_dot \<or> c = t then matchhere rs ts else False)"
| "matchstar c re str =
     (if matchhere re str then True
      else case str of [] \<Rightarrow> False
        | t # ts \<Rightarrow> if t = c \<or> c = ch_dot then matchstar c re ts else False)"
  by pat_completeness auto
termination
  by (relation "measure (\<lambda>x. case x of
        Inl (re, str) \<Rightarrow> 2 * (length re + length str)
      | Inr (c, re, str) \<Rightarrow> 2 * (length re + length str) + 1)") auto

declare matchhere.simps [simp del] matchstar.simps [simp del]

text \<open>The loop \<open>do { ... } while(*str++ != 0)\<close>.\<close>

primrec match_from :: "u8 list \<Rightarrow> u8 list \<Rightarrow> bool" where
  "match_from re [] = matchhere re []"
| "match_from re (t # ts) = (if matchhere re (t # ts) then True else match_from re ts)"

definition match :: "u8 list \<Rightarrow> u8 list \<Rightarrow> bool" where
  "match re str =
     (if re \<noteq> [] \<and> hd re = ch_caret then matchhere (tl re) str else match_from re str)"

subsection \<open>The language of a pattern\<close>

datatype item = One u8 | Star u8

definition fits :: "u8 \<Rightarrow> u8 \<Rightarrow> bool" where
  "fits c t \<longleftrightarrow> c = ch_dot \<or> c = t"

text \<open>The items of a pattern and whether it ends in the anchor \<open>$\<close>.\<close>

fun items :: "u8 list \<Rightarrow> item list \<times> bool" where
  "items [] = ([], False)"
| "items [c] = (if c = ch_dollar then ([], True) else ([One c], False))"
| "items (c # d # re) =
     (if d = ch_star then case items re of (is, e) \<Rightarrow> (Star c # is, e)
      else case items (d # re) of (is, e) \<Rightarrow> (One c # is, e))"

fun denotes :: "item list \<Rightarrow> u8 list \<Rightarrow> bool" where
  "denotes [] w \<longleftrightarrow> w = []"
| "denotes (One c # is) w \<longleftrightarrow> (\<exists>t v. w = t # v \<and> fits c t \<and> denotes is v)"
| "denotes (Star c # is) w \<longleftrightarrow> (\<exists>u v. w = u @ v \<and> list_all (fits c) u \<and> denotes is v)"

text \<open>A prefix of the text, or with the end anchor all of it, is in the language.\<close>

definition prefix_in :: "u8 list \<Rightarrow> u8 list \<Rightarrow> bool" where
  "prefix_in re str \<longleftrightarrow> (\<exists>w v. str = w @ v \<and> denotes (fst (items re)) w \<and> (snd (items re) \<longrightarrow> v = []))"

lemma prefix_in_Nil: "prefix_in [] str"
  by (auto simp: prefix_in_def)

lemma prefix_in_dollar: "prefix_in [ch_dollar] str \<longleftrightarrow> str = []"
  by (auto simp: prefix_in_def)

lemma prefix_in_one:
  assumes "rs \<noteq> [] \<longrightarrow> hd rs \<noteq> ch_star" and "\<not> (c = ch_dollar \<and> rs = [])"
  shows "prefix_in (c # rs) str \<longleftrightarrow> (\<exists>t ts. str = t # ts \<and> fits c t \<and> prefix_in rs ts)"
proof -
  have it: "items (c # rs) = (One c # fst (items rs), snd (items rs))"
    using assms by (cases rs) (auto split: prod.splits)
  show ?thesis unfolding prefix_in_def it fst_conv snd_conv denotes.simps by (metis append_Cons)
qed

lemma prefix_in_star:
  "prefix_in (c # ch_star # rs) str \<longleftrightarrow> (\<exists>u v. str = u @ v \<and> list_all (fits c) u \<and> prefix_in rs v)"
proof -
  have it: "items (c # ch_star # rs) = (Star c # fst (items rs), snd (items rs))" by (auto split: prod.splits)
  have "(\<exists>w v. str = w @ v \<and> (\<exists>u x. w = u @ x \<and> list_all (fits c) u \<and> denotes (fst (items rs)) x) \<and> (snd (items rs) \<longrightarrow> v = []))
    \<longleftrightarrow> (\<exists>u v. str = u @ v \<and> list_all (fits c) u
      \<and> (\<exists>w x. v = w @ x \<and> denotes (fst (items rs)) w \<and> (snd (items rs) \<longrightarrow> x = [])))"
    by (metis append.assoc)
  then show ?thesis unfolding prefix_in_def it by simp
qed

text \<open>One more byte for the star, or none.\<close>

lemma star_step:
  "(\<exists>u v. str = u @ v \<and> list_all (fits c) u \<and> P v)
    \<longleftrightarrow> P str \<or> (\<exists>t ts. str = t # ts \<and> fits c t \<and> (\<exists>u v. ts = u @ v \<and> list_all (fits c) u \<and> P v))"
  (is "?l \<longleftrightarrow> ?r")
proof
  assume ?l
  then obtain u v where "str = u @ v" "list_all (fits c) u" "P v" by blast
  then show ?r by (cases u) auto
next
  assume ?r
  then show ?l
  proof
    assume "P str"
    then show ?l by (intro exI [of _ "[]"] exI [of _ str]) simp
  next
    assume "\<exists>t ts. str = t # ts \<and> fits c t \<and> (\<exists>u v. ts = u @ v \<and> list_all (fits c) u \<and> P v)"
    then obtain t u v where "str = (t # u) @ v" "list_all (fits c) (t # u)" "P v" by auto
    then show ?l by blast
  qed
qed

lemma matchers_decide:
  "matchhere re str \<longleftrightarrow> prefix_in re str"
  "matchstar c re str \<longleftrightarrow> (\<exists>u v. str = u @ v \<and> list_all (fits c) u \<and> prefix_in re v)"
proof (induction re str and c re str rule: matchhere_matchstar.induct)
  case (1 re str)
  show ?case
  proof (cases re)
    case Nil
    then show ?thesis by (simp add: matchhere.simps prefix_in_Nil)
  next
    case (Cons c rs)
    consider (star) "rs \<noteq> []" "hd rs = ch_star" | (dollar) "c = ch_dollar" "rs = []"
      | (one) "rs \<noteq> [] \<longrightarrow> hd rs \<noteq> ch_star" "\<not> (c = ch_dollar \<and> rs = [])" by blast
    then show ?thesis
    proof cases
      case star
      then obtain rs' where "rs = ch_star # rs'" by (cases rs) auto
      then show ?thesis using 1(1) [OF Cons] Cons by (simp add: matchhere.simps [of "c # ch_star # rs'"] prefix_in_star)
    next
      case dollar
      then show ?thesis using Cons by (simp add: matchhere.simps prefix_in_dollar)
    next
      case one
      have "matchhere re str \<longleftrightarrow> (case str of [] \<Rightarrow> False | t # ts \<Rightarrow> fits c t \<and> matchhere rs ts)"
        unfolding Cons by (subst matchhere.simps) (use one in \<open>auto simp: fits_def split: list.splits\<close>)
      also have "\<dots> \<longleftrightarrow> (\<exists>t ts. str = t # ts \<and> fits c t \<and> prefix_in rs ts)"
        using 1(2) [OF Cons] one by (auto simp: fits_def split: list.splits)
      finally show ?thesis using prefix_in_one [OF one] Cons by simp
    qed
  qed
next
  case (2 c re str)
  have "matchstar c re str \<longleftrightarrow> matchhere re str \<or> (\<exists>t ts. str = t # ts \<and> fits c t \<and> matchstar c re ts)"
    by (subst matchstar.simps) (auto simp: fits_def split: list.splits)
  also have "\<dots> \<longleftrightarrow> prefix_in re str
      \<or> (\<exists>t ts. str = t # ts \<and> fits c t \<and> (\<exists>u v. ts = u @ v \<and> list_all (fits c) u \<and> prefix_in re v))"
  proof (cases "matchhere re str")
    case True
    then show ?thesis using 2(1) by simp
  next
    case False
    have "matchstar c re ts \<longleftrightarrow> (\<exists>u v. ts = u @ v \<and> list_all (fits c) u \<and> prefix_in re v)" if "str = t # ts" "fits c t" for t ts
      by (rule 2(2) [OF False that(1)]) (use that(2) in \<open>auto simp: fits_def\<close>)
    moreover have "\<not> prefix_in re str" using False 2(1) by simp
    ultimately show ?thesis using False by (cases str) auto
  qed
  also have "\<dots> \<longleftrightarrow> (\<exists>u v. str = u @ v \<and> list_all (fits c) u \<and> prefix_in re v)" by (rule star_step [symmetric])
  finally show ?case .
qed

lemma match_from_suffix: "match_from re str \<longleftrightarrow> (\<exists>pre post. str = pre @ post \<and> prefix_in re post)"
proof (induction str)
  case Nil
  then show ?case by (simp add: matchers_decide)
next
  case (Cons t ts)
  have "match_from re (t # ts) \<longleftrightarrow> prefix_in re (t # ts) \<or> (\<exists>pre post. ts = pre @ post \<and> prefix_in re post)"
    by (simp add: matchers_decide Cons.IH)
  also have "\<dots> \<longleftrightarrow> (\<exists>pre post. t # ts = pre @ post \<and> prefix_in re post)"
    by (metis append_Cons append_Nil append_eq_Cons_conv)
  finally show ?case .
qed

text \<open>
  C18 (equivalence). The matcher of \<open>grep\<close>, a pair of recursive functions on pointers, always ends and decides whether the text contains a word
  of the pattern's language: a pattern is a sequence of single characters and starred characters, \<open>.\<close> stands for any character, and the
  anchors \<open>^\<close> and \<open>$\<close> tie the word to the start and the end of the text.
\<close>

theorem match_decides_language:
  "match re str \<longleftrightarrow>
     (let (anchored, body) = (if re \<noteq> [] \<and> hd re = 94 then (True, tl re) else (False, re)); (is, at_end) = items body
      in \<exists>before w after. str = before @ w @ after \<and> denotes is w \<and> (anchored \<longrightarrow> before = []) \<and> (at_end \<longrightarrow> after = []))"
proof (cases "re \<noteq> [] \<and> hd re = ch_caret")
  case True
  then show ?thesis by (simp add: match_def matchers_decide prefix_in_def split: prod.splits)
next
  case False
  then show ?thesis
    by (auto simp: match_def match_from_suffix prefix_in_def split: prod.splits)
qed

theorem match_decides_language_witness:
  "match [94, 97, 42, 98, 36] [97, 97, 98] \<and> \<not> match [94, 98] [97, 98]
     \<and> (\<exists>w. [97, 97, 98] = w \<and> denotes [Star 97, One 98] w)"
proof -
  have "match [94, 97, 42, 98, 36] [97, 97, 98]" "\<not> match [94, 98] [97, 98]"
    by (simp_all add: match_def matchhere.simps matchstar.simps)
  then show ?thesis using match_decides_language [of "[94, 97, 42, 98, 36]" "[97, 97, 98]"] by simp
qed

subsection \<open>The line loop\<close>

text \<open>
  The inner loop of \<open>grep\<close>: what it writes, and what is left of the buffer from \<open>p\<close> on. \<open>strchr\<close> looks no further than the first
  zero byte.
\<close>

function grep_lines :: "u8 list \<Rightarrow> u8 list \<Rightarrow> u8 list \<times> u8 list" where
  "grep_lines re p =
     (if ch_newline \<in> set (takeWhile (\<lambda>b. b \<noteq> 0) p)
      then let line = takeWhile (\<lambda>b. b \<noteq> ch_newline) p
        in case grep_lines re (drop (length line + 1) p) of (out, q) \<Rightarrow>
          ((if match re line then line @ [ch_newline] else []) @ out, q)
      else ([], p))"
  by pat_completeness auto
termination
proof (relation "measure (\<lambda>(_, p). length p)")
  fix re p line :: "u8 list"
  assume "ch_newline \<in> set (takeWhile (\<lambda>b. b \<noteq> 0) p)"
  then have "p \<noteq> []" by auto
  then show "((re, drop (length line + 1) p), (re, p)) \<in> measure (\<lambda>(_, p). length p)" by simp
qed simp

declare grep_lines.simps [simp del]

text \<open>
  The outer loop, with the unprinted bytes at the start of \<open>buf\<close>. \<open>k i\<close> is the number of bytes the \<open>i\<close>th call of \<open>read\<close> has
  ready; it returns them as far as they were asked for and as the input \<open>inp\<close> goes, and 0 stands for the end of the file or an error.
\<close>

function grep :: "u8 list \<Rightarrow> (nat \<Rightarrow> nat) \<Rightarrow> nat \<Rightarrow> u8 list \<Rightarrow> u8 list \<Rightarrow> u8 list" where
  "grep re k i buf inp =
     (let got = take (min (k i) (1024 - length buf - 1)) inp
      in if got = [] then []
         else case grep_lines re (buf @ got) of (out, p) \<Rightarrow> out @ grep re k (Suc i) p (drop (length got) inp))"
  by pat_completeness auto
termination
  by (relation "measure (\<lambda>(_, _, _, _, inp). length inp)") auto

declare grep.simps [simp del]

text \<open>The lines of a text that end in a newline, and what follows the last of them.\<close>

function complete_lines :: "u8 list \<Rightarrow> u8 list list" where
  "complete_lines xs =
     (if ch_newline \<in> set xs
      then takeWhile (\<lambda>b. b \<noteq> ch_newline) xs # complete_lines (tl (dropWhile (\<lambda>b. b \<noteq> ch_newline) xs))
      else [])"
  by pat_completeness auto
termination
proof (relation "measure length")
  fix xs :: "u8 list"
  assume "ch_newline \<in> set xs"
  then have "dropWhile (\<lambda>b. b \<noteq> ch_newline) xs \<noteq> []" by (auto simp: dropWhile_eq_Nil_conv)
  then have "length (tl (dropWhile (\<lambda>b. b \<noteq> ch_newline) xs)) < length (dropWhile (\<lambda>b. b \<noteq> ch_newline) xs)" by simp
  also have "\<dots> \<le> length xs" by (rule length_dropWhile_le)
  finally show "(tl (dropWhile (\<lambda>b. b \<noteq> ch_newline) xs), xs) \<in> measure length" by simp
qed simp

declare complete_lines.simps [simp del]

definition last_line :: "u8 list \<Rightarrow> u8 list" where
  "last_line xs = rev (takeWhile (\<lambda>b. b \<noteq> ch_newline) (rev xs))"

definition matching :: "u8 list \<Rightarrow> u8 list list \<Rightarrow> u8 list" where
  "matching re ls = concat (map (\<lambda>l. l @ [ch_newline]) (filter (match re) ls))"

lemma complete_lines_none [simp]: "ch_newline \<notin> set xs \<Longrightarrow> complete_lines xs = []"
  by (simp add: complete_lines.simps)

lemma complete_lines_cons:
  "ch_newline \<notin> set l \<Longrightarrow> complete_lines (l @ ch_newline # xs) = l # complete_lines xs"
  by (subst complete_lines.simps) (simp add: takeWhile_append dropWhile_append)

lemma last_line_none: "ch_newline \<notin> set xs \<Longrightarrow> last_line xs = xs"
proof -
  assume "ch_newline \<notin> set xs"
  then have "\<forall>b \<in> set (rev xs). b \<noteq> ch_newline" by auto
  then have "takeWhile (\<lambda>b. b \<noteq> ch_newline) (rev xs) = rev xs" by (simp only: takeWhile_eq_all_conv)
  then show ?thesis by (simp only: last_line_def rev_rev_ident)
qed

lemma last_line_cons: "last_line (l @ ch_newline # xs) = last_line xs"
  by (simp add: last_line_def takeWhile_tail)

lemma no_newline_in_last: "ch_newline \<notin> set (last_line xs)"
  by (auto simp: last_line_def dest: set_takeWhileD)

text \<open>Lines are split off from the front.\<close>

lemma line_cases:
  obtains (none) "ch_newline \<notin> set xs" | (split) l ys where "xs = l @ ch_newline # ys" and "ch_newline \<notin> set l"
  by (metis split_list_first)

lemma complete_lines_append: "complete_lines (xs @ ys) = complete_lines xs @ complete_lines (last_line xs @ ys)"
proof (induction xs rule: length_induct)
  case (1 xs)
  show ?case
  proof (cases xs rule: line_cases)
    case none
    then show ?thesis by (simp add: last_line_none)
  next
    case (split l zs)
    then show ?thesis using 1 by (simp add: complete_lines_cons last_line_cons)
  qed
qed

lemma last_line_append: "last_line (last_line xs @ ys) = last_line (xs @ ys)"
proof (induction xs rule: length_induct)
  case (1 xs)
  show ?case
  proof (cases xs rule: line_cases)
    case none
    then show ?thesis by (simp add: last_line_none)
  next
    case (split l zs)
    then show ?thesis using 1 by (simp add: last_line_cons)
  qed
qed

lemma last_line_short: "length (last_line xs) \<le> length xs" "set (last_line xs) \<subseteq> set xs"
  using length_takeWhile_le [of _ "rev xs"] by (auto simp: last_line_def dest: set_takeWhileD)

lemma grep_lines_run:
  assumes "0 \<notin> set p"
  shows "grep_lines re p = (matching re (complete_lines p), last_line p)"
  using assms
proof (induction p rule: length_induct)
  case (1 p)
  have z: "takeWhile (\<lambda>b. b \<noteq> 0) p = p" using 1(2) by (auto simp: takeWhile_eq_all_conv)
  show ?case
  proof (cases p rule: line_cases)
    case none
    then show ?thesis by (subst grep_lines.simps) (simp add: z last_line_none matching_def)
  next
    case (split l ys)
    have tw: "takeWhile (\<lambda>b. b \<noteq> ch_newline) p = l" using split by (simp add: takeWhile_append)
    have "grep_lines re ys = (matching re (complete_lines ys), last_line ys)" using 1 split by simp
    then show ?thesis using split z tw
      by (subst grep_lines.simps) (simp add: complete_lines_cons last_line_cons matching_def)
  qed
qed

lemma grep_run:
  assumes "\<And>i. 0 < k i" and "0 \<notin> set (buf @ inp)" and "ch_newline \<notin> set buf" and "length buf < 1023"
    and "\<And>l. l \<in> set (complete_lines (buf @ inp)) \<Longrightarrow> length l < 1023" and "length (last_line (buf @ inp)) < 1023"
  shows "grep re k i buf inp = matching re (complete_lines (buf @ inp))"
  using assms(2-)
proof (induction inp arbitrary: i buf rule: length_induct)
  case (1 inp)
  define got where "got = take (min (k i) (1024 - length buf - 1)) inp"
  show ?case
  proof (cases "inp = []")
    case True
    then show ?thesis using 1(3) by (simp add: grep.simps matching_def)
  next
    case False
    then have ne: "got \<noteq> []" using assms(1) [of i] 1(4) by (simp add: got_def)
    have inp: "inp = got @ drop (length got) inp" by (simp add: got_def min_def)
    then have sub: "set got \<subseteq> set inp" by (metis Un_upper1 set_append)
    then have z: "0 \<notin> set (buf @ got)" using 1(2) by auto
    let ?p = "last_line (buf @ got)" and ?rest = "drop (length got) inp"
    have all: "complete_lines (buf @ inp) = complete_lines (buf @ got) @ complete_lines (?p @ ?rest)"
      using complete_lines_append [of "buf @ got" ?rest] inp by (metis append.assoc)
    have lst: "last_line (?p @ ?rest) = last_line (buf @ inp)"
      using last_line_append [of "buf @ got" ?rest] inp by (metis append.assoc)
    have sh: "length ?p < 1023"
    proof (cases "ch_newline \<in> set (?p @ ?rest)")
      case True
      then obtain l ys where l: "?p @ ?rest = l @ ch_newline # ys" "ch_newline \<notin> set l" by (metis split_list_first)
      then have "l \<in> set (complete_lines (buf @ inp))" using all by (simp add: complete_lines_cons)
      then have "length l < 1023" using 1(5) by blast
      moreover have "length ?p \<le> length l"
      proof (rule ccontr)
        assume "\<not> length ?p \<le> length l"
        then have "ch_newline = ?p ! length l" using l(1) by (metis leI nth_append nth_append_length)
        then show False using \<open>\<not> length ?p \<le> length l\<close> no_newline_in_last nth_mem [of "length l" ?p] by (metis leI)
      qed
      ultimately show ?thesis by simp
    next
      case False
      then have "length (?p @ ?rest) < 1023" using 1(6) lst last_line_none [OF False] by simp
      then show ?thesis by simp
    qed
    have z2: "0 \<notin> set (?p @ ?rest)"
      using 1(2) z last_line_short(2) [of "buf @ got"] set_drop_subset [of "length got" inp] by auto
    have "grep re k (Suc i) ?p ?rest = matching re (complete_lines (?p @ ?rest))"
    proof -
      have "length ?rest < length inp" using ne by (simp add: got_def)
      moreover have "length l < 1023" if "l \<in> set (complete_lines (?p @ ?rest))" for l using that 1(5) all by simp
      ultimately show ?thesis using 1(1) z2 no_newline_in_last sh 1(6) lst by simp
    qed
    moreover have "grep re k i buf inp = matching re (complete_lines (buf @ got)) @ grep re k (Suc i) ?p ?rest"
      by (subst grep.simps) (simp only: got_def [symmetric] Let_def ne if_False grep_lines_run [OF z] case_prod_conv)
    ultimately show ?thesis by (simp add: all matching_def)
  qed
qed

text \<open>
  C35 (functional). \<open>grep\<close> writes exactly the lines of its input that match, in order and each with its newline, however \<open>read\<close>
  cuts the input into pieces, when the input has no zero byte and every line, also an unfinished one at the end, fits in the
  buffer beside its newline and the terminating zero. An unfinished last line is never printed.
\<close>

theorem grep_prints_matching_lines:
  assumes "\<And>i. 0 < k i" and "0 \<notin> set inp"
    and "\<And>l. l \<in> set (complete_lines inp) \<Longrightarrow> length l < 1023" and "length (last_line inp) < 1023"
  shows "grep re k 0 [] inp = concat (map (\<lambda>l. l @ [10]) (filter (match re) (complete_lines inp)))"
  using grep_run [OF assms(1), of "[]" inp] assms(2-) by (simp add: matching_def)

theorem grep_prints_matching_lines_witness:
  "grep [97] (\<lambda>_. 2) 0 [] [98, 97, 10, 98, 10, 97, 99, 10, 97] = [98, 97, 10, 97, 99, 10]"
proof -
  have l: "complete_lines [98, 97, 10, 98, 10, 97, 99, 10, 97] = [[98, 97], [98], [97, 99]]"
    by (simp add: complete_lines.simps)
  show ?thesis
    by (subst grep_prints_matching_lines) (auto simp: l last_line_def match_def matchhere.simps)
qed

text \<open>A line that fills the buffer ends the program's reading: nothing after it is printed.\<close>

lemma grep_stops_at_long_line:
  assumes "length buf = 1023"
  shows "grep re k i buf inp = []"
  using assms by (simp add: grep.simps)

end
