(* ===== verification/Ulib.thy ===== *)
theory Ulib
  imports Printf Grep
begin

text \<open>
  The user library: the string routines of \<^verbatim>\<open>user/ulib.c\<close> over the byte memory of the process, \<open>atoi\<close>, \<open>gets\<close>, and the formatted
  output of \<^verbatim>\<open>user/printf.c\<close>. A loop that runs to the end of a string is partial, as in \<^verbatim>\<open>kernel/string.c\<close>. Names that
  the kernel has, too, get the prefix \<open>u_\<close>.
\<close>

subsection \<open>Strings and memory\<close>

partial_function (option) strcpy :: "bytes \<Rightarrow> u64 \<Rightarrow> u64 \<Rightarrow> bytes option" where
  "strcpy m s t = (let m' = m(s := m t) in if m t = 0 then Some m' else strcpy m' (s + 1) (t + 1))"

partial_function (option) strcmp :: "bytes \<Rightarrow> u64 \<Rightarrow> u64 \<Rightarrow> int option" where
  "strcmp m p q =
     (if m p \<noteq> 0 \<and> m p = m q then strcmp m (p + 1) (q + 1) else Some (uint (m p) - uint (m q)))"

partial_function (option) u_strlen_from :: "bytes \<Rightarrow> u64 \<Rightarrow> nat \<Rightarrow> nat option" where
  "u_strlen_from m s n = (if m (s + of_nat n) \<noteq> 0 then u_strlen_from m s (Suc n) else Some n)"

definition u_strlen :: "bytes \<Rightarrow> u64 \<Rightarrow> nat option" where
  "u_strlen m s = u_strlen_from m s 0"

primrec u_memset_from :: "bytes \<Rightarrow> u64 \<Rightarrow> u8 \<Rightarrow> nat \<Rightarrow> bytes" where
  "u_memset_from m cdst c 0 = m"
| "u_memset_from m cdst c (Suc n) = (u_memset_from m cdst c n)(cdst + of_nat n := c)"

definition u_memset :: "bytes \<Rightarrow> u64 \<Rightarrow> u8 \<Rightarrow> u32 \<Rightarrow> bytes" where
  "u_memset m dst c n = u_memset_from m dst c (unat n)"

partial_function (option) strchr :: "bytes \<Rightarrow> u64 \<Rightarrow> u8 \<Rightarrow> u64 option" where
  "strchr m s c = (if m s = 0 then Some 0 else if m s = c then Some s else strchr m (s + 1) c)"

definition u_memmove :: "bytes \<Rightarrow> u64 \<Rightarrow> u64 \<Rightarrow> int \<Rightarrow> bytes" where
  "u_memmove m dst src n =
     (if src > dst then copy_up m dst src (nat n)
      else copy_down m (dst + word_of_int n) (src + word_of_int n) (nat n))"

primrec u_memcmp :: "bytes \<Rightarrow> u64 \<Rightarrow> u64 \<Rightarrow> nat \<Rightarrow> int" where
  "u_memcmp m p1 p2 0 = 0"
| "u_memcmp m p1 p2 (Suc n) =
     (if m p1 \<noteq> m p2 then uint (m p1) - uint (m p2) else u_memcmp m (p1 + 1) (p2 + 1) n)"

text \<open>
  \<open>gets\<close>: \<open>inp\<close> is what successive one-byte reads of descriptor 0 return, and the list ends where \<open>read\<close> returns less than 1.
  The result is the contents of the buffer and the input that is left.
\<close>

fun gets_loop :: "nat \<Rightarrow> u8 list \<Rightarrow> u8 list \<Rightarrow> u8 list \<times> u8 list" where
  "gets_loop 0 buf inp = (buf, inp)"
| "gets_loop (Suc k) buf [] = (buf, [])"
| "gets_loop (Suc k) buf (c # inp) =
     (if c = 10 \<or> c = 13 then (buf @ [c], inp) else gets_loop k (buf @ [c]) inp)"

definition gets :: "int \<Rightarrow> u8 list \<Rightarrow> u8 list \<times> u8 list" where
  "gets mx inp = (case gets_loop (nat (mx - 1)) [] inp of (buf, left) \<Rightarrow> (buf @ [0], left))"

text \<open>\<open>atoi\<close> of a string without its terminating zero, in 32-bit arithmetic.\<close>

primrec atoi_loop :: "u32 \<Rightarrow> u8 list \<Rightarrow> u32" where
  "atoi_loop n [] = n"
| "atoi_loop n (c # s) = (if 48 \<le> c \<and> c \<le> 57 then atoi_loop (n * 10 + ucast c - 48) s else n)"

definition atoi :: "u8 list \<Rightarrow> int" where
  "atoi s = sint (atoi_loop 0 s)"

subsection \<open>Formatted output\<close>

definition u_digits :: "u8 list" where
  "u_digits = ascii ''0123456789ABCDEF''"

definition u_printint :: "int \<Rightarrow> nat \<Rightarrow> bool \<Rightarrow> u8 list" where
  "u_printint xx base sg = rev (printint_buf u_digits xx base sg)"

definition u_printptr :: "u64 \<Rightarrow> u8 list" where
  "u_printptr x = ascii ''0x'' @ map (\<lambda>i. u_digits ! unat (drop_bit 60 (push_bit (4 * i) x))) [0..<16]"

text \<open>What \<open>vprintf\<close> writes, with its state: after a \<open>%\<close> or not. A missing or wrong argument is undefined.\<close>

fun vprintf_out :: "bool \<Rightarrow> u8 list \<Rightarrow> fmt_arg list \<Rightarrow> u8 list option" where
  "vprintf_out st [] args = Some []"
| "vprintf_out False (c # fmt) args =
     (if c = 37 then vprintf_out True fmt args else map_option ((#) c) (vprintf_out False fmt args))"
| "vprintf_out True (c # fmt) args =
     (if c = 100 then (case args of ArgInt v # as \<Rightarrow> map_option ((@) (u_printint v 10 True)) (vprintf_out False fmt as) | _ \<Rightarrow> None)
      else if c = 108 then (case args of ArgPtr v # as \<Rightarrow> map_option ((@) (u_printint (uint v) 10 False)) (vprintf_out False fmt as) | _ \<Rightarrow> None)
      else if c = 120 then (case args of ArgInt v # as \<Rightarrow> map_option ((@) (u_printint v 16 False)) (vprintf_out False fmt as) | _ \<Rightarrow> None)
      else if c = 112 then (case args of ArgPtr v # as \<Rightarrow> map_option ((@) (u_printptr v)) (vprintf_out False fmt as) | _ \<Rightarrow> None)
      else if c = 115 then (case args of
          ArgStr s # as \<Rightarrow> map_option ((@) (case s of None \<Rightarrow> ascii ''(null)'' | Some t \<Rightarrow> t)) (vprintf_out False fmt as)
        | _ \<Rightarrow> None)
      else if c = 99 then (case args of ArgInt v # as \<Rightarrow> map_option ((#) (word_of_int v)) (vprintf_out False fmt as) | _ \<Rightarrow> None)
      else if c = 37 then map_option ((#) c) (vprintf_out False fmt args)
      else map_option (\<lambda>out. 37 # c # out) (vprintf_out False fmt args))"

definition fprintf :: "u8 list \<Rightarrow> fmt_arg list \<Rightarrow> u8 list option" where
  "fprintf fmt args = vprintf_out False fmt args"

subsection \<open>The library agrees with the kernel's routines\<close>

lemma u_memmove_eq:
  assumes "0 \<le> n" and "unat src + nat n < 2 ^ 64" and "unat dst + nat n < 2 ^ 64"
  shows "u_memmove m dst src n = memmove m dst src (nat n)"
proof -
  have k: "nat n < 2 ^ 64" and w: "word_of_int n = (of_nat (nat n) :: u64)" using assms by simp_all
  have "memmove m dst src (nat n) = (\<lambda>x. if in_region dst (nat n) x then m (src + (x - dst)) else m x)"
    by (rule memmove_eq) (use assms in simp_all)
  moreover have "u_memmove m dst src n = (\<lambda>x. if in_region dst (nat n) x then m (src + (x - dst)) else m x)"
  proof (cases "src > dst")
    case True
    then have "\<not> in_region src (nat n) dst"
      using assms(2) unat_wrap_diff [OF True] by (simp add: in_region_def)
    then show ?thesis using True copy_up_eq [OF k] by (simp add: u_memmove_def)
  next
    case False
    have "src = dst \<or> \<not> in_region dst (nat n) src"
    proof (cases "src = dst")
      case ne: False
      then have "src < dst" using False by simp
      then have "unat (src - dst) = 2 ^ 64 + unat src - unat dst" by (rule unat_wrap_diff)
      moreover have "nat n \<le> 2 ^ 64 + unat src - unat dst" using assms(3) by simp
      ultimately show ?thesis by (simp add: in_region_def)
    qed simp
    then show ?thesis using False copy_down_eq [OF k] by (simp add: u_memmove_def w)
  qed
  ultimately show ?thesis by simp
qed

lemma strcmp_cstr: "cstr m p xs \<Longrightarrow> cstr m q ys \<Longrightarrow> \<exists>r. strcmp m p q = Some r \<and> (r = 0 \<longleftrightarrow> xs = ys)"
proof (induction xs arbitrary: p q ys)
  case Nil
  then show ?case by (cases ys) (auto simp: strcmp.simps)
next
  case (Cons x xs)
  then show ?case
    by (cases ys; cases "m p = m q") (auto simp: strcmp.simps [of m p q])
qed

lemma strchr_cstr:
  "cstr m s xs \<Longrightarrow> c \<noteq> 0 \<Longrightarrow> strchr m s c =
     Some (if c \<in> set xs then s + of_nat (length (takeWhile (\<lambda>b. b \<noteq> c) xs)) else 0)"
proof (induction xs arbitrary: s)
  case Nil
  then show ?case by (simp add: strchr.simps)
next
  case (Cons x xs)
  then have "strchr m (s + 1) c = Some (if c \<in> set xs then s + 1 + of_nat (length (takeWhile (\<lambda>b. b \<noteq> c) xs)) else 0)" by simp
  with Cons.prems show ?case by (subst strchr.simps) (auto simp: algebra_simps)
qed

subsection \<open>Numbers\<close>

lemma digits_at: "k < 10 \<Longrightarrow> digits ! k = of_nat (48 + k)" "k < 10 \<Longrightarrow> u_digits ! k = of_nat (48 + k)"
proof -
  assume "k < 10"
  then have "k \<in> {0, 1, 2, 3, 4, 5, 6, 7, 8, 9}" by auto
  then show "digits ! k = of_nat (48 + k)" "u_digits ! k = of_nat (48 + k)"
    by (auto simp: digits_def u_digits_def ascii_def of_char_def)
qed

definition all_digits :: "u8 list \<Rightarrow> bool" where
  "all_digits s \<longleftrightarrow> list_all (\<lambda>c. 48 \<le> c \<and> c \<le> 57) s"

lemma atoi_loop_append: "all_digits s \<Longrightarrow> atoi_loop n (s @ t) = atoi_loop (atoi_loop n s) t"
  by (induction s arbitrary: n) (auto simp: all_digits_def)

lemma digit_facts:
  assumes "k < 10" and "c = (of_nat (48 + k) :: u8)"
  shows "48 \<le> c" "c \<le> 57" "ucast c - 48 = (of_nat k :: u32)"
proof -
  have "k \<in> {0, 1, 2, 3, 4, 5, 6, 7, 8, 9}" using assms(1) by auto
  then show "48 \<le> c" "c \<le> 57" "ucast c - 48 = (of_nat k :: u32)" using assms(2) by auto
qed

lemma printint_loop_atoi:
  assumes "\<And>k. k < 10 \<Longrightarrow> ds ! k = of_nat (48 + k)"
  shows "all_digits (rev (printint_loop ds 10 x)) \<and> atoi_loop 0 (rev (printint_loop ds 10 x)) = of_nat x"
proof (induction x rule: less_induct)
  case (less x)
  note d = digit_facts [OF _ assms, of "x mod 10"]
  show ?case
  proof (cases "x < 10")
    case True
    then show ?thesis using d by (simp add: printint_loop.simps [of ds 10 x] all_digits_def)
  next
    case False
    let ?r = "rev (printint_loop ds 10 (x div 10))"
    have ih: "all_digits ?r" "atoi_loop 0 ?r = of_nat (x div 10)" using less [of "x div 10"] False by simp_all
    have e: "rev (printint_loop ds 10 x) = ?r @ [ds ! (x mod 10)]"
    proof -
      have "x div 10 \<noteq> 0" using False by simp
      then show ?thesis by (subst printint_loop.simps) simp
    qed
    have "of_nat (x div 10) * 10 + of_nat (x mod 10) = (of_nat (x div 10 * 10 + x mod 10) :: u32)"
      by (simp only: of_nat_add of_nat_mult of_nat_numeral)
    then have "of_nat (x div 10) * 10 + ucast (ds ! (x mod 10)) - 48 = (of_nat x :: u32)"
      using d(3) by (simp add: algebra_simps)
    then show ?thesis using ih d(1,2) e atoi_loop_append [OF ih(1), of 0] by (simp add: all_digits_def)
  qed
qed

text \<open>A number below \<open>base ^ k\<close> has at most \<open>k\<close> digits.\<close>

lemma printint_loop_length: "2 \<le> base \<Longrightarrow> x < base ^ k \<Longrightarrow> 0 < k \<Longrightarrow> length (printint_loop ds base x) \<le> k"
proof (induction k arbitrary: x)
  case 0
  then show ?case by simp
next
  case (Suc k)
  show ?case
  proof (cases "x div base = 0")
    case True
    then show ?thesis by (simp add: printint_loop.simps [of ds base x])
  next
    case False
    then have "0 < k" using Suc.prems by (cases k) auto
    moreover have "x div base < base ^ k" using Suc.prems(1,2) by (simp add: less_mult_imp_div_less mult.commute)
    ultimately have "length (printint_loop ds base (x div base)) \<le> k" using Suc.IH Suc.prems(1) by simp
    then show ?thesis by (subst printint_loop.simps) simp
  qed
qed

text \<open>
  Numbers survive printing and reading: the decimal output of the kernel's and of the user library's \<open>printint\<close>
  for a non-negative number is read back by \<open>atoi\<close>, whatever non-digit follows it; and for every number and both bases the digits
  and the sign fit in the sixteen bytes of the buffer.
\<close>

theorem printint_atoi_roundtrip:
  assumes "0 \<le> n" and "n < 2 ^ 31" and "48 \<le> c \<longrightarrow> 57 < c" and "base = 10 \<or> base = 16"
  shows "atoi (printint n 10 True @ c # s) = n \<and> atoi (u_printint n 10 True @ c # s) = n
    \<and> length (printint v base sg) \<le> 11 \<and> length (u_printint v base sg) \<le> 11"
proof -
  have w: "unat (word_of_int n :: u32) = nat n" 
  proof -
    have "(word_of_int n :: u32) = of_nat (nat n)" using assms(1) by simp
    then show ?thesis using assms(2) by (simp only: unat_of_nat) (simp add: take_bit_nat_eq_self)
  qed
  have sn: "sint (of_nat (nat n) :: u32) = n"
  proof -
    have "k < 2 ^ 31 \<Longrightarrow> sint (of_nat k :: u32) = int k" for k
      by (simp add: signed_of_nat signed_take_bit_int_eq_self)
    from this [of "nat n"] show ?thesis using assms(1,2) by (simp add: nat_less_iff)
  qed
  have stop: "atoi_loop k (c # s) = k" for k using assms(3) by auto
  have rt: "atoi (rev (printint_loop ds 10 (nat n)) @ c # s) = n" if "\<And>k. k < 10 \<Longrightarrow> ds ! k = of_nat (48 + k)" for ds
  proof -
    have "all_digits (rev (printint_loop ds 10 (nat n)))" "atoi_loop 0 (rev (printint_loop ds 10 (nat n))) = of_nat (nat n)"
      using printint_loop_atoi [of ds "nat n"] that by simp_all
    then show ?thesis by (simp only: atoi_def atoi_loop_append stop sn)
  qed
  have len: "length (printint_buf ds v base sg) \<le> 11" for ds
  proof -
    have "length (printint_loop ds base (unat (x :: u32))) \<le> 10" for x
    proof (rule printint_loop_length)
      have "unat x < 4294967296" using unsigned_less [of x] by simp
      also have "4294967296 \<le> base ^ 10" using assms(4) by auto
      finally show "unat x < base ^ 10" .
    qed (use assms(4) in auto)
    then show ?thesis by (auto simp: printint_buf_def ascii_def intro: order_trans [of _ 10])
  qed
  show ?thesis
    using rt [OF digits_at(1)] rt [OF digits_at(2)] len assms(1) by (simp add: printint_def u_printint_def printint_buf_def w)
qed

theorem printint_atoi_roundtrip_witness:
  "atoi (printint 2025 10 True @ [32, 55]) = 2025 \<and> length (u_printint (- 2147483648) 16 True) \<le> 11"
  using printint_atoi_roundtrip [of 2025 32 16 "[55]" "- 2147483648" True] by simp

end
