(* ===== verification/Uprogs.thy ===== *)
theory Uprogs
  imports Ulib
begin

text \<open>
  The small programs of \<^verbatim>\<open>user/\<close>: \<open>wc\<close>, \<open>cat\<close>, \<open>ls\<close>, \<open>echo\<close>, \<open>mkdir\<close>, \<open>rm\<close>, \<open>ln\<close>, \<open>kill\<close>, \<open>init\<close> and the thread library
  \<^verbatim>\<open>knife_threads.c\<close>. A program is what it prints and the calls it makes, given what the system calls return to it; strings are lists
  of bytes without the terminating zero. What the lemmas show: \<open>wc\<close> counts lines, words and bytes and \<open>cat\<close> copies, however \<open>read\<close> cuts the input;
  \<open>ls\<close> prints one line for every used entry of a directory, with the padded last element of the path; \<open>init\<close> starts a
  shell again exactly when the shell has exited.
\<close>

subsection \<open>Input and output\<close>

text \<open>What one \<open>read\<close> gives: some bytes, none at the end of the file, or an error. The end of the list is the end of the file.\<close>

datatype rd = Got "u8 list" | Failed

datatype uout =
    Out "u8 list" | Msg string "u8 list list" | Counts int int int "u8 list" | Entry "u8 list" int int int | Call string "u8 list list"

text \<open>The output of a routine, and the status with which it ended the program, if it did.\<close>

type_synonym urun = "uout list \<times> int option"

definition uthen :: "urun \<Rightarrow> urun \<Rightarrow> urun" where
  "uthen r r' = (case r of (o1, None) \<Rightarrow> (o1 @ fst r', snd r') | (o1, Some e) \<Rightarrow> (o1, Some e))"

text \<open>The loop over the arguments of \<open>wc\<close> and \<open>cat\<close>: open, run, close.\<close>

primrec each_file :: "string \<Rightarrow> (u8 list \<Rightarrow> rd list option) \<Rightarrow> (rd list \<Rightarrow> u8 list \<Rightarrow> urun) \<Rightarrow> u8 list list \<Rightarrow> urun" where
  "each_file msg opn f [] = ([], Some 0)"
| "each_file msg opn f (a # as) = (case opn a of
     None \<Rightarrow> ([Msg msg [a]], Some 1)
   | Some input \<Rightarrow> uthen (f input a) (each_file msg opn f as))"

subsection \<open>wc.c\<close>

record wc_state =
  wc_l :: u32
  wc_w :: u32
  wc_c :: u32
  wc_inword :: bool

text \<open>\<open>strchr(" \r\t\n\v", c)\<close> of the user library, which does not find the zero at the end of the string.\<close>

definition blank_char :: "u8 \<Rightarrow> bool" where
  "blank_char c \<longleftrightarrow> c \<in> set [32, 13, 9, 10, 11]"

primrec wc_bytes :: "u8 list \<Rightarrow> wc_state \<Rightarrow> wc_state" where
  "wc_bytes [] s = s"
| "wc_bytes (b # bs) s =
     (let s = s\<lparr>wc_c := wc_c s + 1\<rparr>;
        s = (if b = 10 then s\<lparr>wc_l := wc_l s + 1\<rparr> else s)
      in wc_bytes bs (if blank_char b then s\<lparr>wc_inword := False\<rparr>
           else if \<not> wc_inword s then s\<lparr>wc_w := wc_w s + 1, wc_inword := True\<rparr> else s))"

fun wc_loop :: "rd list \<Rightarrow> wc_state \<Rightarrow> wc_state option" where
  "wc_loop [] s = Some s"
| "wc_loop (Failed # _) s = None"
| "wc_loop (Got bs # input) s = (if bs = [] then Some s else wc_loop input (wc_bytes bs s))"

definition wc :: "rd list \<Rightarrow> u8 list \<Rightarrow> urun" where
  "wc input name = (case wc_loop input \<lparr>wc_l = 0, wc_w = 0, wc_c = 0, wc_inword = False\<rparr> of
     None \<Rightarrow> ([Msg ''wc: read error'' []], Some 1)
   | Some s \<Rightarrow> ([Counts (sint (wc_l s)) (sint (wc_w s)) (sint (wc_c s)) name], None))"

definition wc_main :: "(u8 list \<Rightarrow> rd list option) \<Rightarrow> rd list \<Rightarrow> u8 list list \<Rightarrow> urun" where
  "wc_main opn stdin args = (if args = [] then uthen (wc stdin []) ([], Some 0)
     else each_file ''wc: cannot open %s'' opn wc args)"

subsection \<open>cat.c\<close>

text \<open>\<open>wr bs\<close>: \<open>write\<close> takes all of \<open>bs\<close>.\<close>

fun cat :: "(u8 list \<Rightarrow> bool) \<Rightarrow> rd list \<Rightarrow> urun" where
  "cat wr [] = ([], None)"
| "cat wr (Failed # _) = ([Msg ''cat: read error'' []], Some 1)"
| "cat wr (Got bs # input) = (if bs = [] then ([], None)
     else if \<not> wr bs then ([Msg ''cat: write error'' []], Some 1) else uthen ([Out bs], None) (cat wr input))"

definition cat_main :: "(u8 list \<Rightarrow> bool) \<Rightarrow> (u8 list \<Rightarrow> rd list option) \<Rightarrow> rd list \<Rightarrow> u8 list list \<Rightarrow> urun" where
  "cat_main wr opn stdin args = (if args = [] then uthen (cat wr stdin) ([], Some 0)
     else each_file ''cat: cannot open %s'' opn (\<lambda>input _. cat wr input) args)"

subsection \<open>ls.c\<close>

record ust =
  us_type :: int
  us_ino :: int
  us_size :: int

record ls_env =
  le_open :: "u8 list \<Rightarrow> u8 list option"
  le_fstat :: "u8 list \<Rightarrow> ust option"
  le_stat :: "u8 list \<Rightarrow> ust option"

text \<open>The bytes after the last slash: \<open>p\<close> goes back from the end of the path.\<close>

definition fmtname :: "u8 list \<Rightarrow> u8 list" where
  "fmtname path =
     (let p = rev (takeWhile (\<lambda>c. c \<noteq> 47) (rev path))
      in if length p \<ge> 14 then p else p @ replicate (14 - length p) 32)"

text \<open>The loop over the entries, of 16 bytes each: the inode number and the name.\<close>

function ls_entries :: "ls_env \<Rightarrow> u8 list \<Rightarrow> u8 list \<Rightarrow> uout list" where
  "ls_entries e path data =
     (if length data < 16 then []
      else let inum = data ! 0 OR data ! 1; name = take 14 (drop 2 data);
        buf = path @ 47 # takeWhile (\<lambda>c. c \<noteq> 0) name
      in if inum = 0 then ls_entries e path (drop 16 data)
        else case le_stat e buf of
            None \<Rightarrow> Msg ''ls: cannot stat %s'' [buf] # ls_entries e path (drop 16 data)
          | Some st \<Rightarrow> Entry (fmtname buf) (us_type st) (us_ino st) (us_size st) # ls_entries e path (drop 16 data))"
  by pat_completeness auto
termination by (relation "measure (\<lambda>(e, path, data). length data)") auto

declare ls_entries.simps [simp del]

definition ls :: "ls_env \<Rightarrow> u8 list \<Rightarrow> uout list" where
  "ls e path = (case le_open e path of
     None \<Rightarrow> [Msg ''ls: cannot open %s'' [path]]
   | Some data \<Rightarrow> (case le_fstat e path of
       None \<Rightarrow> [Msg ''ls: cannot stat %s'' [path]]
     | Some st \<Rightarrow>
         if us_type st = 2 \<or> us_type st = 3 then [Entry (fmtname path) (us_type st) (us_ino st) (us_size st)]
         else if us_type st = 1 then
           (if length path + 1 + 14 + 1 > 512 then [Msg ''ls: path too long'' []] else ls_entries e path data)
         else []))"

definition ls_main :: "ls_env \<Rightarrow> u8 list list \<Rightarrow> urun" where
  "ls_main e args = ((if args = [] then ls e [46] else concat (map (ls e) args)), Some 0)"

subsection \<open>echo.c, mkdir.c, rm.c, ln.c, kill.c\<close>

fun echo_main :: "u8 list list \<Rightarrow> urun" where
  "echo_main [] = ([], Some 0)"
| "echo_main (a # as) = uthen ([Out a, Out (if as \<noteq> [] then [32] else [10])], None) (echo_main as)"

text \<open>The loop of \<open>mkdir\<close> and \<open>rm\<close> stops at the first failure.\<close>

primrec until_failure :: "string \<Rightarrow> string \<Rightarrow> (u8 list \<Rightarrow> bool) \<Rightarrow> u8 list list \<Rightarrow> uout list" where
  "until_failure call msg ok [] = []"
| "until_failure call msg ok (a # as) = Call call [a] # (if ok a then until_failure call msg ok as else [Msg msg [a]])"

definition mkdir_main :: "(u8 list \<Rightarrow> bool) \<Rightarrow> u8 list list \<Rightarrow> urun" where
  "mkdir_main ok args = (if args = [] then ([Msg ''Usage: mkdir files...'' []], Some 1)
     else (until_failure ''mkdir'' ''mkdir: %s failed to create'' ok args, Some 0))"

definition rm_main :: "(u8 list \<Rightarrow> bool) \<Rightarrow> u8 list list \<Rightarrow> urun" where
  "rm_main ok args = (if args = [] then ([Msg ''Usage: rm files...'' []], Some 1)
     else (until_failure ''unlink'' ''rm: %s failed to delete'' ok args, Some 0))"

definition ln_main :: "(u8 list \<Rightarrow> u8 list \<Rightarrow> bool) \<Rightarrow> u8 list list \<Rightarrow> urun" where
  "ln_main ok args = (if length args \<noteq> 2 then ([Msg ''Usage: ln old new'' []], Some 1)
     else (Call ''link'' args # (if ok (args ! 0) (args ! 1) then [] else [Msg ''link %s %s: failed'' args]), Some 0))"

text \<open>The pids that \<open>kill\<close> is called with.\<close>

definition kill_main :: "u8 list list \<Rightarrow> int list \<times> urun" where
  "kill_main args = (if args = [] then ([], [Msg ''usage: kill pid...'' []], Some 1) else (map atoi args, [], Some 0))"

subsection \<open>init.c\<close>

text \<open>The inner loop: the results of \<open>wait\<close> until the shell has exited (\<open>True\<close>) or \<open>wait\<close> fails; \<open>None\<close> while it blocks.\<close>

fun init_wait :: "int \<Rightarrow> int list \<Rightarrow> (bool \<times> int list) option" where
  "init_wait pid [] = None"
| "init_wait pid (w # ws) = (if w = pid then Some (True, ws) else if w < 0 then Some (False, ws) else init_wait pid ws)"

text \<open>The outer loop on the results of \<open>fork\<close> and \<open>wait\<close>, in the parent.\<close>

fun init_loop :: "int list \<Rightarrow> int list \<Rightarrow> urun" where
  "init_loop [] ws = ([Msg ''init: starting sh'' []], None)"
| "init_loop (pid # pids) ws = uthen ([Msg ''init: starting sh'' []], None)
     (if pid < 0 then ([Msg ''init: fork failed'' []], Some 1)
      else case init_wait pid ws of
        None \<Rightarrow> ([], None)
      | Some (True, ws') \<Rightarrow> init_loop pids ws'
      | Some (False, ws') \<Rightarrow> ([Msg ''init: wait returned an error'' []], Some 1))"

subsection \<open>knife_threads.c\<close>

text \<open>The return value and the new \<open>*knife_tid\<close>, given the result of \<open>thread_create\<close>; what happens when \<open>thread_exit\<close> returns.\<close>

definition knife_thread_create :: "int \<Rightarrow> int \<Rightarrow> int \<times> int" where
  "knife_thread_create r old = (if r < 0 then (- 1, old) else (0, if r \<noteq> 0 then r else old))"

definition knife_thread_exit :: urun where
  "knife_thread_exit = ([Call ''thread_exit'' [], Msg ''thread_exit returned! This should never happen.'' []], Some (- 1))"

subsection \<open>What the programs do\<close>

text \<open>The words of a text: its maximal runs of bytes that are not blank.\<close>

function words_of :: "u8 list \<Rightarrow> u8 list list" where
  "words_of bs = (let r = dropWhile blank_char bs in
     if r = [] then [] else takeWhile (Not \<circ> blank_char) r # words_of (dropWhile (Not \<circ> blank_char) r))"
  by pat_completeness auto
termination
proof (relation "measure length")
  fix bs r assume "r = dropWhile blank_char bs" "r \<noteq> []"
  then have "\<not> blank_char (hd r)" "length r \<le> length bs" using hd_dropWhile [of blank_char bs] length_dropWhile_le [of blank_char bs] by auto
  then show "(dropWhile (Not \<circ> blank_char) r, bs) \<in> measure length" using \<open>r \<noteq> []\<close>
    by (cases r) (auto intro: le_less_trans [OF length_dropWhile_le])
qed simp

declare words_of.simps [simp del]

lemma words_of_simps:
  "words_of [] = []" "blank_char b \<Longrightarrow> words_of (b # bs) = words_of bs"
  "\<not> blank_char b \<Longrightarrow> length (words_of (b # bs)) = Suc (length (words_of (dropWhile (Not \<circ> blank_char) bs)))"
  by (subst words_of.simps; subst (2) words_of.simps; simp; fail | subst words_of.simps; simp)+

lemma wc_bytes_append: "wc_bytes (as @ bs) s = wc_bytes bs (wc_bytes as s)"
  by (induction as arbitrary: s) (simp_all add: Let_def)

lemma wc_bytes_counts:
  "wc_c (wc_bytes bs s) = wc_c s + of_nat (length bs) \<and> wc_l (wc_bytes bs s) = wc_l s + of_nat (count_list bs 10)"
  by (induction bs arbitrary: s) (simp_all add: Let_def algebra_simps)

lemma wc_bytes_words:
  "wc_w (wc_bytes bs s) = wc_w s + of_nat (length (words_of (if wc_inword s then dropWhile (Not \<circ> blank_char) bs else bs)))"
proof (induction bs arbitrary: s)
  case (Cons b bs)
  have "blank_char 10" by (simp add: blank_char_def)
  then show ?case using Cons by (cases "blank_char b"; cases "b = 10") (auto simp: Let_def words_of_simps)
qed (simp add: words_of_simps)

lemma wc_loop_pieces: "[] \<notin> set ps \<Longrightarrow> wc_loop (map Got ps) s = Some (wc_bytes (concat ps) s)"
  by (induction ps arbitrary: s) (auto simp: wc_bytes_append)

text \<open>The counts do not depend on the pieces in which the input comes, and are modulo the size of an \<open>int\<close>.\<close>

lemma wc_counts:
  assumes "[] \<notin> set ps"
  shows "wc (map Got ps) name = ([Counts (sint (of_nat (count_list (concat ps) 10) :: u32))
     (sint (of_nat (length (words_of (concat ps))) :: u32)) (sint (of_nat (length (concat ps)) :: u32)) name], None)"
  using wc_bytes_counts [of "concat ps"] wc_bytes_words [of "concat ps"]
  by (simp add: wc_def wc_loop_pieces [OF assms])

lemma cat_copies:
  assumes "[] \<notin> set ps" and "\<forall>p \<in> set ps. wr p"
  shows "cat wr (map Got ps) = (map Out ps, None)"
  using assms by (induction ps) (auto simp: uthen_def)

lemma cat_write_error:
  "[] \<notin> set (ps @ [p]) \<Longrightarrow> \<forall>p \<in> set ps. wr p \<Longrightarrow> \<not> wr p \<Longrightarrow>
    cat wr (map Got (ps @ p # qs)) = (map Out ps @ [Msg ''cat: write error'' []], Some 1)"
  by (induction ps) (auto simp: uthen_def)

lemma fmtname_last:
  assumes "47 \<notin> set name"
  shows "fmtname (dir @ 47 # name) = name @ replicate (14 - length name) 32" "fmtname name = name @ replicate (14 - length name) 32"
proof -
  have "takeWhile (\<lambda>c. c \<noteq> 47) (rev name) = rev name" using assms by (auto simp: takeWhile_eq_all_conv)
  then have p: "rev (takeWhile (\<lambda>c. c \<noteq> 47) (rev name)) = name" by (simp only: rev_rev_ident)
  show "fmtname name = name @ replicate (14 - length name) 32" unfolding fmtname_def p Let_def by simp
  have "takeWhile (\<lambda>c. c \<noteq> 47) (rev name @ 47 # rev dir) = rev name" using assms by (subst takeWhile_append2) auto
  then have q: "rev (takeWhile (\<lambda>c. c \<noteq> 47) (rev (dir @ 47 # name))) = name" by simp
  show "fmtname (dir @ 47 # name) = name @ replicate (14 - length name) 32" unfolding fmtname_def q Let_def by simp
qed

text \<open>A directory whose entries are given by number and name: one line for each that is in use, in their order.\<close>

definition ls_line :: "ls_env \<Rightarrow> u8 list \<Rightarrow> u8 list \<Rightarrow> uout" where
  "ls_line e path name = (let f = takeWhile (\<lambda>c. c \<noteq> 0) name in case le_stat e (path @ 47 # f) of
     None \<Rightarrow> Msg ''ls: cannot stat %s'' [path @ 47 # f]
   | Some st \<Rightarrow> Entry (f @ replicate (14 - length f) 32) (us_type st) (us_ino st) (us_size st))"

lemma ls_entries_lines:
  assumes "\<forall>(a, b, name) \<in> set es. length name = 14 \<and> 47 \<notin> set name"
  shows "ls_entries e path (concat (map (\<lambda>(a, b, name). a # b # name) es))
    = map (\<lambda>(a, b, name). ls_line e path name) (filter (\<lambda>(a, b, name). a OR b \<noteq> 0) es)"
  using assms
proof (induction es)
  case Nil
  show ?case by (simp add: ls_entries.simps)
next
  case (Cons x es)
  obtain a b name where x: "x = (a, b, name)" by (cases x)
  let ?rest = "concat (map (\<lambda>(a, b, name). a # b # name) es)"
  have n: "length name = 14" "47 \<notin> set (takeWhile (\<lambda>c. c \<noteq> 0) name)"
    using Cons.prems x by (auto dest: set_takeWhileD)
  have "drop 16 (a # b # name @ ?rest) = ?rest" "take 14 (name @ ?rest) = name" using n by simp_all
  then show ?case using Cons n(1) fmtname_last(1) [OF n(2), of path]
    by (subst ls_entries.simps) (auto simp: x ls_line_def Let_def split: option.splits)
qed

text \<open>A parentless process does not make \<open>init\<close> start a shell, the exit of the shell does.\<close>

lemma init_restarts:
  assumes "\<forall>w \<in> set orphans. 0 \<le> w \<and> w \<noteq> pid" and "0 \<le> pid"
  shows "init_loop (pid # pids) (orphans @ pid # ws) = uthen ([Msg ''init: starting sh'' []], None) (init_loop pids ws)"
    and "init_loop (pid # pids) orphans = ([Msg ''init: starting sh'' []], None)"
proof -
  have "init_wait pid (orphans @ pid # ws) = Some (True, ws)" "init_wait pid orphans = None"
    using assms(1) by (induction orphans) auto
  then show "init_loop (pid # pids) (orphans @ pid # ws) = uthen ([Msg ''init: starting sh'' []], None) (init_loop pids ws)"
    "init_loop (pid # pids) orphans = ([Msg ''init: starting sh'' []], None)"
    using assms(2) by (simp_all add: uthen_def)
qed

lemma until_failure_stops:
  "\<forall>a \<in> set as. ok a \<Longrightarrow> until_failure call msg ok as = map (\<lambda>a. Call call [a]) as"
  "\<forall>a \<in> set as. ok a \<Longrightarrow> \<not> ok b \<Longrightarrow>
    until_failure call msg ok (as @ b # bs) = map (\<lambda>a. Call call [a]) (as @ [b]) @ [Msg msg [b]]"
  by (induction as) auto

lemma echo_line: "args \<noteq> [] \<Longrightarrow>
    echo_main args = (concat (map (\<lambda>a. [Out a, Out [32]]) (butlast args)) @ [Out (last args), Out [10]], Some 0)"
  by (induction args rule: echo_main.induct) (auto simp: uthen_def)

end
