(* ===== verification/Umalloc.thy ===== *)
theory Umalloc
  imports Kernel_Prelude
begin

text \<open>
  \<^verbatim>\<open>user/umalloc.c\<close>: the free-list allocator of the user library. Memory is counted in headers of 16 bytes: a \<open>Header *\<close> is its
  address divided by 16, and \<open>hptr\<close> and \<open>hsize\<close> are the fields of the headers. The static \<open>base\<close> lies below the heap. The program
  break comes from the system call \<open>sbrk\<close>, whose \<open>int\<close> argument the code computes from an unsigned product; \<open>avail\<close> is the number
  of bytes to which the kernel lets the process grow. The loops of \<open>free\<close> and \<open>malloc\<close> end only on a well-formed list, so they are partial
  functions, and the properties show that they return.
\<close>

record uheap =
  hptr :: "nat \<Rightarrow> nat"
  hsize :: "nat \<Rightarrow> nat"
  freep :: nat
  brk :: nat

subsection \<open>The routines\<close>

text \<open>
  \<open>sbrk\<close> as \<open>sys_sbrk\<close> and \<open>growproc\<close> define it: the old break or \<open>None\<close> for -1. A negative argument lowers the break, unless the new
  one would be below zero, when \<open>uvmdealloc\<close> leaves the size as it is.
\<close>

definition sbrk :: "nat \<Rightarrow> int \<Rightarrow> uheap \<Rightarrow> (nat \<times> uheap) option" where
  "sbrk avail n s =
     (if 0 \<le> n then if brk s + nat n \<le> avail then Some (brk s, s\<lparr>brk := brk s + nat n\<rparr>) else None
      else Some (brk s, if 0 \<le> int (brk s) + n then s\<lparr>brk := nat (int (brk s) + n)\<rparr> else s))"

text \<open>The loop that finds the place of block \<open>bp\<close>.\<close>

partial_function (option) free_find :: "(nat \<Rightarrow> nat) \<Rightarrow> nat \<Rightarrow> nat \<Rightarrow> nat option" where
  "free_find nxt bp p =
     (if bp > p \<and> bp < nxt p then Some p
      else if p \<ge> nxt p \<and> (bp > p \<or> bp < nxt p) then Some p
      else free_find nxt bp (nxt p))"

text \<open>Linking the block in behind \<open>p\<close>, joined with its neighbours; sizes are 32-bit.\<close>

definition join_next :: "nat \<Rightarrow> nat \<Rightarrow> uheap \<Rightarrow> uheap" where
  "join_next bp p s =
     (if bp + hsize s bp = hptr s p
      then s\<lparr>hsize := (hsize s)(bp := (hsize s bp + hsize s (hptr s p)) mod 2 ^ 32), hptr := (hptr s)(bp := hptr s (hptr s p))\<rparr>
      else s\<lparr>hptr := (hptr s)(bp := hptr s p)\<rparr>)"

definition join_prev :: "nat \<Rightarrow> nat \<Rightarrow> uheap \<Rightarrow> uheap" where
  "join_prev bp p s =
     (if p + hsize s p = bp
      then s\<lparr>hsize := (hsize s)(p := (hsize s p + hsize s bp) mod 2 ^ 32), hptr := (hptr s)(p := hptr s bp)\<rparr>
      else s\<lparr>hptr := (hptr s)(p := bp)\<rparr>)"

definition free :: "nat \<Rightarrow> uheap \<Rightarrow> uheap option" where
  "free ap s =
     (let bp = ap - 1
      in map_option (\<lambda>p. (join_prev bp p (join_next bp p s))\<lparr>freep := p\<rparr>) (free_find (hptr s) bp (freep s)))"

text \<open>The result is \<open>freep\<close> or 0.\<close>

definition morecore :: "nat \<Rightarrow> nat \<Rightarrow> uheap \<Rightarrow> (uheap \<times> nat) option" where
  "morecore avail nu s =
     (let nu' = (if nu < 4096 then 4096 else nu)
      in case sbrk avail (sint (of_nat (nu' * 16) :: u32)) s of
           None \<Rightarrow> Some (s, 0)
         | Some (p, s1) \<Rightarrow>
             let hp = p div 16
             in map_option (\<lambda>s2. (s2, freep s2)) (free (hp + 1) (s1\<lparr>hsize := (hsize s1)(hp := nu')\<rparr>)))"

text \<open>Taking \<open>n\<close> units from the block \<open>p\<close> behind \<open>prevp\<close>: the new state and the block.\<close>

definition malloc_take :: "nat \<Rightarrow> nat \<Rightarrow> nat \<Rightarrow> uheap \<Rightarrow> uheap \<times> nat" where
  "malloc_take n prevp p s =
     (if hsize s p = n then (s\<lparr>hptr := (hptr s)(prevp := hptr s p), freep := prevp\<rparr>, p)
      else let q = p + (hsize s p - n)
        in (s\<lparr>hsize := (hsize s)(p := hsize s p - n, q := n), freep := prevp\<rparr>, q))"

partial_function (option) malloc_loop :: "nat \<Rightarrow> nat \<Rightarrow> nat \<Rightarrow> nat \<Rightarrow> uheap \<Rightarrow> (uheap \<times> nat) option" where
  "malloc_loop avail n prevp p s =
     (if hsize s p \<ge> n then Some (case malloc_take n prevp p s of (s', q) \<Rightarrow> (s', q + 1))
      else if p = freep s
        then (case morecore avail n s of
            None \<Rightarrow> None
          | Some (s', p') \<Rightarrow> if p' = 0 then Some (s', 0) else malloc_loop avail n p' (hptr s' p') s')
        else malloc_loop avail n p (hptr s p) s)"

definition nunits :: "u32 \<Rightarrow> nat" where
  "nunits nbytes = (unat nbytes + 16 - 1) div 16 + 1"

definition malloc_init :: "nat \<Rightarrow> uheap \<Rightarrow> uheap" where
  "malloc_init base s =
     (if freep s = 0 then s\<lparr>hptr := (hptr s)(base := base), freep := base, hsize := (hsize s)(base := 0)\<rparr> else s)"

definition malloc :: "nat \<Rightarrow> nat \<Rightarrow> u32 \<Rightarrow> uheap \<Rightarrow> (uheap \<times> nat) option" where
  "malloc base avail nbytes s =
     (let s1 = malloc_init base s
      in malloc_loop avail (nunits nbytes) (freep s1) (hptr s1 (freep s1)) s1)"

subsection \<open>The free list\<close>

text \<open>\<open>chain nxt a xs b\<close>: following \<open>nxt\<close> from \<open>a\<close> one meets \<open>xs\<close> and then \<open>b\<close>.\<close>

primrec chain :: "(nat \<Rightarrow> nat) \<Rightarrow> nat \<Rightarrow> nat list \<Rightarrow> nat \<Rightarrow> bool" where
  "chain nxt a [] b \<longleftrightarrow> nxt a = b"
| "chain nxt a (x # xs) b \<longleftrightarrow> nxt a = x \<and> chain nxt x xs b"

text \<open>
  The blocks lie between \<open>lo\<close> and \<open>hi\<close> in the order of the list, no two of them touch, and none is empty.
\<close>

primrec spaced :: "(nat \<Rightarrow> nat) \<Rightarrow> nat \<Rightarrow> nat list \<Rightarrow> nat \<Rightarrow> bool" where
  "spaced sz lo [] hi \<longleftrightarrow> lo \<le> hi"
| "spaced sz lo (x # xs) hi \<longleftrightarrow> lo < x \<and> 0 < sz x \<and> spaced sz (x + sz x) xs hi"

definition heap_ok :: "nat \<Rightarrow> uheap \<Rightarrow> nat list \<Rightarrow> bool" where
  "heap_ok base s xs \<longleftrightarrow> 0 < base \<and> base < brk s div 16 \<and> 16 dvd brk s \<and> brk s \<le> 2 ^ 35 \<and> hsize s base = 0
     \<and> chain (hptr s) base xs base \<and> spaced (hsize s) base xs (brk s div 16) \<and> freep s \<in> set (base # xs)"

definition units :: "(nat \<Rightarrow> nat) \<Rightarrow> nat list \<Rightarrow> nat set" where
  "units sz xs = (\<Union>x \<in> set xs. {x..<x + sz x})"

lemma chain_append [simp]: "chain nxt a (xs @ y # ys) b \<longleftrightarrow> chain nxt a xs y \<and> chain nxt y ys b"
  by (induction xs arbitrary: a) auto

lemma chain_last: "chain nxt a xs b \<Longrightarrow> nxt (last (a # xs)) = b"
  by (induction xs arbitrary: a) auto

lemma chain_cong: "(\<And>x. x \<in> set (a # xs) \<Longrightarrow> nxt x = nxt' x) \<Longrightarrow> chain nxt a xs b \<longleftrightarrow> chain nxt' a xs b"
  by (induction xs arbitrary: a) auto

lemma chain_upd_other: "y \<notin> set (a # xs) \<Longrightarrow> chain (nxt(y := z)) a xs b \<longleftrightarrow> chain nxt a xs b"
  by (induction xs arbitrary: a) auto

lemma chain_upd:
  assumes "chain nxt a xs b" and "distinct (a # xs)"
  shows "chain (nxt(last (a # xs) := c)) a xs c"
  using assms
proof (induction xs arbitrary: a)
  case (Cons x xs)
  have "chain (nxt(last (x # xs) := c)) x xs c" by (rule Cons.IH) (use Cons.prems in auto)
  moreover have "last (x # xs) \<noteq> a" using Cons.prems(2) last_in_set [of "x # xs"] by force
  ultimately show ?case using Cons.prems by (auto simp: fun_upd_def)
qed simp

lemma spaced_append: "spaced sz lo (xs @ y # ys) hi \<longleftrightarrow> (\<exists>m < y. spaced sz lo xs m) \<and> 0 < sz y \<and> spaced sz (y + sz y) ys hi"
proof (induction xs arbitrary: lo)
  case Nil
  then show ?case by (auto intro: exI [of _ lo])
next
  case (Cons x xs)
  then show ?case by auto
qed

lemma spaced_le: "spaced sz lo xs hi \<Longrightarrow> lo \<le> hi"
  by (induction xs arbitrary: lo) fastforce+

lemma spaced_bounds: "spaced sz lo xs hi \<Longrightarrow> x \<in> set xs \<Longrightarrow> lo < x \<and> 0 < sz x \<and> x + sz x \<le> hi"
proof (induction xs arbitrary: lo)
  case (Cons y xs)
  show ?case
  proof (cases "x = y")
    case True
    then show ?thesis using Cons.prems spaced_le by auto
  next
    case False
    then have "y + sz y < x \<and> 0 < sz x \<and> x + sz x \<le> hi" using Cons.IH [of "y + sz y"] Cons.prems by simp
    then show ?thesis using Cons.prems by simp
  qed
qed simp

lemma spaced_mono: "spaced sz lo xs hi \<Longrightarrow> lo' \<le> lo \<Longrightarrow> hi \<le> hi' \<Longrightarrow> spaced sz lo' xs hi'"
  by (induction xs arbitrary: lo lo') auto

lemma spaced_cong: "(\<And>x. x \<in> set xs \<Longrightarrow> sz x = sz' x) \<Longrightarrow> spaced sz lo xs hi \<longleftrightarrow> spaced sz' lo xs hi"
  by (induction xs arbitrary: lo) auto

lemma spaced_sorted: "spaced sz lo xs hi \<Longrightarrow> sorted_wrt (<) (lo # xs)"
proof (induction xs arbitrary: lo)
  case (Cons x xs)
  then have "sorted_wrt (<) ((x + sz x) # xs)" by (intro Cons.IH) simp
  with Cons.prems show ?case by fastforce
qed simp

lemma sorted_distinct: "sorted_wrt (<) (xs :: nat list) \<Longrightarrow> distinct xs"
  by (induction xs) auto

lemma units_simps [simp]:
  "units sz [] = {}" "units sz (x # xs) = {x..<x + sz x} \<union> units sz xs" "units sz (xs @ ys) = units sz xs \<union> units sz ys"
  by (auto simp: units_def)

lemma units_cong: "(\<And>x. x \<in> set xs \<Longrightarrow> sz x = sz' x) \<Longrightarrow> units sz xs = units sz' xs"
  by (simp add: units_def)

lemma upd_other:
  assumes "y \<notin> set xs"
  shows "spaced (sz(y := z)) lo xs hi \<longleftrightarrow> spaced sz lo xs hi" and "units (sz(y := z)) xs = units sz xs"
  using assms by (auto intro!: spaced_cong units_cong)

lemma units_between: "spaced sz lo xs hi \<Longrightarrow> u \<in> units sz xs \<Longrightarrow> lo < u \<and> u < hi"
  using spaced_bounds by (fastforce simp: units_def)

subsection \<open>Finding the place of a block\<close>

text \<open>Upwards to the last block below \<open>bp\<close>; from above it over the end of the list.\<close>

lemma free_find_up:
  assumes "chain nxt p as q" and "sorted_wrt (<) (p # as)" and "\<forall>y \<in> set (p # as). y < bp"
    and "bp < q \<or> q \<le> last (p # as)"
  shows "free_find nxt bp p = Some (last (p # as))"
  using assms
proof (induction as arbitrary: p)
  case Nil
  then show ?case by (subst free_find.simps) auto
next
  case (Cons a as)
  have "free_find nxt bp a = Some (last (a # as))" by (rule Cons.IH) (use Cons.prems in auto)
  moreover have "p < a" "a < bp" "nxt p = a" using Cons.prems by auto
  ultimately show ?case by (subst free_find.simps) simp
qed

lemma free_find_down:
  assumes "chain nxt p as base" and "sorted_wrt (<) (p # as)" and "\<forall>y \<in> set (p # as). bp < y" and "base < bp"
  shows "free_find nxt bp p = free_find nxt bp base"
  using assms
proof (induction as arbitrary: p)
  case Nil
  then show ?case by (subst free_find.simps) auto
next
  case (Cons a as)
  have "free_find nxt bp a = free_find nxt bp base" by (rule Cons.IH) (use Cons.prems in auto)
  moreover have "p < a" "bp < p" "nxt p = a" using Cons.prems by auto
  ultimately show ?case by (subst free_find.simps) simp
qed

text \<open>A list with a gap at \<open>bp\<close>.\<close>

lemma gap_split:
  assumes "sorted_wrt (<) (xs :: nat list)" and "bp \<notin> set xs"
  obtains as bs where "xs = as @ bs" and "\<forall>y \<in> set as. y < bp" and "\<forall>y \<in> set bs. bp < y"
proof -
  let ?as = "takeWhile (\<lambda>y. y < bp) xs" and ?bs = "dropWhile (\<lambda>y. y < bp) xs"
  have "\<forall>y \<in> set ?bs. bp < y"
  proof (cases ?bs)
    case Nil
    show ?thesis unfolding Nil by simp
  next
    case (Cons b bs)
    then have "\<not> b < bp" using hd_dropWhile [of "\<lambda>y. y < bp" xs] by simp
    moreover have "b \<in> set xs" using Cons set_dropWhileD [of b] by (metis list.set_intros(1))
    ultimately have "bp < b" using assms(2) by (metis linorder_neqE_nat)
    moreover have "sorted_wrt (<) ?bs" using assms(1) by (metis sorted_wrt_append takeWhile_dropWhile_id)
    ultimately show ?thesis using Cons by auto
  qed
  then show thesis using that [of ?as ?bs] by (auto dest: set_takeWhileD)
qed

text \<open>From anywhere in the list the search finds the block before the gap.\<close>

lemma free_find_gap:
  assumes "chain nxt base (as @ bs) base" and "sorted_wrt (<) (base # as @ bs)" and "base < bp"
    and "\<forall>y \<in> set as. y < bp" and "\<forall>y \<in> set bs. bp < y" and "p \<in> set (base # as @ bs)"
  shows "free_find nxt bp p = Some (last (base # as))"
proof -
  have low: "free_find nxt bp q = Some (last (base # as))" if "base # as = us @ q # vs" for us q vs
  proof -
    have c: "chain nxt q (vs @ bs) base"
    proof (cases us)
      case Nil
      then show ?thesis using that assms(1) by simp
    next
      case (Cons u us')
      then have "as = us' @ q # vs" using that by simp
      then show ?thesis using assms(1) by simp
    qed
    have srt: "sorted_wrt (<) ((us @ q # vs) @ bs)" using assms(2) that by (metis append_Cons)
    have lst: "last (q # vs) = last (base # as)" using that by (metis append_is_Nil_conv last_appendR list.distinct(1))
    have lt: "\<forall>y \<in> set (q # vs). y < bp" using that assms(3,4) by (metis Un_iff set_append set_ConsD)
    show ?thesis
    proof (cases bs)
      case Nil
      have "base \<le> last (q # vs)"
      proof -
        have "sorted_wrt (<) (base # as)" using assms(2) by (simp add: sorted_wrt_append)
        then show ?thesis unfolding lst by (auto intro: less_imp_le)
      qed
      then have "free_find nxt bp q = Some (last (q # vs))"
        by (intro free_find_up [of _ _ _ base]) (use c srt lt Nil in \<open>auto simp: sorted_wrt_append\<close>)
      then show ?thesis using lst by simp
    next
      case (Cons b bs')
      then have "free_find nxt bp q = Some (last (q # vs))"
        by (intro free_find_up [of _ _ _ b]) (use c srt lt assms(5) in \<open>auto simp: sorted_wrt_append\<close>)
      then show ?thesis using lst by simp
    qed
  qed
  show ?thesis
  proof (cases "p \<in> set (base # as)")
    case True
    then obtain us vs where "base # as = us @ p # vs" by (meson split_list)
    then show ?thesis by (rule low)
  next
    case False
    then have "p \<in> set bs" using assms(6) by auto
    then obtain us vs where uv: "bs = us @ p # vs" by (meson split_list)
    have "chain nxt p vs base" using assms(1) uv by (metis append.assoc chain_append)
    moreover have "sorted_wrt (<) (p # vs)" "\<forall>y \<in> set (p # vs). bp < y"
      using assms(2,5) uv by (auto simp: sorted_wrt_append)
    ultimately have "free_find nxt bp p = free_find nxt bp base" by (rule free_find_down [OF _ _ _ assms(3)])
    also have "\<dots> = Some (last (base # as))" by (rule low [of "[]"]) simp
    finally show ?thesis .
  qed
qed

subsection \<open>Joining neighbours\<close>

text \<open>
  The block at \<open>bp\<close> joined with a block it touches above: the list \<open>cs\<close> of the blocks above it afterwards.
\<close>

lemma join_next_run:
  assumes ch: "chain (hptr s) base (as @ bs) base" and p: "p = last (base # as)"
    and sp: "spaced (hsize s) (bp + hsize s bp - 1) bs hi" and hi: "bp + hsize s bp \<le> hi" "hi < 2 ^ 32" "base < bp" "0 < hsize s bp"
    and new: "bp \<notin> set (base # as)"
  obtains cs where "chain (hptr (join_next bp p s)) bp cs base"
    and "spaced (hsize (join_next bp p s)) (bp + hsize (join_next bp p s) bp) cs hi"
    and "{bp..<bp + hsize (join_next bp p s) bp} \<union> units (hsize (join_next bp p s)) cs = {bp..<bp + hsize s bp} \<union> units (hsize s) bs"
    and "\<And>x. x \<noteq> bp \<Longrightarrow> hsize (join_next bp p s) x = hsize s x \<and> hptr (join_next bp p s) x = hptr s x"
    and "brk (join_next bp p s) = brk s" and "0 < hsize (join_next bp p s) bp" and "set cs \<subseteq> set bs"
proof (cases bs)
  case Nil
  then have nx: "hptr s p = base" using ch p chain_last by simp
  have ne: "bp + hsize s bp \<noteq> base" using hi by simp
  show thesis
    by (rule that [of "[]"]) (use nx ne hi Nil in \<open>auto simp: join_next_def\<close>)
next
  case (Cons b cs)
  have nx: "hptr s p = b" using ch p chain_last [of "hptr s" base as b] Cons by simp
  have cb: "chain (hptr s) b cs base" using ch Cons by simp
  have b: "bp + hsize s bp \<le> b" "0 < hsize s b" "spaced (hsize s) (b + hsize s b) cs hi" using sp hi(4) Cons by auto
  have above: "bp < y" if "y \<in> set (b # cs)" for y
    using that b hi(4) spaced_bounds [OF b(3), of y] by auto
  have nb: "bp \<notin> set (b # cs)" using above by blast
  have cc: "chain ((hptr s)(bp := z)) b cs base" for z using cb chain_upd_other [OF nb] by simp
  have sc: "spaced ((hsize s)(bp := z)) lo cs hi = spaced (hsize s) lo cs hi" "units ((hsize s)(bp := z)) cs = units (hsize s) cs" for z lo
    using nb by (simp_all add: upd_other)
  have bhi: "b + hsize s b \<le> hi" using spaced_le [OF b(3)] .
  show thesis
  proof (cases "bp + hsize s bp = b")
    case True
    have m: "(hsize s bp + hsize s b) mod 2 ^ 32 = hsize s bp + hsize s b" using True bhi hi(2) by simp
    have j: "join_next bp p s = s\<lparr>hsize := (hsize s)(bp := hsize s bp + hsize s b), hptr := (hptr s)(bp := hptr s b)\<rparr>"
      using True nx m by (simp add: join_next_def)
    have "chain ((hptr s)(bp := hptr s b)) bp cs base"
      using cc [of "hptr s b"] nb by (cases cs) auto
    moreover have "bp + (hsize s bp + hsize s b) = b + hsize s b" using True by simp
    ultimately show thesis
      by (intro that [of cs]) (use j b(3) hi sc Cons True in \<open>auto simp: fun_upd_def add.assoc\<close>)
  next
    case False
    have j: "join_next bp p s = s\<lparr>hptr := (hptr s)(bp := b)\<rparr>" using False nx by (simp add: join_next_def)
    show thesis
      by (rule that [of bs]) (use j b hi cc [of b] False Cons nb in \<open>auto simp: fun_upd_def\<close>)
  qed
qed

text \<open>The block at \<open>bp\<close> linked in behind \<open>p\<close>, or joined with it.\<close>

lemma join_prev_run:
  assumes ch: "chain (hptr s) base as z" "chain (hptr s) bp cs base" and p: "p = last (base # as)"
    and sp: "spaced (hsize s) base as bp" "spaced (hsize s) (bp + hsize s bp) cs hi"
    and pos: "0 < hsize s bp" "hsize s base = 0" "base < bp" "hi < 2 ^ 32"
  obtains ys where "chain (hptr (join_prev bp p s)) base ys base" and "spaced (hsize (join_prev bp p s)) base ys hi"
    and "units (hsize (join_prev bp p s)) ys = units (hsize s) as \<union> {bp..<bp + hsize s bp} \<union> units (hsize s) cs"
    and "\<And>x. x \<noteq> p \<Longrightarrow> hsize (join_prev bp p s) x = hsize s x \<and> hptr (join_prev bp p s) x = hptr s x"
    and "brk (join_prev bp p s) = brk s" and "p \<in> set (base # ys)" and "hsize (join_prev bp p s) base = 0"
proof -
  have srt: "sorted_wrt (<) (base # as)" "sorted_wrt (<) (bp # cs)"
    using spaced_sorted [OF sp(1)] spaced_sorted [OF spaced_mono [OF sp(2)], of bp] by auto
  have low: "y < bp" if "y \<in> set (base # as)" for y using that spaced_bounds [OF sp(1), of y] pos(3) by auto
  have hib: "bp < y" if "y \<in> set cs" for y using that srt(2) by auto
  have pin: "p \<in> set (base # as)" using p last_in_set [of "base # as"] by simp
  have pc: "p \<notin> set (bp # cs)" using low [OF pin] hib [of p] by auto
  have d: "distinct (base # as)" by (rule sorted_distinct [OF srt(1)])
  have cas: "chain ((hptr s)(p := y)) base as y" for y using chain_upd [OF ch(1) d] p by simp
  have ccs: "chain ((hptr s)(p := y)) bp cs base" for y using ch(2) chain_upd_other [OF pc] by simp
  show thesis
  proof (cases "p + hsize s p = bp")
    case False
    have j: "join_prev bp p s = s\<lparr>hptr := (hptr s)(p := bp)\<rparr>" using False by (simp add: join_prev_def)
    have "spaced (hsize s) base as (bp - 1)"
    proof (cases as rule: rev_cases)
      case Nil
      then show ?thesis using pos(3) by simp
    next
      case (snoc as' q)
      then show ?thesis using sp(1) p False by (auto simp: spaced_append)
    qed
    then have "spaced (hsize s) base (as @ bp # cs) hi" using sp(2) pos(1,3) by (auto simp: spaced_append intro!: exI [of _ "bp - 1"])
    then show thesis using cas ccs pin pos(2) by (intro that [of "as @ bp # cs"]) (simp_all add: j Un_assoc, blast)
  next
    case True
    then obtain as' where as: "as = as' @ [p]" using p pos(2,3) by (cases as rule: rev_cases) auto
    have bh: "bp + hsize s bp \<le> hi" by (rule spaced_le [OF sp(2)])
    have m: "(hsize s p + hsize s bp) mod 2 ^ 32 = hsize s p + hsize s bp" using True bh pos(4) by simp
    have j: "join_prev bp p s = s\<lparr>hsize := (hsize s)(p := hsize s p + hsize s bp), hptr := (hptr s)(p := hptr s bp)\<rparr>"
      using True m by (simp add: join_prev_def)
    have pas: "p \<notin> set as'" "p \<noteq> base" using d as by auto
    have "spaced (hsize s) base (as' @ p # []) bp" using sp(1) as by simp
    then have "\<exists>m < p. spaced (hsize s) base as' m" "0 < hsize s p" by (simp_all add: spaced_append)
    moreover have "p + (hsize s p + hsize s bp) = bp + hsize s bp" using True by simp
    ultimately have spd: "spaced ((hsize s)(p := hsize s p + hsize s bp)) base (as' @ p # cs) hi"
      using pas pc sp(2) by (simp only: spaced_append upd_other fun_upd_same) (simp add: upd_other)
    have "chain ((hptr s)(p := hptr s bp)) p cs base"
      using ccs [of "hptr s bp"] pc by (cases cs) auto
    moreover have "chain ((hptr s)(p := hptr s bp)) base as' p"
      using cas [of "hptr s bp"] as by simp
    ultimately have chn: "chain ((hptr s)(p := hptr s bp)) base (as' @ p # cs) base" by simp
    have "{p..<p + (hsize s p + hsize s bp)} = {p..<p + hsize s p} \<union> {bp..<bp + hsize s bp}" using True by auto
    then have u: "units ((hsize s)(p := hsize s p + hsize s bp)) (as' @ p # cs) = units (hsize s) as \<union> {bp..<bp + hsize s bp} \<union> units (hsize s) cs"
      using pas pc as by (auto simp: upd_other)
    show thesis by (rule that [of "as' @ p # cs"]) (use chn spd u pas pos(2) j in simp_all)
  qed
qed

lemma heap_okD:
  assumes "heap_ok base s xs"
  shows "0 < base" and "base < brk s div 16" and "16 dvd brk s" and "brk s \<le> 2 ^ 35" and "hsize s base = 0"
    and "chain (hptr s) base xs base" and "spaced (hsize s) base xs (brk s div 16)" and "freep s \<in> set (base # xs)"
    and "sorted_wrt (<) (base # xs)" and "brk s div 16 < 2 ^ 32"
  using assms spaced_sorted [of "hsize s" base xs "brk s div 16"] by (auto simp: heap_ok_def)

text \<open>The effect of \<open>free\<close> on a block that is not free.\<close>

lemma free_run:
  assumes ok: "heap_ok base s xs" and bp: "base < bp" "0 < hsize s bp" "bp + hsize s bp \<le> brk s div 16"
    and dis: "{bp..<bp + hsize s bp} \<inter> units (hsize s) xs = {}"
  obtains s' ys where "free (bp + 1) s = Some s'" and "heap_ok base s' ys"
    and "units (hsize s') ys = units (hsize s) xs \<union> {bp..<bp + hsize s bp}" and "brk s' = brk s"
    and "\<And>x. x \<notin> units (hsize s') ys \<Longrightarrow> x \<noteq> base \<Longrightarrow> hsize s' x = hsize s x \<and> hptr s' x = hptr s x"
proof -
  note D = heap_okD [OF ok]
  have inU: "x \<in> units (hsize s) xs" if "x \<in> set xs" for x
    using that spaced_bounds [OF D(7) that] by (force simp: units_def)
  have "bp \<notin> set xs" using dis inU bp(2) by fastforce
  then obtain as bs where split: "xs = as @ bs" "\<forall>y \<in> set as. y < bp" "\<forall>y \<in> set bs. bp < y"
    using gap_split [of xs bp] D(9) by auto
  define p where "p = last (base # as)"
  have f: "free_find (hptr s) bp (freep s) = Some p"
    unfolding p_def by (rule free_find_gap [of _ _ _ bs]) (use D split bp in auto)
  have lo: "spaced (hsize s) base as bp"
  proof (cases as rule: rev_cases)
    case Nil
    then show ?thesis using bp by simp
  next
    case (snoc as' q)
    then have q: "q < bp" "{q..<q + hsize s q} \<subseteq> units (hsize s) xs" using split by (auto simp: units_def)
    then have "q + hsize s q \<le> bp" using dis bp(2) by (metis IntI atLeastLessThan_iff empty_iff le_refl less_add_same_cancel1 linorder_not_le nat_less_le subsetD)
    moreover have "\<exists>m < q. spaced (hsize s) base as' m" "0 < hsize s q" using D(7) split(1) snoc by (auto simp: spaced_append)
    ultimately show ?thesis using snoc by (auto simp: spaced_append)
  qed
  have up: "spaced (hsize s) (bp + hsize s bp - 1) bs (brk s div 16)"
  proof (cases bs)
    case Nil
    then show ?thesis using bp by simp
  next
    case (Cons b cs)
    then have b: "bp < b" "b \<in> units (hsize s) xs" using split inU [of b] by simp_all
    then have "bp + hsize s bp \<le> b" using dis by (metis IntI atLeastLessThan_iff empty_iff less_imp_le linorder_not_le)
    then show ?thesis using D(7) split(1) Cons bp(2) by (auto simp: spaced_append)
  qed
  let ?s1 = "join_next bp p s"
  have nb: "bp \<notin> set (base # as)" using split(2) bp(1) by auto
  obtain cs where s1: "chain (hptr ?s1) bp cs base" "spaced (hsize ?s1) (bp + hsize ?s1 bp) cs (brk s div 16)"
    "{bp..<bp + hsize ?s1 bp} \<union> units (hsize ?s1) cs = {bp..<bp + hsize s bp} \<union> units (hsize s) bs"
    "\<And>x. x \<noteq> bp \<Longrightarrow> hsize ?s1 x = hsize s x \<and> hptr ?s1 x = hptr s x" "brk ?s1 = brk s" "0 < hsize ?s1 bp"
    by (rule join_next_run [of s base as bs p bp "brk s div 16"]) (use D split up bp nb p_def in auto)
  obtain z where "chain (hptr s) base as z" using D(6) split(1) by (cases bs) auto
  then have c1: "chain (hptr ?s1) base as z" 
  proof -
    have "hptr ?s1 x = hptr s x" if "x \<in> set (base # as)" for x using that nb s1(4) [of x] by metis
    then show "chain (hptr ?s1) base as z" if "chain (hptr s) base as z" using that chain_cong by metis
  qed
  have sp1: "spaced (hsize ?s1) base as bp" "units (hsize ?s1) as = units (hsize s) as"
  proof -
    have e: "hsize ?s1 x = hsize s x" if "x \<in> set as" for x using that nb s1(4) [of x] by (metis list.set_intros(2))
    show "spaced (hsize ?s1) base as bp" using lo by (subst spaced_cong [of as _ "hsize s"]) (simp_all add: e)
    show "units (hsize ?s1) as = units (hsize s) as" by (rule units_cong) (simp add: e)
  qed
  have b1: "hsize ?s1 base = 0" using s1(4) [of base] bp(1) D(5) by simp
  let ?s2 = "join_prev bp p ?s1"
  obtain ys where s2: "chain (hptr ?s2) base ys base" "spaced (hsize ?s2) base ys (brk s div 16)"
    "units (hsize ?s2) ys = units (hsize ?s1) as \<union> {bp..<bp + hsize ?s1 bp} \<union> units (hsize ?s1) cs"
    "\<And>x. x \<noteq> p \<Longrightarrow> hsize ?s2 x = hsize ?s1 x \<and> hptr ?s2 x = hptr ?s1 x" "brk ?s2 = brk ?s1" "p \<in> set (base # ys)" "hsize ?s2 base = 0"
    by (rule join_prev_run [OF c1 s1(1) p_def sp1(1) s1(2) s1(6) b1 bp(1) D(10)]) blast
  let ?s' = "?s2\<lparr>freep := p\<rparr>"
  have u: "units (hsize ?s2) ys = units (hsize s) xs \<union> {bp..<bp + hsize s bp}" using s2(3) s1(3) sp1(2) split(1) by auto
  have fr: "hsize ?s2 x = hsize s x \<and> hptr ?s2 x = hptr s x" if "x \<notin> units (hsize ?s2) ys" "x \<noteq> base" for x
  proof -
    have "x \<noteq> bp" using that(1) u bp(2) by auto
    moreover have "x \<noteq> p"
    proof
      assume "x = p"
      then have "x \<in> set ys" using s2(6) that(2) by simp
      then show False using that(1) spaced_bounds [OF s2(2), of x] by (force simp: units_def)
    qed
    ultimately show ?thesis using s1(4) s2(4) by simp
  qed
  show thesis
    by (rule that [of ?s' ys]) (use f D s1(5) s2 u fr in \<open>auto simp: free_def heap_ok_def\<close>)
qed

subsection \<open>Allocating\<close>

text \<open>The list read from any of its blocks on, once around.\<close>

lemma ring_from:
  assumes "chain nxt base xs base" and "sorted_wrt (<) (base # xs)" and "f \<in> set (base # xs)"
  obtains zs where "chain nxt f zs f" and "f \<notin> set zs" and "set (base # xs) = insert f (set zs)"
proof (cases "f = base")
  case True
  then show thesis using assms by (intro that [of xs]) auto
next
  case False
  then obtain as bs where xs: "xs = as @ f # bs" using assms(3) by (auto dest: split_list)
  have "f \<notin> set (bs @ base # as)" using sorted_distinct [OF assms(2)] xs by auto
  then show thesis using assms(1) xs by (intro that [of "bs @ base # as"]) auto
qed

text \<open>Passing blocks that are too small.\<close>

lemma malloc_scan:
  assumes "chain (hptr s) prevp us q" and "\<forall>a \<in> set us. hsize s a < n \<and> a \<noteq> freep s"
  shows "malloc_loop avail n prevp (hptr s prevp) s = malloc_loop avail n (last (prevp # us)) q s"
  using assms
proof (induction us arbitrary: prevp)
  case Nil
  then show ?case by simp
next
  case (Cons a us)
  have "malloc_loop avail n a (hptr s a) s = malloc_loop avail n (last (a # us)) q s"
    by (rule Cons.IH) (use Cons.prems in auto)
  moreover have "malloc_loop avail n prevp a s = malloc_loop avail n a (hptr s a) s"
    using Cons.prems by (subst malloc_loop.simps) auto
  ultimately show ?case using Cons.prems by simp
qed

lemma malloc_fit:
  assumes ok: "heap_ok base s xs" and n: "0 < n" and fit: "\<exists>x \<in> set xs. n \<le> hsize s x"
  obtains prevp x where "x \<in> set xs" and "n \<le> hsize s x" and "prevp \<in> set (base # xs)" and "hptr s prevp = x"
    and "malloc_loop avail n (freep s) (hptr s (freep s)) s = Some (case malloc_take n prevp x s of (s', q) \<Rightarrow> (s', q + 1))"
proof -
  note D = heap_okD [OF ok]
  let ?f = "freep s"
  obtain zs where zs: "chain (hptr s) ?f zs ?f" "?f \<notin> set zs" "set (base # xs) = insert ?f (set zs)"
    by (rule ring_from [OF D(6,9,8)])
  have "set xs \<subseteq> insert ?f (set zs)" using zs(3) by auto
  then have "\<exists>x \<in> set (zs @ [?f]). n \<le> hsize s x" using fit by auto
  then obtain us x vs where uv: "zs @ [?f] = us @ x # vs" "n \<le> hsize s x" "\<forall>y \<in> set us. \<not> n \<le> hsize s y"
    using split_list_first_prop [of "zs @ [?f]" "\<lambda>x. n \<le> hsize s x"] by auto
  have us: "chain (hptr s) ?f us x \<and> set us \<subseteq> set zs"
  proof (cases vs rule: rev_cases)
    case Nil
    then show ?thesis using uv(1) zs(1) by simp
  next
    case (snoc vs' v)
    then have "zs = us @ x # vs'" using uv(1) by simp
    then show ?thesis using zs(1) by auto
  qed
  have x: "x \<in> set (base # xs)"
  proof -
    have "x \<in> set (zs @ [?f])" unfolding uv(1) by simp
    then show ?thesis using zs(3) by auto
  qed
  then have "x \<in> set xs" using D(5) n uv(2) by auto
  moreover have "last (?f # us) \<in> set (base # xs)"
    using us zs(3) D(8) last_in_set [of "?f # us"] by auto
  moreover have "hptr s (last (?f # us)) = x" using us chain_last by blast
  moreover have "malloc_loop avail n ?f (hptr s ?f) s = malloc_loop avail n (last (?f # us)) x s"
    by (rule malloc_scan) (use us uv(3) zs(2) in auto)
  moreover have "malloc_loop avail n (last (?f # us)) x s = Some (case malloc_take n (last (?f # us)) x s of (s', q) \<Rightarrow> (s', q + 1))"
    using uv(2) by (subst malloc_loop.simps) simp
  ultimately show thesis using that uv(2) by metis
qed

text \<open>The effect of taking a block.\<close>

lemma malloc_take_run:
  assumes ok: "heap_ok base s xs" and x: "x \<in> set xs" "n \<le> hsize s x" "prevp \<in> set (base # xs)" "hptr s prevp = x" and n: "0 < n"
  obtains s' q ys where "malloc_take n prevp x s = (s', q)" and "heap_ok base s' ys" and "hsize s' q = n"
    and "{q..<q + n} \<subseteq> units (hsize s) xs" and "units (hsize s') ys = units (hsize s) xs - {q..<q + n}" and "brk s' = brk s"
    and "\<And>y. y \<notin> units (hsize s) xs \<Longrightarrow> hsize s' y = hsize s y"
proof -
  note D = heap_okD [OF ok]
  obtain us vs where "base # xs = us @ prevp # vs" using x(3) by (meson split_list)
  then have "chain (hptr s) prevp vs base" using D(6) by (cases us) auto
  then obtain bs where vs: "vs = x # bs" using x(1,4) D(9) by (cases vs) auto
  obtain as where xs: "xs = as @ x # bs" and prv: "prevp = last (base # as)"
  proof (cases us)
    case Nil
    then show thesis using that [of "[]"] \<open>base # xs = us @ prevp # vs\<close> vs by simp
  next
    case (Cons u ws)
    then show thesis using that [of "ws @ [prevp]"] \<open>base # xs = us @ prevp # vs\<close> vs by simp
  qed
  have c: "chain (hptr s) base as x" "chain (hptr s) x bs base" using D(6) xs by auto
  have d: "distinct (base # as @ x # bs)" using sorted_distinct [OF D(9)] xs by simp
  obtain m where sp: "m < x" "spaced (hsize s) base as m" "0 < hsize s x" "spaced (hsize s) (x + hsize s x) bs (brk s div 16)"
    using D(7) xs by (auto simp: spaced_append)
  have sep: "units (hsize s) as \<inter> {x..<x + hsize s x} = {}" "units (hsize s) bs \<inter> {x..<x + hsize s x} = {}"
    using units_between [OF sp(2)] units_between [OF sp(4)] sp(1) by fastforce+
  have pin: "prevp \<in> set (base # as)" using prv last_in_set [of "base # as"] by simp
  show thesis
  proof (cases "hsize s x = n")
    case True
    let ?s = "s\<lparr>hptr := (hptr s)(prevp := hptr s x), freep := prevp\<rparr>"
    have "chain ((hptr s)(prevp := hptr s x)) base as (hptr s x)" using chain_upd [OF c(1)] d prv by simp
    moreover have "chain ((hptr s)(prevp := hptr s x)) x bs base"
      using c(2) chain_upd_other [of prevp x bs] pin d by auto
    moreover have "hptr s x = (case bs of [] \<Rightarrow> base | b # _ \<Rightarrow> b)" using c(2) by (cases bs) auto
    ultimately have "chain ((hptr s)(prevp := hptr s x)) base (as @ bs) base" by (cases bs) auto
    moreover have "spaced (hsize s) base (as @ bs) (brk s div 16)"
    proof (cases bs)
      case Nil
      then show ?thesis using spaced_mono [OF sp(2), of base] sp(1,4) by simp
    next
      case (Cons b bs')
      then show ?thesis using sp by (auto simp: spaced_append intro!: exI [of _ m])
    qed
    moreover have "units (hsize s) (as @ bs) = units (hsize s) xs - {x..<x + n}" using sep xs True by auto
    ultimately show thesis
      using True D xs pin by (intro that [of ?s x "as @ bs"]) (auto simp: malloc_take_def heap_ok_def)
  next
    case False
    define q where "q = x + (hsize s x - n)"
    let ?h = "(hsize s)(x := hsize s x - n, q := n)"
    have q: "x < q" "q + n = x + hsize s x" using False x(2) by (auto simp: q_def)
    have nq: "q \<notin> set (base # as @ x # bs)"
    proof -
      have "q \<noteq> y" if "y \<in> set as" for y using spaced_bounds [OF sp(2) that] sp(1) q(1) by auto
      moreover have "q \<noteq> y" if "y \<in> set bs" for y using spaced_bounds [OF sp(4) that] q(2) n by auto
      ultimately show ?thesis using q(1) D(9) xs by auto
    qed
    have h: "?h y = hsize s y" if "y \<in> set (as @ bs)" for y using that nq d by auto
    have hx: "?h x = hsize s x - n" using q(1) by simp
    have a: "spaced ?h lo as hi = spaced (hsize s) lo as hi" "spaced ?h lo bs hi = spaced (hsize s) lo bs hi"
      "units ?h as = units (hsize s) as" "units ?h bs = units (hsize s) bs" for lo hi
      using h by (auto intro!: spaced_cong units_cong simp del: fun_upd_apply)
    have "spaced (hsize s) (x + (hsize s x - n)) bs (brk s div 16)" by (rule spaced_mono [OF sp(4)]) simp_all
    then have "spaced ?h base xs (brk s div 16)" using sp(1,2) False x(2) by (auto simp: xs spaced_append a hx simp del: fun_upd_apply)
    moreover have "{x..<x + (hsize s x - n)} = {x..<x + hsize s x} - {q..<q + n}" using q by (auto simp: q_def)
    then have "units ?h xs = units (hsize s) xs - {q..<q + n}"
      using sep q by (auto simp: xs a hx simp del: fun_upd_apply)
    moreover have "{q..<q + n} \<subseteq> units (hsize s) xs" using q xs by auto
    moreover have "malloc_take n prevp x s = (s\<lparr>hsize := ?h, freep := prevp\<rparr>, q)" using False by (simp add: malloc_take_def q_def Let_def)
    moreover have "?h base = 0" using D(5) nq d by auto
    moreover have "?h y = hsize s y" if "y \<notin> units (hsize s) xs" for y
    proof -
      have "x \<in> units (hsize s) xs" "q \<in> units (hsize s) xs" using xs q sp(3) n by auto
      then show ?thesis using that by auto
    qed
    ultimately show thesis
      using D x(3) by (intro that [of "s\<lparr>hsize := ?h, freep := prevp\<rparr>" q xs]) (auto simp: heap_ok_def fun_upd_same simp del: fun_upd_apply)
  qed
qed

text \<open>An interval of free units lies in one block, since no two blocks touch.\<close>

lemma block_end_not_free: "spaced sz lo xs hi \<Longrightarrow> y \<in> set xs \<Longrightarrow> y + sz y \<notin> units sz xs"
proof (induction xs arbitrary: lo)
  case (Cons x xs)
  then have sp: "spaced sz (x + sz x) xs hi" by simp
  show ?case
  proof (cases "y = x")
    case True
    then show ?thesis using units_between [OF sp, of "x + sz x"] by auto
  next
    case False
    then have y: "y \<in> set xs" using Cons.prems by simp
    have "x + sz x < y" using spaced_bounds [OF sp y] by simp
    then show ?thesis using Cons.IH [OF sp y] by auto
  qed
qed simp

lemma interval_in_block:
  assumes "spaced sz lo xs hi" and "{a..<a + k} \<subseteq> units sz xs" and "0 < k"
  shows "\<exists>y \<in> set xs. k \<le> sz y"
proof -
  have "a \<in> units sz xs" using assms(2,3) by auto
  then obtain y where y: "y \<in> set xs" "y \<le> a" "a < y + sz y" by (auto simp: units_def)
  have "a + k \<le> y + sz y"
  proof (rule ccontr)
    assume "\<not> a + k \<le> y + sz y"
    then have "y + sz y \<in> units sz xs" using y assms(2) by auto
    then show False using block_end_not_free [OF assms(1) y(1)] by simp
  qed
  then show ?thesis using y by (intro bexI [of _ y]) auto
qed

lemma sint_small31: "k < 2 ^ 31 \<Longrightarrow> sint (of_nat k :: u32) = int k"
  by (simp add: signed_of_nat signed_take_bit_int_eq_self)

lemma morecore_run:
  assumes ok: "heap_ok base s xs" and n: "n < 2 ^ 27" and av: "avail \<le> 2 ^ 35"
  shows "if brk s + 16 * max 4096 n \<le> avail
    then \<exists>s' ys. morecore avail n s = Some (s', freep s') \<and> freep s' \<noteq> 0 \<and> heap_ok base s' ys
      \<and> brk s' = brk s + 16 * max 4096 n \<and> units (hsize s') ys = units (hsize s) xs \<union> {brk s div 16..<brk s' div 16}
      \<and> (\<forall>x. x \<notin> units (hsize s') ys \<longrightarrow> x \<noteq> base \<longrightarrow> hsize s' x = hsize s x)
    else morecore avail n s = Some (s, 0)"
proof -
  note D = heap_okD [OF ok]
  let ?nu = "max 4096 n" and ?hp = "brk s div 16"
  have nu: "(if n < 4096 then 4096 else n) = ?nu" by (auto simp: max_def)
  have si: "sint (of_nat (?nu * 16) :: u32) = int (?nu * 16)" by (rule sint_small31) (use n in \<open>auto simp: max_def\<close>)
  show ?thesis
  proof (cases "brk s + 16 * ?nu \<le> avail")
    case False
    then have "sbrk avail (int (?nu * 16)) s = None" by (simp add: sbrk_def nat_mult_distrib mult.commute)
    then show ?thesis unfolding morecore_def nu Let_def si using False by simp
  next
    case True
    let ?s = "s\<lparr>brk := brk s + ?nu * 16, hsize := (hsize s)(?hp := ?nu)\<rparr>"
    have top: "(brk s + ?nu * 16) div 16 = ?hp + ?nu" by simp
    have hx: "?hp \<notin> set xs" using spaced_bounds [OF D(7), of ?hp] by auto
    have "spaced (hsize s) base xs (?hp + ?nu)" by (rule spaced_mono [OF D(7)]) simp_all
    then have ok1: "heap_ok base ?s xs" using D True av hx top by (auto simp: heap_ok_def upd_other)
    have un: "units ((hsize s)(?hp := ?nu)) xs = units (hsize s) xs" using hx by (simp add: upd_other)
    have dis: "{?hp..<?hp + hsize ?s ?hp} \<inter> units (hsize ?s) xs = {}"
      using units_between [OF D(7)] un by fastforce
    have pre: "0 < hsize ?s ?hp" "?hp + hsize ?s ?hp \<le> brk ?s div 16" using top by simp_all
    obtain s' ys where s': "free (?hp + 1) ?s = Some s'" "heap_ok base s' ys"
      "units (hsize s') ys = units (hsize ?s) xs \<union> {?hp..<?hp + hsize ?s ?hp}" "brk s' = brk ?s"
      "\<And>x. x \<notin> units (hsize s') ys \<Longrightarrow> x \<noteq> base \<Longrightarrow> hsize s' x = hsize ?s x \<and> hptr s' x = hptr ?s x"
      by (rule free_run [OF ok1 D(2) pre dis]) blast
    have "freep s' \<noteq> 0" using heap_okD(1,8,9) [OF s'(2)] by auto
    moreover have "morecore avail n s = Some (s', freep s')"
    proof -
      have "sbrk avail (int (?nu * 16)) s = Some (brk s, s\<lparr>brk := brk s + ?nu * 16\<rparr>)"
        using True by (simp add: sbrk_def nat_mult_distrib mult.commute)
      then show ?thesis unfolding morecore_def nu Let_def si using s'(1) by simp
    qed
    moreover have "hsize s' x = hsize s x" if "x \<notin> units (hsize s') ys" "x \<noteq> base" for x
    proof -
      have "x \<noteq> ?hp" using that(1) s'(3) pre(1) by auto
      then show ?thesis using s'(5) [OF that] by simp
    qed
    moreover have "brk s' = brk s + 16 * ?nu" using s'(4) by simp
    moreover have "units (hsize s') ys = units (hsize s) xs \<union> {?hp..<brk s' div 16}"
      using s'(3,4) un top by (simp add: add.commute)
    ultimately have "morecore avail n s = Some (s', freep s') \<and> freep s' \<noteq> 0 \<and> heap_ok base s' ys
      \<and> brk s' = brk s + 16 * ?nu \<and> units (hsize s') ys = units (hsize s) xs \<union> {?hp..<brk s' div 16}
      \<and> (\<forall>x. x \<notin> units (hsize s') ys \<longrightarrow> x \<noteq> base \<longrightarrow> hsize s' x = hsize s x)" using s'(2) by simp
    then show ?thesis unfolding if_P [OF True] by blast
  qed
qed

text \<open>What a call of \<open>malloc\<close> leads to.\<close>

definition allocated :: "nat \<Rightarrow> nat \<Rightarrow> uheap \<Rightarrow> nat set \<Rightarrow> uheap \<Rightarrow> nat \<Rightarrow> bool" where
  "allocated base n s F s' p \<longleftrightarrow> (let b = p - 1; G = F \<union> {brk s div 16..<brk s' div 16} in
     0 < p \<and> base < b \<and> brk s' \<in> {brk s, brk s + 16 * max 4096 n} \<and> hsize s' b = n \<and> {b..<b + n} \<subseteq> G
     \<and> (\<exists>ys. heap_ok base s' ys \<and> units (hsize s') ys = G - {b..<b + n})
     \<and> (\<forall>x. x \<notin> G \<longrightarrow> x \<noteq> base \<longrightarrow> hsize s' x = hsize s x))"

lemma malloc_fit_allocated:
  assumes ok: "heap_ok base s xs" and n: "0 < n" and fit: "\<exists>x \<in> set xs. n \<le> hsize s x"
  obtains s' p where "malloc_loop avail n (freep s) (hptr s (freep s)) s = Some (s', p)" and "allocated base n s (units (hsize s) xs) s' p"
    and "brk s' = brk s"
proof -
  obtain prevp x where x: "x \<in> set xs" "n \<le> hsize s x" "prevp \<in> set (base # xs)" "hptr s prevp = x"
    "malloc_loop avail n (freep s) (hptr s (freep s)) s = Some (case malloc_take n prevp x s of (s', q) \<Rightarrow> (s', q + 1))"
    by (rule malloc_fit [OF ok n fit])
  obtain s' q ys where t: "malloc_take n prevp x s = (s', q)" "heap_ok base s' ys" "hsize s' q = n"
    "{q..<q + n} \<subseteq> units (hsize s) xs" "units (hsize s') ys = units (hsize s) xs - {q..<q + n}" "brk s' = brk s"
    "\<And>y. y \<notin> units (hsize s) xs \<Longrightarrow> hsize s' y = hsize s y"
    by (rule malloc_take_run [OF ok x(1-4) n]) blast
  have "q \<in> {q..<q + n}" using n by simp
  then have "base < q" using units_between [OF heap_okD(7) [OF ok], of q] t(4) by blast
  then show thesis using t x(5) by (intro that [of s' "q + 1"]) (auto simp: allocated_def)
qed

lemma malloc_no_fit:
  assumes ok: "heap_ok base s xs" and n: "0 < n" and none: "\<forall>x \<in> set xs. hsize s x < n"
  shows "malloc_loop avail n (freep s) (hptr s (freep s)) s =
    (case morecore avail n s of None \<Rightarrow> None
     | Some (s', p') \<Rightarrow> if p' = 0 then Some (s', 0) else malloc_loop avail n p' (hptr s' p') s')"
proof -
  note D = heap_okD [OF ok]
  obtain zs where zs: "chain (hptr s) (freep s) zs (freep s)" "freep s \<notin> set zs" "set (base # xs) = insert (freep s) (set zs)"
    by (rule ring_from [OF D(6,9,8)])
  have small: "hsize s y < n" if "y \<in> insert (freep s) (set zs)" for y
    using that none D(5) n unfolding zs(3) [symmetric] by auto
  have "malloc_loop avail n (freep s) (hptr s (freep s)) s = malloc_loop avail n (last (freep s # zs)) (freep s) s"
    by (rule malloc_scan [OF zs(1)]) (use zs(2) small in auto)
  also have "\<dots> = (case morecore avail n s of None \<Rightarrow> None
     | Some (s', p') \<Rightarrow> if p' = 0 then Some (s', 0) else malloc_loop avail n p' (hptr s' p') s')"
    using small [of "freep s"] by (subst malloc_loop.simps) simp
  finally show ?thesis .
qed

lemma malloc_run:
  assumes ok: "heap_ok base s xs" and nb: "unat nbytes < 2 ^ 31 - 32" and av: "avail \<le> 2 ^ 35"
  shows "\<exists>s' p. malloc base avail nbytes s = Some (s', p)
    \<and> (if p = 0 then s' = s \<and> (\<forall>x \<in> set xs. hsize s x < nunits nbytes) \<and> avail < brk s + 16 * max 4096 (nunits nbytes)
       else allocated base (nunits nbytes) s (units (hsize s) xs) s' p)"
proof -
  note D = heap_okD [OF ok]
  let ?n = "nunits nbytes"
  have n: "0 < ?n" "?n < 2 ^ 27" using nb by (auto simp: nunits_def)
  have i: "malloc base avail nbytes s = malloc_loop avail ?n (freep s) (hptr s (freep s)) s"
    using D(1,8,9) by (auto simp: malloc_def malloc_init_def)
  show ?thesis
  proof (cases "\<exists>x \<in> set xs. ?n \<le> hsize s x")
    case True
    obtain s' p where "malloc_loop avail ?n (freep s) (hptr s (freep s)) s = Some (s', p)"
      "allocated base ?n s (units (hsize s) xs) s' p" by (rule malloc_fit_allocated [OF ok n(1) True])
    then show ?thesis using i by (auto simp: allocated_def Let_def)
  next
    case False
    then have none: "\<forall>x \<in> set xs. hsize s x < ?n" by auto
    note m = morecore_run [OF ok n(2) av] and l = malloc_no_fit [OF ok n(1) none, of avail]
    show ?thesis
    proof (cases "brk s + 16 * max 4096 ?n \<le> avail")
      case no: False
      then have "malloc base avail nbytes s = Some (s, 0)" using i l m by simp
      then show ?thesis using none no by simp
    next
      case True
      obtain s1 ys where s1: "morecore avail ?n s = Some (s1, freep s1)" "freep s1 \<noteq> 0" "heap_ok base s1 ys"
        "brk s1 = brk s + 16 * max 4096 ?n" "units (hsize s1) ys = units (hsize s) xs \<union> {brk s div 16..<brk s1 div 16}"
        "\<And>x. x \<notin> units (hsize s1) ys \<Longrightarrow> x \<noteq> base \<Longrightarrow> hsize s1 x = hsize s x"
        using m True by auto
      have top: "brk s1 div 16 = brk s div 16 + max 4096 ?n" using s1(4) by simp
      have "{brk s div 16..<brk s div 16 + max 4096 ?n} \<subseteq> units (hsize s1) ys" unfolding s1(5) top by blast
      then have "\<exists>y \<in> set ys. max 4096 ?n \<le> hsize s1 y" by (rule interval_in_block [OF heap_okD(7) [OF s1(3)]]) simp
      then have fit: "\<exists>y \<in> set ys. ?n \<le> hsize s1 y" by auto
      obtain s' p where s': "malloc_loop avail ?n (freep s1) (hptr s1 (freep s1)) s1 = Some (s', p)"
        "allocated base ?n s1 (units (hsize s1) ys) s' p" "brk s' = brk s1" by (rule malloc_fit_allocated [OF s1(3) n(1) fit])
      have "allocated base ?n s (units (hsize s) xs) s' p"
        using s'(2,3) s1(4,5,6) by (auto simp: allocated_def Let_def)
      moreover have "malloc base avail nbytes s = Some (s', p)" using i l s1(1,2) s'(1) by simp
      ultimately show ?thesis by (auto simp: allocated_def Let_def)
    qed
  qed
qed

subsection \<open>The contract\<close>

text \<open>
  What the users of an allocator of units rely on: \<open>state s F\<close> says that \<open>F\<close> are the free units of \<open>s\<close>, \<open>extent s b\<close> is the size of the
  block at \<open>b\<close>, and \<open>fits s n b\<close> that a block of \<open>n\<close> units at \<open>b\<close> lies in the heap.
\<close>

locale unit_allocator =
  fixes alloc :: "'a \<Rightarrow> 's \<Rightarrow> ('s \<times> nat) option" and release :: "nat \<Rightarrow> 's \<Rightarrow> 's option"
    and state :: "'s \<Rightarrow> nat set \<Rightarrow> bool" and extent :: "'s \<Rightarrow> nat \<Rightarrow> nat" and top :: "'s \<Rightarrow> nat" and bottom :: nat
    and request :: "'a \<Rightarrow> nat" and good :: "'a \<Rightarrow> bool"
  assumes alloc_returns: "state s F \<Longrightarrow> good r \<Longrightarrow> \<exists>s' p. alloc r s = Some (s', p) \<and> (p = 0 \<longrightarrow> s' = s)"
    and alloc_block: "state s F \<Longrightarrow> good r \<Longrightarrow> alloc r s = Some (s', p) \<Longrightarrow> p \<noteq> 0 \<Longrightarrow>
      bottom < p - 1 \<and> top s \<le> top s' \<and> extent s' (p - 1) = request r \<and> 0 < request r
      \<and> {p - 1..<p - 1 + request r} \<subseteq> F \<union> {top s..<top s'}
      \<and> state s' (F \<union> {top s..<top s'} - {p - 1..<p - 1 + request r})"
    and alloc_frame: "state s F \<Longrightarrow> good r \<Longrightarrow> alloc r s = Some (s', p) \<Longrightarrow> p \<noteq> 0 \<Longrightarrow>
      x \<notin> F \<union> {top s..<top s'} \<Longrightarrow> x \<noteq> bottom \<Longrightarrow> extent s' x = extent s x"
    and below_top: "state s F \<Longrightarrow> F \<subseteq> {..<top s}"
    and release_block: "state s F \<Longrightarrow> bottom < b \<Longrightarrow> 0 < extent s b \<Longrightarrow> b + extent s b \<le> top s \<Longrightarrow> {b..<b + extent s b} \<inter> F = {} \<Longrightarrow>
      \<exists>s'. release (b + 1) s = Some s' \<and> state s' (F \<union> {b..<b + extent s b}) \<and> top s' = top s"
begin

text \<open>A block that is given back is free again, with the memory the heap grew by.\<close>

lemma alloc_release:
  assumes "state s F" and "good r" and "alloc r s = Some (s', p)" and "p \<noteq> 0"
  shows "\<exists>t. release p s' = Some t \<and> state t (F \<union> {top s..<top s'})"
proof -
  let ?b = "p - 1" and ?G = "F \<union> {top s..<top s'}"
  note a = alloc_block [OF assms]
  have sub: "?G \<subseteq> {..<top s'}" using below_top [OF assms(1)] a by auto
  have "?b + request r \<le> top s'"
  proof -
    have "?b + request r - 1 \<in> {?b..<?b + request r}" using a by auto
    then have "?b + request r - 1 < top s'" using a sub by blast
    then show ?thesis by simp
  qed
  then obtain t where "release (?b + 1) s' = Some t" "state t (?G - {?b..<?b + request r} \<union> {?b..<?b + request r})"
    using release_block [of s' "?G - {?b..<?b + request r}" ?b] a by auto
  moreover have "?G - {?b..<?b + request r} \<union> {?b..<?b + request r} = ?G" using a by auto
  ultimately show ?thesis using assms(4) by auto
qed

text \<open>Two blocks in use do not overlap, and the first one keeps its size.\<close>

lemma two_blocks_apart:
  assumes "state s F" and "good r" and "alloc r s = Some (s1, p)" and "p \<noteq> 0"
    and "good r2" and "alloc r2 s1 = Some (s2, q)" and "q \<noteq> 0"
  shows "{p - 1..<p - 1 + request r} \<inter> {q - 1..<q - 1 + request r2} = {} \<and> extent s2 (p - 1) = request r"
proof -
  let ?B = "{p - 1..<p - 1 + request r}" and ?G = "F \<union> {top s..<top s1}"
  note a = alloc_block [OF assms(1-4)]
  have st: "state s1 (?G - ?B)" using a by blast
  note b = alloc_block [OF st assms(5-7)]
  have "?G \<subseteq> {..<top s1}" using a below_top [OF assms(1)] by auto
  then have "?B \<subseteq> {..<top s1}" using a by blast
  then have dis: "?B \<inter> (?G - ?B \<union> {top s1..<top s2}) = {}" by auto
  moreover have "p - 1 \<in> ?B" using a by auto
  ultimately have "p - 1 \<notin> ?G - ?B \<union> {top s1..<top s2}" by blast
  then have "extent s2 (p - 1) = extent s1 (p - 1)" by (rule alloc_frame [OF st assms(5-7)]) (use a in auto)
  moreover have "?B \<inter> {q - 1..<q - 1 + request r2} = {}" using dis b by blast
  ultimately show ?thesis using a by simp
qed

end

definition heap_free :: "nat \<Rightarrow> uheap \<Rightarrow> nat set \<Rightarrow> bool" where
  "heap_free base s F \<longleftrightarrow> (\<exists>xs. heap_ok base s xs \<and> units (hsize s) xs = F)"

interpretation um: unit_allocator "malloc base (min avail (2 ^ 35))" free "heap_free base" hsize "\<lambda>s. brk s div 16" base nunits
    "\<lambda>nbytes. unat nbytes < 2 ^ 31 - 32"
  for base avail :: nat
proof
  fix s s' :: uheap and F :: "nat set" and r :: u32 and p x b :: nat
  assume st: "heap_free base s F"
  then obtain xs where xs: "heap_ok base s xs" "units (hsize s) xs = F" by (auto simp: heap_free_def)
  show "F \<subseteq> {..<brk s div 16}" using units_between [OF heap_okD(7) [OF xs(1)]] xs(2) by auto
  show "\<exists>t. free (b + 1) s = Some t \<and> heap_free base t (F \<union> {b..<b + hsize s b}) \<and> brk t div 16 = brk s div 16"
    if h: "base < b" "0 < hsize s b" "b + hsize s b \<le> brk s div 16" "{b..<b + hsize s b} \<inter> F = {}"
  proof -
    obtain t ys where "free (b + 1) s = Some t" "heap_ok base t ys" "units (hsize t) ys = units (hsize s) xs \<union> {b..<b + hsize s b}" "brk t = brk s"
      by (rule free_run [OF xs(1) h(1-3)]) (use h(4) xs(2) in auto)
    then show ?thesis using xs(2) by (auto simp: heap_free_def)
  qed
  assume r: "unat r < 2 ^ 31 - 32"
  note run = malloc_run [OF xs(1) r, of "min avail (2 ^ 35)"]
  show "\<exists>s' p. malloc base (min avail (2 ^ 35)) r s = Some (s', p) \<and> (p = 0 \<longrightarrow> s' = s)" using run by (auto split: if_splits)
  assume c: "malloc base (min avail (2 ^ 35)) r s = Some (s', p)" "p \<noteq> 0"
  then have al: "allocated base (nunits r) s F s' p" using run xs(2) by auto
  show "base < p - 1 \<and> brk s div 16 \<le> brk s' div 16 \<and> hsize s' (p - 1) = nunits r \<and> 0 < nunits r
      \<and> {p - 1..<p - 1 + nunits r} \<subseteq> F \<union> {brk s div 16..<brk s' div 16}
      \<and> heap_free base s' (F \<union> {brk s div 16..<brk s' div 16} - {p - 1..<p - 1 + nunits r})"
    using al by (auto simp: allocated_def Let_def heap_free_def nunits_def intro: div_le_mono)
  show "hsize s' x = hsize s x" if "x \<notin> F \<union> {brk s div 16..<brk s' div 16}" "x \<noteq> base"
    using al that by (auto simp: allocated_def Let_def)
qed

subsection \<open>Properties\<close>

text \<open>
  C17 (termination). On a well-formed heap \<open>malloc\<close> returns: its search comes around the circular list, and when it asks the kernel
  for more memory the second search finds a block. It returns null only when no free block is large enough and the
  kernel refuses the memory, with the heap as it was; otherwise the block has the units that were asked for, room for the bytes behind its header, lies in the
  free units or in the new memory, and these without it are the free units afterwards, again well formed.
\<close>

theorem malloc_returns_block:
  assumes "heap_ok base s xs" and "unat nbytes < 2 ^ 31 - 32" and "avail \<le> 2 ^ 35"
  shows "\<exists>s' p. malloc base avail nbytes s = Some (s', p)
    \<and> (if p = 0 then s' = s \<and> (\<forall>x \<in> set xs. hsize s x < nunits nbytes) \<and> avail < brk s + 16 * max 4096 (nunits nbytes)
       else let b = p - 1; n = nunits nbytes; F = units (hsize s) xs \<union> {brk s div 16..<brk s' div 16} in
         unat nbytes \<le> 16 * (n - 1) \<and> hsize s' b = n \<and> {b..<b + n} \<subseteq> F
         \<and> (\<exists>ys. heap_ok base s' ys \<and> units (hsize s') ys = F - {b..<b + n}))"
proof -
  obtain s' p where m: "malloc base avail nbytes s = Some (s', p)"
    "if p = 0 then s' = s \<and> (\<forall>x \<in> set xs. hsize s x < nunits nbytes) \<and> avail < brk s + 16 * max 4096 (nunits nbytes)
     else allocated base (nunits nbytes) s (units (hsize s) xs) s' p" using malloc_run [OF assms] by blast
  have "unat nbytes \<le> 16 * (nunits nbytes - 1)" by (simp add: nunits_def)
  then show ?thesis using m by (cases "p = 0") (simp_all add: allocated_def Let_def)
qed

text \<open>
  C16 (refinement). The allocator implements a set of free units: whatever is allocated in between, two blocks in use never overlap, a
  block keeps its size, and giving a block back makes exactly its units free again, joined with its neighbours.
\<close>

theorem malloc_blocks_apart:
  assumes "heap_free base s F" and "unat m < 2 ^ 31 - 32" and "unat n < 2 ^ 31 - 32" and "avail \<le> 2 ^ 35"
    and "malloc base avail m s = Some (s1, p)" and "p \<noteq> 0" and "malloc base avail n s1 = Some (s2, q)" and "q \<noteq> 0"
  shows "{p - 1..<p - 1 + nunits m} \<inter> {q - 1..<q - 1 + nunits n} = {} \<and> hsize s2 (p - 1) = nunits m
    \<and> (\<exists>t. free q s2 = Some t
         \<and> heap_free base t (F \<union> {brk s div 16..<brk s1 div 16} - {p - 1..<p - 1 + nunits m} \<union> {brk s1 div 16..<brk s2 div 16}))"
proof -
  have av: "min avail (2 ^ 35) = avail" using assms(4) by simp
  note two = um.two_blocks_apart [of base s F m avail s1 p n s2 q, unfolded av]
    and blk = um.alloc_block [of base s F m avail s1 p, unfolded av] and rel = um.alloc_release [of base s1 _ n avail s2 q, unfolded av]
  have "heap_free base s1 (F \<union> {brk s div 16..<brk s1 div 16} - {p - 1..<p - 1 + nunits m})"
    using blk assms by blast
  then show ?thesis using two rel assms by simp
qed

text \<open>A heap before the first allocation, with \<open>base\<close> at unit 10 and the break at unit 256.\<close>

definition fresh_heap :: uheap where
  "fresh_heap = malloc_init 10 \<lparr>hptr = (\<lambda>_. 0), hsize = (\<lambda>_. 0), freep = 0, brk = 4096\<rparr>"

lemma fresh_heap_ok: "heap_ok 10 fresh_heap []"
  by (simp add: fresh_heap_def malloc_init_def heap_ok_def)

theorem malloc_returns_block_witness:
  "\<exists>s' p. malloc 10 (2 ^ 20) 100 fresh_heap = Some (s', p) \<and> 0 < p \<and> hsize s' (p - 1) = 8"
proof -
  have "nunits 100 = 8" "\<not> (2 :: nat) ^ 20 < brk fresh_heap + 16 * max 4096 8"
    by (simp_all add: nunits_def fresh_heap_def malloc_init_def)
  then show ?thesis using malloc_returns_block [OF fresh_heap_ok, of 100 "2 ^ 20"] by (auto simp: Let_def split: if_splits)
qed

theorem malloc_blocks_apart_witness:
  "\<exists>s1 p s2 q. malloc 10 (2 ^ 20) 100 fresh_heap = Some (s1, p) \<and> malloc 10 (2 ^ 20) 40 s1 = Some (s2, q)
     \<and> {p - 1..<p - 1 + 8} \<inter> {q - 1..<q - 1 + 4} = {}"
proof -
  have n: "nunits 100 = 8" "nunits 40 = 4" by (simp_all add: nunits_def)
  have b: "brk fresh_heap = 4096" by (simp add: fresh_heap_def malloc_init_def)
  obtain s1 p where s1: "malloc 10 (2 ^ 20) 100 fresh_heap = Some (s1, p)" "p \<noteq> 0" "allocated 10 8 fresh_heap {} s1 p"
    using malloc_run [OF fresh_heap_ok, of 100 "2 ^ 20"] by (auto simp: n b split: if_splits)
  then obtain ys where ys: "heap_ok 10 s1 ys" "brk s1 \<le> 69632" by (auto simp: allocated_def Let_def b)
  obtain s2 q where s2: "malloc 10 (2 ^ 20) 40 s1 = Some (s2, q)" "q \<noteq> 0"
    using malloc_run [OF ys(1), of 40 "2 ^ 20"] ys(2) by (auto simp: n split: if_splits)
  have "heap_free 10 fresh_heap {}" using fresh_heap_ok by (auto simp: heap_free_def)
  then show ?thesis
    using malloc_blocks_apart [of 10 fresh_heap "{}" 100 40 "2 ^ 20" s1 p s2 q] s1 s2 n by auto
qed

text \<open>
  A request of \<open>2 ^ 31\<close> bytes: the byte count does not fit in the \<open>int\<close> argument of \<open>sbrk\<close>, which is negative, and \<open>sbrk\<close> succeeds
  without raising the break.
\<close>

lemma sbrk_of_huge_request:
  assumes "brk s < 2 ^ 31 - 16"
  shows "sbrk avail (sint (of_nat (nunits (2 ^ 31) * 16) :: u32)) s = Some (brk s, s)"
  using assms by (simp add: nunits_def sbrk_def)

end
