(* ===== verification/Sh.thy ===== *)
theory Sh
  imports Kernel_Prelude
begin

text \<open>
  The parser of \<^verbatim>\<open>user/sh.c\<close>. The text from \<open>*ps\<close> to \<open>es\<close> is a list of bytes, without zero; a parsing routine returns the command
  and the text that is left, or the message it gives to \<open>panic\<close>. A word of the command is the text between its start and end pointer, which is the
  string it becomes when \<open>nulterminate\<close> has written the zeros. The recursion between the routines has fuel, of which
  \<open>parsecmd\<close> gives four units for a byte and four more; the properties show that this is enough.
\<close>

datatype cmd =
    EXEC "u8 list list"
  | REDIR cmd "u8 list" int int
  | PIPE cmd cmd
  | LIST cmd cmd
  | BACK cmd

datatype 'a parse = Parsed 'a "u8 list" | Syntax string | Leftovers "u8 list" | NoFuel

definition MAXARGS :: nat where "MAXARGS = 10"

abbreviation (input) t_lt :: u8 where "t_lt \<equiv> 60"
abbreviation (input) t_gt :: u8 where "t_gt \<equiv> 62"
abbreviation (input) t_bar :: u8 where "t_bar \<equiv> 124"
abbreviation (input) t_amp :: u8 where "t_amp \<equiv> 38"
abbreviation (input) t_semi :: u8 where "t_semi \<equiv> 59"
abbreviation (input) t_open :: u8 where "t_open \<equiv> 40"
abbreviation (input) t_close :: u8 where "t_close \<equiv> 41"
abbreviation (input) t_plus :: u8 where "t_plus \<equiv> 43"
abbreviation (input) t_word :: u8 where "t_word \<equiv> 97"

definition whitespace :: "u8 \<Rightarrow> bool" where
  "whitespace c \<longleftrightarrow> c \<in> {32, 9, 13, 10, 11}"

definition symbol :: "u8 \<Rightarrow> bool" where
  "symbol c \<longleftrightarrow> c \<in> {t_lt, t_bar, t_gt, t_amp, t_semi, t_open, t_close}"

abbreviation word_char :: "u8 \<Rightarrow> bool" where
  "word_char c \<equiv> \<not> whitespace c \<and> \<not> symbol c"

subsection \<open>Tokens\<close>

definition skip :: "u8 list \<Rightarrow> u8 list" where
  "skip s = dropWhile whitespace s"

lemma skip_simps [simp]: "skip [] = []" "skip (c # s) = (if whitespace c then skip s else c # s)"
  by (simp_all add: skip_def)

lemma skip_cases: "skip s = c # t \<Longrightarrow> \<not> whitespace c"
  by (induction s) (auto split: if_splits)

text \<open>The token (0 at the end), its text and what follows it.\<close>

definition gettoken :: "u8 list \<Rightarrow> u8 \<times> u8 list \<times> u8 list" where
  "gettoken s = (case skip s of
       [] \<Rightarrow> (0, [], [])
     | c # t \<Rightarrow>
         if c \<in> {t_bar, t_open, t_close, t_semi, t_amp, t_lt} then (c, [c], skip t)
         else if c = t_gt then
           (case t of d # t' \<Rightarrow> if d = t_gt then (t_plus, [c, d], skip t') else (t_gt, [c], skip t) | [] \<Rightarrow> (t_gt, [c], []))
         else (t_word, takeWhile word_char (c # t), skip (dropWhile word_char (c # t))))"

text \<open>Whether the next token is one of \<open>toks\<close>, and the text with the white space before it removed.\<close>

definition peek :: "u8 list \<Rightarrow> u8 list \<Rightarrow> bool \<times> u8 list" where
  "peek toks s = (case skip s of [] \<Rightarrow> (False, []) | c # t \<Rightarrow> (c \<in> set toks, c # t))"

lemma skip_le: "length (skip s) \<le> length s"
  unfolding skip_def by (rule length_dropWhile_le)

lemma gettoken_shorter:
  assumes "gettoken s = (tok, w, r)"
  shows "length r \<le> length s \<and> (tok \<noteq> 0 \<longrightarrow> length r < length s)"
proof (cases "skip s")
  case Nil
  then show ?thesis using assms by (simp add: gettoken_def)
next
  case (Cons c t)
  have s: "Suc (length t) \<le> length s" using skip_le [of s] Cons by simp
  have "length (skip t) \<le> length t" by (rule skip_le)
  moreover have "length (skip (dropWhile word_char t)) \<le> length t"
    using skip_le [of "dropWhile word_char t"] length_dropWhile_le [of word_char t] by simp
  moreover have "length (skip (tl t)) \<le> length t" using skip_le [of "tl t"] by simp
  moreover have "c \<noteq> t_gt \<and> c \<notin> {t_bar, t_open, t_close, t_semi, t_amp, t_lt} \<Longrightarrow> word_char c"
    using skip_cases [OF Cons] by (auto simp: symbol_def)
  ultimately show ?thesis using assms Cons s
    by (cases t) (auto simp: gettoken_def split: if_splits)
qed

lemma peek_rest [simp]: "snd (peek toks s) = skip s"
  by (simp add: peek_def split: list.splits)

lemma peek_true: "fst (peek toks s) \<longleftrightarrow> skip s \<noteq> [] \<and> hd (skip s) \<in> set toks"
  by (simp add: peek_def split: list.splits)

lemma skip_skip [simp]: "skip (skip s) = skip s"
  using skip_cases by (cases "skip s") auto

lemma gettoken_skip: "gettoken (skip s) = gettoken s"
  by (simp add: gettoken_def)

lemma gettoken_peeked:
  assumes "fst (peek toks s)" and "0 \<notin> set toks" and "gettoken s = (tok, w, r)"
  shows "tok \<noteq> 0" and "length r < length s"
proof -
  have "tok \<noteq> 0"
  proof
    assume "tok = 0"
    then have "hd (skip s) = 0" using assms by (auto simp: gettoken_def peek_true split: list.splits if_splits)
    then show False using assms(1,2) by (simp add: peek_true)
  qed
  then show "tok \<noteq> 0" "length r < length s" using gettoken_shorter [OF assms(3)] by auto
qed

subsection \<open>The routines\<close>

text \<open>Redirections as file, mode and descriptor, and the command they make.\<close>

type_synonym redir = "u8 list \<times> int \<times> int"

definition redircmds :: "cmd \<Rightarrow> redir list \<Rightarrow> cmd" where
  "redircmds c rs = foldl (\<lambda>c (file, mode, fd). REDIR c file mode fd) c rs"

text \<open>The switch in \<open>parseredirs\<close>: \<open>O_RDONLY\<close>, \<open>O_WRONLY|O_CREATE|O_TRUNC\<close> and \<open>O_WRONLY|O_CREATE\<close>.\<close>

definition redir_of :: "u8 \<Rightarrow> u8 list \<Rightarrow> redir" where
  "redir_of tok file = (if tok = t_lt then (file, 0, 0) else if tok = t_gt then (file, 0x601, 1) else (file, 0x201, 1))"

function parseredirs :: "redir list \<Rightarrow> u8 list \<Rightarrow> redir list parse" where
  "parseredirs rs s =
     (if fst (peek [t_lt, t_gt] s)
      then let (tok, _, s1) = gettoken s; (tok2, file, s2) = gettoken s1
        in if tok2 \<noteq> t_word then Syntax ''missing file for redirection''
           else parseredirs (rs @ [redir_of tok file]) s2
      else Parsed rs (skip s))"
  by pat_completeness auto
termination
proof (relation "measure (\<lambda>(_, s). length s)")
  fix rs s x tok y u s1 z tok2 v w2 s2
  assume a: "fst (peek [t_lt, t_gt] s)" "x = gettoken s" "(tok, y) = x" "(u, s1) = y" "z = gettoken s1" "(tok2, v) = z" "(w2, s2) = v"
  have "length s1 < length s" by (rule gettoken_peeked(2) [OF a(1), of tok u]) (use a in auto)
  moreover have "length s2 \<le> length s1" using gettoken_shorter [of s1 tok2 w2 s2] a by auto
  ultimately show "((rs @ [redir_of tok w2], s2), (rs, s)) \<in> measure (\<lambda>(_, s). length s)" by simp
qed simp

declare parseredirs.simps [simp del]

lemma parseredirs_shorter: "parseredirs rs s = Parsed rs' r \<Longrightarrow> length r \<le> length s"
proof (induction rs s rule: parseredirs.induct)
  case (1 rs s)
  obtain tok u s1 where t1: "gettoken s = (tok, u, s1)" by (metis prod_cases3)
  obtain tok2 w s2 where t2: "gettoken s1 = (tok2, w, s2)" by (metis prod_cases3)
  show ?case
  proof (cases "fst (peek [t_lt, t_gt] s)")
    case False
    then show ?thesis using 1(2) skip_le [of s] by (simp add: parseredirs.simps [of rs])
  next
    case True
    then have "tok2 = t_word" "parseredirs (rs @ [redir_of tok w]) s2 = Parsed rs' r"
      using 1(2) t1 t2 by (auto simp: parseredirs.simps [of rs] split: if_splits)
    then have "length r \<le> length s2" using 1(1) [OF True t1 [symmetric] refl refl t2 [symmetric] refl refl] by simp
    then show ?thesis using gettoken_shorter [OF t1] gettoken_shorter [OF t2] by simp
  qed
qed

text \<open>The loop over the words of a simple command, with its words and redirections so far.\<close>

function parseargs :: "u8 list list \<Rightarrow> redir list \<Rightarrow> u8 list \<Rightarrow> (u8 list list \<times> redir list) parse" where
  "parseargs argv rs s =
     (if fst (peek [t_bar, t_close, t_amp, t_semi] s) then Parsed (argv, rs) (skip s)
      else let (tok, w, s1) = gettoken s
        in if tok = 0 then Parsed (argv, rs) s1
           else if tok \<noteq> t_word then Syntax ''syntax''
           else if length argv + 1 \<ge> MAXARGS then Syntax ''too many args''
           else (case parseredirs rs s1 of
               Parsed rs' s2 \<Rightarrow> parseargs (argv @ [w]) rs' s2
             | Syntax e \<Rightarrow> Syntax e
             | Leftovers l \<Rightarrow> Leftovers l
             | NoFuel \<Rightarrow> NoFuel))"
  by pat_completeness auto
termination
proof (relation "measure (\<lambda>(_, _, s). length s)")
  fix argv rs s x tok y w s1 rs' s2
  assume a: "x = gettoken s" "(tok, y) = x" "(w, s1) = y" "tok \<noteq> 0" "parseredirs rs s1 = Parsed rs' s2"
  have "length s1 < length s" using gettoken_shorter [of s tok w s1] a by auto
  then show "((argv @ [w], rs', s2), (argv, rs, s)) \<in> measure (\<lambda>(_, _, s). length s)"
    using parseredirs_shorter [OF a(5)] by simp
qed simp

declare parseargs.simps [simp del]

text \<open>The loop \<open>while(peek(ps, es, "&"))\<close> of \<open>parseline\<close>.\<close>

function parsebacks :: "cmd \<Rightarrow> u8 list \<Rightarrow> cmd \<times> u8 list" where
  "parsebacks c s =
     (if fst (peek [t_amp] s) then let (_, _, s1) = gettoken s in parsebacks (BACK c) s1 else (c, skip s))"
  by pat_completeness auto
termination
proof (relation "measure (\<lambda>(_, s). length s)")
  fix c s x tok y u s1
  assume a: "fst (peek [t_amp] s)" "x = gettoken s" "(tok, y) = x" "(u, s1) = y"
  have "length s1 < length s" by (rule gettoken_peeked(2) [OF a(1), of tok u]) (use a in auto)
  then show "((BACK c, s1), (c, s)) \<in> measure (\<lambda>(_, s). length s)" by simp
qed simp

declare parsebacks.simps [simp del]

text \<open>The text after one token.\<close>

abbreviation after :: "u8 list \<Rightarrow> u8 list" where
  "after s \<equiv> snd (snd (gettoken s))"

fun parseline :: "nat \<Rightarrow> u8 list \<Rightarrow> cmd parse"
  and parsepipe :: "nat \<Rightarrow> u8 list \<Rightarrow> cmd parse"
  and parseexec :: "nat \<Rightarrow> u8 list \<Rightarrow> cmd parse"
  and parseblock :: "nat \<Rightarrow> u8 list \<Rightarrow> cmd parse" where
  "parseline 0 s = NoFuel"
| "parseline (Suc n) s = (case parsepipe n s of
       Parsed c s1 \<Rightarrow> (case parsebacks c s1 of (c', s2) \<Rightarrow>
         if fst (peek [t_semi] s2)
         then (case parseline n (after s2) of Parsed d s3 \<Rightarrow> Parsed (LIST c' d) s3 | e \<Rightarrow> e)
         else Parsed c' (skip s2))
     | e \<Rightarrow> e)"
| "parsepipe 0 s = NoFuel"
| "parsepipe (Suc n) s = (case parseexec n s of
       Parsed c s1 \<Rightarrow>
         if fst (peek [t_bar] s1)
         then (case parsepipe n (after s1) of Parsed d s2 \<Rightarrow> Parsed (PIPE c d) s2 | e \<Rightarrow> e)
         else Parsed c (skip s1)
     | e \<Rightarrow> e)"
| "parseexec 0 s = NoFuel"
| "parseexec (Suc n) s =
     (if fst (peek [t_open] s) then parseblock n s
      else case parseredirs [] s of
          Parsed rs s1 \<Rightarrow> (case parseargs [] rs s1 of
              Parsed (argv, rs') s2 \<Rightarrow> Parsed (redircmds (EXEC argv) rs') s2
            | Syntax e \<Rightarrow> Syntax e
            | Leftovers l \<Rightarrow> Leftovers l
            | NoFuel \<Rightarrow> NoFuel)
        | Syntax e \<Rightarrow> Syntax e
        | Leftovers l \<Rightarrow> Leftovers l
        | NoFuel \<Rightarrow> NoFuel)"
| "parseblock 0 s = NoFuel"
| "parseblock (Suc n) s =
     (if \<not> fst (peek [t_open] s) then Syntax ''parseblock''
      else case parseline n (after s) of
          Parsed c s1 \<Rightarrow>
            if \<not> fst (peek [t_close] s1) then Syntax ''syntax - missing )''
            else (case parseredirs [] (after s1) of
                Parsed rs s2 \<Rightarrow> Parsed (redircmds c rs) s2
              | Syntax e \<Rightarrow> Syntax e
              | Leftovers l \<Rightarrow> Leftovers l
              | NoFuel \<Rightarrow> NoFuel)
        | e \<Rightarrow> e)"

definition parsecmd :: "u8 list \<Rightarrow> cmd parse" where
  "parsecmd s = (case parseline (4 * length s + 4) s of
       Parsed c s1 \<Rightarrow> if skip s1 \<noteq> [] then Leftovers (skip s1) else Parsed c []
     | e \<Rightarrow> e)"

subsection \<open>The parser always answers\<close>

text \<open>Words, and the commands the parser can produce.\<close>

definition word :: "u8 list \<Rightarrow> bool" where
  "word w \<longleftrightarrow> w \<noteq> [] \<and> list_all word_char w"

definition redir_ok :: "redir \<Rightarrow> bool" where
  "redir_ok r \<longleftrightarrow> (case r of (file, mode, fd) \<Rightarrow> word file \<and> (mode, fd) \<in> {(0, 0), (0x601, 1), (0x201, 1)})"

primrec cmd_wf :: "cmd \<Rightarrow> bool" where
  "cmd_wf (EXEC argv) \<longleftrightarrow> length argv < MAXARGS \<and> list_all word argv"
| "cmd_wf (REDIR c file mode fd) \<longleftrightarrow> cmd_wf c \<and> redir_ok (file, mode, fd)"
| "cmd_wf (PIPE c d) \<longleftrightarrow> cmd_wf c \<and> cmd_wf d"
| "cmd_wf (LIST c d) \<longleftrightarrow> cmd_wf c \<and> cmd_wf d"
| "cmd_wf (BACK c) \<longleftrightarrow> cmd_wf c"

lemma gettoken_word:
  assumes "gettoken s = (t_word, w, r)"
  shows "word w"
proof (cases "skip s")
  case Nil
  then show ?thesis using assms by (simp add: gettoken_def)
next
  case (Cons c t)
  have "c \<noteq> t_gt \<and> c \<notin> {t_bar, t_open, t_close, t_semi, t_amp, t_lt} \<Longrightarrow> word_char c"
    using skip_cases [OF Cons] by (auto simp: symbol_def)
  then show ?thesis using assms Cons
    by (auto simp: gettoken_def word_def list_all_iff dest: set_takeWhileD split: if_splits list.splits)
qed

lemma redircmds_simps [simp]:
  "redircmds c [] = c" "redircmds c (rs @ [(file, mode, fd)]) = REDIR (redircmds c rs) file mode fd"
  by (simp_all add: redircmds_def)

lemma redircmds_wf: "cmd_wf c \<Longrightarrow> list_all redir_ok rs \<Longrightarrow> cmd_wf (redircmds c rs)"
  by (induction rs rule: rev_induct) auto

lemma redir_of_ok: "word file \<Longrightarrow> redir_ok (redir_of tok file)"
  by (simp add: redir_of_def redir_ok_def)

text \<open>One result of a routine: the text gets no longer and the parts are well formed.\<close>

lemma parseredirs_ok:
  assumes "list_all redir_ok rs"
  shows "case parseredirs rs s of Parsed rs' r \<Rightarrow> list_all redir_ok rs' | Syntax e \<Rightarrow> e = ''missing file for redirection'' | Leftovers l \<Rightarrow> False | NoFuel \<Rightarrow> False"
  using assms
proof (induction rs s rule: parseredirs.induct)
  case (1 rs s)
  obtain tok u s1 where t1: "gettoken s = (tok, u, s1)" by (metis prod_cases3)
  obtain tok2 w s2 where t2: "gettoken s1 = (tok2, w, s2)" by (metis prod_cases3)
  show ?case
  proof (cases "fst (peek [t_lt, t_gt] s) \<and> tok2 = t_word")
    case False
    then show ?thesis using 1(2) t1 t2 by (auto simp: parseredirs.simps [of rs])
  next
    case True
    then have e: "parseredirs rs s = parseredirs (rs @ [redir_of tok w]) s2"
      using t1 t2 by (simp add: parseredirs.simps [of rs])
    have "word w" using gettoken_word t2 True by blast
    then show ?thesis unfolding e using 1(1) [OF conjunct1 [OF True] t1 [symmetric] refl refl t2 [symmetric] refl refl] 1(2) True
      by (simp add: redir_of_ok)
  qed
qed

lemma parseargs_ok:
  assumes "list_all word argv" and "length argv < MAXARGS" and "list_all redir_ok rs"
  shows "case parseargs argv rs s of
      Parsed (argv', rs') r \<Rightarrow> list_all word argv' \<and> length argv' < MAXARGS \<and> list_all redir_ok rs' \<and> length r \<le> length s
    | Syntax e \<Rightarrow> e \<in> {''missing file for redirection'', ''syntax'', ''too many args''} | Leftovers l \<Rightarrow> False | NoFuel \<Rightarrow> False"
  using assms
proof (induction argv rs s rule: parseargs.induct)
  case (1 argv rs s)
  obtain tok w s1 where t: "gettoken s = (tok, w, s1)" by (metis prod_cases3)
  note sh = gettoken_shorter [OF t]
  show ?case
  proof (cases "fst (peek [t_bar, t_close, t_amp, t_semi] s) \<or> tok = 0 \<or> tok \<noteq> t_word \<or> length argv + 1 \<ge> MAXARGS")
    case True
    then show ?thesis using 1(2-) t sh skip_le [of s] by (auto simp: parseargs.simps [of argv])
  next
    case False
    note r = parseredirs_ok [OF 1(4), of s1]
    show ?thesis
    proof (cases "parseredirs rs s1")
      case (Parsed rs' s2)
      then have e: "parseargs argv rs s = parseargs (argv @ [w]) rs' s2" using False t by (simp add: parseargs.simps [of argv])
      have "word w" using gettoken_word t False by blast
      then have "case parseargs (argv @ [w]) rs' s2 of
          Parsed (argv', rs'') r \<Rightarrow> list_all word argv' \<and> length argv' < MAXARGS \<and> list_all redir_ok rs'' \<and> length r \<le> length s2
        | Syntax e \<Rightarrow> e \<in> {''missing file for redirection'', ''syntax'', ''too many args''} | Leftovers l \<Rightarrow> False | NoFuel \<Rightarrow> False"
        using 1(1) [OF _ t [symmetric] refl refl _ _ _ Parsed] False 1(2) r Parsed by simp
      then show ?thesis unfolding e using parseredirs_shorter [OF Parsed] sh by (auto split: parse.splits)
    next
      case (Syntax e)
      then show ?thesis using False t r by (simp add: parseargs.simps [of argv])
    qed (use r in simp_all)
  qed
qed

definition parse_errors :: "string set" where
  "parse_errors = {''missing file for redirection'', ''syntax'', ''too many args'', ''parseblock'', ''syntax - missing )''}"

definition parse_ok :: "u8 list \<Rightarrow> cmd parse \<Rightarrow> bool" where
  "parse_ok s x \<longleftrightarrow> (case x of Parsed c r \<Rightarrow> cmd_wf c \<and> length r \<le> length s | Syntax e \<Rightarrow> e \<in> parse_errors | Leftovers l \<Rightarrow> False | NoFuel \<Rightarrow> False)"

lemma parsebacks_ok: "cmd_wf c \<Longrightarrow> parsebacks c s = (c', r) \<Longrightarrow> cmd_wf c' \<and> length r \<le> length s"
proof (induction c s rule: parsebacks.induct)
  case (1 c s)
  obtain tok u s1 where t: "gettoken s = (tok, u, s1)" by (metis prod_cases3)
  show ?case
  proof (cases "fst (peek [t_amp] s)")
    case True
    then have "parsebacks (BACK c) s1 = (c', r)" using 1(3) t by (simp add: parsebacks.simps [of c])
    then show ?thesis using 1(1) [OF True t [symmetric] refl refl] 1(2) gettoken_shorter [OF t] by simp
  next
    case False
    then show ?thesis using 1(2,3) skip_le [of s] by (auto simp: parsebacks.simps [of c])
  qed
qed

lemma after_shorter:
  assumes "fst (peek toks s)" and "0 \<notin> set toks"
  shows "length (after s) < length s"
  using gettoken_peeked(2) [OF assms] by (metis prod.collapse)

lemma parse_total:
  "4 * length s + 4 \<le> n \<Longrightarrow> parse_ok s (parseline n s)"
  "4 * length s + 3 \<le> n \<Longrightarrow> parse_ok s (parsepipe n s)"
  "4 * length s + 2 \<le> n \<Longrightarrow> parse_ok s (parseexec n s)"
  "4 * length s + 1 \<le> n \<Longrightarrow> parse_ok s (parseblock n s)"
proof (induction n s and n s and n s and n s rule: parseline_parsepipe_parseexec_parseblock.induct)
  case (2 n s)
  have p: "parse_ok s (parsepipe n s)" using 2(1,3) by simp
  show ?case
  proof (cases "parsepipe n s")
    case (Parsed c s1)
    obtain c' s2 where b: "parsebacks c s1 = (c', s2)" by fastforce
    have ok: "cmd_wf c'" "length s2 \<le> length s" using parsebacks_ok [OF _ b] p Parsed by (auto simp: parse_ok_def)
    show ?thesis
    proof (cases "fst (peek [t_semi] s2)")
      case True
      have "length (after s2) < length s2" by (rule after_shorter [OF True]) simp
      then have "parse_ok (after s2) (parseline n (after s2))" and "length (after s2) \<le> length s"
        using 2(2) [OF Parsed b [symmetric] True] 2(3) ok by simp_all
      then show ?thesis using Parsed b True ok by (auto simp: parse_ok_def split: parse.splits)
    next
      case False
      then show ?thesis using Parsed b ok skip_le [of s2] by (simp add: parse_ok_def)
    qed
  qed (use p in \<open>simp_all add: parse_ok_def\<close>)
next
  case (4 n s)
  have p: "parse_ok s (parseexec n s)" using 4(1,3) by simp
  show ?case
  proof (cases "parseexec n s")
    case (Parsed c s1)
    then have ok: "cmd_wf c" "length s1 \<le> length s" using p by (auto simp: parse_ok_def)
    show ?thesis
    proof (cases "fst (peek [t_bar] s1)")
      case True
      have "length (after s1) < length s1" by (rule after_shorter [OF True]) simp
      then have "parse_ok (after s1) (parsepipe n (after s1))" and "length (after s1) \<le> length s"
        using 4(2) [OF Parsed True] 4(3) ok by simp_all
      then show ?thesis using Parsed True ok by (auto simp: parse_ok_def split: parse.splits)
    next
      case False
      then show ?thesis using Parsed ok skip_le [of s1] by (simp add: parse_ok_def)
    qed
  qed (use p in \<open>simp_all add: parse_ok_def\<close>)
next
  case (6 n s)
  show ?case
  proof (cases "fst (peek [t_open] s)")
    case True
    then show ?thesis using 6 by simp
  next
    case False
    note r = parseredirs_ok [of "[]" s, simplified]
    show ?thesis
    proof (cases "parseredirs [] s")
      case (Parsed rs s1)
      then have "list_all redir_ok rs" "length s1 \<le> length s" using r parseredirs_shorter by auto
      then show ?thesis using False Parsed parseargs_ok [of "[]" rs s1]
        by (auto simp: parse_ok_def parse_errors_def MAXARGS_def redircmds_wf split: parse.splits prod.splits)
    qed (use False r in \<open>simp_all add: parse_ok_def parse_errors_def\<close>)
  qed
next
  case (8 n s)
  show ?case
  proof (cases "fst (peek [t_open] s)")
    case True
    have sh: "length (after s) < length s" by (rule after_shorter [OF True]) simp
    then have p: "parse_ok (after s) (parseline n (after s))" using 8(1,2) True by simp
    show ?thesis
    proof (cases "parseline n (after s)")
      case (Parsed c s1)
      then have ok: "cmd_wf c" "length s1 < length s" using p sh by (auto simp: parse_ok_def)
      show ?thesis
      proof (cases "fst (peek [t_close] s1)")
        case c: True
        have "length (after s1) < length s1" by (rule after_shorter [OF c]) simp
        moreover note parseredirs_ok [of "[]" "after s1", simplified]
        ultimately show ?thesis using True Parsed c ok parseredirs_shorter [of "[]" "after s1"]
          by (fastforce simp: parse_ok_def parse_errors_def redircmds_wf split: parse.splits)
      next
        case False
        then show ?thesis using True Parsed by (simp add: parse_ok_def parse_errors_def)
      qed
    qed (use True p in \<open>simp_all add: parse_ok_def\<close>)
  next
    case False
    then show ?thesis by (simp add: parse_ok_def parse_errors_def)
  qed
qed simp_all

text \<open>
  C20 (type). The parser of the shell returns on every input: its recursion ends, and the answer is either one of five
  messages, or the unread end of the text (printed after \<open>leftovers\<close>, before \<open>syntax\<close>), or a well-formed command: every simple command has fewer than \<open>MAXARGS\<close> words, words and file names are not empty
  and contain no white space and no symbol, and every redirection has one of the three modes with its descriptor.
\<close>

theorem parsecmd_well_formed:
  "case parsecmd s of
     Parsed c r \<Rightarrow> cmd_wf c \<and> r = []
   | Syntax e \<Rightarrow> e \<in> {''missing file for redirection'', ''syntax'', ''too many args'', ''parseblock'', ''syntax - missing )''}
   | Leftovers l \<Rightarrow> l \<noteq> [] \<and> length l \<le> length s
   | NoFuel \<Rightarrow> False"
  using parse_total(1) [of s "4 * length s + 4"] skip_le
  by (auto simp: parsecmd_def parse_ok_def parse_errors_def split: parse.splits intro: le_trans)

subsection \<open>Printing a command\<close>

text \<open>
  The tokens of a command, with parentheses where a command stands for a part of a line that binds more tightly: level 0 is a
  line, 1 a line without \<open>;\<close>, 2 a pipeline and 3 a simple command or a block with its redirections. Every token is followed by a
  blank.
\<close>

primrec level :: "cmd \<Rightarrow> nat" where
  "level (EXEC argv) = 3"
| "level (REDIR c file mode fd) = 3"
| "level (PIPE c d) = 2"
| "level (LIST c d) = 0"
| "level (BACK c) = 1"

definition paren :: "nat \<Rightarrow> nat \<Rightarrow> u8 list list \<Rightarrow> u8 list list" where
  "paren k l ts = (if l < k then [t_open] # ts @ [[t_close]] else ts)"

definition redir_toks :: "redir \<Rightarrow> u8 list list" where
  "redir_toks r = (case r of (file, mode, fd) \<Rightarrow>
     [if mode = 0 then [t_lt] else if mode = 0x601 then [t_gt] else [t_gt, t_gt], file])"

primrec toks :: "cmd \<Rightarrow> u8 list list" where
  "toks (EXEC argv) = argv"
| "toks (REDIR c file mode fd) = paren 3 (level c) (toks c) @ redir_toks (file, mode, fd)"
| "toks (PIPE c d) = paren 3 (level c) (toks c) @ [t_bar] # paren 2 (level d) (toks d)"
| "toks (LIST c d) = paren 1 (level c) (toks c) @ [t_semi] # toks d"
| "toks (BACK c) = paren 1 (level c) (toks c) @ [[t_amp]]"

definition spell :: "u8 list list \<Rightarrow> u8 list" where
  "spell ts = concat (map (\<lambda>t. t @ [32]) ts)"

definition print_cmd :: "cmd \<Rightarrow> u8 list" where
  "print_cmd c = spell (toks c)"

abbreviation at_level :: "nat \<Rightarrow> cmd \<Rightarrow> u8 list list" where
  "at_level k c \<equiv> paren k (level c) (toks c)"

definition tok_ok :: "u8 list \<Rightarrow> bool" where
  "tok_ok t \<longleftrightarrow> word t \<or> t \<in> {[t_lt], [t_gt], [t_gt, t_gt], [t_bar], [t_amp], [t_semi], [t_open], [t_close]}"

lemma spell_simps [simp]: "spell [] = []" "spell (t # ts) = t @ 32 # spell ts" "spell (ts @ us) = spell ts @ spell us"
  by (simp_all add: spell_def)

lemma tok_ok_cases:
  assumes "tok_ok t"
  obtains c u where "t = c # u" and "\<not> whitespace c"
  using assms by (cases t) (auto simp: tok_ok_def word_def whitespace_def)

lemma skip_spell: "list_all tok_ok ts \<Longrightarrow> skip (spell ts) = spell ts"
  by (cases ts) (auto elim: tok_ok_cases)

lemma peek_spell: "list_all tok_ok ts \<Longrightarrow> fst (peek cs (spell ts)) \<longleftrightarrow> ts \<noteq> [] \<and> hd (hd ts) \<in> set cs"
  by (cases ts) (auto simp: peek_true skip_spell elim: tok_ok_cases)

lemma blank: "whitespace 32"
  by (simp add: whitespace_def)

lemma gettoken_spell_word:
  assumes "word w" and "list_all tok_ok ts"
  shows "gettoken (spell (w # ts)) = (t_word, w, spell ts)"
proof -
  obtain c u where w: "w = c # u" "word_char c" "list_all word_char u" using assms(1) by (cases w) (auto simp: word_def)
  then have "takeWhile word_char (c # u @ 32 # spell ts) = w" "dropWhile word_char (c # u @ 32 # spell ts) = 32 # spell ts"
    using blank by (auto simp: takeWhile_append dropWhile_append list_all_iff)
  then show ?thesis using w blank skip_spell [OF assms(2)] by (simp add: gettoken_def symbol_def)
qed

lemma gettoken_spell_symbol:
  assumes "list_all tok_ok ts"
  shows "c \<in> {t_bar, t_open, t_close, t_semi, t_amp, t_lt, t_gt} \<Longrightarrow> gettoken (spell ([c] # ts)) = (c, [c], spell ts)"
    and "gettoken (spell ([t_gt, t_gt] # ts)) = (t_plus, [t_gt, t_gt], spell ts)"
  using skip_spell [OF assms] by (auto simp: gettoken_def whitespace_def)

lemma redir_toks_ok: "redir_ok r \<Longrightarrow> list_all tok_ok (redir_toks r)"
  by (cases r) (auto simp: redir_ok_def redir_toks_def tok_ok_def)

abbreviation redirs_toks :: "redir list \<Rightarrow> u8 list list" where
  "redirs_toks rs \<equiv> concat (map redir_toks rs)"

lemma redirs_toks_ok: "list_all redir_ok rs \<Longrightarrow> list_all tok_ok (redirs_toks rs)"
  by (induction rs) (auto simp: redir_toks_ok)

lemma toks_ok: "cmd_wf c \<Longrightarrow> list_all tok_ok (toks c)"
proof (induction c)
  case (EXEC argv)
  then show ?case by (auto simp: list_all_iff tok_ok_def)
qed (auto simp: paren_def redir_toks_ok, auto simp: tok_ok_def)

lemma at_level_ok: "cmd_wf c \<Longrightarrow> list_all tok_ok (at_level k c)"
  using toks_ok by (auto simp: paren_def tok_ok_def)

text \<open>What may follow: the end, or one of the given symbols.\<close>

definition follows :: "u8 list \<Rightarrow> u8 list list \<Rightarrow> bool" where
  "follows cs ts \<longleftrightarrow> list_all tok_ok ts \<and> (ts = [] \<or> (\<exists>c \<in> set cs. hd ts = [c]))"

lemma followsD: "follows cs ts \<Longrightarrow> list_all tok_ok ts" "follows cs ts \<Longrightarrow> ts \<noteq> [] \<Longrightarrow> hd (hd ts) \<in> set cs"
  by (auto simp: follows_def)

lemma follows_mono: "follows cs ts \<Longrightarrow> set cs \<subseteq> set ds \<Longrightarrow> follows ds ts"
  by (auto simp: follows_def)

lemma follows_not: "follows cs ts \<Longrightarrow> set cs \<inter> set ds = {} \<Longrightarrow> \<not> fst (peek ds (spell ts))"
  using followsD by (fastforce simp: peek_spell)

lemma parseredirs_spell:
  assumes "list_all redir_ok rs" and "list_all tok_ok ts" and "\<not> fst (peek [t_lt, t_gt] (spell ts))"
  shows "parseredirs rs0 (spell (redirs_toks rs @ ts)) = Parsed (rs0 @ rs) (spell ts)"
  using assms(1)
proof (induction rs arbitrary: rs0)
  case Nil
  then show ?case using assms(2,3) by (simp add: parseredirs.simps skip_spell)
next
  case (Cons r rs)
  obtain fl mode fd where r: "r = (fl, mode, fd)" by (metis prod_cases3)
  let ?more = "redirs_toks rs @ ts" and ?op = "if mode = 0 then [t_lt] else if mode = 0x601 then [t_gt] else [t_gt, t_gt]"
  have w: "word fl" and m: "(mode, fd) \<in> {(0, 0), (0x601, 1), (0x201, 1)}" using Cons.prems r by (auto simp: redir_ok_def)
  have mo: "list_all tok_ok ?more" "list_all tok_ok (fl # ?more)"
    using Cons.prems redirs_toks_ok [of rs] assms(2) w by (auto simp: tok_ok_def)
  have t: "spell (redirs_toks (r # rs) @ ts) = spell (?op # fl # ?more)" by (simp add: r redir_toks_def)
  have opok: "list_all tok_ok (?op # fl # ?more)" using mo by (auto simp: tok_ok_def)
  obtain tok where g: "gettoken (spell (?op # fl # ?more)) = (tok, ?op, spell (fl # ?more))" "redir_of tok fl = r"
    using gettoken_spell_symbol [OF mo(2)] m r by (auto simp: redir_of_def)
  have "fst (peek [t_lt, t_gt] (spell (?op # fl # ?more)))" using opok by (simp add: peek_spell del: spell_simps)
  then have "parseredirs rs0 (spell (?op # fl # ?more)) = parseredirs (rs0 @ [r]) (spell ?more)"
    using g gettoken_spell_word [OF w mo(1)] by (simp add: parseredirs.simps [of rs0] del: spell_simps)
  also have "\<dots> = Parsed (rs0 @ r # rs) (spell ts)" using Cons by simp
  finally show ?case unfolding t .
qed

lemma parseargs_stop:
  assumes "follows [t_bar, t_close, t_amp, t_semi] ts"
  shows "parseargs argv rs (spell ts) = Parsed (argv, rs) (spell ts)"
proof (cases "ts = []")
  case True
  then show ?thesis by (simp add: parseargs.simps peek_def gettoken_def)
next
  case False
  note ts = followsD(1) [OF assms]
  have "fst (peek [t_bar, t_close, t_amp, t_semi] (spell ts))"
    unfolding peek_spell [OF ts] using False followsD(2) [OF assms False] by simp
  then show ?thesis using ts by (subst parseargs.simps) (simp add: skip_spell)
qed

lemma parseargs_spell:
  assumes "list_all word argv" and "length (argv0 @ argv) < MAXARGS" and "list_all redir_ok rs" and "argv \<noteq> []"
    and "follows [t_bar, t_close, t_amp, t_semi] ts"
  shows "parseargs argv0 rs0 (spell (argv @ redirs_toks rs @ ts)) = Parsed (argv0 @ argv, rs0 @ rs) (spell ts)"
  using assms(1,2,4)
proof (induction argv arbitrary: argv0 rs0)
  case Nil
  then show ?case by simp
next
  case (Cons w argv)
  note ts = followsD(1) [OF assms(5)]
  let ?more = "argv @ redirs_toks rs @ ts"
  have w: "word w" and mo: "list_all tok_ok ?more"
    using Cons.prems redirs_toks_ok [OF assms(3)] ts by (auto simp: tok_ok_def list_all_iff)
  have "\<not> fst (peek [t_bar, t_close, t_amp, t_semi] (spell (w # ?more)))"
    using w mo by (subst peek_spell) (auto simp: tok_ok_def word_def symbol_def dest!: neq_Nil_conv [THEN iffD1])
  then have step: "parseargs argv0 rs0 (spell (w # ?more)) =
      (case parseredirs rs0 (spell ?more) of Parsed rs' s2 \<Rightarrow> parseargs (argv0 @ [w]) rs' s2 | Syntax e \<Rightarrow> Syntax e | Leftovers l \<Rightarrow> Leftovers l | NoFuel \<Rightarrow> NoFuel)"
    using gettoken_spell_word [OF w mo] Cons.prems(2) by (simp add: parseargs.simps [of argv0] del: spell_simps)
  show ?case
  proof (cases argv)
    case Nil
    have "parseredirs rs0 (spell (redirs_toks rs @ ts)) = Parsed (rs0 @ rs) (spell ts)"
      by (rule parseredirs_spell [OF assms(3) ts follows_not [OF assms(5)]]) simp
    moreover have "parseargs (argv0 @ [w]) (rs0 @ rs) (spell ts) = Parsed (argv0 @ [w], rs0 @ rs) (spell ts)"
      by (rule parseargs_stop [OF assms(5)])
    ultimately show ?thesis using step Nil by simp
  next
    case (Cons v argv')
    then have "word v" using Cons.prems(1) by simp
    then have "\<not> fst (peek [t_lt, t_gt] (spell ?more))"
      using mo Cons by (subst peek_spell) (auto simp: word_def symbol_def dest!: neq_Nil_conv [THEN iffD1])
    then have "parseredirs rs0 (spell ?more) = Parsed rs0 (spell ?more)" 
      by (subst parseredirs.simps) (simp add: skip_spell [OF mo] del: spell_simps)
    then show ?thesis using step Cons.IH [of "argv0 @ [w]" rs0] Cons.prems Cons by simp
  qed
qed

subsection \<open>Parsing what was printed\<close>

text \<open>What the routines of the four levels do with a printed command followed by the tokens \<open>ts\<close>.\<close>

definition reads_exec :: "cmd \<Rightarrow> bool" where
  "reads_exec c \<longleftrightarrow> (\<forall>rs ts n. list_all redir_ok rs \<longrightarrow> follows [t_bar, t_close, t_amp, t_semi] ts
     \<longrightarrow> 4 * length (spell (at_level 3 c @ redirs_toks rs @ ts)) + 2 \<le> n
     \<longrightarrow> parseexec n (spell (at_level 3 c @ redirs_toks rs @ ts)) = Parsed (redircmds c rs) (spell ts))"

definition reads_pipe :: "cmd \<Rightarrow> bool" where
  "reads_pipe c \<longleftrightarrow> (\<forall>ts n. follows [t_close, t_amp, t_semi] ts \<longrightarrow> 4 * length (spell (at_level 2 c @ ts)) + 3 \<le> n
     \<longrightarrow> parsepipe n (spell (at_level 2 c @ ts)) = Parsed c (spell ts))"

definition reads_back :: "cmd \<Rightarrow> bool" where
  "reads_back c \<longleftrightarrow> (\<forall>ts n. follows [t_close, t_amp, t_semi] ts \<longrightarrow> 4 * length (spell (at_level 1 c @ ts)) + 3 \<le> n
     \<longrightarrow> (\<exists>d s. parsepipe n (spell (at_level 1 c @ ts)) = Parsed d s \<and> parsebacks d s = parsebacks c (spell ts)))"

definition reads_line :: "cmd \<Rightarrow> bool" where
  "reads_line c \<longleftrightarrow> (\<forall>ts n. follows [t_close] ts \<longrightarrow> 4 * length (spell (toks c @ ts)) + 4 \<le> n
     \<longrightarrow> parseline n (spell (toks c @ ts)) = Parsed c (spell ts))"

text \<open>A command in parentheses.\<close>

lemma reads_block:
  assumes "reads_line c" and "cmd_wf c" and "level c < 3"
  shows "reads_exec c"
  unfolding reads_exec_def
proof (intro allI impI)
  fix rs ts n
  assume rs: "list_all redir_ok rs" and ts: "follows [t_bar, t_close, t_amp, t_semi] ts"
    and n: "4 * length (spell (at_level 3 c @ redirs_toks rs @ ts)) + 2 \<le> n"
  let ?in = "toks c @ [t_close] # redirs_toks rs @ ts" and ?out = "[t_close] # redirs_toks rs @ ts"
  have e: "at_level 3 c @ redirs_toks rs @ ts = [t_open] # ?in" using assms(3) by (simp add: paren_def)
  have ok: "list_all tok_ok (redirs_toks rs @ ts)" using redirs_toks_ok [OF rs] followsD(1) [OF ts] by simp
  then have out: "list_all tok_ok ?out" "follows [t_close] ?out" by (auto simp: follows_def tok_ok_def)
  have inn: "list_all tok_ok ?in" "list_all tok_ok ([t_open] # ?in)" using out(1) toks_ok [OF assms(2)] by (auto simp: tok_ok_def)
  obtain m where m: "n = Suc (Suc m)"
  proof -
    have "2 \<le> n" using n by simp
    then show thesis using that [of "n - 2"] by simp
  qed
  have fuel: "4 * length (spell ?in) + 4 \<le> m" using n unfolding e m by simp
  have "parseline m (spell ?in) = Parsed c (spell ?out)" using assms(1) out(2) fuel unfolding reads_line_def by blast
  moreover have "fst (peek [t_open] (spell ([t_open] # ?in)))" "fst (peek [t_close] (spell ?out))"
    unfolding peek_spell [OF inn(2)] peek_spell [OF out(1)] by simp_all
  moreover have "after (spell ([t_open] # ?in)) = spell ?in" "after (spell ?out) = spell (redirs_toks rs @ ts)"
    using gettoken_spell_symbol(1) [OF inn(1)] gettoken_spell_symbol(1) [OF ok] by (simp_all del: spell_simps)
  moreover have "parseredirs [] (spell (redirs_toks rs @ ts)) = Parsed rs (spell ts)"
    using parseredirs_spell [OF rs followsD(1) [OF ts] follows_not [OF ts], of "[]"] by simp
  ultimately have "parseblock (Suc m) (spell ([t_open] # ?in)) = Parsed (redircmds c rs) (spell ts)"
    by (simp del: spell_simps)
  then show "parseexec n (spell (at_level 3 c @ redirs_toks rs @ ts)) = Parsed (redircmds c rs) (spell ts)"
    unfolding e m using \<open>fst (peek [t_open] (spell ([t_open] # ?in)))\<close> by (simp del: spell_simps parseblock.simps)
qed

lemma reads_exec_exec:
  assumes "cmd_wf (EXEC argv)"
  shows "reads_exec (EXEC argv)"
  unfolding reads_exec_def
proof (intro allI impI)
  fix rs ts n
  assume rs: "list_all redir_ok rs" and ts: "follows [t_bar, t_close, t_amp, t_semi] ts"
    and n: "4 * length (spell (at_level 3 (EXEC argv) @ redirs_toks rs @ ts)) + 2 \<le> n"
  let ?all = "argv @ redirs_toks rs @ ts"
  have w: "list_all word argv" "length argv < MAXARGS" using assms by simp_all
  have ok: "list_all tok_ok ?all"
    using toks_ok [OF assms] redirs_toks_ok [OF rs] followsD(1) [OF ts] by simp
  have "?all \<noteq> [] \<Longrightarrow> hd (hd ?all) \<noteq> t_open"
  proof (cases argv)
    case (Cons v vs)
    then have "word v" using w by simp
    then show ?thesis using Cons by (cases v) (auto simp: word_def symbol_def)
  next
    case Nil
    then show "?all \<noteq> [] \<Longrightarrow> hd (hd ?all) \<noteq> t_open"
      using followsD(2) [OF ts] by (cases rs) (auto simp: redir_toks_def split: prod.splits)
  qed
  then have np: "\<not> fst (peek [t_open] (spell ?all))" unfolding peek_spell [OF ok] by auto
  obtain m where m: "n = Suc m" using n by (cases n) auto
  have nr: "\<not> fst (peek [t_lt, t_gt] (spell ts))" by (rule follows_not [OF ts]) simp
  have "(case parseredirs [] (spell ?all) of Parsed rs0 s1 \<Rightarrow> parseargs [] rs0 s1 | Syntax e \<Rightarrow> Syntax e | Leftovers l \<Rightarrow> Leftovers l | NoFuel \<Rightarrow> NoFuel)
      = Parsed (argv, rs) (spell ts)"
  proof (cases argv)
    case Nil
    then show ?thesis using parseredirs_spell [OF rs followsD(1) [OF ts] nr, of "[]"] parseargs_stop [OF ts] by simp
  next
    case (Cons v vs)
    then have "word v" using w by simp
    then have "\<not> fst (peek [t_lt, t_gt] (spell ?all))"
      unfolding peek_spell [OF ok] using Cons by (cases v) (auto simp: word_def symbol_def)
    then have "parseredirs [] (spell ?all) = Parsed [] (spell ?all)"
      by (subst parseredirs.simps) (simp add: skip_spell [OF ok] del: spell_simps)
    then show ?thesis using parseargs_spell [of argv "[]" rs ts "[]"] w rs ts Cons by (simp del: spell_simps)
  qed
  then obtain rs0 s1 where "parseredirs [] (spell ?all) = Parsed rs0 s1" "parseargs [] rs0 s1 = Parsed (argv, rs) (spell ts)"
    by (auto split: parse.splits)
  then show "parseexec n (spell (at_level 3 (EXEC argv) @ redirs_toks rs @ ts)) = Parsed (redircmds (EXEC argv) rs) (spell ts)"
    using np by (simp add: m paren_def del: spell_simps)
qed

text \<open>A part of a higher level read as one of a lower level.\<close>

lemma at_level_same: "k \<le> level c \<Longrightarrow> at_level k c = toks c"
  by (simp add: paren_def)

lemma reads_pipe_exec:
  assumes "reads_exec c" and "level c \<noteq> 2"
  shows "reads_pipe c"
  unfolding reads_pipe_def
proof (intro allI impI)
  fix ts n
  assume ts: "follows [t_close, t_amp, t_semi] ts" and n: "4 * length (spell (at_level 2 c @ ts)) + 3 \<le> n"
  have e: "at_level 2 c = at_level 3 c" using assms(2) by (auto simp: paren_def)
  obtain m where m: "n = Suc m" "4 * length (spell (at_level 3 c @ ts)) + 2 \<le> m" using n e by (cases n) auto
  have "follows [t_bar, t_close, t_amp, t_semi] ts" by (rule follows_mono [OF ts]) auto
  then have "parseexec m (spell (at_level 3 c @ ts)) = Parsed c (spell ts)"
    using assms(1) [unfolded reads_exec_def, rule_format, of "[]" ts m] m(2) by simp
  moreover have "\<not> fst (peek [t_bar] (spell ts))" by (rule follows_not [OF ts]) simp
  ultimately show "parsepipe n (spell (at_level 2 c @ ts)) = Parsed c (spell ts)"
    unfolding e m by (simp add: skip_spell [OF followsD(1) [OF ts]] del: spell_simps)
qed

lemma reads_back_pipe:
  assumes "reads_pipe c" and "level c \<noteq> 1"
  shows "reads_back c"
proof -
  have "at_level 1 c = at_level 2 c" using assms(2) by (auto simp: paren_def)
  then show ?thesis using assms(1) unfolding reads_back_def reads_pipe_def by metis
qed

lemma reads_line_back:
  assumes "reads_back c" and "level c \<noteq> 0"
  shows "reads_line c"
  unfolding reads_line_def
proof (intro allI impI)
  fix ts n
  assume ts: "follows [t_close] ts" and n: "4 * length (spell (toks c @ ts)) + 4 \<le> n"
  have e: "at_level 1 c = toks c" using assms(2) by (simp add: paren_def)
  obtain m where m: "n = Suc m" "4 * length (spell (toks c @ ts)) + 3 \<le> m" using n by (cases n) auto
  have "follows [t_close, t_amp, t_semi] ts" by (rule follows_mono [OF ts]) auto
  then obtain d s where p: "parsepipe m (spell (toks c @ ts)) = Parsed d s" "parsebacks d s = parsebacks c (spell ts)"
    using assms(1) m(2) unfolding reads_back_def e by blast
  have "parsebacks c (spell ts) = (c, spell ts)"
    using follows_not [OF ts, of "[t_amp]"] by (simp add: parsebacks.simps skip_spell [OF followsD(1) [OF ts]])
  moreover have "\<not> fst (peek [t_semi] (spell ts))" by (rule follows_not [OF ts]) simp
  ultimately show "parseline n (spell (toks c @ ts)) = Parsed c (spell ts)"
    unfolding m using p by (simp add: skip_spell [OF followsD(1) [OF ts]] del: spell_simps)
qed

lemma reads_exec_redir:
  assumes "reads_exec c" and "redir_ok (fl, mode, fd)"
  shows "reads_exec (REDIR c fl mode fd)"
  unfolding reads_exec_def
proof (intro allI impI)
  fix rs ts n
  assume rs: "list_all redir_ok rs" and ts: "follows [t_bar, t_close, t_amp, t_semi] ts"
    and n: "4 * length (spell (at_level 3 (REDIR c fl mode fd) @ redirs_toks rs @ ts)) + 2 \<le> n"
  let ?rs = "(fl, mode, fd) # rs"
  have e: "at_level 3 (REDIR c fl mode fd) @ redirs_toks rs @ ts = at_level 3 c @ redirs_toks ?rs @ ts"
    using at_level_same [of 3 "REDIR c fl mode fd"] by simp
  have "parseexec n (spell (at_level 3 c @ redirs_toks ?rs @ ts)) = Parsed (redircmds c ?rs) (spell ts)"
    using assms(1) [unfolded reads_exec_def, rule_format, of ?rs ts n] rs ts assms(2) n unfolding e by simp
  then show "parseexec n (spell (at_level 3 (REDIR c fl mode fd) @ redirs_toks rs @ ts)) = Parsed (redircmds (REDIR c fl mode fd) rs) (spell ts)"
    unfolding e by (simp add: redircmds_def)
qed

lemma reads_pipe_pipe:
  assumes "reads_exec c" and "reads_pipe d" and "cmd_wf d"
  shows "reads_pipe (PIPE c d)"
  unfolding reads_pipe_def
proof (intro allI impI)
  fix ts n
  assume ts: "follows [t_close, t_amp, t_semi] ts" and n: "4 * length (spell (at_level 2 (PIPE c d) @ ts)) + 3 \<le> n"
  let ?r = "at_level 2 d @ ts"
  have e: "at_level 2 (PIPE c d) @ ts = at_level 3 c @ [t_bar] # ?r" using at_level_same [of 2 "PIPE c d"] by simp
  have ok: "list_all tok_ok ?r" using at_level_ok [OF assms(3)] followsD(1) [OF ts] by simp
  then have f: "follows [t_bar, t_close, t_amp, t_semi] ([t_bar] # ?r)" by (simp add: follows_def tok_ok_def)
  obtain m where m: "n = Suc m" "4 * length (spell (at_level 3 c @ [t_bar] # ?r)) + 2 \<le> m" using n e by (cases n) auto
  have "parseexec m (spell (at_level 3 c @ [t_bar] # ?r)) = Parsed c (spell ([t_bar] # ?r))"
    using assms(1) [unfolded reads_exec_def, rule_format, of "[]" "[t_bar] # ?r" m] f m(2) by simp
  moreover have "fst (peek [t_bar] (spell ([t_bar] # ?r)))" unfolding peek_spell [OF followsD(1) [OF f]] by simp
  moreover have "after (spell ([t_bar] # ?r)) = spell ?r" using gettoken_spell_symbol(1) [OF ok, of t_bar] by (simp del: spell_simps)
  moreover have "parsepipe m (spell ?r) = Parsed d (spell ts)"
    using assms(2) [unfolded reads_pipe_def, rule_format, OF ts, of m] m(2) by simp
  ultimately show "parsepipe n (spell (at_level 2 (PIPE c d) @ ts)) = Parsed (PIPE c d) (spell ts)"
    unfolding e m(1) by (simp del: spell_simps)
qed

lemma reads_back_back:
  assumes "reads_back c" and "cmd_wf c"
  shows "reads_back (BACK c)"
  unfolding reads_back_def
proof (intro allI impI)
  fix ts n
  assume ts: "follows [t_close, t_amp, t_semi] ts" and n: "4 * length (spell (at_level 1 (BACK c) @ ts)) + 3 \<le> n"
  let ?r = "[t_amp] # ts"
  have e: "at_level 1 (BACK c) @ ts = at_level 1 c @ ?r" using at_level_same [of 1 "BACK c"] by simp
  have f: "follows [t_close, t_amp, t_semi] ?r" using followsD(1) [OF ts] by (simp add: follows_def tok_ok_def)
  obtain d s where "parsepipe n (spell (at_level 1 c @ ?r)) = Parsed d s" "parsebacks d s = parsebacks c (spell ?r)"
    using assms(1) [unfolded reads_back_def, rule_format, OF f, of n] n e by auto
  moreover have "parsebacks c (spell ?r) = parsebacks (BACK c) (spell ts)"
    using gettoken_spell_symbol(1) [OF followsD(1) [OF ts], of t_amp] peek_spell [OF followsD(1) [OF f], of "[t_amp]"]
    by (simp add: parsebacks.simps [of c] del: spell_simps)
  ultimately show "\<exists>d s. parsepipe n (spell (at_level 1 (BACK c) @ ts)) = Parsed d s \<and> parsebacks d s = parsebacks (BACK c) (spell ts)"
    unfolding e by auto
qed

lemma reads_line_list:
  assumes "reads_back c" and "reads_line d" and "cmd_wf d"
  shows "reads_line (LIST c d)"
  unfolding reads_line_def
proof (intro allI impI)
  fix ts n
  assume ts: "follows [t_close] ts" and n: "4 * length (spell (toks (LIST c d) @ ts)) + 4 \<le> n"
  let ?r = "toks d @ ts"
  have e: "toks (LIST c d) @ ts = at_level 1 c @ [t_semi] # ?r" by simp
  have ok: "list_all tok_ok ?r" using toks_ok [OF assms(3)] followsD(1) [OF ts] by simp
  then have f: "follows [t_close, t_amp, t_semi] ([t_semi] # ?r)" by (simp add: follows_def tok_ok_def)
  note fo = followsD(1) [OF f]
  obtain m where m: "n = Suc m" "4 * length (spell (at_level 1 c @ [t_semi] # ?r)) + 3 \<le> m" using n e by (cases n) auto
  obtain c' s where p: "parsepipe m (spell (at_level 1 c @ [t_semi] # ?r)) = Parsed c' s"
    "parsebacks c' s = parsebacks c (spell ([t_semi] # ?r))"
    using assms(1) [unfolded reads_back_def, rule_format, OF f, of m] m(2) by auto
  moreover have "parsebacks c (spell ([t_semi] # ?r)) = (c, spell ([t_semi] # ?r))"
    using peek_spell [OF fo, of "[t_amp]"] by (simp add: parsebacks.simps [of c] skip_spell [OF fo] del: spell_simps)
  moreover have "fst (peek [t_semi] (spell ([t_semi] # ?r)))" unfolding peek_spell [OF fo] by simp
  moreover have "after (spell ([t_semi] # ?r)) = spell ?r" using gettoken_spell_symbol(1) [OF ok, of t_semi] by (simp del: spell_simps)
  moreover have "parseline m (spell ?r) = Parsed d (spell ts)"
    using assms(2) [unfolded reads_line_def, rule_format, OF ts, of m] m(2) by simp
  ultimately show "parseline n (spell (toks (LIST c d) @ ts)) = Parsed (LIST c d) (spell ts)"
    unfolding e m(1) by (simp del: spell_simps)
qed

lemma reads_all: "cmd_wf c \<Longrightarrow> reads_exec c \<and> reads_pipe c \<and> reads_back c \<and> reads_line c"
proof (induction c)
  case (EXEC argv)
  then have "reads_exec (EXEC argv)" by (rule reads_exec_exec)
  then show ?case using reads_pipe_exec reads_back_pipe reads_line_back by simp
next
  case (REDIR c fl mode fd)
  then have "reads_exec (REDIR c fl mode fd)" using reads_exec_redir by simp
  then show ?case using reads_pipe_exec reads_back_pipe reads_line_back by simp
next
  case (PIPE c d)
  then have "reads_pipe (PIPE c d)" using reads_pipe_pipe by simp
  then show ?case using PIPE.prems reads_block reads_back_pipe reads_line_back by simp
next
  case (LIST c d)
  then have "reads_line (LIST c d)" using reads_line_list by simp
  then show ?case using LIST.prems reads_block reads_pipe_exec reads_back_pipe by simp
next
  case (BACK c)
  then have "reads_back (BACK c)" using reads_back_back by simp
  then show ?case using BACK.prems reads_block reads_pipe_exec reads_line_back by simp
qed

text \<open>
  C19 (roundtrip). The parser inverts printing: every well-formed command, however its pipelines, lists, background commands and
  redirections are nested, is what the parser makes of its printed form, in which parentheses stand only where the
  grammar needs them.
\<close>

theorem parse_print_roundtrip:
  assumes "cmd_wf c"
  shows "parsecmd (print_cmd c) = Parsed c []"
proof -
  have "reads_line c" using reads_all [OF assms] by blast
  then have "parseline (4 * length (spell (toks c)) + 4) (spell (toks c)) = Parsed c []"
    using reads_line_def [THEN iffD1, rule_format, of c "[]" "4 * length (spell (toks c)) + 4"] by (simp add: follows_def)
  then show ?thesis by (simp add: parsecmd_def print_cmd_def)
qed

theorem parse_print_roundtrip_witness:
  "parsecmd (print_cmd (LIST (BACK (PIPE (EXEC [[108, 115]]) (REDIR (LIST (EXEC [[97]]) (EXEC [[98]])) [102] 0x601 1))) (EXEC [[99]])))
     = Parsed (LIST (BACK (PIPE (EXEC [[108, 115]]) (REDIR (LIST (EXEC [[97]]) (EXEC [[98]])) [102] 0x601 1))) (EXEC [[99]])) []"
  by (rule parse_print_roundtrip) (simp add: word_def redir_ok_def MAXARGS_def whitespace_def symbol_def)

end
