(* ===== verification/Sh_Run.thy ===== *)
theory Sh_Run
  imports Sh
begin

text \<open>
  \<open>runcmd\<close> and \<open>main\<close> of \<^verbatim>\<open>user/sh.c\<close>. A process of the shell is its table of descriptors; \<open>fork\<close> gives the child a copy of
  it. What the shell and its children do is a list of events. The list gives the events of a child before those that its
  parent causes next: for a list of commands the parent waits, the two sides of a pipe and a background command run at the same
  time as what follows and the order in the list is one of the possible ones. No process sees the table of another, so the descriptors
  that a program gets do not depend on the order. Which system calls succeed is the environment
  of the run; a descriptor is allocated as \<open>fdalloc\<close> of the kernel does it, the lowest free one.
\<close>

subsection \<open>Descriptors\<close>

datatype fobj = Inherited nat | Opened "u8 list" int | PipeRead nat | PipeWrite nat

type_synonym fdtab = "nat \<Rightarrow> fobj option"

datatype event = Ran "u8 list list" fdtab | Said string "u8 list" | Changed_dir "u8 list"

text \<open>Whether \<open>open\<close>, \<open>exec\<close> and \<open>chdir\<close> succeed, and the \<open>n\<close>th \<open>fork\<close> and \<open>pipe\<close>.\<close>

record sh_env =
  opens :: "u8 list \<Rightarrow> int \<Rightarrow> bool"
  execs :: "u8 list list \<Rightarrow> bool"
  chdirs :: "u8 list \<Rightarrow> bool"
  forks :: "nat \<Rightarrow> bool"
  pipes_ok :: "nat \<Rightarrow> bool"

record sh_world =
  n_forks :: nat
  n_pipes :: nat
  events :: "event list"

definition say :: "string \<Rightarrow> u8 list \<Rightarrow> sh_world \<Rightarrow> sh_world" where
  "say m x w = w\<lparr>events := events w @ [Said m x]\<rparr>"

definition fd_alloc :: "fdtab \<Rightarrow> nat option" where
  "fd_alloc t = find (\<lambda>i. t i = None) [0..<16]"

definition u_close :: "nat \<Rightarrow> fdtab \<Rightarrow> fdtab" where
  "u_close fd t = t(fd := None)"

definition u_open :: "sh_env \<Rightarrow> u8 list \<Rightarrow> int \<Rightarrow> fdtab \<Rightarrow> (nat \<times> fdtab) option" where
  "u_open e f mode t = (case fd_alloc t of
       None \<Rightarrow> None
     | Some fd \<Rightarrow> if opens e f mode then Some (fd, t(fd \<mapsto> Opened f mode)) else None)"

definition u_dup :: "nat \<Rightarrow> fdtab \<Rightarrow> fdtab" where
  "u_dup fd t = (case (t fd, fd_alloc t) of (Some x, Some new) \<Rightarrow> t(new \<mapsto> x) | _ \<Rightarrow> t)"

text \<open>The two descriptors, the table with them; a descriptor allocated before the failure of the second is given back.\<close>

definition u_pipe :: "sh_env \<Rightarrow> nat \<Rightarrow> fdtab \<Rightarrow> (nat \<times> nat \<times> fdtab) option" where
  "u_pipe e k t = (if \<not> pipes_ok e k then None
     else case fd_alloc t of
       None \<Rightarrow> None
     | Some r \<Rightarrow> (case fd_alloc (t(r \<mapsto> PipeRead k)) of
           None \<Rightarrow> None
         | Some w \<Rightarrow> Some (r, w, t(r \<mapsto> PipeRead k, w \<mapsto> PipeWrite k))))"

subsection \<open>runcmd\<close>

text \<open>\<open>fork1\<close>: \<open>child\<close> is what the child does until it exits, \<open>parent\<close> what the parent does next.\<close>

definition fork1 :: "sh_env \<Rightarrow> (sh_world \<Rightarrow> sh_world) \<Rightarrow> (sh_world \<Rightarrow> sh_world) \<Rightarrow> sh_world \<Rightarrow> sh_world" where
  "fork1 e child parent w =
     (let w' = w\<lparr>n_forks := n_forks w + 1\<rparr>
      in if forks e (n_forks w) then parent (child w') else say ''fork'' [] w')"

primrec runcmd :: "sh_env \<Rightarrow> cmd \<Rightarrow> fdtab \<Rightarrow> sh_world \<Rightarrow> sh_world" where
  "runcmd e (EXEC argv) t w =
     (case argv of
        [] \<Rightarrow> w
      | a # _ \<Rightarrow> if execs e argv then w\<lparr>events := events w @ [Ran argv t]\<rparr> else say ''exec %s failed'' a w)"
| "runcmd e (REDIR c file mode fd) t w =
     (case u_open e file mode (u_close (nat fd) t) of
        None \<Rightarrow> say ''open %s failed'' file w
      | Some (_, t') \<Rightarrow> runcmd e c t' w)"
| "runcmd e (LIST left right) t w = fork1 e (runcmd e left t) (runcmd e right t) w"
| "runcmd e (PIPE left right) t w =
     (case u_pipe e (n_pipes w) t of
        None \<Rightarrow> say ''pipe'' [] w
      | Some (p0, p1, t') \<Rightarrow>
          fork1 e (runcmd e left (u_close p1 (u_close p0 (u_dup p1 (u_close 1 t')))))
            (fork1 e (runcmd e right (u_close p1 (u_close p0 (u_dup p0 (u_close 0 t'))))) id)
            (w\<lparr>n_pipes := n_pipes w + 1\<rparr>))"
| "runcmd e (BACK c) t w = fork1 e (runcmd e c t) id w"

subsection \<open>main\<close>

text \<open>The first loop: open the console until three descriptors are open, which takes at most four rounds (\<open>open_console_four\<close>).\<close>

fun open_console :: "nat \<Rightarrow> sh_env \<Rightarrow> fdtab \<Rightarrow> fdtab" where
  "open_console 0 e t = t"
| "open_console (Suc n) e t = (case u_open e [99, 111, 110, 115, 111, 108, 101] 2 t of
       None \<Rightarrow> t
     | Some (fd, t') \<Rightarrow> if fd \<ge> 3 then u_close fd t' else open_console n e t')"

text \<open>One line that \<open>getcmd\<close> has read, which has at least one byte.\<close>

definition run_line :: "sh_env \<Rightarrow> fdtab \<Rightarrow> u8 list \<Rightarrow> sh_world \<Rightarrow> sh_world" where
  "run_line e t buf w =
     (if take 3 buf = [99, 100, 32]
      then let dir = drop 3 (butlast buf)
        in if chdirs e dir then w\<lparr>events := events w @ [Changed_dir dir]\<rparr> else say ''cannot cd %s'' dir w
      else fork1 e (\<lambda>w. case parsecmd buf of
            Parsed c _ \<Rightarrow> runcmd e c t w
          | Syntax m \<Rightarrow> say m [] w
          | Leftovers l \<Rightarrow> say ''syntax'' [] (say ''leftovers: %s'' l w)
          | NoFuel \<Rightarrow> w) id w)"

text \<open>\<open>main\<close> on the lines that \<open>gets\<close> delivers; an empty one is the end of the input. A failed \<open>fork1\<close> ends the shell.\<close>

fun read_run :: "sh_env \<Rightarrow> fdtab \<Rightarrow> u8 list list \<Rightarrow> sh_world \<Rightarrow> sh_world" where
  "read_run e t [] w = w"
| "read_run e t (buf # bufs) w =
     (if buf = [] then w
      else if take 3 buf \<noteq> [99, 100, 32] \<and> \<not> forks e (n_forks w) then run_line e t buf w
      else read_run e t bufs (run_line e t buf w))"

definition sh_main :: "sh_env \<Rightarrow> u8 list list \<Rightarrow> fdtab \<Rightarrow> sh_world \<Rightarrow> sh_world" where
  "sh_main e bufs t w = read_run e (open_console 4 e t) bufs w"

subsection \<open>What a line means\<close>

text \<open>
  A command with standard input, output and error \<open>i\<close>, \<open>out\<close>, \<open>r\<close>: the programs it runs, each with its three descriptors
  and no other, and the messages; \<open>k\<close> is the next pipe.
\<close>

definition std :: "fobj \<Rightarrow> fobj \<Rightarrow> fobj \<Rightarrow> fdtab" where
  "std i out r = [0 \<mapsto> i, 1 \<mapsto> out, 2 \<mapsto> r]"

primrec meaning :: "sh_env \<Rightarrow> cmd \<Rightarrow> fobj \<Rightarrow> fobj \<Rightarrow> fobj \<Rightarrow> nat \<Rightarrow> event list \<times> nat" where
  "meaning e (EXEC argv) i out r k =
     ((case argv of [] \<Rightarrow> [] | a # _ \<Rightarrow> [if execs e argv then Ran argv (std i out r) else Said ''exec %s failed'' a]), k)"
| "meaning e (REDIR c file mode fd) i out r k =
     (if opens e file mode
      then meaning e c (if fd = 0 then Opened file mode else i) (if fd = 1 then Opened file mode else out) r k
      else ([Said ''open %s failed'' file], k))"
| "meaning e (LIST c d) i out r k =
     (let (a, k1) = meaning e c i out r k; (b, k2) = meaning e d i out r k1 in (a @ b, k2))"
| "meaning e (PIPE c d) i out r k =
     (let (a, k1) = meaning e c i (PipeWrite k) r (Suc k); (b, k2) = meaning e d (PipeRead k) out r k1 in (a @ b, k2))"
| "meaning e (BACK c) i out r k = meaning e c i out r k"

fun meanings :: "sh_env \<Rightarrow> fobj \<Rightarrow> fobj \<Rightarrow> fobj \<Rightarrow> u8 list list \<Rightarrow> nat \<Rightarrow> event list" where
  "meanings e i out r [] k = []"
| "meanings e i out r (buf # bufs) k =
     (if buf = [] then []
      else if take 3 buf = [99, 100, 32]
      then (let dir = drop 3 (butlast buf) in if chdirs e dir then Changed_dir dir else Said ''cannot cd %s'' dir) # meanings e i out r bufs k
      else case parsecmd buf of
          Parsed c _ \<Rightarrow> (let (a, k') = meaning e c i out r k in a @ meanings e i out r bufs k')
        | Syntax m \<Rightarrow> Said m [] # meanings e i out r bufs k
        | Leftovers l \<Rightarrow> Said ''leftovers: %s'' l # Said ''syntax'' [] # meanings e i out r bufs k
        | NoFuel \<Rightarrow> [])"

lemma fd_alloc_std [simp]:
  "fd_alloc (std i out r) = Some 3" "fd_alloc ((std i out r)(0 := None)) = Some 0" "fd_alloc ((std i out r)(Suc 0 := None)) = Some 1"
  "fd_alloc ((std i out r)(3 \<mapsto> a)) = Some 4"
  by (simp_all add: fd_alloc_def std_def upt_rec numeral_nat)

text \<open>The tables of the two children of a pipe: one end in place of a standard descriptor, both others closed.\<close>

lemma pipe_tables:
  assumes "t = (std i out r)(3 \<mapsto> PipeRead k, 4 \<mapsto> PipeWrite k)"
  shows "u_close 4 (u_close 3 (u_dup 4 (u_close 1 t))) = std i (PipeWrite k) r"
    and "u_close 4 (u_close 3 (u_dup 3 (u_close 0 t))) = std (PipeRead k) out r"
proof -
  have "fd_alloc (t(1 := None)) = Some 1" "fd_alloc (t(0 := None)) = Some 0"
    by (simp_all add: assms fd_alloc_def std_def upt_rec numeral_nat)
  then show "u_close 4 (u_close 3 (u_dup 4 (u_close 1 t))) = std i (PipeWrite k) r"
    "u_close 4 (u_close 3 (u_dup 3 (u_close 0 t))) = std (PipeRead k) out r"
    by (simp_all add: u_close_def u_dup_def assms std_def fun_eq_iff)
qed

lemma fork1_run: "\<forall>n. forks e n \<Longrightarrow> fork1 e child parent w = parent (child (w\<lparr>n_forks := n_forks w + 1\<rparr>))"
  by (simp add: fork1_def)

lemma runcmd_run:
  assumes "cmd_wf c" and "\<forall>n. forks e n" and "\<forall>n. pipes_ok e n"
  shows "(events (runcmd e c (std i out r) w), n_pipes (runcmd e c (std i out r) w))
    = (events w @ fst (meaning e c i out r (n_pipes w)), snd (meaning e c i out r (n_pipes w)))"
  using assms(1)
proof (induction c arbitrary: i out r w)
  case (EXEC argv)
  then show ?case by (cases argv) (simp_all add: say_def)
next
  case (REDIR c f mode fd)
  have "fd = 0 \<or> fd = 1" using REDIR.prems by (auto simp: redir_ok_def)
  then have "u_open e f mode (u_close (nat fd) (std i out r)) = (if opens e f mode
      then Some (nat fd, std (if fd = 0 then Opened f mode else i) (if fd = 1 then Opened f mode else out) r) else None)"
    by (auto simp: u_open_def u_close_def) (auto simp: std_def fun_eq_iff)
  then show ?case using REDIR by (auto simp: say_def)
next
  case (PIPE c d)
  let ?t = "(std i out r)(3 \<mapsto> PipeRead (n_pipes w), 4 \<mapsto> PipeWrite (n_pipes w))"
  have "u_pipe e (n_pipes w) (std i out r) = Some (3, 4, ?t)" using assms(3) by (simp add: u_pipe_def)
  then show ?case
    using PIPE assms(2) pipe_tables [OF refl, of i out r "n_pipes w"] by (simp add: fork1_run split_beta Let_def)
next
  case (LIST c d)
  then show ?case using assms(2) by (simp add: fork1_run split_beta Let_def)
next
  case (BACK c)
  then show ?case using assms(2) by (simp add: fork1_run)
qed

lemma parsecmd_wf: "parsecmd s = Parsed c x \<Longrightarrow> cmd_wf c" "parsecmd s \<noteq> NoFuel"
  using parse_total(1) [of s "4 * length s + 4"] by (auto simp: parsecmd_def parse_ok_def split: parse.splits if_splits)

lemma read_run_meanings:
  assumes "\<forall>n. forks e n" and "\<forall>n. pipes_ok e n"
  shows "events (read_run e (std i out r) bufs w) = events w @ meanings e i out r bufs (n_pipes w)"
proof (induction bufs arbitrary: w)
  case (Cons buf bufs)
  show ?case
  proof (cases "parsecmd buf")
    case (Parsed c x)
    show ?thesis
      using Cons runcmd_run [OF parsecmd_wf(1) [OF Parsed] assms, of i out r] assms(1) Parsed
      by (simp add: run_line_def fork1_run say_def Let_def split_beta)
  next
    case (Syntax m)
    then show ?thesis using Cons assms(1) by (simp add: run_line_def fork1_run say_def Let_def)
  next
    case (Leftovers l)
    then show ?thesis using Cons assms(1) by (simp add: run_line_def fork1_run say_def Let_def)
  qed (use parsecmd_wf in blast)
qed simp

lemma meaning_std: "Ran argv t \<in> set (fst (meaning e c i out r k)) \<Longrightarrow> \<exists>i' out'. t = std i' out' r"
  by (induction c arbitrary: i out k) (auto simp: split_beta Let_def split: list.splits if_splits)

lemma meanings_std: "Ran argv t \<in> set (meanings e i out r bufs k) \<Longrightarrow> \<exists>i' out'. t = std i' out' r"
proof (induction bufs arbitrary: k)
  case (Cons buf bufs)
  then show ?case by (auto simp: Let_def split_beta split: if_splits parse.splits dest: meaning_std)
qed simp

lemma open_console_std: "open_console (Suc n) e (std i out r) = std i out r"
proof -
  have "std i out r 3 = None" by (simp add: std_def)
  then show ?thesis by (auto simp: u_open_def u_close_def fun_upd_idem)
qed

text \<open>Four rounds are enough for the first loop: each round fills one of the descriptors 0, 1, 2 or is the last.\<close>

lemma fd_alloc_lowest: "fd_alloc t = Some fd \<Longrightarrow> t fd = None \<and> (\<forall>j < fd. t j \<noteq> None)"
  by (auto simp: fd_alloc_def find_Some_iff)

lemma open_console_more: "card {i. i < 3 \<and> t i = None} < n \<Longrightarrow> open_console (Suc n) e t = open_console n e t"
proof (induction n arbitrary: t)
  case (Suc n)
  show ?case
  proof (cases "u_open e [99, 111, 110, 115, 111, 108, 101] 2 t")
    case (Some x)
    obtain fd t' where x: "x = (fd, t')" by (cases x)
    show ?thesis
    proof (cases "fd \<ge> 3")
      case False
      have t: "t fd = None" "t' = t(fd \<mapsto> Opened [99, 111, 110, 115, 111, 108, 101] 2)"
        using Some x fd_alloc_lowest by (auto simp: u_open_def split: option.splits if_splits)
      then have "{i. i < 3 \<and> t' i = None} = {i. i < 3 \<and> t i = None} - {fd}" by auto
      then have "card {i. i < 3 \<and> t' i = None} < card {i. i < 3 \<and> t i = None}"
        using False t(1) by (simp only:) (rule card_Diff1_less, auto)
      then have "card {i. i < 3 \<and> t' i = None} < n" using Suc.prems by simp
      then show ?thesis using Suc.IH [of t'] Some x False by simp
    qed (use Some x in simp)
  qed simp
qed simp

lemma open_console_four: "open_console (n + 4) e t = open_console 4 e t"
proof (induction n)
  case (Suc n)
  have "card {i. i < 3 \<and> t i = None} \<le> card {..<3 :: nat}" by (rule card_mono) auto
  then show ?case using open_console_more [of t "n + 4" e] Suc by (simp del: open_console.simps)
qed simp

subsection \<open>Property\<close>

text \<open>
  C38 (refinement). What the shell runs is what the line means: redirections replace standard input and output, a pipe joins the
  output of its left to the input of its right command, lists and background commands run with the descriptors of the line,
  lines that do not parse (what is left over of the line is printed, too) and failing calls of \<open>open\<close> and \<open>exec\<close> give their message and nothing else. Every program is
  started with exactly the descriptors 0, 1 and 2: both ends of every pipe are closed everywhere else, so that a reader sees the end of its
  input when the writers have exited. Forks and pipes succeed; the shell is started with its three descriptors open.
\<close>

theorem shell_runs_meaning:
  assumes "\<forall>n. forks e n" and "\<forall>n. pipes_ok e n"
  shows "events (sh_main e bufs (std i out r) w) = events w @ meanings e i out r bufs (n_pipes w)
    \<and> (\<forall>argv t. Ran argv t \<in> set (meanings e i out r bufs (n_pipes w)) \<longrightarrow> dom t = {0, 1, 2} \<and> t 2 = Some r)"
proof -
  have "open_console 4 e (std i out r) = std i out r" using open_console_std [of 3 e i out r] by (simp del: open_console.simps)
  then have "events (sh_main e bufs (std i out r) w) = events w @ meanings e i out r bufs (n_pipes w)"
    using read_run_meanings [OF assms] by (simp add: sh_main_def)
  moreover have "dom t = {0, 1, 2} \<and> t 2 = Some r" if "Ran argv t \<in> set (meanings e i out r bufs (n_pipes w))" for argv t
    using meanings_std [OF that] by (auto simp: std_def split: if_splits)
  ultimately show ?thesis by (simp del: meanings.simps)
qed

definition easy_env :: sh_env where
  "easy_env = \<lparr>opens = \<lambda>_ _. True, execs = \<lambda>_. True, chdirs = \<lambda>_. True, forks = \<lambda>_. True, pipes_ok = \<lambda>_. True\<rparr>"

lemma parse_example: "parsecmd [97, 124, 98, 62, 102, 10] = Parsed (PIPE (EXEC [[97]]) (REDIR (EXEC [[98]]) [102] 0x601 1)) []" "parsecmd [97, 32, 41, 10] = Leftovers [41, 10]"
  by code_simp+

theorem shell_runs_meaning_witness:
  "events (sh_main easy_env [[97, 32, 41, 10], [97, 124, 98, 62, 102, 10], []] (std (Inherited 0) (Inherited 1) (Inherited 2)) \<lparr>n_forks = 0, n_pipes = 5, events = []\<rparr>)
    = [Said ''leftovers: %s'' [41, 10], Said ''syntax'' [], Ran [[97]] (std (Inherited 0) (PipeWrite 5) (Inherited 2)), Ran [[98]] (std (PipeRead 5) (Opened [102] 0x601) (Inherited 2))]"
  using shell_runs_meaning [of easy_env "[[97, 32, 41, 10], [97, 124, 98, 62, 102, 10], []]" "Inherited 0" "Inherited 1" "Inherited 2" "\<lparr>n_forks = 0, n_pipes = 5, events = []\<rparr>"]
  by (simp add: easy_env_def parse_example)

end
