(* ===== verification/Spec2Isabelle.thy ===== *)
theory Spec2Isabelle
  imports Kstring Spinlock Riscv Kalloc Vm Vm_Inv Vm_Copy Proc Vm_Frame Proc_Sched Proc_Group Proc_Wait
    Sleeplock Virtio Bio Log Fs Fs_Data Disk_Run Bcache Log_Commit Ring_Buffer Pipe Pipe_Fifo Console Console_Queue File Proc_Life
    Printf Sysfile Exec Exec_Args Sysproc Trap Clock Start Thread_Group Log_Space Fs_Op Fs_Rw Fs_Alloc Fs_Write
    Mkfs Mkfs_Append Mkfs_Image Grep Ulib Uprogs Umalloc Sh Sh_Run
begin

text \<open>
  \<^bold>\<open>The program.\<close> The repository holds xv6, a teaching kernel for RISC-V multiprocessors, extended by a course project with
  kernel threads: threads of a group share their physical user pages (with reference counts), have a leader, thread ids
  and system calls to create, join, exit and inspect them. Sources are under \<^verbatim>\<open>src/xv6-riscv/kernel\<close> and
  \<^verbatim>\<open>src/xv6-riscv/user\<close>, and \<^verbatim>\<open>mkfs\<close> beside them makes the disk image. From the bottom: spinlocks and interrupts; the page allocator; page tables; processes,
  scheduler, sleep and wakeup; sleep locks; the virtio disk driver; the buffer cache; the log; the file system; pipes and
  console; open files; process life cycle; system calls; \<open>exec\<close>; traps and start-up. User programs run on top of the system
  calls: a C library with an allocator, the shell, grep.

  \<^bold>\<open>How code is modelled.\<close> A routine is a function from a state to an outcome (\<open>Kernel_Prelude\<close>): \<open>Done\<close> with result and new
  state, \<open>Panic\<close> with the kernel's message, \<open>Spin\<close> on a lock another hart holds, \<open>Fault\<close> for a dereferenced null pointer,
  \<open>Hang\<close> for a loop that cannot end, and \<open>Block\<close> when the process gives the CPU away in \<open>sched\<close>. What follows a call that
  blocks is a definition of its own (\<open>sleep_resume\<close>, \<open>acquiresleep_loop\<close>, \<open>begin_op_loop\<close>, \<open>pipewrite_loop\<close>,
  \<open>sys_sleep_loop\<close>, ...), with which the process goes on. The state is one record that every component extends:
  \<open>machine\<close>, \<open>kmem\<close>, \<open>vm\<close>, \<open>kproc\<close>, \<open>ksleep\<close>, \<open>kvirtio\<close>, \<open>klog\<close>, \<open>kfs\<close>, \<open>kpipe\<close>, \<open>kcons\<close>, \<open>kfile\<close>, \<open>kprint\<close>,
  \<open>kclock\<close>, \<open>ktrap\<close>; a routine is polymorphic in the fields above it. Physical memory is a function from 64-bit
  addresses to bytes: page tables, free-list links and trapframes are bytes of it, so aliasing is what the hardware sees.
  C integers are words of their width, or \<open>int\<close> where the code cannot leave the range. Pointers into the kernel's static
  arrays are indices, with \<open>None\<close> for null.

  \<^bold>\<open>Theories and sources.\<close>
  \<^item> \<open>Kernel_Prelude\<close>: outcomes, byte memory, shared word lemmas. \<open>Riscv\<close>: \<^verbatim>\<open>param.h\<close>, \<^verbatim>\<open>memlayout.h\<close>, the paging macros of
    \<^verbatim>\<open>riscv.h\<close>. \<open>Kstring\<close>: \<^verbatim>\<open>string.c\<close>; each routine equals its closed form, \<open>memmove\<close> also on overlapping buffers.
  \<^item> \<open>Spinlock\<close>: \<^verbatim>\<open>spinlock.c\<close>, once as outcomes of one hart (contract \<open>mutex\<close>, interpreted as \<open>spin\<close>) and once as a step
    relation of all harts on one lock, with mutual exclusion as its invariant.
  \<^item> \<open>Kalloc\<close>: \<^verbatim>\<open>kalloc.c\<close>; the free list in memory implements a stack of pages (contract \<open>page_allocator\<close>, interpreted as
    \<open>kmem\<close>).
  \<^item> \<open>Vm\<close>: \<^verbatim>\<open>vm.c\<close>. \<open>Vm_Inv\<close>: what a page table in memory means, that its pages form a tree apart from the free list, and
    that \<open>walk\<close> keeps this. \<open>Vm_Copy\<close>: \<open>mappages\<close>, \<open>copyin\<close>, \<open>copyout\<close>, \<open>copyinstr\<close>, \<open>free_user_page\<close> on the user's view of
    memory. \<open>Vm_Frame\<close>: what the memory routines leave alone.
  \<^item> \<open>Proc\<close>: \<^verbatim>\<open>proc.h\<close> and the part of \<^verbatim>\<open>proc.c\<close> below the file system. \<open>Proc_Sched\<close>: scheduler, sleep, wakeup, kill, and the
    sleep/wakeup protocol of two harts as a step relation in which no wakeup is lost. \<open>Proc_Group\<close>: rings of threads,
    \<open>getfamily\<close>, \<open>getstatus\<close>. \<open>Proc_Wait\<close>: \<open>freeproc\<close> and \<open>wait\<close>. \<open>Proc_Life\<close>: \<open>fork\<close>, \<open>thread_create\<close>, \<open>exit\<close>,
    \<open>thread_exit\<close>, first returns. \<open>Thread_Group\<close>: the ring and the thread ids that \<open>thread_create\<close> keeps, and the order
    of locks at exit.
  \<^item> \<open>Sleeplock\<close>: \<^verbatim>\<open>sleeplock.c\<close>. \<open>Virtio\<close>: \<^verbatim>\<open>virtio_disk.c\<close> with the device of the virtio specification, which obeys the lengths and flags of the descriptors. \<open>Bio\<close>: \<^verbatim>\<open>bio.c\<close>.
    \<open>Disk_Run\<close>: what a transfer does when nothing else uses the disk. \<open>Bcache\<close>: the cache is transparent and recycles the
    least recently used buffer.
  \<^item> \<open>Log\<close>: \<^verbatim>\<open>log.c\<close>. \<open>Log_Commit\<close>: a commit is atomic under crashes. \<open>Log_Space\<close>: reservations of \<open>begin_op\<close> bound
    \<open>log_write\<close>. \<open>Fs\<close>: \<^verbatim>\<open>fs.c\<close>. \<open>Fs_Data\<close>: inodes, bitmap, directory entries and path names. \<open>Fs_Op\<close>: reading and logging blocks inside an operation,
    also while another buffer is held, and the room they need in the log. \<open>Fs_Rw\<close>: a file is a list of bytes for \<open>readi\<close>. \<open>Fs_Alloc\<close>: \<open>balloc\<close> takes a
    free block or finds the disk full. \<open>Fs_Write\<close>: \<open>bmap\<close> with allocation, and \<open>writei\<close> over the blocks the file has and the ones it takes.
  \<^item> \<open>Ring_Buffer\<close>: ring buffers with wrapping counters (contract \<open>byte_queue\<close>). \<open>Pipe\<close>: \<^verbatim>\<open>pipe.c\<close>; \<open>Pipe_Fifo\<close> interprets the
    contract as \<open>pq\<close> and lifts it to the system-call level. \<open>Console\<close>: \<^verbatim>\<open>console.c\<close>, \<^verbatim>\<open>uart.c\<close>; \<open>Console_Queue\<close> interprets the
    contract for the transmit buffer as \<open>tx\<close>. \<open>File\<close>: \<^verbatim>\<open>file.c\<close>, \<open>pipealloc\<close>. \<open>Printf\<close>: \<^verbatim>\<open>printf.c\<close>.
  \<^item> \<open>Sysfile\<close>: \<^verbatim>\<open>sysfile.c\<close> and the argument routines of \<^verbatim>\<open>syscall.c\<close>. \<open>Exec\<close>: \<^verbatim>\<open>exec.c\<close>, \<^verbatim>\<open>elf.h\<close>, \<open>sys_exec\<close>; \<open>Exec_Args\<close>: the stack that \<open>exec\<close> builds. \<open>Sysproc\<close>:
    \<^verbatim>\<open>sysproc.c\<close> and the dispatcher. \<open>Trap\<close>: \<^verbatim>\<open>trap.c\<close>, \<^verbatim>\<open>plic.c\<close>, \<^verbatim>\<open>main.c\<close>. \<open>Clock\<close>: a timer interrupt from \<open>kerneltrap\<close>
    to the process it wakes, and \<open>sys_sleep\<close> across interrupts. \<open>Start\<close>: \<^verbatim>\<open>start.c\<close> and \<open>timervec\<close> of \<^verbatim>\<open>kernelvec.S\<close>, which
    keep the timer going below the kernel.
  \<^item> \<open>Mkfs\<close>: \<^verbatim>\<open>mkfs/mkfs.c\<close>, the host program that makes the disk image. \<open>Mkfs_Append\<close>: one file on the image and how
    \<open>iappend\<close> extends it. \<open>Mkfs_Image\<close>: the whole image holds the given files where the kernel looks for them.
  \<^item> \<open>Ulib\<close>: \<^verbatim>\<open>user/ulib.c\<close>, \<^verbatim>\<open>user/printf.c\<close>. \<open>Umalloc\<close>: \<^verbatim>\<open>user/umalloc.c\<close> (contract \<open>unit_allocator\<close>, interpreted as
    \<open>um\<close>). \<open>Sh\<close>: the parser of \<^verbatim>\<open>user/sh.c\<close>; \<open>Sh_Run\<close>: its \<open>runcmd\<close> and \<open>main\<close>, which programs
    run with which descriptors. \<open>Grep\<close>: \<^verbatim>\<open>user/grep.c\<close>. \<open>Uprogs\<close>: the small user programs and
    \<^verbatim>\<open>knife_threads.c\<close>.

  \<^bold>\<open>Interleaving.\<close> The outcome functions run one hart at a time; what another hart could do in between is excluded by the locks
  a property assumes to be free, and the two protocols where the interleaving itself is the point, acquiring a lock and
  sleeping, are step relations over their atomic steps. Crashes are modelled by cutting the sequence of disk writes of a
  commit at any point; one block is written atomically.

  \<^bold>\<open>Fuel and termination.\<close> Loops over the process table, the buffers, the descriptors and the pages of a range are recursions
  on lists or with a measure. \<open>ring_loop\<close> and the scans of the buffer list take as fuel the number of slots; on a ring
  or list of distinct slots this is enough (\<open>ring_do_each\<close>, \<open>Bcache\<close>), and running out is \<open>Hang\<close>. The shell's parser takes
  as fuel the length of its input, which is shown to be enough. \<open>malloc\<close>, \<open>free\<close> and the string loops of the user library are
  \<open>partial_function (option)\<close>, and that \<open>malloc\<close> returns is a theorem.

  \<^bold>\<open>Not modelled.\<close> Assembly (\<^verbatim>\<open>entry.S\<close>, \<^verbatim>\<open>kernelvec.S\<close> apart from \<open>timervec\<close>, \<^verbatim>\<open>trampoline.S\<close>, \<^verbatim>\<open>swtch.S\<close>,
  \<^verbatim>\<open>initcode.S\<close>); memory barriers and the TLB; \<^verbatim>\<open>ramdisk.c\<close>, which is not linked; the console's
  output of \<open>procdump\<close> and the message of \<open>balloc\<close> on a full disk; how \<open>init\<close> opens the console; the test programs; and the course exercises outside \<^verbatim>\<open>xv6-riscv\<close>, which are separate
  programs.
\<close>

end
